(* ===== verification/Prelude.thy ===== *)
theory Prelude
  imports Main "HOL-Library.Word"
begin

text \<open>
  What every component of the development shares: the machine types of the Go program,
  the error values its functions return, sequencing of fallible steps, the fixed-width
  byte orders of \<open>encoding/binary\<close>, and generic lemmas on lists and words.

  Go's \<open>uint8\<close>, \<open>uint16\<close>, \<open>uint32\<close> and \<open>uint64\<close> are words of that width. An \<open>int64\<close> is a
  64-bit word read with \<open>sint\<close>: Go's arithmetic on it wraps, which is what \<open>+\<close>, \<open>-\<close> and
  unary minus on words do, and a conversion between \<open>int64\<close> and \<open>uint64\<close> keeps the bits.
  A Go \<open>string\<close> is the list of its bytes.
\<close>

unbundle bit_operations_syntax

type_synonym byte = "8 word"
type_synonym u16 = "16 word"
type_synonym u32 = "32 word"
type_synonym u64 = "64 word"
type_synonym i64 = "64 word"
type_synonym bytes = "byte list"
type_synonym gostring = "byte list"

section \<open>Errors and fallible steps\<close>

text \<open>
  The sentinel errors of the packages under \<open>encoding/\<close>, and \<open>Errorf\<close> for an error made
  on the spot with \<open>fmt.Errorf\<close> or \<open>errors.New\<close> (its text shortened). \<open>GoPanic\<close> is a
  run-time panic: a slice expression or an index out of range. \<open>OutOfFuel\<close> is no value of
  the program: it marks that the step bound of a loop was too small, and for every loop
  that has a bound it is proved never to be the result.
\<close>

datatype err =
    ErrOverflow | ErrTruncated
  | ErrColumnar
  | ErrBlock
  | ErrFrame
  | ErrSSTable
  | ErrShort | ErrMagic | ErrOutdated | ErrUnknownMode | ErrChecksum
  | Errorf string
  | GoPanic
  | OutOfFuel

type_synonym 'a res = "err + 'a"

definition bindR :: "'a res \<Rightarrow> ('a \<Rightarrow> 'b res) \<Rightarrow> 'b res" where
  "bindR m f = (case m of Inl e \<Rightarrow> Inl e | Inr x \<Rightarrow> f x)"

lemma bindR_simps [simp]:
  "bindR (Inl e) f = Inl e"
  "bindR (Inr x) f = f x"
  by (simp_all add: bindR_def)

lemma bindR_cong [fundef_cong]:
  "m = m' \<Longrightarrow> (\<And>x. m' = Inr x \<Longrightarrow> f x = g x) \<Longrightarrow> bindR m f = bindR m' g"
  by (auto simp: bindR_def split: sum.splits)

lemma bindR_Inr_iff: "bindR m f = Inr y \<longleftrightarrow> (\<exists>x. m = Inr x \<and> f x = Inr y)"
  by (cases m) auto

lemma bindR_Inl_iff: "bindR m f = Inl e \<longleftrightarrow> m = Inl e \<or> (\<exists>x. m = Inr x \<and> f x = Inl e)"
  by (cases m) auto

lemma bindR_InrE:
  assumes "bindR m f = Inr y"
  obtains x where "m = Inr x" and "f x = Inr y"
  using assms by (auto simp: bindR_Inr_iff)

lemma bindR_assoc: "bindR (bindR m f) g = bindR m (\<lambda>x. bindR (f x) g)"
  by (cases m) auto

lemma if_Inl_eq_Inr [simp]:
  "(if b then Inl e else m) = Inr y \<longleftrightarrow> \<not> b \<and> m = Inr y"
  by auto

text \<open>\<open>go_error e\<close>: \<open>e\<close> is a value of Go's \<open>error\<close> type, neither a panic nor a spent bound.\<close>

definition go_error :: "err \<Rightarrow> bool" where
  "go_error e \<longleftrightarrow> e \<noteq> GoPanic \<and> e \<noteq> OutOfFuel"

lemma go_error_simps [simp]:
  "go_error ErrOverflow" "go_error ErrTruncated" "go_error ErrColumnar" "go_error ErrBlock"
  "go_error ErrFrame" "go_error ErrSSTable" "go_error ErrShort" "go_error ErrMagic"
  "go_error ErrOutdated" "go_error ErrUnknownMode" "go_error ErrChecksum" "go_error (Errorf s)"
  "\<not> go_error GoPanic" "\<not> go_error OutOfFuel"
  by (simp_all add: go_error_def)

section \<open>Words and bits\<close>

text \<open>Reading a machine integer as Go's \<open>int\<close> (64 bits) or as a length.\<close>

lemma sint_of_int_small: "- (2 ^ 63) \<le> k \<Longrightarrow> k < 2 ^ 63 \<Longrightarrow> sint (word_of_int k :: i64) = k"
proof -
  assume k: "- (2 ^ 63) \<le> k" "k < 2 ^ 63"
  have "sint (word_of_int k :: i64) = signed_take_bit 63 k"
    by (simp add: signed_of_int)
  also have "\<dots> = k"
    using k by (rule signed_take_bit_int_eq_self)
  finally show ?thesis .
qed

lemma sint_nonneg_uint: "uint (w :: i64) < 2 ^ 63 \<Longrightarrow> sint w = uint w"
proof -
  assume "uint w < 2 ^ 63"
  moreover have "- (2 ^ 63) \<le> uint w"
    by (rule order_trans [of _ 0]) simp_all
  ultimately have "sint (word_of_int (uint w) :: i64) = uint w"
    by (intro sint_of_int_small)
  then show "sint w = uint w" by simp
qed

lemma sint_of_nat_small: "n < 2 ^ 63 \<Longrightarrow> sint (of_nat n :: i64) = int n"
  using sint_of_int_small [of "int n"] by simp

lemma sint_minus_of_nat_small: "n < 2 ^ 63 \<Longrightarrow> sint (- of_nat n :: i64) = - int n"
  using sint_of_int_small [of "- int n"] by simp

lemma unat_of_nat_small: "n < 2 ^ 64 \<Longrightarrow> unat (of_nat n :: u64) = n"
  by (simp add: unat_of_nat take_bit_nat_eq_self)

lemma unat_of_nat_fits: "n < 2 ^ LENGTH('a) \<Longrightarrow> unat (of_nat n :: 'a::len word) = n"
  by (simp add: unat_of_nat take_bit_nat_eq_self)

lemma unat_exp_word:
  assumes "n < LENGTH('a)"
  shows "unat (2 ^ n :: 'a::len word) = 2 ^ n"
proof -
  have "unat (of_nat (2 ^ n) :: 'a word) = take_bit LENGTH('a) (2 ^ n)"
    by (simp only: unsigned_of_nat of_nat_id)
  also have "\<dots> = 2 ^ n"
    using assms by (intro take_bit_nat_eq_self) simp
  finally show ?thesis by simp
qed

lemma word_less_exp_iff:
  "n < LENGTH('a) \<Longrightarrow> w < 2 ^ n \<longleftrightarrow> take_bit n w = (w :: 'a::len word)"
  by (simp only: word_less_nat_alt unat_exp_word word_unat_eq_iff unsigned_take_bit_eq
      take_bit_nat_eq_self_iff)

lemma unat_drop_bit: "unat (drop_bit n w) = unat w div 2 ^ n"
  using unsigned_drop_bit_eq [of n w, where 'a = nat]
  by (simp only: take_bit_nat_eq_self [OF unsigned_less]) (simp only: drop_bit_eq_div)

section \<open>Fixed-width byte orders\<close>

text \<open>
  \<open>binary.LittleEndian\<close> and \<open>binary.BigEndian\<close>: the \<open>Put\<close> functions write the bytes of a
  word, the reading functions combine the first bytes of a slice. A read past the end of
  the slice panics in Go; every caller below checks the length before it reads.
\<close>

definition le_put :: "nat \<Rightarrow> 'a::len word \<Rightarrow> bytes" where
  "le_put n w = map (\<lambda>i. ucast (drop_bit (8 * i) w)) [0..<n]"

fun le_get :: "bytes \<Rightarrow> 'a::len word" where
  "le_get [] = 0"
| "le_get (c # cs) = ucast c OR push_bit 8 (le_get cs)"

definition be_put :: "nat \<Rightarrow> 'a::len word \<Rightarrow> bytes" where
  "be_put n w = rev (le_put n w)"

definition be_get :: "bytes \<Rightarrow> 'a::len word" where
  "be_get b = le_get (rev b)"

lemma length_le_put [simp]: "length (le_put n w) = n"
  by (simp add: le_put_def)

lemma length_be_put [simp]: "length (be_put n w) = n"
  by (simp add: be_put_def)

lemma le_put_0 [simp]: "le_put 0 w = []"
  by (simp add: le_put_def)

lemma le_put_Suc: "le_put (Suc n) w = ucast w # le_put n (drop_bit 8 w)"
  by (simp add: le_put_def upt_conv_Cons map_Suc_upt [symmetric] ac_simps del: upt_Suc map_Suc_upt)

lemma bit_le_get_put:
  "bit (le_get (le_put n w) :: 'a::len word) i \<longleftrightarrow> bit (w :: 'a word) i \<and> i < 8 * n"
proof (induction n arbitrary: w i)
  case 0
  then show ?case by simp
next
  case (Suc n)
  show ?case
    by (cases "i < 8")
      (auto simp: le_put_Suc bit_or_iff bit_push_bit_iff bit_ucast_iff Suc.IH bit_drop_bit_eq
        bit_imp_le_length)
qed

lemma le_get_put:
  "LENGTH('a) \<le> 8 * n \<Longrightarrow> le_get (le_put n w) = (w :: 'a::len word)"
  by (rule bit_eqI) (auto simp: bit_le_get_put dest: bit_imp_le_length)

lemma be_get_put:
  "LENGTH('a) \<le> 8 * n \<Longrightarrow> be_get (be_put n w) = (w :: 'a::len word)"
  by (simp add: be_get_def be_put_def le_get_put)

lemma bit_le_get:
  "bit (le_get cs :: 'a::len word) i \<longleftrightarrow>
    i < LENGTH('a) \<and> i div 8 < length cs \<and> bit (cs ! (i div 8)) (i mod 8)"
proof (induction cs arbitrary: i)
  case (Cons c cs)
  show ?case
  proof (cases "i < 8")
    case True
    then show ?thesis
      by (auto simp: bit_or_iff bit_push_bit_iff bit_ucast_iff)
  next
    case False
    then obtain j where i: "i = j + 8" by (metis add.commute le_add_diff_inverse not_less)
    have "\<not> bit c i" using False by (auto dest: bit_imp_le_length)
    moreover have "(j + 8) div 8 = Suc (j div 8)" by simp
    ultimately show ?thesis
      by (auto simp: i bit_or_iff bit_push_bit_iff bit_ucast_iff Cons.IH)
  qed
qed simp

lemma le_put_get:
  assumes "8 * length cs \<le> LENGTH('a)" and "n = length cs"
  shows "le_put n (le_get cs :: 'a::len word) = cs"
proof (rule nth_equalityI)
  fix k
  assume "k < length (le_put n (le_get cs :: 'a word))"
  then have k: "k < length cs" using assms(2) by simp
  have "bit (ucast (drop_bit (8 * k) (le_get cs :: 'a word)) :: byte) j \<longleftrightarrow> bit (cs ! k) j" for j
  proof (cases "j < 8")
    case True
    then have "(8 * k + j) div 8 = k" and "(8 * k + j) mod 8 = j" by simp_all
    then show ?thesis
      using True k assms(1) by (simp add: bit_ucast_iff bit_drop_bit_eq bit_le_get)
  qed (auto simp: bit_ucast_iff dest: bit_imp_le_length)
  then show "le_put n (le_get cs :: 'a word) ! k = cs ! k"
    using k assms(2) by (auto simp: le_put_def intro: bit_eqI)
qed (use assms in simp)

lemma be_put_get:
  assumes "8 * length cs \<le> LENGTH('a)" and "n = length cs"
  shows "be_put n (be_get cs :: 'a::len word) = cs"
  using le_put_get [of "rev cs" n, where 'a = 'a] assms by (simp add: be_put_def be_get_def)

section \<open>Lists\<close>

lemma split_at_length:
  assumes "n \<le> length xs"
  obtains ys zs where "xs = ys @ zs" and "length ys = n"
  using assms by (metis append_take_drop_id length_take min.absorb2)

lemma take_append_exact: "n = length xs \<Longrightarrow> take n (xs @ ys) = xs"
  by simp

lemma drop_append_exact: "n = length xs \<Longrightarrow> drop n (xs @ ys) = ys"
  by simp

lemma list_split_take:
  "drop n xs = ys @ zs \<Longrightarrow> drop (n + length ys) xs = zs"
  by (metis append_eq_conv_conj drop_drop add.commute)

end
