(* ===== verification/Postcard.thy ===== *)
theory Postcard
  imports Prelude
begin

text \<open>
  Package \<open>encoding/postcard\<close>: unsigned LEB128 varints, zigzag varints, and the \<open>Reader\<close>
  cursor every decoder of the program reads through. The loops of the decoders, which run
  over a \<open>Reader\<close> until a condition fails, are instances of one combinator,
  \<open>while_reader\<close>. Two locales state what callers rely on: \<open>cursor\<close>, that a reading
  function only moves the cursor forward inside the buffer, and \<open>codec\<close>, that it reads back
  what its writer wrote and stops just behind it.
\<close>

section \<open>Varints (varint.go)\<close>

text \<open>
  \<open>Uvarint\<close> walks the slice with the index \<open>i\<close>, the value so far \<open>x\<close> and the shift \<open>s\<close>.
\<close>

fun uvarint_loop :: "bytes \<Rightarrow> nat \<Rightarrow> u64 \<Rightarrow> nat \<Rightarrow> (u64 \<times> nat) res" where
  "uvarint_loop [] i x s = Inl ErrTruncated"
| "uvarint_loop (c # b) i x s =
     (if i = 10 then Inl ErrOverflow
      else if c < 0x80 then
        (if i = 9 \<and> c > 1 then Inl ErrOverflow
         else Inr (x OR push_bit s (ucast c), i + 1))
      else uvarint_loop b (i + 1) (x OR push_bit s (ucast (c AND 0x7f))) (s + 7))"

definition Uvarint :: "bytes \<Rightarrow> (u64 \<times> nat) res" where
  "Uvarint b = uvarint_loop b 0 0 0"

function AppendUvarint :: "bytes \<Rightarrow> u64 \<Rightarrow> bytes" where
  "AppendUvarint dst v =
     (if v \<ge> 0x80 then AppendUvarint (dst @ [ucast v OR 0x80]) (drop_bit 7 v)
      else dst @ [ucast v])"
  by pat_completeness auto
termination
proof (relation "measure (\<lambda>(dst, v). unat v)")
  fix dst :: bytes and v :: u64
  assume "v \<ge> 0x80"
  then have "unat v > 0" by (simp add: word_le_nat_alt)
  then have "unat (drop_bit 7 v) < unat v"
    by (simp only: unat_drop_bit) simp
  then show "((dst @ [ucast v OR 0x80], drop_bit 7 v), (dst, v)) \<in> measure (\<lambda>(dst, v). unat v)"
    by simp
qed simp

declare AppendUvarint.simps [simp del]

definition Zigzag :: "i64 \<Rightarrow> u64" where
  "Zigzag v = push_bit 1 v XOR signed_drop_bit 63 v"

definition Unzigzag :: "u64 \<Rightarrow> i64" where
  "Unzigzag v = drop_bit 1 v XOR - (v AND 1)"

definition AppendVarint :: "bytes \<Rightarrow> i64 \<Rightarrow> bytes" where
  "AppendVarint dst v = AppendUvarint dst (Zigzag v)"

definition Varint :: "bytes \<Rightarrow> (i64 \<times> nat) res" where
  "Varint b = bindR (Uvarint b) (\<lambda>(u, n). Inr (Unzigzag u, n))"

subsection \<open>The bytes of a varint\<close>

text \<open>\<open>uvarint_bytes v\<close> is what \<open>AppendUvarint\<close> appends.\<close>

abbreviation uvarint_bytes :: "u64 \<Rightarrow> bytes" where
  "uvarint_bytes v \<equiv> AppendUvarint [] v"

abbreviation varint_bytes :: "i64 \<Rightarrow> bytes" where
  "varint_bytes v \<equiv> AppendVarint [] v"

lemma AppendUvarint_append: "AppendUvarint (dst @ dst') v = dst @ AppendUvarint dst' v"
proof (induction dst' v rule: AppendUvarint.induct)
  case (1 dst' v)
  then show ?case
    by (cases "v \<ge> 0x80") (simp_all add: AppendUvarint.simps [of _ v])
qed

lemma AppendUvarint_eq: "AppendUvarint dst v = dst @ uvarint_bytes v"
  using AppendUvarint_append [of dst "[]" v] by simp

lemma AppendVarint_eq: "AppendVarint dst v = dst @ varint_bytes v"
  by (simp add: AppendVarint_def AppendUvarint_eq [of dst])

lemma uvarint_bytes_small: "v < 0x80 \<Longrightarrow> uvarint_bytes v = [ucast v]"
  by (subst AppendUvarint.simps) (simp add: not_le [symmetric])

lemma uvarint_bytes_large:
  "v \<ge> 0x80 \<Longrightarrow> uvarint_bytes v = (ucast v OR 0x80) # uvarint_bytes (drop_bit 7 v)"
  by (subst AppendUvarint.simps) (simp add: AppendUvarint_eq [of "[_]"])

lemma uvarint_bytes_nonempty [simp]: "uvarint_bytes v \<noteq> []"
  by (cases "v < 0x80") (simp_all add: uvarint_bytes_small uvarint_bytes_large)

lemma varint_bytes_nonempty [simp]: "varint_bytes v \<noteq> []"
  by (simp add: AppendVarint_def)

subsection \<open>Reading back what was written\<close>

lemma low7_take_bit: "v < 0x80 \<longleftrightarrow> take_bit 7 (v :: 'a::len word) = v"
  if "LENGTH('a) > 7"
  using that word_less_exp_iff [of 7 v] by simp

lemma ucast_low7: "v < 0x80 \<Longrightarrow> (ucast (v :: u64) :: byte) < 0x80 \<and> ucast (ucast v :: byte) = v"
  by (simp add: low7_take_bit bit_eq_iff [of _ v] bit_eq_iff [of "take_bit 7 (ucast v)"]
      bit_take_bit_iff bit_ucast_iff) fastforce

lemma byte_consts: "(0x80 :: byte) = 2 ^ 7" "(0x7f :: byte) = mask 7"
  by (simp_all add: mask_eq_exp_minus_1)

lemma continuation_byte: "\<not> (ucast (v :: u64) OR 0x80 :: byte) < 0x80"
proof
  assume "(ucast v OR 0x80 :: byte) < 0x80"
  then have "take_bit 7 (ucast v OR 0x80 :: byte) = ucast v OR 0x80"
    by (simp add: low7_take_bit)
  then have "bit (take_bit 7 (ucast v OR 0x80 :: byte)) 7"
    by (simp only:) (simp add: bit_simps)
  then show False by (simp add: bit_take_bit_iff)
qed

lemma payload_byte: "ucast ((ucast (v :: u64) OR 0x80 :: byte) AND 0x7f) = take_bit 7 v"
  unfolding byte_consts
  by (rule bit_eqI, simp only: bit_simps) auto

lemma last_byte: "take_bit 1 v = v \<Longrightarrow> \<not> (ucast (v :: u64) :: byte) > 1"
proof
  assume "take_bit 1 v = v" and gt: "(ucast v :: byte) > 1"
  then have "v = of_bool (odd v)"
    by (metis take_bit_Suc_0 One_nat_def odd_iff_mod_2_eq_one take_bit_eq_mod of_bool_odd_eq_mod_2
        power_one_right)
  then have "v = 0 \<or> v = 1"
    by (cases "odd v") simp_all
  with gt show False by auto
qed

lemma varint_glue:
  "push_bit s (take_bit 7 v) OR push_bit (s + 7) (drop_bit 7 v) = push_bit s (v :: u64)"
proof (rule bit_eqI)
  fix n
  show "bit (push_bit s (take_bit 7 v) OR push_bit (s + 7) (drop_bit 7 v)) n \<longleftrightarrow>
      bit (push_bit s v) n"
    by (cases "n < s + 7")
      (auto simp: bit_or_iff bit_push_bit_iff bit_take_bit_iff bit_drop_bit_eq)
qed

lemma uvarint_loop_bytes:
  assumes "i \<le> 9" and "take_bit (64 - 7 * i) v = v"
  shows "uvarint_loop (uvarint_bytes v @ ys) i x (7 * i) =
    Inr (x OR push_bit (7 * i) v, i + length (uvarint_bytes v))"
  using assms
proof (induction "unat v" arbitrary: v i x rule: less_induct)
  case less
  show ?case
  proof (cases "v < 0x80")
    case True
    have "\<not> (i = 9 \<and> (ucast v :: byte) > 1)"
      using less.prems last_byte [of v] by auto
    with True less.prems show ?thesis
      by (simp add: uvarint_bytes_small ucast_low7)
  next
    case False
    then have ge: "v \<ge> 0x80" by simp
    have "i \<noteq> 9"
    proof
      assume "i = 9"
      with less.prems have "take_bit 1 v = v" by simp
      then have "take_bit 7 v = v"
        by (metis take_bit_take_bit min.absorb2 one_le_numeral)
      with False show False by (simp add: low7_take_bit)
    qed
    with less.prems have i: "i \<le> 8" by simp
    have "unat v > 0" using ge by (simp add: word_le_nat_alt)
    then have smaller: "unat (drop_bit 7 v) < unat v"
      by (simp only: unat_drop_bit) simp
    have fits: "take_bit (64 - 7 * (i + 1)) (drop_bit 7 v) = drop_bit 7 v"
      using less.prems(2) drop_bit_take_bit [of 7 "64 - 7 * i" v] by (simp add: algebra_simps)
    have "uvarint_loop (uvarint_bytes v @ ys) i x (7 * i) =
        uvarint_loop (uvarint_bytes (drop_bit 7 v) @ ys) (i + 1)
          (x OR push_bit (7 * i) (take_bit 7 v)) (7 * (i + 1))"
      using i ge by (simp add: uvarint_bytes_large continuation_byte payload_byte add.commute)
    also have "\<dots> = Inr ((x OR push_bit (7 * i) (take_bit 7 v)) OR push_bit (7 * (i + 1)) (drop_bit 7 v),
        i + 1 + length (uvarint_bytes (drop_bit 7 v)))"
      by (rule less.hyps [OF smaller _ fits]) (use i in simp)
    finally show ?thesis
      using ge varint_glue [of "7 * i" v]
      by (simp add: uvarint_bytes_large or.assoc algebra_simps)
  qed
qed

lemma Uvarint_append:
  "Uvarint (uvarint_bytes v @ ys) = Inr (v, length (uvarint_bytes v))"
proof -
  have "take_bit 64 v = v"
    using take_bit_length_eq [of v] by simp
  then show ?thesis
    using uvarint_loop_bytes [of 0 v ys 0] by (simp add: Uvarint_def)
qed

subsection \<open>Zigzag\<close>

lemma neg_low_bit: "bit (- (u AND 1) :: u64) i \<longleftrightarrow> i < 64 \<and> bit u 0"
proof -
  have "u AND 1 = of_bool (bit u 0)"
    by (simp add: and_one_eq bit_0 mod2_eq_if)
  then show ?thesis
    by (cases "bit u 0") (simp_all add: bit_minus_1_iff possible_bit_def)
qed

lemma bit_less_64: "bit (v :: u64) i \<Longrightarrow> i < 64"
  using bit_imp_le_length [of v i] by auto

lemma bit_Unzigzag: "bit (Unzigzag u) i \<longleftrightarrow> i < 64 \<and> bit u (Suc i) \<noteq> bit u 0"
  by (simp only: Unzigzag_def bit_xor_iff bit_drop_bit_eq o_apply neg_low_bit plus_1_eq_Suc)
    (auto dest: bit_less_64)

lemma bit_Zigzag: "bit (Zigzag v) i \<longleftrightarrow> i < 64 \<and> (0 < i \<and> bit v (i - 1)) \<noteq> bit v 63"
  by (cases i; simp only: Zigzag_def bit_xor_iff bit_push_bit_iff bit_signed_drop_bit_iff
      possible_bit_def exp_eq_zero_iff)
    (auto dest: bit_less_64)

lemma Unzigzag_Zigzag [simp]: "Unzigzag (Zigzag v) = v"
proof (rule bit_eqI)
  fix n
  show "bit (Unzigzag (Zigzag v)) n \<longleftrightarrow> bit v n"
    by (cases "n < 63"; cases "n = 63") (auto simp: bit_Unzigzag bit_Zigzag dest: bit_less_64)
qed

lemma Zigzag_Unzigzag [simp]: "Zigzag (Unzigzag u) = u"
proof (rule bit_eqI)
  fix n
  show "bit (Zigzag (Unzigzag u)) n \<longleftrightarrow> bit u n"
    by (cases n) (auto simp: bit_Unzigzag bit_Zigzag dest: bit_less_64)
qed

lemma Varint_append:
  "Varint (varint_bytes v @ ys) = Inr (v, length (varint_bytes v))"
  by (simp add: Varint_def AppendVarint_def Uvarint_append)

subsection \<open>How far a varint reaches\<close>

lemma uvarint_loop_consumed:
  "uvarint_loop b i x s = Inr (v, n) \<Longrightarrow> i < n \<and> n \<le> i + length b \<and> (i \<le> 10 \<longrightarrow> n \<le> 10)"
proof (induction b arbitrary: i x s)
  case Nil
  then show ?case by simp
next
  case (Cons c b)
  show ?case
  proof (cases "c < 0x80 \<or> i = 10")
    case True
    with Cons.prems show ?thesis by (auto split: if_splits)
  next
    case False
    with Cons.prems have
      "uvarint_loop b (i + 1) (x OR push_bit s (ucast (c AND 0x7f))) (s + 7) = Inr (v, n)"
      by auto
    from Cons.IH [OF this] False show ?thesis by auto
  qed
qed

lemma Uvarint_consumed: "Uvarint b = Inr (v, n) \<Longrightarrow> 0 < n \<and> n \<le> length b \<and> n \<le> 10"
  using uvarint_loop_consumed [of b 0 0 0 v n] by (simp add: Uvarint_def)

lemma uvarint_loop_error: "uvarint_loop b i x s = Inl e \<Longrightarrow> e = ErrOverflow \<or> e = ErrTruncated"
  by (induction b i x s rule: uvarint_loop.induct) (auto split: if_splits)

lemma Uvarint_error: "Uvarint b = Inl e \<Longrightarrow> e = ErrOverflow \<or> e = ErrTruncated"
  by (auto simp: Uvarint_def dest: uvarint_loop_error)

lemma length_uvarint_bytes: "0 < length (uvarint_bytes v) \<and> length (uvarint_bytes v) \<le> 10"
  using Uvarint_append [of v "[]"] Uvarint_consumed [of "uvarint_bytes v" v "length (uvarint_bytes v)"]
  by simp

section \<open>The Reader (reader.go)\<close>

text \<open>
  The buffer and the position of the next byte. \<open>reader_ok\<close> says that the position does not
  lie past the end; every operation keeps it, so that the slices \<open>r.B[r.I:]\<close> and the
  difference \<open>len(r.B) - r.I\<close> are what the list and \<open>nat\<close> operations below give.
\<close>

record reader =
  rB :: bytes
  rI :: nat

definition NewReader :: "bytes \<Rightarrow> reader" where
  "NewReader b = \<lparr>rB = b, rI = 0\<rparr>"

definition reader_Empty :: "reader \<Rightarrow> bool" where
  "reader_Empty r \<longleftrightarrow> rI r \<ge> length (rB r)"

definition reader_Remaining :: "reader \<Rightarrow> nat" where
  "reader_Remaining r = length (rB r) - rI r"

definition reader_Rest :: "reader \<Rightarrow> bytes" where
  "reader_Rest r = drop (rI r) (rB r)"

definition reader_Byte :: "reader \<Rightarrow> (byte \<times> reader) res" where
  "reader_Byte r =
     (if rI r \<ge> length (rB r) then Inl ErrTruncated
      else Inr (rB r ! rI r, r\<lparr>rI := rI r + 1\<rparr>))"

definition reader_Uvarint :: "reader \<Rightarrow> (u64 \<times> reader) res" where
  "reader_Uvarint r =
     bindR (Uvarint (reader_Rest r)) (\<lambda>(v, n). Inr (v, r\<lparr>rI := rI r + n\<rparr>))"

definition reader_Varint :: "reader \<Rightarrow> (i64 \<times> reader) res" where
  "reader_Varint r =
     bindR (Varint (reader_Rest r)) (\<lambda>(v, n). Inr (v, r\<lparr>rI := rI r + n\<rparr>))"

text \<open>\<open>Bytes\<close> takes a Go \<open>int\<close>, which a hostile length can make negative.\<close>

definition reader_Bytes :: "int \<Rightarrow> reader \<Rightarrow> (bytes \<times> reader) res" where
  "reader_Bytes n r =
     (if n < 0 \<or> n > int (length (rB r)) - int (rI r) then Inl ErrTruncated
      else Inr (take (nat n) (drop (rI r) (rB r)), r\<lparr>rI := rI r + nat n\<rparr>))"

definition reader_String :: "reader \<Rightarrow> (gostring \<times> reader) res" where
  "reader_String r =
     bindR (reader_Uvarint r) (\<lambda>(n, r).
       if unat n > reader_Remaining r then Inl ErrTruncated
       else reader_Bytes (sint n) r)"

subsection \<open>Where a reader stands\<close>

definition reader_ok :: "reader \<Rightarrow> bool" where
  "reader_ok r \<longleftrightarrow> rI r \<le> length (rB r)"

definition advance :: "nat \<Rightarrow> reader \<Rightarrow> reader" where
  "advance n r = r\<lparr>rI := rI r + n\<rparr>"

text \<open>\<open>reader_at r xs\<close>: the unread bytes of \<open>r\<close> are \<open>xs\<close>.\<close>

definition reader_at :: "reader \<Rightarrow> bytes \<Rightarrow> bool" where
  "reader_at r xs \<longleftrightarrow> reader_ok r \<and> reader_Rest r = xs"

lemma advance_advance [simp]: "advance m (advance n r) = advance (n + m) r"
  by (simp add: advance_def)

lemma advance_0 [simp]: "advance 0 r = r"
  by (simp add: advance_def)

lemma rB_advance [simp]: "rB (advance n r) = rB r"
  by (simp add: advance_def)

lemma rI_advance [simp]: "rI (advance n r) = rI r + n"
  by (simp add: advance_def)

lemma reader_at_NewReader [simp]: "reader_at (NewReader b) b"
  by (simp add: reader_at_def reader_ok_def reader_Rest_def NewReader_def)

lemma reader_ok_NewReader [simp]: "reader_ok (NewReader b)"
  by (simp add: reader_ok_def NewReader_def)

lemma reader_at_Rest: "reader_ok r \<Longrightarrow> reader_at r (reader_Rest r)"
  by (simp add: reader_at_def)

lemma reader_at_advance:
  "reader_at r (xs @ ys) \<Longrightarrow> n = length xs \<Longrightarrow> reader_at (advance n r) ys"
proof -
  assume r: "reader_at r (xs @ ys)" and n: "n = length xs"
  then have eq: "drop (rI r) (rB r) = xs @ ys" and le: "rI r \<le> length (rB r)"
    by (simp_all add: reader_at_def reader_Rest_def reader_ok_def)
  from arg_cong [OF eq, of length] le have "rI r + n \<le> length (rB r)"
    using n by simp
  moreover have "drop (rI r + n) (rB r) = ys"
    using list_split_take [OF eq] n by simp
  ultimately show ?thesis
    by (simp add: reader_at_def reader_Rest_def reader_ok_def)
qed

lemma reader_at_Cons: "reader_at r (x # xs) \<Longrightarrow> reader_at (advance 1 r) xs"
  using reader_at_advance [of r "[x]" xs 1] by simp

lemma reader_at_Empty: "reader_at r xs \<Longrightarrow> reader_Empty r \<longleftrightarrow> xs = []"
  by (auto simp: reader_at_def reader_Empty_def reader_Rest_def)

lemma reader_at_Remaining: "reader_at r xs \<Longrightarrow> reader_Remaining r = length xs"
  by (auto simp: reader_at_def reader_Remaining_def reader_Rest_def)

lemma reader_at_ok: "reader_at r xs \<Longrightarrow> reader_ok r"
  by (simp add: reader_at_def)

lemma reader_Empty_Remaining: "reader_Empty r \<longleftrightarrow> reader_Remaining r = 0"
  by (simp add: reader_Empty_def reader_Remaining_def)

section \<open>Properties\<close>

text \<open>C39: What \<open>AppendUvarint\<close> and \<open>AppendVarint\<close> write is read back by \<open>Uvarint\<close> and \<open>Varint\<close> with
  exactly the bytes written, whatever follows them, for every 64-bit value; zigzag coding loses
  nothing in either direction.\<close>

theorem varint_round_trip:
  "Uvarint (AppendUvarint [] u @ ys) = Inr (u, length (AppendUvarint [] u)) \<and>
   Varint (AppendVarint [] v @ ys) = Inr (v, length (AppendVarint [] v)) \<and>
   Unzigzag (Zigzag v) = v \<and> Zigzag (Unzigzag u) = u"
  by (simp add: Uvarint_append Varint_append Unzigzag_Zigzag Zigzag_Unzigzag)

text \<open>\<open>Uvarint\<close> on any input fails with one of its two errors or consumes between one and
  ten bytes, all of them inside the buffer.\<close>

theorem uvarint_bounded:
  "case Uvarint b of
     Inl e \<Rightarrow> e \<in> {ErrOverflow, ErrTruncated}
   | Inr (v, n) \<Rightarrow> 0 < n \<and> n \<le> length b \<and> n \<le> 10"
  using Uvarint_consumed Uvarint_error by (auto split: sum.splits)

end
