(* ===== verification/Cursor.thy ===== *)
theory Cursor
  imports Postcard
begin

text \<open>
  What the decoders rely on when they read through a \<open>Reader\<close>, and the loops they read with.

  \<^item> \<open>safe_from r m\<close>: the step \<open>m\<close>, taken from \<open>r\<close>, fails with a Go error or leaves the cursor
    further on in the same buffer. Its rules, collected in \<open>safe_intros\<close>, prove of a whole
    decoder that it neither panics nor runs out of the bound of a loop.
  \<^item> \<open>parses d bs v\<close>: wherever the unread bytes start with \<open>bs\<close>, \<open>d\<close> returns \<open>v\<close> and stops just
    behind \<open>bs\<close>. Its rules, collected in \<open>parses_intros\<close>, follow the structure of a decoder.
  \<^item> \<open>reader_loop\<close>: a Go \<open>for\<close> loop whose body reads. It has a step bound, one more than the
    unread bytes, and the locale \<open>loop_body\<close> proves that a body that always reads something
    never meets the bound, so that the loop obeys its plain unfolding equation.
\<close>

named_theorems safe_intros "a decoder neither panics nor runs backwards"
named_theorems parses_intros "a decoder reads back what was written"

section \<open>Safe reading steps\<close>

definition moved :: "reader \<Rightarrow> reader \<Rightarrow> bool" where
  "moved r r' \<longleftrightarrow> reader_ok r' \<and> rB r' = rB r \<and> rI r \<le> rI r'"

definition safe_from :: "reader \<Rightarrow> ('a \<times> reader) res \<Rightarrow> bool" where
  "safe_from r m \<longleftrightarrow> (case m of Inl e \<Rightarrow> go_error e | Inr (v, r') \<Rightarrow> moved r r')"

lemma moved_refl: "reader_ok r \<Longrightarrow> moved r r"
  by (simp add: moved_def)

lemma moved_trans: "moved r s \<Longrightarrow> moved s t \<Longrightarrow> moved r t"
  by (auto simp: moved_def)

lemma moved_ok: "moved r r' \<Longrightarrow> reader_ok r'"
  by (simp add: moved_def)

lemma safe_from_Inl [safe_intros]: "go_error e \<Longrightarrow> safe_from r (Inl e)"
  by (simp add: safe_from_def)

lemma safe_from_Inr [safe_intros]: "reader_ok r \<Longrightarrow> safe_from r (Inr (v, r))"
  by (simp add: safe_from_def moved_refl)

lemma safe_from_moved: "moved r r' \<Longrightarrow> safe_from r' m \<Longrightarrow> safe_from r m"
  by (auto simp: safe_from_def split: sum.splits dest: moved_trans)

lemma safe_from_bindR [safe_intros]:
  assumes "safe_from r m" and "\<And>v r'. m = Inr (v, r') \<Longrightarrow> reader_ok r' \<Longrightarrow> safe_from r' (f (v, r'))"
  shows "safe_from r (bindR m f)"
proof (cases m)
  case (Inl e)
  with assms(1) show ?thesis by (simp add: safe_from_def)
next
  case (Inr p)
  obtain v r' where p: "p = (v, r')" by (cases p)
  with assms(1) Inr have mv: "moved r r'" by (simp add: safe_from_def)
  with Inr p assms(2) have "safe_from r' (f (v, r'))" by (auto dest: moved_ok)
  with mv have "safe_from r (f (v, r'))" by (rule safe_from_moved)
  with Inr p show ?thesis by simp
qed

lemma safe_from_if [safe_intros]:
  "(b \<Longrightarrow> safe_from r m) \<Longrightarrow> (\<not> b \<Longrightarrow> safe_from r m') \<Longrightarrow> safe_from r (if b then m else m')"
  by simp

lemma safe_from_InlD: "safe_from r m \<Longrightarrow> m = Inl e \<Longrightarrow> go_error e"
  by (simp add: safe_from_def)

lemma safe_from_InrD: "safe_from r m \<Longrightarrow> m = Inr (v, r') \<Longrightarrow> moved r r'"
  by (simp add: safe_from_def)

text \<open>A step that also reads at least one byte when it succeeds.\<close>

definition strict_from :: "reader \<Rightarrow> ('a \<times> reader) res \<Rightarrow> bool" where
  "strict_from r m \<longleftrightarrow> safe_from r m \<and> (\<forall>v r'. m = Inr (v, r') \<longrightarrow> rI r < rI r')"

lemma strict_from_safe: "strict_from r m \<Longrightarrow> safe_from r m"
  by (simp add: strict_from_def)

lemma strict_from_Inl [safe_intros]: "go_error e \<Longrightarrow> strict_from r (Inl e)"
  by (simp add: strict_from_def safe_from_def)

lemma strict_from_InrD: "strict_from r m \<Longrightarrow> m = Inr (v, r') \<Longrightarrow> moved r r' \<and> rI r < rI r'"
  by (auto simp: strict_from_def safe_from_def)

lemma strict_from_bindR [safe_intros]:
  assumes "strict_from r m" and "\<And>v r'. m = Inr (v, r') \<Longrightarrow> reader_ok r' \<Longrightarrow> safe_from r' (f (v, r'))"
  shows "strict_from r (bindR m f)"
  unfolding strict_from_def
proof (intro conjI allI impI)
  show "safe_from r (bindR m f)"
    using assms by (auto intro: safe_from_bindR strict_from_safe)
next
  fix w q
  assume "bindR m f = Inr (w, q)"
  then obtain v r' where m: "m = Inr (v, r')" and f: "f (v, r') = Inr (w, q)"
    by (auto simp: bindR_Inr_iff)
  from strict_from_InrD [OF assms(1) m] have "rI r < rI r'" and ok: "reader_ok r'"
    by (auto simp: moved_def)
  moreover have "rI r' \<le> rI q"
    using safe_from_InrD [OF assms(2) [OF m ok] f] by (simp add: moved_def)
  ultimately show "rI r < rI q" by simp
qed

lemma strict_from_if [safe_intros]:
  "(b \<Longrightarrow> strict_from r m) \<Longrightarrow> (\<not> b \<Longrightarrow> strict_from r m') \<Longrightarrow>
    strict_from r (if b then m else m')"
  by simp

section \<open>Reading back\<close>

definition parses :: "(reader \<Rightarrow> ('a \<times> reader) res) \<Rightarrow> bytes \<Rightarrow> 'a \<Rightarrow> bool" where
  "parses d bs v \<longleftrightarrow> (\<forall>r ys. reader_at r (bs @ ys) \<longrightarrow> d r = Inr (v, advance (length bs) r))"

lemma parsesI:
  "(\<And>r ys. reader_at r (bs @ ys) \<Longrightarrow> d r = Inr (v, advance (length bs) r)) \<Longrightarrow> parses d bs v"
  by (simp add: parses_def)

lemma parsesD:
  "parses d bs v \<Longrightarrow> reader_at r (bs @ ys) \<Longrightarrow> d r = Inr (v, advance (length bs) r)"
  unfolding parses_def by blast

lemma parsesD_all:
  "parses d bs v \<Longrightarrow> reader_at r bs \<Longrightarrow> d r = Inr (v, advance (length bs) r)"
  using parsesD [of d bs v r "[]"] by simp

lemma parses_return [parses_intros]: "parses (\<lambda>r. Inr (v, r)) [] v"
  by (simp add: parses_def)

lemma parses_bindR [parses_intros]:
  assumes "parses d bs v" and "parses (\<lambda>r. f (v, r)) cs w"
  shows "parses (\<lambda>r. bindR (d r) f) (bs @ cs) w"
proof (rule parsesI)
  fix r ys
  assume r: "reader_at r ((bs @ cs) @ ys)"
  then have d: "d r = Inr (v, advance (length bs) r)"
    using parsesD [OF assms(1), of r "cs @ ys"] by simp
  from r have "reader_at (advance (length bs) r) (cs @ ys)"
    by (intro reader_at_advance [of r bs]) simp_all
  from parsesD [OF assms(2) this] d show "bindR (d r) f = Inr (w, advance (length (bs @ cs)) r)"
    by simp
qed

lemma parses_bindR_last:
  assumes "parses d bs v" and "\<And>r. f (v, r) = Inr (w, r)"
  shows "parses (\<lambda>r. bindR (d r) f) bs w"
  using assms by (simp add: parses_def)

lemma parses_guard:
  assumes "\<And>r ys. reader_at r (bs @ ys) \<Longrightarrow> \<not> c r" and "parses d bs v"
  shows "parses (\<lambda>r. if c r then m r else d r) bs v"
  using assms by (auto simp: parses_def)

lemma parses_cong: "parses d bs v \<Longrightarrow> (\<And>r. d r = d' r) \<Longrightarrow> parses d' bs v"
  by (simp add: parses_def)

section \<open>Interfaces\<close>

text \<open>
  \<open>cursor\<close> is what a decoder asks of the reading functions it calls; \<open>cursor1\<close> that they
  read at least one byte, which every loop needs; \<open>codec\<close> relates a reading function to the
  function that writes, with \<open>ok\<close> the values that can be written.
\<close>

locale cursor =
  fixes dec :: "reader \<Rightarrow> ('a \<times> reader) res"
  assumes dec_safe: "reader_ok r \<Longrightarrow> safe_from r (dec r)"

locale cursor1 = cursor dec for dec :: "reader \<Rightarrow> ('a \<times> reader) res" +
  assumes dec_strict: "reader_ok r \<Longrightarrow> strict_from r (dec r)"

locale codec =
  fixes dec :: "reader \<Rightarrow> ('a \<times> reader) res"
    and wr :: "bytes \<Rightarrow> 'a \<Rightarrow> bytes"
    and ok :: "'a \<Rightarrow> bool"
  assumes wr_append: "wr dst v = dst @ wr [] v"
    and wr_nonempty: "wr [] v \<noteq> []"
    and dec_wr: "ok v \<Longrightarrow> parses dec (wr [] v) v"

text \<open>\<open>read_n k dec\<close>: the loop \<open>for i := 0; i < k; i++\<close> that reads one element a turn.\<close>

fun read_n :: "nat \<Rightarrow> (reader \<Rightarrow> ('a \<times> reader) res) \<Rightarrow> reader \<Rightarrow> ('a list \<times> reader) res" where
  "read_n 0 dec r = Inr ([], r)"
| "read_n (Suc k) dec r =
     bindR (dec r) (\<lambda>(v, r). bindR (read_n k dec r) (\<lambda>(vs, r). Inr (v # vs, r)))"

lemma read_n_length: "read_n k dec r = Inr (vs, r') \<Longrightarrow> length vs = k"
  by (induction k arbitrary: r vs) (auto simp: bindR_Inr_iff)

context cursor
begin

lemma read_n_safe: "reader_ok r \<Longrightarrow> safe_from r (read_n k dec r)"
proof (induction k arbitrary: r)
  case 0
  then show ?case by (simp add: safe_intros)
next
  case (Suc k)
  then show ?case
    by (auto intro!: safe_intros dec_safe Suc.IH)
qed

end

context cursor1
begin

lemma read_n_reads:
  "reader_ok r \<Longrightarrow> read_n k dec r = Inr (vs, r') \<Longrightarrow> rI r + k \<le> rI r'"
proof (induction k arbitrary: r vs)
  case 0
  then show ?case by simp
next
  case (Suc k)
  from Suc.prems(2) obtain v r1 us where 1: "dec r = Inr (v, r1)" and 2: "read_n k dec r1 = Inr (us, r')"
    by (auto simp: bindR_Inr_iff)
  from 1 Suc.prems(1) have "rI r < rI r1" and "reader_ok r1"
    using strict_from_InrD [OF dec_strict [OF Suc.prems(1)] 1]
    by (auto simp: moved_def)
  with Suc.IH [OF _ 2] show ?case by simp
qed

end

context codec
begin

lemma read_n_parses:
  "list_all ok vs \<Longrightarrow> parses (read_n (length vs) dec) (concat (map (wr []) vs)) vs"
proof (induction vs)
  case Nil
  then show ?case by (simp add: parses_return)
next
  case (Cons v vs)
  then have v: "parses dec (wr [] v) v" and
    vs: "parses (read_n (length vs) dec) (concat (map (wr []) vs)) vs"
    by (simp_all add: dec_wr)
  from parses_bindR_last [OF vs, of "\<lambda>(vs, r). Inr (v # vs, r)" "v # vs"]
  have "parses (\<lambda>r. bindR (read_n (length vs) dec r) (\<lambda>(vs, r). Inr (v # vs, r)))
      (concat (map (wr []) vs)) (v # vs)" by simp
  with v show ?case
    by (auto intro!: parses_bindR)
qed

lemma foldl_wr: "foldl wr dst vs = dst @ concat (map (wr []) vs)"
proof (induction vs arbitrary: dst)
  case (Cons v vs)
  then show ?case using wr_append [of dst v] by simp
qed simp

lemma length_writes: "length vs \<le> length (concat (map (wr []) vs))"
proof (induction vs)
  case (Cons v vs)
  have "0 < length (wr [] v)" using wr_nonempty [of v] by (simp only: length_greater_0_conv not_False_eq_True)
  with Cons show ?case by (simp only: list.map concat.simps length_append list.size)
qed simp

end

section \<open>The reading functions of Reader keep the contracts\<close>

lemma moved_step: "reader_ok r \<Longrightarrow> n \<le> reader_Remaining r \<Longrightarrow> moved r (r\<lparr>rI := rI r + n\<rparr>)"
  by (auto simp: moved_def reader_ok_def reader_Remaining_def)

lemma reader_Byte_safe: "reader_ok r \<Longrightarrow> safe_from r (reader_Byte r)"
  using moved_step [of r 1]
  by (auto simp: reader_Byte_def safe_from_def reader_Remaining_def)

lemma reader_Uvarint_safe: "reader_ok r \<Longrightarrow> safe_from r (reader_Uvarint r)"
proof (cases "Uvarint (reader_Rest r)")
  case (Inl e)
  then show "safe_from r (reader_Uvarint r)"
    using Uvarint_error [OF Inl] by (auto simp: reader_Uvarint_def safe_from_def)
next
  case (Inr p)
  assume ok: "reader_ok r"
  obtain v n where p: "p = (v, n)" by (cases p)
  with Inr have "n \<le> reader_Remaining r"
    by (auto dest: Uvarint_consumed simp: reader_Rest_def reader_Remaining_def)
  with ok have "moved r (r\<lparr>rI := rI r + n\<rparr>)" by (rule moved_step)
  with Inr p show "safe_from r (reader_Uvarint r)"
    by (simp add: reader_Uvarint_def safe_from_def)
qed

lemma reader_Varint_eq:
  "reader_Varint r = bindR (reader_Uvarint r) (\<lambda>(u, r'). Inr (Unzigzag u, r'))"
  by (simp add: reader_Varint_def reader_Uvarint_def Varint_def bindR_assoc case_prod_unfold)

lemma reader_Varint_safe: "reader_ok r \<Longrightarrow> safe_from r (reader_Varint r)"
  unfolding reader_Varint_eq by (auto intro!: safe_intros reader_Uvarint_safe)

lemma reader_Bytes_safe: "reader_ok r \<Longrightarrow> safe_from r (reader_Bytes n r)"
  using moved_step [of r "nat n"]
  by (auto simp: reader_Bytes_def safe_from_def reader_Remaining_def)

lemma reader_String_safe: "reader_ok r \<Longrightarrow> safe_from r (reader_String r)"
  unfolding reader_String_def
  by (auto intro!: safe_intros reader_Uvarint_safe reader_Bytes_safe)

lemmas reader_safe [safe_intros] =
  reader_Byte_safe reader_Uvarint_safe reader_Varint_safe reader_Bytes_safe reader_String_safe

lemma reader_Byte_strict: "reader_ok r \<Longrightarrow> strict_from r (reader_Byte r)"
  using reader_Byte_safe [of r] by (auto simp: strict_from_def reader_Byte_def)

lemma reader_Uvarint_strict: "reader_ok r \<Longrightarrow> strict_from r (reader_Uvarint r)"
  using reader_Uvarint_safe [of r]
  by (auto simp: strict_from_def reader_Uvarint_def bindR_Inr_iff dest: Uvarint_consumed)

lemma reader_Varint_strict: "reader_ok r \<Longrightarrow> strict_from r (reader_Varint r)"
  unfolding reader_Varint_eq by (auto intro!: safe_intros reader_Uvarint_strict)

lemma reader_String_strict: "reader_ok r \<Longrightarrow> strict_from r (reader_String r)"
  unfolding reader_String_def by (auto intro!: safe_intros reader_Uvarint_strict)

lemmas reader_strict [safe_intros] =
  reader_Byte_strict reader_Uvarint_strict reader_Varint_strict reader_String_strict

lemma reader_Byte_parses [parses_intros]: "parses reader_Byte [c] c"
proof (rule parsesI)
  fix r ys
  assume "reader_at r ([c] @ ys)"
  then have rest: "drop (rI r) (rB r) = c # ys" and "rI r \<le> length (rB r)"
    by (simp_all add: reader_at_def reader_Rest_def reader_ok_def)
  then have "rI r < length (rB r)"
    by (intro notI [THEN not_le_imp_less]) simp
  moreover from this rest have "rB r ! rI r = c"
    by (metis hd_drop_conv_nth list.sel(1))
  ultimately show "reader_Byte r = Inr (c, advance (length [c]) r)"
    by (simp add: reader_Byte_def advance_def)
qed

lemma reader_Uvarint_parses [parses_intros]: "parses reader_Uvarint (uvarint_bytes v) v"
  by (rule parsesI)
    (simp add: reader_at_def reader_Uvarint_def Uvarint_append advance_def)

lemma reader_Varint_parses [parses_intros]: "parses reader_Varint (varint_bytes v) v"
  by (rule parsesI)
    (simp add: reader_at_def reader_Varint_def Varint_append advance_def)

lemma reader_Bytes_parses [parses_intros]:
  "n = int (length bs) \<Longrightarrow> parses (reader_Bytes n) bs bs"
proof (rule parsesI)
  fix r ys
  assume n: "n = int (length bs)" and r: "reader_at r (bs @ ys)"
  then have rest: "drop (rI r) (rB r) = bs @ ys" and le: "rI r \<le> length (rB r)"
    by (simp_all add: reader_at_def reader_Rest_def reader_ok_def)
  from arg_cong [OF rest, of length] le have "length bs \<le> length (rB r) - rI r" by simp
  with n rest le show "reader_Bytes n r = Inr (bs, advance (length bs) r)"
    by (simp add: reader_Bytes_def advance_def)
qed

text \<open>A length fits Go's \<open>int\<close>.\<close>

definition go_len :: "'a list \<Rightarrow> bool" where
  "go_len xs \<longleftrightarrow> length xs < 2 ^ 63"

lemma go_len_sint: "go_len xs \<Longrightarrow> sint (of_nat (length xs) :: i64) = int (length xs)"
  by (simp only: go_len_def sint_of_nat_small)

lemma go_len_unat: "go_len xs \<Longrightarrow> unat (of_nat (length xs) :: u64) = length xs"
  by (rule unat_of_nat_small) (simp add: go_len_def)

lemma reader_String_parses [parses_intros]:
  assumes "go_len s"
  shows "parses reader_String (uvarint_bytes (of_nat (length s)) @ s) s"
  unfolding reader_String_def
proof (rule parses_bindR [OF reader_Uvarint_parses], simp only: case_prod_conv, rule parses_guard)
  fix r ys
  assume "reader_at r (s @ ys)"
  then show "\<not> unat (of_nat (length s) :: u64) > reader_Remaining r"
    by (simp add: go_len_unat [OF assms] reader_at_Remaining)
next
  show "parses (reader_Bytes (sint (of_nat (length s) :: u64))) s s"
    by (rule reader_Bytes_parses) (rule go_len_sint [OF assms])
qed

interpretation byteR: cursor1 reader_Byte
  by unfold_locales (auto intro: reader_safe reader_strict)

interpretation uvarintR: cursor1 reader_Uvarint
  by unfold_locales (auto intro: reader_safe reader_strict)

interpretation varintR: cursor1 reader_Varint
  by unfold_locales (auto intro: reader_safe reader_strict)

interpretation bytesR: cursor "reader_Bytes n"
  by unfold_locales (auto intro: reader_safe)

interpretation stringR: cursor1 reader_String
  by unfold_locales (auto intro: reader_safe reader_strict)

interpretation uvarintC: codec reader_Uvarint AppendUvarint "\<lambda>_. True"
  by unfold_locales (auto intro: reader_Uvarint_parses AppendUvarint_eq)

interpretation varintC: codec reader_Varint AppendVarint "\<lambda>_. True"
  by unfold_locales (auto intro: reader_Varint_parses AppendVarint_eq)

section \<open>Loops that read\<close>

text \<open>
  \<open>reader_loop cond body s r\<close> is the Go loop \<open>for cond { body }\<close> over the loop variables \<open>s\<close>
  and the reader \<open>r\<close>, left at the first error of the body.
\<close>

fun while_reader ::
  "('s \<Rightarrow> reader \<Rightarrow> bool) \<Rightarrow> ('s \<Rightarrow> reader \<Rightarrow> ('s \<times> reader) res) \<Rightarrow> nat \<Rightarrow>
    's \<Rightarrow> reader \<Rightarrow> ('s \<times> reader) res" where
  "while_reader cond body 0 s r = (if cond s r then Inl OutOfFuel else Inr (s, r))"
| "while_reader cond body (Suc k) s r =
     (if cond s r then bindR (body s r) (\<lambda>(s', r'). while_reader cond body k s' r')
      else Inr (s, r))"

definition reader_loop ::
  "('s \<Rightarrow> reader \<Rightarrow> bool) \<Rightarrow> ('s \<Rightarrow> reader \<Rightarrow> ('s \<times> reader) res) \<Rightarrow>
    's \<Rightarrow> reader \<Rightarrow> ('s \<times> reader) res" where
  "reader_loop cond body s r = while_reader cond body (Suc (reader_Remaining r)) s r"

text \<open>An invariant of the loop holds, with the condition false, where the loop ends.\<close>

lemma while_reader_inv:
  assumes "while_reader cond body k s r = Inr (s', r')" and "P s r"
    and "\<And>s r t q. P s r \<Longrightarrow> cond s r \<Longrightarrow> body s r = Inr (t, q) \<Longrightarrow> P t q"
  shows "P s' r' \<and> \<not> cond s' r'"
  using assms(1,2)
proof (induction k arbitrary: s r)
  case 0
  then show ?case by (auto split: if_splits)
next
  case (Suc k)
  show ?case
  proof (cases "cond s r")
    case True
    with Suc.prems(1) obtain t q where b: "body s r = Inr (t, q)"
      and w: "while_reader cond body k t q = Inr (s', r')"
      by (auto simp: bindR_Inr_iff)
    from Suc.IH [OF w assms(3) [OF Suc.prems(2) True b]] show ?thesis .
  next
    case False
    with Suc.prems show ?thesis by simp
  qed
qed

lemma reader_loop_inv:
  assumes "reader_loop cond body s r = Inr (s', r')" and "P s r"
    and "\<And>s r t q. P s r \<Longrightarrow> cond s r \<Longrightarrow> body s r = Inr (t, q) \<Longrightarrow> P t q"
  shows "P s' r' \<and> \<not> cond s' r'"
  using assms(1) unfolding reader_loop_def by (rule while_reader_inv) (use assms in auto)

locale loop_body =
  fixes body :: "'s \<Rightarrow> reader \<Rightarrow> ('s \<times> reader) res"
  assumes body_strict: "reader_ok r \<Longrightarrow> strict_from r (body s r)"
begin

lemma body_safe: "reader_ok r \<Longrightarrow> safe_from r (body s r)"
  by (rule strict_from_safe [OF body_strict])

lemma body_shrinks:
  "reader_ok r \<Longrightarrow> body s r = Inr (s', r') \<Longrightarrow>
    reader_ok r' \<and> reader_Remaining r' < reader_Remaining r"
  using strict_from_InrD [OF body_strict, of r s s' r']
  by (auto simp: moved_def reader_ok_def reader_Remaining_def)

lemma while_reader_safe:
  "reader_ok r \<Longrightarrow> reader_Remaining r < k \<Longrightarrow> safe_from r (while_reader cond body k s r)"
proof (induction k arbitrary: s r)
  case 0
  then show ?case by simp
next
  case (Suc k)
  show ?case
    using Suc body_shrinks
    by (auto intro!: safe_intros body_safe Suc.IH) fastforce
qed

lemma reader_loop_safe: "reader_ok r \<Longrightarrow> safe_from r (reader_loop cond body s r)"
  unfolding reader_loop_def by (rule while_reader_safe) simp_all

lemma while_reader_enough:
  "reader_ok r \<Longrightarrow> reader_Remaining r < j \<Longrightarrow> reader_Remaining r < k \<Longrightarrow>
    while_reader cond body j s r = while_reader cond body k s r"
proof (induction j arbitrary: k s r)
  case 0
  then show ?case by simp
next
  case (Suc j)
  then obtain k' where k: "k = Suc k'" by (cases k) auto
  have "while_reader cond body j s' r' = while_reader cond body k' s' r'"
    if "body s r = Inr (s', r')" for s' r'
    using Suc.IH [of r' k' s'] body_shrinks [OF Suc.prems(1) that] Suc.prems k by simp
  then have "bindR (body s r) (\<lambda>(s', r'). while_reader cond body j s' r') =
      bindR (body s r) (\<lambda>(s', r'). while_reader cond body k' s' r')"
    by (intro bindR_cong) auto
  then show ?case by (simp add: k)
qed

lemma reader_loop_unfold:
  assumes "reader_ok r"
  shows "reader_loop cond body s r =
    (if cond s r then bindR (body s r) (\<lambda>(s', r'). reader_loop cond body s' r') else Inr (s, r))"
proof -
  have "while_reader cond body (reader_Remaining r) s' r' = reader_loop cond body s' r'"
    if "body s r = Inr (s', r')" for s' r'
    using while_reader_enough [of r' "reader_Remaining r" "Suc (reader_Remaining r')" cond s']
      body_shrinks [OF assms that] by (simp add: reader_loop_def)
  then have "bindR (body s r) (\<lambda>(s', r'). while_reader cond body (reader_Remaining r) s' r') =
      bindR (body s r) (\<lambda>(s', r'). reader_loop cond body s' r')"
    by (intro bindR_cong) auto
  then show ?thesis by (simp add: reader_loop_def)
qed

text \<open>The loop reads back a list, element by element, when its body reads one step of it.\<close>

lemma reader_loop_done: "reader_ok r \<Longrightarrow> \<not> cond s r \<Longrightarrow> reader_loop cond body s r = Inr (s, r)"
  by (simp add: reader_loop_unfold)

lemma reader_loop_step:
  assumes "reader_at r (bs @ ys)" and "cond s r" and "parses (body s) bs s'"
  shows "reader_loop cond body s r = reader_loop cond body s' (advance (length bs) r)"
  using parsesD [OF assms(3,1)] assms(2) reader_at_ok [OF assms(1)]
  by (simp add: reader_loop_unfold)

text \<open>The same where the condition does not look at the reader.\<close>

lemma reader_loop_parses_step:
  assumes "parses (body s) bs s'" and "\<And>r. cond s r"
    and "parses (reader_loop cond body s') cs t"
  shows "parses (reader_loop cond body s) (bs @ cs) t"
proof (rule parsesI)
  fix r ys
  assume r: "reader_at r ((bs @ cs) @ ys)"
  then have r': "reader_at r (bs @ (cs @ ys))" by simp
  then have "reader_at (advance (length bs) r) (cs @ ys)"
    by (rule reader_at_advance) simp
  from parsesD [OF assms(3) this]
  show "reader_loop cond body s r = Inr (t, advance (length (bs @ cs)) r)"
    using reader_loop_step [of r bs "cs @ ys" cond s s'] r' assms(1,2) by simp
qed

end

section \<open>Streams of elements\<close>

text \<open>
  The loop \<open>for !r.Empty() { v, err := dec(r); ...; out = append(out, v) }\<close>, that two
  decoders share.
\<close>

definition stream_step :: "(reader \<Rightarrow> ('a \<times> reader) res) \<Rightarrow> 'a list \<Rightarrow> reader \<Rightarrow> ('a list \<times> reader) res" where
  "stream_step dec out r = bindR (dec r) (\<lambda>(v, r). Inr (out @ [v], r))"

definition read_stream :: "(reader \<Rightarrow> ('a \<times> reader) res) \<Rightarrow> bytes \<Rightarrow> 'a list res" where
  "read_stream dec b =
     bindR (reader_loop (\<lambda>out r. \<not> reader_Empty r) (stream_step dec) [] (NewReader b))
       (\<lambda>(out, r). Inr out)"

locale stream = cursor1 dec + codec dec wr ok
  for dec :: "reader \<Rightarrow> ('a \<times> reader) res" and wr :: "bytes \<Rightarrow> 'a \<Rightarrow> bytes" and ok :: "'a \<Rightarrow> bool"

lemma stream_step_strict: "strict_from r (dec r) \<Longrightarrow> strict_from r (stream_step dec out r)"
  unfolding stream_step_def by (auto intro!: safe_intros)

context stream
begin

lemma stream_body: "loop_body (stream_step dec)"
  by unfold_locales (rule stream_step_strict, rule dec_strict)

lemma read_stream_error: "read_stream dec b = Inl e \<Longrightarrow> go_error e"
  using loop_body.reader_loop_safe [OF stream_body reader_ok_NewReader [of b]]
  by (auto simp: read_stream_def bindR_Inl_iff dest: safe_from_InlD)

lemma stream_loop_reads:
  "list_all ok vs \<Longrightarrow> reader_at r (concat (map (wr []) vs)) \<Longrightarrow>
    \<exists>r'. reader_loop (\<lambda>out r. \<not> reader_Empty r) (stream_step dec) out r = Inr (out @ vs, r')"
proof (induction vs arbitrary: out r)
  case Nil
  then show ?case
    by (simp add: loop_body.reader_loop_done [OF stream_body] reader_at_ok reader_at_Empty)
next
  case (Cons v vs)
  have v: "parses (stream_step dec out) (wr [] v) (out @ [v])"
    unfolding stream_step_def using Cons.prems(1)
    by (intro parses_bindR_last [OF dec_wr]) simp_all
  have at: "reader_at r (wr [] v @ concat (map (wr []) vs))" using Cons.prems(2) by simp
  have go: "\<not> reader_Empty r" using at wr_nonempty [of v] by (simp add: reader_at_Empty)
  have "reader_at (advance (length (wr [] v)) r) (concat (map (wr []) vs))"
    using at by (rule reader_at_advance) simp
  from Cons.IH [OF _ this, of "out @ [v]"] Cons.prems(1)
  obtain r' where "reader_loop (\<lambda>out r. \<not> reader_Empty r) (stream_step dec) (out @ [v])
      (advance (length (wr [] v)) r) = Inr (out @ v # vs, r')"
    by auto
  then show ?case
    using loop_body.reader_loop_step [where cond = "\<lambda>out r. \<not> reader_Empty r", OF stream_body at go v] by simp
qed

lemma read_stream_reads: "list_all ok vs \<Longrightarrow> read_stream dec (concat (map (wr []) vs)) = Inr vs"
  using stream_loop_reads [of vs "NewReader (concat (map (wr []) vs))" "[]"]
  by (auto simp: read_stream_def)

end

end
