(* ===== verification/ColumnarRle.thy ===== *)
theory ColumnarRle
  imports Cursor
begin

text \<open>
  Package \<open>encoding/columnar\<close>, the run-length strategies: AnyRle, BoolRle and DeltaRle columns
  (columnar.go), their encoders (encode.go) and the count-limited decoders of columns that
  are concatenated without lengths (concat.go). The lemmas show that each decoder reads back
  what its encoder wrote, that no input makes one panic, and how many rows a column of a
  given size can decode to.
\<close>

section \<open>AnyRle columns\<close>

definition maxColRows :: nat where
  "maxColRows = 2 ^ 20"

text \<open>
  One turn of the loop of \<open>anyRle\<close>. \<open>content\<close> reads one element. A literal run's counter runs up
  to \<open>-tok\<close>, computed in \<open>int64\<close>: the least \<open>int64\<close> is its own negation, so its loop has no turn.
\<close>

definition anyRle_step ::
  "(reader \<Rightarrow> ('a \<times> reader) res) \<Rightarrow> 'a list \<Rightarrow> reader \<Rightarrow> ('a list \<times> reader) res" where
  "anyRle_step content out r =
     bindR (reader_Varint r) (\<lambda>(tok, r).
       if sint tok > 0 then
         (if sint tok > int maxColRows \<or> length out + nat (sint tok) > maxColRows
          then Inl ErrColumnar
          else bindR (content r) (\<lambda>(v, r). Inr (out @ replicate (nat (sint tok)) v, r)))
       else if sint tok < 0 then
         bindR (read_n (nat (sint (- tok))) content r) (\<lambda>(vs, r). Inr (out @ vs, r))
       else Inl ErrColumnar)"

definition anyRle :: "(reader \<Rightarrow> ('a \<times> reader) res) \<Rightarrow> bytes \<Rightarrow> 'a list res" where
  "anyRle content col =
     bindR (reader_loop (\<lambda>out r. \<not> reader_Empty r) (anyRle_step content) [] (NewReader col))
       (\<lambda>(out, r). Inr out)"

definition AnyRleU64 :: "bytes \<Rightarrow> u64 list res" where
  "AnyRleU64 col = anyRle reader_Uvarint col"

definition AnyRleI64 :: "bytes \<Rightarrow> i64 list res" where
  "AnyRleI64 col = anyRle reader_Varint col"

definition AnyRleU8 :: "bytes \<Rightarrow> byte list res" where
  "AnyRleU8 col = anyRle reader_Byte col"

text \<open>
  The encoder's loops over indices, as recursion on the elements left: \<open>run_len v vs\<close> counts the
  elements after \<open>v\<close> equal to it, \<open>literal_len\<close> the elements before the next run of two.
\<close>

fun run_len :: "'a \<Rightarrow> 'a list \<Rightarrow> nat" where
  "run_len v [] = 0"
| "run_len v (w # ws) = (if w = v then Suc (run_len v ws) else 0)"

fun literal_len :: "'a list \<Rightarrow> nat" where
  "literal_len [] = 0"
| "literal_len (v # vs) = (if Suc (run_len v vs) \<ge> 2 then 0 else Suc (literal_len vs))"

function anyRleEncode_loop :: "(bytes \<Rightarrow> 'a \<Rightarrow> bytes) \<Rightarrow> 'a list \<Rightarrow> bytes \<Rightarrow> bytes" where
  "anyRleEncode_loop wr [] out = out"
| "anyRleEncode_loop wr (v # vs) out =
     (let n = Suc (run_len v vs) in
      if n \<ge> 2 then
        anyRleEncode_loop wr (drop n (v # vs)) (wr (AppendVarint out (of_nat n)) v)
      else
        (let k = literal_len (v # vs) in
         anyRleEncode_loop wr (drop k (v # vs))
           (foldl wr (AppendVarint out (- of_nat k)) (take k (v # vs)))))"
  by pat_completeness auto
termination
  by (relation "measure (\<lambda>(wr, vs, out). length vs)") auto

definition anyRleEncode :: "(bytes \<Rightarrow> 'a \<Rightarrow> bytes) \<Rightarrow> 'a list \<Rightarrow> bytes" where
  "anyRleEncode wr vals = anyRleEncode_loop wr vals []"

definition wByte :: "bytes \<Rightarrow> byte \<Rightarrow> bytes" where
  "wByte o' v = o' @ [v]"

definition EncodeAnyRleU64 :: "u64 list \<Rightarrow> bytes" where
  "EncodeAnyRleU64 vals = anyRleEncode AppendUvarint vals"

definition EncodeAnyRleI64 :: "i64 list \<Rightarrow> bytes" where
  "EncodeAnyRleI64 vals = anyRleEncode AppendVarint vals"

definition EncodeAnyRleU8 :: "byte list \<Rightarrow> bytes" where
  "EncodeAnyRleU8 vals = anyRleEncode wByte vals"

section \<open>AnyRle read back\<close>

lemma run_len_le: "run_len v vs \<le> length vs"
  by (induction vs) auto

lemma run_len_take: "take (run_len v vs) vs = replicate (run_len v vs) v"
  by (induction vs) auto

lemma literal_len_le: "literal_len vs \<le> length vs"
  by (induction vs) auto

lemma run_split: "replicate (Suc (run_len v vs)) v @ drop (run_len v vs) vs = v # vs"
  using append_take_drop_id [of "run_len v vs" vs] by (simp add: run_len_take)

text \<open>
  What a column's element type provides: a reading function and a writer that fit each other.
\<close>

locale rle_content = cursor content + codec content wr ok
  for content :: "reader \<Rightarrow> ('a \<times> reader) res" and wr :: "bytes \<Rightarrow> 'a \<Rightarrow> bytes" and ok :: "'a \<Rightarrow> bool"
begin

lemma anyRleEncode_loop_append:
  "anyRleEncode_loop wr vals out = out @ anyRleEncode_loop wr vals []"
proof (induction "length vals" arbitrary: vals out rule: less_induct)
  case less
  show ?case
  proof (cases vals)
    case Nil
    then show ?thesis by simp
  next
    case (Cons v vs)
    define n where "n = Suc (run_len v vs)"
    define k where "k = literal_len (v # vs)"
    show ?thesis
    proof (cases "n \<ge> 2")
      case True
      have eq: "anyRleEncode_loop wr vals o1 =
          anyRleEncode_loop wr (drop n vals) (wr (AppendVarint o1 (of_nat n)) v)" for o1
        using True by (simp add: Cons Let_def n_def)
      have IH: "anyRleEncode_loop wr (drop n vals) o1 = o1 @ anyRleEncode_loop wr (drop n vals) []" for o1
        by (rule less.hyps) (simp add: Cons n_def)
      have "wr (AppendVarint out (of_nat n)) v = out @ wr (AppendVarint [] (of_nat n)) v"
        by (subst (1 2) wr_append, subst AppendVarint_eq) simp
      then show ?thesis
        by (subst (1 2) eq, subst (1 2) IH) simp
    next
      case False
      have eq: "anyRleEncode_loop wr vals o1 =
          anyRleEncode_loop wr (drop k vals) (foldl wr (AppendVarint o1 (- of_nat k)) (take k vals))" for o1
        using False by (simp add: Cons Let_def n_def k_def)
      have IH: "anyRleEncode_loop wr (drop k vals) o1 = o1 @ anyRleEncode_loop wr (drop k vals) []" for o1
        by (rule less.hyps) (use False in \<open>simp add: Cons n_def k_def\<close>)
      have "foldl wr (AppendVarint out (- of_nat k)) (take k vals) =
          out @ foldl wr (AppendVarint [] (- of_nat k)) (take k vals)"
        by (subst (1 2) foldl_wr, subst AppendVarint_eq) simp
      then show ?thesis
        by (subst (1 2) eq, subst (1 2) IH) simp
    qed
  qed
qed

text \<open>The encoder's output, run by run.\<close>

lemma anyRleEncode_run:
  assumes "n = Suc (run_len v vs)" and "n \<ge> 2"
  shows "anyRleEncode wr (v # vs) =
    (varint_bytes (of_nat n) @ wr [] v) @ anyRleEncode wr (drop n (v # vs))"
proof -
  have "anyRleEncode wr (v # vs) =
      anyRleEncode_loop wr (drop n (v # vs)) (wr (varint_bytes (of_nat n)) v)"
    using assms by (simp add: anyRleEncode_def Let_def)
  then show ?thesis
    by (subst (asm) anyRleEncode_loop_append, subst (asm) wr_append)
      (simp only: anyRleEncode_def)
qed

lemma anyRleEncode_literal:
  assumes "\<not> Suc (run_len v vs) \<ge> 2" and "k = literal_len (v # vs)"
  shows "anyRleEncode wr (v # vs) =
    (varint_bytes (- of_nat k) @ concat (map (wr []) (take k (v # vs)))) @
    anyRleEncode wr (drop k (v # vs))"
proof -
  have "anyRleEncode wr (v # vs) =
      anyRleEncode_loop wr (drop k (v # vs)) (foldl wr (varint_bytes (- of_nat k)) (take k (v # vs)))"
    using assms by (simp add: anyRleEncode_def Let_def)
  then show ?thesis
    by (subst (asm) anyRleEncode_loop_append, subst (asm) foldl_wr)
      (simp only: anyRleEncode_def)
qed

lemma anyRleEncode_Nil [simp]: "anyRleEncode wr [] = []"
  by (simp add: anyRleEncode_def)

lemma anyRleEncode_nonempty: "vals \<noteq> [] \<Longrightarrow> anyRleEncode wr vals \<noteq> []"
proof (cases vals)
  case (Cons v vs)
  show ?thesis
    by (cases "Suc (run_len v vs) \<ge> 2")
      (simp_all add: Cons anyRleEncode_run [OF refl] anyRleEncode_literal [OF _ refl]
        del: run_len.simps literal_len.simps)
qed simp

lemma anyRle_step_run:
  assumes "ok v" and "0 < n" and "length out + n \<le> maxColRows"
  shows "parses (anyRle_step content out) (varint_bytes (of_nat n) @ wr [] v) (out @ replicate n v)"
proof -
  have n: "n < 2 ^ 63" using assms(3) by (simp add: maxColRows_def)
  have s: "sint (of_nat n :: i64) = int n" by (rule sint_of_nat_small [OF n])
  have "parses (\<lambda>r. bindR (content r) (\<lambda>(v, r). Inr (out @ replicate n v, r)))
      (wr [] v) (out @ replicate n v)"
    by (rule parses_bindR_last [OF dec_wr [OF assms(1)]]) simp
  then show ?thesis
    unfolding anyRle_step_def using assms(2,3)
    by (intro parses_bindR [OF reader_Varint_parses]) (simp add: s)
qed

lemma anyRle_step_literal:
  assumes "list_all ok vs" and "vs \<noteq> []" and "go_len vs"
  shows "parses (anyRle_step content out)
    (varint_bytes (- of_nat (length vs)) @ concat (map (wr []) vs)) (out @ vs)"
proof -
  have n: "length vs < 2 ^ 63" using assms(3) by (simp only: go_len_def)
  have s: "sint (of_nat (length vs) :: i64) = int (length vs)"
    "sint (- of_nat (length vs) :: i64) = - int (length vs)"
    by (rule sint_of_nat_small [OF n], rule sint_minus_of_nat_small [OF n])
  have "parses (\<lambda>r. bindR (read_n (length vs) content r) (\<lambda>(us, r). Inr (out @ us, r)))
      (concat (map (wr []) vs)) (out @ vs)"
    by (rule parses_bindR_last [OF read_n_parses [OF assms(1)]]) simp
  then show ?thesis
    unfolding anyRle_step_def using assms(2)
    by (intro parses_bindR [OF reader_Varint_parses]) (simp add: s)
qed

end

sublocale cursor \<subseteq> anyRle_body: loop_body "anyRle_step dec"
  by unfold_locales (auto simp: anyRle_step_def intro!: safe_intros dec_safe read_n_safe)

context cursor
begin

lemma anyRle_error: "anyRle dec col = Inl e \<Longrightarrow> go_error e"
  using anyRle_body.reader_loop_safe [OF reader_ok_NewReader]
  by (auto simp: anyRle_def bindR_Inl_iff dest: safe_from_InlD)

end

text \<open>
  A column of \<open>k\<close> bytes decodes to at most \<open>maxColRows + k\<close> rows: repeat runs stop at the cap,
  and every element of a literal run costs a byte.
\<close>

context cursor1
begin

lemma anyRle_step_rows:
  assumes "reader_ok r" and "anyRle_step dec out r = Inr (out', r')"
    and "length out \<le> maxColRows + rI r"
  shows "length out' \<le> maxColRows + rI r'"
proof -
  from assms(2) obtain tok r1 where v: "reader_Varint r = Inr (tok, r1)"
    by (auto simp: anyRle_step_def bindR_Inr_iff)
  have ok: "reader_ok r1" and lt: "rI r < rI r1"
    using strict_from_InrD [OF reader_Varint_strict [OF assms(1)] v] by (auto simp: moved_def)
  show ?thesis
  proof (cases "sint tok > 0")
    case True
    with assms(2) v show ?thesis
      by (auto simp: anyRle_step_def bindR_Inr_iff split: if_splits)
  next
    case False
    with assms(2) v obtain vs where rd: "read_n (nat (sint (- tok))) dec r1 = Inr (vs, r')"
      and out': "out' = out @ vs"
      by (auto simp: anyRle_step_def bindR_Inr_iff split: if_splits)
    have "rI r1 + length vs \<le> rI r'"
      using read_n_reads [OF ok rd] read_n_length [OF rd] by simp
    with lt out' assms(3) show ?thesis by simp
  qed
qed

lemma anyRle_rows:
  assumes "anyRle dec col = Inr vals"
  shows "length vals \<le> maxColRows + length col"
proof -
  from assms obtain r where
    loop: "reader_loop (\<lambda>out r. \<not> reader_Empty r) (anyRle_step dec) [] (NewReader col) = Inr (vals, r)"
    by (auto simp: anyRle_def bindR_Inr_iff)
  let ?P = "\<lambda>out r. reader_ok r \<and> rB r = col \<and> length out \<le> maxColRows + rI r"
  have "?P vals r \<and> \<not> \<not> reader_Empty r"
    using loop
  proof (rule reader_loop_inv [where P = ?P])
    show "?P [] (NewReader col)" by (simp add: NewReader_def reader_ok_def)
  next
    fix s q t q'
    assume P: "?P s q" and step: "anyRle_step dec s q = Inr (t, q')"
    then have "moved q q'"
      using strict_from_InrD [OF anyRle_body.body_strict step] by blast
    with P anyRle_step_rows [OF _ step] show "?P t q'" by (auto simp: moved_def)
  qed
  then show ?thesis by (auto simp: reader_ok_def)
qed

end

context rle_content
begin

lemma anyRle_loop_reads_back:
  assumes "list_all ok vals" and "length out + length vals \<le> maxColRows"
    and "reader_at r (anyRleEncode wr vals)"
  shows "\<exists>r'. reader_loop (\<lambda>out r. \<not> reader_Empty r) (anyRle_step content) out r = Inr (out @ vals, r')"
  using assms
proof (induction "length vals" arbitrary: vals out r rule: less_induct)
  case less
  show ?case
  proof (cases vals)
    case Nil
    with less.prems show ?thesis
      by (simp add: anyRle_body.reader_loop_done reader_at_ok reader_at_Empty)
  next
    case (Cons v vs)
    define n where "n = Suc (run_len v vs)"
    define k where "k = literal_len (v # vs)"
    have go: "\<not> reader_Empty r"
      using less.prems(3) Cons anyRleEncode_nonempty by (simp add: reader_at_Empty)
    show ?thesis
    proof (cases "n \<ge> 2")
      case True
      have split: "replicate n v @ drop n vals = vals"
        using run_split [of v vs] by (simp add: Cons n_def)
      have enc: "anyRleEncode wr vals =
          (varint_bytes (of_nat n) @ wr [] v) @ anyRleEncode wr (drop n vals)"
        using anyRleEncode_run [OF n_def True] by (simp add: Cons)
      have len: "length out + n \<le> maxColRows"
        using less.prems(2) run_len_le [of v vs] by (simp add: Cons n_def)
      have step: "parses (anyRle_step content out) (varint_bytes (of_nat n) @ wr [] v) (out @ replicate n v)"
        using less.prems(1) Cons len by (intro anyRle_step_run) (simp_all add: n_def)
      have at: "reader_at (advance (length (varint_bytes (of_nat n) @ wr [] v)) r)
          (anyRleEncode wr (drop n vals))"
        using less.prems(3) unfolding enc by (rule reader_at_advance) simp
      have "\<exists>r'. reader_loop (\<lambda>out r. \<not> reader_Empty r) (anyRle_step content)
          (out @ replicate n v) (advance (length (varint_bytes (of_nat n) @ wr [] v)) r) =
          Inr ((out @ replicate n v) @ drop n vals, r')"
        using less.prems(1,2) split at run_len_le [of v vs]
        by (intro less.hyps) (auto simp: Cons n_def list_all_iff dest: in_set_dropD)
      then show ?thesis
        using less.prems(3) unfolding enc
        by (simp add: anyRle_body.reader_loop_step [OF _ _ step] go split)
    next
      case False
      have k: "0 < k" "k \<le> length vals"
        using False literal_len_le [of vals] by (auto simp: Cons n_def k_def)
      have enc: "anyRleEncode wr vals =
          (varint_bytes (- of_nat k) @ concat (map (wr []) (take k vals))) @ anyRleEncode wr (drop k vals)"
        using anyRleEncode_literal [OF _ k_def] False by (simp add: Cons n_def)
      have "list_all ok (take k vals)"
        using less.prems(1) by (auto simp: list_all_iff dest: in_set_takeD)
      moreover have "take k vals \<noteq> []" "go_len (take k vals)"
        using less.prems(2) k Cons by (auto simp: go_len_def maxColRows_def)
      ultimately have "list_all ok (take k vals) \<and> take k vals \<noteq> [] \<and> go_len (take k vals)"
        by simp
      with anyRle_step_literal [of "take k vals" out] k
      have step: "parses (anyRle_step content out)
          (varint_bytes (- of_nat k) @ concat (map (wr []) (take k vals))) (out @ take k vals)"
        by (simp add: min_absorb2)
      have at: "reader_at (advance (length (varint_bytes (- of_nat k) @
          concat (map (wr []) (take k vals)))) r) (anyRleEncode wr (drop k vals))"
        using less.prems(3) unfolding enc by (rule reader_at_advance) simp
      have "\<exists>r'. reader_loop (\<lambda>out r. \<not> reader_Empty r) (anyRle_step content)
          (out @ take k vals)
          (advance (length (varint_bytes (- of_nat k) @ concat (map (wr []) (take k vals)))) r) =
          Inr ((out @ take k vals) @ drop k vals, r')"
        using less.prems(1,2) k at
        by (intro less.hyps) (auto simp: list_all_iff dest: in_set_dropD)
      then show ?thesis
        using less.prems(3) unfolding enc
        by (simp add: anyRle_body.reader_loop_step [OF _ _ step] go)
    qed
  qed
qed

lemma length_writes_le:
  assumes "\<And>v. length (wr [] v) \<le> 10"
  shows "length (concat (map (wr []) vs)) \<le> 10 * length vs"
proof (induction vs)
  case (Cons v vs)
  then show ?case using assms [of v] by simp
qed simp

lemma anyRleEncode_length:
  assumes wr: "\<And>v. length (wr [] v) \<le> 10"
  shows "length (anyRleEncode wr vals) \<le> 20 * length vals"
proof (induction "length vals" arbitrary: vals rule: less_induct)
  case less
  have tok: "length (varint_bytes w) \<le> 10" for w
    using length_uvarint_bytes by (simp add: AppendVarint_def)
  show ?case
  proof (cases vals)
    case (Cons v vs)
    define n where "n = Suc (run_len v vs)"
    define k where "k = literal_len (v # vs)"
    show ?thesis
    proof (cases "n \<ge> 2")
      case True
      have "length (anyRleEncode wr (drop n vals)) \<le> 20 * length (drop n vals)"
        by (rule less.hyps) (simp add: Cons n_def)
      moreover have "anyRleEncode wr vals =
          (varint_bytes (of_nat n) @ wr [] v) @ anyRleEncode wr (drop n vals)"
        using anyRleEncode_run [OF n_def True] by (simp add: Cons)
      moreover have "n \<le> length vals" using run_len_le [of v vs] by (simp add: Cons n_def)
      ultimately show ?thesis using tok [of "of_nat n"] wr [of v] True by simp
    next
      case False
      have k: "0 < k" "k \<le> length vals"
        using False literal_len_le [of vals] by (auto simp: Cons n_def k_def)
      have "length (anyRleEncode wr (drop k vals)) \<le> 20 * length (drop k vals)"
        using k by (intro less.hyps) (simp add: Cons)
      moreover have "anyRleEncode wr vals =
          (varint_bytes (- of_nat k) @ concat (map (wr []) (take k vals))) @ anyRleEncode wr (drop k vals)"
        using anyRleEncode_literal [OF _ k_def] False by (simp add: Cons n_def)
      ultimately show ?thesis
        using tok [of "- of_nat k"] length_writes_le [OF wr, of "take k vals"] k by simp
    qed
  qed simp
qed

lemma anyRle_reads_back:
  "list_all ok vals \<Longrightarrow> length vals \<le> maxColRows \<Longrightarrow> anyRle content (anyRleEncode wr vals) = Inr vals"
  using anyRle_loop_reads_back [of vals "[]" "NewReader (anyRleEncode wr vals)"]
  by (auto simp: anyRle_def)

end

interpretation u64_rle: rle_content reader_Uvarint AppendUvarint "\<lambda>_. True"
  by unfold_locales

interpretation i64_rle: rle_content reader_Varint AppendVarint "\<lambda>_. True"
  by unfold_locales

interpretation u8_rle: rle_content reader_Byte wByte "\<lambda>_. True"
  by unfold_locales (auto simp: wByte_def intro: reader_Byte_parses)

section \<open>DeltaRle columns\<close>

text \<open>\<open>prefix_sums acc ds\<close>: the running sums, in wrapping \<open>int64\<close> arithmetic.\<close>

fun prefix_sums :: "i64 \<Rightarrow> i64 list \<Rightarrow> i64 list" where
  "prefix_sums acc [] = []"
| "prefix_sums acc (d # ds) = (acc + d) # prefix_sums (acc + d) ds"

definition DeltaRleI64 :: "bytes \<Rightarrow> i64 list res" where
  "DeltaRleI64 col = bindR (anyRle reader_Varint col) (\<lambda>deltas. Inr (prefix_sums 0 deltas))"

fun deltas_from :: "i64 \<Rightarrow> i64 list \<Rightarrow> i64 list" where
  "deltas_from prev [] = []"
| "deltas_from prev (v # vs) = (v - prev) # deltas_from v vs"

definition EncodeDeltaRleI64 :: "i64 list \<Rightarrow> bytes" where
  "EncodeDeltaRleI64 vals = anyRleEncode AppendVarint (deltas_from 0 vals)"

lemma prefix_sums_deltas [simp]: "prefix_sums prev (deltas_from prev vals) = vals"
  by (induction vals arbitrary: prev) auto

lemma length_deltas_from [simp]: "length (deltas_from prev vals) = length vals"
  by (induction vals arbitrary: prev) auto

lemma length_prefix_sums [simp]: "length (prefix_sums acc ds) = length ds"
  by (induction ds arbitrary: acc) auto

lemma DeltaRle_reads_back:
  "length vals \<le> maxColRows \<Longrightarrow> DeltaRleI64 (EncodeDeltaRleI64 vals) = Inr vals"
  using i64_rle.anyRle_reads_back [of "deltas_from 0 vals"]
  by (simp add: DeltaRleI64_def EncodeDeltaRleI64_def list_all_iff)

text \<open>A column of at most \<open>maxColRows\<close> rows has a length that Go can hold.\<close>

lemma uvarint_bytes_le_10: "length (uvarint_bytes v) \<le> 10"
  and varint_bytes_le_10: "length (varint_bytes v) \<le> 10"
  using length_uvarint_bytes by (simp_all add: AppendVarint_def)

lemma AnyRleU64_column_go_len: "length vals \<le> maxColRows \<Longrightarrow> go_len (EncodeAnyRleU64 vals)"
  using u64_rle.anyRleEncode_length [OF uvarint_bytes_le_10, of vals]
  by (simp add: go_len_def EncodeAnyRleU64_def maxColRows_def)

lemma DeltaRle_column_go_len: "length vals \<le> maxColRows \<Longrightarrow> go_len (EncodeDeltaRleI64 vals)"
  using i64_rle.anyRleEncode_length [OF varint_bytes_le_10, of "deltas_from 0 vals"]
  by (simp add: go_len_def EncodeDeltaRleI64_def maxColRows_def)

lemma AnyRleU8_column_go_len: "length vals \<le> maxColRows \<Longrightarrow> go_len (EncodeAnyRleU8 vals)"
  using u8_rle.anyRleEncode_length [of vals]
  by (simp add: go_len_def EncodeAnyRleU8_def maxColRows_def wByte_def)

lemma DeltaRle_error: "DeltaRleI64 col = Inl e \<Longrightarrow> go_error e"
  by (auto simp: DeltaRleI64_def bindR_Inl_iff dest: varintR.anyRle_error)

lemma AnyRleU64_reads_back:
  "length vals \<le> maxColRows \<Longrightarrow> AnyRleU64 (EncodeAnyRleU64 vals) = Inr vals"
  using u64_rle.anyRle_reads_back [of vals]
  by (simp add: AnyRleU64_def EncodeAnyRleU64_def list_all_iff)

lemma AnyRleI64_reads_back:
  "length vals \<le> maxColRows \<Longrightarrow> AnyRleI64 (EncodeAnyRleI64 vals) = Inr vals"
  using i64_rle.anyRle_reads_back [of vals]
  by (simp add: AnyRleI64_def EncodeAnyRleI64_def list_all_iff)

lemma DeltaRle_rows: "DeltaRleI64 col = Inr vals \<Longrightarrow> length vals \<le> maxColRows + length col"
  using varintR.anyRle_rows [of col] by (auto simp: DeltaRleI64_def bindR_Inr_iff)

lemma AnyRleU8_reads_back:
  "length vals \<le> maxColRows \<Longrightarrow> AnyRleU8 (EncodeAnyRleU8 vals) = Inr vals"
  using u8_rle.anyRle_reads_back [of vals]
  by (simp add: AnyRleU8_def EncodeAnyRleU8_def list_all_iff)

section \<open>Count-limited AnyRle (concat.go)\<close>

definition AnyRleNU64_step :: "nat \<Rightarrow> u64 list \<Rightarrow> reader \<Rightarrow> (u64 list \<times> reader) res" where
  "AnyRleNU64_step count out r =
     bindR (reader_Varint r) (\<lambda>(tok, r).
       if sint tok > 0 then
         (if sint tok > int (count - length out) then Inl ErrColumnar
          else bindR (reader_Uvarint r) (\<lambda>(v, r). Inr (out @ replicate (nat (sint tok)) v, r)))
       else if sint tok < 0 then
         (if sint (- tok) > int (count - length out) then Inl ErrColumnar
          else bindR (read_n (nat (sint (- tok))) reader_Uvarint r) (\<lambda>(vs, r). Inr (out @ vs, r)))
       else Inl ErrColumnar)"

definition AnyRleNU64 :: "reader \<Rightarrow> int \<Rightarrow> (u64 list \<times> reader) res" where
  "AnyRleNU64 r count =
     (if count < 0 \<or> count > int maxColRows then Inl ErrColumnar
      else bindR (reader_loop (\<lambda>out r. length out < nat count) (AnyRleNU64_step (nat count)) [] r)
        (\<lambda>(out, r). if length out \<noteq> nat count then Inl ErrColumnar else Inr (out, r)))"

interpretation anyRleN_body: loop_body "AnyRleNU64_step count"
  by unfold_locales
    (auto simp: AnyRleNU64_step_def intro!: safe_intros uvarintR.read_n_safe)

lemma AnyRleNU64_safe [safe_intros]: "reader_ok r \<Longrightarrow> safe_from r (AnyRleNU64 r count)"
  by (auto simp: AnyRleNU64_def intro!: safe_intros anyRleN_body.reader_loop_safe)

lemma AnyRleNU64_length: "AnyRleNU64 r count = Inr (vs, r') \<Longrightarrow> 0 \<le> count \<and> length vs = nat count"
  by (auto simp: AnyRleNU64_def bindR_Inr_iff split: if_splits)

lemma AnyRleNU64_step_run:
  assumes "0 < n" and "length out + n \<le> count" and "count \<le> maxColRows"
  shows "parses (AnyRleNU64_step count out) (varint_bytes (of_nat n) @ uvarint_bytes v)
    (out @ replicate n v)"
proof -
  have n: "n < 2 ^ 63" using assms by (simp add: maxColRows_def)
  have s: "sint (of_nat n :: i64) = int n" by (rule sint_of_nat_small [OF n])
  have "parses (\<lambda>r. bindR (reader_Uvarint r) (\<lambda>(v, r). Inr (out @ replicate n v, r)))
      (uvarint_bytes v) (out @ replicate n v)"
    by (rule parses_bindR_last [OF reader_Uvarint_parses]) simp
  then show ?thesis
    unfolding AnyRleNU64_step_def using assms(1,2)
    by (intro parses_bindR [OF reader_Varint_parses]) (simp add: s)
qed

lemma AnyRleNU64_step_literal:
  assumes "vs \<noteq> []" and "length out + length vs \<le> count" and "count \<le> maxColRows"
  shows "parses (AnyRleNU64_step count out)
    (varint_bytes (- of_nat (length vs)) @ concat (map uvarint_bytes vs)) (out @ vs)"
proof -
  have n: "length vs < 2 ^ 63" using assms by (simp add: maxColRows_def)
  have s: "sint (of_nat (length vs) :: i64) = int (length vs)"
    "sint (- of_nat (length vs) :: i64) = - int (length vs)"
    by (rule sint_of_nat_small [OF n], rule sint_minus_of_nat_small [OF n])
  have "parses (read_n (length vs) reader_Uvarint) (concat (map uvarint_bytes vs)) vs"
    using uvarintC.read_n_parses [of vs] by (simp add: list_all_iff)
  then have "parses (\<lambda>r. bindR (read_n (length vs) reader_Uvarint r) (\<lambda>(us, r). Inr (out @ us, r)))
      (concat (map uvarint_bytes vs)) (out @ vs)"
    by (rule parses_bindR_last) simp
  then show ?thesis
    unfolding AnyRleNU64_step_def using assms(1,2)
    by (intro parses_bindR [OF reader_Varint_parses]) (simp add: s)
qed

text \<open>A column of \<open>count\<close> rows is read from in front of whatever follows it.\<close>

lemma AnyRleNU64_loop_parses:
  assumes "length out + length vals = count" and "count \<le> maxColRows"
  shows "parses (reader_loop (\<lambda>out r. length out < count) (AnyRleNU64_step count) out)
    (EncodeAnyRleU64 vals) (out @ vals)"
  using assms
proof (induction "length vals" arbitrary: vals out rule: less_induct)
  case less
  show ?case
  proof (cases vals)
    case Nil
    with less.prems show ?thesis
      by (intro parsesI)
        (simp add: EncodeAnyRleU64_def anyRleN_body.reader_loop_done reader_at_ok)
  next
    case (Cons v vs)
    define n where "n = Suc (run_len v vs)"
    define k where "k = literal_len (v # vs)"
    show ?thesis
    proof (cases "n \<ge> 2")
      case True
      have split: "replicate n v @ drop n vals = vals"
        using run_split [of v vs] by (simp add: Cons n_def)
      have enc: "EncodeAnyRleU64 vals =
          (varint_bytes (of_nat n) @ uvarint_bytes v) @ EncodeAnyRleU64 (drop n vals)"
        using u64_rle.anyRleEncode_run [OF n_def True] by (simp add: Cons EncodeAnyRleU64_def)
      have len: "length out + n \<le> count"
        using less.prems(1) run_len_le [of v vs] by (simp add: Cons n_def)
      have step: "parses (AnyRleNU64_step count out) (varint_bytes (of_nat n) @ uvarint_bytes v)
          (out @ replicate n v)"
        using len less.prems(2) by (intro AnyRleNU64_step_run) (simp_all add: n_def)
      have "parses (reader_loop (\<lambda>out r. length out < count) (AnyRleNU64_step count) (out @ replicate n v))
          (EncodeAnyRleU64 (drop n vals)) ((out @ replicate n v) @ drop n vals)"
        using less.prems len run_len_le [of v vs]
        by (intro less.hyps) (auto simp: Cons n_def)
      then show ?thesis
        unfolding enc using less.prems(1) Cons split
        by (intro anyRleN_body.reader_loop_parses_step [OF step]) simp_all
    next
      case False
      have k: "0 < k" "k \<le> length vals"
        using False literal_len_le [of vals] by (auto simp: Cons n_def k_def)
      have enc: "EncodeAnyRleU64 vals =
          (varint_bytes (- of_nat k) @ concat (map uvarint_bytes (take k vals))) @
          EncodeAnyRleU64 (drop k vals)"
        using u64_rle.anyRleEncode_literal [OF _ k_def] False
        by (simp add: Cons n_def EncodeAnyRleU64_def)
      have step: "parses (AnyRleNU64_step count out)
          (varint_bytes (- of_nat k) @ concat (map uvarint_bytes (take k vals))) (out @ take k vals)"
        using AnyRleNU64_step_literal [of "take k vals" out count] less.prems k Cons
        by (auto simp: min_absorb2)
      have "parses (reader_loop (\<lambda>out r. length out < count) (AnyRleNU64_step count) (out @ take k vals))
          (EncodeAnyRleU64 (drop k vals)) ((out @ take k vals) @ drop k vals)"
        using less.prems k by (intro less.hyps) (auto simp: min_absorb2)
      then show ?thesis
        unfolding enc using less.prems(1) Cons
        by (intro anyRleN_body.reader_loop_parses_step [OF step]) simp_all
    qed
  qed
qed

lemma AnyRleNU64_parses [parses_intros]:
  assumes "count = int (length vals)" and "length vals \<le> maxColRows"
  shows "parses (\<lambda>r. AnyRleNU64 r count) (EncodeAnyRleU64 vals) vals"
  using assms parses_bindR_last [OF AnyRleNU64_loop_parses [of "[]" vals "length vals"],
      of "\<lambda>(out, r). if length out \<noteq> length vals then Inl ErrColumnar else Inr (out, r)" vals]
  by (simp add: AnyRleNU64_def)

section \<open>BoolRle columns\<close>

text \<open>Runs of false and true in turn, starting with false; the state is the rows so far and \<open>cur\<close>.\<close>

definition BoolRle_step :: "bool list \<times> bool \<Rightarrow> reader \<Rightarrow> ((bool list \<times> bool) \<times> reader) res" where
  "BoolRle_step s r =
     (case s of (out, cur) \<Rightarrow>
       bindR (reader_Uvarint r) (\<lambda>(n, r).
         if unat n > maxColRows \<or> length out + unat n > maxColRows then Inl ErrColumnar
         else Inr ((out @ replicate (unat n) cur, \<not> cur), r)))"

definition BoolRle :: "bytes \<Rightarrow> bool list res" where
  "BoolRle col =
     bindR (reader_loop (\<lambda>s r. \<not> reader_Empty r) BoolRle_step ([], False) (NewReader col))
       (\<lambda>((out, cur), r). Inr out)"

definition BoolRleN_step ::
  "nat \<Rightarrow> bool list \<times> bool \<Rightarrow> reader \<Rightarrow> ((bool list \<times> bool) \<times> reader) res" where
  "BoolRleN_step count s r =
     (case s of (out, cur) \<Rightarrow>
       bindR (reader_Uvarint r) (\<lambda>(n, r).
         if unat n > count - length out then Inl ErrColumnar
         else Inr ((out @ replicate (unat n) cur, \<not> cur), r)))"

definition BoolRleN :: "reader \<Rightarrow> int \<Rightarrow> (bool list \<times> reader) res" where
  "BoolRleN r count =
     (if count < 0 \<or> count > int maxColRows then Inl ErrColumnar
      else bindR (reader_loop (\<lambda>(out, cur) r. length out < nat count) (BoolRleN_step (nat count))
          ([], False) r)
        (\<lambda>((out, cur), r). if length out \<noteq> nat count then Inl ErrColumnar else Inr (out, r)))"

function EncodeBoolRle_loop :: "bool \<Rightarrow> bool list \<Rightarrow> bytes \<Rightarrow> bytes" where
  "EncodeBoolRle_loop cur vals out =
     (if vals = [] then out
      else (let cnt = length (takeWhile (\<lambda>b. b = cur) vals) in
        EncodeBoolRle_loop (\<not> cur) (drop cnt vals) (AppendUvarint out (of_nat cnt))))"
  by pat_completeness auto
termination
proof (relation "measure (\<lambda>(cur, vals, out). 2 * length vals + (if vals \<noteq> [] \<and> hd vals = cur then 0 else 1))")
  fix cur :: bool and vals :: "bool list" and out :: bytes and cnt
  assume ne: "vals \<noteq> []" and cnt: "cnt = length (takeWhile (\<lambda>b. b = cur) vals)"
  then obtain b bs where vals: "vals = b # bs" by (cases vals) auto
  show "((\<not> cur, drop cnt vals, AppendUvarint out (of_nat cnt)), cur, vals, out) \<in>
      measure (\<lambda>(cur, vals, out). 2 * length vals + (if vals \<noteq> [] \<and> hd vals = cur then 0 else 1))"
    by (cases "b = cur") (auto simp: vals cnt)
qed simp

declare EncodeBoolRle_loop.simps [simp del]

definition EncodeBoolRle :: "bool list \<Rightarrow> bytes" where
  "EncodeBoolRle vals = EncodeBoolRle_loop False vals []"

interpretation boolRle_body: loop_body BoolRle_step
  by unfold_locales (auto simp: BoolRle_step_def intro!: safe_intros)

interpretation boolRleN_body: loop_body "BoolRleN_step count"
  by unfold_locales (auto simp: BoolRleN_step_def intro!: safe_intros)

lemma BoolRle_error: "BoolRle col = Inl e \<Longrightarrow> go_error e"
  using boolRle_body.reader_loop_safe [OF reader_ok_NewReader, of col "\<lambda>s r. \<not> reader_Empty r" "([], False)"]
  by (auto simp: BoolRle_def bindR_Inl_iff dest: safe_from_InlD)

lemma BoolRleN_safe [safe_intros]: "reader_ok r \<Longrightarrow> safe_from r (BoolRleN r count)"
  by (auto simp: BoolRleN_def intro!: safe_intros boolRleN_body.reader_loop_safe)

lemma BoolRleN_length: "BoolRleN r count = Inr (vs, r') \<Longrightarrow> 0 \<le> count \<and> length vs = nat count"
  by (auto simp: BoolRleN_def bindR_Inr_iff split: if_splits)

lemma BoolRle_rows: "BoolRle col = Inr vals \<Longrightarrow> length vals \<le> maxColRows"
proof -
  assume "BoolRle col = Inr vals"
  then obtain cur r where "reader_loop (\<lambda>s r. \<not> reader_Empty r) BoolRle_step ([], False) (NewReader col) =
      Inr ((vals, cur), r)"
    by (auto simp: BoolRle_def bindR_Inr_iff)
  then have "length (fst (vals, cur)) \<le> maxColRows \<and> \<not> \<not> reader_Empty r"
    by (rule reader_loop_inv [where P = "\<lambda>s r. length (fst s) \<le> maxColRows"])
      (auto simp: BoolRle_step_def bindR_Inr_iff split: if_splits prod.splits)
  then show ?thesis by simp
qed

lemma EncodeBoolRle_loop_prefix:
  "EncodeBoolRle_loop cur vals (pre @ out) = pre @ EncodeBoolRle_loop cur vals out"
proof (induction cur vals out rule: EncodeBoolRle_loop.induct)
  case (1 cur vals out)
  then show ?case
    by (simp add: EncodeBoolRle_loop.simps [of cur vals] Let_def AppendUvarint_append)
qed

text \<open>The encoder, one run at a time: the column of \<open>vals\<close> when the next run is of \<open>cur\<close>.\<close>

abbreviation boolrle_bytes :: "bool \<Rightarrow> bool list \<Rightarrow> bytes" where
  "boolrle_bytes cur vals \<equiv> EncodeBoolRle_loop cur vals []"

lemma boolrle_bytes_Nil [simp]: "boolrle_bytes cur [] = []"
  by (simp add: EncodeBoolRle_loop.simps)

lemma boolrle_bytes_run:
  assumes "vals \<noteq> []" and "cnt = length (takeWhile (\<lambda>b. b = cur) vals)"
  shows "boolrle_bytes cur vals = uvarint_bytes (of_nat cnt) @ boolrle_bytes (\<not> cur) (drop cnt vals)"
  using assms EncodeBoolRle_loop_prefix [of "\<not> cur" "drop cnt vals" "uvarint_bytes (of_nat cnt)" "[]"]
  by (simp add: EncodeBoolRle_loop.simps [of cur vals] Let_def)

lemma bool_run_split:
  assumes "cnt = length (takeWhile (\<lambda>b. b = cur) vals)"
  shows "replicate cnt cur @ drop cnt vals = vals"
proof -
  have "takeWhile (\<lambda>b. b = cur) vals = replicate cnt cur"
    using assms by (metis (full_types) replicate_eqI set_takeWhileD)
  moreover have "drop cnt vals = dropWhile (\<lambda>b. b = cur) vals"
    using assms by (simp add: dropWhile_eq_drop)
  ultimately show ?thesis
    by (metis takeWhile_dropWhile_id)
qed

text \<open>The termination order of the encoder: an empty first run is followed by a run that is not.\<close>

lemma bool_run_order:
  assumes "vals \<noteq> []" and "cnt = length (takeWhile (\<lambda>b. b = cur) vals)"
  shows "2 * length (drop cnt vals) + (if drop cnt vals \<noteq> [] \<and> hd (drop cnt vals) = (\<not> cur) then 0 else 1)
    < 2 * length vals + (if vals \<noteq> [] \<and> hd vals = cur then 0 else (1 :: nat))"
  using assms by (cases vals) auto

lemma BoolRleN_loop_parses:
  assumes "length out + length vals = count" and "count \<le> maxColRows"
  shows "\<exists>cur'. parses (reader_loop (\<lambda>(out, cur) r. length out < count) (BoolRleN_step count) (out, cur))
    (boolrle_bytes cur vals) (out @ vals, cur')"
  using assms
proof (induction "2 * length vals + (if vals \<noteq> [] \<and> hd vals = cur then 0 else (1 :: nat))"
    arbitrary: vals out cur rule: less_induct)
  case less
  show ?case
  proof (cases "vals = []")
    case True
    with less.prems show ?thesis
      by (auto intro!: exI parsesI simp: boolRleN_body.reader_loop_done reader_at_ok)
  next
    case False
    define cnt where "cnt = length (takeWhile (\<lambda>b. b = cur) vals)"
    have le: "cnt \<le> length vals"
      by (simp add: cnt_def length_takeWhile_le)
    have lt: "length out < count"
      using less.prems(1) False by (cases vals) auto
    have split: "replicate cnt cur @ drop cnt vals = vals"
      by (rule bool_run_split [OF cnt_def])
    have u: "unat (of_nat cnt :: u64) = cnt"
      using le less.prems by (intro unat_of_nat_small) (simp add: maxColRows_def)
    have step: "parses (BoolRleN_step count (out, cur)) (uvarint_bytes (of_nat cnt))
        (out @ replicate cnt cur, \<not> cur)"
      unfolding BoolRleN_step_def prod.case
      by (rule parses_bindR_last [OF reader_Uvarint_parses]) (use le less.prems u in simp)
    obtain cur' where "parses (reader_loop (\<lambda>(out, cur) r. length out < count) (BoolRleN_step count)
        (out @ replicate cnt cur, \<not> cur))
        (boolrle_bytes (\<not> cur) (drop cnt vals)) ((out @ replicate cnt cur) @ drop cnt vals, cur')"
      using less.hyps [OF bool_run_order [OF False cnt_def], of "out @ replicate cnt cur"] less.prems le
      by auto
    then have "parses (reader_loop (\<lambda>(out, cur) r. length out < count) (BoolRleN_step count) (out, cur))
        (uvarint_bytes (of_nat cnt) @ boolrle_bytes (\<not> cur) (drop cnt vals)) (out @ vals, cur')"
      using lt split
      by (intro boolRleN_body.reader_loop_parses_step [OF step]) simp_all
    then show ?thesis
      by (auto simp: boolrle_bytes_run [OF False cnt_def])
  qed
qed

lemma BoolRleN_parses [parses_intros]:
  assumes "count = int (length vals)" and "length vals \<le> maxColRows"
  shows "parses (\<lambda>r. BoolRleN r count) (EncodeBoolRle vals) vals"
proof -
  obtain cur' where loop: "parses (reader_loop (\<lambda>(out, cur) r. length out < length vals)
      (BoolRleN_step (length vals)) ([], False)) (EncodeBoolRle vals) (vals, cur')"
    using BoolRleN_loop_parses [of "[]" vals "length vals" False] assms
    by (auto simp: EncodeBoolRle_def)
  show ?thesis
    using assms parses_bindR_last [OF loop,
      of "\<lambda>((out, cur), r). if length out \<noteq> length vals then Inl ErrColumnar else Inr (out, r)" vals]
    by (simp add: BoolRleN_def)
qed

lemma BoolRle_loop_reads_back:
  assumes "length out + length vals \<le> maxColRows" and "reader_at r (boolrle_bytes cur vals)"
  shows "\<exists>cur' r'. reader_loop (\<lambda>s r. \<not> reader_Empty r) BoolRle_step (out, cur) r =
    Inr ((out @ vals, cur'), r')"
  using assms
proof (induction "2 * length vals + (if vals \<noteq> [] \<and> hd vals = cur then 0 else (1 :: nat))"
    arbitrary: vals out cur r rule: less_induct)
  case less
  show ?case
  proof (cases "vals = []")
    case True
    with less.prems show ?thesis
      by (simp add: boolRle_body.reader_loop_done reader_at_ok reader_at_Empty)
  next
    case False
    define cnt where "cnt = length (takeWhile (\<lambda>b. b = cur) vals)"
    have le: "cnt \<le> length vals"
      by (simp add: cnt_def length_takeWhile_le)
    have split: "replicate cnt cur @ drop cnt vals = vals"
      by (rule bool_run_split [OF cnt_def])
    have u: "unat (of_nat cnt :: u64) = cnt"
      using le less.prems by (intro unat_of_nat_small) (simp add: maxColRows_def)
    have step: "parses (BoolRle_step (out, cur)) (uvarint_bytes (of_nat cnt))
        (out @ replicate cnt cur, \<not> cur)"
      unfolding BoolRle_step_def prod.case
      by (rule parses_bindR_last [OF reader_Uvarint_parses]) (use le less.prems u in simp)
    note at = less.prems(2) [unfolded boolrle_bytes_run [OF False cnt_def]]
    from at have go: "\<not> reader_Empty r" by (simp add: reader_at_Empty)
    obtain cur' r' where "reader_loop (\<lambda>s r. \<not> reader_Empty r) BoolRle_step (out @ replicate cnt cur, \<not> cur)
        (advance (length (uvarint_bytes (of_nat cnt))) r) =
        Inr (((out @ replicate cnt cur) @ drop cnt vals, cur'), r')"
      using less.hyps [OF bool_run_order [OF False cnt_def], of "out @ replicate cnt cur"
          "advance (length (uvarint_bytes (of_nat cnt))) r"]
        reader_at_advance [OF at refl] less.prems le by auto
    then show ?thesis
      using boolRle_body.reader_loop_step [OF at _ step] go split by simp
  qed
qed

lemma BoolRle_reads_back:
  "length vals \<le> maxColRows \<Longrightarrow> BoolRle (EncodeBoolRle vals) = Inr vals"
  using BoolRle_loop_reads_back [of "[]" vals "NewReader (EncodeBoolRle vals)" False]
  by (auto simp: BoolRle_def EncodeBoolRle_def)

section \<open>Properties\<close>

text \<open>C29: Every run-length strategy reads back what its encoder writes, for columns of at most
  \<open>maxColRows\<close> rows: AnyRle over unsigned, signed and byte content, DeltaRle and BoolRle.\<close>

theorem rle_columns_round_trip:
  assumes "length us \<le> maxColRows" and "length is \<le> maxColRows" and "length bs \<le> maxColRows"
    and "length ps \<le> maxColRows"
  shows "AnyRleU64 (EncodeAnyRleU64 us) = Inr us \<and> AnyRleI64 (EncodeAnyRleI64 is) = Inr is \<and>
    AnyRleU8 (EncodeAnyRleU8 bs) = Inr bs \<and> DeltaRleI64 (EncodeDeltaRleI64 is) = Inr is \<and>
    BoolRle (EncodeBoolRle ps) = Inr ps"
  using assms AnyRleU64_reads_back AnyRleI64_reads_back AnyRleU8_reads_back DeltaRle_reads_back
    BoolRle_reads_back by blast

theorem rle_columns_witness:
  "AnyRleU64 (EncodeAnyRleU64 [7, 7, 7, 300]) = Inr [7, 7, 7, 300] \<and>
   AnyRleI64 (EncodeAnyRleI64 [- 2, 5]) = Inr [- 2, 5] \<and>
   AnyRleU8 (EncodeAnyRleU8 [1, 1]) = Inr [1, 1] \<and>
   DeltaRleI64 (EncodeDeltaRleI64 [- 2, 5]) = Inr [- 2, 5] \<and>
   BoolRle (EncodeBoolRle [True, False]) = Inr [True, False]"
  by (rule rle_columns_round_trip) (simp_all add: maxColRows_def)

text \<open>A hostile column cannot drive the decoders: each fails with an error of the program or
  returns at most \<open>maxColRows\<close> rows, plus one per byte of the column for the literal runs, which
  the cap does not count.\<close>

theorem rle_columns_bounded:
  "(case AnyRleU64 col of Inl e \<Rightarrow> go_error e | Inr vs \<Rightarrow> length vs \<le> maxColRows + length col) \<and>
   (case AnyRleU8 col of Inl e \<Rightarrow> go_error e | Inr vs \<Rightarrow> length vs \<le> maxColRows + length col) \<and>
   (case DeltaRleI64 col of Inl e \<Rightarrow> go_error e | Inr vs \<Rightarrow> length vs \<le> maxColRows + length col) \<and>
   (case BoolRle col of Inl e \<Rightarrow> go_error e | Inr vs \<Rightarrow> length vs \<le> maxColRows)"
  using uvarintR.anyRle_error uvarintR.anyRle_rows byteR.anyRle_error byteR.anyRle_rows
    DeltaRle_error DeltaRle_rows BoolRle_error BoolRle_rows
  unfolding AnyRleU64_def AnyRleU8_def
  by (auto split: sum.splits)

end
