(* ===== verification/ColumnarVec.thy ===== *)
theory ColumnarVec
  imports ColumnarRle
begin

text \<open>
  Package \<open>encoding/columnar\<close>, the vec framing around a block's columns: \<open>Columns\<close>
  splits a wrapped value into its raw columns, \<open>EncodeColumns\<close> writes it.
\<close>

text \<open>
  The body of the loop of \<open>Columns\<close>: \<open>int(n)\<close> of an unsigned length is its signed reading,
  which \<open>Bytes\<close> refuses when it is negative.
\<close>

definition Columns_col :: "reader \<Rightarrow> (bytes \<times> reader) res" where
  "Columns_col r = bindR (reader_Uvarint r) (\<lambda>(n, r). reader_Bytes (sint n) r)"

definition Columns_from :: "reader \<Rightarrow> (bytes list \<times> reader) res" where
  "Columns_from r =
     bindR (reader_Uvarint r) (\<lambda>(fc, r).
       if fc \<noteq> 1 then Inl ErrColumnar
       else bindR (reader_Uvarint r) (\<lambda>(cc, r).
         if unat cc > reader_Remaining r then Inl ErrColumnar
         else read_n (unat cc) Columns_col r))"

definition Columns :: "bytes \<Rightarrow> bytes list res" where
  "Columns b = bindR (Columns_from (NewReader b)) (\<lambda>(cols, r). Inr cols)"

text \<open>The turn of the loop of \<open>EncodeColumns\<close>.\<close>

definition put_column :: "bytes \<Rightarrow> bytes \<Rightarrow> bytes" where
  "put_column out c = AppendUvarint out (of_nat (length c)) @ c"

definition EncodeColumns :: "bytes list \<Rightarrow> bytes" where
  "EncodeColumns cols =
     foldl put_column (AppendUvarint (AppendUvarint [] 1) (of_nat (length cols))) cols"

lemma Columns_col_safe [safe_intros]: "reader_ok r \<Longrightarrow> safe_from r (Columns_col r)"
  unfolding Columns_col_def by (auto intro!: safe_intros)

interpretation columnR: cursor Columns_col
  by unfold_locales (rule Columns_col_safe)

lemma Columns_col_parses:
  assumes "go_len c"
  shows "parses Columns_col (put_column [] c) c"
  unfolding Columns_col_def put_column_def
  by (rule parses_bindR [OF reader_Uvarint_parses])
    (simp add: go_len_sint [OF assms] reader_Bytes_parses)

interpretation columnC: codec Columns_col put_column go_len
proof
  show "put_column dst c = dst @ put_column [] c" for dst c
    by (simp add: put_column_def AppendUvarint_eq [of dst])
  show "put_column [] c \<noteq> []" for c
    by (simp add: put_column_def)
qed (rule Columns_col_parses)

lemma Columns_error: "Columns b = Inl e \<Longrightarrow> go_error e"
proof -
  have "safe_from (NewReader b) (Columns_from (NewReader b))"
    unfolding Columns_from_def by (auto intro!: safe_intros columnR.read_n_safe)
  moreover assume "Columns b = Inl e"
  ultimately show ?thesis
    by (auto simp: Columns_def bindR_Inl_iff safe_from_def)
qed

lemma EncodeColumns_eq:
  "EncodeColumns cols =
    uvarint_bytes 1 @ uvarint_bytes (of_nat (length cols)) @ concat (map (put_column []) cols)"
  by (simp add: EncodeColumns_def columnC.foldl_wr AppendUvarint_eq [of "uvarint_bytes 1"])

lemma Columns_reads_back:
  assumes "go_len cols" and "list_all go_len cols"
  shows "Columns (EncodeColumns cols) = Inr cols"
proof -
  have "parses Columns_from (EncodeColumns cols) cols"
    unfolding Columns_from_def EncodeColumns_eq
  proof (rule parses_bindR [OF reader_Uvarint_parses], simp,
      rule parses_bindR [OF reader_Uvarint_parses], simp, rule parses_guard)
    fix r ys
    assume "reader_at r (concat (map (put_column []) cols) @ ys)"
    then show "\<not> reader_Remaining r < unat (of_nat (length cols) :: u64)"
      using columnC.length_writes [of cols]
      by (simp add: reader_at_Remaining go_len_unat [OF assms(1)])
  next
    show "parses (read_n (unat (of_nat (length cols) :: u64)) Columns_col)
        (concat (map (put_column []) cols)) cols"
      using columnC.read_n_parses [OF assms(2)] by (simp add: go_len_unat [OF assms(1)])
  qed
  from parsesD_all [OF this reader_at_NewReader]
  show ?thesis by (simp add: Columns_def)
qed

text \<open>The vec framing round-trips: \<open>Columns\<close> returns the columns that \<open>EncodeColumns\<close> wrapped,
  as long as the lengths are lengths of Go slices, and on any other input it fails with an error.\<close>

theorem columns_round_trip:
  assumes "go_len cols" and "list_all go_len cols"
  shows "Columns (EncodeColumns cols) = Inr cols \<and> (\<forall>b e. Columns b = Inl e \<longrightarrow> go_error e)"
  using Columns_reads_back [OF assms] Columns_error by blast

theorem columns_round_trip_witness: "Columns (EncodeColumns [[1, 2], [], [3]]) = Inr [[1, 2], [], [3]]"
  using columns_round_trip [of "[[1, 2], [], [3]]"] by (simp add: go_len_def)

end
