(* ===== verification/ChangeBlock.thy ===== *)
theory ChangeBlock
  imports ColumnarVec
begin

text \<open>
  Package \<open>encoding/change\<close>, the frames: the stream of length-prefixed blocks of a
  FastUpdates body (\<open>SplitBlocks\<close>, \<open>EncodeFastUpdates\<close>) and the outer frame of one change
  block, five varints and eight length-prefixed blobs (\<open>ParseBlock\<close>, \<open>EncodeBlock\<close>).
\<close>

section \<open>Length-prefixed byte slices (positions.go)\<close>

text \<open>
  The conversion \<open>int(n)\<close> of the unsigned length is its signed reading; \<open>Bytes\<close> refuses a
  negative length.
\<close>

definition readLenPrefixed :: "reader \<Rightarrow> (bytes \<times> reader) res" where
  "readLenPrefixed r = bindR (reader_Uvarint r) (\<lambda>(n, r). reader_Bytes (sint n) r)"

definition appendLenPrefixed :: "bytes \<Rightarrow> bytes \<Rightarrow> bytes" where
  "appendLenPrefixed dst col = AppendUvarint dst (of_nat (length col)) @ col"

lemma readLenPrefixed_strict [safe_intros]: "reader_ok r \<Longrightarrow> strict_from r (readLenPrefixed r)"
  unfolding readLenPrefixed_def by (auto intro!: safe_intros reader_strict)

lemma readLenPrefixed_safe [safe_intros]: "reader_ok r \<Longrightarrow> safe_from r (readLenPrefixed r)"
  by (rule strict_from_safe [OF readLenPrefixed_strict])

lemma readLenPrefixed_parses:
  assumes "go_len c"
  shows "parses readLenPrefixed (appendLenPrefixed [] c) c"
  unfolding readLenPrefixed_def appendLenPrefixed_def
  by (rule parses_bindR [OF reader_Uvarint_parses])
    (simp add: go_len_sint [OF assms] reader_Bytes_parses)

interpretation blobS: stream readLenPrefixed appendLenPrefixed go_len
proof
  show "reader_ok r \<Longrightarrow> safe_from r (readLenPrefixed r)" for r
    by (rule readLenPrefixed_safe)
  show "reader_ok r \<Longrightarrow> strict_from r (readLenPrefixed r)" for r
    by (rule readLenPrefixed_strict)
  show "appendLenPrefixed dst c = dst @ appendLenPrefixed [] c" for dst c
    by (simp add: appendLenPrefixed_def AppendUvarint_eq [of dst])
  show "appendLenPrefixed [] c \<noteq> []" for c
    by (simp add: appendLenPrefixed_def)
qed (rule readLenPrefixed_parses)

section \<open>The stream of blocks (block.go, encode.go)\<close>

definition SplitBlocks :: "bytes \<Rightarrow> bytes list res" where
  "SplitBlocks body = read_stream readLenPrefixed body"

definition EncodeFastUpdates :: "bytes list \<Rightarrow> bytes" where
  "EncodeFastUpdates blocks = foldl appendLenPrefixed [] blocks"

lemma SplitBlocks_error: "SplitBlocks body = Inl e \<Longrightarrow> go_error e"
  unfolding SplitBlocks_def by (rule blobS.read_stream_error)

lemma SplitBlocks_reads_back:
  "list_all go_len blocks \<Longrightarrow> SplitBlocks (EncodeFastUpdates blocks) = Inr blocks"
  unfolding SplitBlocks_def EncodeFastUpdates_def blobS.foldl_wr
  by (simp add: blobS.read_stream_reads)

section \<open>The frame of a block\<close>

record Block =
  CounterStart :: u64
  CounterLen :: u64
  LamportStart :: u64
  LamportLen :: u64
  NChanges :: u64
  b_Header :: bytes
  b_ChangeMeta :: bytes
  b_CIDs :: bytes
  b_Keys :: bytes
  b_Positions :: bytes
  b_Ops :: bytes
  b_DeleteIDs :: bytes
  b_Values :: bytes

text \<open>The five varints and the eight blobs are read by two loops and then assigned in order.\<close>

definition ParseBlock :: "bytes \<Rightarrow> Block res" where
  "ParseBlock b =
     bindR (read_n 5 reader_Uvarint (NewReader b)) (\<lambda>(vs, r).
     bindR (read_n 8 readLenPrefixed r) (\<lambda>(blobs, r).
       if \<not> reader_Empty r then Inl ErrBlock
       else Inr \<lparr>CounterStart = vs ! 0, CounterLen = vs ! 1, LamportStart = vs ! 2,
         LamportLen = vs ! 3, NChanges = vs ! 4, b_Header = blobs ! 0, b_ChangeMeta = blobs ! 1,
         b_CIDs = blobs ! 2, b_Keys = blobs ! 3, b_Positions = blobs ! 4, b_Ops = blobs ! 5,
         b_DeleteIDs = blobs ! 6, b_Values = blobs ! 7\<rparr>))"

definition block_ints :: "Block \<Rightarrow> u64 list" where
  "block_ints blk =
     [CounterStart blk, CounterLen blk, LamportStart blk, LamportLen blk, NChanges blk]"

definition block_blobs :: "Block \<Rightarrow> bytes list" where
  "block_blobs blk =
     [b_Header blk, b_ChangeMeta blk, b_CIDs blk, b_Keys blk, b_Positions blk, b_Ops blk,
      b_DeleteIDs blk, b_Values blk]"

definition EncodeBlock :: "Block \<Rightarrow> bytes" where
  "EncodeBlock blk =
     foldl appendLenPrefixed (foldl AppendUvarint [] (block_ints blk)) (block_blobs blk)"

lemma ParseBlock_error: "ParseBlock b = Inl e \<Longrightarrow> go_error e"
proof -
  have "safe_from (NewReader b) (read_n 5 reader_Uvarint (NewReader b))"
    by (rule uvarintR.read_n_safe) simp
  moreover have "reader_ok r \<Longrightarrow> safe_from r (read_n 8 readLenPrefixed r)" for r
    by (rule blobS.read_n_safe)
  moreover assume "ParseBlock b = Inl e"
  ultimately show ?thesis
    by (fastforce simp: ParseBlock_def bindR_Inl_iff case_prod_unfold split: if_splits
        dest: safe_from_InlD safe_from_InrD moved_ok)
qed

lemma length_block_ints [simp]: "length (block_ints blk) = 5"
  and length_block_blobs [simp]: "length (block_blobs blk) = 8"
  by (simp_all add: block_ints_def block_blobs_def)

lemma ParseBlock_reads_back:
  assumes "list_all go_len (block_blobs blk)"
  shows "ParseBlock (EncodeBlock blk) = Inr blk"
proof -
  let ?is = "concat (map uvarint_bytes (block_ints blk))"
  let ?bs = "concat (map (appendLenPrefixed []) (block_blobs blk))"
  have enc: "EncodeBlock blk = ?is @ ?bs"
    by (simp only: EncodeBlock_def blobS.foldl_wr uvarintC.foldl_wr append_Nil)
  have is_: "parses (read_n 5 reader_Uvarint) ?is (block_ints blk)"
    using uvarintC.read_n_parses [of "block_ints blk"] by (simp add: list_all_iff)
  have bs: "parses (read_n 8 readLenPrefixed) ?bs (block_blobs blk)"
    using blobS.read_n_parses [OF assms] by simp
  have at: "reader_at (NewReader (EncodeBlock blk)) (?is @ ?bs)"
    by (simp only: enc reader_at_NewReader)
  note at' = reader_at_advance [OF at refl]
  have "reader_at (advance (length ?bs) (advance (length ?is) (NewReader (EncodeBlock blk)))) []"
    using reader_at_advance [of "advance (length ?is) (NewReader (EncodeBlock blk))" ?bs "[]"] at'
    by (simp only: append_Nil2)
  then have "reader_Empty (advance (length ?bs) (advance (length ?is) (NewReader (EncodeBlock blk))))"
    by (simp add: reader_at_Empty)
  then show ?thesis
    unfolding ParseBlock_def parsesD [OF is_ at] bindR_simps case_prod_conv parsesD_all [OF bs at']
    by (simp add: block_ints_def block_blobs_def)
qed

end
