(* ===== verification/ColumnarDoD.thy ===== *)
theory ColumnarDoD
  imports ColumnarRle
begin

text \<open>
  Package \<open>encoding/columnar\<close>, the DeltaOfDelta (Gorilla) strategy: the bit reader and writer,
  the variable-length code of one second-order delta, and the column decoders and encoder.
  A byte slice is abstracted to the list of its bits, most significant first (\<open>bits_of\<close>); the
  writer holds a list of bits padded with zeros (\<open>bw_ok\<close>), and a reading function \<open>bparses\<close> a
  list of bits as the byte decoders \<open>parse\<close> a list of bytes. Values and deltas are \<open>int64\<close>, so
  the round trip holds for every list, wrapping included.
\<close>

section \<open>The bits of a byte slice\<close>

definition byte_bits :: "byte \<Rightarrow> bool list" where
  "byte_bits c = map (\<lambda>i. bit c (7 - i)) [0..<8]"

definition bits_of :: "bytes \<Rightarrow> bool list" where
  "bits_of b = concat (map byte_bits b)"

lemma length_byte_bits [simp]: "length (byte_bits c) = 8"
  by (simp add: byte_bits_def)

lemma bits_of_simps [simp]:
  "bits_of [] = []"
  "bits_of (c # b) = byte_bits c @ bits_of b"
  "bits_of (b @ b') = bits_of b @ bits_of b'"
  by (simp_all add: bits_of_def)

lemma length_bits_of [simp]: "length (bits_of b) = 8 * length b"
  by (induction b) simp_all

lemma nth_bits_of: "i < 8 * length b \<Longrightarrow> bits_of b ! i = bit (b ! (i div 8)) (7 - i mod 8)"
proof (induction b arbitrary: i)
  case Nil
  then show ?case by simp
next
  case (Cons c b)
  show ?case
  proof (cases "i < 8")
    case True
    then show ?thesis by (simp add: nth_append byte_bits_def del: upt_Suc)
  next
    case False
    then have i: "i div 8 = Suc ((i - 8) div 8)" "i mod 8 = (i - 8) mod 8"
      by (simp_all add: le_div_geq le_mod_geq)
    from False Cons.prems Cons.IH [of "i - 8"] show ?thesis
      by (simp add: nth_append i)
  qed
qed

lemma byte_bits_0 [simp]: "byte_bits 0 = replicate 8 False"
  by (simp add: byte_bits_def map_replicate_trivial flip: replicate_Suc)

lemma byte_bits_set:
  assumes "k < 8"
  shows "byte_bits (c OR 2 ^ (7 - k)) = (byte_bits c)[k := True]"
proof (rule nth_equalityI)
  fix i
  assume "i < length (byte_bits (c OR 2 ^ (7 - k)))"
  then have i: "i < 8" by simp
  have "bit (2 ^ (7 - k) :: byte) (7 - i) \<longleftrightarrow> i = k"
    using i assms by (auto simp: bit_exp_iff)
  then show "byte_bits (c OR 2 ^ (7 - k)) ! i = (byte_bits c)[k := True] ! i"
    using i assms by (auto simp: byte_bits_def nth_list_update bit_or_iff simp del: upt_Suc)
qed simp

lemma bits_of_set:
  assumes "j < length b" and "k < 8"
  shows "bits_of (b[j := b ! j OR 2 ^ (7 - k)]) = (bits_of b)[8 * j + k := True]"
  using assms(1)
proof (induction b arbitrary: j)
  case Nil
  then show ?case by simp
next
  case (Cons c b)
  then show ?case
    using assms(2) by (cases j) (simp_all add: byte_bits_set list_update_append)
qed

section \<open>bitReader (columnar.go)\<close>

record bitReader =
  br_b :: bytes
  br_consumed :: nat

text \<open>One bit; past the end of the stream a zero.\<close>

definition br_bit :: "bitReader \<Rightarrow> bool \<times> bitReader" where
  "br_bit br =
     (let idx = br_consumed br div 8;
          off = 7 - br_consumed br mod 8;
          br' = br\<lparr>br_consumed := br_consumed br + 1\<rparr>
      in if idx \<ge> length (br_b br) then (False, br')
         else (bit (drop_bit off (br_b br ! idx) AND 1) 0, br'))"

fun br_bits_loop :: "nat \<Rightarrow> u64 \<Rightarrow> bitReader \<Rightarrow> u64 \<times> bitReader" where
  "br_bits_loop 0 v br = (v, br)"
| "br_bits_loop (Suc n) v br =
     (case br_bit br of (b, br) \<Rightarrow> br_bits_loop n (push_bit 1 v OR of_bool b) br)"

definition br_bits :: "nat \<Rightarrow> bitReader \<Rightarrow> u64 \<times> bitReader" where
  "br_bits n br = br_bits_loop n 0 br"

definition readDoD :: "bitReader \<Rightarrow> i64 \<times> bitReader" where
  "readDoD br =
     (case br_bit br of (b, br) \<Rightarrow> if \<not> b then (0, br) else
      case br_bit br of (b, br) \<Rightarrow>
        if \<not> b then (case br_bits 7 br of (v, br) \<Rightarrow> (v - 63, br)) else
      case br_bit br of (b, br) \<Rightarrow>
        if \<not> b then (case br_bits 9 br of (v, br) \<Rightarrow> (v - 255, br)) else
      case br_bit br of (b, br) \<Rightarrow>
        if \<not> b then (case br_bits 12 br of (v, br) \<Rightarrow> (v - 2047, br)) else
      case br_bit br of (b, br) \<Rightarrow>
        if \<not> b then (case br_bits 21 br of (v, br) \<Rightarrow> (v - 1048575, br)) else
      br_bits 64 br)"

section \<open>bitWriter (encode.go)\<close>

record bitWriter =
  bw_bytes :: bytes
  bw_nbits :: nat

definition writeBit :: "bitWriter \<Rightarrow> bool \<Rightarrow> bitWriter" where
  "writeBit w b =
     (let bs = (if bw_nbits w mod 8 = 0 then bw_bytes w @ [0] else bw_bytes w);
          j = length bs - 1;
          bs' = (if b then bs[j := bs ! j OR push_bit (7 - bw_nbits w mod 8) 1] else bs)
      in \<lparr>bw_bytes = bs', bw_nbits = bw_nbits w + 1\<rparr>)"

fun writeBits :: "bitWriter \<Rightarrow> u64 \<Rightarrow> nat \<Rightarrow> bitWriter" where
  "writeBits w v 0 = w"
| "writeBits w v (Suc n) = writeBits (writeBit w (bit (drop_bit n v AND 1) 0)) v n"

definition writeDoD :: "bitWriter \<Rightarrow> i64 \<Rightarrow> bitWriter" where
  "writeDoD w dod =
     (if dod = 0 then writeBit w False else
      let w = writeBit w True in
      if sint dod \<ge> -63 \<and> sint dod \<le> 64 then writeBits (writeBit w False) (dod + 63) 7 else
      let w = writeBit w True in
      if sint dod \<ge> -255 \<and> sint dod \<le> 256 then writeBits (writeBit w False) (dod + 255) 9 else
      let w = writeBit w True in
      if sint dod \<ge> -2047 \<and> sint dod \<le> 2048 then writeBits (writeBit w False) (dod + 2047) 12 else
      let w = writeBit w True in
      if sint dod \<ge> -1048575 \<and> sint dod \<le> 1048576
      then writeBits (writeBit w False) (dod + 1048575) 21 else
      let w = writeBit w True in
      writeBits w dod 64)"

subsection \<open>The writer holds a padded list of bits\<close>

definition bw_ok :: "bitWriter \<Rightarrow> bool list \<Rightarrow> bool" where
  "bw_ok w xs \<longleftrightarrow> bw_nbits w = length xs \<and> length (bw_bytes w) = (length xs + 7) div 8 \<and>
     bits_of (bw_bytes w) = xs @ replicate (8 * length (bw_bytes w) - length xs) False"

lemma bw_ok_empty: "bw_ok \<lparr>bw_bytes = [], bw_nbits = 0\<rparr> []"
  by (simp add: bw_ok_def)

lemma set_first_pad: "0 < m \<Longrightarrow> (xs @ replicate m False)[length xs := True] = (xs @ [True]) @ replicate (m - 1) False"
  by (cases m) (simp_all add: list_update_append)

lemma pad_first: "0 < m \<Longrightarrow> xs @ replicate m False = (xs @ [False]) @ replicate (m - 1) False"
  by (cases m) simp_all

lemma ceil8: "(n + 7) div 8 = (if n mod 8 = 0 then n div 8 else Suc (n div 8))" for n :: nat
proof -
  have n: "n = 8 * (n div 8) + n mod 8" and lt: "n mod 8 < 8" by simp_all
  from n have "0 < n mod 8 \<Longrightarrow> 8 * (n div 8) < n" by linarith
  with n lt show ?thesis
    by (auto intro!: div_nat_eqI simp: Suc_le_eq)
qed

lemma writeBit_ok:
  assumes "bw_ok w xs"
  shows "bw_ok (writeBit w b) (xs @ [b])"
proof -
  define bs where "bs = (if length xs mod 8 = 0 then bw_bytes w @ [0] else bw_bytes w)"
  define j where "j = length bs - 1"
  let ?k = "length xs mod 8"
  from assms have n: "bw_nbits w = length xs" and len: "length (bw_bytes w) = (length xs + 7) div 8"
    and bits: "bits_of (bw_bytes w) = xs @ replicate (8 * length (bw_bytes w) - length xs) False"
    by (simp_all add: bw_ok_def)
  have lbs: "length bs = length xs div 8 + 1"
    using len by (simp add: bs_def ceil8)
  then have j: "j = length xs div 8" "j < length bs" "8 * j + ?k = length xs"
    by (simp_all add: j_def)
  define m where "m = 8 * length bs - length xs"
  have m: "0 < m" using lbs by (simp add: m_def)
  have bbs: "bits_of bs = xs @ replicate m False"
  proof (cases "?k = 0")
    case True
    then have "8 * length (bw_bytes w) = length xs" using len by presburger
    with bits True show ?thesis by (simp add: bs_def m_def)
  next
    case False
    with bits show ?thesis by (simp add: bs_def m_def)
  qed
  have "writeBit w b = \<lparr>bw_bytes = (if b then bs[j := bs ! j OR 2 ^ (7 - ?k)] else bs),
      bw_nbits = length xs + 1\<rparr>"
    by (simp add: writeBit_def Let_def n bs_def j_def)
  moreover have "bits_of (if b then bs[j := bs ! j OR 2 ^ (7 - ?k)] else bs) =
      (xs @ [b]) @ replicate (m - 1) False"
  proof (cases b)
    case True
    have "bits_of (bs[j := bs ! j OR 2 ^ (7 - ?k)]) = (bits_of bs)[length xs := True]"
      using bits_of_set [OF j(2), of ?k] j(3) by simp
    with True show ?thesis by (simp only: if_True bbs set_first_pad [OF m])
  next
    case False
    then show ?thesis by (simp only: if_False bbs pad_first [OF m])
  qed
  moreover have "(length (xs @ [b]) + 7) div 8 = length bs"
    using lbs by simp
  ultimately show ?thesis
    by (cases b) (simp_all add: bw_ok_def m_def)
qed

definition low_bits :: "u64 \<Rightarrow> nat \<Rightarrow> bool list" where
  "low_bits v n = map (bit v) (rev [0..<n])"

lemma low_bits_Suc: "low_bits v (Suc n) = bit v n # low_bits v n"
  by (simp add: low_bits_def)

lemma length_low_bits [simp]: "length (low_bits v n) = n"
  by (simp add: low_bits_def)

lemma bit_shifted_out: "bit (drop_bit n v AND 1) 0 = bit v n"
  by (simp add: bit_and_iff bit_drop_bit_eq)

lemma writeBits_ok: "bw_ok w xs \<Longrightarrow> bw_ok (writeBits w v n) (xs @ low_bits v n)"
proof (induction n arbitrary: w xs)
  case 0
  then show ?case by (simp add: low_bits_def)
next
  case (Suc n)
  from Suc.IH [OF writeBit_ok [OF Suc.prems, of "bit v n"]] show ?case
    by (simp add: low_bits_Suc bit_shifted_out)
qed

text \<open>The code of one second-order delta.\<close>

definition dod_bits :: "i64 \<Rightarrow> bool list" where
  "dod_bits dod =
     (if dod = 0 then [False]
      else if sint dod \<ge> -63 \<and> sint dod \<le> 64 then [True, False] @ low_bits (dod + 63) 7
      else if sint dod \<ge> -255 \<and> sint dod \<le> 256 then [True, True, False] @ low_bits (dod + 255) 9
      else if sint dod \<ge> -2047 \<and> sint dod \<le> 2048
        then [True, True, True, False] @ low_bits (dod + 2047) 12
      else if sint dod \<ge> -1048575 \<and> sint dod \<le> 1048576
        then [True, True, True, True, False] @ low_bits (dod + 1048575) 21
      else [True, True, True, True, True] @ low_bits dod 64)"

lemma dod_bits_nonempty [simp]: "dod_bits dod \<noteq> []"
  by (simp add: dod_bits_def)

lemma writeBit_seq:
  "bw_ok w xs \<Longrightarrow> bw_ok (writeBits (writeBit w b) v n) (xs @ b # low_bits v n)"
  using writeBits_ok [OF writeBit_ok [of w xs b], of v n] by simp

lemma bw_ok_if:
  "(c \<Longrightarrow> bw_ok u (xs @ ys)) \<Longrightarrow> (\<not> c \<Longrightarrow> bw_ok w (xs @ zs)) \<Longrightarrow>
    bw_ok (if c then u else w) (xs @ (if c then ys else zs))"
  by simp

lemma writeDoD_ok:
  assumes "bw_ok w xs"
  shows "bw_ok (writeDoD w dod) (xs @ dod_bits dod)"
proof -
  note w1 = writeBit_ok [OF assms, of True]
  note w2 = writeBit_ok [OF w1, of True]
  note w3 = writeBit_ok [OF w2, of True]
  note w4 = writeBit_ok [OF w3, of True]
  note w5 = writeBit_ok [OF w4, of True]
  have e: "bw_ok (writeBit w False) (xs @ [False])"
    "bw_ok (writeBits (writeBit (writeBit w True) False) (dod + 63) 7)
      (xs @ [True, False] @ low_bits (dod + 63) 7)"
    "bw_ok (writeBits (writeBit (writeBit (writeBit w True) True) False) (dod + 255) 9)
      (xs @ [True, True, False] @ low_bits (dod + 255) 9)"
    "bw_ok (writeBits (writeBit (writeBit (writeBit (writeBit w True) True) True) False) (dod + 2047) 12)
      (xs @ [True, True, True, False] @ low_bits (dod + 2047) 12)"
    "bw_ok (writeBits (writeBit (writeBit (writeBit (writeBit (writeBit w True) True) True) True) False)
        (dod + 1048575) 21)
      (xs @ [True, True, True, True, False] @ low_bits (dod + 1048575) 21)"
    "bw_ok (writeBits (writeBit (writeBit (writeBit (writeBit (writeBit w True) True) True) True) True) dod 64)
      (xs @ [True, True, True, True, True] @ low_bits dod 64)"
    using writeBit_ok [OF assms, of False] writeBit_seq [OF w1, of False "dod + 63" 7]
      writeBit_seq [OF w2, of False "dod + 255" 9] writeBit_seq [OF w3, of False "dod + 2047" 12]
      writeBit_seq [OF w4, of False "dod + 1048575" 21] writeBits_ok [OF w5, of dod 64]
    by simp_all
  show ?thesis
    unfolding writeDoD_def dod_bits_def Let_def by (intro bw_ok_if e)
qed

section \<open>Reading the bits back\<close>

definition bits_from :: "bitReader \<Rightarrow> bool list" where
  "bits_from br = drop (br_consumed br) (bits_of (br_b br))"

definition bparses :: "(bitReader \<Rightarrow> 'a \<times> bitReader) \<Rightarrow> bool list \<Rightarrow> 'a \<Rightarrow> bool" where
  "bparses d xs v \<longleftrightarrow> (\<forall>br ys. bits_from br = xs @ ys \<longrightarrow>
     d br = (v, br\<lparr>br_consumed := br_consumed br + length xs\<rparr>))"

lemma bits_from_advance:
  "bits_from br = xs @ ys \<Longrightarrow> bits_from (br\<lparr>br_consumed := br_consumed br + length xs\<rparr>) = ys"
  for br :: bitReader
  using list_split_take by (fastforce simp: bits_from_def)

lemma bparses_bind:
  assumes "bparses d xs v" and "bparses (\<lambda>br. f v br) zs w"
  shows "bparses (\<lambda>br. case d br of (v, br) \<Rightarrow> f v br) (xs @ zs) w"
  unfolding bparses_def
proof (intro allI impI)
  fix br :: bitReader and ys
  assume br: "bits_from br = (xs @ zs) @ ys"
  then have d: "d br = (v, br\<lparr>br_consumed := br_consumed br + length xs\<rparr>)"
    using assms(1) by (simp add: bparses_def)
  have "bits_from (br\<lparr>br_consumed := br_consumed br + length xs\<rparr>) = zs @ ys"
    using br by (intro bits_from_advance) simp
  with assms(2) d show "(case d br of (v, br) \<Rightarrow> f v br) =
      (w, br\<lparr>br_consumed := br_consumed br + length (xs @ zs)\<rparr>)"
    by (simp add: bparses_def add.assoc)
qed

lemma bparses_bit: "bparses br_bit [b] b"
  unfolding bparses_def
proof (intro allI impI)
  fix br :: bitReader and ys
  let ?i = "br_consumed br"
  assume br: "bits_from br = [b] @ ys"
  then have lt: "?i < 8 * length (br_b br)"
    using length_drop [of ?i "bits_of (br_b br)"] by (simp add: bits_from_def)
  then have idx: "\<not> length (br_b br) \<le> ?i div 8"
    by (simp add: not_le div_less_iff_less_mult mult.commute)
  have "b = bits_of (br_b br) ! ?i"
    using br lt by (metis append_Cons bits_from_def hd_drop_conv_nth length_bits_of list.sel(1))
  then have "b = bit (br_b br ! (?i div 8)) (7 - ?i mod 8)"
    using lt by (simp add: nth_bits_of)
  then show "br_bit br = (b, br\<lparr>br_consumed := ?i + length [b]\<rparr>)"
    using idx by (simp add: br_bit_def Let_def bit_and_iff bit_drop_bit_eq)
qed

lemma br_bits_loop_low_bits:
  "bparses (br_bits_loop n v) (low_bits u n) (push_bit n v OR take_bit n u)"
proof (induction n arbitrary: v)
  case 0
  then show ?case by (simp add: bparses_def low_bits_def)
next
  case (Suc n)
  have glue: "push_bit n (push_bit 1 v OR of_bool (bit u n)) OR take_bit n u =
      push_bit (Suc n) v OR take_bit (Suc n) u"
    by (rule bit_eqI)
      (auto simp: bit_or_iff bit_push_bit_iff bit_take_bit_iff bit_of_bool_iff less_Suc_eq
        simp del: push_bit_Suc push_bit_of_1)
  show ?case
    using bparses_bind [where f = "\<lambda>b br. br_bits_loop n (push_bit 1 v OR of_bool b) br",
        OF bparses_bit [of "bit u n"] Suc.IH [of "push_bit 1 v OR of_bool (bit u n)"]]
    by (simp only: br_bits_loop.simps low_bits_Suc glue append_Cons append_Nil)
qed

lemma br_bits_low_bits: "bparses (br_bits n) (low_bits u n) (take_bit n u)"
  using br_bits_loop_low_bits [of n 0 u] by (simp add: br_bits_def bparses_def)

lemma offset_fits:
  assumes "- int k \<le> sint (d :: i64)" and "sint d < 2 ^ n - int k" and "n < 64"
  shows "take_bit n (d + of_nat k) = d + of_nat k"
proof -
  have "d + of_nat k = word_of_int (sint d + int k)" by simp
  then have "uint (d + of_nat k) = take_bit 64 (sint d + int k)"
    by (simp only: unsigned_of_int) simp
  also have "\<dots> = sint d + int k"
  proof (rule take_bit_int_eq_self)
    have "(2 :: int) ^ n \<le> 2 ^ 64" using assms(3) by (intro power_increasing) simp_all
    with assms(2) show "sint d + int k < 2 ^ 64" by linarith
  qed (use assms(1) in simp)
  finally have "uint (d + of_nat k) < 2 ^ n" using assms(2) by simp
  then have "take_bit n (uint (d + of_nat k)) = uint (d + of_nat k)"
    by (intro take_bit_int_eq_self) simp_all
  then show ?thesis
    by (simp only: word_uint_eq_iff unsigned_take_bit_eq)
qed

lemma readDoD_code:
  assumes "take_bit n (d + k) = d + k"
  shows "bparses (\<lambda>br. case br_bits n br of (v, br) \<Rightarrow> (v - k, br)) (low_bits (d + k) n) d"
  using bparses_bind [OF br_bits_low_bits [of n "d + k"], of "\<lambda>v br. (v - k, br)" "[]" d] assms
  by (simp add: bparses_def)

lemma bparses_bit_True:
  "bparses (\<lambda>br. f br) zs w \<Longrightarrow>
    bparses (\<lambda>br. case br_bit br of (b, br) \<Rightarrow> if \<not> b then g br else f br) (True # zs) w"
  using bparses_bind [OF bparses_bit [of True], of "\<lambda>b br. if \<not> b then g br else f br" zs w] by simp

lemma bparses_bit_False:
  "bparses (\<lambda>br. g br) zs w \<Longrightarrow>
    bparses (\<lambda>br. case br_bit br of (b, br) \<Rightarrow> if \<not> b then g br else f br) (False # zs) w"
  using bparses_bind [OF bparses_bit [of False], of "\<lambda>b br. if \<not> b then g br else f br" zs w] by simp

lemma readDoD_dod_bits: "bparses readDoD (dod_bits d) d"
proof -
  have 7: "take_bit 7 (d + 63) = d + 63" if "sint d \<ge> -63 \<and> sint d \<le> 64"
    using offset_fits [of 63 d 7] that by simp
  have 9: "take_bit 9 (d + 255) = d + 255" if "sint d \<ge> -255 \<and> sint d \<le> 256"
    using offset_fits [of 255 d 9] that by simp
  have 12: "take_bit 12 (d + 2047) = d + 2047" if "sint d \<ge> -2047 \<and> sint d \<le> 2048"
    using offset_fits [of 2047 d 12] that by simp
  have 21: "take_bit 21 (d + 1048575) = d + 1048575" if "sint d \<ge> -1048575 \<and> sint d \<le> 1048576"
    using offset_fits [of 1048575 d 21] that by simp
  have 64: "bparses (br_bits 64) (low_bits d 64) d"
    using br_bits_low_bits [of 64 d] take_bit_length_eq [of d] by simp
  have 0: "bparses (\<lambda>br. (0, br)) [] (0 :: i64)"
    by (simp add: bparses_def)
  show ?thesis
    unfolding readDoD_def [abs_def] dod_bits_def
    by (auto intro!: bparses_bit_True bparses_bit_False readDoD_code 7 9 12 21 64 0)
qed

text \<open>Reading never goes back, which is what ends the decoder's loop.\<close>

lemma br_bit_consumed: "br_bit br = (b, br') \<Longrightarrow> br_consumed br' = br_consumed br + 1 \<and> br_b br' = br_b br"
  by (auto simp: br_bit_def Let_def split: if_splits)

lemma br_bits_loop_consumed:
  "br_bits_loop n v br = (u, br') \<Longrightarrow> br_consumed br' = br_consumed br + n \<and> br_b br' = br_b br"
proof (induction n arbitrary: v br)
  case (Suc n)
  obtain b br1 where b: "br_bit br = (b, br1)" by (cases "br_bit br")
  with Suc.prems Suc.IH [of "push_bit 1 v OR of_bool b" br1] br_bit_consumed [OF b]
  show ?case by simp
qed simp

lemma br_bits_consumed:
  "br_bits n br = (u, br') \<Longrightarrow> br_consumed br' = br_consumed br + n \<and> br_b br' = br_b br"
  unfolding br_bits_def by (rule br_bits_loop_consumed)

lemma readDoD_consumed:
  "readDoD br = (d, br') \<Longrightarrow> br_consumed br < br_consumed br' \<and> br_b br' = br_b br"
  by (auto simp: readDoD_def split: prod.splits if_splits
      dest!: br_bit_consumed br_bits_consumed)

section \<open>DeltaOfDelta columns\<close>

text \<open>The encoder's loop over \<open>vals[1:]\<close>, with the previous delta and value.\<close>

fun dod_write_loop :: "bitWriter \<Rightarrow> i64 \<Rightarrow> i64 \<Rightarrow> i64 list \<Rightarrow> bitWriter" where
  "dod_write_loop w prevDelta prevVal [] = w"
| "dod_write_loop w prevDelta prevVal (v # vs) =
     (let delta = v - prevVal in dod_write_loop (writeDoD w (delta - prevDelta)) delta v vs)"

definition EncodeDeltaOfDelta :: "i64 list \<Rightarrow> bytes" where
  "EncodeDeltaOfDelta vals =
     (case vals of
        [] \<Rightarrow> [0, 0]
      | v0 # vs \<Rightarrow>
        (let out = AppendVarint [1] v0;
             w = dod_write_loop \<lparr>bw_bytes = [], bw_nbits = 0\<rparr> 0 v0 vs;
             lub = (if bw_nbits w > 0
                    then (if bw_nbits w mod 8 = 0 then 8 else of_nat (bw_nbits w mod 8))
                    else 0 :: byte)
         in out @ [lub] @ bw_bytes w))"

function dod_read_loop :: "nat \<Rightarrow> bitReader \<Rightarrow> i64 \<Rightarrow> i64 \<Rightarrow> i64 list \<Rightarrow> i64 list" where
  "dod_read_loop totalBits br prevDelta prevVal out =
     (if br_consumed br < totalBits then
        (case readDoD br of (d, br') \<Rightarrow>
          dod_read_loop totalBits br' (prevDelta + d) (prevVal + (prevDelta + d))
            (out @ [prevVal + (prevDelta + d)]))
      else out)"
  by pat_completeness auto
termination
  by (relation "measure (\<lambda>(t, br, pd, pv, out). t - br_consumed br)")
    (auto dest!: sym [THEN readDoD_consumed])

declare dod_read_loop.simps [simp del]

definition DeltaOfDelta :: "bytes \<Rightarrow> i64 list res" where
  "DeltaOfDelta col =
     bindR (reader_Byte (NewReader col)) (\<lambda>(tag, r).
       if tag = 0 then bindR (reader_Byte r) (\<lambda>(_, r). Inr [])
       else if tag \<noteq> 1 then Inl ErrColumnar
       else bindR (reader_Varint r) (\<lambda>(first, r).
         bindR (reader_Byte r) (\<lambda>(lastUsedBits, r).
           (let stream = reader_Rest r;
                totalBits = (if length stream > 0
                             then (length stream - 1) * 8 + unat lastUsedBits else 0)
            in Inr (dod_read_loop totalBits \<lparr>br_b = stream, br_consumed = 0\<rparr> 0 first [first])))))"

text \<open>\<open>DeltaOfDeltaN\<close> knows the number of values and checks the last byte against the bits read.\<close>

fun dod_read_n :: "nat \<Rightarrow> bitReader \<Rightarrow> i64 \<Rightarrow> i64 \<Rightarrow> i64 list \<times> bitReader" where
  "dod_read_n 0 br prevDelta prevVal = ([], br)"
| "dod_read_n (Suc k) br prevDelta prevVal =
     (case readDoD br of (d, br) \<Rightarrow>
      case dod_read_n k br (prevDelta + d) (prevVal + (prevDelta + d)) of (vs, br) \<Rightarrow>
        ((prevVal + (prevDelta + d)) # vs, br))"

definition DeltaOfDeltaN :: "reader \<Rightarrow> int \<Rightarrow> (i64 list \<times> reader) res" where
  "DeltaOfDeltaN r count =
     (if count < 0 \<or> count > int maxColRows then Inl ErrColumnar
      else bindR (reader_Byte r) (\<lambda>(tag, r).
        if count = 0 then
          (if tag \<noteq> 0 then Inl ErrColumnar
           else bindR (reader_Byte r) (\<lambda>(_, r). Inr ([], r)))
        else if tag \<noteq> 1 then Inl ErrColumnar
        else bindR (reader_Varint r) (\<lambda>(first, r).
          bindR (reader_Byte r) (\<lambda>(lub, r).
            if count = 1 then Inr ([first], r)
            else (case dod_read_n (nat count - 1) \<lparr>br_b = reader_Rest r, br_consumed = 0\<rparr> 0 first of
              (vs, br) \<Rightarrow>
                (let numBytes = (br_consumed br + 7) div 8;
                     r' = r\<lparr>rI := rI r + numBytes\<rparr>
                 in if numBytes > 0 \<and> int (unat lub) \<noteq> int (br_consumed br) - (int numBytes - 1) * 8
                    then Inl ErrColumnar
                    else if rI r' > length (rB r') then Inl ErrColumnar
                    else Inr (first # vs, r')))))))"

subsection \<open>Safety\<close>

lemma DeltaOfDelta_error: "DeltaOfDelta col = Inl e \<Longrightarrow> go_error e"
proof -
  assume err: "DeltaOfDelta col = Inl e"
  define body :: "reader \<Rightarrow> (i64 list \<times> reader) res" where
    "body r0 = bindR (reader_Byte r0) (\<lambda>(tag, r).
       if tag = 0 then bindR (reader_Byte r) (\<lambda>(_, r). Inr ([], r))
       else if tag \<noteq> 1 then Inl ErrColumnar
       else bindR (reader_Varint r) (\<lambda>(first, r).
         bindR (reader_Byte r) (\<lambda>(lub, r). Inr ([], r))))" for r0
  have "safe_from (NewReader col) (body (NewReader col))"
    unfolding body_def by (auto intro!: safe_intros)
  moreover from err have "body (NewReader col) = Inl e"
    by (auto simp: DeltaOfDelta_def body_def bindR_Inl_iff Let_def split: if_splits)
  ultimately show "go_error e" by (rule safe_from_InlD)
qed

lemma DeltaOfDeltaN_safe [safe_intros]: "reader_ok r \<Longrightarrow> safe_from r (DeltaOfDeltaN r count)"
proof -
  assume ok: "reader_ok r"
  have jump: "safe_from q (Inr (v, q\<lparr>rI := rI q + n\<rparr>))" if "\<not> length (rB q) < rI q + n"
    for q n and v :: "i64 list" using that
    by (simp add: safe_from_def moved_def reader_ok_def)
  show ?thesis
    unfolding DeltaOfDeltaN_def Let_def using ok
    by (auto intro!: safe_intros jump simp: case_prod_unfold)
qed

lemma dod_read_n_length [simp]: "length (fst (dod_read_n k br pd pv)) = k"
  by (induction k arbitrary: br pd pv) (auto simp: case_prod_unfold)

lemma dod_read_n_Nil [simp]: "[] = fst (dod_read_n k br pd pv) \<longleftrightarrow> k = 0"
  using dod_read_n_length [of k br pd pv] by (metis length_0_conv)

lemma DeltaOfDeltaN_length: "DeltaOfDeltaN r count = Inr (vs, r') \<Longrightarrow> 0 \<le> count \<and> length vs = nat count"
  by (auto simp: DeltaOfDeltaN_def bindR_Inr_iff Let_def case_prod_unfold split: if_splits)

subsection \<open>Round trip\<close>

text \<open>The bits written for the values after the first.\<close>

fun dods_bits :: "i64 \<Rightarrow> i64 \<Rightarrow> i64 list \<Rightarrow> bool list" where
  "dods_bits pd pv [] = []"
| "dods_bits pd pv (v # vs) = dod_bits (v - pv - pd) @ dods_bits (v - pv) v vs"

lemma dod_write_loop_ok:
  "bw_ok w xs \<Longrightarrow> bw_ok (dod_write_loop w pd pv vs) (xs @ dods_bits pd pv vs)"
proof (induction vs arbitrary: w xs pd pv)
  case (Cons v vs)
  from Cons.IH [OF writeDoD_ok [OF Cons.prems, of "v - pv - pd"], of "v - pv" v]
  show ?case by (simp add: Let_def)
qed simp

lemma dods_bits_nonempty: "vs \<noteq> [] \<Longrightarrow> dods_bits pd pv vs \<noteq> []"
  by (cases vs) simp_all

lemma dod_read_n_parses: "bparses (\<lambda>br. dod_read_n (length vs) br pd pv) (dods_bits pd pv vs) vs"
proof (induction vs arbitrary: pd pv)
  case Nil
  then show ?case by (simp add: bparses_def)
next
  case (Cons v vs)
  have "bparses (\<lambda>br. case dod_read_n (length vs) br (v - pv) v of (us, br) \<Rightarrow> (v # us, br))
      (dods_bits (v - pv) v vs @ []) (v # vs)"
    by (rule bparses_bind [OF Cons.IH]) (simp add: bparses_def)
  then have "bparses (\<lambda>br. case dod_read_n (length vs) br (pd + (v - pv - pd)) (pv + (pd + (v - pv - pd)))
      of (us, br) \<Rightarrow> ((pv + (pd + (v - pv - pd))) # us, br)) (dods_bits (v - pv) v vs) (v # vs)"
    by simp
  from bparses_bind [OF readDoD_dod_bits [of "v - pv - pd"], of "\<lambda>d br. case dod_read_n (length vs) br
      (pd + d) (pv + (pd + d)) of (us, br) \<Rightarrow> ((pv + (pd + d)) # us, br)", OF this]
  show ?case by simp
qed

lemma dod_read_loop_bits:
  "bits_from br = dods_bits pd pv vs @ ys \<Longrightarrow> totalBits = br_consumed br + length (dods_bits pd pv vs) \<Longrightarrow>
    dod_read_loop totalBits br pd pv out = out @ vs"
proof (induction vs arbitrary: br pd pv out)
  case Nil
  then show ?case by (simp add: dod_read_loop.simps)
next
  case (Cons v vs)
  let ?d = "v - pv - pd"
  let ?br = "br\<lparr>br_consumed := br_consumed br + length (dod_bits ?d)\<rparr>"
  from Cons.prems(1) have bits: "bits_from br = dod_bits ?d @ (dods_bits (v - pv) v vs @ ys)" by simp
  then have read: "readDoD br = (?d, ?br)"
    using readDoD_dod_bits [of ?d] unfolding bparses_def by blast
  have rest: "bits_from ?br = dods_bits (v - pv) v vs @ ys"
    by (rule bits_from_advance [OF bits])
  have lt: "0 < length (dod_bits ?d)" by (simp only: length_greater_0_conv dod_bits_nonempty not_False_eq_True)
  have "br_consumed br < totalBits"
    using Cons.prems(2) lt by simp
  then have "dod_read_loop totalBits br pd pv out = dod_read_loop totalBits ?br (v - pv) v (out @ [v])"
    by (subst dod_read_loop.simps) (simp add: read)
  also have "\<dots> = (out @ [v]) @ vs"
    by (rule Cons.IH [OF rest]) (use Cons.prems(2) in simp)
  finally show ?case by simp
qed

text \<open>The last-used-bits byte and the number of bytes give back the number of bits.\<close>

definition last_used :: "nat \<Rightarrow> byte" where
  "last_used n = (if n > 0 then (if n mod 8 = 0 then 8 else of_nat (n mod 8)) else 0)"

lemma unat_last_used: "0 < n \<Longrightarrow> unat (last_used n) = (if n mod 8 = 0 then 8 else n mod 8)"
  by (simp add: last_used_def unat_of_nat take_bit_nat_eq_self)

lemma last_used_total: "0 < n \<Longrightarrow> ((n + 7) div 8 - 1) * 8 + unat (last_used n) = n"
proof -
  assume n: "0 < n"
  show ?thesis
  proof (cases "n mod 8 = 0")
    case True
    then have eq: "8 * (n div 8) = n" by presburger
    with n have "0 < n div 8" by (cases "n div 8") simp_all
    with True n eq show ?thesis
      by (simp add: unat_last_used ceil8 diff_mult_distrib)
  next
    case False
    then show ?thesis
      using n div_mult_mod_eq [of n 8] by (simp add: unat_last_used ceil8)
  qed
qed

lemma EncodeDeltaOfDelta_Cons:
  obtains w where "bw_ok w (dods_bits 0 v0 vs)"
    and "EncodeDeltaOfDelta (v0 # vs) =
      [1] @ varint_bytes v0 @ [last_used (length (dods_bits 0 v0 vs))] @ bw_bytes w"
proof
  let ?w = "dod_write_loop \<lparr>bw_bytes = [], bw_nbits = 0\<rparr> 0 v0 vs"
  show ok: "bw_ok ?w (dods_bits 0 v0 vs)"
    using dod_write_loop_ok [OF bw_ok_empty, of 0 v0 vs] by simp
  then have "bw_nbits ?w = length (dods_bits 0 v0 vs)" by (simp add: bw_ok_def)
  then show "EncodeDeltaOfDelta (v0 # vs) =
      [1] @ varint_bytes v0 @ [last_used (length (dods_bits 0 v0 vs))] @ bw_bytes ?w"
    by (simp add: EncodeDeltaOfDelta_def Let_def last_used_def AppendVarint_eq [of "[1]"])
qed

lemma ceil8_pos: "0 < n \<Longrightarrow> 0 < (n + 7) div (8 :: nat)"
  by (simp add: div_greater_zero_iff)

lemma DeltaOfDelta_reads_back: "DeltaOfDelta (EncodeDeltaOfDelta vals) = Inr vals"
proof (cases vals)
  case Nil
  then show ?thesis
    by (simp add: EncodeDeltaOfDelta_def DeltaOfDelta_def reader_Byte_def NewReader_def)
next
  case (Cons v0 vs)
  let ?bits = "dods_bits 0 v0 vs"
  obtain w where w: "bw_ok w ?bits" and enc: "EncodeDeltaOfDelta vals =
      [1] @ varint_bytes v0 @ [last_used (length ?bits)] @ bw_bytes w"
    using EncodeDeltaOfDelta_Cons [of v0 vs] Cons by metis
  define r0 where "r0 = NewReader (EncodeDeltaOfDelta vals)"
  have at0: "reader_at r0 ([1] @ varint_bytes v0 @ [last_used (length ?bits)] @ bw_bytes w)"
    by (simp only: r0_def enc reader_at_NewReader)
  note at1 = reader_at_advance [OF at0 refl]
  note at2 = reader_at_advance [OF at1 refl]
  note at3 = reader_at_advance [OF at2 refl]
  have rest: "reader_Rest (advance 1 (advance (length (varint_bytes v0)) (advance 1 r0))) = bw_bytes w"
    using at3 by (simp add: reader_at_def)
  define total where
    "total = (if length (bw_bytes w) > 0
      then (length (bw_bytes w) - 1) * 8 + unat (last_used (length ?bits)) else 0)"
  have len: "length (bw_bytes w) = (length ?bits + 7) div 8"
    and bits: "bits_of (bw_bytes w) = ?bits @ replicate (8 * length (bw_bytes w) - length ?bits) False"
    using w by (simp_all only: bw_ok_def)
  have total: "total = length ?bits"
  proof (cases "?bits = []")
    case True
    then show ?thesis by (simp add: total_def len)
  next
    case False
    then have "0 < length ?bits" by simp
    then show ?thesis
      using last_used_total [of "length ?bits"] ceil8_pos [of "length ?bits"] by (simp add: total_def len)
  qed
  have "dod_read_loop total \<lparr>br_b = bw_bytes w, br_consumed = 0\<rparr> 0 v0 [v0] = [v0] @ vs"
    by (rule dod_read_loop_bits) (simp_all add: bits_from_def bits total)
  then show ?thesis
    unfolding DeltaOfDelta_def r0_def [symmetric]
    using parsesD [OF reader_Byte_parses at0] parsesD [OF reader_Varint_parses at1]
      parsesD [OF reader_Byte_parses at2] rest
    by (simp add: total_def [symmetric] Cons del: advance_advance) (simp add: Let_def total_def)
qed

lemma DeltaOfDeltaN_tail:
  assumes "bw_ok w (dods_bits 0 v0 vs)" and "vs \<noteq> []"
  shows "parses (\<lambda>r. case dod_read_n (length vs) \<lparr>br_b = reader_Rest r, br_consumed = 0\<rparr> 0 v0 of
      (us, br) \<Rightarrow>
        (let numBytes = (br_consumed br + 7) div 8;
             r' = r\<lparr>rI := rI r + numBytes\<rparr>
         in if numBytes > 0 \<and> int (unat (last_used (length (dods_bits 0 v0 vs)))) \<noteq>
                int (br_consumed br) - (int numBytes - 1) * 8
            then Inl ErrColumnar
            else if rI r' > length (rB r') then Inl ErrColumnar
            else Inr (v0 # us, r'))) (bw_bytes w) (v0 # vs)"
proof (rule parsesI)
  fix r ys
  let ?bits = "dods_bits 0 v0 vs"
  let ?n = "length ?bits"
  assume r: "reader_at r (bw_bytes w @ ys)"
  have len: "length (bw_bytes w) = (?n + 7) div 8"
    and bits: "bits_of (bw_bytes w) = ?bits @ replicate (8 * length (bw_bytes w) - ?n) False"
    using assms(1) by (simp_all only: bw_ok_def)
  have n: "0 < ?n" using dods_bits_nonempty [OF assms(2)] by simp
  have "bits_from \<lparr>br_b = reader_Rest r, br_consumed = 0\<rparr> =
      ?bits @ replicate (8 * length (bw_bytes w) - ?n) False @ bits_of ys"
    using r by (simp add: bits_from_def reader_at_def bits)
  then have read: "dod_read_n (length vs) \<lparr>br_b = reader_Rest r, br_consumed = 0\<rparr> 0 v0 =
      (vs, \<lparr>br_b = reader_Rest r, br_consumed = ?n\<rparr>)"
    using dod_read_n_parses [of vs 0 v0] unfolding bparses_def by fastforce
  have "unat (last_used ?n) + (length (bw_bytes w) - 1) * 8 = ?n"
    using last_used_total [OF n] len by simp
  moreover have "0 < length (bw_bytes w)" using ceil8_pos [OF n] len by simp
  ultimately have lub: "int (unat (last_used ?n)) = int ?n - (int (length (bw_bytes w)) - 1) * 8"
    by (simp add: of_nat_diff flip: of_nat_eq_iff [where 'a = int])
  have fits: "\<not> rI r + length (bw_bytes w) > length (rB r)"
    using reader_at_advance [OF r refl] by (simp add: reader_at_def reader_ok_def)
  show "(case dod_read_n (length vs) \<lparr>br_b = reader_Rest r, br_consumed = 0\<rparr> 0 v0 of
      (us, br) \<Rightarrow>
        (let numBytes = (br_consumed br + 7) div 8;
             r' = r\<lparr>rI := rI r + numBytes\<rparr>
         in if numBytes > 0 \<and> int (unat (last_used ?n)) \<noteq> int (br_consumed br) - (int numBytes - 1) * 8
            then Inl ErrColumnar
            else if rI r' > length (rB r') then Inl ErrColumnar
            else Inr (v0 # us, r'))) = Inr (v0 # vs, advance (length (bw_bytes w)) r)"
    using lub fits by (simp add: read Let_def advance_def flip: len)
qed

lemma DeltaOfDeltaN_parses [parses_intros]:
  assumes "count = int (length vals)" and "length vals \<le> maxColRows"
  shows "parses (\<lambda>r. DeltaOfDeltaN r count) (EncodeDeltaOfDelta vals) vals"
proof (cases vals)
  case Nil
  have "parses (\<lambda>r. bindR (reader_Byte r) (\<lambda>(tag, r).
      if tag \<noteq> 0 then Inl ErrColumnar else bindR (reader_Byte r) (\<lambda>(_, r). Inr ([], r))))
      ([0] @ [0]) ([] :: i64 list)"
    by (intro parses_bindR [OF reader_Byte_parses])
      (simp add: parses_bindR_last [OF reader_Byte_parses])
  then show ?thesis
    using assms by (simp add: Nil DeltaOfDeltaN_def EncodeDeltaOfDelta_def)
next
  case (Cons v0 vs)
  obtain w where w: "bw_ok w (dods_bits 0 v0 vs)" and enc: "EncodeDeltaOfDelta vals =
      [1] @ varint_bytes v0 @ [last_used (length (dods_bits 0 v0 vs))] @ bw_bytes w"
    using EncodeDeltaOfDelta_Cons [of v0 vs] Cons by metis
  have count: "\<not> (count < 0 \<or> count > int maxColRows)" "count \<noteq> 0"
    using assms Cons by simp_all
  show ?thesis
  proof (cases "vs = []")
    case True
    with w have "bw_bytes w = []" by (simp add: bw_ok_def)
    with True count assms Cons show ?thesis
      unfolding DeltaOfDeltaN_def enc
      by (simp only: if_False if_True simp_thms)
        (rule parses_bindR [OF reader_Byte_parses],
          simp add: True parses_bindR [OF reader_Varint_parses]
            parses_bindR_last [OF reader_Byte_parses])
  next
    case False
    have tail: "nat count - 1 = length vs" "count \<noteq> 1" using assms Cons False by simp_all
    show ?thesis
      unfolding DeltaOfDeltaN_def enc unfolding Cons
      using count tail DeltaOfDeltaN_tail [OF w False]
      by (simp only: if_False simp_thms)
        (rule parses_bindR [OF reader_Byte_parses], simp only: case_prod_conv simp_thms if_False,
          rule parses_bindR [OF reader_Varint_parses], simp only: case_prod_conv,
          rule parses_bindR [OF reader_Byte_parses], simp only: case_prod_conv)
  qed
qed

section \<open>Properties\<close>

text \<open>C28: Delta-of-delta columns read back for every list of 64-bit values, wrap-around of the
  deltas included; the count-limited reader of concatenated columns stops at the column's last byte.\<close>

theorem dod_round_trip:
  assumes "length vals \<le> maxColRows"
  shows "DeltaOfDelta (EncodeDeltaOfDelta vals) = Inr vals \<and>
    DeltaOfDeltaN (NewReader (EncodeDeltaOfDelta vals @ ys)) (int (length vals)) =
      Inr (vals, \<lparr>rB = EncodeDeltaOfDelta vals @ ys, rI = length (EncodeDeltaOfDelta vals)\<rparr>)"
  using DeltaOfDelta_reads_back [of vals]
    parsesD [OF DeltaOfDeltaN_parses [OF refl assms] reader_at_NewReader]
  by (simp add: NewReader_def advance_def)

theorem dod_round_trip_witness:
  "DeltaOfDelta (EncodeDeltaOfDelta [0x8000000000000000, 5, 5, 5000000]) =
    Inr [0x8000000000000000, 5, 5, 5000000]"
  using dod_round_trip [of "[0x8000000000000000, 5, 5, 5000000]"] by (simp add: maxColRows_def)

end
