(* ===== verification/ChangeArena.thy ===== *)
theory ChangeArena
  imports ChangeBlock ColumnarDoD
begin

text \<open>
  Package \<open>encoding/change\<close>, the arenas of a block: containers, keys, delete-start ids, the
  four op columns (\<open>decode.go\<close>, \<open>encode.go\<close>) and the fractional-index positions
  (\<open>positions.go\<close>), with their encoders.
\<close>

section \<open>Containers\<close>

type_synonym ContainerType = byte

definition CMap :: ContainerType where "CMap = 0"
definition CList :: ContainerType where "CList = 1"
definition CText :: ContainerType where "CText = 2"
definition CTree :: ContainerType where "CTree = 3"
definition CMovableList :: ContainerType where "CMovableList = 4"
definition CCounter :: ContainerType where "CCounter = 5"

lemmas ckind_defs = CMap_def CList_def CText_def CTree_def CMovableList_def CCounter_def

record Container =
  c_IsRoot :: bool
  c_Kind :: ContainerType
  c_PeerIdx :: u64
  c_KeyOrCounter :: i64

text \<open>The turn of the loop of \<open>DecodeContainers\<close>; the field count is read and not looked at.\<close>

definition read_container :: "reader \<Rightarrow> (Container \<times> reader) res" where
  "read_container r =
     bindR (reader_Uvarint r) (\<lambda>(_, r).
     bindR (reader_Byte r) (\<lambda>(isRoot, r).
       if isRoot > 1 then Inl ErrBlock
       else bindR (reader_Byte r) (\<lambda>(kind, r).
         bindR (reader_Uvarint r) (\<lambda>(peerIdx, r).
         bindR (reader_Varint r) (\<lambda>(koc, r).
           Inr (\<lparr>c_IsRoot = (isRoot \<noteq> 0), c_Kind = kind, c_PeerIdx = peerIdx,
                 c_KeyOrCounter = koc\<rparr>, r))))))"

definition DecodeContainers_from :: "reader \<Rightarrow> (Container list \<times> reader) res" where
  "DecodeContainers_from r =
     bindR (reader_Uvarint r) (\<lambda>(n, r).
       if unat n > reader_Remaining r then Inl ErrBlock else read_n (unat n) read_container r)"

definition DecodeContainers :: "bytes \<Rightarrow> Container list res" where
  "DecodeContainers cids =
     (if reader_Empty (NewReader cids) then Inr []
      else bindR (DecodeContainers_from (NewReader cids)) (\<lambda>(cs, r). Inr cs))"

definition put_container :: "bytes \<Rightarrow> Container \<Rightarrow> bytes" where
  "put_container out c =
     AppendVarint
       (AppendUvarint (AppendUvarint out 4 @ [if c_IsRoot c then 1 else 0, c_Kind c]) (c_PeerIdx c))
       (c_KeyOrCounter c)"

definition EncodeContainers :: "Container list \<Rightarrow> bytes" where
  "EncodeContainers cs = foldl put_container (AppendUvarint [] (of_nat (length cs))) cs"

lemma read_container_safe [safe_intros]: "reader_ok r \<Longrightarrow> safe_from r (read_container r)"
  unfolding read_container_def by (auto intro!: safe_intros)

lemma put_container_eq:
  "put_container out c = out @ uvarint_bytes 4 @
     [if c_IsRoot c then 1 else 0] @ [c_Kind c] @ uvarint_bytes (c_PeerIdx c) @ varint_bytes (c_KeyOrCounter c)"
  unfolding put_container_def
  by (subst AppendVarint_eq, subst AppendUvarint_eq, subst AppendUvarint_eq [of out]) simp

lemma read_container_parses: "parses read_container (put_container [] c) c"
proof -
  define b :: byte where "b = (if c_IsRoot c then 1 else 0)"
  have b: "\<not> b > 1" "(b \<noteq> 0) = c_IsRoot c" by (simp_all add: b_def)
  have "parses read_container (uvarint_bytes 4 @ [b] @ [c_Kind c] @
      uvarint_bytes (c_PeerIdx c) @ varint_bytes (c_KeyOrCounter c)) c"
    unfolding read_container_def
    by (rule parses_bindR [OF reader_Uvarint_parses], simp only: case_prod_conv,
        rule parses_bindR [OF reader_Byte_parses], simp only: case_prod_conv b if_False,
        rule parses_bindR [OF reader_Byte_parses], simp only: case_prod_conv,
        rule parses_bindR [OF reader_Uvarint_parses], simp only: case_prod_conv,
        rule parses_bindR_last [OF reader_Varint_parses], simp)
  then show ?thesis by (simp only: put_container_eq append_Nil b_def)
qed

interpretation containerC: codec read_container put_container "\<lambda>_. True"
proof
  show "put_container dst c = dst @ put_container [] c" for dst c
    by (simp add: put_container_eq [of dst] put_container_eq [of "[]"])
  show "put_container [] c \<noteq> []" for c by (simp add: put_container_eq)
qed (rule read_container_parses)

interpretation containerR: cursor read_container
  by unfold_locales (rule read_container_safe)

lemma DecodeContainers_error: "DecodeContainers cids = Inl e \<Longrightarrow> go_error e"
proof -
  have "safe_from (NewReader cids) (DecodeContainers_from (NewReader cids))"
    unfolding DecodeContainers_from_def by (auto intro!: safe_intros containerR.read_n_safe)
  moreover assume "DecodeContainers cids = Inl e"
  ultimately show ?thesis
    by (auto simp: DecodeContainers_def bindR_Inl_iff split: if_splits dest: safe_from_InlD)
qed

lemma EncodeContainers_eq:
  "EncodeContainers cs = uvarint_bytes (of_nat (length cs)) @ concat (map (put_container []) cs)"
  by (simp add: EncodeContainers_def containerC.foldl_wr)

lemma DecodeContainers_reads_back:
  assumes "go_len cs"
  shows "DecodeContainers (EncodeContainers cs) = Inr cs"
proof -
  have "parses DecodeContainers_from (EncodeContainers cs) cs"
    unfolding DecodeContainers_from_def EncodeContainers_eq
  proof (rule parses_bindR [OF reader_Uvarint_parses], simp, rule parses_guard)
    fix r ys
    assume "reader_at r (concat (map (put_container []) cs) @ ys)"
    then show "\<not> reader_Remaining r < unat (of_nat (length cs) :: u64)"
      using containerC.length_writes [of cs]
      by (simp add: reader_at_Remaining go_len_unat [OF assms])
  next
    show "parses (read_n (unat (of_nat (length cs) :: u64)) read_container)
        (concat (map (put_container []) cs)) cs"
      using containerC.read_n_parses [of cs] by (simp add: go_len_unat [OF assms] list_all_iff)
  qed
  from parsesD_all [OF this reader_at_NewReader]
  show ?thesis by (simp add: DecodeContainers_def NewReader_def reader_Empty_def EncodeContainers_eq)
qed

section \<open>Keys\<close>

definition DecodeKeys :: "bytes \<Rightarrow> gostring list res" where
  "DecodeKeys keys = read_stream reader_String keys"

definition put_key :: "bytes \<Rightarrow> gostring \<Rightarrow> bytes" where
  "put_key out k = AppendUvarint out (of_nat (length k)) @ k"

definition EncodeKeys :: "gostring list \<Rightarrow> bytes" where
  "EncodeKeys keys = foldl put_key [] keys"

interpretation stringS: stream reader_String put_key go_len
  by unfold_locales
    (auto simp: put_key_def AppendUvarint_eq [of "_ # _"] intro: AppendUvarint_eq safe_intros
      intro!: reader_String_parses)

lemma DecodeKeys_error: "DecodeKeys keys = Inl e \<Longrightarrow> go_error e"
  unfolding DecodeKeys_def by (rule stringS.read_stream_error)

lemma DecodeKeys_reads_back: "list_all go_len keys \<Longrightarrow> DecodeKeys (EncodeKeys keys) = Inr keys"
  unfolding DecodeKeys_def EncodeKeys_def stringS.foldl_wr
  by (simp add: stringS.read_stream_reads)

section \<open>Delete-start ids\<close>

record DeleteID =
  d_PeerIdx :: i64
  d_Counter :: i64
  d_Len :: i64

definition DecodeDeleteIDs :: "bytes \<Rightarrow> DeleteID list res" where
  "DecodeDeleteIDs blob =
     (if length blob = 0 then Inr []
      else bindR (Columns blob) (\<lambda>cols.
        if length cols \<noteq> 3 then Inl ErrBlock
        else bindR (DeltaRleI64 (cols ! 0)) (\<lambda>peerIdx.
          bindR (DeltaRleI64 (cols ! 1)) (\<lambda>counter.
          bindR (DeltaRleI64 (cols ! 2)) (\<lambda>lens.
            if length counter \<noteq> length peerIdx \<or> length lens \<noteq> length peerIdx then Inl ErrBlock
            else Inr (map (\<lambda>i. \<lparr>d_PeerIdx = peerIdx ! i, d_Counter = counter ! i, d_Len = lens ! i\<rparr>)
              [0..<length peerIdx]))))))"

definition EncodeDeleteIDs :: "DeleteID list \<Rightarrow> bytes" where
  "EncodeDeleteIDs ids =
     (if length ids = 0 then []
      else EncodeColumns
        [EncodeDeltaRleI64 (map d_PeerIdx ids), EncodeDeltaRleI64 (map d_Counter ids),
         EncodeDeltaRleI64 (map d_Len ids)])"

lemma EncodeColumns_nonempty: "EncodeColumns cols \<noteq> []"
  by (simp add: EncodeColumns_eq)

lemma DecodeDeleteIDs_error: "DecodeDeleteIDs blob = Inl e \<Longrightarrow> go_error e"
  by (auto simp: DecodeDeleteIDs_def bindR_Inl_iff split: if_splits
      dest: Columns_error DeltaRle_error)

lemma DecodeDeleteIDs_reads_back:
  assumes "length ids \<le> maxColRows"
  shows "DecodeDeleteIDs (EncodeDeleteIDs ids) = Inr ids"
proof (cases "ids = []")
  case False
  let ?cols = "[EncodeDeltaRleI64 (map d_PeerIdx ids), EncodeDeltaRleI64 (map d_Counter ids),
    EncodeDeltaRleI64 (map d_Len ids)]"
  have "list_all go_len ?cols"
    using assms by (simp add: DeltaRle_column_go_len)
  moreover have "go_len ?cols" by (simp add: go_len_def)
  ultimately have cols: "Columns (EncodeColumns ?cols) = Inr ?cols"
    by (intro Columns_reads_back)
  have rows: "map (\<lambda>i. \<lparr>d_PeerIdx = map d_PeerIdx ids ! i, d_Counter = map d_Counter ids ! i,
      d_Len = map d_Len ids ! i\<rparr>) [0..<length ids] = ids"
    by (rule nth_equalityI) simp_all
  have "map (\<lambda>i. \<lparr>d_PeerIdx = map d_PeerIdx ids ! i, d_Counter = map d_Counter ids ! i,
      d_Len = map d_Len ids ! i\<rparr>) [0..<length (map d_PeerIdx ids)] = ids"
    using rows by simp
  moreover have "\<not> length (EncodeColumns ?cols) = 0" "\<not> length ?cols \<noteq> 3"
    by (simp_all add: EncodeColumns_nonempty)
  ultimately show ?thesis
    using assms False
    by (simp only: DecodeDeleteIDs_def EncodeDeleteIDs_def length_0_conv if_False cols bindR_simps
        nth_Cons_0 nth_Cons_numeral nth_Cons' length_map) (simp add: DeltaRle_reads_back)
qed (simp add: DecodeDeleteIDs_def EncodeDeleteIDs_def)

section \<open>Op columns\<close>

text \<open>The conversions between \<open>[]uint8\<close> and \<open>[]ValueKind\<close>, \<open>[]uint64\<close> and \<open>[]int64\<close> keep the bits.\<close>

type_synonym ValueKind = byte

record Ops =
  o_ContainerIdx :: "i64 list"
  o_Prop :: "i64 list"
  o_ValueKind :: "ValueKind list"
  o_Len :: "i64 list"

definition Ops_N :: "Ops \<Rightarrow> nat" where
  "Ops_N os = length (o_ContainerIdx os)"

definition DecodeOps :: "bytes \<Rightarrow> Ops res" where
  "DecodeOps ops =
     bindR (Columns ops) (\<lambda>cols.
       if length cols \<noteq> 4 then Inl ErrBlock
       else bindR (DeltaRleI64 (cols ! 0)) (\<lambda>ci.
         bindR (DeltaRleI64 (cols ! 1)) (\<lambda>pr.
         bindR (AnyRleU8 (cols ! 2)) (\<lambda>vk.
         bindR (AnyRleU64 (cols ! 3)) (\<lambda>ln.
           if length pr \<noteq> length ci \<or> length vk \<noteq> length ci \<or> length ln \<noteq> length ci
           then Inl ErrBlock
           else Inr \<lparr>o_ContainerIdx = ci, o_Prop = pr, o_ValueKind = vk, o_Len = ln\<rparr>)))))"

definition EncodeOps :: "Ops \<Rightarrow> bytes" where
  "EncodeOps os =
     EncodeColumns
       [EncodeDeltaRleI64 (o_ContainerIdx os), EncodeDeltaRleI64 (o_Prop os),
        EncodeAnyRleU8 (o_ValueKind os), EncodeAnyRleU64 (o_Len os)]"

text \<open>Four columns of one length, which \<open>DecodeOps\<close> promises and later indexing needs.\<close>

definition ops_ok :: "Ops \<Rightarrow> bool" where
  "ops_ok os \<longleftrightarrow> length (o_Prop os) = Ops_N os \<and> length (o_ValueKind os) = Ops_N os \<and>
     length (o_Len os) = Ops_N os"

lemma DecodeOps_error: "DecodeOps ops = Inl e \<Longrightarrow> go_error e"
  unfolding DecodeOps_def AnyRleU8_def AnyRleU64_def
  by (auto simp: bindR_Inl_iff split: if_splits
      dest: Columns_error DeltaRle_error byteR.anyRle_error uvarintR.anyRle_error)

lemma DecodeOps_ok: "DecodeOps ops = Inr os \<Longrightarrow> ops_ok os"
  by (auto simp: DecodeOps_def bindR_Inr_iff ops_ok_def Ops_N_def split: if_splits)

lemma DecodeOps_reads_back:
  assumes "ops_ok os" and "Ops_N os \<le> maxColRows"
  shows "DecodeOps (EncodeOps os) = Inr os"
proof -
  let ?cols = "[EncodeDeltaRleI64 (o_ContainerIdx os), EncodeDeltaRleI64 (o_Prop os),
    EncodeAnyRleU8 (o_ValueKind os), EncodeAnyRleU64 (o_Len os)]"
  have len: "length (o_ContainerIdx os) \<le> maxColRows" "length (o_Prop os) \<le> maxColRows"
    "length (o_ValueKind os) \<le> maxColRows" "length (o_Len os) \<le> maxColRows"
    using assms by (simp_all add: ops_ok_def Ops_N_def)
  have "list_all go_len ?cols"
    using len by (simp add: DeltaRle_column_go_len AnyRleU8_column_go_len AnyRleU64_column_go_len)
  moreover have "go_len ?cols" by (simp add: go_len_def)
  ultimately have "Columns (EncodeColumns ?cols) = Inr ?cols"
    by (intro Columns_reads_back)
  then show ?thesis
    using assms len
    by (simp add: DecodeOps_def EncodeOps_def DeltaRle_reads_back AnyRleU8_reads_back
        AnyRleU64_reads_back ops_ok_def Ops_N_def)
qed

section \<open>Positions\<close>

text \<open>
  The turn of the loop of \<open>DecodePositions\<close>. The prefix length is the \<open>uint64\<close> of the column
  converted to \<open>int\<close>, so it may be negative; the code checks only that it is not above the
  length of the previous position, and the slice \<open>prev[:prefix]\<close> then panics.
\<close>

definition read_position :: "u64 list \<Rightarrow> nat \<Rightarrow> bytes \<Rightarrow> reader \<Rightarrow> (bytes \<times> reader) res" where
  "read_position prefixes i prev cr =
     bindR (reader_Uvarint cr) (\<lambda>(restLen, cr).
     bindR (reader_Bytes (sint restLen) cr) (\<lambda>(rest, cr).
       let prefix = (if i < length prefixes then sint (prefixes ! i) else 0) in
       if prefix > int (length prev) then Inl ErrBlock
       else if prefix < 0 then Inl GoPanic
       else Inr (take (nat prefix) prev @ rest, cr)))"

fun read_positions :: "u64 list \<Rightarrow> nat \<Rightarrow> nat \<Rightarrow> bytes \<Rightarrow> reader \<Rightarrow> (bytes list \<times> reader) res" where
  "read_positions prefixes 0 i prev cr = Inr ([], cr)"
| "read_positions prefixes (Suc n) i prev cr =
     bindR (read_position prefixes i prev cr) (\<lambda>(pos, cr).
     bindR (read_positions prefixes n (i + 1) pos cr) (\<lambda>(ps, cr). Inr (pos # ps, cr)))"

definition positions_columns :: "reader \<Rightarrow> ((bytes \<times> bytes) \<times> reader) res" where
  "positions_columns r =
     bindR (reader_Uvarint r) (\<lambda>(fc, r).
     bindR (reader_Uvarint r) (\<lambda>(cc, r).
       if fc \<noteq> 1 \<or> cc \<noteq> 2 then Inl ErrBlock
       else bindR (readLenPrefixed r) (\<lambda>(col0, r).
         bindR (readLenPrefixed r) (\<lambda>(col1, r). Inr ((col0, col1), r)))))"

definition positions_entries :: "u64 list \<Rightarrow> reader \<Rightarrow> (bytes list \<times> reader) res" where
  "positions_entries prefixes cr =
     bindR (reader_Uvarint cr) (\<lambda>(n, cr).
       if unat n > reader_Remaining cr then Inl ErrBlock
       else read_positions prefixes (unat n) 0 [] cr)"

definition DecodePositions :: "bytes \<Rightarrow> bytes list res" where
  "DecodePositions blob =
     (if length blob = 0 then Inr []
      else bindR (positions_columns (NewReader blob)) (\<lambda>((col0, col1), r).
        bindR (AnyRleU64 col0) (\<lambda>prefixes.
        bindR (positions_entries prefixes (NewReader col1)) (\<lambda>(ps, cr). Inr ps))))"

fun commonPrefixLen :: "bytes \<Rightarrow> bytes \<Rightarrow> nat" where
  "commonPrefixLen (a # as) (b # bs) = (if a \<noteq> b then 0 else Suc (commonPrefixLen as bs))"
| "commonPrefixLen as bs = 0"

text \<open>The loop of \<open>EncodePositions\<close>, with the prefix lengths and the tails it writes.\<close>

fun put_positions :: "bytes \<Rightarrow> bytes list \<Rightarrow> u64 list \<times> bytes \<Rightarrow> u64 list \<times> bytes" where
  "put_positions prev [] acc = acc"
| "put_positions prev (p # ps) (prefixes, col1) =
     (let n = commonPrefixLen prev p; rest = drop n p in
      put_positions p ps
        (prefixes @ [of_nat n], AppendUvarint col1 (of_nat (length rest)) @ rest))"

definition EncodePositions :: "bytes list \<Rightarrow> bytes" where
  "EncodePositions positions =
     (if length positions = 0 then []
      else (case put_positions [] positions ([], AppendUvarint [] (of_nat (length positions))) of
        (prefixes, col1) \<Rightarrow>
          appendLenPrefixed
            (appendLenPrefixed (AppendUvarint (AppendUvarint [] 1) 2) (EncodeAnyRleU64 prefixes)) col1))"

subsection \<open>Round trip\<close>

lemma commonPrefixLen_take: "take (commonPrefixLen as bs) as = take (commonPrefixLen as bs) bs"
  by (induction as bs rule: commonPrefixLen.induct) auto

lemma commonPrefixLen_le: "commonPrefixLen as bs \<le> length as" "commonPrefixLen as bs \<le> length bs"
  by (induction as bs rule: commonPrefixLen.induct) auto

text \<open>What the loop writes, as lists.\<close>

fun prefix_lens :: "bytes \<Rightarrow> bytes list \<Rightarrow> u64 list" where
  "prefix_lens prev [] = []"
| "prefix_lens prev (p # ps) = of_nat (commonPrefixLen prev p) # prefix_lens p ps"

fun put_rests :: "bytes \<Rightarrow> bytes list \<Rightarrow> bytes" where
  "put_rests prev [] = []"
| "put_rests prev (p # ps) =
     (let rest = drop (commonPrefixLen prev p) p in
      uvarint_bytes (of_nat (length rest)) @ rest @ put_rests p ps)"

lemma put_positions_eq:
  "put_positions prev ps (prefixes, col1) = (prefixes @ prefix_lens prev ps, col1 @ put_rests prev ps)"
proof (induction ps arbitrary: prev prefixes col1)
  case (Cons p ps)
  then show ?case by (simp add: Let_def AppendUvarint_eq [of col1])
qed simp

lemma length_prefix_lens [simp]: "length (prefix_lens prev ps) = length ps"
  by (induction ps arbitrary: prev) simp_all

lemma read_position_parses:
  assumes i: "i < length prefixes" "prefixes ! i = of_nat (commonPrefixLen prev p)"
    and len: "go_len prev" "go_len p"
  shows "parses (read_position prefixes i prev)
    (uvarint_bytes (of_nat (length (drop (commonPrefixLen prev p) p))) @ drop (commonPrefixLen prev p) p) p"
proof -
  let ?n = "commonPrefixLen prev p"
  have n: "?n \<le> length prev" "?n \<le> length p" by (rule commonPrefixLen_le)+
  then have s: "sint (of_nat ?n :: i64) = int ?n"
    using len by (intro sint_of_nat_small) (simp add: go_len_def)
  have "go_len (drop ?n p)" using len(2) by (simp add: go_len_def)
  then have l: "sint (of_nat (length (drop ?n p)) :: i64) = int (length (drop ?n p))"
    by (rule go_len_sint)
  have p: "take ?n prev @ drop ?n p = p"
    by (simp add: commonPrefixLen_take)
  show ?thesis
    unfolding read_position_def
  proof (rule parses_bindR [OF reader_Uvarint_parses], simp only: case_prod_conv l,
      rule parses_bindR_last [OF reader_Bytes_parses [OF refl]])
    fix r
    show "(case (drop ?n p, r) of (rest, cr) \<Rightarrow>
        let prefix = if i < length prefixes then sint (prefixes ! i) else 0
        in if int (length prev) < prefix then Inl ErrBlock
           else if prefix < 0 then Inl GoPanic else Inr (take (nat prefix) prev @ rest, cr)) = Inr (p, r)"
      using n i p by (simp add: s)
  qed
qed

lemma read_positions_parses:
  assumes "\<forall>j < length ps. prefixes ! (i + j) = prefix_lens prev ps ! j"
    and "i + length ps \<le> length prefixes" and "go_len prev" and "list_all go_len ps"
  shows "parses (read_positions prefixes (length ps) i prev) (put_rests prev ps) ps"
  using assms
proof (induction ps arbitrary: i prev)
  case Nil
  then show ?case by (simp add: parses_return)
next
  case (Cons p ps)
  have "prefixes ! i = of_nat (commonPrefixLen prev p)"
    using Cons.prems(1) by (metis add.right_neutral length_greater_0_conv list.distinct(1) nth_Cons_0 prefix_lens.simps(2))
  then have p: "parses (read_position prefixes i prev)
      (uvarint_bytes (of_nat (length (drop (commonPrefixLen prev p) p))) @ drop (commonPrefixLen prev p) p) p"
    using Cons.prems by (intro read_position_parses) simp_all
  have "\<forall>j < length ps. prefixes ! (i + 1 + j) = prefix_lens p ps ! j"
  proof (intro allI impI)
    fix j assume "j < length ps"
    then show "prefixes ! (i + 1 + j) = prefix_lens p ps ! j"
      using spec [OF Cons.prems(1), of "Suc j"] by simp
  qed
  then have "parses (read_positions prefixes (length ps) (i + 1) p) (put_rests p ps) ps"
    using Cons.prems by (intro Cons.IH) simp_all
  from parses_bindR_last [OF this, of "\<lambda>(ps, cr). Inr (p # ps, cr)" "p # ps"]
  have rest: "parses (\<lambda>cr. bindR (read_positions prefixes (length ps) (i + 1) p cr)
      (\<lambda>(ps, cr). Inr (p # ps, cr))) (put_rests p ps) (p # ps)" by simp
  have "parses (read_positions prefixes (length (p # ps)) i prev)
      ((uvarint_bytes (of_nat (length (drop (commonPrefixLen prev p) p))) @ drop (commonPrefixLen prev p) p) @
        put_rests p ps) (p # ps)"
    unfolding list.size add_Suc_right add_0_right read_positions.simps
    by (rule parses_bindR [OF p]) (use rest in simp)
  then show ?case by (simp add: Let_def del: read_positions.simps)
qed

lemma EncodePositions_eq:
  "ps \<noteq> [] \<Longrightarrow> EncodePositions ps =
    uvarint_bytes 1 @ uvarint_bytes 2 @ appendLenPrefixed [] (EncodeAnyRleU64 (prefix_lens [] ps)) @
    appendLenPrefixed [] (uvarint_bytes (of_nat (length ps)) @ put_rests [] ps)"
  by (simp add: EncodePositions_def put_positions_eq blobS.wr_append [of "uvarint_bytes 1 @ _"]
      blobS.wr_append [of "_ @ _"] AppendUvarint_eq [of "uvarint_bytes 1"])

lemma put_rests_length: "length ps \<le> length (put_rests prev ps)"
proof (induction ps arbitrary: prev)
  case (Cons p ps)
  have "0 < length (uvarint_bytes (of_nat (length (drop (commonPrefixLen prev p) p))))"
    using length_uvarint_bytes by blast
  with Cons [of p] show ?case
    unfolding put_rests.simps Let_def length_append list.size by linarith
qed simp

lemma DecodePositions_reads_back:
  assumes "length ps \<le> maxColRows" and "list_all go_len ps" and "go_len (EncodePositions ps)"
  shows "DecodePositions (EncodePositions ps) = Inr ps"
proof (cases "ps = []")
  case False
  let ?col0 = "EncodeAnyRleU64 (prefix_lens [] ps)"
  let ?col1 = "uvarint_bytes (of_nat (length ps)) @ put_rests [] ps"
  note enc = EncodePositions_eq [OF False]
  have go: "go_len ?col0" "go_len ?col1"
    using assms(1,3) unfolding enc
    by (simp_all add: AnyRleU64_column_go_len go_len_def appendLenPrefixed_def)
  have "parses positions_columns (EncodePositions ps) (?col0, ?col1)"
    unfolding positions_columns_def enc
    by (rule parses_bindR [OF reader_Uvarint_parses], simp only: case_prod_conv,
        rule parses_bindR [OF reader_Uvarint_parses],
        simp only: case_prod_conv simp_thms if_False,
        rule parses_bindR [OF readLenPrefixed_parses [OF go(1)]], simp only: case_prod_conv,
        rule parses_bindR_last [OF readLenPrefixed_parses [OF go(2)]], simp)
  from parsesD_all [OF this reader_at_NewReader]
  obtain r where cols: "positions_columns (NewReader (EncodePositions ps)) = Inr ((?col0, ?col1), r)"
    by blast
  have ps: "go_len ps" using assms(1) by (simp add: go_len_def maxColRows_def)
  have "parses (positions_entries (prefix_lens [] ps)) ?col1 ps"
    unfolding positions_entries_def
  proof (rule parses_bindR [OF reader_Uvarint_parses], simp only: case_prod_conv, rule parses_guard)
    fix r ys
    assume "reader_at r (put_rests [] ps @ ys)"
    then show "\<not> unat (of_nat (length ps) :: u64) > reader_Remaining r"
      using put_rests_length [of ps "[]"] by (simp add: reader_at_Remaining go_len_unat [OF ps])
  next
    show "parses (read_positions (prefix_lens [] ps) (unat (of_nat (length ps) :: u64)) 0 [])
        (put_rests [] ps) ps"
      unfolding go_len_unat [OF ps]
      using assms(2) by (intro read_positions_parses) (simp_all add: go_len_def)
  qed
  from parsesD_all [OF this reader_at_NewReader]
  have "\<exists>r. positions_entries (prefix_lens [] ps) (NewReader ?col1) = Inr (ps, r)" by blast
  moreover have "AnyRleU64 ?col0 = Inr (prefix_lens [] ps)"
    using assms(1) by (simp add: AnyRleU64_reads_back)
  moreover have "length (EncodePositions ps) \<noteq> 0" unfolding enc by simp
  ultimately show ?thesis
    by (auto simp: DecodePositions_def cols)
qed (simp add: DecodePositions_def EncodePositions_def)

subsection \<open>What can go wrong\<close>

text \<open>The only panic is the one of a prefix length above the largest \<open>int\<close>.\<close>

lemma read_position_outcome:
  assumes ok: "reader_ok cr"
  shows "case read_position prefixes i prev cr of
      Inl e \<Rightarrow> go_error e \<or> e = GoPanic \<and> (\<exists>p\<in>set prefixes. sint p < 0)
    | Inr (p, cr') \<Rightarrow> reader_ok cr'"
proof (cases "reader_Uvarint cr")
  case (Inl e)
  then show ?thesis
    using safe_from_InlD [OF reader_Uvarint_safe [OF ok]] by (simp add: read_position_def)
next
  case (Inr x)
  obtain n cr1 where x: "x = (n, cr1)" by (cases x)
  have ok1: "reader_ok cr1"
    using safe_from_InrD [OF reader_Uvarint_safe [OF ok]] Inr x moved_ok by blast
  show ?thesis
  proof (cases "reader_Bytes (sint n) cr1")
    case Inl2: (Inl e)
    then show ?thesis
      using safe_from_InlD [OF reader_Bytes_safe [OF ok1]] by (simp add: read_position_def Inr x)
  next
    case Inr2: (Inr y)
    obtain rest cr2 where y: "y = (rest, cr2)" by (cases y)
    have "reader_ok cr2"
      using safe_from_InrD [OF reader_Bytes_safe [OF ok1]] Inr2 y moved_ok by blast
    then show ?thesis
      by (auto simp: read_position_def Inr x Inr2 y Let_def)
  qed
qed

lemma read_positions_error:
  "reader_ok cr \<Longrightarrow> read_positions prefixes n i prev cr = Inl e \<Longrightarrow>
    go_error e \<or> e = GoPanic \<and> (\<exists>p\<in>set prefixes. sint p < 0)"
proof (induction n arbitrary: i prev cr)
  case (Suc n)
  from Suc.prems(2) read_position_outcome [OF Suc.prems(1), of prefixes i prev] Suc.IH
  show ?case by (auto simp: bindR_Inl_iff)
qed simp

lemma DecodePositions_error:
  assumes "DecodePositions blob = Inl e"
  shows "go_error e \<or> e = GoPanic"
proof -
  have cols: "go_error e" if "positions_columns (NewReader blob) = Inl e" for blob
  proof -
    have "safe_from (NewReader blob) (positions_columns (NewReader blob))"
      unfolding positions_columns_def by (auto intro!: safe_intros)
    then show ?thesis using that by (rule safe_from_InlD)
  qed
  have entries: "go_error e \<or> e = GoPanic"
    if "positions_entries prefixes (NewReader col1) = Inl e" for prefixes col1
  proof (cases "reader_Uvarint (NewReader col1)")
    case (Inl e')
    then show ?thesis
      using that safe_from_InlD [OF reader_Uvarint_safe [OF reader_ok_NewReader]]
      by (simp add: positions_entries_def)
  next
    case (Inr x)
    obtain n cr where x: "x = (n, cr)" by (cases x)
    have "reader_ok cr"
      using safe_from_InrD [OF reader_Uvarint_safe [OF reader_ok_NewReader]] Inr x moved_ok by blast
    then show ?thesis
      using that read_positions_error [of cr prefixes "unat n" 0 "[]" e]
      by (auto simp: positions_entries_def Inr x split: if_splits)
  qed
  have rle: "go_error e" if "AnyRleU64 col0 = Inl e" for col0
    using that by (auto simp: AnyRleU64_def dest: uvarintR.anyRle_error)
  show ?thesis
    using assms unfolding DecodePositions_def
    by (auto simp: bindR_Inl_iff split: if_splits dest: cols entries rle)
qed

text \<open>A seventeen-byte blob on which the decoder panics: the first prefix length is \<open>2^64 - 1\<close>.\<close>

definition panic_blob :: bytes where
  "panic_blob =
     [1, 2, 11, 1, 0xff, 0xff, 0xff, 0xff, 0xff, 0xff, 0xff, 0xff, 0xff, 1, 2, 1, 0]"

lemma DecodePositions_panics: "DecodePositions panic_blob = Inl GoPanic"
  by code_simp

end
