(* ===== verification/BlockHeader.thy ===== *)
theory BlockHeader
  imports ChangeBlock ColumnarDoD
begin

text \<open>
  Package \<open>encoding/change\<close>, the header blob of a block (peer table, atom lengths,
  dependencies, lamports) and the change_meta blob (timestamps, commit messages), from
  \<open>header.go\<close>. Their columns are concatenated with no length prefixes; each is delimited by
  the number of its rows.
\<close>

section \<open>The header blob\<close>

record ChangeHeader =
  h_Peers :: "u64 list"
  h_AtomLens :: "u64 list"
  h_DepOnSelf :: "bool list"
  h_DepLens :: "u64 list"
  h_DepPeerIdxs :: "u64 list"
  h_DepCounters :: "i64 list"
  h_Lamports :: "i64 list"

definition max0 :: "int \<Rightarrow> int" where
  "max0 x = (if x < 0 then 0 else x)"

definition read_peer :: "reader \<Rightarrow> (u64 \<times> reader) res" where
  "read_peer r = bindR (reader_Bytes 8 r) (\<lambda>(b, r). Inr (le_get b, r))"

text \<open>
  The loop that sums the dependency lengths, against the unread remainder \<open>rem\<close>. No sum
  overflows: both addends are at most \<open>rem\<close>.
\<close>

fun sum_deps :: "nat \<Rightarrow> int \<Rightarrow> u64 list \<Rightarrow> int res" where
  "sum_deps rem acc [] = Inr acc"
| "sum_deps rem acc (d # ds) =
     (if unat d > rem then Inl ErrBlock
      else let acc = acc + sint d in
        if acc < 0 \<or> acc > int rem then Inl ErrBlock else sum_deps rem acc ds)"

text \<open>The first four fields, and the columns after them.\<close>

definition header_front ::
  "int \<Rightarrow> reader \<Rightarrow> ((u64 list \<times> u64 list \<times> bool list \<times> u64 list) \<times> reader) res" where
  "header_front n r =
     bindR (reader_Uvarint r) (\<lambda>(peerNum, r).
       if unat peerNum > reader_Remaining r div 8 then Inl ErrBlock
       else bindR (read_n (unat peerNum) read_peer r) (\<lambda>(peers, r).
         if max0 (n - 1) > int (reader_Remaining r) then Inl ErrBlock
         else bindR (read_n (nat (max0 (n - 1))) reader_Uvarint r) (\<lambda>(atomLens, r).
           bindR (BoolRleN r n) (\<lambda>(depOnSelf, r).
           bindR (AnyRleNU64 r n) (\<lambda>(depLens, r).
             Inr ((peers, atomLens, depOnSelf, depLens), r))))))"

definition header_back ::
  "int \<Rightarrow> int \<Rightarrow> reader \<Rightarrow> ((u64 list \<times> i64 list \<times> i64 list) \<times> reader) res" where
  "header_back n sumDeps r =
     bindR (AnyRleNU64 r sumDeps) (\<lambda>(depPeerIdxs, r).
     bindR (DeltaOfDeltaN r sumDeps) (\<lambda>(depCounters, r).
     bindR (DeltaOfDeltaN r (max0 (n - 1))) (\<lambda>(lamports, r).
       Inr ((depPeerIdxs, depCounters, lamports), r))))"

definition DecodeHeader :: "bytes \<Rightarrow> int \<Rightarrow> ChangeHeader res" where
  "DecodeHeader blob n =
     bindR (header_front n (NewReader blob)) (\<lambda>((peers, atomLens, depOnSelf, depLens), r).
     bindR (sum_deps (reader_Remaining r) 0 depLens) (\<lambda>sumDeps.
     bindR (header_back n sumDeps r) (\<lambda>((depPeerIdxs, depCounters, lamports), r).
       if \<not> reader_Empty r then Inl ErrBlock
       else Inr \<lparr>h_Peers = peers, h_AtomLens = atomLens, h_DepOnSelf = depOnSelf,
         h_DepLens = depLens, h_DepPeerIdxs = depPeerIdxs, h_DepCounters = depCounters,
         h_Lamports = lamports\<rparr>)))"

definition put_peer :: "bytes \<Rightarrow> u64 \<Rightarrow> bytes" where
  "put_peer out p = out @ le_put 8 p"

definition EncodeHeader :: "ChangeHeader \<Rightarrow> bytes" where
  "EncodeHeader h =
     foldl AppendUvarint
       (foldl put_peer (AppendUvarint [] (of_nat (length (h_Peers h)))) (h_Peers h)) (h_AtomLens h) @
     EncodeBoolRle (h_DepOnSelf h) @ EncodeAnyRleU64 (h_DepLens h) @
     EncodeAnyRleU64 (h_DepPeerIdxs h) @ EncodeDeltaOfDelta (h_DepCounters h) @
     EncodeDeltaOfDelta (h_Lamports h)"

subsection \<open>Safety\<close>

lemma read_peer_strict [safe_intros]: "reader_ok r \<Longrightarrow> strict_from r (read_peer r)"
  by (auto simp: read_peer_def reader_Bytes_def strict_from_def safe_from_def moved_def
      reader_ok_def split: if_splits)

interpretation peerR: cursor1 read_peer
  by unfold_locales (auto intro: strict_from_safe read_peer_strict)

lemma read_peer_parses: "parses read_peer (le_put 8 p) p"
  unfolding read_peer_def
  by (rule parses_bindR_last [OF reader_Bytes_parses]) (simp_all add: le_get_put)

interpretation peerC: codec read_peer put_peer "\<lambda>_. True"
proof
  show "put_peer [] p \<noteq> []" for p
    by (simp add: put_peer_def le_put_def)
qed (simp_all add: put_peer_def read_peer_parses)

lemma header_front_safe [safe_intros]: "reader_ok r \<Longrightarrow> safe_from r (header_front n r)"
  unfolding header_front_def
  by (auto intro!: safe_intros peerR.read_n_safe uvarintR.read_n_safe)

lemma header_back_safe [safe_intros]: "reader_ok r \<Longrightarrow> safe_from r (header_back n s r)"
  unfolding header_back_def by (auto intro!: safe_intros)

lemma sum_deps_error: "sum_deps rem acc ds = Inl e \<Longrightarrow> go_error e"
  by (induction rem acc ds rule: sum_deps.induct) (auto simp: Let_def split: if_splits)

lemma DecodeHeader_error:
  assumes "DecodeHeader blob n = Inl e"
  shows "go_error e"
proof -
  note front = header_front_safe [OF reader_ok_NewReader [of blob], of n]
  have "reader_ok r" if "header_front n (NewReader blob) = Inr (x, r)" for x r
    using safe_from_InrD [OF front that] by (rule moved_ok)
  then show ?thesis
    using assms safe_from_InlD [OF front]
    by (auto simp: DecodeHeader_def bindR_Inl_iff split: if_splits
        dest: sum_deps_error safe_from_InlD [OF header_back_safe])
qed

subsection \<open>Which headers read back\<close>

text \<open>
  \<open>header_wf\<close>: the lengths of the columns fit the number of changes. \<open>total_deps\<close> is the
  number of dependencies, \<open>header_tail\<close> what \<open>EncodeHeader\<close> writes after the column of their
  lengths. The decoder compares the two: the comment in the source says that each dependency
  takes at least one byte of the tail.
\<close>

definition total_deps :: "ChangeHeader \<Rightarrow> nat" where
  "total_deps h = sum_list (map unat (h_DepLens h))"

definition header_tail :: "ChangeHeader \<Rightarrow> bytes" where
  "header_tail h =
     EncodeAnyRleU64 (h_DepPeerIdxs h) @ EncodeDeltaOfDelta (h_DepCounters h) @
     EncodeDeltaOfDelta (h_Lamports h)"

definition header_wf :: "nat \<Rightarrow> ChangeHeader \<Rightarrow> bool" where
  "header_wf n h \<longleftrightarrow>
     n \<le> maxColRows \<and> length (h_AtomLens h) = n - 1 \<and> length (h_DepOnSelf h) = n \<and>
     length (h_DepLens h) = n \<and> length (h_Lamports h) = n - 1 \<and>
     length (h_DepPeerIdxs h) = total_deps h \<and> length (h_DepCounters h) = total_deps h \<and>
     total_deps h \<le> maxColRows"

lemma sint_small_unat:
  fixes w :: i64
  assumes "unat w < 2 ^ 63"
  shows "sint w = int (unat w)"
proof -
  have "int (unat w) < int (2 ^ 63)" using assms by (simp only: of_nat_less_iff)
  then have "uint w < 2 ^ 63" by (simp only: uint_nat of_nat_power of_nat_numeral)
  then show ?thesis by (simp only: sint_nonneg_uint uint_nat)
qed

lemma sum_deps_eq:
  "rem < 2 ^ 63 \<Longrightarrow> acc \<le> rem \<Longrightarrow>
    sum_deps rem (int acc) ds =
      (if acc + sum_list (map unat ds) \<le> rem then Inr (int (acc + sum_list (map unat ds)))
       else Inl ErrBlock)"
proof (induction ds arbitrary: acc)
  case (Cons d ds)
  show ?case
  proof (cases "unat d \<le> rem")
    case True
    then have "unat d < 2 ^ 63" using Cons.prems(1) by (rule le_less_trans)
    then have s: "sint d = int (unat d)" by (rule sint_small_unat)
    have e: "int acc + sint d = int (acc + unat d)" by (simp only: s of_nat_add)
    show ?thesis
    proof (cases "acc + unat d \<le> rem")
      case le: True
      have "\<not> unat d > rem" "\<not> (int (acc + unat d) < 0 \<or> int (acc + unat d) > int rem)"
        using True le by (simp_all only: not_less of_nat_0_le_iff of_nat_le_iff de_Morgan_disj simp_thms)
      then have "sum_deps rem (int acc) (d # ds) = sum_deps rem (int (acc + unat d)) ds"
        unfolding sum_deps.simps Let_def e by (simp only: if_False)
      then show ?thesis
        unfolding Cons.IH [OF Cons.prems(1) le] by (simp add: add.assoc)
    next
      case False
      have "\<not> unat d > rem" "int (acc + unat d) < 0 \<or> int (acc + unat d) > int rem"
        using True False by (simp_all only: not_less of_nat_less_iff not_le simp_thms)
      then have "sum_deps rem (int acc) (d # ds) = Inl ErrBlock"
        unfolding sum_deps.simps Let_def e by (simp only: if_False if_True)
      then show ?thesis using False by simp
    qed
  qed simp
qed simp

lemma header_back_parses:
  assumes "header_wf n h"
  shows "parses (header_back (int n) (int (total_deps h))) (header_tail h)
    (h_DepPeerIdxs h, h_DepCounters h, h_Lamports h)"
proof -
  have 1: "parses (\<lambda>r. AnyRleNU64 r (int (total_deps h))) (EncodeAnyRleU64 (h_DepPeerIdxs h)) (h_DepPeerIdxs h)"
    by (rule AnyRleNU64_parses) (use assms in \<open>simp_all add: header_wf_def\<close>)
  have 2: "parses (\<lambda>r. DeltaOfDeltaN r (int (total_deps h))) (EncodeDeltaOfDelta (h_DepCounters h)) (h_DepCounters h)"
    by (rule DeltaOfDeltaN_parses) (use assms in \<open>simp_all add: header_wf_def\<close>)
  have 3: "parses (\<lambda>r. DeltaOfDeltaN r (max0 (int n - 1))) (EncodeDeltaOfDelta (h_Lamports h)) (h_Lamports h)"
    by (rule DeltaOfDeltaN_parses) (use assms in \<open>auto simp: header_wf_def max0_def of_nat_diff\<close>)
  show ?thesis
    unfolding header_back_def header_tail_def
    by (rule parses_bindR [OF 1], simp only: case_prod_conv,
        rule parses_bindR [OF 2], simp only: case_prod_conv,
        rule parses_bindR_last [OF 3], simp only: case_prod_conv)
qed

definition header_front_bytes :: "ChangeHeader \<Rightarrow> bytes" where
  "header_front_bytes h =
     uvarint_bytes (of_nat (length (h_Peers h))) @ concat (map (put_peer []) (h_Peers h)) @
     concat (map uvarint_bytes (h_AtomLens h)) @ EncodeBoolRle (h_DepOnSelf h) @
     EncodeAnyRleU64 (h_DepLens h)"

lemma EncodeHeader_eq: "EncodeHeader h = header_front_bytes h @ header_tail h"
  by (simp add: EncodeHeader_def header_front_bytes_def header_tail_def uvarintC.foldl_wr
      peerC.foldl_wr)

lemma peers_length: "length (concat (map (put_peer []) ps)) = 8 * length ps"
  by (induction ps) (simp_all add: put_peer_def)

lemma header_front_parses:
  assumes wf: "header_wf n h" and go: "go_len (EncodeHeader h)"
  shows "parses (header_front (int n)) (header_front_bytes h)
    (h_Peers h, h_AtomLens h, h_DepOnSelf h, h_DepLens h)"
proof -
  have "length (h_Peers h) \<le> length (EncodeHeader h)"
    using peers_length [of "h_Peers h"] by (simp add: EncodeHeader_eq header_front_bytes_def)
  then have ps: "unat (of_nat (length (h_Peers h)) :: u64) = length (h_Peers h)"
    using go by (intro go_len_unat) (simp add: go_len_def)
  have m: "max0 (int n - 1) = int (length (h_AtomLens h))"
    using wf by (auto simp: header_wf_def max0_def of_nat_diff)
  have atoms: "parses (read_n (length (h_AtomLens h)) reader_Uvarint)
      (concat (map uvarint_bytes (h_AtomLens h))) (h_AtomLens h)"
    using uvarintC.read_n_parses [of "h_AtomLens h"] by (simp add: list_all_iff)
  have peers: "parses (read_n (length (h_Peers h)) read_peer)
      (concat (map (put_peer []) (h_Peers h))) (h_Peers h)"
    using peerC.read_n_parses [of "h_Peers h"] by (simp add: list_all_iff)
  have bools: "parses (\<lambda>r. BoolRleN r (int n)) (EncodeBoolRle (h_DepOnSelf h)) (h_DepOnSelf h)"
    by (rule BoolRleN_parses) (use wf in \<open>simp_all add: header_wf_def\<close>)
  have lens: "parses (\<lambda>r. AnyRleNU64 r (int n)) (EncodeAnyRleU64 (h_DepLens h)) (h_DepLens h)"
    by (rule AnyRleNU64_parses) (use wf in \<open>simp_all add: header_wf_def\<close>)
  have cols: "parses (\<lambda>r. bindR (BoolRleN r (int n)) (\<lambda>(depOnSelf, r).
      bindR (AnyRleNU64 r (int n)) (\<lambda>(depLens, r).
        Inr ((h_Peers h, h_AtomLens h, depOnSelf, depLens), r))))
      (EncodeBoolRle (h_DepOnSelf h) @ EncodeAnyRleU64 (h_DepLens h))
      (h_Peers h, h_AtomLens h, h_DepOnSelf h, h_DepLens h)"
    by (rule parses_bindR [OF bools], simp only: case_prod_conv,
        rule parses_bindR_last [OF lens], simp only: case_prod_conv)
  show ?thesis
    unfolding header_front_def header_front_bytes_def
  proof (rule parses_bindR [OF reader_Uvarint_parses], simp only: case_prod_conv ps, rule parses_guard)
    fix r ys
    assume "reader_at r ((concat (map (put_peer []) (h_Peers h)) @
      concat (map uvarint_bytes (h_AtomLens h)) @ EncodeBoolRle (h_DepOnSelf h) @
      EncodeAnyRleU64 (h_DepLens h)) @ ys)"
    then show "\<not> reader_Remaining r div 8 < length (h_Peers h)"
      by (simp add: reader_at_Remaining peers_length)
  next
    show "parses (\<lambda>r. bindR (read_n (length (h_Peers h)) read_peer r) (\<lambda>(peers, r).
        if max0 (int n - 1) > int (reader_Remaining r) then Inl ErrBlock
        else bindR (read_n (nat (max0 (int n - 1))) reader_Uvarint r) (\<lambda>(atomLens, r).
          bindR (BoolRleN r (int n)) (\<lambda>(depOnSelf, r).
          bindR (AnyRleNU64 r (int n)) (\<lambda>(depLens, r).
            Inr ((peers, atomLens, depOnSelf, depLens), r))))))
      (concat (map (put_peer []) (h_Peers h)) @ concat (map uvarint_bytes (h_AtomLens h)) @
        EncodeBoolRle (h_DepOnSelf h) @ EncodeAnyRleU64 (h_DepLens h))
      (h_Peers h, h_AtomLens h, h_DepOnSelf h, h_DepLens h)"
    proof (rule parses_bindR [OF peers], simp only: case_prod_conv m, rule parses_guard)
      fix r ys
      assume "reader_at r ((concat (map uvarint_bytes (h_AtomLens h)) @ EncodeBoolRle (h_DepOnSelf h) @
        EncodeAnyRleU64 (h_DepLens h)) @ ys)"
      then show "\<not> int (reader_Remaining r) < int (length (h_AtomLens h))"
        using uvarintC.length_writes [of "h_AtomLens h"] by (simp add: reader_at_Remaining)
    next
      show "parses (\<lambda>r. bindR (read_n (nat (int (length (h_AtomLens h)))) reader_Uvarint r) (\<lambda>(atomLens, r).
          bindR (BoolRleN r (int n)) (\<lambda>(depOnSelf, r).
          bindR (AnyRleNU64 r (int n)) (\<lambda>(depLens, r).
            Inr ((h_Peers h, atomLens, depOnSelf, depLens), r)))))
        (concat (map uvarint_bytes (h_AtomLens h)) @ EncodeBoolRle (h_DepOnSelf h) @
          EncodeAnyRleU64 (h_DepLens h))
        (h_Peers h, h_AtomLens h, h_DepOnSelf h, h_DepLens h)"
        unfolding nat_int by (rule parses_bindR [OF atoms]) (simp add: cols)
    qed
  qed
qed

text \<open>
  A well-formed header reads back exactly if its dependencies are at most as many as the bytes
  of its tail; otherwise the decoder refuses what the encoder wrote.
\<close>

lemma DecodeHeader_encoded:
  assumes wf: "header_wf n h" and go: "go_len (EncodeHeader h)"
  shows "DecodeHeader (EncodeHeader h) (int n) =
    (if total_deps h \<le> length (header_tail h) then Inr h else Inl ErrBlock)"
proof -
  have at: "reader_at (NewReader (EncodeHeader h)) (header_front_bytes h @ header_tail h)"
    by (simp only: EncodeHeader_eq reader_at_NewReader)
  note front = parsesD [OF header_front_parses [OF wf go] at]
  define r where "r = advance (length (header_front_bytes h)) (NewReader (EncodeHeader h))"
  have r: "reader_at r (header_tail h)"
    using reader_at_advance [OF at refl] by (simp add: r_def)
  have rem: "reader_Remaining r = length (header_tail h)"
    by (rule reader_at_Remaining [OF r])
  have small: "length (header_tail h) < 2 ^ 63"
    using go by (simp add: EncodeHeader_eq go_len_def)
  have sum: "sum_deps (reader_Remaining r) 0 (h_DepLens h) =
      (if total_deps h \<le> length (header_tail h) then Inr (int (total_deps h)) else Inl ErrBlock)"
    using sum_deps_eq [OF small, of 0 "h_DepLens h"] by (simp add: rem total_deps_def)
  note tail = parsesD_all [OF header_back_parses [OF wf] r]
  have "reader_at (advance (length (header_tail h)) r) []"
    using reader_at_advance [of r "header_tail h" "[]"] r by simp
  then have "reader_Empty (advance (length (header_tail h)) r)"
    by (simp add: reader_at_Empty)
  then show ?thesis
    unfolding DecodeHeader_def front r_def [symmetric] bindR_simps case_prod_conv sum
    by (simp add: tail)
qed

text \<open>
  The comment in the decoder is wrong: columns of regular dependencies are shorter than one
  byte per dependency. \<open>regular_header\<close> is the header of twenty changes of one peer, each
  made after one change of another peer: the indices are one run, the counters and lamports
  are two arithmetic sequences of one bit per element.
\<close>

definition regular_header :: ChangeHeader where
  "regular_header = \<lparr>h_Peers = [1, 2], h_AtomLens = replicate 19 1, h_DepOnSelf = False # replicate 19 True,
     h_DepLens = replicate 20 1, h_DepPeerIdxs = replicate 20 1,
     h_DepCounters = map of_nat [0..<20], h_Lamports = map (\<lambda>i. 2 * of_nat i) [1..<20]\<rparr>"

lemma regular_header_tail: "length (header_tail regular_header) = 16"
  by code_simp

lemma regular_header_front: "length (header_front_bytes regular_header) = 40"
  by code_simp

lemma regular_header_wf: "header_wf 20 regular_header"
  by (simp add: header_wf_def regular_header_def total_deps_def maxColRows_def sum_list_replicate)

lemma regular_header_refused: "DecodeHeader (EncodeHeader regular_header) 20 = Inl ErrBlock"
proof -
  have "go_len (EncodeHeader regular_header)"
    by (simp add: go_len_def EncodeHeader_eq regular_header_tail regular_header_front)
  from DecodeHeader_encoded [OF regular_header_wf this]
  show ?thesis
    by (simp add: regular_header_tail) (simp add: total_deps_def regular_header_def sum_list_replicate)
qed

section \<open>The change_meta blob\<close>

record ChangeMeta =
  cm_Timestamps :: "i64 list"
  cm_CommitMsgs :: "gostring list"

text \<open>The loop over the messages; \<open>int(lens[i])\<close> is the signed reading.\<close>

fun read_msgs :: "u64 list \<Rightarrow> reader \<Rightarrow> (gostring list \<times> reader) res" where
  "read_msgs [] r = Inr ([], r)"
| "read_msgs (l # ls) r =
     bindR (reader_Bytes (sint l) r) (\<lambda>(s, r).
     bindR (read_msgs ls r) (\<lambda>(ss, r). Inr (s # ss, r)))"

definition meta_fields :: "int \<Rightarrow> reader \<Rightarrow> ((i64 list \<times> gostring list) \<times> reader) res" where
  "meta_fields n r =
     bindR (DeltaOfDeltaN r n) (\<lambda>(ts, r).
     bindR (AnyRleNU64 r n) (\<lambda>(lens, r).
     bindR (read_msgs lens r) (\<lambda>(msgs, r). Inr ((ts, msgs), r))))"

definition DecodeChangeMeta :: "bytes \<Rightarrow> int \<Rightarrow> ChangeMeta res" where
  "DecodeChangeMeta blob n =
     bindR (meta_fields n (NewReader blob)) (\<lambda>((ts, msgs), r).
       if \<not> reader_Empty r then Inl ErrBlock
       else Inr \<lparr>cm_Timestamps = ts, cm_CommitMsgs = msgs\<rparr>)"

definition EncodeChangeMeta :: "ChangeMeta \<Rightarrow> bytes" where
  "EncodeChangeMeta m =
     EncodeDeltaOfDelta (cm_Timestamps m) @
     EncodeAnyRleU64 (map (\<lambda>s. of_nat (length s)) (cm_CommitMsgs m)) @
     concat (cm_CommitMsgs m)"

lemma read_msgs_safe [safe_intros]: "reader_ok r \<Longrightarrow> safe_from r (read_msgs ls r)"
proof (induction ls arbitrary: r)
  case (Cons l ls)
  then show ?case by (auto intro!: safe_intros)
qed (auto intro!: safe_intros)

lemma meta_fields_safe: "reader_ok r \<Longrightarrow> safe_from r (meta_fields n r)"
  unfolding meta_fields_def by (auto intro!: safe_intros)

lemma DecodeChangeMeta_error: "DecodeChangeMeta blob n = Inl e \<Longrightarrow> go_error e"
  using meta_fields_safe [OF reader_ok_NewReader, of blob n]
  by (auto simp: DecodeChangeMeta_def bindR_Inl_iff split: if_splits dest: safe_from_InlD)

lemma read_msgs_length: "read_msgs ls r = Inr (ss, r') \<Longrightarrow> length ss = length ls"
  by (induction ls arbitrary: r ss) (auto simp: bindR_Inr_iff)

text \<open>A decoded meta blob has one timestamp and one message for each change.\<close>

lemma DecodeChangeMeta_lengths:
  "DecodeChangeMeta blob n = Inr m \<Longrightarrow>
    0 \<le> n \<and> length (cm_Timestamps m) = nat n \<and> length (cm_CommitMsgs m) = nat n"
  by (auto simp: DecodeChangeMeta_def meta_fields_def bindR_Inr_iff split: if_splits
      dest!: DeltaOfDeltaN_length AnyRleNU64_length read_msgs_length)

lemma read_msgs_parses:
  "list_all go_len ss \<Longrightarrow> parses (read_msgs (map (\<lambda>s. of_nat (length s)) ss)) (concat ss) ss"
proof (induction ss)
  case Nil
  then show ?case by (simp add: parses_return)
next
  case (Cons s ss)
  have s: "go_len s" using Cons.prems by simp
  have "parses (read_msgs (map (\<lambda>s. of_nat (length s)) ss)) (concat ss) ss"
    using Cons by simp
  from parses_bindR_last [OF this, of "\<lambda>(ss, r). Inr (s # ss, r)" "s # ss"]
  have "parses (\<lambda>r. bindR (read_msgs (map (\<lambda>s. of_nat (length s)) ss) r) (\<lambda>(ss, r). Inr (s # ss, r)))
      (concat ss) (s # ss)" by simp
  then show ?case
    unfolding list.map concat.simps read_msgs.simps go_len_sint [OF s]
    by (intro parses_bindR [OF reader_Bytes_parses [OF refl]]) simp
qed

lemma DecodeChangeMeta_reads_back:
  assumes "length (cm_Timestamps m) = n" and "length (cm_CommitMsgs m) = n" and "n \<le> maxColRows"
    and "list_all go_len (cm_CommitMsgs m)"
  shows "DecodeChangeMeta (EncodeChangeMeta m) (int n) = Inr m"
proof -
  let ?ls = "map (\<lambda>s. of_nat (length s)) (cm_CommitMsgs m) :: u64 list"
  have 1: "parses (\<lambda>r. DeltaOfDeltaN r (int n)) (EncodeDeltaOfDelta (cm_Timestamps m)) (cm_Timestamps m)"
    by (rule DeltaOfDeltaN_parses) (use assms in simp_all)
  have 2: "parses (\<lambda>r. AnyRleNU64 r (int n)) (EncodeAnyRleU64 ?ls) ?ls"
    by (rule AnyRleNU64_parses) (use assms in simp_all)
  note 3 = read_msgs_parses [OF assms(4)]
  have "parses (meta_fields (int n)) (EncodeChangeMeta m) (cm_Timestamps m, cm_CommitMsgs m)"
    unfolding meta_fields_def EncodeChangeMeta_def
    by (rule parses_bindR [OF 1], simp only: case_prod_conv,
        rule parses_bindR [OF 2], simp only: case_prod_conv,
        rule parses_bindR_last [OF 3], simp only: case_prod_conv)
  note p = parsesD_all [OF this reader_at_NewReader]
  have "reader_at (advance (length (EncodeChangeMeta m)) (NewReader (EncodeChangeMeta m))) []"
    using reader_at_advance [of "NewReader (EncodeChangeMeta m)" "EncodeChangeMeta m" "[]"]
    by simp
  then show ?thesis
    by (simp add: DecodeChangeMeta_def p reader_at_Empty)
qed

end
