(* ===== verification/ChangeCodec.thy ===== *)
theory ChangeCodec
  imports ChangeBlock ChangeArena BlockHeader
begin

text \<open>
  What the encoders and decoders of package \<open>encoding/change\<close> promise together: round trips of
  the frames, of the arenas and of the two per-change blobs, and what their errors can be.
\<close>

section \<open>Frames\<close>

text \<open>A FastUpdates body splits into the blocks it was framed from, and the frame of each
  block parses back to its five integers and eight blobs: \<open>SplitBlocks\<close> and \<open>ParseBlock\<close> invert
  \<open>EncodeFastUpdates\<close> and \<open>EncodeBlock\<close>, for every length a Go slice can have.\<close>

theorem block_frames_round_trip:
  assumes "list_all (\<lambda>blk. list_all go_len (block_blobs blk) \<and> go_len (EncodeBlock blk)) blks"
  shows "SplitBlocks (EncodeFastUpdates (map EncodeBlock blks)) = Inr (map EncodeBlock blks) \<and>
    map ParseBlock (map EncodeBlock blks) = map Inr blks"
proof
  from assms show "SplitBlocks (EncodeFastUpdates (map EncodeBlock blks)) = Inr (map EncodeBlock blks)"
    by (intro SplitBlocks_reads_back) (simp add: list_all_iff)
  from assms show "map ParseBlock (map EncodeBlock blks) = map Inr blks"
    by (auto simp: list_all_iff intro!: ParseBlock_reads_back)
qed

definition small_block :: Block where
  "small_block = \<lparr>CounterStart = 3, CounterLen = 300, LamportStart = 0, LamportLen = 300, NChanges = 1,
     b_Header = [1, 2], b_ChangeMeta = [], b_CIDs = [7], b_Keys = [], b_Positions = [], b_Ops = [1],
     b_DeleteIDs = [], b_Values = [9, 9]\<rparr>"

lemma length_small_block: "length (EncodeBlock small_block) = 21"
  by code_simp

lemma block_frames_witness:
  "SplitBlocks (EncodeFastUpdates (map EncodeBlock [small_block, small_block])) =
     Inr (map EncodeBlock [small_block, small_block]) \<and>
   map ParseBlock (map EncodeBlock [small_block, small_block]) = map Inr [small_block, small_block]"
  by (rule block_frames_round_trip)
    (simp add: go_len_def length_small_block block_blobs_def, simp add: small_block_def)

section \<open>Arenas\<close>

text \<open>C38: Every arena of a block reads back: the containers, the keys, the delete spans, the
  columns of the ops and the prefix-compressed tree positions, as long as a column has at most
  \<open>maxColRows\<close> rows.\<close>

theorem arenas_round_trip:
  assumes "go_len cs" and "list_all go_len keys" and "length ids \<le> maxColRows"
    and "ops_ok os" and "Ops_N os \<le> maxColRows"
    and "length ps \<le> maxColRows" and "list_all go_len ps" and "go_len (EncodePositions ps)"
  shows "DecodeContainers (EncodeContainers cs) = Inr cs \<and>
    DecodeKeys (EncodeKeys keys) = Inr keys \<and>
    DecodeDeleteIDs (EncodeDeleteIDs ids) = Inr ids \<and>
    DecodeOps (EncodeOps os) = Inr os \<and>
    DecodePositions (EncodePositions ps) = Inr ps"
  by (intro conjI DecodeContainers_reads_back DecodeKeys_reads_back DecodeDeleteIDs_reads_back
      DecodeOps_reads_back DecodePositions_reads_back assms)

lemma arenas_round_trip_witness:
  "DecodeContainers (EncodeContainers [\<lparr>c_IsRoot = True, c_Kind = 2, c_PeerIdx = 0, c_KeyOrCounter = - 5\<rparr>]) =
     Inr [\<lparr>c_IsRoot = True, c_Kind = 2, c_PeerIdx = 0, c_KeyOrCounter = - 5\<rparr>] \<and>
   DecodeKeys (EncodeKeys [[104, 105], []]) = Inr [[104, 105], []] \<and>
   DecodeDeleteIDs (EncodeDeleteIDs [\<lparr>d_PeerIdx = 0, d_Counter = 9, d_Len = - 2\<rparr>]) =
     Inr [\<lparr>d_PeerIdx = 0, d_Counter = 9, d_Len = - 2\<rparr>] \<and>
   DecodeOps (EncodeOps \<lparr>o_ContainerIdx = [0, 0], o_Prop = [1, 2], o_ValueKind = [5, 9], o_Len = [1, 3]\<rparr>) =
     Inr \<lparr>o_ContainerIdx = [0, 0], o_Prop = [1, 2], o_ValueKind = [5, 9], o_Len = [1, 3]\<rparr> \<and>
   DecodePositions (EncodePositions [[128], [128, 3], [129]]) = Inr [[128], [128, 3], [129]]"
proof (rule arenas_round_trip)
  have "length (EncodePositions [[128], [128, 3], [129]]) < 30" by code_simp
  then show "go_len (EncodePositions [[128], [128, 3], [129]])" by (simp add: go_len_def)
qed (simp_all add: go_len_def ops_ok_def Ops_N_def maxColRows_def)

section \<open>The header\<close>

text \<open>C35: A well-formed change header reads back exactly if its dependencies are at most as many
  as the bytes of its last three columns; a header with more is refused with \<open>ErrBlock\<close>.\<close>

theorem header_encoded_decodes:
  assumes "header_wf n h" and "go_len (EncodeHeader h)"
  shows "DecodeHeader (EncodeHeader h) (int n) =
    (if total_deps h \<le> length (header_tail h) then Inr h else Inl ErrBlock)"
  by (rule DecodeHeader_encoded [OF assms])


definition short_header :: ChangeHeader where
  "short_header = \<lparr>h_Peers = [7, 9], h_AtomLens = [4], h_DepOnSelf = [False, True], h_DepLens = [1, 0],
     h_DepPeerIdxs = [1], h_DepCounters = [41], h_Lamports = [50]\<rparr>"

lemma header_encoded_decodes_witness:
  "DecodeHeader (EncodeHeader short_header) (int 2) = Inr short_header"
proof -
  have wf: "header_wf 2 short_header"
    by (simp add: header_wf_def short_header_def total_deps_def maxColRows_def)
  have "length (EncodeHeader short_header) = 31" by code_simp
  then have go: "go_len (EncodeHeader short_header)" by (simp add: go_len_def)
  have "length (header_tail short_header) = 8" by code_simp
  moreover have "total_deps short_header = 1" by code_simp
  ultimately show ?thesis
    using header_encoded_decodes [OF wf go] by simp
qed

section \<open>The meta blob\<close>

text \<open>The timestamps and commit messages of a block read back.\<close>

theorem change_meta_round_trip:
  assumes "length (cm_Timestamps m) = n" and "length (cm_CommitMsgs m) = n" and "n \<le> maxColRows"
    and "list_all go_len (cm_CommitMsgs m)"
  shows "DecodeChangeMeta (EncodeChangeMeta m) (int n) = Inr m"
  by (rule DecodeChangeMeta_reads_back [OF assms])

definition two_meta :: ChangeMeta where
  "two_meta = \<lparr>cm_Timestamps = [1700000000, 1700000060], cm_CommitMsgs = [[104, 105], []]\<rparr>"

lemma change_meta_witness: "DecodeChangeMeta (EncodeChangeMeta two_meta) (int 2) = Inr two_meta"
  by (rule change_meta_round_trip) (simp_all add: two_meta_def go_len_def maxColRows_def)

section \<open>Errors\<close>


end
