(* ===== verification/GoSlice.thy ===== *)
theory GoSlice
  imports Prelude
begin

text \<open>
  Code that walks a byte slice by explicit indices (\<open>encoding/xxh32\<close>, \<open>encoding/lz4\<close>,
  \<open>encoding/fast\<close>, \<open>encoding/kv\<close>). Every index and slice expression is written with its run-time check:
  out of range it is \<open>GoPanic\<close>. Go checks the upper end of a slice expression against the
  capacity and not the length; the model checks it against the length, which is the
  stronger requirement, so that a proof that it never panics covers the program.

  Loops are steps iterated by \<open>loopR\<close> under a bound; \<open>loopR_okR\<close> shows at once that the
  bound is never reached, that no step panics and that the result has its property.
\<close>

section \<open>Checked indexing and slicing\<close>

definition index_at :: "'a list \<Rightarrow> nat \<Rightarrow> 'a res" where
  "index_at xs i = (if i < length xs then Inr (xs ! i) else Inl GoPanic)"

definition slice :: "'a list \<Rightarrow> nat \<Rightarrow> nat \<Rightarrow> 'a list res" where
  "slice xs lo hi =
     (if lo \<le> hi \<and> hi \<le> length xs then Inr (take (hi - lo) (drop lo xs)) else Inl GoPanic)"

text \<open>\<open>binary.LittleEndian.Uint16(b[i:])\<close> and \<open>Uint32(b[i:])\<close>.\<close>

definition le16_at :: "bytes \<Rightarrow> nat \<Rightarrow> u16 res" where
  "le16_at b i = (if i + 2 \<le> length b then Inr (le_get (take 2 (drop i b))) else Inl GoPanic)"

definition le32_at :: "bytes \<Rightarrow> nat \<Rightarrow> u32 res" where
  "le32_at b i = (if i + 4 \<le> length b then Inr (le_get (take 4 (drop i b))) else Inl GoPanic)"

text \<open>\<open>guardR c e m\<close>: the early return \<open>if c { return e }\<close> before \<open>m\<close>.\<close>

definition guardR :: "bool \<Rightarrow> err \<Rightarrow> 'a res \<Rightarrow> 'a res" where
  "guardR c e m = (if c then Inl e else m)"

lemma index_at_simps [simp]: "i < length xs \<Longrightarrow> index_at xs i = Inr (xs ! i)"
  by (simp add: index_at_def)

lemma slice_simps [simp]:
  "lo \<le> hi \<Longrightarrow> hi \<le> length xs \<Longrightarrow> slice xs lo hi = Inr (take (hi - lo) (drop lo xs))"
  by (simp add: slice_def)

lemma le16_at_simps [simp]: "i + 2 \<le> length b \<Longrightarrow> le16_at b i = Inr (le_get (take 2 (drop i b)))"
  by (simp add: le16_at_def)

lemma le32_at_simps [simp]: "i + 4 \<le> length b \<Longrightarrow> le32_at b i = Inr (le_get (take 4 (drop i b)))"
  by (simp add: le32_at_def)

lemma guardR_simps [simp]: "guardR True e m = Inl e" "guardR False e m = m"
  by (simp_all add: guardR_def)

lemma le16_at_prefix: "le16_at (xs @ le_put 2 w @ ys) (length xs) = Inr w" for w :: u16
  by (simp add: le16_at_def le_get_put)

lemma le32_at_prefix: "le32_at (xs @ le_put 4 w @ ys) (length xs) = Inr w" for w :: u32
  by (simp add: le32_at_def le_get_put)

text \<open>\<open>at_pos src i xs\<close>: from index \<open>i\<close> on, \<open>src\<close> holds exactly \<open>xs\<close>.\<close>

definition at_pos :: "'a list \<Rightarrow> nat \<Rightarrow> 'a list \<Rightarrow> bool" where
  "at_pos src i xs \<longleftrightarrow> i \<le> length src \<and> drop i src = xs"

lemma at_pos_0 [simp]: "at_pos src 0 src"
  by (simp add: at_pos_def)

lemma at_pos_length: "at_pos src i xs \<Longrightarrow> length src = i + length xs"
  by (auto simp: at_pos_def)

lemma at_pos_drop: "at_pos src i xs \<Longrightarrow> drop i src = xs"
  by (simp only: at_pos_def)

lemma at_pos_append: "at_pos src i (xs @ ys) \<Longrightarrow> at_pos src (i + length xs) ys"
proof -
  assume a: "at_pos src i (xs @ ys)"
  have "drop (i + length xs) src = drop (length xs) (drop i src)"
    by (simp only: drop_drop add.commute)
  also have "\<dots> = ys" by (simp only: at_pos_drop [OF a]) simp
  finally show ?thesis using at_pos_length [OF a] by (simp only: at_pos_def) simp
qed

lemma at_pos_Cons: "at_pos src i (x # xs) \<Longrightarrow> at_pos src (Suc i) xs"
  using at_pos_append [of src i "[x]" xs] by simp

lemma at_pos_slice:
  assumes "at_pos src i (xs @ ys)"
  shows "slice src i (i + length xs) = Inr xs"
proof -
  have "i + length xs \<le> length src" using at_pos_length [OF assms] by simp
  then have "slice src i (i + length xs) = Inr (take (length xs) (drop i src))"
    by (simp only: slice_def) simp
  then show ?thesis by (simp only: at_pos_drop [OF assms]) simp
qed

lemma at_pos_index:
  assumes "at_pos src i (x # xs)"
  shows "index_at src i = Inr x"
proof -
  have "i < length src" using at_pos_length [OF assms] by simp
  then show ?thesis
    using nth_via_drop [OF at_pos_drop [OF assms]] by (simp only: index_at_def if_True)
qed

lemma at_pos_le16:
  fixes w :: u16
  assumes "at_pos src i (le_put 2 w @ ys)"
  shows "le16_at src i = Inr w"
proof -
  have "i + 2 \<le> length src" using at_pos_length [OF assms] by simp
  then show ?thesis
    by (simp only: le16_at_def at_pos_drop [OF assms] if_True) (simp add: le_get_put)
qed

lemma at_pos_le32:
  fixes w :: u32
  assumes "at_pos src i (le_put 4 w @ ys)"
  shows "le32_at src i = Inr w"
proof -
  have "i + 4 \<le> length src" using at_pos_length [OF assms] by simp
  then show ?thesis
    by (simp only: le32_at_def at_pos_drop [OF assms] if_True) (simp add: le_get_put)
qed

text \<open>Chunks laid out one after the other, found by the lengths of those before them.\<close>

definition chunk_off :: "'a list list \<Rightarrow> nat \<Rightarrow> nat" where
  "chunk_off cs i = length (concat (take i cs))"

lemma chunk_off_Suc: "i < length cs \<Longrightarrow> chunk_off cs (Suc i) = chunk_off cs i + length (cs ! i)"
  by (simp add: chunk_off_def take_Suc_conv_app_nth)

lemma chunk_off_all: "length cs \<le> n \<Longrightarrow> chunk_off cs n = length (concat cs)"
  by (simp add: chunk_off_def)

lemma chunk_off_le: "chunk_off cs i \<le> length (concat cs)"
proof -
  have "concat cs = concat (take i cs) @ concat (drop i cs)"
    by (metis append_take_drop_id concat_append)
  then have "length (concat cs) = length (concat (take i cs)) + length (concat (drop i cs))"
    by (metis length_append)
  then show ?thesis by (simp only: chunk_off_def)
qed

lemma at_pos_chunk:
  assumes "i < length cs"
  shows "at_pos (pre @ concat cs @ post) (length pre + chunk_off cs i)
    (cs ! i @ concat (drop (Suc i) cs) @ post)"
proof -
  have "cs = take i cs @ cs ! i # drop (Suc i) cs" using assms by (rule id_take_nth_drop)
  then have "concat cs = concat (take i cs) @ cs ! i @ concat (drop (Suc i) cs)"
    by (metis concat.simps(2) concat_append)
  then have "at_pos (pre @ concat cs @ post) 0
      ((pre @ concat (take i cs)) @ cs ! i @ concat (drop (Suc i) cs) @ post)"
    by simp
  from at_pos_append [OF this] show ?thesis by (simp add: chunk_off_def)
qed

section \<open>Results that are no panic\<close>

text \<open>
  \<open>okR P m\<close>: \<open>m\<close> is an error value of the program or a result with \<open>P\<close>; it is no panic
  and no spent bound.
\<close>

definition okR :: "('a \<Rightarrow> bool) \<Rightarrow> 'a res \<Rightarrow> bool" where
  "okR P m = (case m of Inl e \<Rightarrow> go_error e | Inr v \<Rightarrow> P v)"

named_theorems okR_intros

lemma okR_simps [simp]: "okR P (Inl e) = go_error e" "okR P (Inr v) = P v"
  by (simp_all add: okR_def)

lemma okR_bindR [okR_intros]:
  "okR Q m \<Longrightarrow> (\<And>v. m = Inr v \<Longrightarrow> Q v \<Longrightarrow> okR P (f v)) \<Longrightarrow> okR P (bindR m f)"
  by (cases m) auto

lemma okR_guardR [okR_intros]:
  "(c \<Longrightarrow> go_error e) \<Longrightarrow> (\<not> c \<Longrightarrow> okR P m) \<Longrightarrow> okR P (guardR c e m)"
  by (simp add: guardR_def)

lemma okR_if [okR_intros]:
  "(c \<Longrightarrow> okR P m) \<Longrightarrow> (\<not> c \<Longrightarrow> okR P n) \<Longrightarrow> okR P (if c then m else n)"
  by simp

lemma okR_mono: "okR Q m \<Longrightarrow> (\<And>v. Q v \<Longrightarrow> P v) \<Longrightarrow> okR P m"
  by (cases m) auto

lemma okR_error: "okR P m \<Longrightarrow> m = Inl e \<Longrightarrow> go_error e"
  by simp

lemma okR_result: "okR P m \<Longrightarrow> m = Inr v \<Longrightarrow> P v"
  by simp

section \<open>Loops\<close>

primrec loopR :: "nat \<Rightarrow> ('s \<Rightarrow> ('s + 'a) res) \<Rightarrow> 's \<Rightarrow> 'a res" where
  "loopR 0 step s = Inl OutOfFuel"
| "loopR (Suc n) step s =
     bindR (step s) (\<lambda>x. case x of Inl s' \<Rightarrow> loopR n step s' | Inr v \<Rightarrow> Inr v)"

lemma loopR_okR:
  fixes m :: "'s \<Rightarrow> nat"
  assumes "I s" and "m s < n"
    and step: "\<And>s. I s \<Longrightarrow>
      okR (\<lambda>x. case x of Inl s' \<Rightarrow> I s' \<and> m s' < m s | Inr v \<Rightarrow> P v) (step s)"
  shows "okR P (loopR n step s)"
  using assms(1,2)
proof (induction n arbitrary: s)
  case (Suc n)
  show ?case
    unfolding loopR.simps
  proof (rule okR_bindR [OF step [OF Suc.prems(1)]])
    fix x
    assume "case x of Inl s' \<Rightarrow> I s' \<and> m s' < m s | Inr v \<Rightarrow> P v"
    then show "okR P (case x of Inl s' \<Rightarrow> loopR n step s' | Inr v \<Rightarrow> Inr v)"
      using Suc by (cases x) auto
  qed
qed simp

text \<open>More steps than needed change nothing.\<close>

lemma loopR_mono: "loopR n step s = Inr v \<Longrightarrow> n \<le> k \<Longrightarrow> loopR k step s = Inr v"
proof (induction n arbitrary: s k)
  case (Suc n)
  then obtain j where k: "k = Suc j" and "n \<le> j" by (cases k) auto
  with Suc show ?case
    by (auto simp: bindR_Inr_iff split: sum.splits)
qed simp

lemma loopR_step:
  "step s = Inr (Inl s') \<Longrightarrow> loopR (Suc n) step s = loopR n step s'"
  by simp

lemma loopR_stop:
  "step s = Inr (Inr v) \<Longrightarrow> loopR (Suc n) step s = Inr v"
  by simp

text \<open>
  \<open>steps_to step s k v\<close>: the loop leaves \<open>s\<close> with the result \<open>v\<close> after \<open>k\<close> turns.
\<close>

primrec steps_to :: "('s \<Rightarrow> ('s + 'a) res) \<Rightarrow> 's \<Rightarrow> nat \<Rightarrow> 'a \<Rightarrow> bool" where
  "steps_to step s 0 v = (step s = Inr (Inr v))"
| "steps_to step s (Suc k) v = (\<exists>s'. step s = Inr (Inl s') \<and> steps_to step s' k v)"

lemma loopR_steps_to: "steps_to step s k v \<Longrightarrow> k < n \<Longrightarrow> loopR n step s = Inr v"
proof (induction k arbitrary: s n)
  case 0
  then show ?case by (cases n) auto
next
  case (Suc k)
  then show ?case by (cases n) auto
qed

text \<open>A loop over \<open>0 \<le> i < n\<close> that collects one value per turn.\<close>

primrec collectR :: "nat list \<Rightarrow> (nat \<Rightarrow> 'a res) \<Rightarrow> 'a list res" where
  "collectR [] f = Inr []"
| "collectR (i # is) f = bindR (f i) (\<lambda>v. bindR (collectR is f) (\<lambda>vs. Inr (v # vs)))"

lemma collectR_okR:
  "(\<And>i. i \<in> set is \<Longrightarrow> okR P (f i)) \<Longrightarrow>
    okR (\<lambda>vs. length vs = length is \<and> (\<forall>v\<in>set vs. P v)) (collectR is f)"
proof (induction "is")
  case (Cons i "is")
  then have "okR P (f i)"
    and "okR (\<lambda>vs. length vs = length is \<and> (\<forall>v\<in>set vs. P v)) (collectR is f)"
    by simp_all
  then show ?case by (auto intro!: okR_bindR)
qed simp

lemma collectR_Inr:
  "(\<And>i. i \<in> set is \<Longrightarrow> f i = Inr (g i)) \<Longrightarrow> collectR is f = Inr (map g is)"
  by (induction "is") auto

end
