(* ===== verification/GoMap.thy ===== *)
theory GoMap
  imports Main "HOL-Library.List_Lexorder" "HOL-Library.Word"
begin

text \<open>
  Go maps. A \<open>map[K]V\<close> is modelled by the list of its entries in ascending order of the keys,
  each key once: \<open>gm_put\<close> is \<open>m[k] = v\<close>, \<open>gm_get\<close> is \<open>m[k]\<close> with the second result.
  The sorted list makes equality of maps equality of lists, and is what \<open>slices.Sorted\<close>
  of the keys walks. Strings are ordered byte by byte, as Go compares them.
\<close>

fun gm_put :: "'k::linorder \<Rightarrow> 'v \<Rightarrow> ('k \<times> 'v) list \<Rightarrow> ('k \<times> 'v) list" where
  "gm_put k v [] = [(k, v)]"
| "gm_put k v ((k', v') # m) =
     (if k < k' then (k, v) # (k', v') # m
      else if k = k' then (k, v) # m
      else (k', v') # gm_put k v m)"

fun gm_get :: "('k \<times> 'v) list \<Rightarrow> 'k \<Rightarrow> 'v option" where
  "gm_get [] k = None"
| "gm_get ((k', v') # m) k = (if k = k' then Some v' else gm_get m k)"

fun gm_del :: "'k \<Rightarrow> ('k \<times> 'v) list \<Rightarrow> ('k \<times> 'v) list" where
  "gm_del k [] = []"
| "gm_del k ((k', v') # m) = (if k = k' then m else (k', v') # gm_del k m)"

definition gm_ok :: "('k::linorder \<times> 'v) list \<Rightarrow> bool" where
  "gm_ok m \<longleftrightarrow> sorted_wrt (<) (map fst m)"

lemma gm_ok_Nil [simp]: "gm_ok []"
  by (simp add: gm_ok_def)

lemma gm_ok_Cons [simp]: "gm_ok ((k, v) # m) \<longleftrightarrow> (\<forall>k' \<in> fst ` set m. k < k') \<and> gm_ok m"
  by (simp add: gm_ok_def)

lemma gm_put_keys: "fst ` set (gm_put k v m) = insert k (fst ` set m)"
  by (induction k v m rule: gm_put.induct) auto

lemma gm_put_ok: "gm_ok m \<Longrightarrow> gm_ok (gm_put k v m)"
proof (induction k v m rule: gm_put.induct)
  case (2 k v k' v' m)
  then show ?case by (auto simp: gm_put_keys)
qed simp

lemma gm_get_put: "gm_get (gm_put k v m) k' = (if k' = k then Some v else gm_get m k')"
  by (induction k v m rule: gm_put.induct) auto

lemma gm_get_None: "gm_get m k = None \<longleftrightarrow> k \<notin> fst ` set m"
  by (induction m k rule: gm_get.induct) auto

lemma gm_get_set: "gm_ok m \<Longrightarrow> gm_get m k = Some v \<longleftrightarrow> (k, v) \<in> set m"
  by (induction m k rule: gm_get.induct) (auto simp: rev_image_eqI)

lemma gm_get_map_of: "gm_get m = map_of m"
proof
  show "gm_get m k = map_of m k" for k
    by (induction m k rule: gm_get.induct) auto
qed

text \<open>Appending an entry above all others, which building a map in sorted order does.\<close>

lemma gm_put_last: "\<forall>k' \<in> fst ` set m. k' < k \<Longrightarrow> gm_put k v m = m @ [(k, v)]"
  by (induction k v m rule: gm_put.induct) auto

lemma gm_ok_append:
  "gm_ok (m @ m') \<longleftrightarrow> gm_ok m \<and> gm_ok m' \<and> (\<forall>k \<in> fst ` set m. \<forall>k' \<in> fst ` set m'. k < k')"
  by (auto simp: gm_ok_def sorted_wrt_append)

lemma gm_entries: "gm_ok m \<Longrightarrow> map (\<lambda>k. (k, the (gm_get m k))) (map fst m) = m"
proof -
  assume ok: "gm_ok m"
  have "(\<lambda>e. (fst e, the (gm_get m (fst e)))) e = e" if "e \<in> set m" for e
    using gm_get_set [OF ok, of "fst e" "snd e"] that by simp
  then show ?thesis by (simp add: map_idI o_def)
qed

lemma gm_ok_ext:
  assumes "gm_ok m" and "gm_ok m'" and "gm_get m = gm_get m'"
  shows "m = m'"
proof -
  have "set (map fst m) = set (map fst m')"
    using gm_get_None [of m] gm_get_None [of m'] assms(3) by auto
  then have "map fst m = map fst m'"
    using assms(1,2) by (intro strict_sorted_equal) (simp_all add: gm_ok_def)
  then show ?thesis
    using gm_entries [OF assms(1)] gm_entries [OF assms(2)] assms(3) by simp
qed

lemma gm_del_keys: "gm_ok m \<Longrightarrow> fst ` set (gm_del k m) = fst ` set m - {k}"
  by (induction k m rule: gm_del.induct) auto

lemma gm_del_ok: "gm_ok m \<Longrightarrow> gm_ok (gm_del k m)"
  by (induction k m rule: gm_del.induct) (auto simp: gm_del_keys)

lemma gm_get_del_same: "gm_ok m \<Longrightarrow> gm_get (gm_del k m) k = None"
  by (simp add: gm_get_None gm_del_keys)

lemma gm_get_del_other: "k' \<noteq> k \<Longrightarrow> gm_get (gm_del k m) k' = gm_get m k'"
  by (induction k m rule: gm_del.induct) auto

lemma gm_get_del: "gm_ok m \<Longrightarrow> gm_get (gm_del k m) k' = (if k' = k then None else gm_get m k')"
  by (simp add: gm_get_del_same gm_get_del_other)

end
