(* ===== verification/ChangeValue.thy ===== *)
theory ChangeValue
  imports Cursor GoSlice GoMap "HOL-Library.Sublist"
begin

text \<open>
  Package \<open>encoding/change\<close>, \<open>value.go\<close>: the values stream of a block. \<open>ValueReader\<close> reads
  and \<open>ValueWriter\<close> writes signed LEB128 integers, floats (modelled by their 64 bits),
  strings, nested self-describing values and the values of the op kinds.

  A Go \<open>any\<close> that holds a document value is an \<open>lval\<close>; \<open>LOther\<close> stands for a value of
  any type that the writer refuses. A map is a \<open>GoMap\<close> list. A \<open>goany\<close> is an \<open>lval\<close> or
  one of the further types that \<open>OpContent\<close> passes.
\<close>

datatype lval =
    LNull
  | LBool bool
  | LI64 i64
  | LF64 u64
  | LStr gostring
  | LBin bytes
  | LContainer byte
  | LList "lval list"
  | LMap "(gostring \<times> lval) list"
  | LOther

record Mark =
  m_Info :: byte
  m_Len :: i64
  m_KeyIdx :: i64
  m_Value :: lval

record ListMove =
  lm_From :: i64
  lm_FromIdx :: i64
  lm_Lamport :: i64

record ListSet =
  ls_PeerIdx :: i64
  ls_Lamport :: i64
  ls_Value :: lval

record RawTreeMove =
  rt_SubjectPeerIdx :: i64
  rt_SubjectCounter :: i64
  rt_PositionIdx :: i64
  rt_ParentNull :: bool
  rt_ParentPeerIdx :: i64
  rt_ParentCounter :: i64

datatype goany =
    AVal lval
  | AU64 u64
  | AMark Mark
  | AListMove ListMove
  | AListSet ListSet
  | ARawTreeMove RawTreeMove

section \<open>Kinds\<close>

definition VKNull :: byte where "VKNull = 0"
definition VKTrue :: byte where "VKTrue = 1"
definition VKFalse :: byte where "VKFalse = 2"
definition VKI64 :: byte where "VKI64 = 3"
definition VKF64 :: byte where "VKF64 = 4"
definition VKStr :: byte where "VKStr = 5"
definition VKBinary :: byte where "VKBinary = 6"
definition VKContainer :: byte where "VKContainer = 7"
definition VKDeleteOnce :: byte where "VKDeleteOnce = 8"
definition VKDeleteSeq :: byte where "VKDeleteSeq = 9"
definition VKDeltaInt :: byte where "VKDeltaInt = 10"
definition VKLoroValue :: byte where "VKLoroValue = 11"
definition VKMarkStart :: byte where "VKMarkStart = 12"
definition VKTreeMove :: byte where "VKTreeMove = 13"
definition VKListMove :: byte where "VKListMove = 14"
definition VKListSet :: byte where "VKListSet = 15"
definition VKRawTreeMove :: byte where "VKRawTreeMove = 16"

lemmas vk_defs =
  VKNull_def VKTrue_def VKFalse_def VKI64_def VKF64_def VKStr_def VKBinary_def VKContainer_def
  VKDeleteOnce_def VKDeleteSeq_def VKDeltaInt_def VKLoroValue_def VKMarkStart_def VKTreeMove_def
  VKListMove_def VKListSet_def VKRawTreeMove_def

definition lvNull :: byte where "lvNull = 0"
definition lvTrue :: byte where "lvTrue = 1"
definition lvFalse :: byte where "lvFalse = 2"
definition lvI64 :: byte where "lvI64 = 3"
definition lvF64 :: byte where "lvF64 = 4"
definition lvStr :: byte where "lvStr = 5"
definition lvBinary :: byte where "lvBinary = 6"
definition lvList :: byte where "lvList = 7"
definition lvMap :: byte where "lvMap = 8"
definition lvContainer :: byte where "lvContainer = 9"

lemmas lv_defs =
  lvNull_def lvTrue_def lvFalse_def lvI64_def lvF64_def lvStr_def lvBinary_def lvList_def
  lvMap_def lvContainer_def

section \<open>ValueReader\<close>

record valueReader =
  vr_r :: reader
  vr_keys :: "gostring list"
  vr_keyBudget :: int
  vr_recordOrder :: bool
  vr_orders :: "gostring list list"

definition keyBudgetBase :: int where "keyBudgetBase = 64 * 2 ^ 20"
definition keyBudgetPerByte :: int where "keyBudgetPerByte = 256"

definition NewValueReader :: "bytes \<Rightarrow> gostring list \<Rightarrow> valueReader" where
  "NewValueReader b keys =
     \<lparr>vr_r = NewReader b, vr_keys = keys,
      vr_keyBudget = keyBudgetBase + keyBudgetPerByte * int (length b),
      vr_recordOrder = False, vr_orders = []\<rparr>"

definition RecordKeyOrder :: "valueReader \<Rightarrow> valueReader" where
  "RecordKeyOrder v = v\<lparr>vr_recordOrder := True\<rparr>"

definition KeyOrders :: "valueReader \<Rightarrow> gostring list list" where
  "KeyOrders v = vr_orders v"

definition vr_Empty :: "valueReader \<Rightarrow> bool" where
  "vr_Empty v = reader_Empty (vr_r v)"

text \<open>A reading function of the cursor, as a method of the value reader.\<close>

definition on_r :: "(reader \<Rightarrow> ('a \<times> reader) res) \<Rightarrow> valueReader \<Rightarrow> ('a \<times> valueReader) res" where
  "on_r f v = bindR (f (vr_r v)) (\<lambda>(x, r). Inr (x, v\<lparr>vr_r := r\<rparr>))"

definition vr_U64 :: "valueReader \<Rightarrow> (u64 \<times> valueReader) res" where
  "vr_U64 v = on_r reader_Uvarint v"

text \<open>
  The loop of \<open>I64\<close>. Shifting a 64-bit value by 64 or more gives zero in Go as on words; the
  sign is extended only below 64.
\<close>

function leb_loop :: "i64 \<Rightarrow> nat \<Rightarrow> reader \<Rightarrow> (i64 \<times> reader) res" where
  "leb_loop result shift r =
     bindR (reader_Byte r) (\<lambda>(b, r).
       let result = result OR push_bit shift (ucast (b AND 0x7f)); shift = shift + 7 in
       if b AND 0x80 = 0 then
         Inr (if shift < 64 \<and> b AND 0x40 \<noteq> 0 then result OR push_bit shift (- 1) else result, r)
       else if shift \<ge> 64 then Inl (Errorf ''i64 leb128 overflow'')
       else leb_loop result shift r)"
  by auto
termination by (relation "measure (\<lambda>(x, shift, r). 64 - shift)") auto

declare leb_loop.simps [simp del]

definition vr_I64 :: "valueReader \<Rightarrow> (i64 \<times> valueReader) res" where
  "vr_I64 v = on_r (leb_loop 0 0) v"

definition vr_F64 :: "valueReader \<Rightarrow> (u64 \<times> valueReader) res" where
  "vr_F64 v = on_r (\<lambda>r. bindR (reader_Bytes 8 r) (\<lambda>(b, r). Inr (be_get b, r))) v"

definition vr_Str :: "valueReader \<Rightarrow> (gostring \<times> valueReader) res" where
  "vr_Str v = on_r reader_String v"

definition vr_Binary :: "valueReader \<Rightarrow> (bytes \<times> valueReader) res" where
  "vr_Binary v =
     on_r (\<lambda>r. bindR (reader_Uvarint r) (\<lambda>(n, r).
       if unat n > reader_Remaining r then Inl (Errorf ''binary length exceeds remaining'')
       else reader_Bytes (sint n) r)) v"

definition maxLoroValueDepth :: nat where "maxLoroValueDepth = 128"

text \<open>
  The loops over the elements of a list and the entries of a map, for the function \<open>dec\<close>
  that reads one value. \<open>slot\<close> is where the order of the keys is recorded, if it is.
\<close>

fun vr_elems ::
  "nat \<Rightarrow> (valueReader \<Rightarrow> (lval \<times> valueReader) res) \<Rightarrow> valueReader \<Rightarrow> (lval list \<times> valueReader) res" where
  "vr_elems 0 dec v = Inr ([], v)"
| "vr_elems (Suc n) dec v =
     bindR (dec v) (\<lambda>(x, v). bindR (vr_elems n dec v) (\<lambda>(xs, v). Inr (x # xs, v)))"

definition vr_key :: "nat option \<Rightarrow> valueReader \<Rightarrow> (gostring \<times> valueReader) res" where
  "vr_key slot v =
     bindR (vr_U64 v) (\<lambda>(ki, v).
       if unat ki \<ge> length (vr_keys v) then Inl (Errorf ''map key index out of range'')
       else
         let k = vr_keys v ! unat ki;
             v = v\<lparr>vr_keyBudget := vr_keyBudget v - int (length k)\<rparr> in
         if vr_keyBudget v < 0 then Inl (Errorf ''nested map keys reference more key bytes than allowed'')
         else Inr (k, case slot of
             None \<Rightarrow> v
           | Some s \<Rightarrow> v\<lparr>vr_orders := (vr_orders v)[s := vr_orders v ! s @ [k]]\<rparr>))"

fun vr_entries ::
  "nat \<Rightarrow> nat option \<Rightarrow> (valueReader \<Rightarrow> (lval \<times> valueReader) res) \<Rightarrow> (gostring \<times> lval) list \<Rightarrow>
    valueReader \<Rightarrow> ((gostring \<times> lval) list \<times> valueReader) res" where
  "vr_entries 0 slot dec out v = Inr (out, v)"
| "vr_entries (Suc n) slot dec out v =
     bindR (vr_key slot v) (\<lambda>(k, v).
     bindR (dec v) (\<lambda>(val, v). vr_entries n slot dec (gm_put k val out) v))"

function loroValue :: "nat \<Rightarrow> valueReader \<Rightarrow> (lval \<times> valueReader) res" where
  "loroValue depth v =
     (if depth > maxLoroValueDepth then Inl (Errorf ''LoroValue nested too deep'')
      else bindR (on_r reader_Byte v) (\<lambda>(kb, v).
        if kb = lvNull then Inr (LNull, v)
        else if kb = lvTrue then Inr (LBool True, v)
        else if kb = lvFalse then Inr (LBool False, v)
        else if kb = lvI64 then bindR (vr_I64 v) (\<lambda>(x, v). Inr (LI64 x, v))
        else if kb = lvF64 then bindR (vr_F64 v) (\<lambda>(x, v). Inr (LF64 x, v))
        else if kb = lvStr then bindR (vr_Str v) (\<lambda>(x, v). Inr (LStr x, v))
        else if kb = lvBinary then bindR (vr_Binary v) (\<lambda>(x, v). Inr (LBin x, v))
        else if kb = lvList then
          bindR (vr_U64 v) (\<lambda>(n, v).
            if unat n > reader_Remaining (vr_r v) then Inl (Errorf ''list length exceeds remaining'')
            else bindR (vr_elems (unat n) (loroValue (depth + 1)) v) (\<lambda>(xs, v). Inr (LList xs, v)))
        else if kb = lvMap then
          bindR (vr_U64 v) (\<lambda>(n, v).
            if unat n > reader_Remaining (vr_r v) then Inl (Errorf ''map length exceeds remaining'')
            else
              let slot = (if vr_recordOrder v then Some (length (vr_orders v)) else None);
                  v = (if vr_recordOrder v then v\<lparr>vr_orders := vr_orders v @ [[]]\<rparr> else v) in
              bindR (vr_entries (unat n) slot (loroValue (depth + 1)) [] v) (\<lambda>(m, v). Inr (LMap m, v)))
        else if kb = lvContainer then
          bindR (on_r reader_Byte v) (\<lambda>(ct, v). Inr (LContainer ct, v))
        else Inl (Errorf ''unknown LoroValueKind'')))"
  by auto
termination by (relation "measure (\<lambda>(depth, v). Suc maxLoroValueDepth - depth)") auto

declare loroValue.simps [simp del]

definition vr_LoroValue :: "valueReader \<Rightarrow> (lval \<times> valueReader) res" where
  "vr_LoroValue v = loroValue 0 v"

section \<open>The values of the op kinds\<close>

text \<open>The conversions \<open>int64(x)\<close> of the unsigned integers keep the bits.\<close>

definition ReadMark :: "valueReader \<Rightarrow> (Mark \<times> valueReader) res" where
  "ReadMark v =
     bindR (on_r reader_Byte v) (\<lambda>(info, v).
     bindR (on_r reader_Uvarint v) (\<lambda>(ln, v).
     bindR (on_r reader_Uvarint v) (\<lambda>(ki, v).
     bindR (vr_LoroValue v) (\<lambda>(val, v).
       Inr (\<lparr>m_Info = info, m_Len = ln, m_KeyIdx = ki, m_Value = val\<rparr>, v)))))"

definition ReadListMove :: "valueReader \<Rightarrow> (ListMove \<times> valueReader) res" where
  "ReadListMove v =
     bindR (on_r reader_Uvarint v) (\<lambda>(from, v).
     bindR (on_r reader_Uvarint v) (\<lambda>(fromIdx, v).
     bindR (on_r reader_Uvarint v) (\<lambda>(lamport, v).
       Inr (\<lparr>lm_From = from, lm_FromIdx = fromIdx, lm_Lamport = lamport\<rparr>, v))))"

definition ReadListSet :: "valueReader \<Rightarrow> (ListSet \<times> valueReader) res" where
  "ReadListSet v =
     bindR (on_r reader_Uvarint v) (\<lambda>(peerIdx, v).
     bindR (on_r reader_Uvarint v) (\<lambda>(lamport, v).
       if lamport > 2 ^ 32 - 1 \<or> peerIdx > 2 ^ 31 - 1 then Inl ErrBlock
       else bindR (vr_LoroValue v) (\<lambda>(val, v).
         Inr (\<lparr>ls_PeerIdx = peerIdx, ls_Lamport = lamport, ls_Value = val\<rparr>, v))))"

definition ReadRawTreeMove :: "valueReader \<Rightarrow> (RawTreeMove \<times> valueReader) res" where
  "ReadRawTreeMove v =
     bindR (on_r reader_Uvarint v) (\<lambda>(spi, v).
     bindR (on_r reader_Uvarint v) (\<lambda>(sc, v).
     bindR (on_r reader_Uvarint v) (\<lambda>(pi, v).
     bindR (on_r reader_Byte v) (\<lambda>(pnull, v).
       let m = \<lparr>rt_SubjectPeerIdx = spi, rt_SubjectCounter = sc, rt_PositionIdx = pi,
                rt_ParentNull = (pnull \<noteq> 0), rt_ParentPeerIdx = 0, rt_ParentCounter = 0\<rparr> in
       if \<not> rt_ParentNull m then
         bindR (on_r reader_Uvarint v) (\<lambda>(ppi, v).
         bindR (on_r reader_Uvarint v) (\<lambda>(pc, v).
           Inr (m\<lparr>rt_ParentPeerIdx := ppi, rt_ParentCounter := pc\<rparr>, v)))
       else Inr (m, v)))))"

definition ReadOpContent :: "byte \<Rightarrow> valueReader \<Rightarrow> (goany \<times> valueReader) res" where
  "ReadOpContent vk v =
     (if vk = VKNull then Inr (AVal LNull, v)
      else if vk = VKTrue then Inr (AVal (LBool True), v)
      else if vk = VKFalse then Inr (AVal (LBool False), v)
      else if vk = VKI64 then bindR (vr_I64 v) (\<lambda>(x, v). Inr (AVal (LI64 x), v))
      else if vk = VKF64 then bindR (vr_F64 v) (\<lambda>(x, v). Inr (AVal (LF64 x), v))
      else if vk = VKStr then bindR (vr_Str v) (\<lambda>(x, v). Inr (AVal (LStr x), v))
      else if vk = VKBinary then bindR (vr_Binary v) (\<lambda>(x, v). Inr (AVal (LBin x), v))
      else if vk = VKLoroValue then bindR (vr_LoroValue v) (\<lambda>(x, v). Inr (AVal x, v))
      else if vk = VKMarkStart then bindR (ReadMark v) (\<lambda>(x, v). Inr (AMark x, v))
      else if vk = VKListMove then bindR (ReadListMove v) (\<lambda>(x, v). Inr (AListMove x, v))
      else if vk = VKListSet then bindR (ReadListSet v) (\<lambda>(x, v). Inr (AListSet x, v))
      else if vk = VKRawTreeMove then bindR (ReadRawTreeMove v) (\<lambda>(x, v). Inr (ARawTreeMove x, v))
      else if vk = VKDeltaInt then bindR (vr_I64 v) (\<lambda>(x, v). Inr (AVal (LI64 x), v))
      else if vk = VKContainer then bindR (vr_U64 v) (\<lambda>(x, v). Inr (AU64 x, v))
      else if vk = VKDeleteOnce \<or> vk = VKDeleteSeq then Inr (AVal LNull, v)
      else Inl (Errorf ''OpContent unhandled value kind''))"

section \<open>ValueWriter\<close>

text \<open>
  The writer's buffer, and the state \<open>'k\<close> behind its two callbacks: \<open>Key\<close> registers a key
  and returns its index, \<open>KeyOrder\<close> returns the order in which to write the keys of a map.
  Either may be nil.
\<close>

record 'k valueWriter =
  vw_buf :: bytes
  vw_arena :: 'k

type_synonym 'k keyfun = "'k \<Rightarrow> gostring \<Rightarrow> u64 \<times> 'k"
type_synonym 'k orderfun = "'k \<Rightarrow> (gostring \<times> lval) list \<Rightarrow> gostring list \<times> 'k"

definition vw_append :: "bytes \<Rightarrow> 'k valueWriter \<Rightarrow> 'k valueWriter" where
  "vw_append bs w = w\<lparr>vw_buf := vw_buf w @ bs\<rparr>"

text \<open>
  The loop of \<open>appendLEBSigned\<close> shifts its value arithmetically until only the sign is left;
  \<open>leb_size\<close> is the measure that decreases.
\<close>

definition leb_size :: "i64 \<Rightarrow> nat" where
  "leb_size v = nat (if sint v \<ge> 0 then sint v else - sint v - 1)"

lemma leb_size_shift:
  assumes "v \<noteq> 0" and "v \<noteq> - 1"
  shows "leb_size (signed_drop_bit 7 v) < leb_size v"
proof -
  define x where "x = sint v"
  define q where "q = x div 128"
  have q: "sint (signed_drop_bit 7 v) = q"
    by (simp only: sint_signed_drop_bit_eq drop_bit_eq_div q_def x_def) simp
  have "sint v \<noteq> sint (0 :: i64)" "sint v \<noteq> sint (- 1 :: i64)"
    using assms signed_word_eqI [of v 0] signed_word_eqI [of v "- 1"] by blast+
  then have "x \<noteq> 0" "x \<noteq> - 1" by (simp_all add: x_def)
  moreover have "x = 128 * q + x mod 128" "0 \<le> x mod 128" "x mod 128 < 128"
    by (simp_all add: q_def)
  ultimately show ?thesis
    unfolding leb_size_def q x_def [symmetric] by (auto split: if_splits)
qed

function appendLEBSigned :: "bytes \<Rightarrow> i64 \<Rightarrow> bytes" where
  "appendLEBSigned out v =
     (let b = ucast (v AND 0x7f) :: byte; v' = signed_drop_bit 7 v in
      if (v' = 0 \<and> b AND 0x40 = 0) \<or> (v' = - 1 \<and> b AND 0x40 \<noteq> 0) then out @ [b]
      else appendLEBSigned (out @ [b OR 0x80]) v')"
  by auto
termination
  by (relation "measure (\<lambda>(out, v). leb_size v)") (auto intro!: leb_size_shift)

declare appendLEBSigned.simps [simp del]

definition vw_U64 :: "u64 \<Rightarrow> 'k valueWriter \<Rightarrow> 'k valueWriter" where
  "vw_U64 v w = w\<lparr>vw_buf := AppendUvarint (vw_buf w) v\<rparr>"

definition vw_I64 :: "i64 \<Rightarrow> 'k valueWriter \<Rightarrow> 'k valueWriter" where
  "vw_I64 v w = w\<lparr>vw_buf := appendLEBSigned (vw_buf w) v\<rparr>"

definition vw_F64 :: "u64 \<Rightarrow> 'k valueWriter \<Rightarrow> 'k valueWriter" where
  "vw_F64 f w = vw_append (be_put 8 f) w"

definition vw_Str :: "gostring \<Rightarrow> 'k valueWriter \<Rightarrow> 'k valueWriter" where
  "vw_Str s w = vw_append s (vw_U64 (of_nat (length s)) w)"

definition vw_Binary :: "bytes \<Rightarrow> 'k valueWriter \<Rightarrow> 'k valueWriter" where
  "vw_Binary b w = vw_append b (vw_U64 (of_nat (length b)) w)"

text \<open>The check of an order that \<open>KeyOrder\<close> returned: every key of the map, once.\<close>

fun order_ok :: "(gostring \<times> lval) list \<Rightarrow> gostring list \<Rightarrow> gostring list \<Rightarrow> bool" where
  "order_ok m seen [] = True"
| "order_ok m seen (k # ks) =
     (if gm_get m k = None \<or> k \<in> set seen then False else order_ok m (k # seen) ks)"

definition mapKeys ::
  "'k orderfun option \<Rightarrow> (gostring \<times> lval) list \<Rightarrow> 'k valueWriter \<Rightarrow> (gostring list \<times> 'k valueWriter) res" where
  "mapKeys KeyOrder m w =
     (case KeyOrder of
        None \<Rightarrow> Inr (sort (map fst m), w)
      | Some f \<Rightarrow>
          (case f (vw_arena w) m of (order, a) \<Rightarrow>
             if length order \<noteq> length m then Inl (Errorf ''key order names a wrong number of keys'')
             else if \<not> order_ok m [] order then Inl (Errorf ''key order names a key the map does not hold once'')
             else Inr (order, w\<lparr>vw_arena := a\<rparr>)))"

text \<open>
  \<open>LoroValue\<close>: the writers of the elements run one after the other; the entries of a map are
  written in the order of its keys, each key registered first. A key the map does not hold
  would read as the nil value.
\<close>

fun seqR :: "('s \<Rightarrow> 's res) list \<Rightarrow> 's \<Rightarrow> 's res" where
  "seqR [] s = Inr s"
| "seqR (f # fs) s = bindR (f s) (seqR fs)"

fun vw_entries ::
  "'k keyfun \<Rightarrow> (gostring \<times> ('k valueWriter \<Rightarrow> 'k valueWriter res)) list \<Rightarrow> gostring list \<Rightarrow>
    'k valueWriter \<Rightarrow> 'k valueWriter res" where
  "vw_entries key ws [] w = Inr w"
| "vw_entries key ws (k # ks) w =
     (case key (vw_arena w) k of (i, a) \<Rightarrow>
        let w = vw_U64 i (w\<lparr>vw_arena := a\<rparr>) in
        bindR (case gm_get ws k of None \<Rightarrow> Inr (vw_append [lvNull] w) | Some f \<Rightarrow> f w)
          (vw_entries key ws ks))"

primrec vw_LoroValue ::
  "'k keyfun option \<Rightarrow> 'k orderfun option \<Rightarrow> lval \<Rightarrow> 'k valueWriter \<Rightarrow> 'k valueWriter res" where
  "vw_LoroValue Key KeyOrder LNull = (\<lambda>w. Inr (vw_append [lvNull] w))"
| "vw_LoroValue Key KeyOrder (LBool b) = (\<lambda>w. Inr (vw_append [if b then lvTrue else lvFalse] w))"
| "vw_LoroValue Key KeyOrder (LI64 x) = (\<lambda>w. Inr (vw_I64 x (vw_append [lvI64] w)))"
| "vw_LoroValue Key KeyOrder (LF64 x) = (\<lambda>w. Inr (vw_F64 x (vw_append [lvF64] w)))"
| "vw_LoroValue Key KeyOrder (LStr x) = (\<lambda>w. Inr (vw_Str x (vw_append [lvStr] w)))"
| "vw_LoroValue Key KeyOrder (LBin x) = (\<lambda>w. Inr (vw_Binary x (vw_append [lvBinary] w)))"
| "vw_LoroValue Key KeyOrder (LContainer x) = (\<lambda>w. Inr (vw_append [lvContainer, x] w))"
| "vw_LoroValue Key KeyOrder (LList xs) =
     (\<lambda>w. seqR (map (vw_LoroValue Key KeyOrder) xs)
        (vw_U64 (of_nat (length xs)) (vw_append [lvList] w)))"
| "vw_LoroValue Key KeyOrder (LMap m) =
     (\<lambda>w. case Key of
        None \<Rightarrow> Inl (Errorf ''a map value needs a key arena'')
      | Some key \<Rightarrow>
          bindR (mapKeys KeyOrder m w) (\<lambda>(order, w).
            vw_entries key (map (map_prod id (vw_LoroValue Key KeyOrder)) m) order
              (vw_U64 (of_nat (length m)) (vw_append [lvMap] w))))"
| "vw_LoroValue Key KeyOrder LOther = (\<lambda>w. Inl (Errorf ''cannot encode LoroValue of this type''))"

definition vw_Mark ::
  "'k keyfun option \<Rightarrow> 'k orderfun option \<Rightarrow> Mark \<Rightarrow> 'k valueWriter \<Rightarrow> 'k valueWriter res" where
  "vw_Mark Key KeyOrder m w =
     vw_LoroValue Key KeyOrder (m_Value m)
       (vw_U64 (m_KeyIdx m) (vw_U64 (m_Len m) (vw_append [m_Info m] w)))"

definition vw_ListMove :: "ListMove \<Rightarrow> 'k valueWriter \<Rightarrow> 'k valueWriter" where
  "vw_ListMove m w = vw_U64 (lm_Lamport m) (vw_U64 (lm_FromIdx m) (vw_U64 (lm_From m) w))"

definition vw_ListSet ::
  "'k keyfun option \<Rightarrow> 'k orderfun option \<Rightarrow> ListSet \<Rightarrow> 'k valueWriter \<Rightarrow> 'k valueWriter res" where
  "vw_ListSet Key KeyOrder s w =
     vw_LoroValue Key KeyOrder (ls_Value s) (vw_U64 (ls_Lamport s) (vw_U64 (ls_PeerIdx s) w))"

definition vw_RawTreeMove :: "RawTreeMove \<Rightarrow> 'k valueWriter \<Rightarrow> 'k valueWriter" where
  "vw_RawTreeMove m w =
     (let w = vw_U64 (rt_PositionIdx m) (vw_U64 (rt_SubjectCounter m) (vw_U64 (rt_SubjectPeerIdx m) w)) in
      if rt_ParentNull m then vw_append [1] w
      else vw_U64 (rt_ParentCounter m) (vw_U64 (rt_ParentPeerIdx m) (vw_append [0] w)))"

definition bad_kind :: "'a res" where
  "bad_kind = Inl (Errorf ''value kind cannot encode this type'')"

definition WriteOpContent ::
  "'k keyfun option \<Rightarrow> 'k orderfun option \<Rightarrow> byte \<Rightarrow> goany \<Rightarrow> 'k valueWriter \<Rightarrow> 'k valueWriter res" where
  "WriteOpContent Key KeyOrder vk v w =
     (if vk \<in> {VKNull, VKTrue, VKFalse, VKDeleteOnce, VKDeleteSeq} then Inr w
      else if vk = VKI64 \<or> vk = VKDeltaInt then
        (case v of AVal (LI64 x) \<Rightarrow> Inr (vw_I64 x w) | _ \<Rightarrow> bad_kind)
      else if vk = VKF64 then (case v of AVal (LF64 x) \<Rightarrow> Inr (vw_F64 x w) | _ \<Rightarrow> bad_kind)
      else if vk = VKStr then (case v of AVal (LStr x) \<Rightarrow> Inr (vw_Str x w) | _ \<Rightarrow> bad_kind)
      else if vk = VKBinary then (case v of AVal (LBin x) \<Rightarrow> Inr (vw_Binary x w) | _ \<Rightarrow> bad_kind)
      else if vk = VKLoroValue then
        (case v of AVal x \<Rightarrow> vw_LoroValue Key KeyOrder x w | _ \<Rightarrow> Inl (Errorf ''cannot encode LoroValue of this type''))
      else if vk = VKContainer then (case v of AU64 x \<Rightarrow> Inr (vw_U64 x w) | _ \<Rightarrow> bad_kind)
      else if vk = VKMarkStart then (case v of AMark x \<Rightarrow> vw_Mark Key KeyOrder x w | _ \<Rightarrow> bad_kind)
      else if vk = VKListMove then (case v of AListMove x \<Rightarrow> Inr (vw_ListMove x w) | _ \<Rightarrow> bad_kind)
      else if vk = VKListSet then (case v of AListSet x \<Rightarrow> vw_ListSet Key KeyOrder x w | _ \<Rightarrow> bad_kind)
      else if vk = VKRawTreeMove then (case v of ARawTreeMove x \<Rightarrow> Inr (vw_RawTreeMove x w) | _ \<Rightarrow> bad_kind)
      else Inl (Errorf ''OpContent encode unhandled value kind''))"

section \<open>Signed LEB128\<close>

lemma and_0x7f: "(w :: 'a::len word) AND 0x7f = take_bit 7 w"
  by (simp add: take_bit_eq_mask mask_eq_exp_minus_1)

definition low7 :: "i64 \<Rightarrow> byte" where
  "low7 u = ucast (u AND 0x7f)"

lemma bit_low7: "bit (low7 u) i \<longleftrightarrow> i < 7 \<and> bit u i"
  unfolding low7_def and_0x7f by (auto simp: bit_ucast_iff bit_take_bit_iff dest: bit_imp_le_length)

lemma and_exp_zero: "(w :: byte) AND 2 ^ n = 0 \<longleftrightarrow> \<not> bit w n"
  by (simp add: and_exp_eq_0_iff_not_bit)

lemma low7_facts:
  "low7 u AND 0x80 = 0" "low7 u AND 0x7f = low7 u" "low7 u AND 0x40 = 0 \<longleftrightarrow> \<not> bit u 6"
  "(low7 u OR 0x80) AND 0x80 \<noteq> 0" "(low7 u OR 0x80) AND 0x7f = low7 u"
proof -
  show "low7 u AND 0x80 = 0"
    using and_exp_zero [of "low7 u" 7] by (simp add: bit_low7)
  show "low7 u AND 0x7f = low7 u"
    unfolding and_0x7f by (rule bit_word_eqI) (auto simp: bit_take_bit_iff bit_low7)
  show "low7 u AND 0x40 = 0 \<longleftrightarrow> \<not> bit u 6"
    using and_exp_zero [of "low7 u" 6] by (simp add: bit_low7)
  have b: "bit (0x80 :: byte) i \<longleftrightarrow> i = 7" for i
    using bit_exp_iff [where 'a = byte, of 7 i] by auto
  show "(low7 u OR 0x80) AND 0x80 \<noteq> 0"
    using and_exp_zero [of "low7 u OR 0x80" 7] by (simp add: bit_or_iff b)
  show "(low7 u OR 0x80) AND 0x7f = low7 u"
    unfolding and_0x7f by (rule bit_word_eqI) (auto simp: bit_take_bit_iff bit_or_iff bit_low7 b)
qed

definition leb_stop :: "i64 \<Rightarrow> bool" where
  "leb_stop v \<longleftrightarrow> signed_drop_bit 7 v = 0 \<and> \<not> bit v 6 \<or> signed_drop_bit 7 v = - 1 \<and> bit v 6"

lemma appendLEBSigned_unfold:
  "appendLEBSigned out v =
    (if leb_stop v then out @ [low7 v]
     else appendLEBSigned (out @ [low7 v OR 0x80]) (signed_drop_bit 7 v))"
  by (subst appendLEBSigned.simps)
    (simp only: low7_def [symmetric] Let_def low7_facts leb_stop_def not_not)

lemma not_stop_size: "\<not> leb_stop v \<Longrightarrow> leb_size (signed_drop_bit 7 v) < leb_size v"
proof (rule leb_size_shift)
  have "bit (- 1 :: i64) 6" by (simp add: bit_minus_1_iff)
  then show "\<not> leb_stop v \<Longrightarrow> v \<noteq> 0" "\<not> leb_stop v \<Longrightarrow> v \<noteq> - 1"
    by (auto simp: leb_stop_def)
qed

lemma appendLEBSigned_append: "appendLEBSigned out v = out @ appendLEBSigned [] v"
proof (induction "leb_size v" arbitrary: out v rule: less_induct)
  case less
  show ?case
  proof (cases "leb_stop v")
    case True
    then show ?thesis by (simp add: appendLEBSigned_unfold)
  next
    case False
    note IH = less.hyps [OF not_stop_size [OF False]]
    show ?thesis
      using IH [of "out @ [low7 v OR 0x80]"] IH [of "[low7 v OR 0x80]"] False
      by (subst (1 2) appendLEBSigned_unfold) simp
  qed
qed

abbreviation leb_bytes :: "i64 \<Rightarrow> bytes" where
  "leb_bytes v \<equiv> appendLEBSigned [] v"

lemma leb_bytes_unfold:
  "leb_bytes v =
    (if leb_stop v then [low7 v] else (low7 v OR 0x80) # leb_bytes (signed_drop_bit 7 v))"
  by (subst appendLEBSigned_unfold)
    (use appendLEBSigned_append [of "[low7 v OR 0x80]"] in simp)

lemma leb_bytes_nonempty [simp]: "leb_bytes v \<noteq> []"
  by (subst leb_bytes_unfold) simp

text \<open>Above the bit \<open>63 - s\<close> there is only the sign, after \<open>s\<close> bits have been shifted out.\<close>

definition sign_above :: "nat \<Rightarrow> i64 \<Rightarrow> bool" where
  "sign_above s u \<longleftrightarrow> (\<forall>i. 63 - s \<le> i \<and> i < 64 \<longrightarrow> bit u i = bit u 63)"

lemma sign_aboveD: "sign_above s u \<Longrightarrow> 63 - s \<le> i \<Longrightarrow> i < 64 \<Longrightarrow> bit u i = bit u 63"
  unfolding sign_above_def by blast

lemma leb_stop_bits: "leb_stop u \<Longrightarrow> 7 \<le> i \<Longrightarrow> i < 64 \<Longrightarrow> bit u i = bit u 6"
proof -
  assume stop: "leb_stop u" and i: "7 \<le> i" "i < 64"
  have "bit (signed_drop_bit 7 u) (i - 7) = bit u (7 + (i - 7))"
  proof -
    have "\<not> 57 \<le> i - 7" using i by arith
    then show ?thesis by (subst bit_signed_drop_bit_iff) simp
  qed
  then have b: "bit (signed_drop_bit 7 u) (i - 7) = bit u i" using i by simp
  have "bit (- 1 :: i64) (i - 7)" using i by (subst bit_minus_1_iff) simp
  moreover have "\<not> bit (0 :: i64) (i - 7)" by simp
  ultimately show ?thesis
    using stop b unfolding leb_stop_def by metis
qed

lemma sign_above_63: "sign_above 63 u \<Longrightarrow> leb_stop u"
proof -
  assume "sign_above 63 u"
  have b: "bit u i = bit u 63" if "i < 64" for i
    by (rule sign_aboveD [OF \<open>sign_above 63 u\<close> _ that]) simp
  have m: "bit (- 1 :: i64) i" if "i < 64" for i
    using that by (subst bit_minus_1_iff) simp
  show ?thesis
  proof (cases "bit u 63")
    case True
    have "u = - 1"
    proof (rule bit_word_eqI)
      fix i
      assume "i < LENGTH(64)"
      then have i: "i < 64" by simp
      show "bit u i = bit (- 1 :: i64) i" using b [OF i] m [OF i] True by blast
    qed
    moreover have "bit (- 1 :: i64) 6" by (rule m) simp
    ultimately show ?thesis by (simp add: leb_stop_def)
  next
    case False
    have "u = 0"
    proof (rule bit_word_eqI)
      fix i
      assume "i < LENGTH(64)"
      then have i: "i < 64" by simp
      have "\<not> bit (0 :: i64) i" by simp
      then show "bit u i = bit (0 :: i64) i" using b [OF i] False by blast
    qed
    then show ?thesis by (simp add: leb_stop_def)
  qed
qed

lemma sign_above_shift:
  assumes "sign_above s u" and "s + 7 \<le> 63"
  shows "sign_above (s + 7) (signed_drop_bit 7 u)"
  unfolding sign_above_def
proof (intro allI impI)
  fix i
  assume i: "63 - (s + 7) \<le> i \<and> i < 64"
  have "bit (signed_drop_bit 7 u) 63 = bit u 63"
    by (simp add: bit_signed_drop_bit_iff)
  moreover have "bit (signed_drop_bit 7 u) i = bit u 63"
  proof (cases "57 \<le> i")
    case True
    with i show ?thesis by (simp add: bit_signed_drop_bit_iff)
  next
    case False
    with i assms(2) have i7: "63 - s \<le> 7 + i" "7 + i < 64" by arith+
    have "bit (signed_drop_bit 7 u) i = bit u (7 + i)"
      using False by (subst bit_signed_drop_bit_iff) simp
    also have "\<dots> = bit u 63" by (rule sign_aboveD [OF assms(1) i7])
    finally show ?thesis .
  qed
  ultimately show "bit (signed_drop_bit 7 u) i = bit (signed_drop_bit 7 u) 63" by simp
qed

lemma leb_loop_reads:
  "s \<le> 63 \<Longrightarrow> s mod 7 = 0 \<Longrightarrow> sign_above s u \<Longrightarrow>
    parses (leb_loop x s) (leb_bytes u) (x OR push_bit s u)"
proof (induction "leb_size u" arbitrary: u s x rule: less_induct)
  case less
  have step: "leb_loop x s r = bindR (reader_Byte r) (\<lambda>(b, r).
       let result = x OR push_bit s (ucast (b AND 0x7f)); shift = s + 7 in
       if b AND 0x80 = 0 then
         Inr (if shift < 64 \<and> b AND 0x40 \<noteq> 0 then result OR push_bit shift (- 1) else result, r)
       else if shift \<ge> 64 then Inl (Errorf ''i64 leb128 overflow'')
       else leb_loop result shift r)" for r
    by (rule leb_loop.simps)
  have bl: "bit (ucast (low7 u) :: i64) i \<longleftrightarrow> i < 7 \<and> bit u i" for i
    by (auto simp: bit_ucast_iff bit_low7 dest: bit_imp_le_length)
  show ?case
  proof (cases "leb_stop u")
    case True
    have res: "(if s + 7 < 64 \<and> low7 u AND 0x40 \<noteq> 0
        then (x OR push_bit s (ucast (low7 u))) OR push_bit (s + 7) (- 1)
        else x OR push_bit s (ucast (low7 u))) = x OR push_bit s u"
    proof (rule bit_word_eqI)
      fix i
      assume "i < LENGTH(64)"
      then have i: "i < 64" by simp
      have sg: "bit (low7 u) 6 = bit u 6" by (simp add: bit_low7)
      have m: "bit (push_bit (s + 7) (- 1 :: i64)) i \<longleftrightarrow> s + 7 \<le> i"
      proof -
        have "i - (s + 7) < 64" using i by arith
        then show ?thesis using i by (subst bit_push_bit_iff) (simp add: bit_minus_1_iff)
      qed
      show "bit (if s + 7 < 64 \<and> low7 u AND 0x40 \<noteq> 0
          then (x OR push_bit s (ucast (low7 u))) OR push_bit (s + 7) (- 1)
          else x OR push_bit s (ucast (low7 u))) i = bit (x OR push_bit s u) i"
      proof (cases "s + 7 \<le> i")
        case True
        have "bit u (i - s) = bit u 6"
          using leb_stop_bits [OF \<open>leb_stop u\<close>, of "i - s"] True i by simp
        with True i show ?thesis
          unfolding low7_facts by (simp only: bit_or_iff m bit_push_bit_iff bl split: if_split) auto
      next
        case False
        with i show ?thesis
          unfolding low7_facts by (simp only: bit_or_iff m bit_push_bit_iff bl split: if_split) auto
      qed
    qed
    have "parses (leb_loop x s) [low7 u] (x OR push_bit s u)"
      by (rule parses_cong [OF parses_bindR_last [OF reader_Byte_parses] step [symmetric]])
        (simp only: case_prod_conv Let_def low7_facts(1,2) simp_thms if_True res)
    then show ?thesis
      unfolding leb_bytes_unfold [of u] using True by (simp only: if_True)
  next
    case False
    then have "s \<noteq> 63" using sign_above_63 less.prems(3) by blast
    moreover have "s \<le> 56"
    proof -
      obtain k where "s = 7 * k" using less.prems(2) by auto
      with less.prems(1) \<open>s \<noteq> 63\<close> show ?thesis by simp
    qed
    ultimately have s7: "s + 7 \<le> 63" by simp
    let ?x = "x OR push_bit s (ucast (low7 u)) :: i64"
    have "parses (leb_loop ?x (s + 7)) (leb_bytes (signed_drop_bit 7 u))
        (?x OR push_bit (s + 7) (signed_drop_bit 7 u))"
      using less.prems s7 by (intro less.hyps not_stop_size False sign_above_shift) simp_all
    moreover have "?x OR push_bit (s + 7) (signed_drop_bit 7 u) = x OR push_bit s u"
    proof (rule bit_word_eqI)
      fix i
      assume "i < LENGTH(64)"
      then have i: "i < 64" by simp
      have "bit (signed_drop_bit 7 u) (i - (s + 7)) = bit u (i - s)" if "s + 7 \<le> i"
        using that i by (auto simp: bit_signed_drop_bit_iff intro: arg_cong [where f = "bit u"])
      then show "bit (?x OR push_bit (s + 7) (signed_drop_bit 7 u)) i = bit (x OR push_bit s u) i"
        using i by (cases "s + 7 \<le> i") (auto simp: bit_or_iff bit_push_bit_iff bl)
    qed
    ultimately have IH: "parses (leb_loop ?x (s + 7)) (leb_bytes (signed_drop_bit 7 u)) (x OR push_bit s u)"
      by simp
    have "parses (leb_loop x s) ([low7 u OR 0x80] @ leb_bytes (signed_drop_bit 7 u)) (x OR push_bit s u)"
      by (rule parses_cong [OF parses_bindR [OF reader_Byte_parses] step [symmetric]])
        (use IH s7 in \<open>simp add: low7_facts Let_def\<close>)
    then show ?thesis
      unfolding leb_bytes_unfold [of u] using False by simp
  qed
qed

lemma leb_reads_back: "parses (leb_loop 0 0) (leb_bytes v) v"
proof -
  have "sign_above 0 v"
    unfolding sign_above_def
  proof (intro allI impI)
    fix i :: nat
    assume "63 - 0 \<le> i \<and> i < 64"
    then have "i = 63" by simp
    then show "bit v i = bit v 63" by simp
  qed
  from leb_loop_reads [OF _ _ this, of 0] show ?thesis by simp
qed


end
