(* ===== verification/LoroTypes.thy ===== *)
theory LoroTypes
  imports ChangeValue ChangeArena
begin

text \<open>
  The data of package \<open>loro\<close> (\<open>decode.go\<close>): ids, decoded ops with what their values can be,
  changes, and decoded blobs. Go's \<open>int64\<close> fields are words; \<open>any\<close> is \<open>opval\<close>.
\<close>

record ID =
  Peer :: u64
  Counter :: i64

record DeleteSpan =
  ds_Peer :: u64
  ds_Counter :: i64
  ds_Len :: i64

record TreeNode =
  tn_ID :: gostring
  tn_HasParent :: bool
  tn_Parent :: gostring
  tn_FI :: gostring

record ListElem =
  le_Peer :: u64
  le_Lamport :: i64

record ListSetValue =
  sv_Elem :: ListElem
  sv_Value :: lval

record MarkInfo =
  mi_Start :: i64
  mi_Len :: i64
  mi_Key :: gostring
  mi_Value :: lval
  mi_Info :: byte

text \<open>What the field \<open>Value\<close> of an op can hold.\<close>

datatype opval =
    OVal lval
  | OU64 u64
  | ODelete DeleteSpan
  | OTree TreeNode
  | OElem ListElem
  | OSet ListSetValue
  | OMark MarkInfo

record Op =
  op_Container :: gostring
  op_IsRoot :: bool
  op_Kind :: ContainerType
  op_VKind :: byte
  op_Pos :: i64
  op_MapKey :: gostring
  op_Value :: opval
  op_MoveFrom :: i64
  op_Len :: i64
  op_Peer :: u64
  op_Counter :: i64
  op_Lamport :: i64

record Change =
  ch_ID :: ID
  ch_Lamport :: i64
  ch_Timestamp :: i64
  ch_Deps :: "ID list"
  ch_CommitMsg :: gostring
  ch_Ops :: "Op list"

text \<open>\<open>Blocks\<close> may be nil.\<close>

record Updates =
  u_Changes :: "Change list"
  u_Blocks :: "int list option"

text \<open>Signed comparison, as Go compares \<open>int64\<close>; words compare unsigned.\<close>

abbreviation sless :: "i64 \<Rightarrow> i64 \<Rightarrow> bool" where
  "sless a b \<equiv> sint a < sint b"

abbreviation sleq :: "i64 \<Rightarrow> i64 \<Rightarrow> bool" where
  "sleq a b \<equiv> sint a \<le> sint b"

definition smax :: "i64 \<Rightarrow> i64 \<Rightarrow> i64" where
  "smax a b = (if sless a b then b else a)"

definition smin :: "i64 \<Rightarrow> i64 \<Rightarrow> i64" where
  "smin a b = (if sless b a then b else a)"

lemma sint_smax: "sint (smax a b) = max (sint a) (sint b)"
  by (simp add: smax_def)

lemma sint_smin: "sint (smin a b) = min (sint a) (sint b)"
  by (simp add: smin_def)

end
