(* ===== verification/GoText.thy ===== *)
theory GoText
  imports Prelude
begin

text \<open>
  What the program uses of Go's text packages: \<open>unicode/utf8\<close> (decoding, counting and validity
  of runes, \<open>[]rune(s)\<close> and back), \<open>%d\<close> of \<open>fmt\<close>, upper-case hexadecimal, and \<open>strconv\<close>'s
  parsing of decimal numbers. A rune is a natural number, a string its bytes; an invalid
  encoding decodes to U+FFFD and takes one byte, as in Go.
\<close>

section \<open>UTF-8\<close>

definition rune_error :: nat where "rune_error = 0xFFFD"

text \<open>For a first byte past ASCII: the length of the encoding and the range of its second byte.\<close>

definition first_info :: "nat \<Rightarrow> (nat \<times> nat \<times> nat) option" where
  "first_info a =
     (if 0xC2 \<le> a \<and> a \<le> 0xDF then Some (2, 0x80, 0xBF)
      else if a = 0xE0 then Some (3, 0xA0, 0xBF)
      else if a = 0xED then Some (3, 0x80, 0x9F)
      else if 0xE1 \<le> a \<and> a \<le> 0xEF then Some (3, 0x80, 0xBF)
      else if a = 0xF0 then Some (4, 0x90, 0xBF)
      else if 0xF1 \<le> a \<and> a \<le> 0xF3 then Some (4, 0x80, 0xBF)
      else if a = 0xF4 then Some (4, 0x80, 0x8F)
      else None)"

definition is_cont :: "nat \<Rightarrow> bool" where
  "is_cont b \<longleftrightarrow> 0x80 \<le> b \<and> b \<le> 0xBF"

fun decode_rune :: "gostring \<Rightarrow> nat \<times> nat" where
  "decode_rune [] = (rune_error, 0)"
| "decode_rune (c0 # s) =
     (let a = unat c0 in
      if a < 0x80 then (a, 1)
      else case first_info a of
        None \<Rightarrow> (rune_error, 1)
      | Some (n, lo, hi) \<Rightarrow>
          if length s < n - 1 then (rune_error, 1)
          else let b = unat (s ! 0) in
            if b < lo \<or> hi < b then (rune_error, 1)
            else if n = 2 then (a mod 32 * 64 + b mod 64, 2)
            else let c = unat (s ! 1) in
              if \<not> is_cont c then (rune_error, 1)
              else if n = 3 then (a mod 16 * 4096 + b mod 64 * 64 + c mod 64, 3)
              else let d = unat (s ! 2) in
                if \<not> is_cont d then (rune_error, 1)
                else (a mod 8 * 262144 + b mod 64 * 4096 + c mod 64 * 64 + d mod 64, 4))"

declare decode_rune.simps(2) [simp del]

lemma decode_rune_size: "s \<noteq> [] \<Longrightarrow> 0 < snd (decode_rune s) \<and> snd (decode_rune s) \<le> length s"
proof (cases s)
  case (Cons c0 t)
  consider "unat c0 < 0x80" | "first_info (unat c0) = None" | n lo hi where "first_info (unat c0) = Some (n, lo, hi)"
    by (cases "first_info (unat c0)") auto
  then show ?thesis
  proof cases
    case 3
    then have "n = 2 \<or> n = 3 \<or> n = 4" by (auto simp: first_info_def split: if_splits)
    then show ?thesis using 3 by (elim disjE) (auto simp: Cons decode_rune.simps(2) Let_def Suc_le_eq)
  qed (auto simp: Cons decode_rune.simps(2) Let_def split: option.splits)
qed simp

text \<open>\<open>[]rune(s)\<close>, \<open>utf8.RuneCountInString\<close>, \<open>utf8.ValidString\<close>.\<close>

function runes :: "gostring \<Rightarrow> nat list" where
  "runes s = (if s = [] then [] else let (r, n) = decode_rune s in r # runes (drop n s))"
  by pat_completeness auto
termination
proof (relation "measure length")
  fix s :: gostring and x r n
  assume "s \<noteq> []" "x = decode_rune s" "(r, n) = x"
  then show "(drop n s, s) \<in> measure length"
    using decode_rune_size [of s] by (cases "decode_rune s") auto
qed simp

declare runes.simps [simp del]

definition rune_count :: "gostring \<Rightarrow> nat" where
  "rune_count s = length (runes s)"

function valid_utf8 :: "gostring \<Rightarrow> bool" where
  "valid_utf8 s = (if s = [] then True
     else let (r, n) = decode_rune s in (r \<noteq> rune_error \<or> n \<noteq> 1) \<and> valid_utf8 (drop n s))"
  by pat_completeness auto
termination
proof (relation "measure length")
  fix s :: gostring and x r n
  assume "s \<noteq> []" "x = decode_rune s" "(r, n) = x"
  then show "(drop n s, s) \<in> measure length"
    using decode_rune_size [of s] by (cases "decode_rune s") auto
qed simp

declare valid_utf8.simps [simp del]

text \<open>\<open>string(r)\<close>\<close>

definition is_rune :: "nat \<Rightarrow> bool" where
  "is_rune r \<longleftrightarrow> r < 0xD800 \<or> 0xE000 \<le> r \<and> r \<le> 0x10FFFF"

definition encode_rune :: "nat \<Rightarrow> gostring" where
  "encode_rune r =
     (if r < 0x80 then [of_nat r]
      else if r < 0x800 then [of_nat (0xC0 + r div 64), of_nat (0x80 + r mod 64)]
      else if \<not> is_rune r then [0xEF, 0xBF, 0xBD]
      else if r < 0x10000 then
        [of_nat (0xE0 + r div 4096), of_nat (0x80 + r div 64 mod 64), of_nat (0x80 + r mod 64)]
      else [of_nat (0xF0 + r div 262144), of_nat (0x80 + r div 4096 mod 64),
        of_nat (0x80 + r div 64 mod 64), of_nat (0x80 + r mod 64)])"

definition string_of_runes :: "nat list \<Rightarrow> gostring" where
  "string_of_runes rs = concat (map encode_rune rs)"

subsection \<open>Encoding and decoding\<close>

lemma unat_byte: "k < 256 \<Longrightarrow> unat (of_nat k :: byte) = k"
  by (rule unat_of_nat_fits) simp

lemma decode_bytes:
  "a < 0x80 \<Longrightarrow> decode_rune (of_nat a # s) = (a, 1)"
  "\<lbrakk>a < 256; b < 256; 0x80 \<le> a; first_info a = Some (2, lo, hi); lo \<le> b; b \<le> hi\<rbrakk> \<Longrightarrow>
    decode_rune (of_nat a # of_nat b # s) = (a mod 32 * 64 + b mod 64, 2)"
  "\<lbrakk>a < 256; b < 256; c < 256; 0x80 \<le> a; first_info a = Some (3, lo, hi); lo \<le> b; b \<le> hi; is_cont c\<rbrakk> \<Longrightarrow>
    decode_rune (of_nat a # of_nat b # of_nat c # s) = (a mod 16 * 4096 + b mod 64 * 64 + c mod 64, 3)"
  "\<lbrakk>a < 256; b < 256; c < 256; d < 256; 0x80 \<le> a; first_info a = Some (4, lo, hi); lo \<le> b; b \<le> hi; is_cont c; is_cont d\<rbrakk> \<Longrightarrow>
    decode_rune (of_nat a # of_nat b # of_nat c # of_nat d # s) =
      (a mod 8 * 262144 + b mod 64 * 4096 + c mod 64 * 64 + d mod 64, 4)"
  by (simp_all add: decode_rune.simps(2) unat_byte Let_def)

lemma mod_offset: "k < m \<Longrightarrow> (m * j + k) mod m = (k :: nat)"
  by simp

lemma div64: "r div 4096 = r div 64 div (64 :: nat)" "r div 262144 = r div 4096 div (64 :: nat)"
  using div_mult2_eq [of r 64 64] div_mult2_eq [of r 4096 64] by simp_all

lemma decode_encode:
  assumes "is_rune r"
  shows "decode_rune (encode_rune r @ s) = (r, length (encode_rune r))"
proof -
  have big: "r \<le> 0x10FFFF" using assms by (auto simp: is_rune_def)
  define x where "x = r mod 64"
  define y where "y = r div 64 mod 64"
  define z where "z = r div 4096 mod 64"
  have lt: "x < 64" "y < 64" "z < 64" by (simp_all add: x_def y_def z_def)
  have m: "(0x80 + k) mod 64 = k" if "k < 64" for k :: nat using mod_offset [OF that, of 2] by simp
  consider "r < 0x80" | "0x80 \<le> r" "r < 0x800" | "0x800 \<le> r" "r < 0x10000" | "0x10000 \<le> r" by linarith
  then show ?thesis
  proof cases
    case 1
    then show ?thesis by (simp add: encode_rune_def decode_bytes(1))
  next
    case 2
    define q where "q = r div 64"
    have rq: "r = 64 * q + x" by (simp add: q_def x_def)
    have q: "2 \<le> q" "q < 32" using 2 rq lt by linarith+
    have e: "encode_rune r = [of_nat (0xC0 + q), of_nat (0x80 + x)]"
      using 2 by (simp add: encode_rune_def q_def x_def)
    have f: "first_info (0xC0 + q) = Some (2, 0x80, 0xBF)" using q by (simp add: first_info_def)
    have "decode_rune (encode_rune r @ s) = ((0xC0 + q) mod 32 * 64 + (0x80 + x) mod 64, 2)"
      unfolding e append.simps by (rule decode_bytes(2) [OF _ _ _ f]) (use q lt in simp_all)
    moreover have "(0xC0 + q) mod 32 = q" using mod_offset [OF q(2), of 6] by simp
    moreover have "q * 64 + x = r" using rq by simp
    ultimately show ?thesis by (simp only: m [OF lt(1)]) (simp add: e)
  next
    case 3
    define q where "q = r div 4096"
    have "r div 64 = 64 * q + y" by (simp add: q_def y_def div64)
    then have rq: "r = 4096 * q + 64 * y + x" using div_mult_mod_eq [of r 64] by (simp add: x_def)
    have q: "q < 16" using 3 rq by linarith
    have e: "encode_rune r = [of_nat (0xE0 + q), of_nat (0x80 + y), of_nat (0x80 + x)]"
      using 3 assms by (simp add: encode_rune_def q_def x_def y_def)
    obtain lo hi where f: "first_info (0xE0 + q) = Some (3, lo, hi)" "lo \<le> 0x80 + y" "0x80 + y \<le> hi"
    proof -
      consider "q = 0" "32 \<le> y" | "q = 13" "y < 32" | "q \<noteq> 0" "q \<noteq> 13"
        using 3 rq lt assms unfolding is_rune_def by linarith
      then show ?thesis
      proof cases
        case 1
        then show ?thesis using lt by (intro that [of "0xA0" "0xBF"]) (simp_all add: first_info_def)
      next
        case 2
        then show ?thesis by (intro that [of "0x80" "0x9F"]) (simp_all add: first_info_def)
      next
        case 3
        then show ?thesis using q lt by (intro that [of "0x80" "0xBF"]) (simp_all add: first_info_def)
      qed
    qed
    have "decode_rune (encode_rune r @ s) = ((0xE0 + q) mod 16 * 4096 + (0x80 + y) mod 64 * 64 + (0x80 + x) mod 64, 3)"
      unfolding e append.simps by (rule decode_bytes(3) [OF _ _ _ _ f]) (use q lt in \<open>simp_all add: is_cont_def\<close>)
    moreover have "(0xE0 + q) mod 16 = q" using mod_offset [OF q, of 14] by simp
    moreover have "q * 4096 + y * 64 + x = r" using rq by simp
    ultimately show ?thesis by (simp only: m [OF lt(1)] m [OF lt(2)]) (simp add: e)
  next
    case 4
    define q where "q = r div 262144"
    have "r div 4096 = 64 * q + z" by (simp add: q_def z_def div64(2))
    moreover have "r div 64 = 64 * (r div 4096) + y" by (simp add: y_def div64(1))
    ultimately have rq: "r = 262144 * q + 4096 * z + 64 * y + x"
      using div_mult_mod_eq [of r 64] by (simp add: x_def)
    have q: "q \<le> 4" using big rq by linarith
    have e: "encode_rune r = [of_nat (0xF0 + q), of_nat (0x80 + z), of_nat (0x80 + y), of_nat (0x80 + x)]"
      using 4 assms by (simp add: encode_rune_def q_def x_def y_def z_def)
    obtain lo hi where f: "first_info (0xF0 + q) = Some (4, lo, hi)" "lo \<le> 0x80 + z" "0x80 + z \<le> hi"
    proof -
      consider "q = 0" "16 \<le> z" | "q = 4" "z < 16" | "q \<noteq> 0" "q < 4"
        using 4 big rq lt by linarith
      then show ?thesis
      proof cases
        case 1
        then show ?thesis using lt by (intro that [of "0x90" "0xBF"]) (simp_all add: first_info_def)
      next
        case 2
        then show ?thesis by (intro that [of "0x80" "0x8F"]) (simp_all add: first_info_def)
      next
        case 3
        then show ?thesis using lt by (intro that [of "0x80" "0xBF"]) (simp_all add: first_info_def)
      qed
    qed
    have "decode_rune (encode_rune r @ s) = ((0xF0 + q) mod 8 * 262144 + (0x80 + z) mod 64 * 4096 +
        (0x80 + y) mod 64 * 64 + (0x80 + x) mod 64, 4)"
      unfolding e append.simps by (rule decode_bytes(4) [OF _ _ _ _ _ f]) (use q lt in \<open>simp_all add: is_cont_def\<close>)
    moreover have "(0xF0 + q) mod 8 = q" using mod_offset [of q 8 30] q by simp
    moreover have "q * 262144 + z * 4096 + y * 64 + x = r" using rq by simp
    ultimately show ?thesis by (simp only: m [OF lt(1)] m [OF lt(2)] m [OF lt(3)]) (simp add: e)
  qed
qed


lemma encode_rune_nonempty [simp]: "encode_rune r \<noteq> []"
  by (simp add: encode_rune_def)

lemma runes_encode: "is_rune r \<Longrightarrow> runes (encode_rune r @ s) = r # runes s"
  by (subst runes.simps) (simp add: decode_encode)

lemma runes_Nil [simp]: "runes [] = []"
  by (subst runes.simps) simp

lemma runes_string [simp]: "\<forall>r\<in>set rs. is_rune r \<Longrightarrow> runes (string_of_runes rs @ s) = rs @ runes s"
  by (induction rs) (simp_all add: string_of_runes_def runes_encode)

lemma runes_string_of_runes: "\<forall>r\<in>set rs. is_rune r \<Longrightarrow> runes (string_of_runes rs) = rs"
  using runes_string [of rs "[]"] by simp

text \<open>What decodes is a rune, and in a valid string its bytes are that rune's.\<close>

lemma first_info_ranges:
  "first_info a = Some (n, lo, hi) \<Longrightarrow> 0xC2 \<le> a \<and> a \<le> 0xF4 \<and> 0x80 \<le> lo \<and> hi \<le> 0xBF \<and>
    (n = 2 \<and> a \<le> 0xDF \<or> n = 3 \<and> 0xE0 \<le> a \<and> a \<le> 0xEF \<or> n = 4 \<and> 0xF0 \<le> a) \<and>
    (a = 0xE0 \<longrightarrow> 0xA0 \<le> lo) \<and> (a = 0xED \<longrightarrow> hi \<le> 0x9F) \<and> (a = 0xF0 \<longrightarrow> 0x90 \<le> lo) \<and> (a = 0xF4 \<longrightarrow> hi \<le> 0x8F)"
  by (auto simp: first_info_def split: if_splits)

lemma digit_split:
  fixes q x :: nat
  assumes "x < 64"
  shows "(q * 64 + x) mod 64 = x" "(q * 64 + x) div 64 = q"
  using assms by simp_all

lemma is_byte: obtains k where "c = (of_nat k :: byte)" "k < 256" "unat c = k"
  using that [of "unat c"] unsigned_less [of c] by simp

text \<open>The bytes of an encoding from the parts of its rune.\<close>

lemma encode_parts:
  assumes "x < 64"
  shows "2 \<le> q \<Longrightarrow> q < 32 \<Longrightarrow> encode_rune (q * 64 + x) = [of_nat (0xC0 + q), of_nat (0x80 + x)]"
    and "\<lbrakk>y < 64; q < 16; is_rune (q * 4096 + y * 64 + x); 0x800 \<le> q * 4096 + y * 64 + x\<rbrakk> \<Longrightarrow>
      encode_rune (q * 4096 + y * 64 + x) = [of_nat (0xE0 + q), of_nat (0x80 + y), of_nat (0x80 + x)]"
    and "\<lbrakk>y < 64; z < 64; is_rune (q * 262144 + z * 4096 + y * 64 + x); 0x10000 \<le> q * 262144 + z * 4096 + y * 64 + x\<rbrakk> \<Longrightarrow>
      encode_rune (q * 262144 + z * 4096 + y * 64 + x) =
        [of_nat (0xF0 + q), of_nat (0x80 + z), of_nat (0x80 + y), of_nat (0x80 + x)]"
proof -
  note d = digit_split [OF assms]
  show "encode_rune (q * 64 + x) = [of_nat (0xC0 + q), of_nat (0x80 + x)]" if "2 \<le> q" "q < 32"
  proof -
    have "\<not> q * 64 + x < 0x80" "q * 64 + x < 0x800" using that assms by linarith+
    then show ?thesis unfolding encode_rune_def by (simp only: d if_True if_False)
  qed
  show "encode_rune (q * 4096 + y * 64 + x) = [of_nat (0xE0 + q), of_nat (0x80 + y), of_nat (0x80 + x)]"
    if h: "y < 64" "q < 16" "is_rune (q * 4096 + y * 64 + x)" "0x800 \<le> q * 4096 + y * 64 + x"
  proof -
    define r where "r = q * 4096 + y * 64 + x"
    have r: "r = (q * 64 + y) * 64 + x" by (simp add: r_def)
    have "r mod 64 = x" "r div 64 = q * 64 + y" using digit_split [OF assms, of "q * 64 + y"] by (simp_all only: r)
    then have p: "r mod 64 = x" "r div 64 mod 64 = y" "r div 4096 = q"
      using digit_split [OF h(1), of q] by (simp_all only: div64)
    have "\<not> r < 0x80" "\<not> r < 0x800" "r < 0x10000" using h assms by (simp_all add: r_def)
    then show ?thesis using h(3) unfolding r_def [symmetric] encode_rune_def by (simp only: p if_True if_False not_True_eq_False)
  qed
  show "encode_rune (q * 262144 + z * 4096 + y * 64 + x) =
        [of_nat (0xF0 + q), of_nat (0x80 + z), of_nat (0x80 + y), of_nat (0x80 + x)]"
    if h: "y < 64" "z < 64" "is_rune (q * 262144 + z * 4096 + y * 64 + x)" "0x10000 \<le> q * 262144 + z * 4096 + y * 64 + x"
  proof -
    define r where "r = q * 262144 + z * 4096 + y * 64 + x"
    have r: "r = ((q * 64 + z) * 64 + y) * 64 + x" by (simp add: r_def)
    have "r mod 64 = x" "r div 64 = (q * 64 + z) * 64 + y"
      using digit_split [OF assms, of "(q * 64 + z) * 64 + y"] by (simp_all only: r)
    then have p: "r mod 64 = x" "r div 64 mod 64 = y" "r div 4096 mod 64 = z" "r div 262144 = q"
      using digit_split [OF h(1), of "q * 64 + z"] digit_split [OF h(2), of q] by (simp_all only: div64)
    have "\<not> r < 0x80" "\<not> r < 0x800" "\<not> r < 0x10000" using h by (simp_all add: r_def)
    then show ?thesis using h(3) unfolding r_def [symmetric] encode_rune_def by (simp only: p if_True if_False not_True_eq_False)
  qed
qed

lemma decode_cases:
  assumes "s \<noteq> []"
  obtains (err) "decode_rune s = (rune_error, 1)"
  | (rune) r t where "is_rune r" "s = encode_rune r @ t" "decode_rune s = (r, length (encode_rune r))"
proof -
  obtain c0 t where s: "s = c0 # t" using assms by (cases s) auto
  define a where "a = unat c0"
  have a: "a < 256" "c0 = of_nat a" using unsigned_less [of c0] by (simp_all add: a_def)
  show thesis
  proof (cases "a < 0x80")
    case True
    then have "is_rune a" "s = encode_rune a @ t" by (simp_all add: is_rune_def encode_rune_def s a(2))
    with decode_encode [of a t] show ?thesis by (intro rune) simp_all
  next
    case a80: False
    show ?thesis
    proof (cases "decode_rune s = (rune_error, 1)")
      case True
      then show ?thesis by (rule err)
    next
      case False
      then obtain n lo hi where f: "first_info a = Some (n, lo, hi)"
        using a80 by (cases "first_info a") (auto simp: s decode_rune.simps(2) a_def [symmetric])
      note fr = first_info_ranges [OF f]
      from False f a80 have len: "n - 1 \<le> length t" and b: "lo \<le> unat (t ! 0)" "unat (t ! 0) \<le> hi"
        and c: "n \<noteq> 2 \<Longrightarrow> is_cont (unat (t ! 1))" and d: "n \<noteq> 2 \<Longrightarrow> n \<noteq> 3 \<Longrightarrow> is_cont (unat (t ! 2))"
        by (auto simp: s decode_rune.simps(2) a_def [symmetric] Let_def not_less split: if_splits)
      define x where "x k = unat (t ! k) - 0x80" for k
      have byte: "unat (t ! k) = 0x80 + x k \<and> t ! k = of_nat (0x80 + x k) \<and> x k < 64" if "is_cont (unat (t ! k))" for k
      proof -
        have "0x80 + x k = unat (t ! k)" using that by (simp add: x_def is_cont_def)
        then show ?thesis using that by (auto simp: is_cont_def simp del: of_nat_add)
      qed
      have "is_cont (unat (t ! 0))" using b fr by (simp add: is_cont_def)
      note b' = byte [OF this]
      have fin: thesis if "is_rune r" "s = encode_rune r @ u" for r u
        using that decode_encode [OF that(1), of u] by (intro rune) simp_all
      consider "n = 2" | "n = 3" | "n = 4" using fr by auto
      then show ?thesis
      proof cases
        case 1
        define q where "q = a - 0xC0"
        have q: "a = 0xC0 + q" "2 \<le> q" "q < 32" using fr 1 by (auto simp: q_def)
        have "t = t ! 0 # drop 1 t" using len 1 by (cases t) simp_all
        then have "s = encode_rune (q * 64 + x 0) @ drop 1 t"
          using b' encode_parts(1) [OF conjunct2 [OF conjunct2 [OF b']] q(2,3)] by (simp only: s a(2) q(1) append.simps)
        then show ?thesis by (rule fin [rotated]) (use q(3) b' in \<open>simp add: is_rune_def\<close>)
      next
        case 2
        define q where "q = a - 0xE0"
        have q: "a = 0xE0 + q" "q < 16" using fr 2 by (auto simp: q_def)
        note c' = byte [OF c]
        have t: "t = t ! 0 # t ! 1 # drop 2 t"
          using len 2 by (cases t; cases "tl t") (simp_all add: Suc_le_eq)
        have lo: "0x800 \<le> q * 4096 + x 0 * 64 + x 1"
          using fr b b' q(1) by (cases "q = 0") auto
        have r: "is_rune (q * 4096 + x 0 * 64 + x 1)"
          using fr b b' c' q 2 unfolding is_rune_def by (cases "q < 13"; cases "q = 13") auto
        have "s = encode_rune (q * 4096 + x 0 * 64 + x 1) @ drop 2 t"
          using t b' c' encode_parts(2) [OF _ _ q(2) r lo] 2 by (simp only: s a(2) q(1) append.simps)
        then show ?thesis by (rule fin [OF r])
      next
        case 3
        define q where "q = a - 0xF0"
        have q: "a = 0xF0 + q" "q \<le> 4" using fr 3 by (auto simp: q_def)
        note c' = byte [OF c] and d' = byte [OF d]
        have t: "t = t ! 0 # t ! 1 # t ! 2 # drop 3 t"
          using len 3 by (cases t; cases "tl t"; cases "tl (tl t)") (simp_all add: Suc_le_eq)
        have lo: "0x10000 \<le> q * 262144 + x 0 * 4096 + x 1 * 64 + x 2"
          using fr b b' q(1) by (cases "q = 0") auto
        have r: "is_rune (q * 262144 + x 0 * 4096 + x 1 * 64 + x 2)"
          using fr b b' c' d' q 3 unfolding is_rune_def by (cases "q = 4") auto
        have "s = encode_rune (q * 262144 + x 0 * 4096 + x 1 * 64 + x 2) @ drop 3 t"
          using t b' c' d' encode_parts(3) [OF _ _ _ r lo] 3 by (simp only: s a(2) q(1) append.simps)
        then show ?thesis by (rule fin [OF r])
      qed
    qed
  qed
qed


lemma runes_is_rune: "r \<in> set (runes s) \<Longrightarrow> is_rune r"
proof (induction s rule: runes.induct)
  case (1 s)
  show ?case
  proof (cases "s = []")
    case False
    then show ?thesis
    proof (cases rule: decode_cases)
      case err
      then have "runes s = rune_error # runes (drop 1 s)" using False by (subst runes.simps) simp
      then show ?thesis using 1 False err by (auto simp: is_rune_def rune_error_def)
    next
      case (rune q t)
      then have "runes s = q # runes t" by (simp add: runes_encode)
      then show ?thesis using 1 False rune by auto
    qed
  qed (use 1 in simp)
qed

lemma valid_encode: "is_rune r \<Longrightarrow> valid_utf8 (encode_rune r @ s) \<longleftrightarrow> valid_utf8 s"
proof -
  assume r: "is_rune r"
  have "length (encode_rune r) = 1 \<Longrightarrow> r \<noteq> rune_error"
    by (auto simp: encode_rune_def rune_error_def is_rune_def)
  then show ?thesis using r by (subst valid_utf8.simps) (auto simp: decode_encode)
qed

lemma valid_string_of_runes: "\<forall>r\<in>set rs. is_rune r \<Longrightarrow> valid_utf8 (string_of_runes rs @ s) \<longleftrightarrow> valid_utf8 s"
  by (induction rs) (simp_all add: string_of_runes_def valid_encode)

lemma valid_Nil [simp]: "valid_utf8 []"
  by (subst valid_utf8.simps) simp

lemma string_of_runes_runes: "valid_utf8 s \<Longrightarrow> string_of_runes (runes s) = s"
proof (induction s rule: runes.induct)
  case (1 s)
  show ?case
  proof (cases "s = []")
    case False
    then show ?thesis
    proof (cases rule: decode_cases)
      case err
      then have "\<not> valid_utf8 s" using False by (subst valid_utf8.simps) simp
      with 1 show ?thesis by simp
    next
      case (rune q t)
      have "valid_utf8 t" using 1(2) rune by (simp add: valid_encode)
      with 1(1) [OF False refl, of q "length (encode_rune q)"] rune show ?thesis
        by (simp add: runes_encode string_of_runes_def)
    qed
  qed (simp add: string_of_runes_def)
qed

lemma runes_append: "valid_utf8 s \<Longrightarrow> runes (s @ t) = runes s @ runes t"
  using runes_string [of "runes s" t] runes_is_rune [of _ s] by (simp add: string_of_runes_runes)

lemma valid_append: "valid_utf8 s \<Longrightarrow> valid_utf8 (s @ t) \<longleftrightarrow> valid_utf8 t"
  using valid_string_of_runes [of "runes s" t] runes_is_rune [of _ s] by (simp add: string_of_runes_runes)

lemma rune_count_append: "valid_utf8 s \<Longrightarrow> rune_count (s @ t) = rune_count s + rune_count t"
  by (simp add: rune_count_def runes_append)

lemma rune_count_le: "rune_count s \<le> length s"
  unfolding rune_count_def
proof (induction s rule: runes.induct)
  case (1 s)
  show ?case
  proof (cases "s = []")
    case False
    obtain r n where d: "decode_rune s = (r, n)" by fastforce
    then have "0 < n" "n \<le> length s" using decode_rune_size [OF False] by simp_all
    with 1 [OF False d [symmetric] refl] False show ?thesis by (subst runes.simps) (simp add: d)
  qed simp
qed

section \<open>Numbers\<close>

text \<open>\<open>%d\<close>, \<open>strconv.ParseUint(s, 10, 64)\<close> and \<open>strconv.ParseInt(s, 10, 64)\<close>; \<open>None\<close> is an error.\<close>

fun dec_nat :: "nat \<Rightarrow> gostring" where
  "dec_nat n = (if n < 10 then [of_nat (48 + n)] else dec_nat (n div 10) @ [of_nat (48 + n mod 10)])"

declare dec_nat.simps [simp del]

definition dec_int :: "int \<Rightarrow> gostring" where
  "dec_int k = (if k < 0 then 0x2D # dec_nat (nat (- k)) else dec_nat (nat k))"

definition is_digit :: "byte \<Rightarrow> bool" where
  "is_digit c \<longleftrightarrow> 48 \<le> unat c \<and> unat c \<le> 57"

definition digits_value :: "gostring \<Rightarrow> nat" where
  "digits_value s = foldl (\<lambda>n c. n * 10 + (unat c - 48)) 0 s"

definition ParseUint :: "gostring \<Rightarrow> u64 option" where
  "ParseUint s =
     (if s = [] \<or> \<not> list_all is_digit s \<or> digits_value s \<ge> 2 ^ 64 then None
      else Some (of_nat (digits_value s)))"

definition ParseInt :: "gostring \<Rightarrow> i64 option" where
  "ParseInt s =
     (let neg = (s \<noteq> [] \<and> hd s = 0x2D);
          t = (if s \<noteq> [] \<and> (hd s = 0x2D \<or> hd s = 0x2B) then tl s else s) in
      case ParseUint t of
        None \<Rightarrow> None
      | Some u \<Rightarrow>
          if \<not> neg \<and> unat u \<ge> 2 ^ 63 \<or> neg \<and> unat u > 2 ^ 63 then None
          else Some (if neg then - u else u))"

lemma dec_nat_value: "list_all is_digit (dec_nat n) \<and> digits_value (dec_nat n) = n \<and> dec_nat n \<noteq> []"
proof (induction n rule: dec_nat.induct)
  case (1 n)
  have d: "is_digit (of_nat (48 + k))" "unat (of_nat (48 + k) :: byte) = 48 + k" if "k < 10" for k
    using that unat_byte [of "48 + k"] by (simp_all add: is_digit_def del: of_nat_add)
  show ?case
  proof (cases "n < 10")
    case True
    then show ?thesis using d [OF True] by (subst (1 2 3) dec_nat.simps) (simp add: digits_value_def del: of_nat_add)
  next
    case False
    have "n mod 10 < 10" by simp
    note d = d [OF this]
    show ?thesis using False 1 d
      by (subst (1 2 3) dec_nat.simps) (simp add: digits_value_def del: of_nat_add)
  qed
qed

lemma ParseUint_dec: "n < 2 ^ 64 \<Longrightarrow> ParseUint (dec_nat n) = Some (of_nat n)"
  using dec_nat_value [of n] by (simp add: ParseUint_def)

lemma dec_nat_hd: "hd (dec_nat n) \<noteq> 0x2D" "hd (dec_nat n) \<noteq> 0x2B"
proof -
  have "is_digit (hd (dec_nat n))" using dec_nat_value [of n] by (cases "dec_nat n") auto
  then show "hd (dec_nat n) \<noteq> 0x2D" "hd (dec_nat n) \<noteq> 0x2B" by (auto simp: is_digit_def)
qed

lemma sint_i64_range: "- (2 ^ 63) \<le> sint (c :: i64)" "sint (c :: i64) < 2 ^ 63"
  using sint_ge [of c] sint_lt [of c] by simp_all

lemma ParseInt_dec: "ParseInt (dec_int (sint c)) = Some (c :: i64)"
proof (cases "sint c < 0")
  case True
  define n where "n = nat (- sint c)"
  have n: "int n = - sint c" "n \<le> 2 ^ 63" using True sint_i64_range(1) [of c] by (simp_all add: n_def)
  then have "unat (of_nat n :: u64) = n" by (intro unat_of_nat_small) simp
  moreover have "- (of_nat n :: i64) = c"
  proof -
    have "- (of_nat n :: i64) = word_of_int (- int n)" by simp
    also have "\<dots> = c" by (simp only: n(1) minus_minus) simp
    finally show ?thesis .
  qed
  ultimately show ?thesis
    using True n(2) ParseUint_dec [of n] by (simp add: ParseInt_def dec_int_def n_def [symmetric])
next
  case False
  define n where "n = nat (sint c)"
  have n: "int n = sint c" using False by (simp add: n_def)
  then have n': "n < 2 ^ 63" using sint_i64_range(2) [of c] by (simp flip: of_nat_less_iff)
  then have "unat (of_nat n :: u64) = n" by (intro unat_of_nat_small) simp
  moreover have "(of_nat n :: i64) = c"
  proof -
    have "(of_nat n :: i64) = word_of_int (int n)" by simp
    also have "\<dots> = c" by (simp only: n) simp
    finally show ?thesis .
  qed
  ultimately show ?thesis
    using False n' ParseUint_dec [of n] dec_nat_hd [of n]
    by (simp add: ParseInt_def dec_int_def n_def [symmetric])
qed

text \<open>A byte that no number contains, such as the separator of an id.\<close>

lemma dec_int_no_at: "0x40 \<notin> set (dec_int k)" "0x40 \<notin> set (dec_nat n)"
proof -
  show n: "0x40 \<notin> set (dec_nat n)" for n
    using dec_nat_value [of n] by (auto simp: list_all_iff is_digit_def)
  show "0x40 \<notin> set (dec_int k)" using n by (simp add: dec_int_def)
qed

section \<open>Hexadecimal\<close>

text \<open>\<open>strings.ToUpper(hex.EncodeToString(b))\<close> and \<open>hex.DecodeString\<close>.\<close>

definition hex_digit :: "nat \<Rightarrow> byte" where
  "hex_digit k = (if k < 10 then of_nat (48 + k) else of_nat (55 + k))"

definition hex_upper :: "bytes \<Rightarrow> gostring" where
  "hex_upper b = concat (map (\<lambda>c. [hex_digit (unat c div 16), hex_digit (unat c mod 16)]) b)"

definition hex_value :: "byte \<Rightarrow> nat option" where
  "hex_value c =
     (let n = unat c in
      if 48 \<le> n \<and> n \<le> 57 then Some (n - 48)
      else if 97 \<le> n \<and> n \<le> 102 then Some (n - 87)
      else if 65 \<le> n \<and> n \<le> 70 then Some (n - 55)
      else None)"

fun DecodeHex :: "gostring \<Rightarrow> bytes option" where
  "DecodeHex [] = Some []"
| "DecodeHex [c] = None"
| "DecodeHex (c # d # s) =
     Option.bind (hex_value c) (\<lambda>a. Option.bind (hex_value d) (\<lambda>b.
       map_option (\<lambda>t. of_nat (16 * a + b) # t) (DecodeHex s)))"

lemma hex_value_digit: "k < 16 \<Longrightarrow> hex_value (hex_digit k) = Some k"
  using unat_byte [of "48 + k"] unat_byte [of "55 + k"]
  by (simp add: hex_value_def hex_digit_def Let_def del: of_nat_add)

lemma DecodeHex_upper: "DecodeHex (hex_upper b) = Some b"
proof (induction b)
  case (Cons c b)
  have c: "unat c < 256" using unsigned_less [of c] by simp
  then have h: "unat c div 16 < 16" by simp
  have "of_nat (16 * (unat c div 16) + unat c mod 16) = c" by simp
  with Cons show ?case by (simp add: hex_upper_def hex_value_digit [OF h] hex_value_digit del: of_nat_add)
qed (simp add: hex_upper_def)

end
