(* ===== verification/XXH32.thy ===== *)
theory XXH32
  imports GoSlice
begin

text \<open>
  Package \<open>encoding/xxh32\<close>. \<open>Checksum\<close> is the function as written, with its index and
  its three loops; \<open>xxh32\<close> is the reference definition on the list of bytes (stripes of 16,
  then words of 4, then single bytes). \<open>Checksum_eq\<close> shows that they agree on every input,
  so that no index of \<open>Checksum\<close> is ever out of range.
\<close>

definition prime1 :: u32 where "prime1 = 2654435761"
definition prime2 :: u32 where "prime2 = 2246822519"
definition prime3 :: u32 where "prime3 = 3266489917"
definition prime4 :: u32 where "prime4 = 668265263"
definition prime5 :: u32 where "prime5 = 374761393"

definition Seed :: u32 where "Seed = 0x4F524F4C"

definition xxh_round :: "u32 \<Rightarrow> u32 \<Rightarrow> u32" where
  "xxh_round acc input = word_rotl 13 (acc + input * prime2) * prime1"

text \<open>\<open>le32(data[i:])\<close>: four indices, of which the last is the first to be out of range.\<close>

definition le32 :: "bytes \<Rightarrow> nat \<Rightarrow> u32 res" where
  "le32 data i =
     bindR (index_at data i) (\<lambda>b0. bindR (index_at data (i + 1)) (\<lambda>b1.
     bindR (index_at data (i + 2)) (\<lambda>b2. bindR (index_at data (i + 3)) (\<lambda>b3.
       Inr (ucast b0 OR push_bit 8 (ucast b1) OR push_bit 16 (ucast b2) OR push_bit 24 (ucast b3))))))"

type_synonym lanes = "u32 \<times> u32 \<times> u32 \<times> u32"

text \<open>The three loops; each turn of one is a step of \<open>loopR\<close> on the index and the values it updates.\<close>

definition stripe_step :: "bytes \<Rightarrow> nat \<times> lanes \<Rightarrow> ((nat \<times> lanes) + (nat \<times> lanes)) res" where
  "stripe_step data = (\<lambda>(i, v1, v2, v3, v4).
     if i + 16 \<le> length data then
       bindR (le32 data i) (\<lambda>w1. bindR (le32 data (i + 4)) (\<lambda>w2.
       bindR (le32 data (i + 8)) (\<lambda>w3. bindR (le32 data (i + 12)) (\<lambda>w4.
         Inr (Inl (i + 16, xxh_round v1 w1, xxh_round v2 w2, xxh_round v3 w3, xxh_round v4 w4))))))
     else Inr (Inr (i, v1, v2, v3, v4)))"

definition word_step :: "bytes \<Rightarrow> nat \<times> u32 \<Rightarrow> ((nat \<times> u32) + (nat \<times> u32)) res" where
  "word_step data = (\<lambda>(i, h).
     if i + 4 \<le> length data then
       bindR (le32 data i) (\<lambda>w. Inr (Inl (i + 4, word_rotl 17 (h + w * prime3) * prime4)))
     else Inr (Inr (i, h)))"

definition byte_step :: "bytes \<Rightarrow> nat \<times> u32 \<Rightarrow> ((nat \<times> u32) + u32) res" where
  "byte_step data = (\<lambda>(i, h).
     if i < length data then
       bindR (index_at data i) (\<lambda>b. Inr (Inl (i + 1, word_rotl 11 (h + ucast b * prime5) * prime1)))
     else Inr (Inr h))"

definition avalanche :: "u32 \<Rightarrow> u32" where
  "avalanche h0 =
     (let h1 = h0 XOR drop_bit 15 h0; h2 = h1 * prime2;
          h3 = h2 XOR drop_bit 13 h2; h4 = h3 * prime3
      in h4 XOR drop_bit 16 h4)"

definition Checksum :: "bytes \<Rightarrow> u32 \<Rightarrow> u32 res" where
  "Checksum data seed =
     (let n = length data in
      bindR (if n \<ge> 16 then
          bindR (loopR (Suc n) (stripe_step data)
              (0, seed + prime1 + prime2, seed + prime2, seed, seed - prime1)) (\<lambda>(i, v1, v2, v3, v4).
            Inr (i, word_rotl 1 v1 + word_rotl 7 v2 + word_rotl 12 v3 + word_rotl 18 v4))
        else Inr (0, seed + prime5)) (\<lambda>(i, h).
      bindR (loopR (Suc n) (word_step data) (i, h + of_nat n)) (\<lambda>(i, h).
      bindR (loopR (Suc n) (byte_step data) (i, h)) (\<lambda>h.
        Inr (avalanche h)))))"

section \<open>The reference definition\<close>

text \<open>\<open>le_get\<close> reads the little-endian word of a list of bytes.\<close>

definition lanes_round :: "bytes \<Rightarrow> lanes \<Rightarrow> lanes" where
  "lanes_round stripe = (\<lambda>(v1, v2, v3, v4).
     (xxh_round v1 (le_get (take 4 stripe)),
      xxh_round v2 (le_get (take 4 (drop 4 stripe))),
      xxh_round v3 (le_get (take 4 (drop 8 stripe))),
      xxh_round v4 (le_get (take 4 (drop 12 stripe)))))"

function stripes :: "bytes \<Rightarrow> lanes \<Rightarrow> lanes \<times> bytes" where
  "stripes bs v =
     (if length bs < 16 then (v, bs) else stripes (drop 16 bs) (lanes_round (take 16 bs) v))"
  by auto
termination by (relation "measure (\<lambda>(bs, v). length bs)") auto

fun tail_words :: "bytes \<Rightarrow> u32 \<Rightarrow> u32 \<times> bytes" where
  "tail_words (a # b # c # d # bs) h =
     tail_words bs (word_rotl 17 (h + le_get [a, b, c, d] * prime3) * prime4)"
| "tail_words bs h = (h, bs)"

definition tail_bytes :: "bytes \<Rightarrow> u32 \<Rightarrow> u32" where
  "tail_bytes bs h = foldl (\<lambda>h b. word_rotl 11 (h + ucast b * prime5) * prime1) h bs"

definition xxh32 :: "bytes \<Rightarrow> u32 \<Rightarrow> u32" where
  "xxh32 data seed =
     (let (h, rest) =
        (if length data \<ge> 16 then
           (case stripes data (seed + prime1 + prime2, seed + prime2, seed, seed - prime1) of
              ((v1, v2, v3, v4), rest) \<Rightarrow>
                (word_rotl 1 v1 + word_rotl 7 v2 + word_rotl 12 v3 + word_rotl 18 v4, rest))
         else (seed + prime5, data));
        (h, rest) = tail_words rest (h + of_nat (length data))
      in avalanche (tail_bytes rest h))"

declare stripes.simps [simp del]

section \<open>The code computes the reference definition\<close>

lemma le32_eq: "i + 4 \<le> length data \<Longrightarrow> le32 data i = Inr (le_get (take 4 (drop i data)))"
proof -
  assume "i + 4 \<le> length data"
  then have i: "i < length data" "i + 1 < length data" "i + 2 < length data" "i + 3 < length data"
    by simp_all
  then have "drop i data = data ! i # data ! (i + 1) # data ! (i + 2) # data ! (i + 3) # drop (i + 4) data"
    by (simp add: Cons_nth_drop_Suc eval_nat_numeral)
  then show ?thesis
    using i by (simp add: le32_def numeral_eq_Suc)
qed

lemma take_drop_take: "n + k \<le> m \<Longrightarrow> take k (drop n (take m xs)) = take k (drop n xs)"
  by (simp add: drop_take min_def)

lemma lanes_round_take: "lanes_round (take 16 bs) v = lanes_round bs v"
proof -
  have "take 4 (take 16 bs) = take 4 bs" by simp
  moreover have "take 4 (drop 4 (take 16 bs)) = take 4 (drop 4 bs)"
    and "take 4 (drop 8 (take 16 bs)) = take 4 (drop 8 bs)"
    and "take 4 (drop 12 (take 16 bs)) = take 4 (drop 12 bs)"
    by (rule take_drop_take, simp)+
  ultimately show ?thesis by (simp only: lanes_round_def)
qed

lemma stripe_loop:
  "i \<le> length data \<Longrightarrow> length data - i < k \<Longrightarrow>
    loopR k (stripe_step data) (i, v) =
      (case stripes (drop i data) v of (v', rest) \<Rightarrow> Inr (length data - length rest, v'))
    \<and> (\<exists>j. snd (stripes (drop i data) v) = drop j data \<and> j \<le> length data)"
proof (induction k arbitrary: i v)
  case (Suc k)
  obtain v1 v2 v3 v4 where v: "v = (v1, v2, v3, v4)" by (cases v)
  show ?case
  proof (cases "i + 16 \<le> length data")
    case True
    have "loopR (Suc k) (stripe_step data) (i, v) =
        loopR k (stripe_step data) (i + 16, lanes_round (take 16 (drop i data)) v)"
      using True
      unfolding lanes_round_take
      by (simp add: v stripe_step_def [of data] le32_eq lanes_round_def add.commute)
    moreover have "stripes (drop i data) v =
        stripes (drop (i + 16) data) (lanes_round (take 16 (drop i data)) v)"
      using add_le_imp_le_diff [of 16 i "length data"] True
      by (subst stripes.simps) (simp add: add.commute)
    ultimately show ?thesis using Suc.IH [of "i + 16"] Suc.prems True by simp
  next
    case False
    then have "length (drop i data) < 16" by simp
    then have "stripes (drop i data) v = (v, drop i data)"
      by (subst stripes.simps) (simp only: if_True)
    with False Suc.prems show ?thesis
      by (auto simp: v stripe_step_def)
  qed
qed simp

lemma tail_words_unfold:
  "tail_words bs h =
    (if 4 \<le> length bs then
       tail_words (drop 4 bs) (word_rotl 17 (h + le_get (take 4 bs) * prime3) * prime4)
     else (h, bs))"
  by (cases "(bs, h)" rule: tail_words.cases) (simp_all add: numeral_eq_Suc)

lemma word_loop:
  "i \<le> length data \<Longrightarrow> length data - i < k \<Longrightarrow>
    loopR k (word_step data) (i, h) =
      (case tail_words (drop i data) h of (h', rest) \<Rightarrow> Inr (length data - length rest, h'))
    \<and> (\<exists>j. snd (tail_words (drop i data) h) = drop j data \<and> j \<le> length data)"
proof (induction k arbitrary: i h)
  case (Suc k)
  show ?case
  proof (cases "i + 4 \<le> length data")
    case True
    let ?h = "word_rotl 17 (h + le_get (take 4 (drop i data)) * prime3) * prime4"
    have "loopR (Suc k) (word_step data) (i, h) = loopR k (word_step data) (i + 4, ?h)"
      using True by (simp add: word_step_def le32_eq)
    moreover have "tail_words (drop i data) h = tail_words (drop (i + 4) data) ?h"
      using add_le_imp_le_diff [of 4 i "length data"] True
      by (subst tail_words_unfold) (simp add: add.commute)
    ultimately show ?thesis using Suc.IH [of "i + 4"] Suc.prems True by simp
  next
    case False
    then have "\<not> 4 \<le> length (drop i data)" by simp
    then have "tail_words (drop i data) h = (h, drop i data)"
      by (subst tail_words_unfold) (simp only: if_False)
    with False Suc.prems show ?thesis by (auto simp: word_step_def)
  qed
qed simp

lemma byte_loop:
  "i \<le> length data \<Longrightarrow> length data - i < k \<Longrightarrow>
    loopR k (byte_step data) (i, h) = Inr (tail_bytes (drop i data) h)"
proof (induction k arbitrary: i h)
  case (Suc k)
  show ?case
  proof (cases "i < length data")
    case True
    then have "drop i data = data ! i # drop (Suc i) data" by (simp add: Cons_nth_drop_Suc)
    then show ?thesis
      using Suc.IH [of "Suc i"] Suc.prems True by (simp add: byte_step_def tail_bytes_def)
  qed (use Suc.prems in \<open>simp add: byte_step_def tail_bytes_def\<close>)
qed simp

lemma Checksum_eq [simp]: "Checksum data seed = Inr (xxh32 data seed)"
proof -
  have tail: "bindR (loopR (Suc (length data)) (word_step data) (i, h)) (\<lambda>(i, h).
      bindR (loopR (Suc (length data)) (byte_step data) (i, h)) (\<lambda>h. Inr (avalanche h))) =
    (case tail_words (drop i data) h of (h, rest) \<Rightarrow> Inr (avalanche (tail_bytes rest h)))"
    if i: "i \<le> length data" for i h
  proof -
    obtain h' rest where w: "tail_words (drop i data) h = (h', rest)" by fastforce
    have "length data - i < Suc (length data)" by simp
    with w word_loop [OF i this, of h] obtain j
      where "loopR (Suc (length data)) (word_step data) (i, h) = Inr (length data - length rest, h')"
        and "rest = drop j data" "j \<le> length data" by (auto simp del: loopR.simps)
    then show ?thesis
      using byte_loop [of j data "Suc (length data)" h'] w by (simp del: loopR.simps)
  qed
  show ?thesis
  proof (cases "16 \<le> length data")
    case True
    let ?v = "(seed + prime1 + prime2, seed + prime2, seed, seed - prime1)"
    obtain v1 v2 v3 v4 rest where s: "stripes data ?v = ((v1, v2, v3, v4), rest)"
      by (metis prod.exhaust)
    with stripe_loop [of 0 data "Suc (length data)" ?v]
    obtain j where "loopR (Suc (length data)) (stripe_step data) (0, ?v) =
        Inr (length data - length rest, v1, v2, v3, v4)"
      and "rest = drop j data" and "j \<le> length data"
      by (auto simp del: loopR.simps)
    then show ?thesis
      using tail s True by (simp add: Checksum_def xxh32_def Let_def del: loopR.simps split: prod.splits)
  next
    case False
    then show ?thesis
      using tail [of 0]
      by (simp add: Checksum_def xxh32_def Let_def del: loopR.simps split: prod.splits)
  qed
qed

text \<open>The seed is the little-endian word of the bytes of \<open>LORO\<close>.\<close>

lemma Seed_LORO: "Seed = le_get [0x4C, 0x4F, 0x52, 0x4F]"
  by (simp add: Seed_def)

section \<open>Properties\<close>


end
