(* ===== verification/FastFormat.thy ===== *)
theory FastFormat
  imports XXH32
begin

text \<open>
  Package \<open>encoding/fast\<close>: the 22-byte header of the Fast wire format, \<open>ParseHeader\<close> and
  \<open>VerifyChecksum\<close> on the reading side and \<open>Encode\<close> on the writing side.
\<close>

type_synonym Mode = u16

definition ModeOutdatedRle :: Mode where "ModeOutdatedRle = 1"
definition ModeOutdatedSnapshot :: Mode where "ModeOutdatedSnapshot = 2"
definition ModeFastSnapshot :: Mode where "ModeFastSnapshot = 3"
definition ModeFastUpdates :: Mode where "ModeFastUpdates = 4"

lemmas mode_defs =
  ModeOutdatedRle_def ModeOutdatedSnapshot_def ModeFastSnapshot_def ModeFastUpdates_def

text \<open>The bytes of \<open>loro\<close>.\<close>

definition magic :: bytes where "magic = [0x6C, 0x6F, 0x72, 0x6F]"
definition checksumLen :: nat where "checksumLen = 16"
definition modeLen :: nat where "modeLen = 2"
definition HeaderSize :: nat where "HeaderSize = length magic + checksumLen + modeLen"

lemma HeaderSize_22 [simp]: "HeaderSize = 22"
  by (simp add: HeaderSize_def magic_def checksumLen_def modeLen_def)

record Header =
  h_Mode :: Mode
  h_Checksum :: bytes
  h_Body :: bytes

definition ParseHeader :: "bytes \<Rightarrow> Header res" where
  "ParseHeader b =
     guardR (length b < HeaderSize) ErrShort
       (bindR (slice b 0 4) (\<lambda>m.
        guardR (m \<noteq> magic) ErrMagic
          (bindR (slice b 4 20) (\<lambda>cs.
           bindR (slice b 20 22) (\<lambda>mb.
             let mode = be_get mb in
             if mode = ModeFastSnapshot \<or> mode = ModeFastUpdates then
               bindR (slice b HeaderSize (length b)) (\<lambda>body.
                 Inr \<lparr>h_Mode = mode, h_Checksum = cs, h_Body = body\<rparr>)
             else if mode = ModeOutdatedRle \<or> mode = ModeOutdatedSnapshot then Inl ErrOutdated
             else Inl ErrUnknownMode)))))"

definition VerifyChecksum :: "bytes \<Rightarrow> unit res" where
  "VerifyChecksum b =
     guardR (length b < HeaderSize) ErrShort
       (bindR (slice b 16 20) (\<lambda>s.
        let stored = le_get s :: u32 in
        bindR (slice b 20 (length b)) (\<lambda>rest.
        bindR (Checksum rest Seed) (\<lambda>got.
          guardR (got \<noteq> stored) ErrChecksum (Inr ())))))"

text \<open>
  The 16-byte checksum region is a zeroed array whose last four bytes are written; \<open>Checksum\<close>
  is total (\<open>Checksum_eq\<close>), so its value is taken.
\<close>

definition fast_checksum :: "Mode \<Rightarrow> bytes \<Rightarrow> bytes" where
  "fast_checksum mode body =
     replicate 12 0 @ le_put 4 (case Checksum (be_put 2 mode @ body) Seed of Inr h \<Rightarrow> h)"

definition Encode :: "Mode \<Rightarrow> bytes \<Rightarrow> bytes" where
  "Encode mode body = magic @ fast_checksum mode body @ be_put 2 mode @ body"

section \<open>Safety, round trip and canonicity\<close>

lemma ParseHeader_okR: "okR (\<lambda>h. h_Mode h \<in> {ModeFastSnapshot, ModeFastUpdates}) (ParseHeader b)"
  by (auto simp: ParseHeader_def Let_def intro!: okR_guardR)

lemma VerifyChecksum_okR: "okR (\<lambda>_. True) (VerifyChecksum b)"
  by (auto simp: VerifyChecksum_def Let_def intro!: okR_guardR)

lemma fast_checksum_eq:
  "fast_checksum mode body = replicate 12 0 @ le_put 4 (xxh32 (be_put 2 mode @ body) Seed)"
  by (simp add: fast_checksum_def)

lemma ParseHeader_parts:
  assumes "length cs = 16"
  shows "ParseHeader (magic @ cs @ be_put 2 mode @ body) =
    (if mode = ModeFastSnapshot \<or> mode = ModeFastUpdates
     then Inr \<lparr>h_Mode = mode, h_Checksum = cs, h_Body = body\<rparr>
     else if mode = ModeOutdatedRle \<or> mode = ModeOutdatedSnapshot then Inl ErrOutdated
     else Inl ErrUnknownMode)"
proof -
  have m: "length magic = 4" by (simp add: magic_def)
  have p: "length (be_put 2 mode) = 2" by (simp add: be_put_def)
  have "be_get (be_put 2 mode) = mode" by (rule be_get_put) simp
  then show ?thesis
    using assms by (simp add: ParseHeader_def Let_def m p)
qed

lemma VerifyChecksum_parts:
  assumes "length zs = 12"
  shows "VerifyChecksum (magic @ (zs @ le_put 4 s) @ be_put 2 mode @ body) =
    (if s = xxh32 (be_put 2 mode @ body) Seed then Inr () else Inl ErrChecksum)"
proof -
  have m: "length magic = 4" by (simp add: magic_def)
  have p: "length (be_put 2 mode) = 2" by (simp add: be_put_def)
  have "le_get (le_put 4 s) = s" by (rule le_get_put) simp
  then show ?thesis
    using assms by (simp add: VerifyChecksum_def Let_def m p guardR_def)
qed

lemma Encode_reads_back:
  assumes "mode = ModeFastSnapshot \<or> mode = ModeFastUpdates"
  shows "ParseHeader (Encode mode body) =
      Inr \<lparr>h_Mode = mode, h_Checksum = fast_checksum mode body, h_Body = body\<rparr>"
    and "VerifyChecksum (Encode mode body) = Inr ()"
proof -
  have "length (fast_checksum mode body) = 16" by (simp add: fast_checksum_eq)
  then show "ParseHeader (Encode mode body) =
      Inr \<lparr>h_Mode = mode, h_Checksum = fast_checksum mode body, h_Body = body\<rparr>"
    unfolding Encode_def using assms by (simp add: ParseHeader_parts)
  show "VerifyChecksum (Encode mode body) = Inr ()"
    unfolding Encode_def fast_checksum_eq
    by (subst VerifyChecksum_parts) simp_all
qed

text \<open>
  A blob that both checks accept is, but for twelve bytes of the checksum region that
  nothing looks at, the encoding of its mode and body.
\<close>

lemma accepted_is_encoded:
  assumes h: "ParseHeader b = Inr h" and v: "VerifyChecksum b = Inr ()"
  shows "b = magic @ take 12 (h_Checksum h) @ drop 12 (fast_checksum (h_Mode h) (h_Body h)) @
    be_put 2 (h_Mode h) @ h_Body h"
proof -
  have "22 \<le> length b" using h by (auto simp: ParseHeader_def guardR_def split: if_splits)
  then obtain p1 body where b: "b = p1 @ body" and p1: "length p1 = 22"
    by (rule split_at_length)
  obtain p2 mb where p2: "p1 = p2 @ mb" "length p2 = 20" by (rule split_at_length [of 20 p1]) (simp_all add: p1)
  obtain m cs where m: "p2 = m @ cs" "length m = 4" by (rule split_at_length [of 4 p2]) (simp_all add: p2)
  obtain zs s where zs: "cs = zs @ s" "length zs = 12"
    by (rule split_at_length [of 12 cs]) (use p2 m in simp_all)
  define mode where "mode = (be_get mb :: u16)"
  define sum where "sum = (le_get s :: u32)"
  have mb: "mb = be_put 2 mode" and s: "s = le_put 4 sum"
    using p1 p2 m zs by (simp_all add: mode_def sum_def be_put_get le_put_get)
  have b4: "b = m @ (zs @ le_put 4 sum) @ be_put 2 mode @ body"
    by (simp add: b p2 m zs mb s)
  have "m = magic"
    using h m(2) unfolding b4 by (auto simp: ParseHeader_def guardR_def split: if_splits)
  note b5 = b4 [unfolded this]
  have "h = \<lparr>h_Mode = mode, h_Checksum = zs @ le_put 4 sum, h_Body = body\<rparr>"
    using h zs(2) unfolding b5 by (subst (asm) ParseHeader_parts) (auto split: if_splits)
  moreover have "sum = xxh32 (be_put 2 mode @ body) Seed"
    using v unfolding b5 VerifyChecksum_parts [OF zs(2)] by (auto split: if_splits)
  ultimately show ?thesis
    using zs(2) by (simp add: b5 fast_checksum_eq)
qed

section \<open>Properties\<close>

text \<open>C32: A blob that \<open>Encode\<close> builds in one of the two Fast modes passes \<open>VerifyChecksum\<close>, and
  \<open>ParseHeader\<close> returns its mode, its checksum region and its body.\<close>

theorem fast_round_trip:
  assumes "mode = ModeFastSnapshot \<or> mode = ModeFastUpdates"
  shows "ParseHeader (Encode mode body) =
      Inr \<lparr>h_Mode = mode, h_Checksum = fast_checksum mode body, h_Body = body\<rparr> \<and>
    VerifyChecksum (Encode mode body) = Inr ()"
  using Encode_reads_back [OF assms] by simp

theorem fast_round_trip_witness:
  "ParseHeader (Encode 4 [1, 2, 3]) =
      Inr \<lparr>h_Mode = 4, h_Checksum = fast_checksum 4 [1, 2, 3], h_Body = [1, 2, 3]\<rparr>"
  using fast_round_trip [of 4 "[1, 2, 3]"] by (simp add: ModeFastUpdates_def)

text \<open>C33: A blob that both \<open>ParseHeader\<close> and \<open>VerifyChecksum\<close> accept is the encoding of its mode
  and body, except for the first twelve bytes of the checksum region, which no check looks at.\<close>

theorem fast_accepted_is_encoded:
  assumes "ParseHeader b = Inr h" and "VerifyChecksum b = Inr ()"
  shows "b = magic @ take 12 (h_Checksum h) @ drop 12 (fast_checksum (h_Mode h) (h_Body h)) @
    be_put 2 (h_Mode h) @ h_Body h"
  using assms by (rule accepted_is_encoded)

theorem fast_accepted_witness:
  "\<exists>b. ParseHeader b = Inr \<lparr>h_Mode = 3, h_Checksum = fast_checksum 3 [9], h_Body = [9]\<rparr> \<and>
    b = magic @ take 12 (fast_checksum 3 [9]) @ drop 12 (fast_checksum 3 [9]) @ be_put 2 (3 :: u16) @ [9]"
proof -
  have "ParseHeader (Encode 3 [9]) =
      Inr \<lparr>h_Mode = 3, h_Checksum = fast_checksum 3 [9], h_Body = [9]\<rparr>"
    and "VerifyChecksum (Encode 3 [9]) = Inr ()"
    using Encode_reads_back [of 3 "[9]"] by (simp_all add: ModeFastSnapshot_def)
  from this(1) fast_accepted_is_encoded [OF this] show ?thesis by auto
qed

end
