(* ===== verification/DecodeUpdates.thy ===== *)
theory DecodeUpdates
  imports LoroTypes GoText ChangeCodec FastFormat
begin

text \<open>
  Decoding a FastUpdates blob into changes (\<open>loro/decode.go\<close>): the blob's frame, and
  \<open>decodeBlock\<close>, which resolves the arenas of a block and deals its ops out to its changes.
  \<open>int64\<close> arithmetic is word arithmetic, and wraps; comparisons are signed.
\<close>

section \<open>Names\<close>

definition fmtID :: "u64 list \<Rightarrow> i64 \<Rightarrow> i64 \<Rightarrow> gostring res" where
  "fmtID peers peerIdx counter =
     (if sint peerIdx < 0 \<or> sint peerIdx \<ge> int (length peers) then Inl (Errorf ''peer index out of range'')
      else Inr (dec_int (sint counter) @ 0x40 # dec_nat (unat (peers ! nat (sint peerIdx)))))"

definition fiHex :: "bytes list \<Rightarrow> i64 \<Rightarrow> gostring res" where
  "fiHex positions idx =
     (if sint idx < 0 \<or> sint idx \<ge> int (length positions) then Inl (Errorf ''position index out of range'')
      else Inr (hex_upper (positions ! nat (sint idx))))"

definition keyAt :: "gostring list \<Rightarrow> i64 \<Rightarrow> gostring res" where
  "keyAt keys idx =
     (if sint idx < 0 \<or> sint idx \<ge> int (length keys) then Inl (Errorf ''key index out of range'')
      else Inr (keys ! nat (sint idx)))"

text \<open>The ASCII bytes of a Go string literal.\<close>

definition go_str :: "string \<Rightarrow> gostring" where
  "go_str s = map of_char s"

definition deletedTreeRoot :: gostring where
  "deletedTreeRoot = go_str ''2147483647@18446744073709551615''"

definition isTreeDelete :: "TreeNode \<Rightarrow> bool" where
  "isTreeDelete n \<longleftrightarrow> tn_HasParent n \<and> tn_Parent n = deletedTreeRoot"

section \<open>Delete spans and insert lengths\<close>

definition Normalize :: "DeleteSpan \<Rightarrow> i64 \<times> i64" where
  "Normalize d = (if sint (ds_Len d) \<ge> 0 then (ds_Counter d, ds_Len d) else (ds_Counter d, - ds_Len d))"

definition atomFor :: "DeleteSpan \<Rightarrow> i64 \<Rightarrow> i64 option" where
  "atomFor d c =
     (let (start, n) = Normalize d in
      if sless c start \<or> sleq (start + n) c then None
      else if sint (ds_Len d) < 0 then Some (start + n - 1 - c)
      else Some (c - start))"

definition MaxInt32 :: int where "MaxInt32 = 2 ^ 31 - 1"
definition MaxUint32 :: int where "MaxUint32 = 2 ^ 32 - 1"

definition checkDeleteSpan :: "Op \<Rightarrow> DeleteSpan \<Rightarrow> unit res" where
  "checkDeleteSpan op d =
     (let (start, n) = Normalize d in
      if sint start < 0 \<or> sint n < 0 \<or> sint start > MaxInt32 \<or> sint n > sint (word_of_int MaxInt32 + 1 - start)
      then Inl (Errorf ''delete spans counters'')
      else if n \<noteq> op_Len op then Inl (Errorf ''delete length'')
      else Inr ())"

definition checkInsertAtoms :: "Op \<Rightarrow> unit res" where
  "checkInsertAtoms op =
     (let count = (\<lambda>atoms. if int atoms \<noteq> sint (op_Len op) then Inl (Errorf ''insert length'') else Inr ()) in
      if op_Kind op = CText \<and> op_VKind op = VKStr then
        count (rune_count (case op_Value op of OVal (LStr s) \<Rightarrow> s | _ \<Rightarrow> []))
      else if (op_Kind op = CList \<or> op_Kind op = CMovableList) \<and> op_VKind op = VKLoroValue then
        (case op_Value op of
           OVal (LList lst) \<Rightarrow> count (length lst)
         | _ \<Rightarrow> Inl (Errorf ''list insert carries no list of values''))
      else Inr ())"

section \<open>Dependencies\<close>

text \<open>
  The inner loop reads the next \<open>k\<close> entries of the dependency columns; the outer loop runs
  over the changes with their flags and lengths. \<open>nxt\<close> counts the entries consumed.
\<close>

fun read_deps :: "ChangeHeader \<Rightarrow> ID \<Rightarrow> nat \<Rightarrow> nat \<Rightarrow> ID list \<Rightarrow> (ID list \<times> nat) res" where
  "read_deps hdr own 0 nxt deps = Inr (deps, nxt)"
| "read_deps hdr own (Suc k) nxt deps =
     (let pi = h_DepPeerIdxs hdr ! nxt; ctr = h_DepCounters hdr ! nxt in
      if unat pi \<ge> length (h_Peers hdr) then Inl (Errorf ''dependency peer index out of range'')
      else if sint ctr < 0 \<or> sint ctr > MaxInt32 then Inl (Errorf ''dependency counter out of range'')
      else
        let dep = \<lparr>Peer = h_Peers hdr ! unat pi, Counter = ctr\<rparr> in
        if Peer dep = Peer own \<and> sleq (Counter own) (Counter dep) then Inl (Errorf ''change depends on an op it precedes'')
        else read_deps hdr own k (nxt + 1) (deps @ [dep]))"

definition change_deps :: "ChangeHeader \<Rightarrow> nat \<Rightarrow> ID \<Rightarrow> nat \<Rightarrow> (ID list \<times> nat) res" where
  "change_deps hdr i own nxt =
     (if h_DepOnSelf hdr ! i \<and> Counter own = 0 then Inl (Errorf ''depends on an op before its first'')
      else
        let deps = (if h_DepOnSelf hdr ! i then [\<lparr>Peer = Peer own, Counter = Counter own - 1\<rparr>] else []) in
        if unat (h_DepLens hdr ! i) > length (h_DepPeerIdxs hdr) - nxt then Inl (Errorf ''more dependencies than the block holds'')
        else read_deps hdr own (unat (h_DepLens hdr ! i)) nxt deps)"

fun assign_deps :: "ChangeHeader \<Rightarrow> nat \<Rightarrow> nat \<Rightarrow> Change list \<Rightarrow> (Change list \<times> nat) res" where
  "assign_deps hdr i nxt [] = Inr ([], nxt)"
| "assign_deps hdr i nxt (ch # chs) =
     bindR (change_deps hdr i (ch_ID ch) nxt) (\<lambda>(deps, nxt).
     bindR (assign_deps hdr (i + 1) nxt chs) (\<lambda>(chs, nxt).
       Inr (ch\<lparr>ch_Deps := deps\<rparr> # chs, nxt)))"

definition decodeDeps :: "ChangeHeader \<Rightarrow> Change list \<Rightarrow> Change list res" where
  "decodeDeps hdr changes =
     (if length (h_DepOnSelf hdr) \<noteq> length changes \<or> length (h_DepLens hdr) \<noteq> length changes \<or>
         length (h_DepPeerIdxs hdr) \<noteq> length (h_DepCounters hdr) then Inl (Errorf ''dependency columns do not match'')
      else bindR (assign_deps hdr 0 0 changes) (\<lambda>(changes, nxt).
        if nxt \<noteq> length (h_DepPeerIdxs hdr) then Inl (Errorf ''dependencies left unassigned'')
        else Inr changes))"

section \<open>A block\<close>

definition nameBudgetBase :: int where "nameBudgetBase = 64 * 2 ^ 20"
definition nameBudgetPerByte :: int where "nameBudgetPerByte = 256"

text \<open>What the loop over the ops of a block reads: the decoded arenas and the partition.\<close>

record blockTables =
  bt_hdr :: ChangeHeader
  bt_conts :: "Container list"
  bt_keys :: "gostring list"
  bt_ops :: Ops
  bt_positions :: "bytes list"
  bt_deleteIDs :: "DeleteID list"
  bt_counterStart :: i64
  bt_starts :: "i64 list"
  bt_lastLamport :: i64

definition bt_n :: "blockTables \<Rightarrow> nat" where
  "bt_n b = length (bt_starts b)"

definition bt_lamportOf :: "blockTables \<Rightarrow> nat \<Rightarrow> i64" where
  "bt_lamportOf b i = (if i < bt_n b - 1 then h_Lamports (bt_hdr b) ! i else bt_lastLamport b)"

text \<open>The loop's variables.\<close>

record blockLoop =
  bl_vr :: valueReader
  bl_cum :: i64
  bl_chIdx :: nat
  bl_del :: nat
  bl_left :: int
  bl_changes :: "Change list"

function next_change :: "blockTables \<Rightarrow> i64 \<Rightarrow> nat \<Rightarrow> nat" where
  "next_change b cum chIdx =
     (if chIdx + 1 < bt_n b \<and> sleq (bt_starts b ! (chIdx + 1)) cum then next_change b cum (chIdx + 1) else chIdx)"
  by pat_completeness auto
termination by (relation "measure (\<lambda>(b, _, chIdx). bt_n b - chIdx)") auto

declare next_change.simps [simp del]

definition container_name :: "blockTables \<Rightarrow> Container \<Rightarrow> gostring res" where
  "container_name b c =
     (if c_IsRoot c then keyAt (bt_keys b) (c_KeyOrCounter c)
      else fmtID (h_Peers (bt_hdr b)) (c_PeerIdx c) (c_KeyOrCounter c))"

text \<open>The value as \<open>OpContent\<close> returned it; values of further types are replaced below.\<close>

definition plain_value :: "goany \<Rightarrow> opval" where
  "plain_value v = (case v of AVal x \<Rightarrow> OVal x | AU64 x \<Rightarrow> OU64 x | _ \<Rightarrow> OVal LNull)"

definition peer_of :: "blockTables \<Rightarrow> i64 \<Rightarrow> string \<Rightarrow> u64 res" where
  "peer_of b idx what =
     (if sint idx < 0 \<or> sint idx \<ge> int (length (h_Peers (bt_hdr b))) then Inl (Errorf what)
      else Inr (h_Peers (bt_hdr b) ! nat (sint idx)))"

definition op_delete :: "blockTables \<Rightarrow> nat \<Rightarrow> Op \<Rightarrow> (Op \<times> nat) res" where
  "op_delete b del op =
     (if op_VKind op \<noteq> VKDeleteSeq then Inr (op, del)
      else if del \<ge> length (bt_deleteIDs b) then Inl (Errorf ''DeleteSeq op without delete_start_ids entry'')
      else let d = bt_deleteIDs b ! del in
        bindR (peer_of b (d_PeerIdx d) ''delete peer index out of range'') (\<lambda>p.
          let span = \<lparr>ds_Peer = p, ds_Counter = d_Counter d, ds_Len = d_Len d\<rparr> in
          bindR (checkDeleteSpan op span) (\<lambda>_. Inr (op\<lparr>op_Value := ODelete span\<rparr>, del + 1))))"

definition op_prop :: "blockTables \<Rightarrow> ContainerType \<Rightarrow> i64 \<Rightarrow> Op \<Rightarrow> Op res" where
  "op_prop b kind prop op =
     (if kind = CMap then bindR (keyAt (bt_keys b) prop) (\<lambda>k. Inr (op\<lparr>op_MapKey := k\<rparr>))
      else Inr (op\<lparr>op_Pos := prop\<rparr>))"

definition tree_node :: "blockTables \<Rightarrow> RawTreeMove \<Rightarrow> TreeNode res" where
  "tree_node b tv =
     bindR (fmtID (h_Peers (bt_hdr b)) (rt_SubjectPeerIdx tv) (rt_SubjectCounter tv)) (\<lambda>nid.
       let node = \<lparr>tn_ID = nid, tn_HasParent = False, tn_Parent = [], tn_FI = []\<rparr> in
       bindR (if rt_ParentNull tv then Inr node
              else bindR (fmtID (h_Peers (bt_hdr b)) (rt_ParentPeerIdx tv) (rt_ParentCounter tv)) (\<lambda>p.
                Inr (node\<lparr>tn_HasParent := True, tn_Parent := p\<rparr>))) (\<lambda>node.
       if isTreeDelete node then Inr node
       else bindR (fiHex (bt_positions b) (rt_PositionIdx tv)) (\<lambda>fi. Inr (node\<lparr>tn_FI := fi\<rparr>))))"

definition op_content :: "blockTables \<Rightarrow> goany \<Rightarrow> Op \<Rightarrow> Op res" where
  "op_content b v op =
     (case v of
        ARawTreeMove tv \<Rightarrow> bindR (tree_node b tv) (\<lambda>node. Inr (op\<lparr>op_Value := OTree node\<rparr>))
      | AListMove tv \<Rightarrow>
          bindR (peer_of b (lm_FromIdx tv) ''move peer index out of range'') (\<lambda>p.
            Inr (op\<lparr>op_MoveFrom := lm_From tv, op_Value := OElem \<lparr>le_Peer = p, le_Lamport = lm_Lamport tv\<rparr>\<rparr>))
      | AListSet tv \<Rightarrow>
          bindR (peer_of b (ls_PeerIdx tv) ''set peer index out of range'') (\<lambda>p.
            Inr (op\<lparr>op_Value := OSet \<lparr>sv_Elem = \<lparr>le_Peer = p, le_Lamport = ls_Lamport tv\<rparr>, sv_Value = ls_Value tv\<rparr>\<rparr>))
      | AMark tv \<Rightarrow>
          bindR (keyAt (bt_keys b) (m_KeyIdx tv)) (\<lambda>key.
            Inr (op\<lparr>op_Value := OMark \<lparr>mi_Start = op_Pos op, mi_Len = m_Len tv, mi_Key = key,
              mi_Value = m_Value tv, mi_Info = m_Info tv\<rparr>\<rparr>))
      | _ \<Rightarrow> Inr op)"

definition named_bytes :: "Op \<Rightarrow> int" where
  "named_bytes op = int (length (op_Container op)) + int (length (op_MapKey op)) +
     (case op_Value op of OMark mi \<Rightarrow> int (length (mi_Key mi)) | _ \<Rightarrow> 0)"

text \<open>One turn of the loop, for op \<open>i\<close>.\<close>

definition decode_op :: "blockTables \<Rightarrow> nat \<Rightarrow> blockLoop \<Rightarrow> blockLoop res" where
  "decode_op b i s =
     (let chIdx = next_change b (bl_cum s) (bl_chIdx s); ops = bt_ops b; ci = o_ContainerIdx ops ! i in
      if sint ci < 0 \<or> sint ci \<ge> int (length (bt_conts b)) then Inl (Errorf ''container index out of range'')
      else let c = bt_conts b ! nat (sint ci) in
        bindR (container_name b c) (\<lambda>name.
        bindR (ReadOpContent (o_ValueKind ops ! i) (bl_vr s)) (\<lambda>(val, vr).
          let op = \<lparr>op_Container = name, op_IsRoot = c_IsRoot c, op_Kind = c_Kind c,
                op_VKind = o_ValueKind ops ! i, op_Pos = 0, op_MapKey = [], op_Value = plain_value val,
                op_MoveFrom = 0, op_Len = o_Len ops ! i, op_Peer = h_Peers (bt_hdr b) ! 0,
                op_Counter = bt_counterStart b + bl_cum s,
                op_Lamport = bt_lamportOf b chIdx + (bl_cum s - bt_starts b ! chIdx)\<rparr> in
          bindR (checkInsertAtoms op) (\<lambda>_.
          bindR (op_delete b (bl_del s) op) (\<lambda>(op, del).
          bindR (op_prop b (c_Kind c) (o_Prop ops ! i) op) (\<lambda>op.
          bindR (op_content b val op) (\<lambda>op.
            let left = bl_left s - named_bytes op in
            if left < 0 then Inl (Errorf ''ops reference more bytes than the blob allows'')
            else Inr \<lparr>bl_vr = vr, bl_cum = bl_cum s + o_Len ops ! i, bl_chIdx = chIdx, bl_del = del,
              bl_left = left,
              bl_changes = (bl_changes s)[chIdx := (bl_changes s ! chIdx)\<lparr>ch_Ops := ch_Ops (bl_changes s ! chIdx) @ [op]\<rparr>]\<rparr>)))))))"

fun decode_ops :: "blockTables \<Rightarrow> nat list \<Rightarrow> blockLoop \<Rightarrow> blockLoop res" where
  "decode_ops b [] s = Inr s"
| "decode_ops b (i # is) s = bindR (decode_op b i s) (decode_ops b is)"

text \<open>The offsets at which the changes start.\<close>

fun start_offsets :: "i64 \<Rightarrow> i64 list \<Rightarrow> i64 list" where
  "start_offsets at [] = []"
| "start_offsets at (l # ls) = at # start_offsets (at + l) ls"

definition block_avail :: "Block \<Rightarrow> nat" where
  "block_avail blk = sum_list (map length (block_blobs blk))"

text \<open>The partition of the block into changes, and the changes without deps and ops.\<close>

definition block_partition :: "Block \<Rightarrow> nat \<Rightarrow> ChangeHeader \<Rightarrow> (i64 list \<times> i64) res" where
  "block_partition blk n hdr =
     (let firsts = take (n - 1) (h_AtomLens hdr); lst = CounterLen blk - sum_list firsts;
          atomLens = firsts @ [lst] in
      if sint lst < 0 then Inl (Errorf ''atom lengths exceed counter_len'')
      else if length (h_Lamports hdr) \<noteq> n - 1 then Inl (Errorf ''header lamports'')
      else let lastLamport = LamportStart blk + LamportLen blk - lst in
        if sint (LamportStart blk) < 0 \<or> sint (LamportLen blk) < 0 \<or> sint lastLamport < 0
        then Inl (Errorf ''lamport span'')
        else Inr (start_offsets 0 atomLens, lastLamport))"

definition bare_changes :: "blockTables \<Rightarrow> ChangeMeta \<Rightarrow> Change list" where
  "bare_changes b cm =
     map (\<lambda>i. \<lparr>ch_ID = \<lparr>Peer = h_Peers (bt_hdr b) ! 0, Counter = bt_counterStart b + bt_starts b ! i\<rparr>,
         ch_Lamport = bt_lamportOf b i, ch_Timestamp = cm_Timestamps cm ! i, ch_Deps = [],
         ch_CommitMsg = cm_CommitMsgs cm ! i, ch_Ops = []\<rparr>) [0..<bt_n b]"

text \<open>The byte budget goes in and comes out with the changes.\<close>

definition decodeChangeBlock :: "Block \<Rightarrow> int \<Rightarrow> (Change list \<times> int) res" where
  "decodeChangeBlock blk left =
     (let avail = block_avail blk in
      if unat (NChanges blk) < 1 \<or> unat (NChanges blk) > avail + 1 then Inl (Errorf ''implausible change count'')
      else let left = left + nameBudgetPerByte * int avail; n = unat (NChanges blk) in
        bindR (DecodeHeader (b_Header blk) (int n)) (\<lambda>hdr.
        bindR (DecodeChangeMeta (b_ChangeMeta blk) (int n)) (\<lambda>cm.
        bindR (DecodeContainers (b_CIDs blk)) (\<lambda>conts.
        bindR (DecodeKeys (b_Keys blk)) (\<lambda>keys.
        bindR (DecodeOps (b_Ops blk)) (\<lambda>ops.
        bindR (DecodePositions (b_Positions blk)) (\<lambda>positions.
        bindR (DecodeDeleteIDs (b_DeleteIDs blk)) (\<lambda>deleteIDs.
          if h_Peers hdr = [] then Inl (Errorf ''empty peer table'')
          else bindR (block_partition blk n hdr) (\<lambda>(starts, lastLamport).
            let b = \<lparr>bt_hdr = hdr, bt_conts = conts, bt_keys = keys, bt_ops = ops, bt_positions = positions,
                  bt_deleteIDs = deleteIDs, bt_counterStart = CounterStart blk, bt_starts = starts,
                  bt_lastLamport = lastLamport\<rparr> in
            bindR (decodeDeps hdr (bare_changes b cm)) (\<lambda>changes.
            bindR (decode_ops b [0..<Ops_N ops]
                \<lparr>bl_vr = NewValueReader (b_Values blk) keys, bl_cum = 0, bl_chIdx = 0, bl_del = 0,
                  bl_left = left, bl_changes = changes\<rparr>) (\<lambda>s.
              Inr (bl_changes s, bl_left s))))))))))))"

fun decode_blocks :: "bytes list \<Rightarrow> int \<Rightarrow> Updates \<Rightarrow> Updates res" where
  "decode_blocks [] left u = Inr u"
| "decode_blocks (raw # raws) left u =
     bindR (ParseBlock raw) (\<lambda>blk.
     bindR (decodeChangeBlock blk left) (\<lambda>(chs, left).
       decode_blocks raws left
         \<lparr>u_Changes = u_Changes u @ chs,
          u_Blocks = Some ((case u_Blocks u of None \<Rightarrow> [] | Some ns \<Rightarrow> ns) @ [int (length chs)])\<rparr>))"

definition DecodeUpdates :: "bytes \<Rightarrow> Updates res" where
  "DecodeUpdates blob =
     bindR (ParseHeader blob) (\<lambda>h.
       if h_Mode h \<noteq> ModeFastUpdates then Inl (Errorf ''expected FastUpdates'')
       else bindR (VerifyChecksum blob) (\<lambda>_.
         bindR (SplitBlocks (h_Body h)) (\<lambda>blocks.
           decode_blocks blocks nameBudgetBase \<lparr>u_Changes = [], u_Blocks = None\<rparr>)))"

end
