(* ===== verification/ValueRoundTrip.thy ===== *)
theory ValueRoundTrip
  imports ChangeValue
begin

text \<open>
  The values stream of \<open>encoding/change/value.go\<close>: what \<open>ValueWriter\<close> writes, \<open>ValueReader\<close>
  reads back. The writer relies on the callback that registers map keys; its contract is the
  locale \<open>key_arena\<close>, which the key register of \<open>encode_updates.go\<close> provides.
\<close>


section \<open>Reading back what was written\<close>

text \<open>
  \<open>vparses keys c dec bs x\<close>: a value reader over the key arena \<open>keys\<close> that does not record
  key orders reads \<open>x\<close> from \<open>bs\<close>, and spends \<open>c\<close> of its key budget.
\<close>

definition vparses ::
  "gostring list \<Rightarrow> nat \<Rightarrow> (valueReader \<Rightarrow> ('a \<times> valueReader) res) \<Rightarrow> bytes \<Rightarrow> 'a \<Rightarrow> bool" where
  "vparses keys c dec bs x \<longleftrightarrow>
     (\<forall>v ys. reader_at (vr_r v) (bs @ ys) \<and> vr_keys v = keys \<and> \<not> vr_recordOrder v \<and> int c \<le> vr_keyBudget v \<longrightarrow>
        dec v = Inr (x, v\<lparr>vr_r := advance (length bs) (vr_r v), vr_keyBudget := vr_keyBudget v - int c\<rparr>))"

lemma vparsesD:
  assumes "vparses keys c dec bs x" and "reader_at (vr_r v) (bs @ ys)" and "vr_keys v = keys"
    and "\<not> vr_recordOrder v" and "int c \<le> vr_keyBudget v"
  shows "dec v = Inr (x, v\<lparr>vr_r := advance (length bs) (vr_r v), vr_keyBudget := vr_keyBudget v - int c\<rparr>)"
  using assms unfolding vparses_def by blast

lemma vparses_on_r: "parses f bs x \<Longrightarrow> vparses keys 0 (on_r f) bs x"
  by (auto simp: vparses_def on_r_def parses_def)

lemma vparses_return: "vparses keys 0 (\<lambda>v. Inr (x, v)) [] x"
  by (simp add: vparses_def)

lemma vparses_bind:
  assumes "vparses keys c d bs x" and "vparses keys c' (\<lambda>v. f (x, v)) cs y"
  shows "vparses keys (c + c') (\<lambda>v. bindR (d v) f) (bs @ cs) y"
  unfolding vparses_def
proof (intro allI impI, elim conjE)
  fix v :: valueReader and ys
  assume at: "reader_at (vr_r v) ((bs @ cs) @ ys)" and k: "vr_keys v = keys"
    and o: "\<not> vr_recordOrder v" and c: "int (c + c') \<le> vr_keyBudget v"
  let ?v = "v\<lparr>vr_r := advance (length bs) (vr_r v), vr_keyBudget := vr_keyBudget v - int c\<rparr>"
  have at1: "reader_at (vr_r v) (bs @ cs @ ys)" using at by simp
  have d: "d v = Inr (x, ?v)" using at1 k o c by (intro vparsesD [OF assms(1)]) simp_all
  have "reader_at (vr_r ?v) (cs @ ys)" using reader_at_advance [OF at1 refl] by simp
  then have "f (x, ?v) = Inr (y, ?v\<lparr>vr_r := advance (length cs) (vr_r ?v),
      vr_keyBudget := vr_keyBudget ?v - int c'\<rparr>)"
    using k o c by (intro vparsesD [OF assms(2)]) simp_all
  then show "bindR (d v) f = Inr (y, v\<lparr>vr_r := advance (length (bs @ cs)) (vr_r v),
      vr_keyBudget := vr_keyBudget v - int (c + c')\<rparr>)"
    by (simp add: d add.commute algebra_simps)
qed

text \<open>
  \<open>writes good names m c dec x f\<close>: the writing function \<open>f\<close> succeeds where the arena is in order,
  appends at least \<open>m\<close> bytes, only adds names to the arena, and \<open>dec\<close> reads \<open>x\<close> back from
  the bytes over every key arena that starts with these names.
\<close>

definition writes ::
  "('k \<Rightarrow> bool) \<Rightarrow> ('k \<Rightarrow> gostring list) \<Rightarrow> nat \<Rightarrow> nat \<Rightarrow>
    (valueReader \<Rightarrow> ('a \<times> valueReader) res) \<Rightarrow> 'a \<Rightarrow> ('k valueWriter \<Rightarrow> 'k valueWriter res) \<Rightarrow> bool" where
  "writes good names m c dec x f \<longleftrightarrow>
     (\<forall>w. good (vw_arena w) \<longrightarrow>
       (\<exists>w' bs. f w = Inr w' \<and> good (vw_arena w') \<and> vw_buf w' = vw_buf w @ bs \<and> m \<le> length bs \<and>
          prefix (names (vw_arena w)) (names (vw_arena w')) \<and>
          (\<forall>keys. go_len keys \<and> prefix (names (vw_arena w')) keys \<longrightarrow> vparses keys c dec bs x)))"

lemma writes_append: "parses dec bs x \<Longrightarrow> writes good names (length bs) 0 (on_r dec) x (\<lambda>w. Inr (vw_append bs w))"
  by (auto simp: writes_def vw_append_def vparses_on_r)

lemma writes_return: "writes good names 0 0 (\<lambda>v. Inr (x, v)) x Inr"
  by (simp add: writes_def vparses_return)

lemma writes_bind:
  assumes "writes good names m c d x f" and "writes good names m' c' (\<lambda>v. e (x, v)) y g"
  shows "writes good names (m + m') (c + c') (\<lambda>v. bindR (d v) e) y (\<lambda>w. bindR (f w) g)"
  unfolding writes_def
proof (intro allI impI)
  fix w :: "'a valueWriter"
  assume "good (vw_arena w)"
  with assms(1) obtain w1 bs where 1: "f w = Inr w1" "good (vw_arena w1)" "vw_buf w1 = vw_buf w @ bs"
      "m \<le> length bs" "prefix (names (vw_arena w)) (names (vw_arena w1))"
    and p1: "\<And>keys. go_len keys \<Longrightarrow> prefix (names (vw_arena w1)) keys \<Longrightarrow> vparses keys c d bs x"
    unfolding writes_def by blast
  from assms(2) 1(2) obtain w2 cs where 2: "g w1 = Inr w2" "good (vw_arena w2)" "vw_buf w2 = vw_buf w1 @ cs"
      "m' \<le> length cs" "prefix (names (vw_arena w1)) (names (vw_arena w2))"
    and p2: "\<And>keys. go_len keys \<Longrightarrow> prefix (names (vw_arena w2)) keys \<Longrightarrow> vparses keys c' (\<lambda>v. e (x, v)) cs y"
    unfolding writes_def by blast
  have "vparses keys (c + c') (\<lambda>v. bindR (d v) e) (bs @ cs) y"
    if "go_len keys" "prefix (names (vw_arena w2)) keys" for keys
  proof -
    have "prefix (names (vw_arena w1)) keys"
      using 2(5) that(2) by (rule prefix_order.trans)
    from vparses_bind [OF p1 [OF that(1) this] p2 [OF that]] show ?thesis .
  qed
  then show "\<exists>w' bs. bindR (f w) g = Inr w' \<and> good (vw_arena w') \<and> vw_buf w' = vw_buf w @ bs \<and>
      m + m' \<le> length bs \<and> prefix (names (vw_arena w)) (names (vw_arena w')) \<and>
      (\<forall>keys. go_len keys \<and> prefix (names (vw_arena w')) keys \<longrightarrow>
        vparses keys (c + c') (\<lambda>v. bindR (d v) e) bs y)"
    using 1 2 by (intro exI [of _ w2] exI [of _ "bs @ cs"]) (auto intro: prefix_order.trans)
qed

lemma bindR_right: "bindR m Inr = m"
  by (cases m) simp_all

lemma writes_map:
  assumes "writes good names m c d x f" and "\<And>v. e (x, v) = Inr (y, v)"
  shows "writes good names m c (\<lambda>v. bindR (d v) e) y f"
proof -
  have "writes good names 0 0 (\<lambda>v. e (x, v)) y Inr"
    by (simp add: assms(2) writes_return)
  from writes_bind [OF assms(1) this] show ?thesis by (simp add: bindR_right)
qed

lemma writes_cong:
  "writes good names m c d x f \<Longrightarrow> (\<And>v. \<not> vr_recordOrder v \<Longrightarrow> d v = d' v) \<Longrightarrow> (\<And>w. f w = f' w) \<Longrightarrow>
    m' \<le> m \<Longrightarrow> c = c' \<Longrightarrow> writes good names m' c' d' x f'"
  unfolding writes_def vparses_def by (simp, meson order_trans)

lemma writes_guard:
  assumes "writes good names m c d x f" and "n \<le> m"
  shows "writes good names m c (\<lambda>v. if n > reader_Remaining (vr_r v) then Inl e else d v) x f"
  unfolding writes_def
proof (intro allI impI)
  fix w :: "'a valueWriter"
  assume "good (vw_arena w)"
  with assms(1) obtain w1 bs where 1: "f w = Inr w1" "good (vw_arena w1)" "vw_buf w1 = vw_buf w @ bs"
      "m \<le> length bs" "prefix (names (vw_arena w)) (names (vw_arena w1))"
    and p1: "\<And>keys. go_len keys \<Longrightarrow> prefix (names (vw_arena w1)) keys \<Longrightarrow> vparses keys c d bs x"
    unfolding writes_def by blast
  have "vparses keys c (\<lambda>v. if n > reader_Remaining (vr_r v) then Inl e else d v) bs x"
    if "go_len keys" "prefix (names (vw_arena w1)) keys" for keys
    using p1 [OF that] 1(4) assms(2) by (auto simp: vparses_def reader_at_Remaining)
  then show "\<exists>w' bs. f w = Inr w' \<and> good (vw_arena w') \<and> vw_buf w' = vw_buf w @ bs \<and>
      m \<le> length bs \<and> prefix (names (vw_arena w)) (names (vw_arena w')) \<and>
      (\<forall>keys. go_len keys \<and> prefix (names (vw_arena w')) keys \<longrightarrow>
        vparses keys c (\<lambda>v. if n > reader_Remaining (vr_r v) then Inl e else d v) bs x)"
    using 1 by blast
qed

lemma vw_U64_eq: "vw_U64 x w = vw_append (uvarint_bytes x) w"
  and vw_I64_eq: "vw_I64 y w = vw_append (leb_bytes y) w"
  by (simp_all add: vw_U64_def vw_I64_def vw_append_def AppendUvarint_eq [of "vw_buf w"]
      appendLEBSigned_append [of "vw_buf w"])

lemma vw_Str_eq: "vw_Str s w = vw_append (uvarint_bytes (of_nat (length s)) @ s) w"
  and vw_Binary_eq: "vw_Binary s w = vw_append (uvarint_bytes (of_nat (length s)) @ s) w"
  by (simp_all add: vw_Str_def vw_Binary_def vw_U64_eq vw_append_def)

lemma binary_parses:
  assumes "go_len s"
  shows "parses (\<lambda>r. bindR (reader_Uvarint r) (\<lambda>(n, r).
       if unat n > reader_Remaining r then Inl e else reader_Bytes (sint n) r))
    (uvarint_bytes (of_nat (length s)) @ s) s"
proof (rule parses_bindR [OF reader_Uvarint_parses], simp only: case_prod_conv, rule parses_guard)
  fix r ys
  assume "reader_at r (s @ ys)"
  then show "\<not> unat (of_nat (length s) :: u64) > reader_Remaining r"
    by (simp add: go_len_unat [OF assms] reader_at_Remaining)
next
  show "parses (reader_Bytes (sint (of_nat (length s) :: u64))) s s"
    by (rule reader_Bytes_parses) (rule go_len_sint [OF assms])
qed

lemma f64_parses: "parses (\<lambda>r. bindR (reader_Bytes 8 r) (\<lambda>(b, r). Inr (be_get b, r))) (be_put 8 f) f"
  for f :: u64
  by (rule parses_bindR_last [OF reader_Bytes_parses]) (simp_all add: be_get_put)


section \<open>Values that can be written\<close>

text \<open>
  \<open>lval_ok x d\<close>: the value \<open>x\<close>, at nesting depth \<open>d\<close>, has a type the writer knows, is not too
  deep, its maps are canonical and its lengths fit a Go slice. \<open>lval_cost\<close> counts the bytes of
  the keys its maps refer to.
\<close>

primrec lval_ok :: "lval \<Rightarrow> nat \<Rightarrow> bool" where
  "lval_ok LNull d = (d \<le> maxLoroValueDepth)"
| "lval_ok (LBool b) d = (d \<le> maxLoroValueDepth)"
| "lval_ok (LI64 x) d = (d \<le> maxLoroValueDepth)"
| "lval_ok (LF64 x) d = (d \<le> maxLoroValueDepth)"
| "lval_ok (LStr x) d = (d \<le> maxLoroValueDepth \<and> go_len x)"
| "lval_ok (LBin x) d = (d \<le> maxLoroValueDepth \<and> go_len x)"
| "lval_ok (LContainer x) d = (d \<le> maxLoroValueDepth)"
| "lval_ok (LList xs) d =
     (d \<le> maxLoroValueDepth \<and> go_len xs \<and> list_all (\<lambda>ok. ok (Suc d)) (map lval_ok xs))"
| "lval_ok (LMap m) d =
     (d \<le> maxLoroValueDepth \<and> go_len m \<and> gm_ok m \<and>
      list_all (\<lambda>(k, ok). ok (Suc d)) (map (map_prod id lval_ok) m))"
| "lval_ok LOther d = False"

primrec lval_cost :: "lval \<Rightarrow> nat" where
  "lval_cost LNull = 0"
| "lval_cost (LBool b) = 0"
| "lval_cost (LI64 x) = 0"
| "lval_cost (LF64 x) = 0"
| "lval_cost (LStr x) = 0"
| "lval_cost (LBin x) = 0"
| "lval_cost (LContainer x) = 0"
| "lval_cost (LList xs) = sum_list (map lval_cost xs)"
| "lval_cost (LMap m) = sum_list (map (\<lambda>(k, c). length k + c) (map (map_prod id lval_cost) m))"
| "lval_cost LOther = 0"

lemma lval_ok_depth: "lval_ok x d \<Longrightarrow> d \<le> maxLoroValueDepth"
  by (cases x) auto

section \<open>The contract of the key register\<close>

locale key_arena =
  fixes key :: "'k keyfun" and good :: "'k \<Rightarrow> bool" and names :: "'k \<Rightarrow> gostring list"
  assumes key_good: "good a \<Longrightarrow> key a k = (i, a') \<Longrightarrow> good a'"
    and key_grows: "good a \<Longrightarrow> key a k = (i, a') \<Longrightarrow> prefix (names a) (names a')"
    and key_index: "good a \<Longrightarrow> key a k = (i, a') \<Longrightarrow> go_len (names a') \<Longrightarrow>
      unat i < length (names a') \<and> names a' ! unat i = k"
begin

definition put_name :: "gostring \<Rightarrow> 'k valueWriter \<Rightarrow> 'k valueWriter res" where
  "put_name k w = (case key (vw_arena w) k of (i, a) \<Rightarrow> Inr (vw_U64 i (w\<lparr>vw_arena := a\<rparr>)))"

lemma writes_key: "writes good names 1 (length k) (vr_key None) k (put_name k)"
  unfolding writes_def
proof (intro allI impI)
  fix w :: "'k valueWriter"
  assume g: "good (vw_arena w)"
  obtain i a where ka: "key (vw_arena w) k = (i, a)" by fastforce
  note law = key_good [OF g ka] key_grows [OF g ka]
  have "vparses keys (length k) (vr_key None) (uvarint_bytes i) k"
    if keys: "go_len keys" "prefix (names a) keys" for keys
  proof -
    from keys have "go_len (names a)"
      using prefix_length_le [OF keys(2)] by (simp add: go_len_def)
    from key_index [OF g ka this] keys(2) have i: "unat i < length keys" "keys ! unat i = k"
      by (auto elim!: prefixE simp: nth_append)
    have u: "vparses keys 0 vr_U64 (uvarint_bytes i) i"
      unfolding vr_U64_def by (rule vparses_on_r [OF reader_Uvarint_parses])
    have "vparses keys (length k) (\<lambda>v. (\<lambda>(ki, v).
       if unat ki \<ge> length (vr_keys v) then Inl (Errorf ''map key index out of range'')
       else
         let k = vr_keys v ! unat ki;
             v = v\<lparr>vr_keyBudget := vr_keyBudget v - int (length k)\<rparr> in
         if vr_keyBudget v < 0 then Inl (Errorf ''nested map keys reference more key bytes than allowed'')
         else Inr (k, case None of None \<Rightarrow> v
           | Some s \<Rightarrow> v\<lparr>vr_orders := (vr_orders v)[s := vr_orders v ! s @ [k]]\<rparr>)) (i, v)) [] k"
      using i by (simp add: vparses_def Let_def)
    from vparses_bind [OF u this] show ?thesis by (simp add: vr_key_def [abs_def])
  qed
  moreover have "1 \<le> length (uvarint_bytes i)" by (simp add: Suc_le_eq)
  ultimately show "\<exists>w' bs. put_name k w = Inr w' \<and> good (vw_arena w') \<and> vw_buf w' = vw_buf w @ bs \<and>
      1 \<le> length bs \<and> prefix (names (vw_arena w)) (names (vw_arena w')) \<and>
      (\<forall>keys. go_len keys \<and> prefix (names (vw_arena w')) keys \<longrightarrow>
        vparses keys (length k) (vr_key None) bs k)"
    using law by (auto simp: put_name_def ka vw_U64_eq vw_append_def)
qed

lemma writes_elems:
  "(\<And>x. x \<in> set xs \<Longrightarrow> writes good names 1 (c x) dec x (wr x)) \<Longrightarrow>
    writes good names (length xs) (sum_list (map c xs)) (vr_elems (length xs) dec) xs (seqR (map wr xs))"
proof (induction xs)
  case Nil
  then show ?case
    by (auto intro!: writes_cong [OF writes_return])
next
  case (Cons x xs)
  have "writes good names (length xs) (sum_list (map c xs))
      (\<lambda>v. bindR (vr_elems (length xs) dec v) (\<lambda>(xs, v). Inr (x # xs, v))) (x # xs) (seqR (map wr xs))"
    by (rule writes_map [OF Cons.IH]) (use Cons.prems in auto)
  then have "writes good names (length xs) (sum_list (map c xs))
      (\<lambda>v. (\<lambda>(x, v). bindR (vr_elems (length xs) dec v) (\<lambda>(xs, v). Inr (x # xs, v))) (x, v))
      (x # xs) (seqR (map wr xs))" by simp
  from writes_bind [OF Cons.prems [of x] this] show ?case by simp
qed

lemma writes_entries:
  "(\<And>k x. (k, x) \<in> set rest \<Longrightarrow> writes good names 1 (c x) dec x (wr x) \<and> gm_get ws k = Some (wr x)) \<Longrightarrow>
    gm_ok (out @ rest) \<Longrightarrow>
    writes good names (length rest) (sum_list (map (\<lambda>(k, x). length k + c x) rest))
      (vr_entries (length rest) None dec out) (out @ rest) (vw_entries key ws (map fst rest))"
proof (induction rest arbitrary: out)
  case Nil
  then show ?case
    by (auto intro!: writes_cong [OF writes_return])
next
  case (Cons e rest)
  obtain k x where e: "e = (k, x)" by fastforce
  from Cons.prems(1) [of k x] have wx: "writes good names 1 (c x) dec x (wr x)"
    and get: "gm_get ws k = Some (wr x)" by (simp_all add: e)
  have put: "gm_put k x out = out @ [(k, x)]"
    using Cons.prems(2) by (intro gm_put_last) (auto simp: e gm_ok_append)
  have "writes good names (length rest) (sum_list (map (\<lambda>(k, x). length k + c x) rest))
      (vr_entries (length rest) None dec (out @ [(k, x)])) ((out @ [(k, x)]) @ rest)
      (vw_entries key ws (map fst rest))"
    by (rule Cons.IH) (use Cons.prems in \<open>auto simp: e\<close>)
  then have 1: "writes good names (length rest) (sum_list (map (\<lambda>(k, x). length k + c x) rest))
      (\<lambda>v. (\<lambda>(val, v). vr_entries (length rest) None dec (gm_put k val out) v) (x, v))
      (out @ e # rest) (vw_entries key ws (map fst rest))"
    by (simp add: put e)
  from writes_bind [OF wx this]
  have "writes good names (1 + length rest) (c x + sum_list (map (\<lambda>(k, x). length k + c x) rest))
      (\<lambda>v. (\<lambda>(k, v). bindR (dec v) (\<lambda>(val, v). vr_entries (length rest) None dec (gm_put k val out) v)) (k, v))
      (out @ e # rest) (\<lambda>w. bindR (wr x w) (vw_entries key ws (map fst rest)))"
    by simp
  from writes_bind [OF writes_key this] show ?case
    by (rule writes_cong)
      (simp_all add: e get add.assoc put_name_def split_def Let_def)
qed

end

text \<open>The reader after the kind byte.\<close>

definition after_kind :: "nat \<Rightarrow> byte \<times> valueReader \<Rightarrow> (lval \<times> valueReader) res" where
  "after_kind depth = (\<lambda>(kb, v).
        if kb = lvNull then Inr (LNull, v)
        else if kb = lvTrue then Inr (LBool True, v)
        else if kb = lvFalse then Inr (LBool False, v)
        else if kb = lvI64 then bindR (vr_I64 v) (\<lambda>(x, v). Inr (LI64 x, v))
        else if kb = lvF64 then bindR (vr_F64 v) (\<lambda>(x, v). Inr (LF64 x, v))
        else if kb = lvStr then bindR (vr_Str v) (\<lambda>(x, v). Inr (LStr x, v))
        else if kb = lvBinary then bindR (vr_Binary v) (\<lambda>(x, v). Inr (LBin x, v))
        else if kb = lvList then
          bindR (vr_U64 v) (\<lambda>(n, v).
            if unat n > reader_Remaining (vr_r v) then Inl (Errorf ''list length exceeds remaining'')
            else bindR (vr_elems (unat n) (loroValue (depth + 1)) v) (\<lambda>(xs, v). Inr (LList xs, v)))
        else if kb = lvMap then
          bindR (vr_U64 v) (\<lambda>(n, v).
            if unat n > reader_Remaining (vr_r v) then Inl (Errorf ''map length exceeds remaining'')
            else
              let slot = (if vr_recordOrder v then Some (length (vr_orders v)) else None);
                  v = (if vr_recordOrder v then v\<lparr>vr_orders := vr_orders v @ [[]]\<rparr> else v) in
              bindR (vr_entries (unat n) slot (loroValue (depth + 1)) [] v) (\<lambda>(m, v). Inr (LMap m, v)))
        else if kb = lvContainer then
          bindR (on_r reader_Byte v) (\<lambda>(ct, v). Inr (LContainer ct, v))
        else Inl (Errorf ''unknown LoroValueKind''))"

lemma loroValue_eq:
  "loroValue d v =
    (if d > maxLoroValueDepth then Inl (Errorf ''LoroValue nested too deep'')
     else bindR (on_r reader_Byte v) (after_kind d))"
  unfolding after_kind_def by (rule loroValue.simps)

lemma after_kind_simps:
  "after_kind d (lvNull, v) = Inr (LNull, v)"
  "after_kind d (lvTrue, v) = Inr (LBool True, v)"
  "after_kind d (lvFalse, v) = Inr (LBool False, v)"
  "after_kind d (lvI64, v) = bindR (vr_I64 v) (\<lambda>(x, v). Inr (LI64 x, v))"
  "after_kind d (lvF64, v) = bindR (vr_F64 v) (\<lambda>(x, v). Inr (LF64 x, v))"
  "after_kind d (lvStr, v) = bindR (vr_Str v) (\<lambda>(x, v). Inr (LStr x, v))"
  "after_kind d (lvBinary, v) = bindR (vr_Binary v) (\<lambda>(x, v). Inr (LBin x, v))"
  "after_kind d (lvContainer, v) = bindR (on_r reader_Byte v) (\<lambda>(ct, v). Inr (LContainer ct, v))"
  "after_kind d (lvList, v) = bindR (vr_U64 v) (\<lambda>(n, v).
      if unat n > reader_Remaining (vr_r v) then Inl (Errorf ''list length exceeds remaining'')
      else bindR (vr_elems (unat n) (loroValue (Suc d)) v) (\<lambda>(xs, v). Inr (LList xs, v)))"
  by (simp_all only: after_kind_def case_prod_conv Suc_eq_plus1) (simp_all add: lv_defs)

lemma after_kind_map:
  assumes "\<not> vr_recordOrder v"
  shows "after_kind d (lvMap, v) = bindR (vr_U64 v) (\<lambda>(n, v).
      if unat n > reader_Remaining (vr_r v) then Inl (Errorf ''map length exceeds remaining'')
      else bindR (vr_entries (unat n) None (loroValue (Suc d)) [] v) (\<lambda>(m, v). Inr (LMap m, v)))"
proof -
  have "\<not> vr_recordOrder v'" if "vr_U64 v = Inr (n, v')" for n v'
    using that assms by (auto simp: vr_U64_def on_r_def bindR_Inr_iff)
  then show ?thesis
    by (cases "vr_U64 v") (auto simp: after_kind_def lv_defs)
qed

lemma writes_loro:
  assumes "d \<le> maxLoroValueDepth" and "writes good names m c (\<lambda>v. after_kind d (k, v)) x g"
    and "\<And>w. f w = g (vw_append [k] w)"
  shows "writes good names 1 c (loroValue d) x f"
proof (rule writes_cong)
  show "writes good names (length [k] + m) (0 + c) (\<lambda>v. bindR (on_r reader_Byte v) (after_kind d)) x
      (\<lambda>w. bindR (Inr (vw_append [k] w)) g)"
    by (rule writes_bind [OF writes_append [OF reader_Byte_parses] assms(2)])
qed (use assms(1,3) in \<open>simp_all add: loroValue_eq\<close>)

lemma writes_leaf:
  assumes "parses dec bs y" and "\<And>v. e (y, v) = Inr (x, v)" and "\<And>w. g w = Inr (vw_append bs w)"
  shows "writes good names 0 0 (\<lambda>v. bindR (on_r dec v) e) x g"
  by (rule writes_cong [OF writes_map [OF writes_append [OF assms(1)] assms(2)]]) (simp_all add: assms(3))

text \<open>A length that is at most the number of bytes written after it passes its check.\<close>

lemma writes_counted:
  assumes "go_len xs" and "writes good names m c (d (length xs)) x f" and "length xs \<le> m"
  shows "writes good names 0 c (\<lambda>v. bindR (vr_U64 v) (\<lambda>(n, v).
      if unat n > reader_Remaining (vr_r v) then Inl e else d (unat n) v)) x
    (\<lambda>w. f (vw_U64 (of_nat (length xs)) w))"
proof (rule writes_cong)
  have "writes good names m c (\<lambda>v. (\<lambda>(n, v). if unat n > reader_Remaining (vr_r v) then Inl e else d (unat n) v)
      (of_nat (length xs) :: u64, v)) x f"
    unfolding case_prod_conv go_len_unat [OF assms(1)] by (rule writes_guard [OF assms(2,3)])
  from writes_bind [OF writes_append [OF reader_Uvarint_parses] this]
  show "writes good names (length (uvarint_bytes (of_nat (length xs))) + m) (0 + c)
      (\<lambda>v. bindR (vr_U64 v) (\<lambda>(n, v). if unat n > reader_Remaining (vr_r v) then Inl e else d (unat n) v)) x
      (\<lambda>w. bindR (Inr (vw_append (uvarint_bytes (of_nat (length xs))) w)) f)"
    by (simp add: vr_U64_def [abs_def])
qed (simp_all add: vw_U64_eq)

context key_arena
begin

text \<open>Every value in order is written so that it reads back, at its nesting depth.\<close>

lemma writes_LoroValue:
  "lval_ok x d \<Longrightarrow>
    writes good names 1 (lval_cost x) (loroValue d) x (vw_LoroValue (Some key) None x)"
proof (induction x arbitrary: d)
  case LNull
  then show ?case
    by (intro writes_loro [where k = lvNull and g = Inr and m = 0])
      (simp_all add: after_kind_simps writes_return)
next
  case (LBool b)
  then show ?case
    by (intro writes_loro [where k = "if b then lvTrue else lvFalse" and g = Inr and m = 0])
      (cases b; simp add: after_kind_simps writes_return)+
next
  case (LI64 x)
  then show ?case
    by (intro writes_loro [where k = lvI64 and m = 0 and g = "\<lambda>w. Inr (vw_I64 x w)"])
      (auto simp: after_kind_simps vr_I64_def [abs_def] vw_I64_eq intro!: writes_leaf [OF leb_reads_back])
next
  case (LF64 x)
  then show ?case
    by (intro writes_loro [where k = lvF64 and m = 0 and g = "\<lambda>w. Inr (vw_F64 x w)"])
      (auto simp: after_kind_simps vr_F64_def [abs_def] vw_F64_def intro!: writes_leaf [OF f64_parses])
next
  case (LStr x)
  then show ?case
    by (intro writes_loro [where k = lvStr and m = 0 and g = "\<lambda>w. Inr (vw_Str x w)"])
      (auto simp: after_kind_simps vr_Str_def [abs_def] vw_Str_eq intro!: writes_leaf [OF reader_String_parses])
next
  case (LBin x)
  then show ?case
    by (intro writes_loro [where k = lvBinary and m = 0 and g = "\<lambda>w. Inr (vw_Binary x w)"])
      (auto simp: after_kind_simps vr_Binary_def [abs_def] vw_Binary_eq intro!: writes_leaf [OF binary_parses])
next
  case (LContainer x)
  then show ?case
    by (intro writes_loro [where k = lvContainer and m = 0 and g = "\<lambda>w. Inr (vw_append [x] w)"])
      (auto simp: after_kind_simps vw_append_def intro!: writes_leaf [OF reader_Byte_parses])
next
  case (LList xs)
  have "writes good names (length xs) (sum_list (map lval_cost xs)) (vr_elems (length xs) (loroValue (Suc d))) xs
      (seqR (map (vw_LoroValue (Some key) None) xs))"
    by (rule writes_elems) (use LList in \<open>auto simp: list_all_iff\<close>)
  then have "writes good names (length xs) (lval_cost (LList xs))
      (\<lambda>v. bindR (vr_elems (length xs) (loroValue (Suc d)) v) (\<lambda>(xs, v). Inr (LList xs, v))) (LList xs)
      (seqR (map (vw_LoroValue (Some key) None) xs))"
    by (auto intro!: writes_map)
  from writes_counted [where d = "\<lambda>n v. bindR (vr_elems n (loroValue (Suc d)) v) (\<lambda>(xs, v). Inr (LList xs, v))",
      OF _ this order_refl, of "Errorf ''list length exceeds remaining''"] LList.prems
  show ?case
    by (intro writes_loro [where k = lvList and m = 0])
      (simp_all only: after_kind_simps vw_LoroValue.simps lval_ok.simps order_refl)
next
  case (LMap m)
  let ?ws = "map (map_prod id (vw_LoroValue (Some key) None)) m"
  have ok: "gm_ok m" "go_len m" "d \<le> maxLoroValueDepth" using LMap.prems by simp_all
  have get: "gm_get ?ws k = Some (vw_LoroValue (Some key) None x)" if "(k, x) \<in> set m" for k x
  proof -
    have "gm_ok ?ws" using ok(1) by (simp add: gm_ok_def o_def)
    moreover from that have "(k, vw_LoroValue (Some key) None x) \<in> set ?ws" by force
    ultimately show ?thesis by (simp add: gm_get_set)
  qed
  have "writes good names (length m) (sum_list (map (\<lambda>(k, x). length k + lval_cost x) m))
      (vr_entries (length m) None (loroValue (Suc d)) []) ([] @ m) (vw_entries key ?ws (map fst m))"
  proof (rule writes_entries, rule conjI)
    fix k x
    assume kx: "(k, x) \<in> set m"
    then have "lval_ok x (Suc d)" using LMap.prems by (fastforce simp: list_all_iff)
    then show "writes good names 1 (lval_cost x) (loroValue (Suc d)) x (vw_LoroValue (Some key) None x)"
      using LMap.IH [OF kx, of x "Suc d"] by simp
    show "gm_get ?ws k = Some (vw_LoroValue (Some key) None x)" by (rule get [OF kx])
  qed (use ok in simp)
  then have "writes good names (length m) (lval_cost (LMap m))
      (\<lambda>v. bindR (vr_entries (length m) None (loroValue (Suc d)) [] v) (\<lambda>(m, v). Inr (LMap m, v))) (LMap m)
      (vw_entries key ?ws (map fst m))"
    by (auto simp: o_def split_def intro!: writes_map)
  from writes_counted [where d = "\<lambda>n v. bindR (vr_entries n None (loroValue (Suc d)) [] v) (\<lambda>(m, v). Inr (LMap m, v))",
      OF ok(2) this order_refl, of "Errorf ''map length exceeds remaining''"]
  have "writes good names 0 (lval_cost (LMap m)) (\<lambda>v. after_kind d (lvMap, v)) (LMap m)
      (\<lambda>w. vw_entries key ?ws (map fst m) (vw_U64 (of_nat (length m)) w))"
    by (rule writes_cong) (simp_all add: after_kind_map)
  then show ?case
    by (rule writes_loro [OF ok(3)])
      (use ok(1) in \<open>simp add: mapKeys_def gm_ok_def sorted_sort_id strict_sorted_imp_sorted\<close>)
next
  case LOther
  then show ?case by simp
qed

end

section \<open>The values of the op kinds\<close>

text \<open>
  What a kind can carry so that it reads back: the reader returns fixed values for the kinds
  without content, refuses a \<open>ListSet\<close> that is out of range, and knows no parent for a tree
  root.
\<close>

fun content_ok :: "byte \<Rightarrow> goany \<Rightarrow> bool" where
  "content_ok vk (AVal x) =
     (if vk = VKNull \<or> vk = VKDeleteOnce \<or> vk = VKDeleteSeq then x = LNull
      else if vk = VKTrue then x = LBool True
      else if vk = VKFalse then x = LBool False
      else if vk = VKI64 \<or> vk = VKDeltaInt then (case x of LI64 i \<Rightarrow> True | _ \<Rightarrow> False)
      else if vk = VKF64 then (case x of LF64 f \<Rightarrow> True | _ \<Rightarrow> False)
      else if vk = VKStr then (case x of LStr s \<Rightarrow> go_len s | _ \<Rightarrow> False)
      else if vk = VKBinary then (case x of LBin b \<Rightarrow> go_len b | _ \<Rightarrow> False)
      else vk = VKLoroValue \<and> lval_ok x 0)"
| "content_ok vk (AU64 x) = (vk = VKContainer)"
| "content_ok vk (AMark m) = (vk = VKMarkStart \<and> lval_ok (m_Value m) 0)"
| "content_ok vk (AListMove m) = (vk = VKListMove)"
| "content_ok vk (AListSet s) =
     (vk = VKListSet \<and> ls_Lamport s \<le> 2 ^ 32 - 1 \<and> ls_PeerIdx s \<le> 2 ^ 31 - 1 \<and> lval_ok (ls_Value s) 0)"
| "content_ok vk (ARawTreeMove m) =
     (vk = VKRawTreeMove \<and> (rt_ParentNull m \<longrightarrow> rt_ParentPeerIdx m = 0 \<and> rt_ParentCounter m = 0))"

fun content_cost :: "goany \<Rightarrow> nat" where
  "content_cost (AVal x) = lval_cost x"
| "content_cost (AMark m) = lval_cost (m_Value m)"
| "content_cost (AListSet s) = lval_cost (ls_Value s)"
| "content_cost _ = 0"

lemma writes_put:
  assumes "parses dec bs y" and "writes good names 0 c (\<lambda>v. e y v) x g"
  shows "writes good names 0 c (\<lambda>v. bindR (on_r dec v) (\<lambda>(y, v). e y v)) x (\<lambda>w. g (vw_append bs w))"
proof (rule writes_cong)
  have "writes good names 0 c (\<lambda>v. (\<lambda>(y, v). e y v) (y, v)) x g" using assms(2) by simp
  then show "writes good names (length bs + 0) (0 + c) (\<lambda>v. bindR (on_r dec v) (\<lambda>(y, v). e y v)) x
      (\<lambda>w. bindR (Inr (vw_append bs w)) g)"
    by (rule writes_bind [OF writes_append [OF assms(1)]])
qed simp_all

lemma writes_done: "y = x \<Longrightarrow> writes good names 0 0 (\<lambda>v. Inr (y, v)) x Inr"
  by (simp add: writes_return)

lemmas writes_uvarint = writes_put [OF reader_Uvarint_parses]

lemma writes_min: "writes good names m c d x f \<Longrightarrow> writes good names 0 c d x f"
  by (rule writes_cong) simp_all

lemma writes_ListMove: "writes good names 0 0 ReadListMove m (\<lambda>w. Inr (vw_ListMove m w))"
  unfolding ReadListMove_def [abs_def] vw_ListMove_def vw_U64_eq
  by (rule writes_uvarint [of _ _ _ _ "lm_From m"], rule writes_uvarint [of _ _ _ _ "lm_FromIdx m"],
      rule writes_uvarint [of _ _ _ _ "lm_Lamport m"], rule writes_done, cases m) simp

lemma writes_RawTreeMove:
  assumes "rt_ParentNull m \<longrightarrow> rt_ParentPeerIdx m = 0 \<and> rt_ParentCounter m = 0"
  shows "writes good names 0 0 ReadRawTreeMove m (\<lambda>w. Inr (vw_RawTreeMove m w))"
proof (cases "rt_ParentNull m")
  case True
  with assms show ?thesis
    unfolding ReadRawTreeMove_def [abs_def] vw_RawTreeMove_def vw_U64_eq Let_def if_P [OF True]
    by (intro writes_uvarint [of _ _ _ _ "rt_SubjectPeerIdx m"] writes_uvarint [of _ _ _ _ "rt_SubjectCounter m"]
        writes_uvarint [of _ _ _ _ "rt_PositionIdx m"] writes_put [OF reader_Byte_parses [of 1]])
      (simp, rule writes_done, cases m, simp)
next
  case False
  then show ?thesis
    unfolding ReadRawTreeMove_def [abs_def] vw_RawTreeMove_def vw_U64_eq Let_def if_not_P [OF False]
    by (intro writes_uvarint [of _ _ _ _ "rt_SubjectPeerIdx m"] writes_uvarint [of _ _ _ _ "rt_SubjectCounter m"]
        writes_uvarint [of _ _ _ _ "rt_PositionIdx m"] writes_put [OF reader_Byte_parses [of 0]])
      (simp, rule writes_uvarint [of _ _ _ _ "rt_ParentPeerIdx m"],
        rule writes_uvarint [of _ _ _ _ "rt_ParentCounter m"], rule writes_done, cases m, simp)
qed

text \<open>The contents of a list of ops, as the callers read and write them one after the other.\<close>

fun read_contents :: "byte list \<Rightarrow> valueReader \<Rightarrow> (goany list \<times> valueReader) res" where
  "read_contents [] v = Inr ([], v)"
| "read_contents (vk # vks) v =
     bindR (ReadOpContent vk v) (\<lambda>(x, v).
     bindR (read_contents vks v) (\<lambda>(xs, v). Inr (x # xs, v)))"

fun write_contents ::
  "'k keyfun option \<Rightarrow> 'k orderfun option \<Rightarrow> (byte \<times> goany) list \<Rightarrow> 'k valueWriter \<Rightarrow> 'k valueWriter res" where
  "write_contents Key KeyOrder [] w = Inr w"
| "write_contents Key KeyOrder ((vk, x) # cs) w =
     bindR (WriteOpContent Key KeyOrder vk x w) (write_contents Key KeyOrder cs)"

context key_arena
begin

lemma writes_Mark:
  assumes "lval_ok (m_Value m) 0"
  shows "writes good names 0 (lval_cost (m_Value m)) ReadMark m (vw_Mark (Some key) None m)"
proof -
  have 1: "writes good names 1 (lval_cost (m_Value m))
      (\<lambda>v. bindR (vr_LoroValue v) (\<lambda>(val, v).
        Inr (\<lparr>m_Info = m_Info m, m_Len = m_Len m, m_KeyIdx = m_KeyIdx m, m_Value = val\<rparr>, v))) m
      (vw_LoroValue (Some key) None (m_Value m))"
    unfolding vr_LoroValue_def by (rule writes_map [OF writes_LoroValue [OF assms]]) (cases m, simp)
  show ?thesis
    unfolding ReadMark_def [abs_def] vw_Mark_def [abs_def] vw_U64_eq
    by (rule writes_put [OF reader_Byte_parses [of "m_Info m"]], rule writes_uvarint [of _ _ _ _ "m_Len m"],
        rule writes_uvarint [of _ _ _ _ "m_KeyIdx m"], rule writes_min [OF 1])
qed

lemma writes_ListSet:
  assumes "lval_ok (ls_Value s) 0" and "ls_Lamport s \<le> 2 ^ 32 - 1" and "ls_PeerIdx s \<le> 2 ^ 31 - 1"
  shows "writes good names 0 (lval_cost (ls_Value s)) ReadListSet s (vw_ListSet (Some key) None s)"
proof -
  have 1: "writes good names 1 (lval_cost (ls_Value s))
      (\<lambda>v. bindR (vr_LoroValue v) (\<lambda>(val, v).
        Inr (\<lparr>ls_PeerIdx = ls_PeerIdx s, ls_Lamport = ls_Lamport s, ls_Value = val\<rparr>, v))) s
      (vw_LoroValue (Some key) None (ls_Value s))"
    unfolding vr_LoroValue_def by (rule writes_map [OF writes_LoroValue [OF assms(1)]]) (cases s, simp)
  have 2: "\<not> (ls_Lamport s > 2 ^ 32 - 1 \<or> ls_PeerIdx s > 2 ^ 31 - 1)"
    using assms(2,3) by (simp only: not_less de_Morgan_disj)
  show ?thesis
    unfolding ReadListSet_def [abs_def] vw_ListSet_def [abs_def] vw_U64_eq
    by (rule writes_uvarint [of _ _ _ _ "ls_PeerIdx s"], rule writes_uvarint [of _ _ _ _ "ls_Lamport s"])
      (simp only: 2 if_False writes_min [OF 1])
qed

lemma writes_OpContent:
  assumes "content_ok vk x"
  shows "writes good names 0 (content_cost x) (ReadOpContent vk) x (WriteOpContent (Some key) None vk x)"
proof (cases x)
  case (AVal y)
  have leaf: "writes good names 0 0 (\<lambda>v. bindR (on_r dec v) (\<lambda>(z, v). Inr (AVal (k z), v))) (AVal (k y))
      (\<lambda>w. Inr (vw_append bs w))" if "parses dec bs y" for dec bs y and k :: "_ \<Rightarrow> lval"
    using that by (rule writes_leaf) simp_all
  have nil: "writes good names 0 0 (\<lambda>v. Inr (AVal y, v)) (AVal y) (\<lambda>w. Inr w)"
    by (rule writes_return)
  consider "vk = VKNull \<or> vk = VKDeleteOnce \<or> vk = VKDeleteSeq" "y = LNull" | "vk = VKTrue" "y = LBool True"
    | "vk = VKFalse" "y = LBool False" | i where "vk = VKI64 \<or> vk = VKDeltaInt" "y = LI64 i"
    | f where "vk = VKF64" "y = LF64 f" | s where "vk = VKStr" "y = LStr s" "go_len s"
    | b where "vk = VKBinary" "y = LBin b" "go_len b" | "vk = VKLoroValue" "lval_ok y 0"
    using assms unfolding AVal by (auto split: if_splits lval.splits)
  then show ?thesis
  proof cases
    case 4
    then show ?thesis
      using leaf [OF leb_reads_back, of LI64 i]
      by (auto simp: AVal ReadOpContent_def [abs_def] WriteOpContent_def [abs_def] vk_defs
          vr_I64_def [abs_def] vw_I64_eq)
  next
    case 5
    then show ?thesis
      using leaf [OF f64_parses, of LF64 f]
      by (simp add: AVal ReadOpContent_def [abs_def] WriteOpContent_def [abs_def] vk_defs
          vr_F64_def [abs_def] vw_F64_def)
  next
    case 6
    then show ?thesis
      using leaf [OF reader_String_parses [OF 6(3)], of LStr]
      by (simp add: AVal ReadOpContent_def [abs_def] WriteOpContent_def [abs_def] vk_defs
          vr_Str_def [abs_def] vw_Str_eq)
  next
    case 7
    then show ?thesis
      using leaf [OF binary_parses [OF 7(3), of "Errorf ''binary length exceeds remaining''"], of LBin]
      by (simp add: AVal ReadOpContent_def [abs_def] WriteOpContent_def [abs_def] vk_defs
          vr_Binary_def [abs_def] vw_Binary_eq)
  next
    case 8
    have "writes good names 0 (lval_cost y) (\<lambda>v. bindR (vr_LoroValue v) (\<lambda>(x, v). Inr (AVal x, v))) (AVal y)
        (vw_LoroValue (Some key) None y)"
      unfolding vr_LoroValue_def by (rule writes_min [OF writes_map [OF writes_LoroValue [OF 8(2)]]]) simp
    with 8 show ?thesis
      by (simp add: AVal ReadOpContent_def [abs_def] WriteOpContent_def [abs_def] vk_defs)
  qed (use nil in \<open>auto simp: AVal ReadOpContent_def [abs_def] WriteOpContent_def [abs_def] vk_defs\<close>)
next
  case (AU64 y)
  have "writes good names 0 0 (\<lambda>v. bindR (on_r reader_Uvarint v) (\<lambda>(x, v). Inr (AU64 x, v))) (AU64 y)
      (\<lambda>w. Inr (vw_U64 y w))"
    by (rule writes_leaf [OF reader_Uvarint_parses]) (simp_all add: vw_U64_eq)
  with assms show ?thesis
    by (simp add: AU64 ReadOpContent_def [abs_def] WriteOpContent_def [abs_def] vk_defs vr_U64_def)
next
  case (AMark m)
  then have "writes good names 0 (lval_cost (m_Value m)) (\<lambda>v. bindR (ReadMark v) (\<lambda>(x, v). Inr (AMark x, v)))
      (AMark m) (vw_Mark (Some key) None m)"
    using assms by (intro writes_map [OF writes_Mark]) simp_all
  with AMark assms show ?thesis
    by (simp add: ReadOpContent_def [abs_def] WriteOpContent_def [abs_def] vk_defs)
next
  case (AListMove m)
  then have "writes good names 0 0 (\<lambda>v. bindR (ReadListMove v) (\<lambda>(x, v). Inr (AListMove x, v)))
      (AListMove m) (\<lambda>w. Inr (vw_ListMove m w))"
    by (intro writes_map [OF writes_ListMove]) simp
  with AListMove assms show ?thesis
    by (simp add: ReadOpContent_def [abs_def] WriteOpContent_def [abs_def] vk_defs)
next
  case (AListSet s)
  then have "writes good names 0 (lval_cost (ls_Value s)) (\<lambda>v. bindR (ReadListSet v) (\<lambda>(x, v). Inr (AListSet x, v)))
      (AListSet s) (vw_ListSet (Some key) None s)"
    using assms by (intro writes_map [OF writes_ListSet]) simp_all
  with AListSet assms show ?thesis
    by (simp add: ReadOpContent_def [abs_def] WriteOpContent_def [abs_def] vk_defs)
next
  case (ARawTreeMove m)
  then have "writes good names 0 0 (\<lambda>v. bindR (ReadRawTreeMove v) (\<lambda>(x, v). Inr (ARawTreeMove x, v)))
      (ARawTreeMove m) (\<lambda>w. Inr (vw_RawTreeMove m w))"
    using assms by (intro writes_map [OF writes_RawTreeMove]) simp_all
  with ARawTreeMove assms show ?thesis
    by (simp add: ReadOpContent_def [abs_def] WriteOpContent_def [abs_def] vk_defs)
qed

text \<open>A sequence of op contents, written by one writer and read by one reader.\<close>

lemma writes_contents:
  "list_all (\<lambda>(vk, x). content_ok vk x) cs \<Longrightarrow>
    writes good names 0 (sum_list (map (\<lambda>(vk, x). content_cost x) cs))
      (read_contents (map fst cs)) (map snd cs) (write_contents (Some key) None cs)"
proof (induction cs)
  case Nil
  then show ?case by (simp add: writes_return)
next
  case (Cons c cs)
  obtain vk x where c: "c = (vk, x)" by fastforce
  have "writes good names 0 (sum_list (map (\<lambda>(vk, x). content_cost x) cs))
      (\<lambda>v. bindR (read_contents (map fst cs) v) (\<lambda>(xs, v). Inr (x # xs, v))) (map snd (c # cs))
      (write_contents (Some key) None cs)"
    by (rule writes_map [OF Cons.IH]) (use Cons.prems c in simp_all)
  then have 1: "writes good names 0 (sum_list (map (\<lambda>(vk, x). content_cost x) cs))
      (\<lambda>v. (\<lambda>(x, v). bindR (read_contents (map fst cs) v) (\<lambda>(xs, v). Inr (x # xs, v))) (x, v))
      (map snd (c # cs)) (write_contents (Some key) None cs)" by simp
  have "content_ok vk x" using Cons.prems c by simp
  from writes_bind [OF writes_OpContent [OF this] 1] show ?case by (simp add: c)
qed

end

end
