(* ===== verification/ValueSafety.thy ===== *)
theory ValueSafety
  imports ValueRoundTrip
begin

text \<open>
  What \<open>ValueReader\<close> returns on arbitrary bytes: an error value or a well-formed value, never a
  panic. The depth of the value is bounded, its maps are canonical, and the bytes of the keys
  it refers to are paid for from the key budget.
\<close>

definition vr_ok :: "valueReader \<Rightarrow> bool" where
  "vr_ok v \<longleftrightarrow> reader_ok (vr_r v) \<and> go_len (rB (vr_r v)) \<and> 0 \<le> vr_keyBudget v"

text \<open>\<open>spent v c v'\<close>: the reader moved on from \<open>v\<close> to \<open>v'\<close> and at least \<open>c\<close> of its budget is spent.\<close>

definition spent :: "valueReader \<Rightarrow> nat \<Rightarrow> valueReader \<Rightarrow> bool" where
  "spent v c v' \<longleftrightarrow>
     vr_ok v' \<and> moved (vr_r v) (vr_r v') \<and> vr_keys v' = vr_keys v \<and>
     int c \<le> vr_keyBudget v - vr_keyBudget v'"

lemma spent_refl: "vr_ok v \<Longrightarrow> spent v 0 v"
  by (simp add: spent_def vr_ok_def moved_refl)

lemma spent_trans: "spent v c v' \<Longrightarrow> spent v' c' v'' \<Longrightarrow> spent v (c + c') v''"
  by (auto simp: spent_def dest: moved_trans)

lemma spent_less: "spent v c v' \<Longrightarrow> c' \<le> c \<Longrightarrow> spent v c' v'"
  by (simp add: spent_def)

lemma spent_ok: "spent v c v' \<Longrightarrow> vr_ok v'"
  by (simp add: spent_def)

text \<open>\<open>reads P v m\<close>: a step from \<open>v\<close> whose results satisfy \<open>P\<close>, given their cost.\<close>

definition reads :: "('a \<Rightarrow> nat \<Rightarrow> bool) \<Rightarrow> valueReader \<Rightarrow> ('a \<times> valueReader) res \<Rightarrow> bool" where
  "reads P v m \<longleftrightarrow> okR (\<lambda>(x, v'). \<exists>c. spent v c v' \<and> P x c) m"

lemma reads_Inl: "go_error e \<Longrightarrow> reads P v (Inl e)"
  by (simp add: reads_def)

lemma reads_Inr: "vr_ok v \<Longrightarrow> P x 0 \<Longrightarrow> reads P v (Inr (x, v))"
  by (auto simp: reads_def intro: spent_refl)

lemma reads_bind:
  assumes "reads P v m"
    and "\<And>x c v'. m = Inr (x, v') \<Longrightarrow> vr_ok v' \<Longrightarrow> P x c \<Longrightarrow> reads (\<lambda>y c'. Q y (c + c')) v' (f (x, v'))"
  shows "reads Q v (bindR m f)"
proof (cases m)
  case (Inl e)
  with assms(1) show ?thesis by (simp add: reads_def)
next
  case (Inr p)
  obtain x v' where p: "p = (x, v')" by fastforce
  with assms(1) Inr obtain c where c: "spent v c v'" "P x c" by (auto simp: reads_def)
  from assms(2) [OF Inr [unfolded p] spent_ok [OF c(1)] c(2)] show ?thesis
    using c(1) by (cases "f (x, v')") (auto simp: reads_def Inr p dest: spent_trans)
qed

lemma reads_mono: "reads P v m \<Longrightarrow> (\<And>x c. P x c \<Longrightarrow> Q x c) \<Longrightarrow> reads Q v m"
  unfolding reads_def by (erule okR_mono) auto

lemma reads_if: "(b \<Longrightarrow> reads P v m) \<Longrightarrow> (\<not> b \<Longrightarrow> reads P v n) \<Longrightarrow> reads P v (if b then m else n)"
  by simp

lemma reads_on_r:
  assumes "vr_ok v" and "safe_from (vr_r v) (f (vr_r v))"
    and "\<And>x r. f (vr_r v) = Inr (x, r) \<Longrightarrow> P x"
  shows "reads (\<lambda>x c. c = 0 \<and> P x) v (on_r f v)"
proof (cases "f (vr_r v)")
  case (Inr p)
  obtain x r where p: "p = (x, r)" by fastforce
  have "moved (vr_r v) r" using safe_from_InrD [OF assms(2)] Inr p by blast
  moreover have "P x" using assms(3) Inr p by blast
  ultimately show ?thesis
    using assms(1) by (simp add: reads_def on_r_def Inr p spent_def vr_ok_def moved_def)
next
  case (Inl e)
  then show ?thesis using safe_from_InlD [OF assms(2)] by (simp add: reads_def on_r_def)
qed

section \<open>The readers of one item\<close>

lemma leb_loop_safe: "reader_ok r \<Longrightarrow> safe_from r (leb_loop x s r)"
proof (induction x s r rule: leb_loop.induct)
  case (1 x s r)
  show ?case
    by (subst leb_loop.simps) (auto intro!: safe_intros 1 simp: Let_def)
qed

lemma reader_Bytes_go_len:
  "reader_ok r \<Longrightarrow> go_len (rB r) \<Longrightarrow> reader_Bytes n r = Inr (x, r') \<Longrightarrow> go_len x"
  by (auto simp: reader_Bytes_def go_len_def split: if_splits)

lemma uvarint_step:
  assumes "reader_ok r" and "reader_Uvarint r = Inr (x, r')"
  shows "reader_ok r' \<and> rB r' = rB r"
  using safe_from_InrD [OF reader_Uvarint_safe [OF assms(1)] assms(2)] by (simp add: moved_def)

lemma sized_go_len:
  assumes "reader_ok r" and "go_len (rB r)"
    and "bindR (reader_Uvarint r) (\<lambda>(n, r). if unat n > reader_Remaining r then Inl e else reader_Bytes (sint n) r) =
      Inr (x, r')"
  shows "go_len x"
proof -
  from assms(3) obtain n r1 where 1: "reader_Uvarint r = Inr (n, r1)" and 2: "reader_Bytes (sint n) r1 = Inr (x, r')"
    by (auto simp: bindR_Inr_iff)
  from uvarint_step [OF assms(1) 1] assms(2) show ?thesis
    using reader_Bytes_go_len [OF _ _ 2] by simp
qed

lemma reads_Byte: "vr_ok v \<Longrightarrow> reads (\<lambda>x c. True) v (on_r reader_Byte v)"
  by (rule reads_mono [OF reads_on_r [where P = "\<lambda>_. True"]]) (auto simp: vr_ok_def intro: reader_Byte_safe)

lemma reads_Uvarint: "vr_ok v \<Longrightarrow> reads (\<lambda>x c. True) v (on_r reader_Uvarint v)"
  by (rule reads_mono [OF reads_on_r [where P = "\<lambda>_. True"]]) (auto simp: vr_ok_def intro: reader_Uvarint_safe)

lemma reads_U64: "vr_ok v \<Longrightarrow> reads (\<lambda>x c. True) v (vr_U64 v)"
  unfolding vr_U64_def by (rule reads_Uvarint)

lemma reads_I64: "vr_ok v \<Longrightarrow> reads (\<lambda>x c. True) v (vr_I64 v)"
  unfolding vr_I64_def
  by (rule reads_mono [OF reads_on_r [where P = "\<lambda>_. True"]]) (auto simp: vr_ok_def intro: leb_loop_safe)

lemma reads_F64: "vr_ok v \<Longrightarrow> reads (\<lambda>x c. True) v (vr_F64 v)"
  unfolding vr_F64_def
  by (rule reads_mono [OF reads_on_r [where P = "\<lambda>_. True"]]) (auto simp: vr_ok_def intro!: safe_intros)

lemma reads_Str: "vr_ok v \<Longrightarrow> reads (\<lambda>x c. go_len x) v (vr_Str v)"
  unfolding vr_Str_def
  by (rule reads_mono [OF reads_on_r [where P = go_len]])
    (auto simp: vr_ok_def reader_String_def intro: reader_String_safe [unfolded reader_String_def] elim: sized_go_len [rotated -1])

lemma reads_Binary: "vr_ok v \<Longrightarrow> reads (\<lambda>x c. go_len x) v (vr_Binary v)"
  unfolding vr_Binary_def
proof (rule reads_mono [OF reads_on_r [where P = go_len]])
  assume "vr_ok v"
  then have ok: "reader_ok (vr_r v)" "go_len (rB (vr_r v))" by (simp_all add: vr_ok_def)
  show "go_len x"
    if "bindR (reader_Uvarint (vr_r v)) (\<lambda>(n, r).
       if unat n > reader_Remaining r then Inl (Errorf ''binary length exceeds remaining'')
       else reader_Bytes (sint n) r) = Inr (x, r)" for x r
    using sized_go_len [OF ok that] .
  show "safe_from (vr_r v) (bindR (reader_Uvarint (vr_r v)) (\<lambda>(n, r).
       if unat n > reader_Remaining r then Inl (Errorf ''binary length exceeds remaining'')
       else reader_Bytes (sint n) r))"
    using ok by (auto intro!: safe_intros)
qed auto

section \<open>Keys, lists, maps\<close>

lemma reads_key:
  assumes "vr_ok v"
  shows "reads (\<lambda>k c. length k \<le> c) v (vr_key slot v)"
  unfolding vr_key_def
proof (rule reads_bind [OF reads_U64 [OF assms]], simp only: case_prod_conv, rule reads_if)
  fix ki :: u64 and c :: nat and v' :: valueReader
  assume ok: "vr_ok v'" and i: "\<not> length (vr_keys v') \<le> unat ki"
  let ?k = "vr_keys v' ! unat ki"
  let ?v = "v'\<lparr>vr_keyBudget := vr_keyBudget v' - int (length ?k)\<rparr>"
  let ?w = "case slot of None \<Rightarrow> ?v | Some s \<Rightarrow> ?v\<lparr>vr_orders := (vr_orders ?v)[s := vr_orders ?v ! s @ [?k]]\<rparr>"
  have "reads (\<lambda>k c'. length k \<le> c + c') v' (Inr (?k, ?w))" if "\<not> vr_keyBudget ?v < 0"
  proof -
    have "spent v' (length ?k) ?w"
      using ok that by (auto simp: spent_def vr_ok_def moved_refl split: option.splits)
    then show ?thesis by (auto simp: reads_def)
  qed
  then show "reads (\<lambda>k c'. length k \<le> c + c') v'
    (let k = ?k; v = v'\<lparr>vr_keyBudget := vr_keyBudget v' - int (length k)\<rparr> in
     if vr_keyBudget v < 0 then Inl (Errorf ''nested map keys reference more key bytes than allowed'')
     else Inr (k, case slot of None \<Rightarrow> v | Some s \<Rightarrow> v\<lparr>vr_orders := (vr_orders v)[s := vr_orders v ! s @ [k]]\<rparr>))"
    by (auto simp: Let_def intro!: reads_if reads_Inl add.commute)
qed (auto intro: reads_Inl)

lemma reads_elems:
  assumes "\<And>v. vr_ok v \<Longrightarrow> reads (\<lambda>x c. P x \<and> lval_cost x \<le> c) v (dec v)"
  shows "vr_ok v \<Longrightarrow>
    reads (\<lambda>xs c. length xs = n \<and> list_all P xs \<and> sum_list (map lval_cost xs) \<le> c) v (vr_elems n dec v)"
proof (induction n arbitrary: v)
  case 0
  then show ?case by (auto intro: reads_Inr)
next
  case (Suc n)
  show ?case
    unfolding vr_elems.simps
    by (rule reads_bind [OF assms [OF Suc.prems]], simp only: case_prod_conv,
        rule reads_bind [OF Suc.IH], assumption, simp only: case_prod_conv, rule reads_Inr)
      auto
qed

lemma gm_put_cost:
  fixes k :: gostring
  shows "sum_list (map (\<lambda>(k, c). length k + f c) (gm_put k x m)) \<le> length k + f x + sum_list (map (\<lambda>(k, c). length k + f c) m)"
  by (induction k x m rule: gm_put.induct) auto

lemma gm_put_length: "length (gm_put k x m) \<le> Suc (length m)"
  by (induction k x m rule: gm_put.induct) auto

lemma gm_put_all: "list_all (\<lambda>(k, x). P x) m \<Longrightarrow> P x \<Longrightarrow> list_all (\<lambda>(k, x). P x) (gm_put k x m)"
  by (induction k x m rule: gm_put.induct) auto

lemma reads_entries:
  assumes "\<And>v. vr_ok v \<Longrightarrow> reads (\<lambda>x c. P x \<and> lval_cost x \<le> c) v (dec v)"
  shows "vr_ok v \<Longrightarrow> gm_ok out \<Longrightarrow> list_all (\<lambda>(k, x). P x) out \<Longrightarrow>
    reads (\<lambda>m c. gm_ok m \<and> length m \<le> length out + n \<and> list_all (\<lambda>(k, x). P x) m \<and>
        sum_list (map (\<lambda>(k, x). length k + lval_cost x) m) \<le>
          c + sum_list (map (\<lambda>(k, x). length k + lval_cost x) out)) v
      (vr_entries n slot dec out v)"
proof (induction n arbitrary: v out)
  case 0
  then show ?case by (auto intro: reads_Inr)
next
  case (Suc n)
  show ?case
    unfolding vr_entries.simps
  proof (rule reads_bind [OF reads_key [OF Suc.prems(1)]], simp only: case_prod_conv,
      rule reads_bind [OF assms], assumption, simp only: case_prod_conv)
    fix k :: gostring and c :: nat and v1 :: valueReader and x :: lval and c' :: nat and v2 :: valueReader
    assume k: "length k \<le> c" and x: "P x \<and> lval_cost x \<le> c'" and ok: "vr_ok v2"
    note put = gm_put_ok [OF Suc.prems(2), of k x] gm_put_all [OF Suc.prems(3), of x k]
      gm_put_cost [of lval_cost k x out] gm_put_length [of k x out]
    show "reads (\<lambda>m d. gm_ok m \<and> length m \<le> length out + Suc n \<and> list_all (\<lambda>(k, x). P x) m \<and>
        sum_list (map (\<lambda>(k, x). length k + lval_cost x) m) \<le>
          c + (c' + d) + sum_list (map (\<lambda>(k, x). length k + lval_cost x) out)) v2
      (vr_entries n slot dec (gm_put k x out) v2)"
      by (rule reads_mono [OF Suc.IH [OF ok put(1,2)]]) (use put k x in auto)
  qed
qed

section \<open>Nested values\<close>

lemma reads_go_len:
  "vr_ok v \<Longrightarrow> \<not> n > reader_Remaining (vr_r v) \<Longrightarrow> length xs \<le> n \<Longrightarrow> go_len xs"
  by (auto simp: vr_ok_def go_len_def reader_Remaining_def)

lemma lval_ok_list:
  "lval_ok (LList xs) d \<longleftrightarrow> d \<le> maxLoroValueDepth \<and> go_len xs \<and> list_all (\<lambda>x. lval_ok x (Suc d)) xs"
  by (simp add: list_all_iff)

lemma lval_ok_map:
  "lval_ok (LMap m) d \<longleftrightarrow>
    d \<le> maxLoroValueDepth \<and> go_len m \<and> gm_ok m \<and> list_all (\<lambda>(k, x). lval_ok x (Suc d)) m"
  by (fastforce simp: list_all_iff)

lemma lval_cost_map: "lval_cost (LMap m) = sum_list (map (\<lambda>(k, x). length k + lval_cost x) m)"
  by (simp add: o_def split_def)

definition value_spec :: "nat \<Rightarrow> lval \<Rightarrow> nat \<Rightarrow> bool" where
  "value_spec d x c \<longleftrightarrow> lval_ok x d \<and> lval_cost x \<le> c"

lemma reads_leaf:
  assumes "reads P v m" and "\<And>x c. P x c \<Longrightarrow> Q (k x) c"
  shows "reads Q v (bindR m (\<lambda>(x, v). Inr (k x, v)))"
proof (rule reads_bind [OF assms(1)], simp only: case_prod_conv)
  fix x c v'
  assume "vr_ok v'" and "P x c"
  then show "reads (\<lambda>y c'. Q y (c + c')) v' (Inr (k x, v'))"
    using assms(2) by (auto intro: reads_Inr)
qed

lemma reads_list:
  assumes IH: "\<And>v. vr_ok v \<Longrightarrow> reads (value_spec (Suc d)) v (loroValue (Suc d) v)"
    and "vr_ok v" and "d \<le> maxLoroValueDepth"
  shows "reads (value_spec d) v (bindR (vr_U64 v) (\<lambda>(n, v).
      if unat n > reader_Remaining (vr_r v) then Inl (Errorf ''list length exceeds remaining'')
      else bindR (vr_elems (unat n) (loroValue (Suc d)) v) (\<lambda>(xs, v). Inr (LList xs, v))))"
proof (rule reads_bind [OF reads_U64 [OF assms(2)]], simp only: case_prod_conv, rule reads_if)
  fix n :: u64 and c v'
  assume ok: "vr_ok v'" and n: "\<not> unat n > reader_Remaining (vr_r v')"
  show "reads (\<lambda>y c'. value_spec d y (c + c')) v'
      (bindR (vr_elems (unat n) (loroValue (Suc d)) v') (\<lambda>(xs, v). Inr (LList xs, v)))"
  proof (rule reads_leaf [OF reads_elems [OF _ ok]])
    show "vr_ok w \<Longrightarrow> reads (\<lambda>x c. lval_ok x (Suc d) \<and> lval_cost x \<le> c) w (loroValue (Suc d) w)" for w
      using IH [of w] by (simp add: value_spec_def [abs_def])
    fix xs c'
    assume xs: "length xs = unat n \<and> list_all (\<lambda>x. lval_ok x (Suc d)) xs \<and> sum_list (map lval_cost xs) \<le> c'"
    then have "go_len xs" using reads_go_len [OF ok n, of xs] by simp
    with xs assms(3) show "value_spec d (LList xs) (c + c')"
      unfolding value_spec_def lval_ok_list by simp
  qed
qed (auto intro: reads_Inl)

lemma reads_map:
  assumes IH: "\<And>v. vr_ok v \<Longrightarrow> reads (value_spec (Suc d)) v (loroValue (Suc d) v)"
    and "vr_ok v" and "d \<le> maxLoroValueDepth"
  shows "reads (value_spec d) v (bindR (vr_U64 v) (\<lambda>(n, v).
      if unat n > reader_Remaining (vr_r v) then Inl (Errorf ''map length exceeds remaining'')
      else
        let slot = (if vr_recordOrder v then Some (length (vr_orders v)) else None);
            v = (if vr_recordOrder v then v\<lparr>vr_orders := vr_orders v @ [[]]\<rparr> else v) in
        bindR (vr_entries (unat n) slot (loroValue (Suc d)) [] v) (\<lambda>(m, v). Inr (LMap m, v))))"
proof (rule reads_bind [OF reads_U64 [OF assms(2)]], simp only: case_prod_conv, rule reads_if)
  fix n :: u64 and c v'
  assume ok: "vr_ok v'" and n: "\<not> unat n > reader_Remaining (vr_r v')"
  let ?slot = "if vr_recordOrder v' then Some (length (vr_orders v')) else None"
  let ?v = "if vr_recordOrder v' then v'\<lparr>vr_orders := vr_orders v' @ [[]]\<rparr> else v'"
  have ok': "vr_ok ?v" using ok by (simp add: vr_ok_def)
  have "reads (\<lambda>y c'. value_spec d y (c + c')) ?v
      (bindR (vr_entries (unat n) ?slot (loroValue (Suc d)) [] ?v) (\<lambda>(m, v). Inr (LMap m, v)))"
  proof (rule reads_leaf [OF reads_entries [OF _ ok' gm_ok_Nil]])
    show "vr_ok w \<Longrightarrow> reads (\<lambda>x c. lval_ok x (Suc d) \<and> lval_cost x \<le> c) w (loroValue (Suc d) w)" for w
      using IH [of w] by (simp add: value_spec_def [abs_def])
    fix m :: "(gostring \<times> lval) list" and c'
    assume m: "gm_ok m \<and> length m \<le> length ([] :: (gostring \<times> lval) list) + unat n \<and>
      list_all (\<lambda>(k, x). lval_ok x (Suc d)) m \<and>
      sum_list (map (\<lambda>(k, x). length k + lval_cost x) m) \<le>
        c' + sum_list (map (\<lambda>(k, x). length k + lval_cost x) [])"
    then have "go_len m" using reads_go_len [OF ok n, of m] by simp
    with m assms(3) show "value_spec d (LMap m) (c + c')"
      unfolding value_spec_def lval_ok_map lval_cost_map by simp
  qed simp
  moreover have "spent ?v c' w \<Longrightarrow> spent v' c' w" for c' w
    by (cases "vr_recordOrder v'") (simp_all add: spent_def)
  ultimately have "reads (\<lambda>y c'. value_spec d y (c + c')) v'
      (bindR (vr_entries (unat n) ?slot (loroValue (Suc d)) [] ?v) (\<lambda>(m, v). Inr (LMap m, v)))"
    unfolding reads_def by (elim okR_mono) blast
  then show "reads (\<lambda>y c'. value_spec d y (c + c')) v'
      (let slot = ?slot; v = ?v in
        bindR (vr_entries (unat n) slot (loroValue (Suc d)) [] v) (\<lambda>(m, v). Inr (LMap m, v)))"
    by (simp only: Let_def)
qed (auto intro: reads_Inl)

lemma reads_loroValue: "vr_ok v \<Longrightarrow> reads (value_spec d) v (loroValue d v)"
proof (induction "Suc maxLoroValueDepth - d" arbitrary: d v)
  case 0
  then show ?case by (simp add: loroValue_eq reads_Inl)
next
  case (Suc n)
  then have d: "d \<le> maxLoroValueDepth" by simp
  have IH: "vr_ok w \<Longrightarrow> reads (value_spec (Suc d)) w (loroValue (Suc d) w)" for w
    using Suc.hyps by simp
  have leaf: "value_spec d x c" if "lval_ok x d" and "lval_cost x = 0" for x c
    using that by (simp add: value_spec_def)
  have "reads (value_spec d) w (after_kind d (k, w))" if w: "vr_ok w" for k w
  proof -
    have const: "reads (value_spec d) w (Inr (LNull, w))" "reads (value_spec d) w (Inr (LBool b, w))" for b
      using w d by (auto intro!: reads_Inr leaf)
    have num: "reads (value_spec d) w (bindR (vr_I64 w) (\<lambda>(x, v). Inr (LI64 x, v)))"
      "reads (value_spec d) w (bindR (vr_F64 w) (\<lambda>(x, v). Inr (LF64 x, v)))"
      "reads (value_spec d) w (bindR (on_r reader_Byte w) (\<lambda>(x, v). Inr (LContainer x, v)))"
      by (rule reads_leaf [OF reads_I64 [OF w]] reads_leaf [OF reads_F64 [OF w]]
          reads_leaf [OF reads_Byte [OF w]]; use d in \<open>simp add: leaf\<close>)+
    have str: "reads (value_spec d) w (bindR (vr_Str w) (\<lambda>(x, v). Inr (LStr x, v)))"
      "reads (value_spec d) w (bindR (vr_Binary w) (\<lambda>(x, v). Inr (LBin x, v)))"
      by (rule reads_leaf [OF reads_Str [OF w]] reads_leaf [OF reads_Binary [OF w]]; use d in \<open>simp add: leaf\<close>)+
    show ?thesis
      unfolding after_kind_def case_prod_conv Suc_eq_plus1 [symmetric]
      by (intro reads_if const num str reads_list [OF IH w d] reads_map [OF IH w d] reads_Inl) simp_all
  qed
  note body = this
  have "reads (value_spec d) v (bindR (on_r reader_Byte v) (after_kind d))"
  proof (rule reads_bind [OF reads_Byte [OF Suc.prems]])
    fix k c v'
    assume "vr_ok v'"
    from body [OF this] show "reads (\<lambda>y c'. value_spec d y (c + c')) v' (after_kind d (k, v'))"
      by (rule reads_mono) (simp add: value_spec_def)
  qed
  with d show ?case by (simp add: loroValue_eq)
qed

lemma vr_ok_New: "go_len b \<Longrightarrow> vr_ok (NewValueReader b keys)"
  by (simp add: vr_ok_def NewValueReader_def keyBudgetBase_def keyBudgetPerByte_def NewReader_def reader_ok_def)

section \<open>The values of the op kinds\<close>

definition content_spec :: "byte \<Rightarrow> goany \<Rightarrow> nat \<Rightarrow> bool" where
  "content_spec vk x c \<longleftrightarrow> content_ok vk x \<and> content_cost x \<le> c"

lemma reads_LoroValue: "vr_ok v \<Longrightarrow> reads (value_spec 0) v (vr_LoroValue v)"
  unfolding vr_LoroValue_def by (rule reads_loroValue)

lemma reads_skip:
  assumes "reads P v m" and "\<And>x v'. vr_ok v' \<Longrightarrow> reads Q v' (f (x, v'))"
    and "\<And>y c c'. Q y c \<Longrightarrow> Q y (c' + c)"
  shows "reads Q v (bindR m f)"
  by (rule reads_bind [OF assms(1)]) (rule reads_mono [OF assms(2) assms(3)])

lemma reads_Mark: "vr_ok v \<Longrightarrow> reads (\<lambda>m. value_spec 0 (m_Value m)) v (ReadMark v)"
  unfolding ReadMark_def
  by (rule reads_skip [OF reads_Byte], assumption, simp only: case_prod_conv,
      rule reads_skip [OF reads_Uvarint], assumption, simp only: case_prod_conv,
      rule reads_skip [OF reads_Uvarint], assumption, simp only: case_prod_conv,
      rule reads_leaf [OF reads_LoroValue], assumption)
    (simp_all add: value_spec_def)

lemma reads_ListMove: "vr_ok v \<Longrightarrow> reads (\<lambda>m c. True) v (ReadListMove v)"
  unfolding ReadListMove_def
  by (rule reads_skip [OF reads_Uvarint], assumption, simp only: case_prod_conv,
      rule reads_skip [OF reads_Uvarint], assumption, simp only: case_prod_conv,
      rule reads_leaf [OF reads_Uvarint], assumption) simp_all

lemma reads_ListSet:
  "vr_ok v \<Longrightarrow>
    reads (\<lambda>s c. ls_Lamport s \<le> 2 ^ 32 - 1 \<and> ls_PeerIdx s \<le> 2 ^ 31 - 1 \<and> value_spec 0 (ls_Value s) c) v (ReadListSet v)"
  unfolding ReadListSet_def
  by (rule reads_skip [OF reads_Uvarint], assumption, simp only: case_prod_conv,
      rule reads_skip [OF reads_Uvarint], assumption, simp only: case_prod_conv,
      rule reads_if, rule reads_Inl, simp,
      rule reads_leaf [OF reads_LoroValue], assumption)
    (auto simp: value_spec_def not_less)

lemma reads_RawTreeMove:
  "vr_ok v \<Longrightarrow>
    reads (\<lambda>m c. rt_ParentNull m \<longrightarrow> rt_ParentPeerIdx m = 0 \<and> rt_ParentCounter m = 0) v (ReadRawTreeMove v)"
  unfolding ReadRawTreeMove_def
  by (rule reads_skip [OF reads_Uvarint], assumption, simp only: case_prod_conv,
      rule reads_skip [OF reads_Uvarint], assumption, simp only: case_prod_conv,
      rule reads_skip [OF reads_Uvarint], assumption, simp only: case_prod_conv,
      rule reads_skip [OF reads_Byte], assumption, simp only: case_prod_conv Let_def, rule reads_if,
      rule reads_skip [OF reads_Uvarint], assumption, simp only: case_prod_conv,
      rule reads_leaf [OF reads_Uvarint], assumption)
    (auto intro: reads_Inr)

lemma reads_OpContent:
  assumes v: "vr_ok v"
  shows "reads (content_spec vk) v (ReadOpContent vk v)"
proof -
  note kinds = content_spec_def vk_defs
  have const: "content_ok vk x \<Longrightarrow> content_cost x = 0 \<Longrightarrow> reads (content_spec vk) v (Inr (x, v))" for x
    using v by (intro reads_Inr) (simp_all add: content_spec_def)
  have i64: "vk = VKI64 \<or> vk = VKDeltaInt \<Longrightarrow> reads (content_spec vk) v (bindR (vr_I64 v) (\<lambda>(x, v). Inr (AVal (LI64 x), v)))"
    by (rule reads_leaf [OF reads_I64 [OF v]]) (auto simp: kinds)
  have f64: "vk = VKF64 \<Longrightarrow> reads (content_spec vk) v (bindR (vr_F64 v) (\<lambda>(x, v). Inr (AVal (LF64 x), v)))"
    by (rule reads_leaf [OF reads_F64 [OF v]]) (simp add: kinds)
  have str: "vk = VKStr \<Longrightarrow> reads (content_spec vk) v (bindR (vr_Str v) (\<lambda>(x, v). Inr (AVal (LStr x), v)))"
    by (rule reads_leaf [OF reads_Str [OF v]]) (simp add: kinds)
  have bin: "vk = VKBinary \<Longrightarrow> reads (content_spec vk) v (bindR (vr_Binary v) (\<lambda>(x, v). Inr (AVal (LBin x), v)))"
    by (rule reads_leaf [OF reads_Binary [OF v]]) (simp add: kinds)
  have val: "vk = VKLoroValue \<Longrightarrow> reads (content_spec vk) v (bindR (vr_LoroValue v) (\<lambda>(x, v). Inr (AVal x, v)))"
    by (rule reads_leaf [OF reads_LoroValue [OF v]]) (simp add: kinds value_spec_def)
  have mark: "vk = VKMarkStart \<Longrightarrow> reads (content_spec vk) v (bindR (ReadMark v) (\<lambda>(x, v). Inr (AMark x, v)))"
    by (rule reads_leaf [OF reads_Mark [OF v]]) (simp add: kinds value_spec_def)
  have move: "vk = VKListMove \<Longrightarrow> reads (content_spec vk) v (bindR (ReadListMove v) (\<lambda>(x, v). Inr (AListMove x, v)))"
    by (rule reads_leaf [OF reads_ListMove [OF v]]) (simp add: kinds)
  have set: "vk = VKListSet \<Longrightarrow> reads (content_spec vk) v (bindR (ReadListSet v) (\<lambda>(x, v). Inr (AListSet x, v)))"
    by (rule reads_leaf [OF reads_ListSet [OF v]]) (auto simp: content_spec_def value_spec_def)
  have tree: "vk = VKRawTreeMove \<Longrightarrow> reads (content_spec vk) v (bindR (ReadRawTreeMove v) (\<lambda>(x, v). Inr (ARawTreeMove x, v)))"
    by (rule reads_leaf [OF reads_RawTreeMove [OF v]]) (simp add: content_spec_def)
  have u64: "vk = VKContainer \<Longrightarrow> reads (content_spec vk) v (bindR (vr_U64 v) (\<lambda>(x, v). Inr (AU64 x, v)))"
    by (rule reads_leaf [OF reads_U64 [OF v]]) (simp add: content_spec_def)
  show ?thesis
    unfolding ReadOpContent_def
    by (intro reads_if const i64 f64 str bin val mark move set tree u64 reads_Inl) (auto simp: vk_defs)
qed

lemma reads_contents:
  "vr_ok v \<Longrightarrow>
    reads (\<lambda>xs c. length xs = length vks \<and> list_all (\<lambda>(vk, x). content_ok vk x) (zip vks xs) \<and>
      sum_list (map content_cost xs) \<le> c) v (read_contents vks v)"
proof (induction vks arbitrary: v)
  case Nil
  then show ?case by (auto intro: reads_Inr)
next
  case (Cons vk vks)
  show ?case
    unfolding read_contents.simps
    by (rule reads_bind [OF reads_OpContent [OF Cons.prems]], simp only: case_prod_conv,
        rule reads_leaf [OF Cons.IH], assumption)
      (auto simp: content_spec_def)
qed

end
