(* ===== verification/Registers.thy ===== *)
theory Registers
  imports ValueSafety
begin

text \<open>
  The registers of \<open>loro/encode_updates.go\<close>: a block's peers, keys and containers get arena
  indexes in the order of their first use. A register is the arena and the Go map from its
  items to their indexes. The key register is the arena behind \<open>ValueWriter.Key\<close>.
\<close>

type_synonym 'a regs = "'a list \<times> ('a \<Rightarrow> nat option)"

definition reg_empty :: "'a regs" where
  "reg_empty = ([], Map.empty)"

text \<open>The methods \<open>peer\<close>, \<open>key\<close> and \<open>container\<close>.\<close>

definition register :: "'a regs \<Rightarrow> 'a \<Rightarrow> i64 \<times> 'a regs" where
  "register r x =
     (case r of (items, idx) \<Rightarrow>
        case idx x of
          Some i \<Rightarrow> (of_nat i, r)
        | None \<Rightarrow>
            let idx = idx(x \<mapsto> length items); items = items @ [x] in
            (of_nat (length items - 1), (items, idx)))"

definition reg_ok :: "'a regs \<Rightarrow> bool" where
  "reg_ok r \<longleftrightarrow> (\<forall>x i. snd r x = Some i \<longleftrightarrow> i < length (fst r) \<and> fst r ! i = x)"

lemma reg_ok_empty [simp]: "reg_ok reg_empty"
  by (simp add: reg_ok_def reg_empty_def)

lemma reg_ok_distinct: "reg_ok r \<Longrightarrow> distinct (fst r)"
  unfolding reg_ok_def distinct_conv_nth by (metis option.inject)

lemma register_ok:
  assumes "reg_ok r" and "register r x = (i, r')"
  shows "reg_ok r'"
proof (cases "snd r x")
  case (Some j)
  with assms show ?thesis by (auto simp: register_def split_def)
next
  case None
  have new: "x \<noteq> fst r ! j" if "j < length (fst r)" for j
    using assms(1) None that unfolding reg_ok_def by (metis option.distinct(1))
  have r': "r' = (fst r @ [x], (snd r)(x \<mapsto> length (fst r)))"
    using assms(2) None by (simp add: register_def split_def Let_def)
  show ?thesis
    unfolding reg_ok_def r' using assms(1) new
    by (auto simp: reg_ok_def nth_append less_Suc_eq)
qed

lemma register_grows: "register r x = (i, r') \<Longrightarrow> prefix (fst r) (fst r')"
  by (auto simp: register_def split_def Let_def split: option.splits)

lemma register_index:
  assumes "reg_ok r" and "register r x = (i, r')" and "go_len (fst r')"
  shows "unat i < length (fst r') \<and> fst r' ! unat i = x"
proof (cases "snd r x")
  case (Some j)
  then have r: "r' = r" "i = of_nat j" using assms(2) by (simp_all add: register_def split_def)
  have j: "j < length (fst r)" "fst r ! j = x" using assms(1) Some by (auto simp: reg_ok_def)
  then have "j < 2 ^ 64" using assms(3) r by (simp add: go_len_def)
  then have "unat i = j" unfolding r by (rule unat_of_nat_small)
  with j r show ?thesis by simp
next
  case None
  then have r: "r' = (fst r @ [x], (snd r)(x \<mapsto> length (fst r)))" "i = of_nat (length (fst r))"
    using assms(2) by (simp_all add: register_def split_def Let_def)
  then have "length (fst r) < 2 ^ 64" using assms(3) by (simp add: go_len_def)
  then have "unat i = length (fst r)" unfolding r(2) by (rule unat_of_nat_small)
  with r show ?thesis by simp
qed

text \<open>The key register keeps the contract that the value writer relies on.\<close>

interpretation keyR: key_arena "register :: gostring regs keyfun" reg_ok fst
  by unfold_locales (auto intro: register_ok register_grows simp: register_index)

section \<open>The values stream of a block\<close>

definition new_writer :: "gostring regs valueWriter" where
  "new_writer = \<lparr>vw_buf = [], vw_arena = reg_empty\<rparr>"

lemma reg_ok_new_writer: "reg_ok (vw_arena new_writer)"
  by (simp add: new_writer_def)

text \<open>C24: The values stream of a block reads back. The contents of any list of ops, nested
  values up to loro's depth limit included, are written without an error; reading the bytes
  with the keys that the writer registered gives the same contents and ends at the end of the
  stream, as long as the keys they refer to are within the reader's budget.\<close>

theorem values_round_trip:
  assumes "list_all (\<lambda>(vk, x). content_ok vk x) cs"
  shows "\<exists>w. write_contents (Some register) None cs new_writer = Inr w \<and>
    (go_len (fst (vw_arena w)) \<and>
     int (sum_list (map (\<lambda>(vk, x). content_cost x) cs)) \<le> vr_keyBudget (NewValueReader (vw_buf w) (fst (vw_arena w))) \<longrightarrow>
     (\<exists>v. read_contents (map fst cs) (NewValueReader (vw_buf w) (fst (vw_arena w))) = Inr (map snd cs, v) \<and>
       vr_Empty v))"
proof -
  have "reg_ok (vw_arena new_writer)" by (simp add: new_writer_def)
  with keyR.writes_contents [OF assms] obtain w where
    w: "write_contents (Some register) None cs new_writer = Inr w" "vw_buf w = vw_buf w" and
    p: "go_len (fst (vw_arena w)) \<Longrightarrow> vparses (fst (vw_arena w)) (sum_list (map (\<lambda>(vk, x). content_cost x) cs))
      (read_contents (map fst cs)) (vw_buf w) (map snd cs)"
    unfolding writes_def by (fastforce simp: new_writer_def)
  let ?v = "NewValueReader (vw_buf w) (fst (vw_arena w))"
  have "\<exists>v. read_contents (map fst cs) ?v = Inr (map snd cs, v) \<and> vr_Empty v"
    if "go_len (fst (vw_arena w))" "int (sum_list (map (\<lambda>(vk, x). content_cost x) cs)) \<le> vr_keyBudget ?v"
  proof -
    have at: "reader_at (vr_r ?v) (vw_buf w @ [])"
      by (simp add: NewValueReader_def reader_at_NewReader)
    note r = vparsesD [OF p [OF that(1)] at _ _ that(2)]
    have "reader_Empty (advance (length (vw_buf w)) (vr_r ?v))"
      using reader_at_advance [OF at refl] by (simp add: reader_at_Empty)
    with r show ?thesis by (simp add: vr_Empty_def NewValueReader_def)
  qed
  with w show ?thesis by blast
qed

definition nested_contents :: "(byte \<times> goany) list" where
  "nested_contents =
     [(VKLoroValue, AVal (LMap [([97], LI64 (- 3)), ([98], LList [LStr [104, 105], LNull])])),
      (VKListMove, AListMove \<lparr>lm_From = 4, lm_FromIdx = 0, lm_Lamport = 9\<rparr>)]"

lemma values_round_trip_witness:
  "\<exists>w v. write_contents (Some register) None nested_contents new_writer = Inr w \<and>
    read_contents (map fst nested_contents) (NewValueReader (vw_buf w) (fst (vw_arena w))) =
      Inr (map snd nested_contents, v) \<and> vr_Empty v"
proof -
  have "list_all (\<lambda>(vk, x). content_ok vk x) nested_contents"
    by (simp add: nested_contents_def vk_defs go_len_def maxLoroValueDepth_def)
  from values_round_trip [OF this] obtain w where
    w: "write_contents (Some register) None nested_contents new_writer = Inr w" and
    r: "go_len (fst (vw_arena w)) \<and>
     int (sum_list (map (\<lambda>(vk, x). content_cost x) nested_contents))
       \<le> vr_keyBudget (NewValueReader (vw_buf w) (fst (vw_arena w))) \<longrightarrow>
     (\<exists>v. read_contents (map fst nested_contents) (NewValueReader (vw_buf w) (fst (vw_arena w))) =
       Inr (map snd nested_contents, v) \<and> vr_Empty v)"
    by blast
  have "map_sum (\<lambda>_. ()) (\<lambda>w. fst (vw_arena w))
      (write_contents (Some register) None nested_contents new_writer) = Inr [[97], [98]]"
    by code_simp
  then have arena: "fst (vw_arena w) = [[97], [98]]" by (simp add: w)
  have "sum_list (map (\<lambda>(vk, x). content_cost x) nested_contents) = 2"
    by (simp add: nested_contents_def)
  then show ?thesis
    using w r by (auto simp: arena go_len_def NewValueReader_def keyBudgetBase_def keyBudgetPerByte_def)
qed

text \<open>C25: \<open>ValueReader\<close> is safe on every blob: it returns an error value, never a panic, or op
  contents that are well formed, nested at most \<open>maxLoroValueDepth\<close> deep, and whose maps
  refer to at most \<open>keyBudgetBase\<close> plus \<open>keyBudgetPerByte\<close> bytes of keys for each byte of the
  blob; and the writer can write them again.\<close>

theorem values_decode_safe:
  assumes "go_len b"
  shows "okR (\<lambda>(xs, v).
      length xs = length vks \<and> list_all (\<lambda>(vk, x). content_ok vk x) (zip vks xs) \<and>
      int (sum_list (map content_cost xs)) \<le> keyBudgetBase + keyBudgetPerByte * int (length b) \<and>
      (\<exists>w. write_contents (Some register) None (zip vks xs) new_writer = Inr w))
    (read_contents vks (NewValueReader b keys))"
proof -
  have "reads (\<lambda>xs c. length xs = length vks \<and> list_all (\<lambda>(vk, x). content_ok vk x) (zip vks xs) \<and>
      sum_list (map content_cost xs) \<le> c) (NewValueReader b keys) (read_contents vks (NewValueReader b keys))"
    by (rule reads_contents [OF vr_ok_New [OF assms]])
  then show ?thesis
    unfolding reads_def
  proof (rule okR_mono, safe)
    fix xs v' c
    assume s: "spent (NewValueReader b keys) c v'" and c: "sum_list (map content_cost xs) \<le> c"
    have "int c \<le> vr_keyBudget (NewValueReader b keys)"
      using s by (simp add: spent_def vr_ok_def)
    with c show "int (sum_list (map content_cost xs)) \<le> keyBudgetBase + keyBudgetPerByte * int (length b)"
      by (simp add: NewValueReader_def)
  next
    fix xs
    assume "list_all (\<lambda>(vk, x). content_ok vk x) (zip vks xs)"
    from keyR.writes_contents [OF this] show "\<exists>w. write_contents (Some register) None (zip vks xs) new_writer = Inr w"
      unfolding writes_def using reg_ok_new_writer by blast
  qed
qed

lemma values_decode_safe_witness:
  "okR (\<lambda>(xs, v).
      length xs = length [VKLoroValue] \<and> list_all (\<lambda>(vk, x). content_ok vk x) (zip [VKLoroValue] xs) \<and>
      int (sum_list (map content_cost xs)) \<le> keyBudgetBase + keyBudgetPerByte * int (length ([7, 2, 8, 0] :: bytes)) \<and>
      (\<exists>w. write_contents (Some register) None (zip [VKLoroValue] xs) new_writer = Inr w))
    (read_contents [VKLoroValue] (NewValueReader [7, 2, 8, 0] [[97]]))"
  by (rule values_decode_safe) (simp add: go_len_def)

end
