(* ===== verification/EncodeUpdates.thy ===== *)
theory EncodeUpdates
  imports DecodeUpdates Registers "HOL-Library.List_Lexorder" "HOL-Library.Product_Lexorder"
begin

text \<open>
  Encoding changes into a FastUpdates blob (\<open>loro/encode_updates.go\<close>): the checks of what loro
  would not read back, the grouping into blocks, and \<open>encodeBlock\<close>, which registers what the
  ops name in the order of loro's encoder. The key register is the arena of the block's
  \<open>ValueWriter\<close>, whose \<open>Key\<close> callback it is.
\<close>

section \<open>Ids and values\<close>

text \<open>\<open>strings.Cut(s, "@")\<close>, then the two numbers.\<close>

definition parseID :: "gostring \<Rightarrow> ID res" where
  "parseID s =
     (let ctr = takeWhile (\<lambda>c. c \<noteq> 0x40) s in
      if length ctr = length s then Inl (Errorf ''not a counter@peer id'')
      else case ParseInt ctr of
        None \<Rightarrow> Inl (Errorf ''counter'')
      | Some c \<Rightarrow> (case ParseUint (drop (length ctr + 1) s) of
          None \<Rightarrow> Inl (Errorf ''peer'')
        | Some p \<Rightarrow> Inr \<lparr>Peer = p, Counter = c\<rparr>))"

definition parseStoredID :: "gostring \<Rightarrow> ID res" where
  "parseStoredID s = bindR (parseID s) (\<lambda>i.
     if sint (Counter i) < 0 \<or> sint (Counter i) > MaxInt32 then Inl (Errorf ''counter outside i32'') else Inr i)"

primrec lval_utf8 :: "lval \<Rightarrow> bool" where
  "lval_utf8 LNull = True"
| "lval_utf8 (LBool b) = True"
| "lval_utf8 (LI64 x) = True"
| "lval_utf8 (LF64 x) = True"
| "lval_utf8 (LStr s) = valid_utf8 s"
| "lval_utf8 (LBin b) = True"
| "lval_utf8 (LContainer c) = True"
| "lval_utf8 (LList xs) = list_all (\<lambda>b. b) (map lval_utf8 xs)"
| "lval_utf8 (LMap m) = list_all (\<lambda>(k, b). valid_utf8 k \<and> b) (map (map_prod id lval_utf8) m)"
| "lval_utf8 LOther = True"

definition utf8Strings :: "opval \<Rightarrow> bool" where
  "utf8Strings v =
     (case v of
        OVal x \<Rightarrow> lval_utf8 x
      | OMark x \<Rightarrow> valid_utf8 (mi_Key x) \<and> lval_utf8 (mi_Value x)
      | OSet x \<Rightarrow> lval_utf8 (sv_Value x)
      | _ \<Rightarrow> True)"

section \<open>Checks\<close>

definition opKinds :: "ContainerType \<Rightarrow> byte list option" where
  "opKinds k =
     (if k = CText then Some [VKStr, VKDeleteSeq, VKMarkStart, VKNull]
      else if k = CMap then Some [VKLoroValue, VKDeleteOnce]
      else if k = CList then Some [VKLoroValue, VKDeleteSeq]
      else if k = CMovableList then Some [VKLoroValue, VKDeleteSeq, VKListMove, VKListSet]
      else if k = CTree then Some [VKRawTreeMove]
      else if k = CCounter then Some [VKI64, VKF64]
      else None)"

definition maxSeqPos :: int where "maxSeqPos = MaxUint32 div 4 - 1"

text \<open>A value of a type that the code asserts it is not panics; \<open>checkOp\<close> has excluded that.\<close>

definition checkPositions :: "Op \<Rightarrow> unit res" where
  "checkPositions op =
     (let inr = (\<lambda>p. sint p \<ge> 0 \<and> sint p \<le> maxSeqPos);
          ok = (if op_Kind op \<in> {CMap, CTree, CCounter} \<or> op_VKind op = VKListSet \<or> op_VKind op = VKNull
                then Inr (op_Pos op = 0)
                else if op_VKind op = VKDeleteSeq then
                  (case op_Value op of
                     ODelete d \<Rightarrow> Inr (if sint (ds_Len d) < 0 then inr (op_Pos op + 1 + ds_Len d) \<and> inr (op_Pos op)
                                       else inr (op_Pos op) \<and> inr (op_Pos op + ds_Len d - 1))
                   | _ \<Rightarrow> Inl GoPanic)
                else if op_VKind op = VKListMove then Inr (inr (op_Pos op) \<and> inr (op_MoveFrom op))
                else if op_VKind op = VKMarkStart then
                  (case op_Value op of
                     OMark m \<Rightarrow> Inr (inr (op_Pos op) \<and> sint (mi_Len m) \<ge> 0 \<and>
                       sint (mi_Len m) \<le> sint (word_of_int maxSeqPos - op_Pos op))
                   | _ \<Rightarrow> Inl GoPanic)
                else Inr (inr (op_Pos op)))
      in bindR ok (\<lambda>ok. if ok then Inr () else Inl (Errorf ''position outside what loro reads'')))"

definition bad_value :: "'a res" where
  "bad_value = Inl (Errorf ''op carries a value of another type'')"

definition u32_range :: "i64 \<Rightarrow> bool" where
  "u32_range x \<longleftrightarrow> 0 \<le> sint x \<and> sint x \<le> MaxUint32"

text \<open>The switch of \<open>checkOp\<close> on what the value names, and the one on the op's length.\<close>

definition check_names :: "Op \<Rightarrow> unit res" where
  "check_names op =
     (if op_VKind op = VKMarkStart then
        (case op_Value op of
           OMark m \<Rightarrow> if mi_Start m \<noteq> op_Pos op then Inl (Errorf ''mark starts elsewhere'') else Inr ()
         | _ \<Rightarrow> bad_value)
      else if op_VKind op = VKListMove then
        (case op_Value op of
           OElem el \<Rightarrow> if \<not> u32_range (le_Lamport el) \<or> \<not> u32_range (op_MoveFrom op)
             then Inl (Errorf ''move names'') else Inr ()
         | _ \<Rightarrow> bad_value)
      else if op_VKind op = VKListSet then
        (case op_Value op of
           OSet v \<Rightarrow> if \<not> u32_range (le_Lamport (sv_Elem v)) then Inl (Errorf ''set names'') else Inr ()
         | _ \<Rightarrow> bad_value)
      else if op_VKind op = VKRawTreeMove then
        (case op_Value op of
           OTree n \<Rightarrow>
             bindR (parseStoredID (tn_ID n)) (\<lambda>_.
             bindR (if tn_HasParent n then bindR (parseStoredID (tn_Parent n)) (\<lambda>_. Inr ()) else Inr ()) (\<lambda>_.
               if isTreeDelete n then Inr ()
               else case DecodeHex (tn_FI n) of None \<Rightarrow> Inl (Errorf ''fractional index'') | Some _ \<Rightarrow> Inr ()))
         | _ \<Rightarrow> bad_value)
      else Inr ())"

definition check_length :: "Op \<Rightarrow> unit res" where
  "check_length op =
     (if op_VKind op = VKDeleteSeq then
        (case op_Value op of ODelete d \<Rightarrow> checkDeleteSpan op d | _ \<Rightarrow> bad_value)
      else if op_VKind op = VKStr \<or> op_VKind op = VKLoroValue \<and> op_Kind op \<noteq> CMap then checkInsertAtoms op
      else if op_Len op \<noteq> 1 then Inl (Errorf ''op is one atom'')
      else Inr ())"

definition checkOp :: "Op \<Rightarrow> unit res" where
  "checkOp op =
     (case opKinds (op_Kind op) of
        None \<Rightarrow> Inl (Errorf ''container kind loro does not write'')
      | Some kinds \<Rightarrow>
          if op_VKind op \<notin> set kinds then Inl (Errorf ''value kind loro does not read'')
          else if \<not> valid_utf8 (op_Container op) \<or> \<not> valid_utf8 (op_MapKey op) \<or> \<not> utf8Strings (op_Value op)
          then Inl (Errorf ''not UTF-8'')
          else bindR (if op_IsRoot op then Inr () else bindR (parseStoredID (op_Container op)) (\<lambda>_. Inr ())) (\<lambda>_.
            bindR (check_names op) (\<lambda>_. bindR (check_length op) (\<lambda>_. checkPositions op))))"

fun check_deps :: "ID \<Rightarrow> bool \<Rightarrow> ID list \<Rightarrow> unit res" where
  "check_deps own self [] = Inr ()"
| "check_deps own self (d # ds) =
     (if sint (Counter d) < 0 \<or> sint (Counter d) > MaxInt32 then Inl (Errorf ''dependency outside range'')
      else if Peer d \<noteq> Peer own then check_deps own self ds
      else if self \<or> Counter d \<noteq> Counter own - 1 then Inl (Errorf ''depends on its own peer'')
      else check_deps own True ds)"

fun check_ops :: "Change \<Rightarrow> i64 \<Rightarrow> Op list \<Rightarrow> unit res" where
  "check_ops ch ctr [] = Inr ()"
| "check_ops ch ctr (op # ops) =
     (if op_Peer op \<noteq> Peer (ch_ID ch) \<or> op_Counter op \<noteq> ctr \<or>
         op_Lamport op \<noteq> ch_Lamport ch + (ctr - Counter (ch_ID ch)) then Inl (Errorf ''op out of place'')
      else if sint (op_Len op) < 1 \<or> sless (word_of_int MaxInt32 - ctr) (op_Len op) \<or>
         sless (word_of_int MaxUint32 - (ch_Lamport ch + ctr - Counter (ch_ID ch))) (op_Len op)
      then Inl (Errorf ''op ends past the range'')
      else bindR (checkOp op) (\<lambda>_. check_ops ch (ctr + op_Len op) ops))"

definition checkChange :: "Change \<Rightarrow> unit res" where
  "checkChange ch =
     (if ch_Ops ch = [] then Inl (Errorf ''change has no ops'')
      else if sint (Counter (ch_ID ch)) < 0 \<or> sint (Counter (ch_ID ch)) > MaxInt32 \<or>
        sint (ch_Lamport ch) < 0 \<or> sint (ch_Lamport ch) > MaxUint32 then Inl (Errorf ''change outside range'')
      else bindR (check_deps (ch_ID ch) False (ch_Deps ch)) (\<lambda>_.
        if \<not> valid_utf8 (ch_CommitMsg ch) then Inl (Errorf ''commit message not UTF-8'')
        else check_ops ch (Counter (ch_ID ch)) (ch_Ops ch)))"

section \<open>Blocks\<close>

definition changeEnd :: "Change \<Rightarrow> i64" where
  "changeEnd ch = foldl (\<lambda>e op. e + op_Len op) (Counter (ch_ID ch)) (ch_Ops ch)"

text \<open>The estimates are of checked changes, whose lengths no product or sum here overflows.\<close>

definition estimateOp :: "Op \<Rightarrow> int" where
  "estimateOp op =
     (if op_Kind op = CMap then 3
      else if op_Kind op = CTree then 8
      else if op_Kind op = CCounter then 4
      else if op_Kind op = CText \<or> op_Kind op = CList \<or> op_Kind op = CMovableList then
        (if op_VKind op = VKStr then int (length (case op_Value op of OVal (LStr s) \<Rightarrow> s | _ \<Rightarrow> []))
         else if op_VKind op = VKLoroValue then 4 * sint (op_Len op)
         else if op_VKind op = VKDeleteSeq \<or> op_VKind op = VKListMove then 8
         else if op_VKind op = VKListSet then 7
         else if op_VKind op = VKMarkStart then 10
         else 1)
      else 6)"

definition estimateChange :: "Change \<Rightarrow> int" where
  "estimateChange ch =
     foldl (\<lambda>n op. n + estimateOp op) (2 + 1 + 1 + (max (int (length (ch_Deps ch))) 1 - 1) * 4) (ch_Ops ch)"

definition maxBlockSize :: int where "maxBlockSize = 4096"

fun split_blocks :: "int list \<Rightarrow> Change list \<Rightarrow> (Change list list \<times> Change list) res" where
  "split_blocks [] rest = Inr ([], rest)"
| "split_blocks (n # ns) rest =
     (if n < 1 \<or> n > int (length rest) then Inl (Errorf ''Blocks lists more changes than remain'')
      else bindR (split_blocks ns (drop (nat n) rest)) (\<lambda>(blocks, rest').
        Inr (take (nat n) rest # blocks, rest')))"

definition block_follows :: "Change list \<Rightarrow> bool" where
  "block_follows b \<longleftrightarrow>
     (\<forall>i\<in>{1..<length b}. Peer (ch_ID (b ! i)) = Peer (ch_ID (b ! 0)) \<and> Counter (ch_ID (b ! i)) = changeEnd (b ! (i - 1)))"

text \<open>The block being filled, never empty after the first change, its size, and the changes left.\<close>

fun group_loop :: "Change list \<Rightarrow> int \<Rightarrow> Change list \<Rightarrow> Change list list" where
  "group_loop cur sz [] = (if cur = [] then [] else [cur])"
| "group_loop cur sz (ch # chs) =
     (let est = estimateChange ch in
      if cur \<noteq> [] then
        (let prev = last cur in
         if Peer (ch_ID ch) = Peer (ch_ID prev) \<and> Counter (ch_ID ch) = changeEnd prev \<and> sz + est \<le> maxBlockSize
         then group_loop (cur @ [ch]) (sz + est) chs
         else cur # group_loop [ch] est chs)
      else group_loop [ch] est chs)"

definition groupBlocks :: "Updates \<Rightarrow> Change list list res" where
  "groupBlocks u =
     (case u_Blocks u of
        Some ns \<Rightarrow>
          bindR (split_blocks ns (u_Changes u)) (\<lambda>(blocks, rest).
            if rest \<noteq> [] then Inl (Errorf ''Blocks covers fewer changes'')
            else if \<exists>b\<in>set blocks. \<not> block_follows b then Inl (Errorf ''change does not follow in its block'')
            else Inr blocks)
      | None \<Rightarrow>
          Inr (group_loop [] 0 (sort_key (\<lambda>ch. (Peer (ch_ID ch), sint (Counter (ch_ID ch)))) (u_Changes u))))"

fun check_order :: "(u64 \<Rightarrow> Change option) \<Rightarrow> Change list \<Rightarrow> unit res" where
  "check_order ends [] = Inr ()"
| "check_order ends (ch # chs) =
     (if (case ends (Peer (ch_ID ch)) of Some prev \<Rightarrow> sless (Counter (ch_ID ch)) (changeEnd prev) | None \<Rightarrow> False)
      then Inl (Errorf ''change overlaps or comes before another'')
      else check_order (ends(Peer (ch_ID ch) \<mapsto> ch)) chs)"

definition checkPeerOrder :: "Change list list \<Rightarrow> unit res" where
  "checkPeerOrder blocks = check_order Map.empty (concat blocks)"

section \<open>The block encoder\<close>

record contID =
  ct_root :: bool
  ct_kind :: ContainerType
  ct_name :: gostring
  ct_peer :: u64
  ct_counter :: i64

record blockEncoder =
  be_peers :: "u64 regs"
  be_conts :: "contID regs"
  be_posIdx :: "bytes \<Rightarrow> nat option"
  be_pos :: "bytes list"
  be_ops :: Ops
  be_dels :: "DeleteID list"
  be_vw :: "gostring regs valueWriter"

definition new_encoder :: blockEncoder where
  "new_encoder = \<lparr>be_peers = reg_empty, be_conts = reg_empty, be_posIdx = Map.empty, be_pos = [],
     be_ops = \<lparr>o_ContainerIdx = [], o_Prop = [], o_ValueKind = [], o_Len = []\<rparr>, be_dels = [],
     be_vw = new_writer\<rparr>"

definition be_peer :: "u64 \<Rightarrow> blockEncoder \<Rightarrow> i64 \<times> blockEncoder" where
  "be_peer p e = (let (i, r) = register (be_peers e) p in (i, e\<lparr>be_peers := r\<rparr>))"

definition be_key :: "gostring \<Rightarrow> blockEncoder \<Rightarrow> i64 \<times> blockEncoder" where
  "be_key k e = (let (i, r) = register (vw_arena (be_vw e)) k in (i, e\<lparr>be_vw := (be_vw e)\<lparr>vw_arena := r\<rparr>\<rparr>))"

definition be_container :: "contID \<Rightarrow> blockEncoder \<Rightarrow> i64 \<times> blockEncoder" where
  "be_container c e = (let (i, r) = register (be_conts e) c in (i, e\<lparr>be_conts := r\<rparr>))"

text \<open>The bytes of a fractional index that \<open>checkOp\<close> has read.\<close>

definition fi_bytes :: "gostring \<Rightarrow> bytes" where
  "fi_bytes s = (case DecodeHex s of Some b \<Rightarrow> b | None \<Rightarrow> [])"

definition op_position :: "Op \<Rightarrow> bytes option" where
  "op_position op =
     (case op_Value op of
        OTree n \<Rightarrow> if op_VKind op \<noteq> VKRawTreeMove \<or> isTreeDelete n then None else Some (fi_bytes (tn_FI n))
      | _ \<Rightarrow> None)"

definition note_position :: "blockEncoder \<Rightarrow> Op \<Rightarrow> blockEncoder" where
  "note_position e op =
     (case op_position op of
        None \<Rightarrow> e
      | Some fi \<Rightarrow> if be_posIdx e fi = None then e\<lparr>be_posIdx := (be_posIdx e)(fi \<mapsto> 0), be_pos := be_pos e @ [fi]\<rparr> else e)"

definition be_positions :: "Change list \<Rightarrow> blockEncoder \<Rightarrow> blockEncoder" where
  "be_positions chs e =
     (let e = foldl note_position e (concat (map ch_Ops chs)); pos = sort (be_pos e) in
      e\<lparr>be_pos := pos, be_posIdx := fold (\<lambda>i idx. idx(pos ! i \<mapsto> i)) [0..<length pos] (be_posIdx e)\<rparr>)"

text \<open>\<open>id, _ := parseID(s)\<close>\<close>

definition id_of :: "gostring \<Rightarrow> ID" where
  "id_of s = (case parseID s of Inr i \<Rightarrow> i | Inl _ \<Rightarrow> \<lparr>Peer = 0, Counter = 0\<rparr>)"

definition be_treeMove :: "TreeNode \<Rightarrow> blockEncoder \<Rightarrow> blockEncoder" where
  "be_treeMove n e =
     (let subject = id_of (tn_ID n); (si, e) = be_peer (Peer subject) e;
          parent = id_of (tn_Parent n);
          (pi, e) = (if tn_HasParent n then be_peer (Peer parent) e else (0, e));
          m = \<lparr>rt_SubjectPeerIdx = si, rt_SubjectCounter = Counter subject,
               rt_PositionIdx = (if isTreeDelete n then 0
                 else case be_posIdx e (fi_bytes (tn_FI n)) of Some i \<Rightarrow> of_nat i | None \<Rightarrow> 0),
               rt_ParentNull = \<not> tn_HasParent n, rt_ParentPeerIdx = pi,
               rt_ParentCounter = (if tn_HasParent n then Counter parent else 0)\<rparr>
      in e\<lparr>be_vw := vw_RawTreeMove m (be_vw e)\<rparr>)"

text \<open>An op's value as \<open>OpContent\<close> takes it; a type it does not take is \<open>LOther\<close>.\<close>

definition goany_of :: "opval \<Rightarrow> goany" where
  "goany_of v = (case v of OVal x \<Rightarrow> AVal x | OU64 x \<Rightarrow> AU64 x | _ \<Rightarrow> AVal LOther)"

definition with_vw :: "blockEncoder \<Rightarrow> gostring regs valueWriter res \<Rightarrow> blockEncoder res" where
  "with_vw e m = bindR m (\<lambda>w. Inr (e\<lparr>be_vw := w\<rparr>))"

definition op_contID :: "Op \<Rightarrow> contID" where
  "op_contID op =
     (if op_IsRoot op then \<lparr>ct_root = True, ct_kind = op_Kind op, ct_name = op_Container op, ct_peer = 0, ct_counter = 0\<rparr>
      else \<lparr>ct_root = False, ct_kind = op_Kind op, ct_name = [], ct_peer = Peer (id_of (op_Container op)),
        ct_counter = Counter (id_of (op_Container op))\<rparr>)"

definition be_content ::
  "gostring regs orderfun option \<Rightarrow> Op \<Rightarrow> blockEncoder \<Rightarrow> blockEncoder res" where
  "be_content keyOrder op e =
     (let Key = Some register in
      if op_VKind op = VKDeleteSeq then
        (case op_Value op of
           ODelete d \<Rightarrow> (let (i, e) = be_peer (ds_Peer d) e in
             Inr (e\<lparr>be_dels := be_dels e @ [\<lparr>d_PeerIdx = i, d_Counter = ds_Counter d, d_Len = ds_Len d\<rparr>]\<rparr>))
         | _ \<Rightarrow> Inl GoPanic)
      else if op_VKind op = VKMarkStart then
        (case op_Value op of
           OMark m \<Rightarrow> (let (i, e) = be_key (mi_Key m) e in
             with_vw e (vw_Mark Key keyOrder \<lparr>m_Info = mi_Info m, m_Len = mi_Len m, m_KeyIdx = i, m_Value = mi_Value m\<rparr> (be_vw e)))
         | _ \<Rightarrow> Inl GoPanic)
      else if op_VKind op = VKListMove then
        (case op_Value op of
           OElem el \<Rightarrow> (let (i, e) = be_peer (le_Peer el) e in
             Inr (e\<lparr>be_vw := vw_ListMove \<lparr>lm_From = op_MoveFrom op, lm_FromIdx = i, lm_Lamport = le_Lamport el\<rparr> (be_vw e)\<rparr>))
         | _ \<Rightarrow> Inl GoPanic)
      else if op_VKind op = VKListSet then
        (case op_Value op of
           OSet v \<Rightarrow> (let (i, e) = be_peer (le_Peer (sv_Elem v)) e in
             with_vw e (vw_ListSet Key keyOrder \<lparr>ls_PeerIdx = i, ls_Lamport = le_Lamport (sv_Elem v), ls_Value = sv_Value v\<rparr> (be_vw e)))
         | _ \<Rightarrow> Inl GoPanic)
      else if op_VKind op = VKRawTreeMove then
        (case op_Value op of OTree n \<Rightarrow> Inr (be_treeMove n e) | _ \<Rightarrow> Inl GoPanic)
      else with_vw e (WriteOpContent Key keyOrder (op_VKind op) (goany_of (op_Value op)) (be_vw e)))"

definition be_op :: "gostring regs orderfun option \<Rightarrow> Op \<Rightarrow> blockEncoder \<Rightarrow> blockEncoder res" where
  "be_op keyOrder op e =
     (let (ci, e) = be_container (op_contID op) e;
          (prop, e) = (if op_Kind op = CMap then be_key (op_MapKey op) e else (op_Pos op, e));
          ops = be_ops e
      in be_content keyOrder op
           (e\<lparr>be_ops := \<lparr>o_ContainerIdx = o_ContainerIdx ops @ [ci], o_Prop = o_Prop ops @ [prop],
              o_ValueKind = o_ValueKind ops @ [op_VKind op], o_Len = o_Len ops @ [op_Len op]\<rparr>\<rparr>))"

fun be_op_list :: "gostring regs orderfun option \<Rightarrow> Op list \<Rightarrow> blockEncoder \<Rightarrow> blockEncoder res" where
  "be_op_list keyOrder [] e = Inr e"
| "be_op_list keyOrder (op # ops) e = bindR (be_op keyOrder op e) (be_op_list keyOrder ops)"

text \<open>The arena of containers, whose names and peers are registered now.\<close>

fun be_arena :: "contID list \<Rightarrow> blockEncoder \<Rightarrow> Container list \<times> blockEncoder" where
  "be_arena [] e = ([], e)"
| "be_arena (c # cs) e =
     (let (x, e) =
        (if ct_root c then
           (let (i, e) = be_key (ct_name c) e in
            (\<lparr>c_IsRoot = True, c_Kind = ct_kind c, c_PeerIdx = 0, c_KeyOrCounter = i\<rparr>, e))
         else
           (let (i, e) = be_peer (ct_peer c) e in
            (\<lparr>c_IsRoot = False, c_Kind = ct_kind c, c_PeerIdx = i, c_KeyOrCounter = ct_counter c\<rparr>, e)));
        (xs, e) = be_arena cs e
      in (x # xs, e))"

text \<open>A change's dependencies: whether one is on its own peer, and the others, registered.\<close>

fun be_deps :: "u64 \<Rightarrow> ID list \<Rightarrow> blockEncoder \<Rightarrow> (bool \<times> (u64 \<times> i64) list) \<times> blockEncoder" where
  "be_deps peer [] e = ((False, []), e)"
| "be_deps peer (d # ds) e =
     (if Peer d = peer then
        (let ((self, others), e) = be_deps peer ds e in ((True, others), e))
      else
        (let (i, e) = be_peer (Peer d) e; ((self, others), e) = be_deps peer ds e in
         ((self, (i, Counter d) # others), e)))"

fun be_header_deps :: "u64 \<Rightarrow> Change list \<Rightarrow> blockEncoder \<Rightarrow> (bool \<times> (u64 \<times> i64) list) list \<times> blockEncoder" where
  "be_header_deps peer [] e = ([], e)"
| "be_header_deps peer (ch # chs) e =
     (let (d, e) = be_deps peer (ch_Deps ch) e; (ds, e) = be_header_deps peer chs e in (d # ds, e))"

definition encodeBlock :: "gostring regs orderfun option \<Rightarrow> Change list \<Rightarrow> bytes res" where
  "encodeBlock keyOrder chs =
     (let peer = Peer (ch_ID (chs ! 0)); (_, e) = be_peer peer new_encoder; e = be_positions chs e in
      bindR (be_op_list keyOrder (concat (map ch_Ops chs)) e) (\<lambda>e.
        let (conts, e) = be_arena (fst (be_conts e)) e;
            (deps, e) = be_header_deps peer chs e;
            firsts = butlast chs;
            hdr = \<lparr>h_Peers = fst (be_peers e),
              h_AtomLens = map (\<lambda>ch. changeEnd ch - Counter (ch_ID ch)) firsts,
              h_DepOnSelf = map fst deps, h_DepLens = map (\<lambda>d. of_nat (length (snd d))) deps,
              h_DepPeerIdxs = map fst (concat (map snd deps)), h_DepCounters = map snd (concat (map snd deps)),
              h_Lamports = map ch_Lamport firsts\<rparr>;
            meta = \<lparr>cm_Timestamps = map ch_Timestamp chs, cm_CommitMsgs = map ch_CommitMsg chs\<rparr>;
            fst_ch = chs ! 0; lst_ch = last chs; lim = changeEnd lst_ch;
            lamportEnd = ch_Lamport lst_ch + (lim - Counter (ch_ID lst_ch)) in
        if sless lamportEnd (ch_Lamport fst_ch) then Inl (Errorf ''change ends before its block starts'')
        else Inr (EncodeBlock
          \<lparr>CounterStart = Counter (ch_ID fst_ch), CounterLen = lim - Counter (ch_ID fst_ch),
           LamportStart = ch_Lamport fst_ch, LamportLen = lamportEnd - ch_Lamport fst_ch,
           NChanges = of_nat (length chs), b_Header = EncodeHeader hdr, b_ChangeMeta = EncodeChangeMeta meta,
           b_CIDs = EncodeContainers conts, b_Keys = EncodeKeys (fst (vw_arena (be_vw e))),
           b_Positions = EncodePositions (be_pos e), b_Ops = EncodeOps (be_ops e),
           b_DeleteIDs = EncodeDeleteIDs (be_dels e), b_Values = vw_buf (be_vw e)\<rparr>)))"

section \<open>EncodeUpdates\<close>

fun check_changes :: "Change list \<Rightarrow> unit res" where
  "check_changes [] = Inr ()"
| "check_changes (ch # chs) = bindR (checkChange ch) (\<lambda>_. check_changes chs)"

fun encode_blocks :: "gostring regs orderfun option \<Rightarrow> Change list list \<Rightarrow> bytes list res" where
  "encode_blocks keyOrder [] = Inr []"
| "encode_blocks keyOrder (b # bs) =
     bindR (encodeBlock keyOrder b) (\<lambda>x. bindR (encode_blocks keyOrder bs) (\<lambda>xs. Inr (x # xs)))"

definition encodeUpdates :: "Updates option \<Rightarrow> gostring regs orderfun option \<Rightarrow> bytes res" where
  "encodeUpdates u keyOrder =
     (case u of
        None \<Rightarrow> Inl (Errorf ''no updates to encode'')
      | Some u \<Rightarrow>
          bindR (check_changes (u_Changes u)) (\<lambda>_.
          bindR (groupBlocks u) (\<lambda>blocks.
          bindR (checkPeerOrder blocks) (\<lambda>_.
          bindR (encode_blocks keyOrder blocks) (\<lambda>raw.
            Inr (Encode ModeFastUpdates (EncodeFastUpdates raw)))))))"

definition EncodeUpdates :: "Updates option \<Rightarrow> bytes res" where
  "EncodeUpdates u = encodeUpdates u None"

end
