(* ===== verification/OpRanges.thy ===== *)
theory OpRanges
  imports DecodeUpdates
begin

text \<open>
  The id ranges of \<open>loro/merge.go\<close>: which of the atoms of an op are new (\<open>uncovered\<close>,
  \<open>addRange\<close>), and the part of an op that makes some of its atoms (\<open>clipOp\<close>).
\<close>

section \<open>Ranges\<close>

record idRange =
  ir_start :: i64
  ir_end :: i64

definition atomCount :: "Op \<Rightarrow> i64" where
  "atomCount op = (if sint (op_Len op) > 1 then op_Len op else 1)"

definition min64 :: "i64 \<Rightarrow> i64 \<Rightarrow> i64" where
  "min64 a b = (if sless a b then a else b)"

definition max64 :: "i64 \<Rightarrow> i64 \<Rightarrow> i64" where
  "max64 a b = (if sless b a then a else b)"

text \<open>The loop from its variable \<open>cur\<close> on; \<open>break\<close> goes to the test after the loop.\<close>

fun uncovered_from :: "i64 \<Rightarrow> idRange list \<Rightarrow> idRange \<Rightarrow> idRange list" where
  "uncovered_from cur [] want =
     (if sless cur (ir_end want) then [\<lparr>ir_start = cur, ir_end = ir_end want\<rparr>] else [])"
| "uncovered_from cur (h # have) want =
     (if sleq (ir_end h) cur then uncovered_from cur have want
      else if sleq (ir_end want) (ir_start h) then
        (if sless cur (ir_end want) then [\<lparr>ir_start = cur, ir_end = ir_end want\<rparr>] else [])
      else
        let out = (if sless cur (ir_start h) then [\<lparr>ir_start = cur, ir_end = min64 (ir_start h) (ir_end want)\<rparr>] else []);
            cur = (if sless cur (ir_end h) then ir_end h else cur) in
        if sleq (ir_end want) cur then out else out @ uncovered_from cur have want)"

definition uncovered :: "idRange list \<Rightarrow> idRange \<Rightarrow> idRange list" where
  "uncovered have want = uncovered_from (ir_start want) have want"

fun addRange_from :: "bool \<Rightarrow> idRange list \<Rightarrow> idRange \<Rightarrow> idRange list" where
  "addRange_from placed [] r = (if placed then [] else [r])"
| "addRange_from placed (h # have) r =
     (if sless (ir_end h) (ir_start r) then h # addRange_from placed have r
      else if sless (ir_end r) (ir_start h) then
        (if placed then h # addRange_from placed have r else r # h # addRange_from True have r)
      else addRange_from placed have
        (r\<lparr>ir_start := min64 (ir_start r) (ir_start h), ir_end := max64 (ir_end r) (ir_end h)\<rparr>))"

definition addRange :: "idRange list \<Rightarrow> idRange \<Rightarrow> idRange list" where
  "addRange have r = addRange_from False have r"

section \<open>What they mean\<close>

text \<open>The counters of a range, and the order that \<open>addRange\<close> keeps: ranges are not empty, and
  between two of them a counter is missing.\<close>

definition counters :: "idRange \<Rightarrow> int set" where
  "counters r = {sint (ir_start r)..<sint (ir_end r)}"

definition all_counters :: "idRange list \<Rightarrow> int set" where
  "all_counters rs = \<Union> (counters ` set rs)"

definition ranges_ok :: "idRange list \<Rightarrow> bool" where
  "ranges_ok rs \<longleftrightarrow> (\<forall>r\<in>set rs. sless (ir_start r) (ir_end r)) \<and>
     sorted_wrt (\<lambda>a b. sless (ir_end a) (ir_start b)) rs"

lemma all_counters_simps [simp]:
  "all_counters [] = {}" "all_counters (r # rs) = counters r \<union> all_counters rs"
  "all_counters (rs @ qs) = all_counters rs \<union> all_counters qs"
  by (auto simp: all_counters_def)

lemma ranges_ok_Nil [simp]: "ranges_ok []"
  by (simp add: ranges_ok_def)

lemma ranges_ok_Cons: "ranges_ok (h # rs) \<longleftrightarrow>
    sless (ir_start h) (ir_end h) \<and> (\<forall>r\<in>set rs. sless (ir_end h) (ir_start r)) \<and> ranges_ok rs"
  by (auto simp: ranges_ok_def)

lemma sint_min64 [simp]: "sint (min64 a b) = min (sint a) (sint b)"
  by (simp add: min64_def)

lemma sint_max64 [simp]: "sint (max64 a b) = max (sint a) (sint b)"
  by (simp add: max64_def)

lemma counters_after: "\<forall>r\<in>set rs. sint e < sint (ir_start r) \<Longrightarrow> all_counters rs \<subseteq> {sint e<..}"
  by (fastforce simp: all_counters_def counters_def)

lemma uncovered_from_ok:
  assumes "ranges_ok have" and "ir_end want = e"
  shows "all_counters (uncovered_from cur have want) = {sint cur..<sint e} - all_counters have \<and>
    ranges_ok (uncovered_from cur have want) \<and>
    (\<forall>r\<in>set (uncovered_from cur have want). sleq cur (ir_start r) \<and> sleq (ir_end r) e)"
  using assms
proof (induction cur "have" want rule: uncovered_from.induct)
  case (1 cur want)
  then show ?case by (auto simp: counters_def ranges_ok_Cons)
next
  case (2 cur h rest want)
  have h: "sint (ir_start h) < sint (ir_end h)" and after: "\<forall>r\<in>set rest. sint (ir_end h) < sint (ir_start r)"
    and ok: "ranges_ok rest" using "2.prems"(1) by (simp_all add: ranges_ok_Cons)
  note IH1 = "2.IH"(1) [OF _ ok "2.prems"(2)] and IH2 = "2.IH"(2) and want = "2.prems"(2)
  note gt = counters_after [OF after]
  consider "sint (ir_end h) \<le> sint cur" | "sint cur < sint (ir_end h)" "sint e \<le> sint (ir_start h)"
    | "sint cur < sint (ir_end h)" "sint (ir_start h) < sint e" by linarith
  then show ?case
  proof cases
    case 1
    then show ?thesis using IH1 by (auto simp: counters_def)
  next
    case 2
    have "{sint cur..<sint e} - (counters h \<union> all_counters rest) = {sint cur..<sint e}"
      using 2(2) h gt by (auto simp: counters_def)
    with 2 show ?thesis by (auto simp: counters_def ranges_ok_Cons want)
  next
    case 3
    define out where "out = (if sless cur (ir_start h)
      then [\<lparr>ir_start = cur, ir_end = min64 (ir_start h) (ir_end want)\<rparr>] else [])"
    have out: "all_counters out = {sint cur..<sint (ir_start h)}" "ranges_ok out"
      "\<forall>r\<in>set out. sleq cur (ir_start r) \<and> sleq (ir_end r) (ir_start h) \<and> sleq (ir_end r) e"
      using 3(2) by (auto simp: out_def counters_def ranges_ok_Cons want)
    show ?thesis
    proof (cases "sint e \<le> sint (ir_end h)")
      case True
      then have eq: "uncovered_from cur (h # rest) want = out"
        using 3 by (simp add: out_def Let_def want)
      have "{sint cur..<sint (ir_start h)} = {sint cur..<sint e} - (counters h \<union> all_counters rest)"
        using True 3 h gt by (auto simp: counters_def)
      then show ?thesis unfolding eq using out by auto
    next
      case False
      then have eq: "uncovered_from cur (h # rest) want = out @ uncovered_from (ir_end h) rest want"
        using 3 by (simp add: out_def Let_def want)
      have IH: "all_counters (uncovered_from (ir_end h) rest want) = {sint (ir_end h)..<sint e} - all_counters rest \<and>
        ranges_ok (uncovered_from (ir_end h) rest want) \<and>
        (\<forall>r\<in>set (uncovered_from (ir_end h) rest want). sleq (ir_end h) (ir_start r) \<and> sleq (ir_end r) e)"
        by (rule IH2 [where xa = "ir_end h"]) (use 3 False ok want in simp_all)
      have "all_counters (out @ uncovered_from (ir_end h) rest want) =
          {sint cur..<sint e} - (counters h \<union> all_counters rest)"
        using out(1) IH 3 h gt False by (auto simp: counters_def)
      moreover have "ranges_ok (out @ uncovered_from (ir_end h) rest want)"
        using out(2,3) IH h by (fastforce simp: ranges_ok_def sorted_wrt_append)
      ultimately show ?thesis
        unfolding eq using out(3) IH 3(1) by (simp only: all_counters_simps) force
    qed
  qed
qed


lemma addRange_placed:
  "\<forall>h\<in>set have. sless (ir_end r) (ir_start h) \<Longrightarrow> ranges_ok have \<Longrightarrow> sless (ir_start r) (ir_end r) \<Longrightarrow>
    addRange_from True have r = have"
  by (induction "have") (auto simp: ranges_ok_Cons)

lemma addRange_start:
  "x \<in> set (addRange_from p have r) \<Longrightarrow> ir_start x = ir_start r \<or> (\<exists>h\<in>set have. ir_start x = ir_start h)"
proof (induction p "have" r rule: addRange_from.induct)
  case (1 p r)
  then show ?case by (simp split: if_splits)
next
  case (2 p h rest r)
  let ?q = "r\<lparr>ir_start := min64 (ir_start r) (ir_start h), ir_end := max64 (ir_end r) (ir_end h)\<rparr>"
  have q: "ir_start ?q = ir_start r \<or> ir_start ?q = ir_start h" by (simp add: min64_def)
  consider "sless (ir_end h) (ir_start r)" | "\<not> sless (ir_end h) (ir_start r)" "sless (ir_end r) (ir_start h)" p
    | "\<not> sless (ir_end h) (ir_start r)" "sless (ir_end r) (ir_start h)" "\<not> p"
    | "\<not> sless (ir_end h) (ir_start r)" "\<not> sless (ir_end r) (ir_start h)" by blast
  then show ?case
  proof cases
    case 1 with 2 show ?thesis by auto
  next
    case 2 with "2.IH"(2) "2.prems" show ?thesis by auto
  next
    case 3 with "2.IH"(3) "2.prems" show ?thesis by auto
  next
    case 4 with "2.IH"(4) "2.prems" q show ?thesis by (auto simp del: select_convs)
  qed
qed

lemma addRange_from_ok:
  assumes "ranges_ok have" and "sless (ir_start r) (ir_end r)"
  shows "all_counters (addRange_from False have r) = all_counters have \<union> counters r \<and>
    ranges_ok (addRange_from False have r)"
  using assms
proof (induction "have" arbitrary: r)
  case Nil
  then show ?case by (simp add: ranges_ok_Cons)
next
  case (Cons h rest)
  have h: "sint (ir_start h) < sint (ir_end h)" and after: "\<forall>r\<in>set rest. sint (ir_end h) < sint (ir_start r)"
    and ok: "ranges_ok rest" using Cons.prems(1) by (simp_all add: ranges_ok_Cons)
  note IH = Cons.IH [OF ok] and r = Cons.prems(2)
  consider "sint (ir_end h) < sint (ir_start r)" | "sint (ir_end r) < sint (ir_start h)"
    | "sint (ir_start r) \<le> sint (ir_end h)" "sint (ir_start h) \<le> sint (ir_end r)" by linarith
  then show ?case
  proof cases
    case 1
    then have eq: "addRange_from False (h # rest) r = h # addRange_from False rest r" by simp
    have "sint (ir_end h) < sint (ir_start x)" if "x \<in> set (addRange_from False rest r)" for x
      using addRange_start [OF that] 1 after by metis
    then show ?thesis
      unfolding eq ranges_ok_Cons using h IH [OF r] by (simp add: Un_assoc)
  next
    case 2
    have gt: "\<forall>h\<in>set rest. sint (ir_end r) < sint (ir_start h)"
    proof
      fix x assume "x \<in> set rest"
      with after have "sint (ir_end h) < sint (ir_start x)" by blast
      with 2 h show "sint (ir_end r) < sint (ir_start x)" by linarith
    qed
    have eq: "addRange_from False (h # rest) r = r # h # rest"
      using 2 h r addRange_placed [OF gt ok r] by simp
    have "ranges_ok (r # h # rest)"
      unfolding ranges_ok_Cons [of r] using 2 gt r Cons.prems(1) by simp
    then show ?thesis unfolding eq by (simp add: Un_ac)
  next
    case 3
    define q where "q = r\<lparr>ir_start := min64 (ir_start r) (ir_start h), ir_end := max64 (ir_end r) (ir_end h)\<rparr>"
    have q: "sint (ir_start q) = min (sint (ir_start r)) (sint (ir_start h))"
      "sint (ir_end q) = max (sint (ir_end r)) (sint (ir_end h))" by (simp_all add: q_def)
    have eq: "addRange_from False (h # rest) r = addRange_from False rest q"
      using 3 by (simp add: q_def)
    have c: "counters q = counters h \<union> counters r" using 3 h r q by (auto simp: counters_def)
    have "sless (ir_start q) (ir_end q)" using q r by simp
    from IH [OF this] show ?thesis unfolding eq c by (simp add: Un_ac)
  qed
qed

lemma uncovered_ok:
  "ranges_ok have \<Longrightarrow> all_counters (uncovered have want) = counters want - all_counters have \<and> ranges_ok (uncovered have want)"
  using uncovered_from_ok [of "have" want "ir_end want" "ir_start want"] by (simp add: uncovered_def counters_def)

lemma addRange_ok:
  "ranges_ok have \<Longrightarrow> sless (ir_start r) (ir_end r) \<Longrightarrow>
    all_counters (addRange have r) = all_counters have \<union> counters r \<and> ranges_ok (addRange have r)"
  using addRange_from_ok [of "have" r] by (simp add: addRange_def)

section \<open>Clipping an op\<close>

text \<open>
  The part of an op whose atoms occupy \<open>keep\<close>, or \<open>None\<close> where Go returns false with the op
  as it was. The ranges that callers keep are not empty, so the slices below have a length.
\<close>

definition clip_value :: "i64 \<Rightarrow> i64 \<Rightarrow> opval \<Rightarrow> (opval \<times> i64) option" where
  "clip_value off n v =
     (case v of
        OVal (LStr s) \<Rightarrow>
          let r = runes s in
          if sint off < 0 \<or> sint (off + n) > int (length r) then None
          else Some (OVal (LStr (string_of_runes (take (nat (sint n)) (drop (nat (sint off)) r)))), off)
      | OVal (LList xs) \<Rightarrow>
          if sint off < 0 \<or> sint (off + n) > int (length xs) then None
          else Some (OVal (LList (take (nat (sint n)) (drop (nat (sint off)) xs))), off)
      | ODelete d \<Rightarrow>
          let (start, total) = Normalize d in
          if sint off < 0 \<or> sless total (off + n) then None
          else if sint (ds_Len d) \<ge> 0 then Some (ODelete (d\<lparr>ds_Counter := start + off, ds_Len := n\<rparr>), 0)
          else Some (ODelete (d\<lparr>ds_Counter := start + total - (off + n), ds_Len := - n\<rparr>), - off)
      | _ \<Rightarrow> None)"

definition clipOp :: "Op \<Rightarrow> idRange \<Rightarrow> idRange \<Rightarrow> Op option" where
  "clipOp op span keep =
     (if keep = span then Some op
      else
        let off = ir_start keep - ir_start span; n = ir_end keep - ir_start keep in
        case clip_value off n (op_Value op) of
          None \<Rightarrow> None
        | Some (v, shift) \<Rightarrow>
            Some (op\<lparr>op_Value := v, op_Counter := op_Counter op + off, op_Lamport := op_Lamport op + off,
              op_Pos := op_Pos op + shift, op_Len := n\<rparr>))"

definition op_span :: "Op \<Rightarrow> idRange" where
  "op_span op = \<lparr>ir_start = op_Counter op, ir_end = op_Counter op + atomCount op\<rparr>"

section \<open>Atoms\<close>

text \<open>
  What an op means, atom by atom: the atom's counter, lamport and position, and what it does.
  An insert adds its items one after the other; a delete removes one element per atom, the
  lowest id first, or the highest first, one position further left each time, when it ran
  backwards.
\<close>

datatype effect = ARune nat | AItem lval | ADelete u64 i64 | AWhole opval

definition delete_target :: "DeleteSpan \<Rightarrow> nat \<Rightarrow> i64" where
  "delete_target d k = (if sint (ds_Len d) \<ge> 0 then ds_Counter d + of_nat k else ds_Counter d + (- ds_Len d) - 1 - of_nat k)"

definition value_effects :: "opval \<Rightarrow> effect list" where
  "value_effects v =
     (case v of
        OVal (LStr s) \<Rightarrow> map ARune (runes s)
      | OVal (LList xs) \<Rightarrow> map AItem xs
      | ODelete d \<Rightarrow> map (\<lambda>k. ADelete (ds_Peer d) (delete_target d k)) [0..<nat (sint (snd (Normalize d)))]
      | _ \<Rightarrow> [AWhole v])"

definition atom_pos :: "Op \<Rightarrow> nat \<Rightarrow> i64" where
  "atom_pos op k =
     (case op_Value op of
        ODelete d \<Rightarrow> if sint (ds_Len d) \<ge> 0 then op_Pos op else op_Pos op - of_nat k
      | _ \<Rightarrow> op_Pos op + of_nat k)"

record atom =
  at_peer :: u64
  at_counter :: i64
  at_lamport :: i64
  at_pos :: i64
  at_effect :: effect

definition op_atoms :: "Op \<Rightarrow> atom list" where
  "op_atoms op = map (\<lambda>(k, e). \<lparr>at_peer = op_Peer op, at_counter = op_Counter op + of_nat k,
       at_lamport = op_Lamport op + of_nat k, at_pos = atom_pos op k, at_effect = e\<rparr>)
     (zip [0..<length (value_effects (op_Value op))] (value_effects (op_Value op)))"

text \<open>An op as the decoder and the editing methods make them: as long as what it carries, with
  the ids of its atoms in range, and a value that can be cut where it has several atoms.\<close>

definition sliceable :: "opval \<Rightarrow> bool" where
  "sliceable v \<longleftrightarrow> (case v of OVal (LStr s) \<Rightarrow> True | OVal (LList xs) \<Rightarrow> True | ODelete d \<Rightarrow> True | _ \<Rightarrow> False)"

definition op_sound :: "Op \<Rightarrow> bool" where
  "op_sound op \<longleftrightarrow> int (length (value_effects (op_Value op))) = sint (atomCount op) \<and>
     sint (op_Counter op) + sint (atomCount op) < 2 ^ 63 \<and>
     (case op_Value op of ODelete d \<Rightarrow> ds_Len d \<noteq> - (2 ^ 63) | _ \<Rightarrow> True)"

lemma length_op_atoms [simp]: "length (op_atoms op) = length (value_effects (op_Value op))"
  by (simp add: op_atoms_def)

lemma nth_op_atoms: "k < length (value_effects (op_Value op)) \<Longrightarrow>
  op_atoms op ! k = \<lparr>at_peer = op_Peer op, at_counter = op_Counter op + of_nat k,
    at_lamport = op_Lamport op + of_nat k, at_pos = atom_pos op k, at_effect = value_effects (op_Value op) ! k\<rparr>"
  by (simp add: op_atoms_def)

lemma atomCount_pos: "1 \<le> sint (atomCount op)"
  by (simp add: atomCount_def)

text \<open>A value's clipped part has the effects of the atoms kept.\<close>

lemma of_sint: "word_of_int (sint x) = (x :: i64)"
  by (transfer, simp)

lemma sint_eq: "sint a = sint b \<longleftrightarrow> a = (b :: i64)"
  by (metis of_sint)

lemma sint_add:
  assumes "- (2 ^ 63) \<le> sint a + sint b" and "sint a + sint b < 2 ^ 63"
  shows "sint (a + b :: i64) = sint a + sint b"
proof -
  have "a + b = word_of_int (sint a + sint b)" by (simp only: wi_hom_add [symmetric] of_sint)
  then show ?thesis using sint_of_int_small [OF assms] by (simp only:)
qed

lemma sint_diff:
  assumes "- (2 ^ 63) \<le> sint a - sint b" and "sint a - sint b < 2 ^ 63"
  shows "sint (a - b :: i64) = sint a - sint b"
proof -
  have "a - b = word_of_int (sint a - sint b)" by (simp only: wi_hom_sub [symmetric] of_sint)
  then show ?thesis using sint_of_int_small [OF assms] by (simp only:)
qed

lemma sint_minus:
  assumes "a \<noteq> - (2 ^ 63)"
  shows "sint (- a :: i64) = - sint a"
proof -
  have "sint a \<noteq> - (2 ^ 63)"
  proof
    assume "sint a = - (2 ^ 63)"
    then have "word_of_int (sint a) = (word_of_int (- (2 ^ 63)) :: i64)" by (rule arg_cong)
    then have "a = word_of_int (- (2 ^ 63))" by (simp only: of_sint)
    with assms show False by simp
  qed
  then have b: "- sint a < 2 ^ 63" "- (2 ^ 63) \<le> - sint a" using sint_i64_range [of a] by linarith+
  have "- a = word_of_int (- sint a)" by (simp only: wi_hom_neg [symmetric] of_sint)
  then show ?thesis using sint_of_int_small [OF b(2,1)] by (simp only:)
qed

definition span_len :: "DeleteSpan \<Rightarrow> nat" where
  "span_len d = nat (sint (snd (Normalize d)))"

lemma span_len_neg:
  assumes "ds_Len d \<noteq> - (2 ^ 63)" and "sint (ds_Len d) < 0"
  shows "sint (- ds_Len d) = int (span_len d)" and "span_len d < 2 ^ 63" and "- ds_Len d = of_nat (span_len d)"
proof -
  have s: "snd (Normalize d) = - ds_Len d" using assms(2) by (simp add: Normalize_def)
  show 1: "sint (- ds_Len d) = int (span_len d)"
    using sint_minus [OF assms(1)] assms(2) by (simp add: span_len_def s)
  show "span_len d < 2 ^ 63" using 1 sint_i64_range(2) [of "- ds_Len d"] by simp
  show "- ds_Len d = of_nat (span_len d)" by (metis 1 of_int_of_nat_eq of_sint)
qed

lemma take_drop_upt: "a + m \<le> n \<Longrightarrow> take m (drop a (map f [0..<n])) = map (\<lambda>k. f (a + k)) [0..<m]"
  by (rule nth_equalityI) simp_all

lemma clip_value_effects:
  assumes c: "clip_value (of_nat a) (of_nat m) v = Some (v', shift)"
    and m: "0 < m" and le: "a + m \<le> length (value_effects v)" and l: "length (value_effects v) < 2 ^ 63"
    and d: "case v of ODelete d \<Rightarrow> ds_Len d \<noteq> - (2 ^ 63) | _ \<Rightarrow> True"
  shows "value_effects v' = take m (drop a (value_effects v))"
proof -
  have sa: "sint (of_nat a :: i64) = int a" and sm: "sint (of_nat m :: i64) = int m"
    using le l by (simp_all add: sint_of_nat_small)
  consider s where "v = OVal (LStr s)" | xs where "v = OVal (LList xs)" | d where "v = ODelete d"
    using c by (auto simp: clip_value_def split: opval.splits lval.splits)
  then show ?thesis
  proof cases
    case 1
    have "\<forall>r\<in>set (take m (drop a (runes s))). is_rune r"
      using runes_is_rune by (meson in_set_dropD in_set_takeD)
    then have "runes (string_of_runes (take m (drop a (runes s)))) = take m (drop a (runes s))"
      by (rule runes_string_of_runes)
    with c 1 sa sm show ?thesis by (auto simp: clip_value_def value_effects_def Let_def take_map drop_map split: if_splits)
  next
    case 2
    with c sa sm show ?thesis by (auto simp: clip_value_def value_effects_def Let_def take_map drop_map split: if_splits)
  next
    case 3
    have ve: "value_effects v = map (\<lambda>k. ADelete (ds_Peer d) (delete_target d k)) [0..<span_len d]"
      by (simp add: 3 value_effects_def span_len_def)
    note td = take_drop_upt [of a m "span_len d"]
    have le': "a + m \<le> span_len d" using le by (simp add: ve)
    show ?thesis
    proof (cases "sint (ds_Len d) \<ge> 0")
      case True
      then have v': "v' = ODelete (d\<lparr>ds_Counter := ds_Counter d + of_nat a, ds_Len := of_nat m\<rparr>)"
        using c 3 by (auto simp: clip_value_def Normalize_def split: if_splits)
      show ?thesis
        unfolding ve td [OF le'] unfolding v' using True sm
        by (simp add: value_effects_def delete_target_def Normalize_def add.assoc)
    next
      case False
      then have neg: "sint (ds_Len d) < 0" by simp
      have "ds_Len d \<noteq> - (2 ^ 63)" using d 3 by simp
      note sl = span_len_neg [OF this neg]
      have v': "v' = ODelete (d\<lparr>ds_Counter := ds_Counter d + - ds_Len d - (of_nat a + of_nat m), ds_Len := - of_nat m\<rparr>)"
        using c 3 False by (auto simp: clip_value_def Normalize_def split: if_splits)
      have m64: "m < 2 ^ 63" using le l by simp
      have "sint (- of_nat m :: i64) = - int m" by (rule sint_minus_of_nat_small [OF m64])
      then have n': "\<not> 0 \<le> sint (- of_nat m :: i64)" using m by simp
      show ?thesis
        unfolding ve td [OF le'] unfolding v' using n' False sm
        by (simp add: value_effects_def delete_target_def Normalize_def)
    qed
  qed
qed

lemma op_sound_length:
  assumes "op_sound op"
  shows "length (value_effects (op_Value op)) < 2 ^ 63" and "0 < length (value_effects (op_Value op))"
proof -
  have l: "int (length (value_effects (op_Value op))) = sint (atomCount op)"
    using assms by (simp add: op_sound_def)
  then show "0 < length (value_effects (op_Value op))" using atomCount_pos [of op] by linarith
  show "length (value_effects (op_Value op)) < 2 ^ 63" using l sint_i64_range(2) [of "atomCount op"] by simp
qed

text \<open>The range of \<open>m\<close> atoms from the \<open>a\<close>-th on.\<close>

definition sub_range :: "Op \<Rightarrow> nat \<Rightarrow> nat \<Rightarrow> idRange" where
  "sub_range op a m = \<lparr>ir_start = op_Counter op + of_nat a, ir_end = op_Counter op + of_nat a + of_nat m\<rparr>"

lemma op_span_sub_range:
  assumes "op_sound op"
  shows "op_span op = sub_range op 0 (length (value_effects (op_Value op)))"
proof -
  have "atomCount op = of_nat (length (value_effects (op_Value op)))"
    using assms by (metis of_int_of_nat_eq of_sint op_sound_def)
  then show ?thesis by (simp add: op_span_def sub_range_def)
qed

lemma clip_shift:
  assumes "clip_value off n v = Some (v', shift)" and "op_Value op = v" and "0 < sint n" and "n \<noteq> - (2 ^ 63)"
  shows "atom_pos (op\<lparr>op_Value := v', op_Counter := c, op_Lamport := l, op_Pos := op_Pos op + shift, op_Len := n\<rparr>) k =
    atom_pos op (nat (sint off) + k)"
proof -
  have ok: "0 \<le> sint off" using assms(1)
    by (auto simp: clip_value_def Let_def Normalize_def split: opval.splits lval.splits if_splits)
  then have o: "of_nat (nat (sint off)) = off" by (metis int_nat_eq of_int_of_nat_eq of_sint)
  have neg: "sint (- n) < 0" using assms(3) sint_minus [OF assms(4)] by simp
  show ?thesis
    using assms(1-3) neg o
    by (auto simp: clip_value_def Let_def Normalize_def atom_pos_def algebra_simps
        split: opval.splits lval.splits if_splits)
qed

lemma clipOp_atoms:
  assumes s: "op_sound op" and m: "0 < m" and le: "a + m \<le> length (value_effects (op_Value op))"
  shows "\<exists>op'. clipOp op (op_span op) (sub_range op a m) = Some op' \<and> op_atoms op' = take m (drop a (op_atoms op))"
proof -
  let ?N = "length (value_effects (op_Value op))"
  note N = op_sound_length [OF s]
  have r: "sint (of_nat a :: i64) = int a" "sint (of_nat m :: i64) = int m"
    using le N(1) by (simp_all add: sint_of_nat_small)
  have am: "sint (of_nat a + of_nat m :: i64) = int (a + m)"
    using le N(1) sint_of_nat_small [of "a + m"] by simp
  show ?thesis
  proof (cases "a = 0 \<and> m = ?N")
    case True
    then show ?thesis using op_span_sub_range [OF s] by (simp add: clipOp_def)
  next
    case False
    have off: "ir_start (sub_range op a m) - ir_start (op_span op) = of_nat a"
      "ir_end (sub_range op a m) - ir_start (sub_range op a m) = of_nat m"
      by (simp_all add: sub_range_def op_span_def)
    have ne: "sub_range op a m \<noteq> op_span op"
    proof
      assume e: "sub_range op a m = op_span op"
      then have "(of_nat a :: i64) = 0" using off(1) by simp
      then have "a = 0" using r(1) by simp
      moreover have "(of_nat m :: i64) = of_nat ?N"
        using off(2) unfolding e op_span_sub_range [OF s] by (simp add: sub_range_def)
      then have "m = ?N" using r(2) sint_of_nat_small [OF N(1)] by (metis of_nat_eq_iff)
      ultimately show False using False by simp
    qed
    have "?N \<noteq> 1" using False m le by auto
    then consider t where "op_Value op = OVal (LStr t)" | xs where "op_Value op = OVal (LList xs)"
      | d where "op_Value op = ODelete d"
      by (auto simp: value_effects_def split: opval.splits lval.splits)
    then have "clip_value (of_nat a) (of_nat m) (op_Value op) \<noteq> None"
    proof cases
      case 1
      with le r am show ?thesis by (simp add: clip_value_def Let_def value_effects_def)
    next
      case 2
      with le r am show ?thesis by (simp add: clip_value_def Let_def value_effects_def)
    next
      case 3
      with le r am m show ?thesis by (auto simp: clip_value_def Normalize_def value_effects_def split: if_splits)
    qed
    then obtain v' shift where cv: "clip_value (of_nat a) (of_nat m) (op_Value op) = Some (v', shift)" by fastforce
    let ?op = "op\<lparr>op_Value := v', op_Counter := op_Counter op + of_nat a, op_Lamport := op_Lamport op + of_nat a,
      op_Pos := op_Pos op + shift, op_Len := of_nat m\<rparr>"
    have c: "clipOp op (op_span op) (sub_range op a m) = Some ?op"
      using ne cv by (simp add: clipOp_def off Let_def)
    have "(case op_Value op of ODelete d \<Rightarrow> ds_Len d \<noteq> - (2 ^ 63) | _ \<Rightarrow> True)" using s by (simp add: op_sound_def)
    note ve = clip_value_effects [OF cv m le N(1) this]
    have m0: "0 < sint (of_nat m :: i64)" "(of_nat m :: i64) \<noteq> - (2 ^ 63)"
    proof -
      show "0 < sint (of_nat m :: i64)" using r(2) m by simp
      then show "(of_nat m :: i64) \<noteq> - (2 ^ 63)" by auto
    qed
    have "op_atoms ?op = take m (drop a (op_atoms op))"
    proof (rule nth_equalityI)
      show "length (op_atoms ?op) = length (take m (drop a (op_atoms op)))" using ve le by simp
    next
      fix k assume "k < length (op_atoms ?op)"
      then have k: "k < m" using ve le by simp
      have "value_effects v' ! k = value_effects (op_Value op) ! (a + k)" using ve k le by simp
      moreover have "atom_pos ?op k = atom_pos op (a + k)"
        using clip_shift [OF cv refl m0] r(1) by simp
      ultimately show "op_atoms ?op ! k = take m (drop a (op_atoms op)) ! k"
        using k le ve by (simp add: nth_op_atoms add.assoc)
    qed
    with c show ?thesis by blast
  qed
qed

text \<open>The atoms that the ranges already consumed leave over.\<close>

lemma nths_split:
  "\<forall>x\<in>A. x < k \<Longrightarrow> \<forall>y\<in>B. k \<le> y \<Longrightarrow> nths xs (A \<union> B) = nths xs A @ nths xs B"
proof (induction xs arbitrary: A B k)
  case Nil
  then show ?case by simp
next
  case (Cons x xs)
  have u: "{j. Suc j \<in> A \<or> Suc j \<in> B} = {j. Suc j \<in> A} \<union> {j. Suc j \<in> B}" by auto
  show ?case
  proof (cases k)
    case 0
    then have "A = {}" using Cons.prems(1) by auto
    then show ?thesis by simp
  next
    case (Suc l)
    have "nths xs ({j. Suc j \<in> A} \<union> {j. Suc j \<in> B}) = nths xs {j. Suc j \<in> A} @ nths xs {j. Suc j \<in> B}"
      by (rule Cons.IH [of _ l]) (use Cons.prems Suc in fastforce)+
    moreover have "0 \<notin> B" using Cons.prems(2) Suc by auto
    ultimately show ?thesis by (simp add: nths_Cons u)
  qed
qed

lemma nths_interval: "take m (drop a xs) = nths xs {a..<a + m}"
proof (induction xs arbitrary: a m)
  case Nil
  then show ?case by simp
next
  case (Cons x xs)
  show ?case
  proof (cases a)
    case a: 0
    show ?thesis
    proof (cases m)
      case (Suc n)
      have "{j. Suc j \<in> {0..<Suc n}} = {0..<0 + n}" by auto
      with Cons.IH [of n 0] a Suc show ?thesis by (simp add: nths_Cons)
    qed (simp add: a)
  next
    case (Suc b)
    have "{j. Suc j \<in> {a..<a + m}} = {b..<b + m}" using Suc by auto
    with Cons.IH [of m b] Suc show ?thesis by (simp add: nths_Cons)
  qed
qed

lemma nths_filter: "(\<And>i. i < length xs \<Longrightarrow> i \<in> A \<longleftrightarrow> P (xs ! i)) \<Longrightarrow> nths xs A = filter P xs"
proof (induction xs arbitrary: A)
  case Nil
  then show ?case by simp
next
  case (Cons x xs)
  have "nths xs {j. Suc j \<in> A} = filter P xs"
    by (rule Cons.IH) (use Cons.prems [of "Suc _"] in simp)
  moreover have "0 \<in> A \<longleftrightarrow> P x" using Cons.prems [of 0] by simp
  ultimately show ?case by (simp add: nths_Cons)
qed

definition fresh_parts :: "Op \<Rightarrow> idRange list \<Rightarrow> Op list" where
  "fresh_parts op have = map (\<lambda>r. the (clipOp op (op_span op) r)) (uncovered have (op_span op))"

lemma clip_ranges_atoms:
  assumes s: "op_sound op" and ok: "ranges_ok rs"
    and inside: "\<forall>r\<in>set rs. sint (op_Counter op) \<le> sint (ir_start r) \<and>
      sint (ir_end r) \<le> sint (op_Counter op) + int (length (op_atoms op))"
  shows "(\<forall>r\<in>set rs. clipOp op (op_span op) r \<noteq> None) \<and>
    concat (map (\<lambda>r. op_atoms (the (clipOp op (op_span op) r))) rs) =
      nths (op_atoms op) {k. sint (op_Counter op) + int k \<in> all_counters rs}"
  using ok inside
proof (induction rs)
  case Nil
  then show ?case by simp
next
  case (Cons r rs)
  let ?c = "sint (op_Counter op)" and ?N = "length (op_atoms op)"
  define a where "a = nat (sint (ir_start r) - ?c)"
  define m where "m = nat (sint (ir_end r) - sint (ir_start r))"
  have r: "sint (ir_start r) < sint (ir_end r)" and after: "\<forall>q\<in>set rs. sint (ir_end r) < sint (ir_start q)"
    using Cons.prems(1) by (simp_all add: ranges_ok_Cons)
  have i: "?c \<le> sint (ir_start r)" "sint (ir_end r) \<le> ?c + int ?N" using Cons.prems(2) by simp_all
  have am: "int a = sint (ir_start r) - ?c" "int m = sint (ir_end r) - sint (ir_start r)"
    using i r by (simp_all add: a_def m_def)
  have le: "0 < m" "a + m \<le> length (value_effects (op_Value op))" using am i r unfolding length_op_atoms by linarith+
  have sub: "r = sub_range op a m"
  proof -
    have "op_Counter op + of_nat a = word_of_int (?c + int a)" by (simp only: wi_hom_add [symmetric] of_sint of_int_of_nat_eq)
    also have "?c + int a = sint (ir_start r)" using am by simp
    finally have 1: "op_Counter op + of_nat a = ir_start r" by (simp only: of_sint)
    have "ir_start r + of_nat m = word_of_int (sint (ir_start r) + int m)" by (simp only: wi_hom_add [symmetric] of_sint of_int_of_nat_eq)
    also have "sint (ir_start r) + int m = sint (ir_end r)" using am by simp
    finally have "ir_start r + of_nat m = ir_end r" by (simp only: of_sint)
    with 1 show ?thesis by (simp add: sub_range_def)
  qed
  obtain op' where c: "clipOp op (op_span op) r = Some op'" and at: "op_atoms op' = take m (drop a (op_atoms op))"
    using clipOp_atoms [OF s le] unfolding sub by blast
  have A: "{k. ?c + int k \<in> counters r} = {a..<a + m}" using am by (auto simp: counters_def)
  have "{k. ?c + int k \<in> all_counters (r # rs)} = {a..<a + m} \<union> {k. ?c + int k \<in> all_counters rs}"
    using A by auto
  moreover have "nths (op_atoms op) ({a..<a + m} \<union> {k. ?c + int k \<in> all_counters rs}) =
      nths (op_atoms op) {a..<a + m} @ nths (op_atoms op) {k. ?c + int k \<in> all_counters rs}"
  proof (rule nths_split [where k = "a + m"])
    show "\<forall>y\<in>{k. ?c + int k \<in> all_counters rs}. a + m \<le> y"
    proof
      fix y assume "y \<in> {k. ?c + int k \<in> all_counters rs}"
      then have "sint (ir_end r) < ?c + int y" using counters_after [OF after] by auto
      then show "a + m \<le> y" using am by linarith
    qed
  qed simp
  moreover have "ranges_ok rs" using Cons.prems(1) by (simp add: ranges_ok_Cons)
  ultimately show ?case
    using Cons c at by (simp add: nths_interval)
qed

lemma fresh_parts_atoms:
  assumes s: "op_sound op" and ok: "ranges_ok have"
  shows "(\<forall>r\<in>set (uncovered have (op_span op)). clipOp op (op_span op) r \<noteq> None) \<and>
    concat (map op_atoms (fresh_parts op have)) =
      filter (\<lambda>x. sint (at_counter x) \<notin> all_counters have) (op_atoms op)"
proof -
  let ?c = "sint (op_Counter op)" and ?N = "length (op_atoms op)" and ?rs = "uncovered have (op_span op)"
  have N: "int ?N = sint (atomCount op)" and fit: "?c + int ?N < 2 ^ 63"
    using s by (simp_all add: op_sound_def)
  have e: "sint (ir_end (op_span op)) = ?c + int ?N"
    unfolding op_span_def N using sint_i64_range(1) [of "op_Counter op"] atomCount_pos [of op] fit N
    by (simp add: sint_add)
  have u: "all_counters ?rs = counters (op_span op) - all_counters have" "ranges_ok ?rs"
    using uncovered_ok [OF ok] by simp_all
  have "\<forall>r\<in>set ?rs. ?c \<le> sint (ir_start r) \<and> sint (ir_end r) \<le> ?c + int ?N"
    using uncovered_from_ok [OF ok refl, of "ir_start (op_span op)" "op_span op"] e
    by (simp add: uncovered_def op_span_def)
  note clip_ranges_atoms [OF s u(2) this]
  moreover have "nths (op_atoms op) {k. ?c + int k \<in> all_counters ?rs} =
      filter (\<lambda>x. sint (at_counter x) \<notin> all_counters have) (op_atoms op)"
  proof (rule nths_filter)
    fix i assume i: "i < length (op_atoms op)"
    have i63: "i < 2 ^ 63" using i op_sound_length(1) [OF s] by simp
    have "sint (op_Counter op + of_nat i) = ?c + sint (of_nat i :: i64)"
      using sint_i64_range(1) [of "op_Counter op"] fit i sint_of_nat_small [OF i63] by (intro sint_add) simp_all
    then have "sint (at_counter (op_atoms op ! i)) = ?c + int i"
      using i sint_of_nat_small [OF i63] by (simp add: nth_op_atoms)
    then show "(i \<in> {k. ?c + int k \<in> all_counters ?rs}) = (sint (at_counter (op_atoms op ! i)) \<notin> all_counters have)"
      using i e unfolding u(1) by (simp add: counters_def op_span_def)
  qed
  ultimately show ?thesis by (simp add: fresh_parts_def o_def)
qed

section \<open>Collecting a history\<close>

text \<open>
  \<open>collect\<close>: the ops of each container, duplicates clipped away, the containers in the order
  of their first op, and the changes with the ops that were new in them. The changes that
  brought something new are given by their index in \<open>copies\<close>.
\<close>

record contKey =
  ck_root :: bool
  ck_name :: gostring
  ck_kind :: ContainerType

definition keyOf :: "Op \<Rightarrow> contKey" where
  "keyOf op = \<lparr>ck_root = op_IsRoot op, ck_name = op_Container op, ck_kind = op_Kind op\<rparr>"

record seqChange =
  sc_ch :: Change
  sc_start :: i64
  sc_end :: i64
  sc_fresh :: "Op list"

record collected =
  cl_conts :: "contKey \<Rightarrow> Op list option"
  cl_order :: "contKey list"
  cl_copies :: "seqChange list"
  cl_units :: "nat list"

type_synonym consumed = "u64 \<times> gostring \<times> byte \<Rightarrow> idRange list"

text \<open>The ops that the ranges \<open>fresh\<close> of \<open>op\<close> add: a value that cannot be sliced is all or nothing.\<close>

fun collect_parts :: "Op \<Rightarrow> idRange \<Rightarrow> idRange list \<Rightarrow> Op list" where
  "collect_parts op span [] = []"
| "collect_parts op span (r # rs) =
     (case clipOp op span r of
        None \<Rightarrow> [op]
      | Some clipped \<Rightarrow> clipped # collect_parts op span rs)"

definition add_ops :: "contKey \<Rightarrow> Op list \<Rightarrow> collected \<Rightarrow> collected" where
  "add_ops k ops c =
     (case cl_conts c k of
        None \<Rightarrow> c\<lparr>cl_conts := (cl_conts c)(k \<mapsto> ops), cl_order := cl_order c @ [k]\<rparr>
      | Some old \<Rightarrow> c\<lparr>cl_conts := (cl_conts c)(k \<mapsto> old @ ops)\<rparr>)"

fun collect_ops :: "Op list \<Rightarrow> consumed \<Rightarrow> collected \<Rightarrow> Op list \<Rightarrow> consumed \<times> collected \<times> Op list" where
  "collect_ops [] con c fresh = (con, c, fresh)"
| "collect_ops (op # ops) con c fresh =
     (let key = (op_Peer op, op_Container op, op_VKind op); span = op_span op;
          new = uncovered (con key) span; con' = con(key := addRange (con key) span) in
      if new = [] then collect_ops ops con' c fresh
      else let parts = collect_parts op span new in
        collect_ops ops con' (add_ops (keyOf op) parts c) (fresh @ parts))"

definition change_end :: "Change \<Rightarrow> i64" where
  "change_end ch = foldl (\<lambda>e op. e + atomCount op) (Counter (ch_ID ch)) (ch_Ops ch)"

fun collect_changes :: "Change list \<Rightarrow> consumed \<Rightarrow> collected \<Rightarrow> collected" where
  "collect_changes [] con c = c"
| "collect_changes (ch # chs) con c =
     (case collect_ops (ch_Ops ch) con c [] of (con, c, fresh) \<Rightarrow>
        collect_changes chs con
          (c\<lparr>cl_copies := cl_copies c @
               [\<lparr>sc_ch = ch, sc_start = Counter (ch_ID ch), sc_end = change_end ch, sc_fresh = fresh\<rparr>],
             cl_units := (if fresh \<noteq> [] then cl_units c @ [length (cl_copies c)] else cl_units c)\<rparr>))"

definition collect :: "Updates \<Rightarrow> collected" where
  "collect u = collect_changes (u_Changes u) (\<lambda>_. [])
     \<lparr>cl_conts = Map.empty, cl_order = [], cl_copies = [], cl_units = []\<rparr>"

section \<open>Every atom once\<close>

definition op_ids :: "Op \<Rightarrow> ((u64 \<times> gostring \<times> byte) \<times> i64) list" where
  "op_ids op = map (\<lambda>x. ((op_Peer op, op_Container op, op_VKind op), at_counter x)) (op_atoms op)"

definition key_counters :: "Op list \<Rightarrow> u64 \<times> gostring \<times> byte \<Rightarrow> int set" where
  "key_counters ops key = {sint c | c. (key, c) \<in> set (concat (map op_ids ops))}"

lemma clipOp_names:
  "clipOp op span r = Some op' \<Longrightarrow> op_Peer op' = op_Peer op \<and> op_Container op' = op_Container op \<and>
    op_VKind op' = op_VKind op \<and> keyOf op' = keyOf op"
  by (auto simp: clipOp_def Let_def keyOf_def split: if_splits option.splits)

lemma collect_parts_fresh:
  "\<forall>r\<in>set rs. clipOp op span r \<noteq> None \<Longrightarrow> collect_parts op span rs = map (\<lambda>r. the (clipOp op span r)) rs"
  by (induction rs) auto

lemma parts_ids:
  assumes s: "op_sound op" and ok: "ranges_ok have"
  shows "concat (map op_ids (collect_parts op (op_span op) (uncovered have (op_span op)))) =
      filter (\<lambda>(k, c). sint c \<notin> all_counters have) (op_ids op) \<and>
    (\<forall>q\<in>set (collect_parts op (op_span op) (uncovered have (op_span op))). keyOf q = keyOf op)"
proof -
  let ?key = "(op_Peer op, op_Container op, op_VKind op)"
  note f = fresh_parts_atoms [OF s ok]
  then have p: "collect_parts op (op_span op) (uncovered have (op_span op)) = fresh_parts op have"
    by (simp add: collect_parts_fresh fresh_parts_def)
  have n: "\<forall>q\<in>set (fresh_parts op have). (op_Peer q, op_Container q, op_VKind q) = ?key \<and> keyOf q = keyOf op"
    using f clipOp_names by (fastforce simp: fresh_parts_def)
  have "concat (map op_ids qs) = map (\<lambda>x. (?key, at_counter x)) (concat (map op_atoms qs))"
    if "\<forall>q\<in>set qs. (op_Peer q, op_Container q, op_VKind q) = ?key" for qs
    using that by (induction qs) (auto simp: op_ids_def)
  from this [of "fresh_parts op have"] n f show ?thesis
    unfolding p by (simp add: op_ids_def filter_map o_def)
qed

lemma op_ids_facts:
  assumes s: "op_sound op"
  shows "distinct (op_ids op)"
    and "key_counters [op] key = (if key = (op_Peer op, op_Container op, op_VKind op) then counters (op_span op) else {})"
proof -
  let ?c = "sint (op_Counter op)" and ?N = "length (op_atoms op)"
  have N: "int ?N = sint (atomCount op)" and fit: "?c + int ?N < 2 ^ 63"
    using s by (simp_all add: op_sound_def)
  have e: "sint (ir_end (op_span op)) = ?c + int ?N"
    unfolding op_span_def N using sint_i64_range(1) [of "op_Counter op"] atomCount_pos [of op] fit N
    by (simp add: sint_add)
  have at: "sint (at_counter (op_atoms op ! i)) = ?c + int i" if "i < ?N" for i
  proof -
    have i63: "i < 2 ^ 63" using that op_sound_length(1) [OF s] by simp
    have "sint (op_Counter op + of_nat i) = ?c + sint (of_nat i :: i64)"
      using sint_i64_range(1) [of "op_Counter op"] fit that sint_of_nat_small [OF i63] by (intro sint_add) simp_all
    then show ?thesis using that sint_of_nat_small [OF i63] by (simp add: nth_op_atoms)
  qed
  have "map (\<lambda>x. sint (at_counter x)) (op_atoms op) = map (\<lambda>i. ?c + int i) [0..<?N]"
    by (rule nth_equalityI) (simp_all add: at del: length_op_atoms)
  then have m: "map (\<lambda>(k, c). sint c) (op_ids op) = map (\<lambda>i. ?c + int i) [0..<?N]"
    by (simp add: op_ids_def o_def)
  then have "distinct (map (\<lambda>(k, c). sint c) (op_ids op))" by (simp add: distinct_map inj_on_def)
  then show "distinct (op_ids op)" by (simp add: distinct_map)
  have "{sint c | c. (key, c) \<in> set (op_ids op)} = (if key = (op_Peer op, op_Container op, op_VKind op)
      then set (map (\<lambda>(k, c). sint c) (op_ids op)) else {})"
    by (auto simp: op_ids_def)
  moreover have "set (map (\<lambda>(k, c). sint c) (op_ids op)) = counters (op_span op)"
  proof -
    have "(\<lambda>i. ?c + int i) ` {0..<?N} = {?c..<?c + int ?N}"
    proof (intro equalityI subsetI)
      fix x assume "x \<in> {?c..<?c + int ?N}"
      then have "x = ?c + int (nat (x - ?c))" "nat (x - ?c) < ?N" by auto
      then show "x \<in> (\<lambda>i. ?c + int i) ` {0..<?N}" by (metis atLeastLessThan_iff image_eqI zero_le)
    qed auto
    then show ?thesis unfolding m counters_def e by (simp add: op_span_def)
  qed
  ultimately show "key_counters [op] key = (if key = (op_Peer op, op_Container op, op_VKind op) then counters (op_span op) else {})"
    by (simp add: key_counters_def)
qed

definition cont_ops :: "collected \<Rightarrow> contKey \<Rightarrow> Op list" where
  "cont_ops c k = (case cl_conts c k of None \<Rightarrow> [] | Some ops \<Rightarrow> ops)"

definition collected_ok :: "consumed \<Rightarrow> collected \<Rightarrow> Op list \<Rightarrow> Op list \<Rightarrow> bool" where
  "collected_ok con c seen fr \<longleftrightarrow>
     (\<forall>key. ranges_ok (con key) \<and> all_counters (con key) = key_counters seen key) \<and>
     distinct (concat (map op_ids fr)) \<and> set (concat (map op_ids fr)) = set (concat (map op_ids seen)) \<and>
     (\<forall>k. cont_ops c k = filter (\<lambda>op. keyOf op = k) fr)"

lemma key_counters_append: "key_counters (xs @ ys) key = key_counters xs key \<union> key_counters ys key"
  by (auto simp: key_counters_def)

lemma cont_ops_add: "cont_ops (add_ops k ops c) k' = cont_ops c k' @ (if k' = k then ops else [])"
  by (auto simp: cont_ops_def add_ops_def split: option.splits)

lemma op_span_nonempty: "op_sound op \<Longrightarrow> sless (ir_start (op_span op)) (ir_end (op_span op))"
  using sint_i64_range(1) [of "op_Counter op"] atomCount_pos [of op]
  by (auto simp: op_sound_def op_span_def sint_add)

lemma collect_step:
  assumes s: "op_sound op" and inv: "collected_ok con c seen fr"
    and key: "key = (op_Peer op, op_Container op, op_VKind op)"
  defines "parts \<equiv> collect_parts op (op_span op) (uncovered (con key) (op_span op))"
  shows "collected_ok (con(key := addRange (con key) (op_span op))) (add_ops (keyOf op) parts c) (seen @ [op]) (fr @ parts)"
proof -
  have ok: "ranges_ok (con key)" and cov: "all_counters (con key) = key_counters seen key"
    using inv unfolding collected_ok_def by blast+
  note parts = parts_ids [OF s ok, folded parts_def] and op = op_ids_facts [OF s]
  note add = addRange_ok [OF ok op_span_nonempty [OF s]]
  have new: "set (concat (map op_ids parts)) = set (op_ids op) - set (concat (map op_ids seen))"
  proof -
    have "x \<in> set (concat (map op_ids seen)) \<longleftrightarrow> sint (snd x) \<in> all_counters (con key)" if m: "x \<in> set (op_ids op)" for x
    proof -
      obtain c where x: "x = (key, c)" using m key by (auto simp: op_ids_def)
      show ?thesis unfolding x cov key_counters_def by (auto simp: sint_eq)
    qed
    then show ?thesis
      unfolding conjunct1 [OF parts] set_filter by (auto simp only: split_def)
  qed
  have "distinct (concat (map op_ids parts))" using parts op(1) by simp
  then have "distinct (concat (map op_ids (fr @ parts)))"
    using inv new by (auto simp: collected_ok_def)
  moreover have "set (concat (map op_ids (fr @ parts))) = set (concat (map op_ids (seen @ [op])))"
    using inv new by (auto simp: collected_ok_def)
  moreover have "cont_ops (add_ops (keyOf op) parts c) k = filter (\<lambda>op. keyOf op = k) (fr @ parts)" for k
    using inv parts by (auto simp: collected_ok_def cont_ops_add filter_empty_conv intro: filter_True [symmetric])
  moreover have "ranges_ok ((con(key := addRange (con key) (op_span op))) k) \<and>
      all_counters ((con(key := addRange (con key) (op_span op))) k) = key_counters (seen @ [op]) k" for k
  proof (cases "k = key")
    case True
    then show ?thesis using add cov op(2) [of k] key by (simp add: key_counters_append)
  next
    case False
    have "ranges_ok (con k) \<and> all_counters (con k) = key_counters seen k"
      using inv unfolding collected_ok_def by blast
    then show ?thesis using False op(2) [of k] key by (simp add: key_counters_append)
  qed
  ultimately show ?thesis unfolding collected_ok_def by blast
qed

lemma add_no_ops: "collected_ok con (add_ops k [] c) seen fr \<Longrightarrow> collected_ok con c seen fr"
  by (simp add: collected_ok_def cont_ops_add)

lemma collect_ops_ok:
  assumes "list_all op_sound ops" and "collected_ok con c seen (fr @ fresh)"
    and "collect_ops ops con c fresh = (con', c', fresh')"
  shows "collected_ok con' c' (seen @ ops) (fr @ fresh') \<and> cl_copies c' = cl_copies c"
  using assms
proof (induction ops con c fresh arbitrary: seen rule: collect_ops.induct)
  case (1 con c fresh)
  then show ?case by simp
next
  case (2 op ops con c fresh)
  let ?key = "(op_Peer op, op_Container op, op_VKind op)"
  let ?new = "uncovered (con ?key) (op_span op)"
  let ?con = "con(?key := addRange (con ?key) (op_span op))"
  let ?parts = "collect_parts op (op_span op) ?new"
  have s: "op_sound op" and rest: "list_all op_sound ops" using "2.prems"(1) by simp_all
  note step = collect_step [OF s "2.prems"(2) refl]
  show ?case
  proof (cases "?new = []")
    case True
    have eq: "collect_ops (op # ops) con c fresh = collect_ops ops ?con c fresh"
      by (simp only: collect_ops.simps Let_def True simp_thms if_True)
    have "collected_ok ?con (add_ops (keyOf op) [] c) (seen @ [op]) (fr @ fresh)"
      using step by (simp only: True collect_parts.simps append_Nil2)
    then have inv: "collected_ok ?con c (seen @ [op]) (fr @ fresh)" by (rule add_no_ops)
    from "2.IH"(1) [OF refl refl refl refl True rest inv] "2.prems"(3)
    show ?thesis unfolding eq by (simp del: fun_upd_apply)
  next
    case False
    have eq: "collect_ops (op # ops) con c fresh = collect_ops ops ?con (add_ops (keyOf op) ?parts c) (fresh @ ?parts)"
      by (simp only: collect_ops.simps Let_def False simp_thms if_False)
    have inv: "collected_ok ?con (add_ops (keyOf op) ?parts c) (seen @ [op]) (fr @ (fresh @ ?parts))"
      using step by (simp only: append_assoc)
    have "cl_copies (add_ops k ps c) = cl_copies c" for k ps by (simp add: add_ops_def split: option.splits)
    with "2.IH"(2) [OF refl refl refl refl False refl rest inv] "2.prems"(3)
    show ?thesis unfolding eq by (simp del: fun_upd_apply)
  qed
qed

lemma collected_ok_cong:
  "collected_ok con c seen fr \<Longrightarrow> cl_conts c' = cl_conts c \<Longrightarrow> collected_ok con c' seen fr"
  by (simp add: collected_ok_def cont_ops_def)

lemma collect_changes_ok:
  assumes "list_all (\<lambda>ch. list_all op_sound (ch_Ops ch)) chs"
    and "collected_ok con c seen (concat (map sc_fresh (cl_copies c)))"
  shows "\<exists>con'. collected_ok con' (collect_changes chs con c) (seen @ concat (map ch_Ops chs))
    (concat (map sc_fresh (cl_copies (collect_changes chs con c))))"
  using assms
proof (induction chs con c arbitrary: seen rule: collect_changes.induct)
  case (1 con c)
  then show ?case by auto
next
  case (2 ch chs con c)
  obtain con1 c1 fresh where r: "collect_ops (ch_Ops ch) con c [] = (con1, c1, fresh)" by (metis prod_cases3)
  let ?c = "c1\<lparr>cl_copies := cl_copies c1 @
      [\<lparr>sc_ch = ch, sc_start = Counter (ch_ID ch), sc_end = change_end ch, sc_fresh = fresh\<rparr>],
    cl_units := (if fresh \<noteq> [] then cl_units c1 @ [length (cl_copies c1)] else cl_units c1)\<rparr>"
  have s: "list_all op_sound (ch_Ops ch)" and rest: "list_all (\<lambda>ch. list_all op_sound (ch_Ops ch)) chs"
    using "2.prems"(1) by simp_all
  have "collected_ok con c seen (concat (map sc_fresh (cl_copies c)) @ [])" using "2.prems"(2) by simp
  from collect_ops_ok [OF s this r]
  have 1: "collected_ok con1 c1 (seen @ ch_Ops ch) (concat (map sc_fresh (cl_copies c)) @ fresh)"
    and e: "cl_copies c1 = cl_copies c" by simp_all
  have fr: "concat (map sc_fresh (cl_copies ?c)) = concat (map sc_fresh (cl_copies c)) @ fresh" by (simp add: e)
  have "collected_ok con1 ?c (seen @ ch_Ops ch) (concat (map sc_fresh (cl_copies ?c)))"
    unfolding fr by (rule collected_ok_cong [OF 1]) simp
  from "2.IH" [OF r [symmetric] refl rest this] show ?case by (simp add: r)
qed


text \<open>"ab" at counters 0 and 1, and "abcd" at counters 0 to 3, of one peer.\<close>

definition text_op :: "i64 \<Rightarrow> gostring \<Rightarrow> Op" where
  "text_op c s = \<lparr>op_Container = [116], op_IsRoot = True, op_Kind = CText, op_VKind = VKStr, op_Pos = c, op_MapKey = [],
     op_Value = OVal (LStr s), op_MoveFrom = 0, op_Len = of_nat (length s), op_Peer = 1, op_Counter = c, op_Lamport = c\<rparr>"

definition text_change :: "i64 \<Rightarrow> gostring \<Rightarrow> Change" where
  "text_change c s = \<lparr>ch_ID = \<lparr>Peer = 1, Counter = c\<rparr>, ch_Lamport = c, ch_Timestamp = 0, ch_Deps = [], ch_CommitMsg = [],
     ch_Ops = [text_op c s]\<rparr>"

definition overlapping :: Updates where
  "overlapping = \<lparr>u_Changes = [text_change 0 [97, 98], text_change 0 [97, 98, 99, 100]], u_Blocks = None\<rparr>"


end
