(* ===== verification/TreeMerge.thy ===== *)
theory TreeMerge
  imports OpRanges "HOL-Library.List_Lexorder" "HOL-Library.Product_Lexorder" "HOL-Library.Multiset"
begin

text \<open>
  Merging a movable tree (\<open>buildTree\<close> of \<open>loro/merge.go\<close>): the moves are applied in
  \<open>(lamport, peer, counter)\<close> order, those that would close a cycle are skipped, and the tree is
  read off from the root. Node ids are strings, as in the code.
\<close>

section \<open>Applying the moves\<close>

definition treeWalkPerMove :: int where "treeWalkPerMove = 64"
definition treeWalkFloor :: int where "treeWalkFloor = 2 ^ 22"

record placement =
  pl_parent :: gostring
  pl_hasParent :: bool
  pl_fi :: gostring
  pl_lamport :: i64
  pl_peer :: u64

text \<open>
  The state of the loop. \<open>tm_ids\<close> lists the keys of the Go map \<open>current\<close>, whose iteration order
  Go leaves open; \<open>tm_steps\<close> counts the steps of all ancestor walks.
\<close>

record treeMerge =
  tm_current :: "gostring \<Rightarrow> placement option"
  tm_ids :: "gostring list"
  tm_childCount :: "gostring \<Rightarrow> int"
  tm_steps :: int

definition sortedOps :: "Op list \<Rightarrow> Op list" where
  "sortedOps ops = sort_key (\<lambda>op. (sint (op_Lamport op), op_Peer op, sint (op_Counter op))) ops"

text \<open>The walk up from \<open>at\<close>; the budget ends it.\<close>

function walk_up ::
  "(gostring \<Rightarrow> placement option) \<Rightarrow> int \<Rightarrow> gostring \<Rightarrow> gostring \<Rightarrow> int \<Rightarrow> (bool \<times> int) res" where
  "walk_up current budget node at steps =
     (if at = node then Inr (True, steps)
      else case current at of
        None \<Rightarrow> Inr (False, steps)
      | Some p \<Rightarrow>
          if \<not> pl_hasParent p then Inr (False, steps)
          else if steps + 1 > budget then Inl (Errorf ''tree ancestry checks exceeded'')
          else walk_up current budget node (pl_parent p) (steps + 1))"
  by pat_completeness auto
termination by (relation "measure (\<lambda>(_, budget, _, _, steps). nat (budget - steps))") auto

declare walk_up.simps [simp del]

definition wouldCycle :: "treeMerge \<Rightarrow> int \<Rightarrow> gostring \<Rightarrow> gostring \<Rightarrow> (bool \<times> int) res" where
  "wouldCycle t budget node parent =
     (if parent = node then Inr (True, tm_steps t)
      else if tm_childCount t node = 0 then Inr (False, tm_steps t)
      else walk_up (tm_current t) budget node parent (tm_steps t))"

definition place_node :: "treeMerge \<Rightarrow> Op \<Rightarrow> TreeNode \<Rightarrow> treeMerge" where
  "place_node t op n =
     (let count = tm_childCount t;
          count = (case tm_current t (tn_ID n) of
             Some prev \<Rightarrow> if pl_hasParent prev then count(pl_parent prev := count (pl_parent prev) - 1) else count
           | None \<Rightarrow> count);
          count = (if tn_HasParent n then count(tn_Parent n := count (tn_Parent n) + 1) else count)
      in t\<lparr>tm_childCount := count,
         tm_ids := (if tm_current t (tn_ID n) = None then tm_ids t @ [tn_ID n] else tm_ids t),
         tm_current := (tm_current t)(tn_ID n \<mapsto> \<lparr>pl_parent = tn_Parent n, pl_hasParent = tn_HasParent n,
           pl_fi = tn_FI n, pl_lamport = op_Lamport op, pl_peer = op_Peer op\<rparr>)\<rparr>)"

definition apply_move :: "int \<Rightarrow> Op \<Rightarrow> treeMerge \<Rightarrow> treeMerge res" where
  "apply_move budget op t =
     (case op_Value op of
        OTree n \<Rightarrow>
          if op_VKind op \<noteq> VKRawTreeMove then Inr t
          else if tn_HasParent n \<and> tn_Parent n \<noteq> deletedTreeRoot then
            bindR (wouldCycle t budget (tn_ID n) (tn_Parent n)) (\<lambda>(cyclic, steps).
              let t = t\<lparr>tm_steps := steps\<rparr> in
              if cyclic then Inr t else Inr (place_node t op n))
          else Inr (place_node t op n)
      | _ \<Rightarrow> Inr t)"

fun apply_moves :: "int \<Rightarrow> Op list \<Rightarrow> treeMerge \<Rightarrow> treeMerge res" where
  "apply_moves budget [] t = Inr t"
| "apply_moves budget (op # ops) t = bindR (apply_move budget op t) (apply_moves budget ops)"

definition empty_tree :: treeMerge where
  "empty_tree = \<lparr>tm_current = Map.empty, tm_ids = [], tm_childCount = (\<lambda>_. 0), tm_steps = 0\<rparr>"

section \<open>Reading the tree\<close>

text \<open>What \<open>childrenOf\<close> holds, and a node as \<open>toJSON\<close> shows it; \<open>meta\<close> fills in its data map.\<close>

definition tree_place :: "treeMerge \<Rightarrow> gostring \<Rightarrow> placement" where
  "tree_place t x = (case tm_current t x of Some p \<Rightarrow> p
     | None \<Rightarrow> \<lparr>pl_parent = [], pl_hasParent = False, pl_fi = [], pl_lamport = 0, pl_peer = 0\<rparr>)"

definition parent_key :: "treeMerge \<Rightarrow> gostring \<Rightarrow> gostring" where
  "parent_key t x = (let p = tree_place t x in if pl_hasParent p then pl_parent p else [])"

definition sibling_key :: "treeMerge \<Rightarrow> gostring \<Rightarrow> gostring \<times> int \<times> u64" where
  "sibling_key t x = (let p = tree_place t x in (pl_fi p, sint (pl_lamport p), pl_peer p))"

definition kids_of :: "treeMerge \<Rightarrow> gostring \<Rightarrow> gostring list" where
  "kids_of t p = sort_key (sibling_key t) (filter (\<lambda>x. parent_key t x = p) (tm_ids t))"

datatype 'm tree_json = TNode (tj_parent: "gostring option") (tj_index: nat) (tj_id: gostring)
  (tj_fi: gostring) (tj_meta: 'm) (tj_children: "'m tree_json list")

text \<open>The loop over the children of one node, \<open>i\<close> of which are out already; \<open>visited\<close> is shared.\<close>

function build_kids ::
  "treeMerge \<Rightarrow> (gostring \<Rightarrow> 'm) \<Rightarrow> gostring list \<Rightarrow> nat \<Rightarrow> gostring list \<Rightarrow> 'm tree_json list \<times> gostring list" where
  "build_kids t meta [] i visited = ([], visited)"
| "build_kids t meta (k # ks) i visited =
     (if k \<in> set visited then build_kids t meta ks i visited
      else
        case build_kids t meta (kids_of t k) 0 (k # visited) of (children, visited1) \<Rightarrow>
        case build_kids t meta ks (i + 1) visited1 of (rest, visited2) \<Rightarrow>
          let p = tree_place t k in
          (TNode (if pl_hasParent p then Some (pl_parent p) else None) i k (pl_fi p) (meta k) children # rest, visited2))"
  by pat_completeness auto
termination
proof -
  let ?R = "inv_image (finite_psubset <*lex*> less_than)
    (\<lambda>(t :: treeMerge, meta :: gostring \<Rightarrow> 'm, ks, i :: nat, visited). ((set (tm_ids t) \<union> set ks) - set visited, length ks))"
  have grows: "build_kids_dom (t, meta, ks, i, visited) \<Longrightarrow> set visited \<subseteq> set (snd (build_kids t meta ks i visited))"
    for t and meta :: "gostring \<Rightarrow> 'm" and ks i visited
    by (induction t meta ks i visited rule: build_kids.pinduct)
      (force simp: build_kids.psimps Let_def split: prod.splits)+
  have sub: "set (kids_of t k) \<subseteq> set (tm_ids t)" for t k
    by (auto simp: kids_of_def)
  show ?thesis
  proof (relation ?R)
    show "wf ?R" by auto
  next
    fix t and meta :: "gostring \<Rightarrow> 'm" and k :: gostring and ks and i :: nat and visited
    assume "k \<in> set visited"
    then show "((t, meta, ks, i, visited), (t, meta, k # ks, i, visited)) \<in> ?R"
      by (auto simp: finite_psubset_def)
  next
    fix t and meta :: "gostring \<Rightarrow> 'm" and k :: gostring and ks and i :: nat and visited
    assume "k \<notin> set visited"
    then show "((t, meta, kids_of t k, 0, k # visited), (t, meta, k # ks, i, visited)) \<in> ?R"
      using sub [of t k] by (auto simp: finite_psubset_def)
  next
    fix t and meta :: "gostring \<Rightarrow> 'm" and k :: gostring and ks and i :: nat and visited x y
    assume k: "k \<notin> set visited" and x: "(x, y) = build_kids t meta (kids_of t k) 0 (k # visited)"
      and dom: "build_kids_dom (t, meta, kids_of t k, 0, k # visited)"
    have "set (k # visited) \<subseteq> set y" using grows [OF dom] x by (metis snd_conv)
    with k show "((t, meta, ks, i + 1, y), (t, meta, k # ks, i, visited)) \<in> ?R"
      by (auto simp: finite_psubset_def)
  qed
qed

text \<open>\<open>buildTree\<close>, with the final state's nodes; the budget is for all walks together.\<close>

definition tree_budget :: "Op list \<Rightarrow> int" where
  "tree_budget ops = treeWalkFloor + treeWalkPerMove * int (length ops)"

definition merge_moves :: "Op list \<Rightarrow> treeMerge res" where
  "merge_moves ops = apply_moves (tree_budget ops) (sortedOps ops) empty_tree"

definition buildTree :: "Op list \<Rightarrow> (gostring \<Rightarrow> 'm) \<Rightarrow> 'm tree_json list res" where
  "buildTree ops meta = bindR (merge_moves ops) (\<lambda>t. Inr (fst (build_kids t meta (kids_of t []) 0 [])))"

section \<open>No cycles\<close>

text \<open>The edges from nodes to their parents.\<close>

definition edges :: "(gostring \<Rightarrow> placement option) \<Rightarrow> (gostring \<times> gostring) set" where
  "edges current = {(x, pl_parent p) | x p. current x = Some p \<and> pl_hasParent p}"

definition parents_of :: "treeMerge \<Rightarrow> gostring \<Rightarrow> gostring list" where
  "parents_of t x = filter (\<lambda>y. (y, x) \<in> edges (tm_current t)) (tm_ids t)"

definition tree_ok :: "treeMerge \<Rightarrow> bool" where
  "tree_ok t \<longleftrightarrow> distinct (tm_ids t) \<and> set (tm_ids t) = dom (tm_current t) \<and>
     (\<forall>x. tm_childCount t x = int (length (parents_of t x))) \<and>
     acyclic (edges (tm_current t)) \<and> deletedTreeRoot \<notin> dom (tm_current t) \<and> [] \<notin> dom (tm_current t) \<and>
     (\<forall>x p. tm_current t x = Some p \<and> pl_hasParent p \<longrightarrow> pl_parent p \<noteq> [])"

lemma edges_iff: "(x, y) \<in> edges current \<longleftrightarrow> (\<exists>p. current x = Some p \<and> pl_hasParent p \<and> pl_parent p = y)"
  by (auto simp: edges_def)

lemma edges_fun: "(x, y) \<in> edges current \<Longrightarrow> (x, z) \<in> edges current \<Longrightarrow> y = z"
  by (auto simp: edges_iff)

lemma walk_up_stop:
  assumes "at \<noteq> node" and "\<nexists>p. current at = Some p \<and> pl_hasParent p"
  shows "walk_up current budget node at steps = Inr (False, steps)"
  by (subst walk_up.simps) (use assms in \<open>auto split: option.splits\<close>)

lemma walk_up_next:
  assumes "at \<noteq> node" and "current at = Some p" and "pl_hasParent p"
  shows "walk_up current budget node at steps =
    (if steps + 1 > budget then Inl (Errorf ''tree ancestry checks exceeded'')
     else walk_up current budget node (pl_parent p) (steps + 1))"
  by (subst walk_up.simps) (simp only: assms if_False option.case if_True simp_thms)

lemma walk_up_same: "walk_up current budget node node steps = Inr (True, steps)"
  by (simp add: walk_up.simps)

text \<open>A walk that ends decides whether \<open>node\<close> is \<open>at\<close> or above it.\<close>

lemma walk_up_reaches:
  "walk_up current budget node at steps = Inr (b, steps') \<Longrightarrow> b \<longleftrightarrow> (at, node) \<in> (edges current)\<^sup>*"
proof (induction current budget node at steps rule: walk_up.induct)
  case (1 current budget node at steps)
  consider "at = node" | "at \<noteq> node" "\<nexists>p. current at = Some p \<and> pl_hasParent p"
    | p where "at \<noteq> node" "current at = Some p" "pl_hasParent p" by blast
  then show ?case
  proof cases
    case 1
    then show ?thesis using "1.prems" by (simp add: walk_up_same)
  next
    case 2
    have "(at, node) \<notin> (edges current)\<^sup>*"
    proof
      assume "(at, node) \<in> (edges current)\<^sup>*"
      with 2(1) obtain y where "(at, y) \<in> edges current" by (metis converse_rtranclE)
      with 2(2) show False by (auto simp: edges_iff)
    qed
    with "1.prems" show ?thesis using walk_up_stop [of at node current budget steps, OF 2] by simp
  next
    case 3
    then have "\<not> steps + 1 > budget" and w: "walk_up current budget node (pl_parent p) (steps + 1) = Inr (b, steps')"
      using "1.prems" using walk_up_next [of at node current p budget steps, OF 3] by (simp_all split: if_splits)
    then have "b \<longleftrightarrow> (pl_parent p, node) \<in> (edges current)\<^sup>*"
      using "1.IH" [OF 3(1,2)] 3(3) by blast
    moreover have e: "(at, pl_parent p) \<in> edges current" using 3 by (auto simp: edges_iff)
    have "(at, node) \<in> (edges current)\<^sup>* \<longleftrightarrow> (pl_parent p, node) \<in> (edges current)\<^sup>*"
    proof
      assume "(at, node) \<in> (edges current)\<^sup>*"
      with 3(1) obtain y where "(at, y) \<in> edges current" "(y, node) \<in> (edges current)\<^sup>*"
        by (metis converse_rtranclE)
      with edges_fun [OF e] show "(pl_parent p, node) \<in> (edges current)\<^sup>*" by simp
    qed (rule converse_rtrancl_into_rtrancl [OF e])
    ultimately show ?thesis by simp
  qed
qed

lemma no_children: "tree_ok t \<Longrightarrow> tm_childCount t x = 0 \<Longrightarrow> (y, x) \<notin> edges (tm_current t)"
  by (auto simp: tree_ok_def parents_of_def filter_empty_conv edges_iff)

lemma wouldCycle_sound:
  assumes "tree_ok t" and "wouldCycle t budget node parent = Inr (False, steps)"
  shows "(parent, node) \<notin> (edges (tm_current t))\<^sup>*"
proof
  assume r: "(parent, node) \<in> (edges (tm_current t))\<^sup>*"
  have ne: "parent \<noteq> node" using assms(2) by (auto simp: wouldCycle_def)
  show False
  proof (cases "tm_childCount t node = 0")
    case True
    from r ne obtain y where "(y, node) \<in> edges (tm_current t)" by (metis rtranclE)
    then show False using no_children [OF assms(1) True] by blast
  next
    case False
    then have "walk_up (tm_current t) budget node parent (tm_steps t) = Inr (False, steps)"
      using assms(2) ne by (simp add: wouldCycle_def)
    from walk_up_reaches [OF this] r show False by simp
  qed
qed

lemma edges_upd:
  "edges (current(n \<mapsto> p)) = {(x, y) \<in> edges current. x \<noteq> n} \<union> (if pl_hasParent p then {(n, pl_parent p)} else {})"
  by (auto simp: edges_def)

lemma place_acyclic:
  assumes "acyclic (edges current)" and "pl_hasParent p \<longrightarrow> (pl_parent p, n) \<notin> (edges current)\<^sup>*"
  shows "acyclic (edges (current(n \<mapsto> p)))"
proof -
  let ?E = "{(x, y) \<in> edges current. x \<noteq> n}"
  have sub: "?E \<subseteq> edges current" by auto
  then have "acyclic ?E" using assms(1) by (rule acyclic_subset [rotated])
  moreover have "(pl_parent p, n) \<notin> ?E\<^sup>*" if "pl_hasParent p"
    using assms(2) that rtrancl_mono [OF sub] by blast
  ultimately show ?thesis
    by (simp add: edges_upd acyclic_insert)
qed

lemma place_node_current:
  "tm_current (place_node t op n) = (tm_current t)(tn_ID n \<mapsto> \<lparr>pl_parent = tn_Parent n, pl_hasParent = tn_HasParent n,
     pl_fi = tn_FI n, pl_lamport = op_Lamport op, pl_peer = op_Peer op\<rparr>)"
  by (simp add: place_node_def Let_def)

lemma place_node_ids:
  "tm_ids (place_node t op n) = (if tm_current t (tn_ID n) = None then tm_ids t @ [tn_ID n] else tm_ids t)"
  by (simp add: place_node_def Let_def)

lemma count_remove:
  assumes "distinct xs" and "n \<in> set xs"
  shows "int (length (filter P xs)) = int (length (filter (\<lambda>x. x \<noteq> n \<and> P x) xs)) + (if P n then 1 else 0)"
proof -
  from assms obtain ys zs where xs: "xs = ys @ n # zs" "n \<notin> set ys" "n \<notin> set zs"
    by (metis distinct.simps(2) distinct_append not_distinct_conv_prefix split_list)
  have "filter (\<lambda>x. x \<noteq> n \<and> P x) ys = filter P ys" "filter (\<lambda>x. x \<noteq> n \<and> P x) zs = filter P zs"
    using xs(2,3) by (auto intro!: filter_cong)
  then show ?thesis by (simp add: xs(1))
qed

text \<open>A tree op as decoded: ids are not empty, and no op moves the deleted root.\<close>

definition node_ok :: "TreeNode \<Rightarrow> bool" where
  "node_ok n \<longleftrightarrow> tn_ID n \<noteq> [] \<and> tn_ID n \<noteq> deletedTreeRoot \<and> (tn_HasParent n \<longrightarrow> tn_Parent n \<noteq> [])"

definition move_ok :: "Op \<Rightarrow> bool" where
  "move_ok op \<longleftrightarrow> (case op_Value op of OTree n \<Rightarrow> op_VKind op = VKRawTreeMove \<longrightarrow> node_ok n | _ \<Rightarrow> True)"

lemma place_node_count:
  assumes ok: "tree_ok t"
  shows "tm_childCount (place_node t op n) x = int (length (parents_of (place_node t op n) x))"
proof -
  let ?t = "place_node t op n" and ?n = "tn_ID n"
  let ?P = "\<lambda>y. (y, x) \<in> edges (tm_current t)" and ?Q = "\<lambda>y. (y, x) \<in> edges (tm_current ?t)"
  have ids: "distinct (tm_ids t)" "set (tm_ids t) = dom (tm_current t)"
    and cnt: "tm_childCount t x = int (length (filter ?P (tm_ids t)))"
    using ok by (simp_all add: tree_ok_def parents_of_def)
  have PQ: "?Q y \<longleftrightarrow> ?P y" if "y \<noteq> ?n" for y using that by (simp add: edges_iff place_node_current)
  have Qn: "?Q ?n \<longleftrightarrow> tn_HasParent n \<and> tn_Parent n = x" by (simp add: edges_iff place_node_current)
  have out: "filter (\<lambda>y. y \<noteq> ?n \<and> ?Q y) ys = filter (\<lambda>y. y \<noteq> ?n \<and> ?P y) ys" for ys
    using PQ by (intro filter_cong) auto
  define rest where "rest = int (length (filter (\<lambda>y. y \<noteq> ?n \<and> ?P y) (tm_ids t)))"
  have old: "tm_childCount t x = rest + (if ?P ?n then 1 else 0)"
  proof (cases "?n \<in> set (tm_ids t)")
    case True
    then show ?thesis unfolding cnt rest_def by (rule count_remove [OF ids(1)])
  next
    case False
    then have "\<not> ?P ?n" using ids(2) by (auto simp: edges_iff)
    moreover have "filter ?P (tm_ids t) = filter (\<lambda>y. y \<noteq> ?n \<and> ?P y) (tm_ids t)"
      using False by (intro filter_cong) auto
    ultimately show ?thesis unfolding cnt rest_def by simp
  qed
  have new: "int (length (parents_of ?t x)) = rest + (if ?Q ?n then 1 else 0)"
  proof (cases "tm_current t ?n")
    case None
    then have nin: "?n \<notin> set (tm_ids t)" using ids(2) by auto
    have "int (length (filter ?Q (tm_ids t @ [?n]))) =
        int (length (filter (\<lambda>y. y \<noteq> ?n \<and> ?Q y) (tm_ids t @ [?n]))) + (if ?Q ?n then 1 else 0)"
      by (rule count_remove) (use ids(1) nin in simp_all)
    then show ?thesis using None by (simp add: parents_of_def place_node_ids out rest_def)
  next
    case (Some p)
    then have "?n \<in> set (tm_ids t)" using ids(2) by auto
    from count_remove [OF ids(1) this, of ?Q] Some show ?thesis
      by (simp add: parents_of_def place_node_ids out rest_def)
  qed
  have "tm_childCount ?t x = tm_childCount t x - (if ?P ?n then 1 else 0) + (if ?Q ?n then 1 else 0)"
    unfolding Qn edges_iff [of ?n x "tm_current t"]
    by (cases "tm_current t ?n") (auto simp: place_node_def Let_def)
  with old new show ?thesis by simp
qed

lemma place_node_ok:
  assumes "tree_ok t" and "node_ok n"
    and "tn_HasParent n \<longrightarrow> (tn_Parent n, tn_ID n) \<notin> (edges (tm_current t))\<^sup>*"
  shows "tree_ok (place_node t op n)"
proof -
  have "acyclic (edges (tm_current (place_node t op n)))"
    unfolding place_node_current by (rule place_acyclic) (use assms(1,3) in \<open>simp_all add: tree_ok_def\<close>)
  moreover have "distinct (tm_ids (place_node t op n)) \<and> set (tm_ids (place_node t op n)) = dom (tm_current (place_node t op n))"
    using assms(1) by (auto simp: place_node_ids place_node_current tree_ok_def)
  moreover have "deletedTreeRoot \<notin> dom (tm_current (place_node t op n))" "[] \<notin> dom (tm_current (place_node t op n))"
    "\<forall>x p. tm_current (place_node t op n) x = Some p \<and> pl_hasParent p \<longrightarrow> pl_parent p \<noteq> []"
    using assms(1,2) by (auto simp: tree_ok_def place_node_current node_ok_def)
  ultimately show ?thesis
    using place_node_count [OF assms(1)] by (simp add: tree_ok_def)
qed

lemma deleted_no_edge: "tree_ok t \<Longrightarrow> (deletedTreeRoot, x) \<in> (edges (tm_current t))\<^sup>* \<Longrightarrow> x = deletedTreeRoot"
  by (metis converse_rtranclE domI edges_iff tree_ok_def)

lemma tree_ok_steps: "tree_ok (t\<lparr>tm_steps := s\<rparr>) = tree_ok t"
  by (simp add: tree_ok_def parents_of_def)

lemma apply_move_ok:
  assumes "tree_ok t" and "move_ok op" and "apply_move budget op t = Inr t'"
  shows "tree_ok t'"
proof (cases "op_Value op")
  case (OTree n)
  show ?thesis
  proof (cases "op_VKind op = VKRawTreeMove")
    case False
    then show ?thesis using assms OTree by (simp add: apply_move_def)
  next
    case vk: True
    then have n: "node_ok n" using assms(2) OTree by (simp add: move_ok_def)
    show ?thesis
    proof (cases "tn_HasParent n \<and> tn_Parent n \<noteq> deletedTreeRoot")
      case False
      have "tn_HasParent n \<longrightarrow> (tn_Parent n, tn_ID n) \<notin> (edges (tm_current t))\<^sup>*"
        using False n deleted_no_edge [OF assms(1)] by (auto simp: node_ok_def)
      from place_node_ok [OF assms(1) n this] show ?thesis
        using assms(3) OTree vk False by (auto simp: apply_move_def)
    next
      case True
      then obtain cyc steps where w: "wouldCycle t budget (tn_ID n) (tn_Parent n) = Inr (cyc, steps)"
        and t': "t' = (if cyc then t\<lparr>tm_steps := steps\<rparr> else place_node (t\<lparr>tm_steps := steps\<rparr>) op n)"
        using assms(3) OTree vk by (auto simp: apply_move_def Let_def bindR_Inr_iff split: if_splits)
      show ?thesis
      proof (cases cyc)
        case True
        then show ?thesis using t' assms(1) by (simp add: tree_ok_steps)
      next
        case False
        then have "(tn_Parent n, tn_ID n) \<notin> (edges (tm_current t))\<^sup>*"
          using wouldCycle_sound [OF assms(1)] w by simp
        then show ?thesis
          unfolding t' using False assms(1) n
          by (simp add: tree_ok_steps place_node_ok)
      qed
    qed
  qed
qed (use assms(1,3) in \<open>auto simp: apply_move_def\<close>)

lemma empty_tree_ok: "tree_ok empty_tree"
  by (simp add: tree_ok_def empty_tree_def parents_of_def edges_def acyclic_def)

lemma apply_moves_ok:
  "list_all move_ok ops \<Longrightarrow> tree_ok t \<Longrightarrow> apply_moves budget ops t = Inr t' \<Longrightarrow> tree_ok t'"
  by (induction budget ops t rule: apply_moves.induct) (auto simp: bindR_Inr_iff intro: apply_move_ok)

lemma merge_moves_ok: "list_all move_ok ops \<Longrightarrow> merge_moves ops = Inr t \<Longrightarrow> tree_ok t"
  unfolding merge_moves_def
  by (rule apply_moves_ok [OF _ empty_tree_ok]) (simp_all add: sortedOps_def list_all_iff)

section \<open>What is shown\<close>

fun json_ids :: "'m tree_json \<Rightarrow> gostring list" where
  "json_ids (TNode p i x fi m cs) = x # concat (map json_ids cs)"

text \<open>A shown node is what its placement says, and has exactly its children, in order, numbered.\<close>

fun shows_node :: "treeMerge \<Rightarrow> (gostring \<Rightarrow> 'm) \<Rightarrow> 'm tree_json \<Rightarrow> bool" where
  "shows_node t meta (TNode p i x fi m cs) \<longleftrightarrow>
     tm_current t x \<noteq> None \<and> p = (if pl_hasParent (tree_place t x) then Some (pl_parent (tree_place t x)) else None) \<and>
     fi = pl_fi (tree_place t x) \<and> m = meta x \<and>
     map tj_id cs = kids_of t x \<and> map tj_index cs = [0..<length cs] \<and> (\<forall>c\<in>set cs. shows_node t meta c)"

definition below :: "treeMerge \<Rightarrow> gostring \<Rightarrow> gostring set" where
  "below t x = {y. (y, x) \<in> (edges (tm_current t))\<^sup>*}"

lemma kids_of_set: "set (kids_of t p) = {x \<in> set (tm_ids t). parent_key t x = p}"
  by (auto simp: kids_of_def)

lemma kids_edges: "tree_ok t \<Longrightarrow> p \<noteq> [] \<Longrightarrow> x \<in> set (kids_of t p) \<longleftrightarrow> (x, p) \<in> edges (tm_current t)"
  by (auto simp: kids_of_set tree_ok_def parent_key_def tree_place_def edges_iff Let_def split: option.splits if_splits)

lemma kids_distinct: "tree_ok t \<Longrightarrow> distinct (kids_of t p)"
  by (simp add: kids_of_def tree_ok_def)

lemma kids_known: "tree_ok t \<Longrightarrow> x \<in> set (kids_of t p) \<Longrightarrow> tm_current t x \<noteq> None \<and> x \<noteq> []"
  by (auto simp: kids_of_set tree_ok_def)

lemma below_kids: "tree_ok t \<Longrightarrow> k \<noteq> [] \<Longrightarrow> below t k = insert k (\<Union>c\<in>set (kids_of t k). below t c)"
proof (intro equalityI subsetI)
  fix y
  assume t: "tree_ok t" "k \<noteq> []" and "y \<in> below t k"
  then have "(y, k) \<in> (edges (tm_current t))\<^sup>*" by (simp add: below_def)
  then show "y \<in> insert k (\<Union>c\<in>set (kids_of t k). below t c)"
    by (cases rule: rtranclE) (auto simp: below_def kids_edges [OF t])
next
  fix y
  assume t: "tree_ok t" "k \<noteq> []" and "y \<in> insert k (\<Union>c\<in>set (kids_of t k). below t c)"
  then show "y \<in> below t k"
    by (auto simp: below_def kids_edges [OF t] intro: rtrancl_into_rtrancl)
qed

lemma kid_not_below: "tree_ok t \<Longrightarrow> k \<noteq> [] \<Longrightarrow> c \<in> set (kids_of t k) \<Longrightarrow> k \<notin> below t c"
proof
  assume t: "tree_ok t" "k \<noteq> []" and "c \<in> set (kids_of t k)" and "k \<in> below t c"
  then have "(c, k) \<in> edges (tm_current t)" "(k, c) \<in> (edges (tm_current t))\<^sup>*"
    by (simp_all add: below_def kids_edges)
  then have "(k, k) \<in> (edges (tm_current t))\<^sup>+" by (rule rtrancl_into_trancl1 [rotated])
  with t(1) show False by (simp add: tree_ok_def acyclic_def)
qed

lemma no_root_edge: "tree_ok t \<Longrightarrow> x \<in> set (kids_of t []) \<Longrightarrow> (x, y) \<notin> edges (tm_current t)"
  by (auto simp: kids_of_set tree_ok_def parent_key_def tree_place_def edges_iff Let_def split: option.splits if_splits)

lemma siblings_disjoint:
  assumes t: "tree_ok t" and a: "a \<in> set (kids_of t p)" and b: "b \<in> set (kids_of t p)" and ne: "a \<noteq> b"
  shows "below t a \<inter> below t b = {}"
proof (rule ccontr)
  let ?E = "edges (tm_current t)"
  assume "below t a \<inter> below t b \<noteq> {}"
  then obtain y where "(y, a) \<in> ?E\<^sup>*" "(y, b) \<in> ?E\<^sup>*" by (auto simp: below_def)
  moreover have "single_valued ?E" by (auto intro: single_valuedI edges_fun)
  ultimately have "(a, b) \<in> ?E\<^sup>* \<or> (b, a) \<in> ?E\<^sup>*" by (simp add: single_valued_confluent)
  then obtain c d where cd: "c \<in> set (kids_of t p)" "d \<in> set (kids_of t p)" "c \<noteq> d" "(c, d) \<in> ?E\<^sup>*"
    using a b ne by blast
  from cd(3,4) obtain e where e: "(c, e) \<in> ?E" "(e, d) \<in> ?E\<^sup>*" by (metis converse_rtranclE)
  show False
  proof (cases "p = []")
    case True
    with e(1) cd(1) no_root_edge [OF t] show False by blast
  next
    case False
    then have "(c, p) \<in> ?E" "(d, p) \<in> ?E" using cd t by (simp_all add: kids_edges)
    with e have "(p, p) \<in> ?E\<^sup>+" by (metis edges_fun rtrancl_into_trancl1)
    with t show False by (simp add: tree_ok_def acyclic_def)
  qed
qed

lemma build_kids_shows:
  "tree_ok t \<Longrightarrow> set ks \<subseteq> set (kids_of t p) \<Longrightarrow> distinct ks \<Longrightarrow> (\<Union>k\<in>set ks. below t k) \<inter> set visited = {} \<Longrightarrow>
    build_kids t meta ks i visited = (js, visited') \<Longrightarrow>
    map tj_id js = ks \<and> map tj_index js = [i..<i + length ks] \<and> (\<forall>j\<in>set js. shows_node t meta j) \<and>
    distinct (concat (map json_ids js)) \<and> set (concat (map json_ids js)) = (\<Union>k\<in>set ks. below t k) \<and>
    set visited' = set visited \<union> (\<Union>k\<in>set ks. below t k)"
proof (induction t meta ks i visited arbitrary: p js visited' rule: build_kids.induct)
  case (1 t meta i visited)
  then show ?case by simp
next
  case (2 t meta k ks i visited)
  note assms = "2.prems"(1) and prems = "2.prems"(2-5)
  let ?B = "\<lambda>xs. \<Union>k\<in>set xs. below t k"
  have k: "k \<in> set (kids_of t p)" "k \<notin> set visited" "k \<notin> set ks"
    using prems by (auto simp: below_def)
  have kn: "tm_current t k \<noteq> None" "k \<noteq> []" using kids_known [OF assms k(1)] by simp_all
  obtain cs v1 where c: "build_kids t meta (kids_of t k) 0 (k # visited) = (cs, v1)" by fastforce
  obtain rest v2 where r: "build_kids t meta ks (i + 1) v1 = (rest, v2)" by fastforce
  let ?p = "if pl_hasParent (tree_place t k) then Some (pl_parent (tree_place t k)) else None"
  have js: "js = TNode ?p i k (pl_fi (tree_place t k)) (meta k) cs # rest" "visited' = v2"
    using prems(4) k(2) c r by (simp_all add: Let_def)
  have bk: "below t k = insert k (?B (kids_of t k))" by (rule below_kids [OF assms kn(2)])
  have free: "?B (kids_of t k) \<inter> set (k # visited) = {}"
    using prems(3) bk kid_not_below [OF assms kn(2)] by auto
  note I1 = "2.IH"(2) [OF k(2) assms subset_refl [where A = "set (kids_of t k)"] kids_distinct [OF assms] free c]
  have v1: "set v1 = set visited \<union> below t k" using I1 bk by auto
  have free2: "?B ks \<inter> set v1 = {}"
  proof -
    have "below t k \<inter> below t x = {}" if "x \<in> set ks" for x
      by (rule siblings_disjoint [OF assms k(1)]) (use that prems(1) k(3) in auto)
    then show ?thesis using prems(3) v1 by auto
  qed
  have ks: "set ks \<subseteq> set (kids_of t p)" "distinct ks" using prems(1,2) by simp_all
  note I2 = "2.IH"(3) [OF k(2) c [symmetric] assms ks free2 r]
  have "shows_node t meta (TNode ?p i k (pl_fi (tree_place t k)) (meta k) cs)"
  proof -
    have "length cs = length (kids_of t k)" using I1 by (metis length_map)
    then show ?thesis using I1 kn(1) by simp
  qed
  moreover have "distinct (concat (map json_ids js))"
  proof -
    have "set (concat (map json_ids cs)) = ?B (kids_of t k)" using I1 by blast
    moreover have "set (concat (map json_ids rest)) = ?B ks" using I2 by blast
    ultimately show ?thesis
      using I1 I2 free free2 v1 bk unfolding js by simp blast
  qed
  moreover have "set (concat (map json_ids js)) = ?B (k # ks)"
    using I1 I2 bk unfolding js by auto
  moreover have "map tj_index js = [i..<i + length (k # ks)]"
    using I2 unfolding js by (simp add: upt_rec)
  moreover have "set visited' = set visited \<union> ?B (k # ks)" using I2 v1 js by auto
  moreover have "map tj_id js = k # ks" using I2 js by simp
  ultimately show ?case using I2 js(1) by (simp only: set_simps ball_simps) simp
qed

text \<open>The nodes alive: those from which a top-level node is reached.\<close>

definition alive_nodes :: "treeMerge \<Rightarrow> gostring set" where
  "alive_nodes t = {x. \<exists>r p. (x, r) \<in> (edges (tm_current t))\<^sup>* \<and> tm_current t r = Some p \<and> \<not> pl_hasParent p}"

lemma root_kids: "tree_ok t \<Longrightarrow> r \<in> set (kids_of t []) \<longleftrightarrow> (\<exists>p. tm_current t r = Some p \<and> \<not> pl_hasParent p)"
  by (auto simp: kids_of_set tree_ok_def parent_key_def tree_place_def Let_def split: option.splits if_splits)

text \<open>C16: Merging a tree never makes a cycle, and shows every node that is alive exactly once:
  whatever moves concurrent peers made, the placements that \<open>buildTree\<close> ends with are acyclic;
  the nodes shown are those from which the top level is reached, each at one place, with its
  own placement and with exactly its children below it, in sibling order and numbered.\<close>

theorem tree_merge_acyclic:
  fixes meta :: "gostring \<Rightarrow> 'm"
  assumes "list_all move_ok ops" and "buildTree ops meta = Inr js"
  shows "\<exists>t. merge_moves ops = Inr t \<and> acyclic (edges (tm_current t)) \<and>
    map tj_id js = kids_of t [] \<and> (\<forall>j\<in>set js. shows_node t meta j) \<and>
    distinct (concat (map json_ids js)) \<and> set (concat (map json_ids js)) = alive_nodes t"
proof -
  obtain t where t: "merge_moves ops = Inr t" "js = fst (build_kids t meta (kids_of t []) 0 [])"
    using assms(2) by (auto simp: buildTree_def bindR_Inr_iff)
  have ok: "tree_ok t" by (rule merge_moves_ok [OF assms(1) t(1)])
  obtain v where "build_kids t meta (kids_of t []) 0 [] = (js, v)" using t(2) by (metis prod.collapse)
  from build_kids_shows [OF ok subset_refl kids_distinct [OF ok] _ this]
  have "map tj_id js = kids_of t []" "\<forall>j\<in>set js. shows_node t meta j" "distinct (concat (map json_ids js))"
    "set (concat (map json_ids js)) = (\<Union>k\<in>set (kids_of t []). below t k)" by simp_all
  moreover have "(\<Union>k\<in>set (kids_of t []). below t k) = alive_nodes t"
    unfolding alive_nodes_def below_def using root_kids [OF ok] by fastforce
  moreover have "acyclic (edges (tm_current t))" using ok by (simp add: tree_ok_def)
  ultimately show ?thesis using t(1) by metis
qed

text \<open>Two peers cross: node 65 is moved under 66 while 66 is moved under 65.\<close>

definition tree_op :: "i64 \<Rightarrow> u64 \<Rightarrow> gostring \<Rightarrow> gostring option \<Rightarrow> Op" where
  "tree_op l p x parent = \<lparr>op_Container = [116], op_IsRoot = True, op_Kind = CTree, op_VKind = VKRawTreeMove, op_Pos = 0,
     op_MapKey = [], op_Value = OTree \<lparr>tn_ID = x, tn_HasParent = parent \<noteq> None,
       tn_Parent = (case parent of None \<Rightarrow> [] | Some q \<Rightarrow> q), tn_FI = [56, 48]\<rparr>,
     op_MoveFrom = 0, op_Len = 1, op_Peer = p, op_Counter = l, op_Lamport = l\<rparr>"

definition crossing :: "Op list" where
  "crossing = [tree_op 2 7 [65] (Some [66]), tree_op 0 7 [65] None, tree_op 1 7 [66] None, tree_op 2 9 [66] (Some [65])]"

lemma crossing_shows: "map_sum (\<lambda>_. ()) (map json_ids) (buildTree crossing (\<lambda>_. ())) = Inr [[[66], [65]]]"
  by code_simp

lemma tree_merge_acyclic_witness:
  "\<exists>t js. merge_moves crossing = Inr t \<and> buildTree crossing (\<lambda>_. ()) = Inr js \<and> acyclic (edges (tm_current t)) \<and>
    map json_ids js = [[[66], [65]]] \<and> distinct (concat (map json_ids js))"
proof -
  have "list_all move_ok crossing" by code_simp
  moreover obtain js where "buildTree crossing (\<lambda>_. ()) = Inr js" "map json_ids js = [[[66], [65]]]"
    using crossing_shows by (auto simp: map_sum_def split: sum.splits)
  note js = this
  ultimately obtain t where "merge_moves crossing = Inr t" "acyclic (edges (tm_current t))" "distinct (concat (map json_ids js))"
    using tree_merge_acyclic [of crossing "\<lambda>_. ()" js] by blast
  with js show ?thesis by (intro exI conjI)
qed

text \<open>
  The hypothesis on the ops is needed: an op can name the deleted root as the node it moves, which
  no check refuses. Once it lies under a node, deleting that node closes a cycle unchecked.
\<close>

definition moved_root :: "Op list" where
  "moved_root = [tree_op 0 7 [65] None, tree_op 1 7 deletedTreeRoot (Some [65]), tree_op 2 7 [65] (Some deletedTreeRoot)]"

lemma moved_root_state:
  "map_sum (\<lambda>_. ()) (\<lambda>t. (map_option (\<lambda>p. (pl_hasParent p, pl_parent p)) (tm_current t [65]),
      map_option (\<lambda>p. (pl_hasParent p, pl_parent p)) (tm_current t deletedTreeRoot))) (merge_moves moved_root) =
    Inr (Some (True, deletedTreeRoot), Some (True, [65]))"
  by code_simp

lemma moved_root_cycle: "\<exists>t. merge_moves moved_root = Inr t \<and> \<not> acyclic (edges (tm_current t))"
proof -
  obtain t where t: "merge_moves moved_root = Inr t"
    and p: "map_option (\<lambda>p. (pl_hasParent p, pl_parent p)) (tm_current t [65]) = Some (True, deletedTreeRoot)"
      "map_option (\<lambda>p. (pl_hasParent p, pl_parent p)) (tm_current t deletedTreeRoot) = Some (True, [65])"
    using moved_root_state by (auto simp: map_sum_def split: sum.splits)
  then have "([65], deletedTreeRoot) \<in> edges (tm_current t)" "(deletedTreeRoot, [65]) \<in> edges (tm_current t)"
    by (auto simp: edges_iff)
  then have "([65], [65]) \<in> (edges (tm_current t))\<^sup>+" by (meson r_into_trancl trancl_into_trancl)
  with t show ?thesis by (auto simp: acyclic_def)
qed

section \<open>Order of arrival\<close>

lemma sort_key_unique:
  assumes "mset xs = mset ys" and "inj_on f (set xs)" and "distinct xs"
  shows "sort_key f xs = sort_key f (ys :: 'a list)"
proof -
  have d: "distinct ys" using assms(1,3) by (metis mset_eq_imp_distinct_iff)
  have s: "set xs = set ys" using assms(1) by (rule mset_eq_setD)
  have "map f (sort_key f xs) = map f (sort_key f ys)"
  proof (rule sorted_distinct_set_unique)
    show "distinct (map f (sort_key f xs))" "distinct (map f (sort_key f ys))"
      using assms d s by (simp_all add: distinct_map)
  qed (simp_all add: s)
  then show ?thesis
    by (rule map_inj_on) (use assms(2) s in simp)
qed

text \<open>The nodes keep apart by the \<open>(lamport, peer)\<close> of the move that placed them.\<close>

definition op_stamp :: "Op \<Rightarrow> i64 \<times> u64" where
  "op_stamp op = (op_Lamport op, op_Peer op)"

definition stamps_ok :: "(i64 \<times> u64) set \<Rightarrow> treeMerge \<Rightarrow> bool" where
  "stamps_ok S t \<longleftrightarrow> inj_on (\<lambda>x. (pl_lamport (tree_place t x), pl_peer (tree_place t x))) (dom (tm_current t)) \<and>
     (\<forall>x\<in>dom (tm_current t). (pl_lamport (tree_place t x), pl_peer (tree_place t x)) \<in> S)"

lemma place_node_stamps:
  assumes "stamps_ok S t" and "op_stamp op \<notin> S"
  shows "stamps_ok (insert (op_stamp op) S) (place_node t op n)"
proof -
  define g where "g t x = (pl_lamport (tree_place t x), pl_peer (tree_place t x))" for t x
  let ?t = "place_node t op n" and ?D = "dom (tm_current t)"
  have old: "inj_on (g t) ?D" "g t ` ?D \<subseteq> S"
    using assms(1) by (auto simp: stamps_ok_def g_def [abs_def])
  have new: "g ?t (tn_ID n) = op_stamp op" by (simp add: g_def tree_place_def place_node_current op_stamp_def)
  have same: "g ?t x = g t x" if "x \<noteq> tn_ID n" for x
    using that by (simp add: g_def tree_place_def place_node_current)
  have D: "dom (tm_current ?t) = insert (tn_ID n) (?D - {tn_ID n})" by (auto simp: place_node_current)
  have im: "g ?t ` (?D - {tn_ID n}) \<subseteq> S" using old(2) same by auto
  have "inj_on (g ?t) (?D - {tn_ID n})"
    using old(1) same by (auto simp: inj_on_def)
  moreover have "g ?t (tn_ID n) \<notin> g ?t ` (?D - {tn_ID n})" using im assms(2) new by auto
  ultimately have "inj_on (g ?t) (dom (tm_current ?t))" unfolding D inj_on_insert by blast
  moreover have "g ?t ` dom (tm_current ?t) \<subseteq> insert (op_stamp op) S" unfolding D using im new by blast
  ultimately show ?thesis by (auto simp: stamps_ok_def g_def [abs_def])
qed

lemma apply_move_stamps:
  assumes "stamps_ok S t" and "op_stamp op \<notin> S" and "apply_move budget op t = Inr t'"
  shows "stamps_ok (insert (op_stamp op) S) t'"
proof -
  have keep: "stamps_ok (insert (op_stamp op) S) (t\<lparr>tm_steps := s\<rparr>)" for s
    using assms(1) by (auto simp: stamps_ok_def tree_place_def)
  have self: "t\<lparr>tm_steps := tm_steps t\<rparr> = t" by simp
  have "stamps_ok S (t\<lparr>tm_steps := s\<rparr>)" for s using assms(1) by (auto simp: stamps_ok_def tree_place_def)
  then have place: "stamps_ok (insert (op_stamp op) S) (place_node (t\<lparr>tm_steps := s\<rparr>) op n)" for s n
    using assms(2) by (rule place_node_stamps)
  show ?thesis
    using assms(3) keep place keep [of "tm_steps t", unfolded self] place [of "tm_steps t", unfolded self]
    by (auto simp: apply_move_def Let_def bindR_Inr_iff split: opval.splits if_splits)
qed

lemma apply_moves_stamps:
  "stamps_ok S t \<Longrightarrow> distinct (map op_stamp ops) \<Longrightarrow> op_stamp ` set ops \<inter> S = {} \<Longrightarrow> apply_moves budget ops t = Inr t' \<Longrightarrow>
    \<exists>S'. stamps_ok S' t'"
proof (induction budget ops t arbitrary: S rule: apply_moves.induct)
  case (1 budget t)
  then show ?case by auto
next
  case (2 budget op ops t)
  then obtain t1 where t1: "apply_move budget op t = Inr t1" "apply_moves budget ops t1 = Inr t'"
    by (auto simp: bindR_Inr_iff)
  have "stamps_ok (insert (op_stamp op) S) t1" using apply_move_stamps [OF "2.prems"(1) _ t1(1)] "2.prems"(3) by simp
  moreover have "op_stamp ` set ops \<inter> insert (op_stamp op) S = {}" using "2.prems"(2,3) by auto
  ultimately show ?case using "2.IH" [OF t1(1)] "2.prems"(2) t1(2) by simp
qed

lemma merge_moves_stamps:
  assumes "distinct (map (\<lambda>op. (op_Lamport op, op_Peer op)) ops)" and "merge_moves ops = Inr t"
  shows "\<exists>S. stamps_ok S t"
proof (rule apply_moves_stamps)
  show "stamps_ok {} empty_tree" by (simp add: stamps_ok_def empty_tree_def)
  have "mset (map op_stamp (sortedOps ops)) = mset (map op_stamp ops)" by (simp add: sortedOps_def)
  moreover have "distinct (map op_stamp ops)" using assms(1) by (simp add: op_stamp_def [abs_def])
  ultimately show "distinct (map op_stamp (sortedOps ops))" by (metis mset_eq_imp_distinct_iff)
  show "apply_moves (tree_budget ops) (sortedOps ops) empty_tree = Inr t"
    using assms(2) by (simp add: merge_moves_def)
qed simp

lemma siblings_any_order:
  assumes "\<exists>S. stamps_ok S t" and "distinct (tm_ids t)" and "set (tm_ids t) = dom (tm_current t)"
    and "mset xs = mset (tm_ids t)"
  shows "sort_key (sibling_key t) (filter (\<lambda>x. parent_key t x = p) xs) = kids_of t p"
  unfolding kids_of_def
proof (rule sort_key_unique)
  have inj: "inj_on (sibling_key t) (dom (tm_current t))"
    using assms(1) by (auto simp: stamps_ok_def inj_on_def sibling_key_def Let_def sint_eq)
  show "mset (filter (\<lambda>x. parent_key t x = p) xs) = mset (filter (\<lambda>x. parent_key t x = p) (tm_ids t))"
    using assms(4) by simp
  have "set xs = dom (tm_current t)" using assms(3) mset_eq_setD [OF assms(4)] by simp
  then show "inj_on (sibling_key t) (set (filter (\<lambda>x. parent_key t x = p) xs))"
    by (intro inj_on_subset [OF inj]) auto
  show "distinct (filter (\<lambda>x. parent_key t x = p) xs)"
    using assms(2,4) by (metis distinct_filter mset_eq_imp_distinct_iff)
qed

text \<open>C17: The merged tree does not depend on the order in which the ops arrived, nor on the order
  in which Go iterates its map of nodes: any two histories with the same tree ops, no two of
  one lamport and peer, give the same tree, and any enumeration of the nodes gives the same
  siblings in the same order.\<close>

theorem tree_merge_converges:
  fixes meta :: "gostring \<Rightarrow> 'm"
  assumes "mset ops = mset ops'" and "distinct (map (\<lambda>op. (op_Lamport op, op_Peer op)) ops)"
  shows "buildTree ops meta = buildTree ops' meta \<and>
    (\<forall>t xs p. merge_moves ops = Inr t \<and> distinct (tm_ids t) \<and> set (tm_ids t) = dom (tm_current t) \<and> mset xs = mset (tm_ids t) \<longrightarrow>
      sort_key (sibling_key t) (filter (\<lambda>x. parent_key t x = p) xs) = kids_of t p)"
proof -
  let ?k = "\<lambda>op. (sint (op_Lamport op), op_Peer op, sint (op_Counter op))"
  have d: "distinct ops" and st: "inj_on op_stamp (set ops)"
    using assms(2) by (auto simp: distinct_map op_stamp_def [abs_def])
  have "inj_on ?k (set ops)"
    using st by (auto simp: inj_on_def op_stamp_def sint_eq)
  then have so: "sortedOps ops = sortedOps ops'"
    unfolding sortedOps_def by (rule sort_key_unique [OF assms(1) _ d])
  have len: "length ops = length ops'" using assms(1) by (rule mset_eq_length)
  then have "buildTree ops meta = buildTree ops' meta"
    by (simp add: buildTree_def merge_moves_def so tree_budget_def)
  moreover have "sort_key (sibling_key t) (filter (\<lambda>x. parent_key t x = p) xs) = kids_of t p"
    if t: "merge_moves ops = Inr t" "distinct (tm_ids t)" "set (tm_ids t) = dom (tm_current t)" "mset xs = mset (tm_ids t)"
    for t xs p
    by (rule siblings_any_order [OF merge_moves_stamps [OF assms(2) t(1)] t(2-4)])
  ultimately show ?thesis by blast
qed

lemma tree_merge_converges_witness:
  "buildTree crossing (\<lambda>_. ()) = buildTree (rev crossing) (\<lambda>_. ())"
proof -
  have "distinct (map (\<lambda>op. (op_Lamport op, op_Peer op)) crossing)" by code_simp
  from tree_merge_converges [OF _ this, of "rev crossing" "\<lambda>_. ()"] show ?thesis by simp
qed

end
