(* ===== verification/FracIndex.thy ===== *)
theory FracIndex
  imports DecodeUpdates "HOL-Library.List_Lexorder"
begin

text \<open>
  The fractional indexes of \<open>loro/tree.go\<close>: byte strings that order the children of a tree
  node, each ending in the terminator \<open>0x80\<close>. A nil slice is \<open>None\<close>; the functions that report
  failure by a second result return options. Byte strings are ordered as \<open>bytes.Compare\<close>
  orders them.
\<close>

definition fiTerminator :: byte where "fiTerminator = 0x80"

fun fiBefore :: "bytes \<Rightarrow> bytes option" where
  "fiBefore [] = None"
| "fiBefore (c # b) =
     (if c > fiTerminator then Some []
      else if c > 0 then Some [c - 1]
      else map_option ((#) c) (fiBefore b))"

fun fiAfter :: "bytes \<Rightarrow> bytes option" where
  "fiAfter [] = None"
| "fiAfter (c # b) =
     (if c < fiTerminator then Some []
      else if c < 0xff then Some [c + 1]
      else map_option ((#) c) (fiAfter b))"

definition fiJoin :: "bytes \<Rightarrow> bytes option \<Rightarrow> bytes option" where
  "fiJoin pre suf = map_option ((@) pre) suf"

text \<open>After the loop: \<open>shorter\<close> bytes are equal.\<close>

definition fi_tail :: "bytes \<Rightarrow> bytes \<Rightarrow> nat \<Rightarrow> bytes option" where
  "fi_tail left right shorter =
     (if length left < length right then
        (let pre = take (shorter + 1) right in
         if last pre < fiTerminator then None else fiJoin pre (fiBefore (drop (shorter + 1) right)))
      else if length left > length right then
        (let pre = take (shorter + 1) left in
         if last pre \<ge> fiTerminator then None else fiJoin pre (fiAfter (drop (shorter + 1) left)))
      else None)"

function fi_loop :: "bytes \<Rightarrow> bytes \<Rightarrow> nat \<Rightarrow> nat \<Rightarrow> bytes option" where
  "fi_loop left right shorter i =
     (if i < shorter then
        (let diff = uint (right ! i) - uint (left ! i) in
         if diff > 1 then Some (take i left @ [left ! i + word_of_int (diff div 2)])
         else if diff = 1 then fiJoin (take (i + 1) left) (fiAfter (drop (i + 1) left))
         else if diff < 0 then None
         else fi_loop left right shorter (i + 1))
      else fi_tail left right shorter)"
  by pat_completeness auto
termination by (relation "measure (\<lambda>(_, _, shorter, i). shorter - i)") auto

declare fi_loop.simps [simp del]

definition fiBetween :: "bytes \<Rightarrow> bytes \<Rightarrow> bytes option" where
  "fiBetween left right =
     (if left = [] \<or> right = [] then None
      else fi_loop left right (min (length left) (length right) - 1) 0)"

definition fiNew :: "bytes option \<Rightarrow> bytes option \<Rightarrow> bytes option" where
  "fiNew lower upper =
     (case (lower, upper) of
        (Some l, Some u) \<Rightarrow> map_option (\<lambda>b. b @ [fiTerminator]) (fiBetween l u)
      | (Some l, None) \<Rightarrow> map_option (\<lambda>b. b @ [fiTerminator]) (fiAfter l)
      | (None, Some u) \<Rightarrow> map_option (\<lambda>b. b @ [fiTerminator]) (fiBefore u)
      | (None, None) \<Rightarrow> Some [fiTerminator])"

text \<open>The middle index first, then each half the same way.\<close>

fun fi_gen :: "bytes option \<Rightarrow> bytes option \<Rightarrow> nat \<Rightarrow> bytes list option" where
  "fi_gen lower upper n =
     (if n = 0 then Some []
      else case fiNew lower upper of
        None \<Rightarrow> None
      | Some mid \<Rightarrow>
          if n = 1 then Some [mid]
          else case fi_gen lower (Some mid) (n div 2) of
            None \<Rightarrow> None
          | Some before \<Rightarrow> map_option (\<lambda>after. before @ mid # after) (fi_gen (Some mid) upper (n - n div 2 - 1)))"

declare fi_gen.simps [simp del]

definition fiEvenly :: "bytes option \<Rightarrow> bytes option \<Rightarrow> nat \<Rightarrow> bytes list option" where
  "fiEvenly lower upper n =
     (case (lower, upper) of
        (Some l, Some u) \<Rightarrow> if l \<ge> u then None else fi_gen lower upper n
      | _ \<Rightarrow> fi_gen lower upper n)"

section \<open>Order\<close>

text \<open>An index as the crate makes them: it ends in the terminator.\<close>

definition fi_ok :: "bytes \<Rightarrow> bool" where
  "fi_ok b \<longleftrightarrow> b \<noteq> [] \<and> last b = fiTerminator"

lemma fi_ok_snoc [simp]: "fi_ok (b @ [fiTerminator])"
  by (simp add: fi_ok_def)

lemma fi_ok_Cons: "fi_ok (c # b) \<longleftrightarrow> (if b = [] then c = fiTerminator else fi_ok b)"
  by (simp add: fi_ok_def)

lemma byte_pred: "0 < (c :: byte) \<Longrightarrow> c - 1 < c"
  using unat_gt_0 [of c] by (simp add: word_less_nat_alt unat_sub_if' word_le_nat_alt Suc_le_eq)

lemma byte_top: "\<not> (c :: byte) < 0xff \<Longrightarrow> c = 0xff"
proof -
  assume "\<not> c < 0xff"
  then have "255 \<le> unat c" by (simp add: word_less_nat_alt)
  moreover have "unat c < 256" using unsigned_less [of c] by simp
  ultimately have "unat c = unat (0xff :: byte)" by simp
  then show ?thesis by (rule word_unat_eq_iff [THEN iffD2])
qed

lemma byte_succ: "(c :: byte) < 0xff \<Longrightarrow> c < c + 1"
  by (simp add: word_less_nat_alt unat_word_ariths)

lemma fiBefore_ok:
  "fi_ok b \<Longrightarrow> \<exists>x. fiBefore b = Some x \<and> x @ [fiTerminator] < b"
proof (induction b rule: fiBefore.induct)
  case 1
  then show ?case by (simp add: fi_ok_def)
next
  case (2 c b)
  consider "c > fiTerminator" | "c \<le> fiTerminator" "c > 0" | "c = 0" by (metis not_less word_gt_0)
  then show ?case
  proof cases
    case 2
    have "c - 1 < c" using 2(2) by (rule byte_pred)
    with 2 show ?thesis by (simp add: not_less [symmetric])
  next
    case 3
    then have "b \<noteq> []" using "2.prems" by (auto simp: fi_ok_Cons fiTerminator_def)
    with "2.prems" have "fi_ok b" by (simp add: fi_ok_Cons)
    with "2.IH" 3 show ?thesis by (fastforce simp: fiTerminator_def)
  qed simp
qed

lemma fiAfter_ok:
  "fi_ok b \<Longrightarrow> \<exists>x. fiAfter b = Some x \<and> b < x @ [fiTerminator]"
proof (induction b rule: fiAfter.induct)
  case 1
  then show ?case by (simp add: fi_ok_def)
next
  case (2 c b)
  consider "c < fiTerminator" | "c \<ge> fiTerminator" "c < 0xff" | "c = 0xff"
    using byte_top [of c] by (metis not_less)
  then show ?case
  proof cases
    case 2
    have "c < c + 1" using 2(2) by (rule byte_succ)
    with 2 show ?thesis by (simp add: not_less [symmetric])
  next
    case 3
    then have "b \<noteq> []" using "2.prems" by (auto simp: fi_ok_Cons fiTerminator_def)
    with "2.prems" have "fi_ok b" by (simp add: fi_ok_Cons)
    with "2.IH" 3 show ?thesis by (fastforce simp: fiTerminator_def)
  qed simp
qed

text \<open>Lexicographic order, at the first byte that differs.\<close>

lemma lex_append_mono: "(x :: bytes) < y \<Longrightarrow> p @ x < p @ y"
  by (induction p) simp_all

lemma lex_diff: "take i a = take i b \<Longrightarrow> i < length a \<Longrightarrow> i < length b \<Longrightarrow> a ! i < b ! i \<Longrightarrow> a < (b :: bytes)"
proof (induction i arbitrary: a b)
  case 0
  then show ?case by (cases a; cases b) simp_all
next
  case (Suc i)
  then show ?case by (cases a; cases b) simp_all
qed

lemma lex_longer: "x \<noteq> [] \<Longrightarrow> (p :: bytes) < p @ x"
  by (induction p) (cases x, simp_all)

lemma take_nth_snoc: "k < length xs \<Longrightarrow> take (k + 1) xs = take k xs @ [xs ! k]"
  by (simp add: take_Suc_conv_app_nth)

lemma first_diff_le:
  assumes "take i l = take i r" and "i < length l" and "i < length r" and "(l :: bytes) < r"
  shows "l ! i \<le> r ! i"
proof (rule ccontr)
  assume "\<not> l ! i \<le> r ! i"
  then have "r < l" using lex_diff [of i r l] assms by simp
  with assms(4) show False by simp
qed

lemma lex_between_low:
  assumes "take i l = take i m" and "i < length l" and "i < length m" and "(l :: bytes) ! i < m ! i"
  shows "l < m"
  using lex_diff assms by blast

lemma fi_tail_shorter:
  assumes ok: "fi_ok l" "fi_ok r" and lt: "l < r" and tk: "take k l = take k r"
    and k: "k + 1 = length l" "length l < length r"
  shows "\<exists>b. fi_tail l r k = Some b \<and> l < b @ [fiTerminator] \<and> b @ [fiTerminator] < r"
proof -
  have kl: "k < length l" "k < length r" using k by simp_all
  note sl = take_nth_snoc [OF kl(1)] take_nth_snoc [OF kl(2)]
  have l: "take (k + 1) l = l" using k by simp
  have lk: "l ! k = fiTerminator"
    using ok(1) sl(1) l by (metis fi_ok_def last_snoc)
  have le: "l ! k \<le> r ! k" by (rule first_diff_le [OF tk kl lt])
  have "fi_ok (drop (k + 1) r)" using ok(2) k by (simp add: fi_ok_def)
  from fiBefore_ok [OF this] obtain x where x: "fiBefore (drop (k + 1) r) = Some x"
    and lt: "x @ [fiTerminator] < drop (k + 1) r" by blast
  let ?b = "take (k + 1) r @ x"
  have "last (take (k + 1) r) = r ! k" using sl(2) by simp
  then have "fi_tail l r k = Some ?b"
    using k le lk x by (simp add: fi_tail_def Let_def fiJoin_def not_less)
  moreover have "?b @ [fiTerminator] < r"
    using lex_append_mono [OF lt, of "take (k + 1) r"] by simp
  moreover have "l < ?b @ [fiTerminator]"
  proof (cases "l ! k = r ! k")
    case True
    then have "take (k + 1) r = l" using l sl tk by simp
    then show ?thesis using lex_longer [of "x @ [fiTerminator]" l] by simp
  next
    case False
    with le have "l ! k < r ! k" by simp
    then show ?thesis
      using kl tk sl(2) by (intro lex_between_low [of k]) (simp_all add: nth_append)
  qed
  ultimately show ?thesis by blast
qed

lemma fi_tail_longer:
  assumes ok: "fi_ok l" "fi_ok r" and lt: "l < r" and tk: "take k l = take k r"
    and k: "k + 1 = length r" "length r < length l"
  shows "\<exists>b. fi_tail l r k = Some b \<and> l < b @ [fiTerminator] \<and> b @ [fiTerminator] < r"
proof -
  have kl: "k < length l" "k < length r" using k by simp_all
  note sl = take_nth_snoc [OF kl(1)] take_nth_snoc [OF kl(2)]
  have r: "take (k + 1) r = r" using k by simp
  have rk: "r ! k = fiTerminator"
    using ok(2) sl(2) r by (metis fi_ok_def last_snoc)
  have "l ! k \<noteq> r ! k"
  proof
    assume e: "l ! k = r ! k"
    then have "take (k + 1) l = r" using sl tk r by simp
    then have "r @ drop (k + 1) l = l" by (metis append_take_drop_id)
    moreover have "drop (k + 1) l \<noteq> []" using k by simp
    ultimately have "r < l" using lex_longer [of "drop (k + 1) l" r] by simp
    with lt show False by simp
  qed
  with first_diff_le [OF tk kl lt] have lk: "l ! k < r ! k" by simp
  have "fi_ok (drop (k + 1) l)" using ok(1) k by (simp add: fi_ok_def)
  from fiAfter_ok [OF this] obtain x where x: "fiAfter (drop (k + 1) l) = Some x"
    and gt: "drop (k + 1) l < x @ [fiTerminator]" by blast
  let ?b = "take (k + 1) l @ x"
  have "last (take (k + 1) l) = l ! k" using sl(1) by simp
  then have "fi_tail l r k = Some ?b"
    using k lk rk x by (simp add: fi_tail_def Let_def fiJoin_def not_le)
  moreover have "l < ?b @ [fiTerminator]"
    using lex_append_mono [OF gt, of "take (k + 1) l"] by simp
  moreover have "?b @ [fiTerminator] < r"
    using kl tk sl(1) lk by (intro lex_between_low [of k]) (simp_all add: nth_append)
  ultimately show ?thesis by blast
qed

lemma fi_tail_same:
  assumes ok: "fi_ok l" "fi_ok r" and tk: "take k l = take k r" and k: "k + 1 = length r" "length r = length l"
  shows "l = r"
proof -
  have kl: "k < length l" "k < length r" using k by simp_all
  have l: "l = take k l @ [l ! k]" "r = take k r @ [r ! k]"
    using take_nth_snoc [OF kl(1)] take_nth_snoc [OF kl(2)] k by simp_all
  then have "l ! k = fiTerminator" "r ! k = fiTerminator" using ok by (metis fi_ok_def last_snoc)+
  with l tk show ?thesis by metis
qed

lemma fi_adjacent:
  assumes ok: "fi_ok l" and tk: "take i l = take i r" and il: "i + 1 < length l" "i < length r" and lt: "l ! i < r ! i"
  shows "\<exists>x. fiAfter (drop (i + 1) l) = Some x \<and> l < (take (i + 1) l @ x) @ [fiTerminator] \<and>
    (take (i + 1) l @ x) @ [fiTerminator] < r"
proof -
  have il': "i < length l" using il by simp
  have "fi_ok (drop (i + 1) l)" using ok il by (simp add: fi_ok_def)
  from fiAfter_ok [OF this] obtain x where x: "fiAfter (drop (i + 1) l) = Some x"
    and gt: "drop (i + 1) l < x @ [fiTerminator]" by blast
  moreover have "l < (take (i + 1) l @ x) @ [fiTerminator]"
    using lex_append_mono [OF gt, of "take (i + 1) l"] by simp
  moreover have "(take (i + 1) l @ x) @ [fiTerminator] < r"
    using il tk lt take_nth_snoc [OF il'] by (intro lex_between_low [of i]) (simp_all add: nth_append)
  ultimately show ?thesis by blast
qed

lemma fi_middle:
  fixes l r :: bytes
  assumes tk: "take i l = take i r" and il: "i < length l" "i < length r" and d: "uint (r ! i) - uint (l ! i) > 1"
  defines "m \<equiv> l ! i + word_of_int ((uint (r ! i) - uint (l ! i)) div 2)"
  shows "l < (take i l @ [m]) @ [fiTerminator] \<and> (take i l @ [m]) @ [fiTerminator] < r"
proof -
  define e where "e = (uint (r ! i) - uint (l ! i)) div 2"
  have e: "0 < e" "uint (l ! i) + e < uint (r ! i)" using d by (simp_all add: e_def)
  have r256: "uint (r ! i) < 256" using uint_bounded [of "r ! i"] by simp
  have m: "m = word_of_int (uint (l ! i) + e)" by (simp add: m_def e_def)
  have "uint m = (uint (l ! i) + e) mod 256" unfolding m uint_word_of_int by simp
  then have um: "uint m = uint (l ! i) + e"
    using e r256 uint_ge_0 [of "l ! i"] by (simp only: mod_pos_pos_trivial)
  have "l ! i < m" "m < r ! i" using e by (simp_all add: word_less_def um)
  then show ?thesis
    using il tk by (auto intro!: lex_between_low [of i] simp: nth_append)
qed

lemma fi_loop_ok:
  assumes ok: "fi_ok l" "fi_ok r" and lt: "l < r" and k: "k = min (length l) (length r) - 1"
    and "take i l = take i r" and "i \<le> k"
  shows "\<exists>b. fi_loop l r k i = Some b \<and> l < b @ [fiTerminator] \<and> b @ [fiTerminator] < r"
  using assms(5,6)
proof (induction "k - i" arbitrary: i)
  case 0
  have ik: "i = k" using 0 by simp
  have eq: "fi_loop l r k i = fi_tail l r k" by (subst fi_loop.simps) (simp add: ik)
  have ne: "0 < length l" "0 < length r" using ok by (auto simp: fi_ok_def)
  have tk: "take k l = take k r" using 0 ik by simp
  consider "k + 1 = length l" "length l < length r" | "k + 1 = length r" "length r < length l"
    | "k + 1 = length r" "length r = length l" using ne k by linarith
  then show ?case
    unfolding eq
  proof cases
    case 1
    then show "\<exists>b. fi_tail l r k = Some b \<and> l < b @ [fiTerminator] \<and> b @ [fiTerminator] < r"
      by (rule fi_tail_shorter [OF ok lt tk])
  next
    case 2
    then show "\<exists>b. fi_tail l r k = Some b \<and> l < b @ [fiTerminator] \<and> b @ [fiTerminator] < r"
      by (rule fi_tail_longer [OF ok lt tk])
  next
    case 3
    then have "l = r" by (rule fi_tail_same [OF ok tk])
    with lt show "\<exists>b. fi_tail l r k = Some b \<and> l < b @ [fiTerminator] \<and> b @ [fiTerminator] < r"
      by simp
  qed
next
  case (Suc n)
  have ik: "i < k" using Suc.hyps(2) by simp
  have il: "i < length l" "i < length r" "i + 1 < length l" using ik k by linarith+
  have tk: "take i l = take i r" by (rule Suc.prems(1))
  have le: "l ! i \<le> r ! i" by (rule first_diff_le [OF tk il(1,2) lt])
  then have "0 \<le> uint (r ! i) - uint (l ! i)" by (simp add: word_le_def)
  then consider "uint (r ! i) - uint (l ! i) = 0" | "uint (r ! i) - uint (l ! i) = 1"
    | "uint (r ! i) - uint (l ! i) > 1" by linarith
  then show ?case
  proof cases
    case 1
    then have e: "r ! i = l ! i" by (simp add: word_uint_eq_iff)
    have eq: "fi_loop l r k i = fi_loop l r k (i + 1)" by (subst fi_loop.simps) (simp add: ik e)
    have "take (i + 1) l = take (i + 1) r"
      using tk take_nth_snoc [OF il(1)] take_nth_snoc [OF il(2)] e by simp
    then show ?thesis unfolding eq using Suc.hyps ik by simp
  next
    case 2
    then have "l ! i < r ! i" by (simp add: word_less_def)
    from fi_adjacent [OF ok(1) tk il(3,2) this] obtain x where x: "fiAfter (drop (i + 1) l) = Some x"
      "l < (take (i + 1) l @ x) @ [fiTerminator]" "(take (i + 1) l @ x) @ [fiTerminator] < r" by blast
    have "fi_loop l r k i = Some (take (i + 1) l @ x)"
      by (subst fi_loop.simps) (simp add: ik 2 x(1) [unfolded Suc_eq_plus1 [symmetric]] fiJoin_def)
    with x show ?thesis by blast
  next
    case 3
    have "fi_loop l r k i = Some (take i l @ [l ! i + word_of_int ((uint (r ! i) - uint (l ! i)) div 2)])"
      by (subst fi_loop.simps) (simp only: ik 3 Let_def if_True)
    with fi_middle [OF tk il(1,2) 3] show ?thesis by blast
  qed
qed

lemma fiBetween_ok:
  assumes "fi_ok l" and "fi_ok r" and "l < r"
  shows "\<exists>b. fiBetween l r = Some b \<and> l < b @ [fiTerminator] \<and> b @ [fiTerminator] < r"
  using fi_loop_ok [OF assms refl, of 0] assms(1,2) by (simp add: fiBetween_def fi_ok_def)

text \<open>The bounds of a gap, either of which may be absent.\<close>

definition gap_ok :: "bytes option \<Rightarrow> bytes option \<Rightarrow> bool" where
  "gap_ok lower upper \<longleftrightarrow> (\<forall>l. lower = Some l \<longrightarrow> fi_ok l) \<and> (\<forall>u. upper = Some u \<longrightarrow> fi_ok u) \<and>
     (\<forall>l u. lower = Some l \<and> upper = Some u \<longrightarrow> l < u)"

definition in_gap :: "bytes option \<Rightarrow> bytes option \<Rightarrow> bytes \<Rightarrow> bool" where
  "in_gap lower upper b \<longleftrightarrow> (\<forall>l. lower = Some l \<longrightarrow> l < b) \<and> (\<forall>u. upper = Some u \<longrightarrow> b < u)"

lemma fiNew_ok:
  assumes "gap_ok lower upper"
  shows "\<exists>b. fiNew lower upper = Some b \<and> fi_ok b \<and> in_gap lower upper b"
proof (cases lower)
  case None
  show ?thesis
  proof (cases upper)
    case None
    then show ?thesis using \<open>lower = None\<close> by (simp add: fiNew_def in_gap_def fi_ok_def)
  next
    case (Some u)
    then have "fi_ok u" using assms by (simp add: gap_ok_def)
    from fiBefore_ok [OF this] show ?thesis using Some None by (auto simp: fiNew_def in_gap_def)
  qed
next
  case (Some l)
  then have l: "fi_ok l" using assms by (simp add: gap_ok_def)
  show ?thesis
  proof (cases upper)
    case None
    from fiAfter_ok [OF l] show ?thesis using Some None by (auto simp: fiNew_def in_gap_def)
  next
    case u: (Some u)
    then have "fi_ok u" "l < u" using assms Some by (simp_all add: gap_ok_def)
    from fiBetween_ok [OF l this] show ?thesis using Some u by (auto simp: fiNew_def in_gap_def)
  qed
qed

lemma fi_gen_ok:
  "gap_ok lower upper \<Longrightarrow> \<exists>bs. fi_gen lower upper n = Some bs \<and> length bs = n \<and> sorted_wrt (<) bs \<and>
    (\<forall>b\<in>set bs. fi_ok b \<and> in_gap lower upper b)"
proof (induction lower upper n rule: fi_gen.induct)
  case (1 lower upper n)
  obtain mid where m: "fiNew lower upper = Some mid" "fi_ok mid" "in_gap lower upper mid"
    using fiNew_ok [OF "1.prems"] by blast
  consider "n = 0" | "n = 1" | "n > 1" by linarith
  then show ?case
  proof cases
    case 1
    then show ?thesis by (simp add: fi_gen.simps)
  next
    case 2
    with m show ?thesis by (simp add: fi_gen.simps)
  next
    case 3
    have g: "gap_ok lower (Some mid)" "gap_ok (Some mid) upper"
      using "1.prems" m by (auto simp: gap_ok_def in_gap_def)
    obtain xs where xs: "fi_gen lower (Some mid) (n div 2) = Some xs" "length xs = n div 2" "sorted_wrt (<) xs"
        "\<forall>b\<in>set xs. fi_ok b \<and> in_gap lower (Some mid) b"
      using "1.IH"(1) [OF _ m(1) _ g(1)] 3 by auto
    obtain ys where ys: "fi_gen (Some mid) upper (n - n div 2 - 1) = Some ys" "length ys = n - n div 2 - 1"
        "sorted_wrt (<) ys" "\<forall>b\<in>set ys. fi_ok b \<and> in_gap (Some mid) upper b"
      using "1.IH"(2) [OF _ m(1) _ xs(1) g(2)] 3 by auto
    have "fi_gen lower upper n = Some (xs @ mid # ys)"
      using 3 m xs ys by (subst fi_gen.simps) simp
    moreover have "length (xs @ mid # ys) = n" using xs(2) ys(2) 3 by simp
    moreover have "sorted_wrt (<) (xs @ mid # ys)"
      using xs(3,4) ys(3,4) by (auto simp: sorted_wrt_append in_gap_def intro: order_less_trans)
    moreover have "\<forall>b\<in>set (xs @ mid # ys). fi_ok b \<and> in_gap lower upper b"
      using xs(4) ys(4) m by (auto simp: in_gap_def intro: order_less_trans)
    ultimately show ?thesis by blast
  qed
qed

lemma fractional_gap:
  assumes "gap_ok lower upper"
  shows "(\<exists>b. fiNew lower upper = Some b \<and> fi_ok b \<and> in_gap lower upper b) \<and>
    (\<exists>bs. fiEvenly lower upper n = Some bs \<and> length bs = n \<and> sorted_wrt (<) bs \<and>
      (\<forall>b\<in>set bs. fi_ok b \<and> in_gap lower upper b))"
proof -
  have "fiEvenly lower upper n = fi_gen lower upper n"
    using assms by (auto simp: fiEvenly_def gap_ok_def not_le split: option.splits)
  with fiNew_ok [OF assms] fi_gen_ok [OF assms, of n] show ?thesis by simp
qed

text \<open>C20: Between any two different indexes, and below or above any one, there is room:
  \<open>fiNew\<close> returns an index strictly in the gap, and \<open>fiEvenly\<close> returns any number of them in
  strictly ascending order. Both only make indexes that end in the terminator, for which they
  never fail; indexes from elsewhere can make them fail, with an error value.\<close>

theorem fractional_indexes_fit:
  assumes "gap_ok lower upper"
  shows "(\<exists>b. fiNew lower upper = Some b \<and> fi_ok b \<and> in_gap lower upper b) \<and>
    (\<exists>bs. fiEvenly lower upper n = Some bs \<and> length bs = n \<and> sorted_wrt (<) bs \<and>
      (\<forall>b\<in>set bs. fi_ok b \<and> in_gap lower upper b))"
  by (rule fractional_gap [OF assms])

lemma fractional_indexes_fit_witness:
  "(\<exists>b. fiNew (Some [0x80]) (Some [0x80, 0x80]) = Some b \<and> fi_ok b \<and> in_gap (Some [0x80]) (Some [0x80, 0x80]) b) \<and>
   (\<exists>bs. fiEvenly (Some [0x80]) (Some [0x80, 0x80]) 5 = Some bs \<and> length bs = 5 \<and> sorted_wrt (<) bs \<and>
      (\<forall>b\<in>set bs. fi_ok b \<and> in_gap (Some [0x80]) (Some [0x80, 0x80]) b))"
  by (rule fractional_indexes_fit) (simp add: gap_ok_def fi_ok_def fiTerminator_def)

section \<open>Comparing in hexadecimal\<close>

text \<open>Upper-case hexadecimal keeps the order, so comparing the strings compares the indexes.\<close>

lemma hex_digit_less: "a < b \<Longrightarrow> b < 16 \<Longrightarrow> hex_digit a < hex_digit b"
proof -
  assume ab: "a < b" "b < 16"
  have "unat (hex_digit k) = (if k < 10 then 48 + k else 55 + k)" if "k < 16" for k
    using that unat_byte [of "48 + k"] unat_byte [of "55 + k"] by (simp add: hex_digit_def del: of_nat_add)
  from this [of a] this [of b] ab show ?thesis by (simp add: word_less_nat_alt)
qed

lemma hex_upper_less: "a < b \<Longrightarrow> hex_upper a < hex_upper b"
proof (induction a arbitrary: b)
  case Nil
  then obtain c cs where "b = c # cs" by (cases b) simp_all
  then show ?case by (simp add: hex_upper_def)
next
  case (Cons x xs)
  then obtain y ys where b: "b = y # ys" by (cases b) simp_all
  have x: "unat x < 256" "unat y < 256" using unsigned_less [of x] unsigned_less [of y] by simp_all
  consider "x < y" | "x = y" "xs < ys" using Cons.prems b by auto
  then show ?case
  proof cases
    case 1
    then have "unat x < unat y" by (simp add: word_less_nat_alt)
    then consider "unat x div 16 < unat y div 16"
      | "unat x div 16 = unat y div 16" "unat x mod 16 < unat y mod 16"
      by (metis div_le_mono div_mult_mod_eq le_neq_implies_less less_imp_le_nat nat_add_left_cancel_less)
    then show ?thesis
      using hex_digit_less x by cases (simp_all add: b hex_upper_def)
  next
    case 2
    with Cons.IH [of ys] show ?thesis by (simp add: b hex_upper_def)
  qed
qed

lemma hex_upper_less_iff: "hex_upper a < hex_upper b \<longleftrightarrow> a < b"
  using hex_upper_less by (metis linorder_neqE order_less_asym order_less_irrefl)

end
