(* ===== verification/GoSearch.thy ===== *)
theory GoSearch
  imports Main
begin

text \<open>
  Binary search as Go's library does it: \<open>slices.BinarySearchFunc\<close> finds the first item that does not
  come before the target, \<open>sort.Search\<close> the first index where its predicate holds.
\<close>

function bsearch :: "('a \<Rightarrow> bool) \<Rightarrow> 'a list \<Rightarrow> nat \<Rightarrow> nat \<Rightarrow> nat" where
  "bsearch before xs i j =
     (if i < j then
        (let h = (i + j) div 2 in
         if before (xs ! h) then bsearch before xs (h + 1) j else bsearch before xs i h)
      else i)"
  by pat_completeness auto
termination by (relation "measure (\<lambda>(_, _, i, j). j - i)") auto

declare bsearch.simps [simp del]

lemma bsearch_bound:
  "(\<And>a b. a \<le> b \<Longrightarrow> b < length xs \<Longrightarrow> before (xs ! b) \<Longrightarrow> before (xs ! a)) \<Longrightarrow> i \<le> j \<Longrightarrow> j \<le> length xs \<Longrightarrow>
    (\<forall>a<i. before (xs ! a)) \<Longrightarrow> (\<forall>a. j \<le> a \<and> a < length xs \<longrightarrow> \<not> before (xs ! a)) \<Longrightarrow>
    bsearch before xs i j \<le> length xs \<and> (\<forall>a<bsearch before xs i j. before (xs ! a)) \<and>
    (\<forall>a. bsearch before xs i j \<le> a \<and> a < length xs \<longrightarrow> \<not> before (xs ! a))"
proof (induction before xs i j rule: bsearch.induct)
  case (1 before xs i j)
  note mono = "1.prems"(1)
  let ?h = "(i + j) div 2"
  consider "\<not> i < j" | "i < j" "before (xs ! ?h)" | "i < j" "\<not> before (xs ! ?h)" by blast
  then show ?case
  proof cases
    case 1
    then have "bsearch before xs i j = i" by (simp add: bsearch.simps)
    with 1 "1.prems" show ?thesis by auto
  next
    case 2
    then have eq: "bsearch before xs i j = bsearch before xs (?h + 1) j" by (subst bsearch.simps) (simp add: Let_def)
    have h: "?h < j" using 2 by simp
    have "\<forall>a<?h + 1. before (xs ! a)"
      using mono [of _ ?h] 2(2) h "1.prems"(3) by auto
    with "1.IH"(1) [OF 2(1) refl 2(2) mono] h "1.prems"(3,5) show ?thesis unfolding eq by simp
  next
    case 3
    then have eq: "bsearch before xs i j = bsearch before xs i ?h" by (subst bsearch.simps) (simp add: Let_def)
    have h: "i \<le> ?h" "?h < j" using 3 by simp_all
    have "\<forall>a. ?h \<le> a \<and> a < length xs \<longrightarrow> \<not> before (xs ! a)"
      using mono [of ?h] 3(2) by blast
    with "1.IH"(2) [OF 3(1) refl 3(2) mono] h "1.prems"(3,4) show ?thesis unfolding eq by simp
  qed
qed

lemma bsearch_whole:
  assumes "\<And>a b. a \<le> b \<Longrightarrow> b < length xs \<Longrightarrow> before (xs ! b) \<Longrightarrow> before (xs ! a)"
  shows "bsearch before xs 0 (length xs) \<le> length xs" and "a < bsearch before xs 0 (length xs) \<Longrightarrow> before (xs ! a)"
    and "bsearch before xs 0 (length xs) \<le> a \<Longrightarrow> a < length xs \<Longrightarrow> \<not> before (xs ! a)"
proof -
  have "bsearch before xs 0 (length xs) \<le> length xs \<and> (\<forall>a<bsearch before xs 0 (length xs). before (xs ! a)) \<and>
    (\<forall>a. bsearch before xs 0 (length xs) \<le> a \<and> a < length xs \<longrightarrow> \<not> before (xs ! a))"
  proof (rule bsearch_bound)
    show "before (xs ! a)" if "a \<le> b" "b < length xs" "before (xs ! b)" for a b using that by (rule assms)
  qed auto
  then show "bsearch before xs 0 (length xs) \<le> length xs" and "a < bsearch before xs 0 (length xs) \<Longrightarrow> before (xs ! a)"
    and "bsearch before xs 0 (length xs) \<le> a \<Longrightarrow> a < length xs \<Longrightarrow> \<not> before (xs ! a)"
    by blast+
qed

end
