(* ===== verification/TreeIndex.thy ===== *)
theory TreeIndex
  imports TreeMerge FracIndex GoSearch
begin

text \<open>
  The index that a document keeps of a tree (\<open>treeIndex\<close> of \<open>loro/tree.go\<close>): placements and the
  ordered children of every live parent, built once from the ops and then kept current by each
  local op. The counter \<open>steps\<close>, which only tests read, is left out; the count of walked
  ancestors, which the budget limits, is kept. Test hooks (\<open>knockTree\<close>) are off.
\<close>

section \<open>Places\<close>

record treePlace =
  tp_parent :: gostring
  tp_fi :: gostring
  tp_lamport :: i64
  tp_peer :: u64

definition tp_before :: "treePlace \<Rightarrow> treePlace \<Rightarrow> bool" where
  "tp_before a b =
     (if tp_fi a \<noteq> tp_fi b then tp_fi a < tp_fi b
      else if tp_lamport a \<noteq> tp_lamport b then sless (tp_lamport a) (tp_lamport b)
      else tp_peer a < tp_peer b)"

definition tp_compare :: "treePlace \<Rightarrow> treePlace \<Rightarrow> int" where
  "tp_compare a b = (if tp_before a b then - 1 else if tp_before b a then 1 else 0)"

text \<open>\<open>ti_ids\<close> enumerates the Go map \<open>nodes\<close>.\<close>

record treeIndex =
  ti_nodes :: "gostring \<Rightarrow> treePlace option"
  ti_ids :: "gostring list"
  ti_children :: "gostring \<Rightarrow> gostring list"
  ti_childCount :: "gostring \<Rightarrow> int"

definition treeParentOf :: "TreeNode \<Rightarrow> gostring" where
  "treeParentOf n = (if tn_HasParent n then tn_Parent n else [])"

text \<open>The loop of \<open>isAncestor\<close> with the iterations it has left, and the nodes it looked at.\<close>

fun is_anc :: "(gostring \<Rightarrow> treePlace option) \<Rightarrow> gostring \<Rightarrow> gostring \<Rightarrow> nat \<Rightarrow> bool \<times> int" where
  "is_anc nodes node at 0 = (False, 0)"
| "is_anc nodes node at (Suc k) =
     (if at = [] \<or> at = deletedTreeRoot then (False, 0)
      else if at = node then (True, 1)
      else case nodes at of
        None \<Rightarrow> (False, 1)
      | Some p \<Rightarrow> (case is_anc nodes node (tp_parent p) k of (b, c) \<Rightarrow> (b, c + 1)))"

definition isAncestor :: "treeIndex \<Rightarrow> gostring \<Rightarrow> gostring \<Rightarrow> bool \<times> int" where
  "isAncestor t node parent = is_anc (ti_nodes t) node parent (length (ti_ids t) + 1)"

section \<open>Building\<close>

definition ti_place :: "Op \<Rightarrow> TreeNode \<Rightarrow> treePlace" where
  "ti_place op n = \<lparr>tp_parent = treeParentOf n, tp_fi = tn_FI n, tp_lamport = op_Lamport op, tp_peer = op_Peer op\<rparr>"

definition ti_set :: "treeIndex \<Rightarrow> gostring \<Rightarrow> treePlace \<Rightarrow> treeIndex" where
  "ti_set t x p =
     (let count = (case ti_nodes t x of
            Some old \<Rightarrow> (ti_childCount t)(tp_parent old := ti_childCount t (tp_parent old) - 1)
          | None \<Rightarrow> ti_childCount t)
      in t\<lparr>ti_ids := (if ti_nodes t x = None then ti_ids t @ [x] else ti_ids t),
         ti_nodes := (ti_nodes t)(x \<mapsto> p),
         ti_childCount := count(tp_parent p := count (tp_parent p) + 1)\<rparr>)"

definition checks_cycle :: "treeIndex \<Rightarrow> TreeNode \<Rightarrow> bool" where
  "checks_cycle t n \<longleftrightarrow> (let parent = treeParentOf n in
     parent \<noteq> [] \<and> parent \<noteq> deletedTreeRoot \<and> (parent = tn_ID n \<or> ti_childCount t (tn_ID n) > 0))"

text \<open>One turn of the loop over the sorted ops; past the budget the error stays set.\<close>

definition ti_move :: "int \<Rightarrow> Op \<Rightarrow> treeIndex \<times> int \<Rightarrow> (treeIndex \<times> int) res" where
  "ti_move budget op s =
     (case s of (t, walked) \<Rightarrow>
       case op_Value op of
         OTree n \<Rightarrow>
           if op_VKind op \<noteq> VKRawTreeMove then Inr s
           else if checks_cycle t n then
             (case isAncestor t (tn_ID n) (treeParentOf n) of (cyclic, c) \<Rightarrow>
               if walked + c > budget then Inl (Errorf ''tree ancestry checks exceeded'')
               else if cyclic then Inr (t, walked + c)
               else Inr (ti_set t (tn_ID n) (ti_place op n), walked + c))
           else Inr (ti_set t (tn_ID n) (ti_place op n), walked)
       | _ \<Rightarrow> Inr s)"

fun ti_moves :: "int \<Rightarrow> Op list \<Rightarrow> treeIndex \<times> int \<Rightarrow> (treeIndex \<times> int) res" where
  "ti_moves budget [] s = Inr s"
| "ti_moves budget (op # ops) s = bindR (ti_move budget op s) (ti_moves budget ops)"

definition place_key :: "treePlace \<Rightarrow> gostring \<times> int \<times> u64" where
  "place_key p = (tp_fi p, sint (tp_lamport p), tp_peer p)"

definition node_key :: "treeIndex \<Rightarrow> gostring \<Rightarrow> gostring \<times> int \<times> u64" where
  "node_key t x = (case ti_nodes t x of Some p \<Rightarrow> place_key p | None \<Rightarrow> ([], 0, 0))"

definition ti_parent :: "treeIndex \<Rightarrow> gostring \<Rightarrow> gostring" where
  "ti_parent t x = (case ti_nodes t x of Some p \<Rightarrow> tp_parent p | None \<Rightarrow> [])"

text \<open>Each parent's children, sorted; nodes under the deleted root are in no list.\<close>

definition ti_link :: "treeIndex \<Rightarrow> treeIndex" where
  "ti_link t = t\<lparr>ti_children := (\<lambda>p. if p = deletedTreeRoot then []
      else sort_key (node_key t) (filter (\<lambda>x. ti_parent t x = p) (ti_ids t)))\<rparr>"

definition empty_index :: treeIndex where
  "empty_index = \<lparr>ti_nodes = Map.empty, ti_ids = [], ti_children = (\<lambda>_. []), ti_childCount = (\<lambda>_. 0)\<rparr>"

definition tree_index :: "Op list \<Rightarrow> treeIndex res" where
  "tree_index ops = bindR (ti_moves (tree_budget ops) (sortedOps ops) (empty_index, 0)) (\<lambda>(t, walked). Inr (ti_link t))"

section \<open>Local ops\<close>

definition place_of :: "treeIndex \<Rightarrow> gostring \<Rightarrow> treePlace" where
  "place_of t x = (case ti_nodes t x of Some p \<Rightarrow> p
     | None \<Rightarrow> \<lparr>tp_parent = [], tp_fi = [], tp_lamport = 0, tp_peer = 0\<rparr>)"

definition find_kid :: "treeIndex \<Rightarrow> gostring list \<Rightarrow> treePlace \<Rightarrow> nat \<times> bool" where
  "find_kid t kids p =
     (let i = bsearch (\<lambda>x. tp_compare (place_of t x) p < 0) kids 0 (length kids) in
      (i, i < length kids \<and> tp_compare (place_of t (kids ! i)) p = 0))"

definition ti_unlink :: "treeIndex \<Rightarrow> gostring \<Rightarrow> treePlace \<Rightarrow> treeIndex" where
  "ti_unlink t node place =
     (if tp_parent place = deletedTreeRoot then t
      else
        let kids = ti_children t (tp_parent place) in
        case find_kid t kids place of (i, found) \<Rightarrow>
          if found \<and> kids ! i = node
          then t\<lparr>ti_children := (ti_children t)(tp_parent place := take i kids @ drop (i + 1) kids)\<rparr> else t)"

definition applyLocal :: "treeIndex \<Rightarrow> Op \<Rightarrow> treeIndex" where
  "applyLocal t op =
     (case op_Value op of
        OTree n \<Rightarrow>
          if op_VKind op \<noteq> VKRawTreeMove then t
          else if checks_cycle t n \<and> fst (isAncestor t (tn_ID n) (treeParentOf n)) then t
          else
            let parent = treeParentOf n;
                t1 = (case ti_nodes t (tn_ID n) of None \<Rightarrow> t | Some old \<Rightarrow> ti_unlink t (tn_ID n) old);
                t2 = ti_set t1 (tn_ID n) (ti_place op n) in
            if parent = deletedTreeRoot then t2
            else
              let kids = ti_children t2 parent; i = fst (find_kid t2 kids (ti_place op n)) in
              t2\<lparr>ti_children := (ti_children t2)(parent := take i kids @ tn_ID n # drop i kids)\<rparr>
      | _ \<Rightarrow> t)"

text \<open>\<open>alive\<close> and \<open>indexOf\<close>; -1 is \<open>None\<close>.\<close>

fun alive_loop :: "(gostring \<Rightarrow> treePlace option) \<Rightarrow> gostring \<Rightarrow> nat \<Rightarrow> bool" where
  "alive_loop nodes at 0 = False"
| "alive_loop nodes at (Suc k) =
     (case nodes at of
        None \<Rightarrow> False
      | Some p \<Rightarrow> if tp_parent p = deletedTreeRoot then False
                else if tp_parent p = [] then True
                else alive_loop nodes (tp_parent p) k)"

definition ti_alive :: "treeIndex \<Rightarrow> gostring \<Rightarrow> bool" where
  "ti_alive t node = alive_loop (ti_nodes t) node (length (ti_ids t) + 1)"

definition indexOf :: "treeIndex \<Rightarrow> gostring \<Rightarrow> nat option" where
  "indexOf t node =
     (case ti_nodes t node of
        None \<Rightarrow> None
      | Some p \<Rightarrow>
          if tp_parent p = deletedTreeRoot then None
          else case find_kid t (ti_children t (tp_parent p)) p of (i, found) \<Rightarrow> if found then Some i else None)"

section \<open>The index agrees with the merge\<close>

definition place_abs :: "placement \<Rightarrow> treePlace" where
  "place_abs p = \<lparr>tp_parent = (if pl_hasParent p then pl_parent p else []), tp_fi = pl_fi p,
     tp_lamport = pl_lamport p, tp_peer = pl_peer p\<rparr>"

definition sim :: "treeIndex \<times> int \<Rightarrow> treeMerge \<Rightarrow> bool" where
  "sim s t \<longleftrightarrow> (case s of (ti, walked) \<Rightarrow>
     ti_nodes ti = (\<lambda>x. map_option place_abs (tm_current t x)) \<and> ti_ids ti = tm_ids t \<and>
     (\<forall>x. x \<noteq> [] \<longrightarrow> ti_childCount ti x = tm_childCount t x) \<and> tm_steps t \<le> walked)"

text \<open>The ancestors that a walk from \<open>at\<close> can still meet.\<close>

definition above :: "treeMerge \<Rightarrow> gostring \<Rightarrow> gostring set" where
  "above t at = {y \<in> dom (tm_current t). (at, y) \<in> (edges (tm_current t))\<^sup>*}"

lemma above_parent:
  assumes "tree_ok t" and "(at, p) \<in> edges (tm_current t)"
  shows "card (above t p) < card (above t at)"
proof (rule psubset_card_mono)
  have "finite (dom (tm_current t))" using assms(1) by (metis List.finite_set tree_ok_def)
  then show "finite (above t at)" by (auto simp: above_def intro: finite_subset)
  have "at \<notin> above t p"
  proof
    assume "at \<in> above t p"
    then have "(p, at) \<in> (edges (tm_current t))\<^sup>*" by (simp add: above_def)
    with assms(2) have "(at, at) \<in> (edges (tm_current t))\<^sup>+" by (rule rtrancl_into_trancl2)
    with assms(1) show False by (simp add: tree_ok_def acyclic_def)
  qed
  moreover have "at \<in> above t at" using assms(2) by (auto simp: above_def edges_iff)
  moreover have "above t p \<subseteq> above t at"
    using assms(2) by (auto simp: above_def intro: converse_rtrancl_into_rtrancl)
  ultimately show "above t p \<subset> above t at" by blast
qed

lemma above_bound: "tree_ok t \<Longrightarrow> card (above t at) \<le> length (tm_ids t)"
  unfolding above_def tree_ok_def
  by (metis (no_types, lifting) List.finite_set card_mono distinct_card mem_Collect_eq subsetI)

lemma is_anc_walks:
  assumes t: "tree_ok t" and nodes: "nodes = (\<lambda>x. map_option place_abs (tm_current t x))" and nd: "node \<noteq> deletedTreeRoot"
  shows "at \<noteq> [] \<Longrightarrow> card (above t at) < k \<Longrightarrow> is_anc nodes node at k = (b, c) \<Longrightarrow>
    0 \<le> c \<and> (steps + c \<le> budget \<longrightarrow> (\<exists>m. 0 \<le> m \<and> m \<le> c \<and> walk_up (tm_current t) budget node at steps = Inr (b, steps + m)))"
proof (induction k arbitrary: at b c steps)
  case 0
  then show ?case by simp
next
  case (Suc k)
  have stop: ?case if "c = 0 \<or> c = 1" "\<not> b" "at \<noteq> node" "\<nexists>p. tm_current t at = Some p \<and> pl_hasParent p"
    using walk_up_stop [of at node "tm_current t" budget steps, OF that(3,4)] that(1,2) by (intro conjI impI exI [of _ 0]) auto
  have root: "is_anc nodes node [] k = (False, 0)" by (cases k) simp_all
  consider "at = deletedTreeRoot" | "at \<noteq> deletedTreeRoot" "at = node"
    | "at \<noteq> deletedTreeRoot" "at \<noteq> node" "tm_current t at = None"
    | p where "at \<noteq> deletedTreeRoot" "at \<noteq> node" "tm_current t at = Some p" "\<not> pl_hasParent p"
    | p where "at \<noteq> deletedTreeRoot" "at \<noteq> node" "tm_current t at = Some p" "pl_hasParent p" by blast
  then show ?case
  proof cases
    case 1
    show ?thesis
    proof (rule stop)
      show "\<nexists>p. tm_current t at = Some p \<and> pl_hasParent p" using 1 t by (auto simp: tree_ok_def)
    qed (use Suc.prems 1 nd in auto)
  next
    case 2
    then have "b" "c = 1" using Suc.prems by simp_all
    with 2 show ?thesis by (intro conjI impI exI [of _ 0]) (simp_all add: walk_up_same)
  next
    case 3
    then show ?thesis using Suc.prems nodes by (intro stop) simp_all
  next
    case 4
    then show ?thesis using Suc.prems nodes root by (intro stop) (simp_all add: place_abs_def)
  next
    case 5
    obtain b' c' where r: "is_anc nodes node (pl_parent p) k = (b', c')" by fastforce
    then have bc: "b = b'" "c = c' + 1" using Suc.prems 5 nodes by (simp_all add: place_abs_def)
    have "(at, pl_parent p) \<in> edges (tm_current t)" using 5 by (auto simp: edges_iff)
    then have "card (above t (pl_parent p)) < k" using above_parent [OF t] Suc.prems(2) by fastforce
    moreover have "pl_parent p \<noteq> []" using t 5 by (auto simp: tree_ok_def)
    ultimately have IH: "0 \<le> c' \<and> (steps + 1 + c' \<le> budget \<longrightarrow>
        (\<exists>m. 0 \<le> m \<and> m \<le> c' \<and> walk_up (tm_current t) budget node (pl_parent p) (steps + 1) = Inr (b', steps + 1 + m)))"
      using r by (intro Suc.IH) simp_all
    show ?thesis
    proof (intro conjI impI)
      show "0 \<le> c" using IH bc by simp
      assume "steps + c \<le> budget"
      then obtain m where m: "0 \<le> m" "m \<le> c'"
          "walk_up (tm_current t) budget node (pl_parent p) (steps + 1) = Inr (b', steps + 1 + m)" and "\<not> steps + 1 > budget"
        using IH bc by auto
      then have "walk_up (tm_current t) budget node at steps = Inr (b, steps + (m + 1))"
        using walk_up_next [of at node "tm_current t" p budget steps, OF 5(2,3,4)] bc by (simp add: ac_simps)
      with m bc show "\<exists>m. 0 \<le> m \<and> m \<le> c \<and> walk_up (tm_current t) budget node at steps = Inr (b, steps + m)"
        by (intro exI [of _ "m + 1"]) simp
    qed
  qed
qed

lemma sim_set:
  assumes "sim (ti, w) t" and "tree_ok t" and "node_ok n"
  shows "sim (ti_set ti (tn_ID n) (ti_place op n), w) (place_node t op n)"
proof -
  have n: "ti_nodes ti = (\<lambda>x. map_option place_abs (tm_current t x))" "ti_ids ti = tm_ids t" "tm_steps t \<le> w"
    and c: "\<And>x. x \<noteq> [] \<Longrightarrow> ti_childCount ti x = tm_childCount t x"
    using assms(1) by (simp_all add: sim_def)
  have p: "pl_hasParent q \<Longrightarrow> tm_current t x = Some q \<Longrightarrow> pl_parent q \<noteq> []" for x q
    using assms(2) by (auto simp: tree_ok_def)
  have np: "tn_HasParent n \<Longrightarrow> tn_Parent n \<noteq> []" using assms(3) by (simp add: node_ok_def)
  have "ti_childCount (ti_set ti (tn_ID n) (ti_place op n)) x = tm_childCount (place_node t op n) x" if "x \<noteq> []" for x
    using that n(1) c p np
    by (auto simp: ti_set_def place_node_def Let_def ti_place_def treeParentOf_def place_abs_def split: option.splits)
  moreover have "ti_nodes (ti_set ti (tn_ID n) (ti_place op n)) = (\<lambda>x. map_option place_abs (tm_current (place_node t op n) x))"
    by (auto simp: ti_set_def Let_def n place_node_current ti_place_def treeParentOf_def place_abs_def fun_eq_iff)
  ultimately show ?thesis
    using n by (simp add: sim_def place_node_ids) (simp add: ti_set_def place_node_def Let_def)
qed

lemma sim_checks:
  assumes "sim (ti, w) t" and "tree_ok t" and "node_ok n"
  shows "checks_cycle ti n \<longleftrightarrow> tn_HasParent n \<and> tn_Parent n \<noteq> deletedTreeRoot \<and>
    (tn_Parent n = tn_ID n \<or> tm_childCount t (tn_ID n) \<noteq> 0)"
proof -
  have "tm_childCount t (tn_ID n) \<ge> 0" using assms(2) by (simp add: tree_ok_def)
  moreover have "ti_childCount ti (tn_ID n) = tm_childCount t (tn_ID n)"
    using assms(1,3) by (simp add: sim_def node_ok_def)
  ultimately show ?thesis
    using assms(3) by (auto simp: checks_cycle_def treeParentOf_def node_ok_def Let_def)
qed

lemma sim_move:
  assumes s: "sim (ti, w) t" and ok: "tree_ok t" and m: "move_ok op" and r: "ti_move budget op (ti, w) = Inr s'"
  shows "\<exists>t'. apply_move budget op t = Inr t' \<and> sim s' t'"
proof (cases "op_Value op")
  case (OTree n)
  show ?thesis
  proof (cases "op_VKind op = VKRawTreeMove")
    case False
    then show ?thesis using r s OTree by (simp add: ti_move_def apply_move_def)
  next
    case vk: True
    then have n: "node_ok n" using m OTree by (simp add: move_ok_def)
    note chk = sim_checks [OF s ok n]
    show ?thesis
    proof (cases "checks_cycle ti n")
      case False
      then have s': "s' = (ti_set ti (tn_ID n) (ti_place op n), w)" using r OTree vk by (simp add: ti_move_def)
      have "apply_move budget op t = Inr (place_node t op n)"
        using False chk OTree vk by (auto simp: apply_move_def wouldCycle_def Let_def)
      with sim_set [OF s ok n] s' show ?thesis by blast
    next
      case True
      obtain b c where a: "isAncestor ti (tn_ID n) (treeParentOf n) = (b, c)" by fastforce
      have p: "tn_HasParent n" "tn_Parent n \<noteq> deletedTreeRoot" using True chk by simp_all
      have w: "w + c \<le> budget" and s': "s' = (if b then ti else ti_set ti (tn_ID n) (ti_place op n), w + c)"
        using r OTree vk True a by (simp_all add: ti_move_def split: if_splits)
      have sm: "ti_nodes ti = (\<lambda>x. map_option place_abs (tm_current t x))" "ti_ids ti = tm_ids t" "tm_steps t \<le> w"
        using s by (simp_all add: sim_def)
      have "is_anc (ti_nodes ti) (tn_ID n) (tn_Parent n) (length (ti_ids ti) + 1) = (b, c)"
        using a p by (simp add: isAncestor_def treeParentOf_def)
      moreover have "card (above t (tn_Parent n)) < length (ti_ids ti) + 1" using above_bound [OF ok] sm(2) by (simp add: le_imp_less_Suc)
      moreover have "tn_Parent n \<noteq> []" "tn_ID n \<noteq> deletedTreeRoot" using n p by (simp_all add: node_ok_def)
      ultimately have c: "0 \<le> c" and wu: "\<exists>k. 0 \<le> k \<and> k \<le> c \<and>
          walk_up (tm_current t) budget (tn_ID n) (tn_Parent n) (tm_steps t) = Inr (b, tm_steps t + k)"
        using is_anc_walks [OF ok sm(1), of "tn_ID n" "tn_Parent n" _ b c "tm_steps t" budget] w sm(3) by auto
      then obtain k where k: "0 \<le> k" "k \<le> c"
          "walk_up (tm_current t) budget (tn_ID n) (tn_Parent n) (tm_steps t) = Inr (b, tm_steps t + k)" by blast
      have wc: "\<exists>k. 0 \<le> k \<and> k \<le> c \<and> wouldCycle t budget (tn_ID n) (tn_Parent n) = Inr (b, tm_steps t + k)"
      proof (cases "tn_Parent n = tn_ID n")
        case True
        then have "b" using k(3) by (simp add: walk_up_same)
        then show ?thesis using True c by (intro exI [of _ 0]) (simp add: wouldCycle_def)
      next
        case False
        then have "tm_childCount t (tn_ID n) \<noteq> 0" using \<open>checks_cycle ti n\<close> chk by simp
        with False k show ?thesis by (intro exI [of _ k]) (simp add: wouldCycle_def)
      qed
      then obtain k where k: "0 \<le> k" "k \<le> c" "wouldCycle t budget (tn_ID n) (tn_Parent n) = Inr (b, tm_steps t + k)" by blast
      let ?t = "t\<lparr>tm_steps := tm_steps t + k\<rparr>"
      have sim': "sim (ti, w + c) ?t" using s k(2) by (simp add: sim_def)
      have "apply_move budget op t = Inr (if b then ?t else place_node ?t op n)"
        using OTree vk p k(3) by (simp add: apply_move_def Let_def)
      moreover have "sim s' (if b then ?t else place_node ?t op n)"
        using sim' sim_set [OF sim' _ n] ok unfolding s' by (simp add: tree_ok_steps)
      ultimately show ?thesis by blast
    qed
  qed
qed (use s r in \<open>auto simp: ti_move_def apply_move_def\<close>)

lemma sim_moves:
  "sim s t \<Longrightarrow> tree_ok t \<Longrightarrow> list_all move_ok ops \<Longrightarrow> ti_moves budget ops s = Inr s' \<Longrightarrow>
    \<exists>t'. apply_moves budget ops t = Inr t' \<and> sim s' t'"
proof (induction budget ops s arbitrary: t rule: ti_moves.induct)
  case (1 budget s)
  then show ?case by simp
next
  case (2 budget op ops s)
  then obtain s1 where s1: "ti_move budget op s = Inr s1" "ti_moves budget ops s1 = Inr s'"
    by (auto simp: bindR_Inr_iff)
  obtain ti w where s: "s = (ti, w)" by fastforce
  obtain t1 where t1: "apply_move budget op t = Inr t1" "sim s1 t1"
    using sim_move [of ti w t op budget s1] "2.prems" s1(1) s by auto
  have "tree_ok t1" using apply_move_ok [OF "2.prems"(2) _ t1(1)] "2.prems"(3) by simp
  with "2.IH" [OF s1(1) t1(2)] "2.prems"(3) s1(2) t1(1) show ?case by simp
qed

lemma sim_empty: "sim (empty_index, 0) empty_tree"
  by (simp add: sim_def empty_index_def empty_tree_def)

lemma node_key_sim: "sim (ti, w) t \<Longrightarrow> x \<in> dom (tm_current t) \<Longrightarrow> node_key ti x = sibling_key t x"
  by (auto simp: sim_def node_key_def sibling_key_def place_key_def tree_place_def place_abs_def Let_def)

lemma ti_parent_sim: "sim (ti, w) t \<Longrightarrow> x \<in> dom (tm_current t) \<Longrightarrow> ti_parent ti x = parent_key t x"
  by (auto simp: sim_def ti_parent_def parent_key_def tree_place_def place_abs_def Let_def)

lemma sort_key_cong: "(\<And>x. x \<in> set xs \<Longrightarrow> f x = g x) \<Longrightarrow> sort_key f xs = sort_key g xs"
proof (induction xs)
  case Nil
  then show ?case by simp
next
  case (Cons a xs)
  have "insort_key f a ys = insort_key g a ys" if "set ys \<subseteq> set xs" for ys
    using that Cons.prems by (induction ys) auto
  with Cons show ?case by simp
qed

lemma linked_kids:
  assumes "sim (ti, w) t" and "tree_ok t" and "p \<noteq> deletedTreeRoot"
  shows "ti_children (ti_link ti) p = kids_of t p"
proof -
  have ids: "ti_ids ti = tm_ids t" "set (tm_ids t) = dom (tm_current t)"
    using assms(1,2) by (simp_all add: sim_def tree_ok_def)
  have "filter (\<lambda>x. ti_parent ti x = p) (tm_ids t) = filter (\<lambda>x. parent_key t x = p) (tm_ids t)"
    using ids ti_parent_sim [OF assms(1)] by (intro filter_cong) auto
  moreover have "sort_key (node_key ti) (filter (\<lambda>x. parent_key t x = p) (tm_ids t)) =
      sort_key (sibling_key t) (filter (\<lambda>x. parent_key t x = p) (tm_ids t))"
    using ids node_key_sim [OF assms(1)] by (intro sort_key_cong) auto
  ultimately show ?thesis using assms(3) ids by (simp add: ti_link_def kids_of_def)
qed

section \<open>Searching the siblings\<close>

lemma tp_before_key: "tp_before a b \<longleftrightarrow> place_key a < place_key b"
  using sint_eq [of "tp_lamport a" "tp_lamport b"] by (auto simp: tp_before_def place_key_def less_le)

lemma tp_compare_key: "tp_compare a b < 0 \<longleftrightarrow> place_key a < place_key b" "tp_compare a b = 0 \<longleftrightarrow> place_key a = place_key b"
  by (auto simp: tp_compare_def tp_before_key)

text \<open>Siblings sorted by their places: the search splits them at the place looked for.\<close>

lemma find_kid_ok:
  assumes s: "sorted (map (\<lambda>x. place_key (place_of t x)) kids)" and f: "find_kid t kids p = (i, found)"
  shows "i \<le> length kids \<and> (\<forall>x\<in>set (take i kids). place_key (place_of t x) < place_key p) \<and>
    (\<forall>x\<in>set (drop i kids). place_key p \<le> place_key (place_of t x)) \<and>
    (found \<longleftrightarrow> i < length kids \<and> place_key (place_of t (kids ! i)) = place_key p)"
proof -
  let ?b = "\<lambda>x. tp_compare (place_of t x) p < 0"
  have i: "i = bsearch ?b kids 0 (length kids)" and fd: "found \<longleftrightarrow> i < length kids \<and> tp_compare (place_of t (kids ! i)) p = 0"
    using f by (auto simp: find_kid_def Let_def)
  have mono: "?b (kids ! a)" if "a \<le> b" "b < length kids" "?b (kids ! b)" for a b
  proof -
    have "place_key (place_of t (kids ! a)) \<le> place_key (place_of t (kids ! b))"
      using sorted_nth_mono [OF s, of a b] that(1,2) by simp
    with that(3) show ?thesis by (simp add: tp_compare_key)
  qed
  have "i \<le> length kids \<and> (\<forall>a<i. ?b (kids ! a)) \<and> (\<forall>a. i \<le> a \<and> a < length kids \<longrightarrow> \<not> ?b (kids ! a))"
    unfolding i by (rule bsearch_bound) (use mono in auto)
  then show ?thesis
    unfolding fd by (auto simp: tp_compare_key in_set_conv_nth not_less)
qed

lemma sort_key_char:
  assumes "distinct R" and "set R = set xs" and "distinct xs" and "sorted (map f R)" and "inj_on f (set xs)"
  shows "sort_key f xs = R"
proof -
  have "mset R = mset xs" using assms(1-3) by (simp add: set_eq_iff_mset_eq_distinct)
  then have "sort_key f R = sort_key f xs" using assms(1,2,5) by (intro sort_key_unique) simp_all
  with assms(4) show ?thesis by (simp add: sort_key_id_if_sorted)
qed

text \<open>Taking a node out of its siblings, and putting one in.\<close>

lemma remove_sorted:
  assumes "sorted (map f xs)" and "distinct xs" and "i < length xs"
  shows "sorted (map f (take i xs @ drop (i + 1) xs)) \<and> distinct (take i xs @ drop (i + 1) xs) \<and>
    set (take i xs @ drop (i + 1) xs) = set xs - {xs ! i}"
proof -
  have xs: "xs = take i xs @ xs ! i # drop (i + 1) xs" using assms(3) by (simp add: id_take_nth_drop)
  define a b x where "a = take i xs" and "b = drop (i + 1) xs" and "x = xs ! i"
  have "xs = a @ x # b" using xs by (simp add: a_def b_def x_def)
  with assms(1,2) have "sorted (map f (a @ b)) \<and> distinct (a @ b) \<and> set (a @ b) = set xs - {x}"
    by (auto simp: sorted_append)
  then show ?thesis by (simp only: a_def b_def x_def)
qed

lemma insert_sorted:
  assumes "sorted (map f xs)" and "distinct xs" and "x \<notin> set xs"
    and "\<forall>y\<in>set (take i xs). f y < f x" and "\<forall>y\<in>set (drop i xs). f x \<le> f y"
  shows "sorted (map f (take i xs @ x # drop i xs)) \<and> distinct (take i xs @ x # drop i xs) \<and>
    set (take i xs @ x # drop i xs) = insert x (set xs)"
proof -
  define a b where "a = take i xs" and "b = drop i xs"
  have "xs = a @ b" by (simp add: a_def b_def)
  with assms show ?thesis
    unfolding a_def [symmetric] b_def [symmetric] by (auto simp: sorted_append intro: order.strict_implies_order)
qed

section \<open>A local op\<close>

lemma ti_link_fields [simp]:
  "ti_nodes (ti_link t) = ti_nodes t" "ti_ids (ti_link t) = ti_ids t" "ti_childCount (ti_link t) = ti_childCount t"
  by (simp_all add: ti_link_def)

lemma ti_unlink_fields [simp]:
  "ti_nodes (ti_unlink t x p) = ti_nodes t" "ti_ids (ti_unlink t x p) = ti_ids t"
  "ti_childCount (ti_unlink t x p) = ti_childCount t"
  by (simp_all add: ti_unlink_def Let_def split: prod.splits)

lemma ti_set_nodes: "ti_nodes (ti_set t x p) = (ti_nodes t)(x \<mapsto> p)"
  by (simp add: ti_set_def Let_def)

text \<open>An index whose lists are right: what \<open>ti_link\<close> makes.\<close>

definition index_ok :: "treeIndex \<Rightarrow> bool" where
  "index_ok t \<longleftrightarrow> distinct (ti_ids t) \<and> set (ti_ids t) = dom (ti_nodes t) \<and> inj_on (node_key t) (set (ti_ids t))"

definition kids_right :: "treeIndex \<Rightarrow> gostring \<Rightarrow> gostring list \<Rightarrow> bool" where
  "kids_right t p R \<longleftrightarrow> distinct R \<and> set R = {x \<in> set (ti_ids t). ti_parent t x = p} \<and> sorted (map (node_key t) R)"

lemma kids_right_link:
  assumes "index_ok t" and "p \<noteq> deletedTreeRoot"
  shows "kids_right t p R \<longleftrightarrow> R = ti_children (ti_link t) p"
proof
  assume "kids_right t p R"
  then have "sort_key (node_key t) (filter (\<lambda>x. ti_parent t x = p) (ti_ids t)) = R"
    using assms(1) by (intro sort_key_char) (auto simp: kids_right_def index_ok_def intro: inj_on_subset)
  then show "R = ti_children (ti_link t) p" using assms(2) by (simp add: ti_link_def)
next
  assume R: "R = ti_children (ti_link t) p"
  show "kids_right t p R"
    using assms by (auto simp: R kids_right_def ti_link_def index_ok_def)
qed

lemma node_key_place: "x \<in> dom (ti_nodes t) \<Longrightarrow> place_key (place_of t x) = node_key t x"
  by (auto simp: node_key_def place_of_def)

lemma find_kid_right:
  assumes ok: "index_ok t" and k: "kids_right t q R" and f: "find_kid t R p = (i, found)"
  shows "i \<le> length R \<and> (\<forall>x\<in>set (take i R). node_key t x < place_key p) \<and>
    (\<forall>x\<in>set (drop i R). place_key p \<le> node_key t x) \<and> (found \<longleftrightarrow> i < length R \<and> node_key t (R ! i) = place_key p)"
proof -
  have nk: "place_key (place_of t x) = node_key t x" if "x \<in> set R" for x
    using that k ok by (intro node_key_place) (auto simp: kids_right_def index_ok_def)
  then have m: "map (\<lambda>x. place_key (place_of t x)) R = map (node_key t) R" by simp
  have "sorted (map (\<lambda>x. place_key (place_of t x)) R)" unfolding m using k by (simp add: kids_right_def)
  note fk = find_kid_ok [OF this f]
  have "\<forall>x\<in>set (take i R). node_key t x < place_key p" using fk nk by (metis in_set_takeD)
  moreover have "\<forall>x\<in>set (drop i R). place_key p \<le> node_key t x" using fk nk by (metis in_set_dropD)
  ultimately show ?thesis using fk nk [OF nth_mem, of i] by auto
qed

lemma filter_neq: "x \<notin> set xs \<Longrightarrow> filter (\<lambda>y. y \<noteq> x) xs = xs"
  by (induction xs) auto

lemma unlink_kids:
  assumes ok: "index_ok t" and x: "ti_nodes t x = Some old" and p: "p \<noteq> deletedTreeRoot"
  shows "ti_children (ti_unlink (ti_link t) x old) p = (let R = ti_children (ti_link t) p in filter (\<lambda>y. y \<noteq> x) R)"
proof -
  define R where "R = ti_children (ti_link t) (tp_parent old)"
  have other: "filter (\<lambda>y. y \<noteq> x) (ti_children (ti_link t) p) = ti_children (ti_link t) p" if "p \<noteq> tp_parent old"
  proof (rule filter_True)
    have "kids_right t p (ti_children (ti_link t) p)" using kids_right_link [OF ok p] by blast
    then show "\<forall>y\<in>set (ti_children (ti_link t) p). y \<noteq> x" using that x by (auto simp: kids_right_def ti_parent_def)
  qed
  show ?thesis
  proof (cases "tp_parent old = deletedTreeRoot")
    case True
    then show ?thesis using p other by (simp add: ti_unlink_def)
  next
    case False
    have k: "kids_right t (tp_parent old) R" unfolding R_def using kids_right_link [OF ok False] by blast
    obtain i found where f: "find_kid t R old = (i, found)" by fastforce
    have fl: "find_kid (ti_link t) R old = find_kid t R old" by (simp add: find_kid_def place_of_def)
    note fk = find_kid_right [OF ok k f]
    have xk: "node_key t x = place_key old" using x by (simp add: node_key_def)
    have "x \<in> set R" using k x ok by (auto simp: kids_right_def ti_parent_def index_ok_def)
    moreover have "x \<notin> set (take i R)" using fk xk by auto
    ultimately have xd: "x \<in> set (drop i R)" by (metis Un_iff append_take_drop_id set_append)
    then have i: "i < length R" by (cases "i < length R") simp_all
    have "node_key t (R ! i) \<le> node_key t x"
    proof -
      obtain j where "j < length (drop i R)" "drop i R ! j = x" using xd by (metis in_set_conv_nth)
      then show ?thesis using k sorted_nth_mono [of "map (node_key t) R" i "i + j"] by (simp add: kids_right_def)
    qed
    moreover have "place_key old \<le> node_key t (R ! i)" using fk i by (metis Cons_nth_drop_Suc list.set_intros(1))
    ultimately have eq: "node_key t (R ! i) = node_key t x" using xk by simp
    have "R ! i = x"
      by (rule inj_onD [of "node_key t" "set (ti_ids t)"]) (use ok eq k i nth_mem [OF i] x in \<open>auto simp: index_ok_def kids_right_def\<close>)
    moreover have "found" using fk i eq xk by simp
    ultimately have u: "ti_children (ti_unlink (ti_link t) x old) =
        (ti_children (ti_link t))(tp_parent old := take i R @ drop (i + 1) R)"
      using False f fl by (simp add: ti_unlink_def R_def Let_def)
    have xs: "R = take i R @ x # drop (i + 1) R" using i \<open>R ! i = x\<close> by (metis Suc_eq_plus1 id_take_nth_drop)
    have "distinct R" using k by (simp add: kids_right_def)
    then have "x \<notin> set (take i R)" "x \<notin> set (drop (i + 1) R)" using xs by (metis distinct.simps(2) distinct_append not_distinct_conv_prefix)+
    then have "filter (\<lambda>y. y \<noteq> x) (take i R @ x # drop (i + 1) R) = take i R @ drop (i + 1) R"
      by (simp add: filter_neq)
    then have "filter (\<lambda>y. y \<noteq> x) R = take i R @ drop (i + 1) R" using xs by metis
    then show ?thesis using u other by (simp add: R_def)
  qed
qed

lemma node_key_set: "y \<noteq> x \<Longrightarrow> node_key (ti_set t x p) y = node_key t y"
  by (simp add: node_key_def ti_set_nodes)

lemma ti_parent_set: "ti_parent (ti_set t x p) y = (if y = x then tp_parent p else ti_parent t y)"
  by (simp add: ti_parent_def ti_set_nodes)

lemma ti_ids_set: "index_ok t \<Longrightarrow> set (ti_ids (ti_set t x p)) = insert x (set (ti_ids t))"
  by (auto simp: ti_set_def Let_def index_ok_def)

text \<open>Linking the node at the place found, after taking it out of its old siblings.\<close>

lemma place_local:
  assumes ok: "index_ok t" and ok': "index_ok (ti_set t x p)" and q: "q \<noteq> deletedTreeRoot"
  defines "t' \<equiv> ti_set t x p" and "K \<equiv> filter (\<lambda>y. y \<noteq> x) (ti_children (ti_link t) q)"
  shows "kids_right t' q (if q = tp_parent p then (let i = fst (find_kid t' K p) in take i K @ x # drop i K) else K)"
proof -
  have R: "kids_right t q (ti_children (ti_link t) q)" using kids_right_link [OF ok q] by blast
  have K: "distinct K" "set K = {y \<in> set (ti_ids t). ti_parent t y = q} - {x}" "sorted (map (node_key t) K)"
    using R unfolding K_def kids_right_def by (auto simp: sorted_filter)
  have nk: "node_key t' y = node_key t y" if "y \<in> set K" for y
    using that K(2) by (auto simp: t'_def node_key_set)
  then have m': "map (node_key t') K = map (node_key t) K" by simp
  have s': "sorted (map (node_key t') K)" unfolding m' by (rule K(3))
  have ids: "set (ti_ids t') = insert x (set (ti_ids t))" unfolding t'_def by (rule ti_ids_set [OF ok])
  show ?thesis
  proof (cases "q = tp_parent p")
    case False
    have "{y \<in> set (ti_ids t'). ti_parent t' y = q} = set K"
      using False K(2) ids by (auto simp: t'_def ti_parent_set)
    then show ?thesis using False K(1) s' by (simp add: kids_right_def)
  next
    case True
    obtain i found where f: "find_kid t' K p = (i, found)" by fastforce
    have pk: "place_key (place_of t' y) = node_key t' y" if "y \<in> set K" for y
      by (rule node_key_place) (use that K(2) ok' ids in \<open>auto simp: t'_def index_ok_def\<close>)
    then have m: "map (\<lambda>y. place_key (place_of t' y)) K = map (node_key t') K" by simp
    have "sorted (map (\<lambda>y. place_key (place_of t' y)) K)" unfolding m by (rule s')
    note fk = find_kid_ok [OF this f]
    have xk: "node_key t' x = place_key p" by (simp add: t'_def node_key_def ti_set_nodes)
    have "sorted (map (node_key t') (take i K @ x # drop i K)) \<and> distinct (take i K @ x # drop i K) \<and>
        set (take i K @ x # drop i K) = insert x (set K)"
    proof (rule insert_sorted [OF s' K(1)])
      show "x \<notin> set K" using K(2) by simp
      show "\<forall>y\<in>set (take i K). node_key t' y < node_key t' x" using fk pk xk by (metis in_set_takeD)
      show "\<forall>y\<in>set (drop i K). node_key t' x \<le> node_key t' y" using fk pk xk by (metis in_set_dropD)
    qed
    moreover have "insert x (set K) = {y \<in> set (ti_ids t'). ti_parent t' y = q}"
      using True K(2) ids by (auto simp: t'_def ti_parent_set)
    ultimately show ?thesis using True f by (simp add: kids_right_def Let_def)
  qed
qed

lemma index_ok_sim:
  assumes "sim (ti, w) t" and "tree_ok t" and "\<exists>S. stamps_ok S t"
  shows "index_ok ti"
proof -
  have ids: "ti_ids ti = tm_ids t" "distinct (tm_ids t)" "set (tm_ids t) = dom (tm_current t)"
    and n: "ti_nodes ti = (\<lambda>x. map_option place_abs (tm_current t x))"
    using assms(1,2) by (simp_all add: sim_def tree_ok_def)
  have "inj_on (sibling_key t) (dom (tm_current t))"
    using assms(3) by (auto simp: stamps_ok_def inj_on_def sibling_key_def Let_def sint_eq)
  then have "inj_on (node_key ti) (dom (tm_current t))"
    using node_key_sim [OF assms(1)] by (simp add: inj_on_def)
  moreover have "dom (ti_nodes ti) = dom (tm_current t)" unfolding n by auto
  ultimately show ?thesis using ids by (simp add: index_ok_def)
qed

lemma no_deleted_children: "ti_children (ti_link t) deletedTreeRoot = []"
  by (simp add: ti_link_def)

lemma ti_children_ext:
  "\<lparr>ti_nodes = a, ti_ids = b, ti_children = c, ti_childCount = d\<rparr> = t \<longleftrightarrow>
    ti_nodes t = a \<and> ti_ids t = b \<and> ti_children t = c \<and> ti_childCount t = d"
  by (cases t) auto

lemma applyLocal_links:
  assumes ok: "index_ok t" and ok': "index_ok (ti_set t (tn_ID n) (ti_place op n))"
    and op: "op_Value op = OTree n" "op_VKind op = VKRawTreeMove"
    and free: "\<not> (checks_cycle t n \<and> fst (isAncestor t (tn_ID n) (treeParentOf n)))"
  shows "applyLocal (ti_link t) op = ti_link (ti_set t (tn_ID n) (ti_place op n))"
proof -
  let ?x = "tn_ID n" and ?p = "ti_place op n"
  let ?t1 = "case ti_nodes t ?x of None \<Rightarrow> ti_link t | Some old \<Rightarrow> ti_unlink (ti_link t) ?x old"
  let ?t2 = "ti_set ?t1 ?x ?p" and ?t' = "ti_set t ?x ?p"
  have par: "treeParentOf n = tp_parent ?p" by (simp add: ti_place_def)
  have free': "\<not> (checks_cycle (ti_link t) n \<and> fst (isAncestor (ti_link t) ?x (treeParentOf n)))"
    using free by (simp add: checks_cycle_def isAncestor_def)
  have kids1: "ti_children ?t1 q = filter (\<lambda>y. y \<noteq> ?x) (ti_children (ti_link t) q)" if "q \<noteq> deletedTreeRoot" for q
  proof (cases "ti_nodes t ?x")
    case None
    have "kids_right t q (ti_children (ti_link t) q)" using kids_right_link [OF ok that] by blast
    then have "?x \<notin> set (ti_children (ti_link t) q)" using None ok by (auto simp: kids_right_def index_ok_def)
    then show ?thesis using None by (simp add: filter_neq)
  next
    case (Some old)
    then show ?thesis using unlink_kids [OF ok Some that] by (simp add: Let_def)
  qed
  have del1: "ti_children ?t1 deletedTreeRoot = []"
    by (auto simp: no_deleted_children ti_unlink_def Let_def split: option.splits prod.splits)
  have fields: "ti_nodes ?t2 = ti_nodes ?t'" "ti_ids ?t2 = ti_ids ?t'" "ti_childCount ?t2 = ti_childCount ?t'"
    "ti_children ?t2 = ti_children ?t1"
    by (auto simp: ti_set_def Let_def split: option.splits)
  have fk: "find_kid ?t2 K p = find_kid ?t' K p" for K p
    unfolding find_kid_def place_of_def fields ..
  define C where "C = (if tp_parent ?p = deletedTreeRoot then ti_children ?t1
      else (ti_children ?t1)(tp_parent ?p := (let K = ti_children ?t1 (tp_parent ?p); i = fst (find_kid ?t' K ?p) in
        take i K @ ?x # drop i K)))"
  have app: "applyLocal (ti_link t) op = ?t2\<lparr>ti_children := C\<rparr>"
  proof -
    have "applyLocal (ti_link t) op = (if treeParentOf n = deletedTreeRoot then ?t2
        else let kids = ti_children ?t2 (treeParentOf n); i = fst (find_kid ?t2 kids ?p) in
          ?t2\<lparr>ti_children := (ti_children ?t2)(treeParentOf n := take i kids @ ?x # drop i kids)\<rparr>)"
      unfolding applyLocal_def using op free' by (simp only: opval.case if_not_P simp_thms ti_link_fields Let_def)
    also have "\<dots> = ?t2\<lparr>ti_children := C\<rparr>"
    proof (cases "tp_parent ?p = deletedTreeRoot")
      case True
      have "?t2 = ?t2\<lparr>ti_children := ti_children ?t2\<rparr>" by simp
      then show ?thesis using True by (simp only: par C_def fields simp_thms if_True)
    next
      case False
      then show ?thesis by (simp only: par C_def fk fields simp_thms if_False Let_def)
    qed
    finally show ?thesis .
  qed
  have "C q = ti_children (ti_link ?t') q" for q
  proof (cases "q = deletedTreeRoot")
    case True
    then show ?thesis using del1 by (simp add: C_def no_deleted_children)
  next
    case False
    have "kids_right ?t' q (C q)"
      using place_local [OF ok ok' False] kids1 [OF False] False by (auto simp: C_def Let_def)
    with kids_right_link [OF ok' False] show ?thesis by blast
  qed
  then have "C = ti_children (ti_link ?t')" by (rule ext)
  then show ?thesis unfolding app using fields by (simp add: ti_link_def)
qed

lemma applyLocal_skips:
  assumes "checks_cycle t n \<and> fst (isAncestor t (tn_ID n) (treeParentOf n))" and "op_Value op = OTree n"
  shows "applyLocal (ti_link t) op = ti_link t"
  using assms by (simp add: applyLocal_def checks_cycle_def isAncestor_def)

lemma ti_move_budget: "ti_move b op s = Inr s' \<Longrightarrow> b \<le> b' \<Longrightarrow> ti_move b' op s = Inr s'"
  by (auto simp: ti_move_def split: opval.splits prod.splits if_splits)

lemma ti_moves_budget: "ti_moves b ops s = Inr s' \<Longrightarrow> b \<le> b' \<Longrightarrow> ti_moves b' ops s = Inr s'"
  by (induction b ops s rule: ti_moves.induct) (auto simp: bindR_Inr_iff intro: ti_move_budget)

lemma ti_moves_append: "ti_moves b (xs @ ys) s = bindR (ti_moves b xs s) (ti_moves b ys)"
proof (induction xs arbitrary: s)
  case (Cons x xs)
  then have "ti_moves b (xs @ ys) = (\<lambda>s. bindR (ti_moves b xs s) (ti_moves b ys))" by blast
  then show ?case by (simp add: bindR_assoc)
qed simp

lemma sortedOps_newest:
  assumes "\<forall>q\<in>set ops. sless (op_Lamport q) (op_Lamport op)"
    and "distinct (map (\<lambda>op. (op_Lamport op, op_Peer op)) (ops @ [op]))"
  shows "sortedOps (ops @ [op]) = sortedOps ops @ [op]"
  unfolding sortedOps_def
proof (rule sort_key_char)
  let ?k = "\<lambda>op. (sint (op_Lamport op), op_Peer op, sint (op_Counter op))"
  have i: "inj_on (\<lambda>op. (op_Lamport op, op_Peer op)) (set (ops @ [op]))" and d: "distinct (ops @ [op])"
    using assms(2) by (simp_all only: distinct_map)
  show "inj_on ?k (set (ops @ [op]))" using i by (auto simp: inj_on_def sint_eq)
  show "distinct (ops @ [op])" by (rule d)
  show "distinct (sort_key ?k ops @ [op])" using d by simp
  show "sorted (map ?k (sort_key ?k ops @ [op]))" using assms(1) by (auto simp: sorted_append)
qed simp

lemma index_merge:
  assumes "list_all move_ok ops" and "distinct (map (\<lambda>op. (op_Lamport op, op_Peer op)) ops)"
    and "ti_moves (tree_budget ops) (sortedOps ops) (empty_index, 0) = Inr (ti, w)"
  shows "\<exists>t. merge_moves ops = Inr t \<and> tree_ok t \<and> sim (ti, w) t \<and> index_ok ti"
proof -
  have "list_all move_ok (sortedOps ops)" using assms(1) by (simp add: sortedOps_def list_all_iff)
  from sim_moves [OF sim_empty empty_tree_ok this assms(3)] obtain t where
    t: "merge_moves ops = Inr t" "sim (ti, w) t" by (auto simp: merge_moves_def)
  have ok: "tree_ok t" by (rule merge_moves_ok [OF assms(1) t(1)])
  have "\<exists>S. stamps_ok S t" by (rule merge_moves_stamps [OF assms(2) t(1)])
  from index_ok_sim [OF t(2) ok this] t ok show ?thesis by blast
qed

text \<open>C18: The index of a tree refines the merge, however it came about. Built from the ops, it has
  the placements that merging them gives, and below every parent that is not deleted the
  children that the merge shows there, in the same order. A local op, newer than every op
  merged, only unlinks and links one node by binary search; the index is then exactly the one
  that building it anew from all the ops gives.\<close>

theorem tree_index_refines_merge:
  assumes ok: "list_all move_ok (ops @ [op])" and st: "distinct (map (\<lambda>op. (op_Lamport op, op_Peer op)) (ops @ [op]))"
    and new: "\<forall>q\<in>set ops. sless (op_Lamport q) (op_Lamport op)"
    and ti: "tree_index ops = Inr ti" and ti': "tree_index (ops @ [op]) = Inr ti'"
  shows "applyLocal ti op = ti' \<and>
    (\<exists>t. merge_moves (ops @ [op]) = Inr t \<and> (\<forall>x. ti_nodes ti' x = map_option place_abs (tm_current t x)) \<and>
      (\<forall>p. p \<noteq> deletedTreeRoot \<longrightarrow> ti_children ti' p = kids_of t p))"
proof -
  obtain t0 w0 where t0: "ti_moves (tree_budget ops) (sortedOps ops) (empty_index, 0) = Inr (t0, w0)" "ti = ti_link t0"
    using ti by (auto simp: tree_index_def bindR_Inr_iff)
  obtain t1 w1 where t1: "ti_moves (tree_budget (ops @ [op])) (sortedOps (ops @ [op])) (empty_index, 0) = Inr (t1, w1)"
      "ti' = ti_link t1"
    using ti' by (auto simp: tree_index_def bindR_Inr_iff)
  have ok0: "list_all move_ok ops" and st0: "distinct (map (\<lambda>op. (op_Lamport op, op_Peer op)) ops)"
    using ok st by simp_all
  from index_merge [OF ok0 st0 t0(1)] have i0: "index_ok t0" by blast
  from index_merge [OF ok st t1(1)] obtain t where t: "merge_moves (ops @ [op]) = Inr t" "tree_ok t" "sim (t1, w1) t"
    and i1: "index_ok t1" by blast
  have "tree_budget ops \<le> tree_budget (ops @ [op])" by (simp add: tree_budget_def treeWalkPerMove_def)
  from ti_moves_budget [OF t0(1) this] t1(1)
  have mv: "ti_move (tree_budget (ops @ [op])) op (t0, w0) = Inr (t1, w1)"
    by (auto simp: sortedOps_newest [OF new st] ti_moves_append bindR_Inr_iff)
  have "applyLocal (ti_link t0) op = ti_link t1"
  proof (cases "op_Value op")
    case (OTree n)
    show ?thesis
    proof (cases "op_VKind op = VKRawTreeMove")
      case False
      then show ?thesis using mv OTree by (simp add: ti_move_def applyLocal_def)
    next
      case vk: True
      show ?thesis
      proof (cases "checks_cycle t0 n \<and> fst (isAncestor t0 (tn_ID n) (treeParentOf n))")
        case True
        then have "t1 = t0" using mv OTree vk by (auto simp: ti_move_def split: prod.splits if_splits)
        with applyLocal_skips [OF True OTree] show ?thesis by simp
      next
        case False
        then have e: "t1 = ti_set t0 (tn_ID n) (ti_place op n)"
          using mv OTree vk by (auto simp: ti_move_def split: prod.splits if_splits)
        from applyLocal_links [OF i0 i1 [unfolded e] OTree vk False] show ?thesis unfolding e .
      qed
    qed
  qed (use mv in \<open>simp_all add: ti_move_def applyLocal_def\<close>)
  moreover have "ti_nodes ti' x = map_option place_abs (tm_current t x)" for x
    using t(3) t1(2) by (simp add: sim_def)
  moreover have "ti_children ti' p = kids_of t p" if "p \<noteq> deletedTreeRoot" for p
    unfolding t1(2) by (rule linked_kids [OF t(3,2) that])
  ultimately show ?thesis using t(1) t0(2) t1(2) by blast
qed

definition local_move :: Op where
  "local_move = tree_op 3 7 [67] (Some [66])"

lemma crossing_index:
  "map_sum (\<lambda>_. ()) (\<lambda>t. (ti_children t [66], ti_children t [])) (tree_index crossing) = Inr ([[65]], [[66]])"
  "map_sum (\<lambda>_. ()) (\<lambda>t. (ti_children t [66], ti_children t [])) (tree_index (crossing @ [local_move])) = Inr ([[65], [67]], [[66]])"
  by code_simp+

lemma tree_index_refines_merge_witness:
  "\<exists>ti ti'. tree_index crossing = Inr ti \<and> tree_index (crossing @ [local_move]) = Inr ti' \<and>
    applyLocal ti local_move = ti' \<and> ti_children ti' [66] = [[65], [67]]"
proof -
  obtain ti where ti: "tree_index crossing = Inr ti"
    using crossing_index(1) by (auto simp: map_sum_def split: sum.splits)
  obtain ti' where ti': "tree_index (crossing @ [local_move]) = Inr ti'" "ti_children ti' [66] = [[65], [67]]"
    using crossing_index(2) by (auto simp: map_sum_def split: sum.splits)
  have "list_all move_ok (crossing @ [local_move])" by code_simp
  moreover have "distinct (map (\<lambda>op. (op_Lamport op, op_Peer op)) (crossing @ [local_move]))" by code_simp
  moreover have "\<forall>q\<in>set crossing. sless (op_Lamport q) (op_Lamport local_move)" by code_simp
  ultimately have "applyLocal ti local_move = ti'"
    using tree_index_refines_merge [of crossing local_move ti ti'] ti ti' by blast
  with ti ti' show ?thesis by blast
qed

end
