(* ===== verification/TreeEdit.thy ===== *)
theory TreeEdit
  imports TreeIndex
begin

text \<open>
  Where an edit puts a tree node (\<open>positions\<close> of \<open>loro/tree.go\<close>): the fractional indexes for a
  node that becomes child number \<open>index\<close> of a parent, and for the siblings that have to move
  with it because they share one index. Test hooks are off.
\<close>

text \<open>\<open>b, _ := hex.DecodeString(s)\<close>: the bytes before the first error.\<close>

fun hex_bytes :: "gostring \<Rightarrow> bytes" where
  "hex_bytes (c # d # s) =
     (case (hex_value c, hex_value d) of
        (Some a, Some b) \<Rightarrow> of_nat (16 * a + b) # hex_bytes s
      | _ \<Rightarrow> [])"
| "hex_bytes _ = []"

definition fiOf :: "treeIndex \<Rightarrow> gostring \<Rightarrow> bytes" where
  "fiOf t x = (case ti_nodes t x of Some p \<Rightarrow> hex_bytes (tp_fi p) | None \<Rightarrow> [])"

text \<open>The children without \<open>target\<close>, read in place: \<open>skip\<close> is its index, -1 when not found.\<close>

definition skip_of :: "treeIndex \<Rightarrow> gostring \<Rightarrow> gostring \<Rightarrow> int" where
  "skip_of t target parent =
     (case ti_nodes t target of
        Some p \<Rightarrow> if tp_parent p = parent then (case indexOf t target of Some i \<Rightarrow> int i | None \<Rightarrow> - 1)
                 else int (length (ti_children t parent))
      | None \<Rightarrow> int (length (ti_children t parent)))"

definition kid :: "gostring list \<Rightarrow> int \<Rightarrow> nat \<Rightarrow> gostring" where
  "kid all skip i = all ! (if int i \<ge> skip then i + 1 else i)"

text \<open>The loop over the siblings that share the left index: those reset, and the next index.\<close>

function same_run :: "(nat \<Rightarrow> gostring) \<Rightarrow> (nat \<Rightarrow> bytes) \<Rightarrow> bytes \<Rightarrow> nat \<Rightarrow> nat \<Rightarrow> gostring list \<times> bytes option" where
  "same_run kd fi left n i =
     (if i < n then
        (if fi i = left then (case same_run kd fi left n (i + 1) of (rs, nxt) \<Rightarrow> (kd i # rs, nxt))
         else ([], Some (fi i)))
      else ([], None))"
  by pat_completeness auto
termination by (relation "measure (\<lambda>(_, _, _, n, i). n - i)") auto

declare same_run.simps [simp del]

definition tree_positions :: "treeIndex \<Rightarrow> gostring \<Rightarrow> gostring \<Rightarrow> nat \<Rightarrow> (gostring list \<times> bytes list) option" where
  "tree_positions t target parent index =
     (let all = ti_children t parent; skip = skip_of t target parent;
          n = (if skip < int (length all) then length all - 1 else length all);
          kd = kid all skip in
      if n = 0 then Some ([target], [[fiTerminator]])
      else
        let left = (if index > 0 then Some (fiOf t (kd (index - 1))) else None);
            right = (if index < n then Some (fiOf t (kd index)) else None) in
        if left \<noteq> None \<and> right \<noteq> None \<and> left = right then
          (case same_run kd (\<lambda>i. fiOf t (kd i)) (the left) n (index + 1) of (rs, nxt) \<Rightarrow>
            let reset = target # kd index # rs in
            map_option (Pair reset) (fiEvenly left nxt (length reset)))
        else map_option (\<lambda>fi. ([target], [fi])) (fiNew left right))"

section \<open>The node lands where asked\<close>

text \<open>The other children, and their indexes.\<close>

definition others :: "treeIndex \<Rightarrow> gostring \<Rightarrow> gostring \<Rightarrow> gostring list" where
  "others t target parent = filter (\<lambda>x. x \<noteq> target) (ti_children t parent)"

lemma hex_bytes_upper [simp]: "hex_bytes (hex_upper b) = b"
proof (induction b)
  case (Cons c b)
  have c: "unat c < 256" using unsigned_less [of c] by simp
  then have h: "unat c div 16 < 16" by simp
  have "of_nat (16 * (unat c div 16) + unat c mod 16) = c" by simp
  with Cons show ?case by (simp add: hex_upper_def hex_value_digit [OF h] hex_value_digit del: of_nat_add)
qed (simp add: hex_upper_def)

text \<open>A tree all of whose indexes are made by this crate.\<close>

definition indexes_ok :: "treeIndex \<Rightarrow> bool" where
  "indexes_ok t \<longleftrightarrow> (\<forall>x p. ti_nodes t x = Some p \<longrightarrow> (\<exists>b. fi_ok b \<and> tp_fi p = hex_upper b))"

lemma fiOf_ok:
  assumes "indexes_ok t" and "ti_nodes t x = Some p"
  shows "fi_ok (fiOf t x)" and "tp_fi p = hex_upper (fiOf t x)"
proof -
  obtain b where "fi_ok b" "tp_fi p = hex_upper b" using assms by (auto simp: indexes_ok_def)
  with assms(2) show "fi_ok (fiOf t x)" "tp_fi p = hex_upper (fiOf t x)" by (simp_all add: fiOf_def)
qed

lemma kids_fi_sorted:
  assumes "indexes_ok t" and "kids_right t p R" and "index_ok t"
  shows "sorted (map (fiOf t) R)"
proof -
  have "sorted (map (node_key t) R)" using assms(2) by (simp add: kids_right_def)
  then have "sorted_wrt (\<lambda>x y. node_key t x \<le> node_key t y) R" by (simp add: sorted_map)
  moreover have "fiOf t x \<le> fiOf t y" if xy: "x \<in> set R" "y \<in> set R" "node_key t x \<le> node_key t y" for x y
  proof -
    obtain p q where pq: "ti_nodes t x = Some p" "ti_nodes t y = Some q"
      using xy(1,2) assms(2,3) by (auto simp: kids_right_def index_ok_def)
    have "tp_fi p \<le> tp_fi q" using xy(3) pq by (auto simp: node_key_def place_key_def)
    then have "\<not> hex_upper (fiOf t y) < hex_upper (fiOf t x)"
      using fiOf_ok [OF assms(1)] pq by (simp add: not_less)
    then show ?thesis by (simp add: hex_upper_less_iff not_less)
  qed
  ultimately show ?thesis
    by (metis (mono_tags, lifting) sorted_map sorted_wrt_mono_rel)
qed

text \<open>Reading in place is reading the other children.\<close>

lemma others_nth:
  fixes target parent :: gostring
  assumes ok: "index_ok t" and p: "parent \<noteq> deletedTreeRoot" and k: "kids_right t parent (ti_children t parent)"
  defines "all \<equiv> ti_children t parent" and "skip \<equiv> skip_of t target parent"
  shows "(if skip < int (length all) then length all - 1 else length all) = length (others t target parent)"
    and "i < length (others t target parent) \<Longrightarrow> kid all skip i = others t target parent ! i"
proof -
  have d: "distinct all" using k by (simp add: kids_right_def all_def)
  have *: "(if skip < int (length all) then length all - 1 else length all) = length (others t target parent) \<and>
    (\<forall>i < length (others t target parent). kid all skip i = others t target parent ! i)"
  proof (cases "target \<in> set all")
    case False
    have "skip = int (length all)"
      using False k ok by (auto simp: skip_def skip_of_def all_def kids_right_def index_ok_def ti_parent_def split: option.splits)
    then show ?thesis using False by (simp add: others_def all_def [symmetric] filter_neq kid_def)
  next
    case True
    then obtain q where q: "ti_nodes t target = Some q" "tp_parent q = parent"
      using k ok by (auto simp: all_def kids_right_def index_ok_def ti_parent_def)
    obtain i found where f: "find_kid t all q = (i, found)" by fastforce
    note fk = find_kid_right [OF ok k [folded all_def] f]
    have key: "node_key t target = place_key q" using q(1) by (simp add: node_key_def)
    have "target \<notin> set (take i all)" using fk key by auto
    with True have td: "target \<in> set (drop i all)" by (metis Un_iff append_take_drop_id set_append)
    then have i: "i < length all" by (cases "i < length all") simp_all
    obtain j where j: "j < length (drop i all)" "drop i all ! j = target" using td by (metis in_set_conv_nth)
    have "node_key t (all ! i) \<le> node_key t target"
      using k j sorted_nth_mono [of "map (node_key t) all" i "i + j"] by (simp add: kids_right_def all_def)
    moreover have "place_key q \<le> node_key t (all ! i)" using fk i by (metis Cons_nth_drop_Suc list.set_intros(1))
    ultimately have eq: "node_key t (all ! i) = node_key t target" using key by simp
    have "all ! i = target"
      by (rule inj_onD [of "node_key t" "set (ti_ids t)"])
        (use ok eq k i nth_mem [OF i] q in \<open>auto simp: index_ok_def kids_right_def all_def\<close>)
    have "found" using fk i eq key by simp
    then have "skip = int i" using q p f by (simp add: skip_def skip_of_def indexOf_def all_def [symmetric])
    have xs: "all = take i all @ target # drop (i + 1) all"
      using i \<open>all ! i = target\<close> by (metis Suc_eq_plus1 id_take_nth_drop)
    with d have n: "target \<notin> set (take i all)" "target \<notin> set (drop (i + 1) all)"
      by (metis distinct.simps(2) distinct_append not_distinct_conv_prefix)+
    have "others t target parent = filter (\<lambda>x. x \<noteq> target) (take i all @ target # drop (i + 1) all)"
      using xs by (metis all_def others_def)
    also have "\<dots> = take i all @ drop (i + 1) all" using n by (simp add: filter_neq)
    finally have ot: "others t target parent = take i all @ drop (i + 1) all" .
    then show ?thesis
      using \<open>skip = int i\<close> i by (auto simp: kid_def nth_append min_def)
  qed
  then show "(if skip < int (length all) then length all - 1 else length all) = length (others t target parent)"
    and "i < length (others t target parent) \<Longrightarrow> kid all skip i = others t target parent ! i" by blast+
qed

lemma same_run_meaning:
  assumes "same_run kd fi left n i = (rs, nxt)" and "i \<le> n"
  shows "\<exists>m. i + m \<le> n \<and> rs = map kd [i..<i + m] \<and>
    (case nxt of None \<Rightarrow> i + m = n | Some b \<Rightarrow> i + m < n \<and> b = fi (i + m) \<and> b \<noteq> left)"
  using assms
proof (induction kd fi left n i arbitrary: rs nxt rule: same_run.induct)
  case (1 kd fi left n i)
  show ?case
  proof (cases "i < n \<and> fi i = left")
    case True
    obtain rs' nxt' where r: "same_run kd fi left n (i + 1) = (rs', nxt')" by fastforce
    from 1(1) [OF _ _ r] True obtain m where m: "i + 1 + m \<le> n" "rs' = map kd [i + 1..<i + 1 + m]"
      "case nxt' of None \<Rightarrow> i + 1 + m = n | Some b \<Rightarrow> i + 1 + m < n \<and> b = fi (i + 1 + m) \<and> b \<noteq> left" by auto
    have "rs = kd i # rs'" "nxt = nxt'" using 1(2) True r by (simp_all add: same_run.simps [of _ _ _ _ i])
    moreover have "[i..<i + (m + 1)] = i # [i + 1..<i + 1 + m]" by (simp add: upt_conv_Cons del: upt_Suc)
    ultimately show ?thesis
      using m by (intro exI [of _ "m + 1"]) (simp del: upt_Suc split: option.splits)
  next
    case False
    with 1(2,3) show ?thesis
      by (intro exI [of _ 0]) (auto simp: same_run.simps [of _ _ _ _ i] split: if_splits)
  qed
qed

text \<open>What the node may be given: the slot between the neighbours it is to have.\<close>

definition lands_at :: "treeIndex \<Rightarrow> gostring list \<Rightarrow> nat \<Rightarrow> nat \<Rightarrow> bytes list \<Rightarrow> bool" where
  "lands_at t os index m fis \<longleftrightarrow> index + m \<le> length os \<and> length fis = m + 1 \<and> sorted_wrt (<) fis \<and>
     (\<forall>f\<in>set fis. fi_ok f \<and> (\<forall>x\<in>set (take index os). fiOf t x < f) \<and> (\<forall>x\<in>set (drop (index + m) os). f < fiOf t x))"

lemma gap_lands:
  assumes s: "sorted (map (fiOf t) os)" and i: "index + m \<le> length os"
    and lo: "lower = (if 0 < index then Some (fiOf t (os ! (index - 1))) else None)"
    and up: "upper = (if index + m < length os then Some (fiOf t (os ! (index + m))) else None)"
    and f: "length fis = m + 1" "sorted_wrt (<) fis" "\<forall>b\<in>set fis. fi_ok b \<and> in_gap lower upper b"
  shows "lands_at t os index m fis"
proof -
  have "fiOf t x < b" if b: "b \<in> set fis" and x: "x \<in> set (take index os)" for b x
  proof -
    obtain j where j: "j < index" "x = os ! j" "j < length os" using x by (auto simp: in_set_conv_nth)
    have "fiOf t x \<le> fiOf t (os ! (index - 1))"
      using sorted_nth_mono [OF s, of j "index - 1"] j i by simp
    with b f(3) lo j(1) show ?thesis by (auto simp: in_gap_def)
  qed
  moreover have "b < fiOf t x" if b: "b \<in> set fis" and x: "x \<in> set (drop (index + m) os)" for b x
  proof -
    obtain j where j: "index + m + j < length os" "x = os ! (index + m + j)"
    proof -
      obtain j where "j < length (drop (index + m) os)" "x = drop (index + m) os ! j"
        using x by (metis in_set_conv_nth)
      then show thesis using i by (intro that [of j]) simp_all
    qed
    have "fiOf t (os ! (index + m)) \<le> fiOf t x"
      using sorted_nth_mono [OF s, of "index + m" "index + m + j"] j by simp
    with b f(3) up j(1) show ?thesis by (auto simp: in_gap_def)
  qed
  ultimately show ?thesis using i f by (simp add: lands_at_def)
qed

text \<open>C19: Asked for child number \<open>index\<close> of a parent, \<open>positions\<close> always finds indexes, whatever
  siblings share theirs: the node's own and those of the siblings right after it that have to
  move are strictly ascending, above every sibling before \<open>index\<close> and below every sibling after
  the ones that move. So the node ends up exactly there, in the siblings' order.\<close>

theorem positions_land:
  assumes ok: "index_ok t" and p: "parent \<noteq> deletedTreeRoot"
    and k: "kids_right t parent (ti_children t parent)" and fi: "indexes_ok t"
    and i: "index \<le> length (others t target parent)"
  shows "\<exists>m fis. tree_positions t target parent index =
      Some (target # take m (drop index (others t target parent)), fis) \<and>
    lands_at t (others t target parent) index m fis"
proof -
  define os where "os = others t target parent"
  define kd where "kd = kid (ti_children t parent) (skip_of t target parent)"
  note len = others_nth(1) [OF ok p k, of target, folded os_def]
  have kd: "kd j = os ! j" if "j < length os" for j
    using others_nth(2) [OF ok p k, of j target] that by (simp add: kd_def os_def)
  have mem: "fi_ok (fiOf t x)" if "x \<in> set os" for x
    using that k ok fiOf_ok(1) [OF fi] by (auto simp: os_def others_def kids_right_def index_ok_def)
  have s: "sorted (map (fiOf t) os)"
    using kids_fi_sorted [OF fi k ok] by (simp add: os_def others_def sorted_map sorted_wrt_filter)
  have i: "index \<le> length os" using i by (simp add: os_def)
  define left where "left = (if 0 < index then Some (fiOf t (kd (index - 1))) else None)"
  define right where "right = (if index < length os then Some (fiOf t (kd index)) else None)"
  have code: "tree_positions t target parent index =
     (if os = [] then Some ([target], [[fiTerminator]])
      else if left \<noteq> None \<and> right \<noteq> None \<and> left = right then
        (case same_run kd (\<lambda>i. fiOf t (kd i)) (the left) (length os) (index + 1) of (rs, nxt) \<Rightarrow>
          let reset = target # kd index # rs in map_option (Pair reset) (fiEvenly left nxt (length reset)))
      else map_option (\<lambda>fi. ([target], [fi])) (fiNew left right))"
    unfolding tree_positions_def Let_def len kd_def [symmetric] left_def right_def by simp
  have left: "left = (if 0 < index then Some (fiOf t (os ! (index - 1))) else None)"
    and right: "right = (if index + 0 < length os then Some (fiOf t (os ! (index + 0))) else None)"
    using i by (auto simp: left_def right_def kd)
  have le: "fiOf t (os ! (index - 1)) \<le> fiOf t (os ! j)" if "index \<le> j" "j < length os" for j
    using sorted_nth_mono [OF s, of "index - 1" j] that by simp
  consider (none) "os = []" | (run) "os \<noteq> []" "left \<noteq> None" "left = right" | (one) "os \<noteq> []" "left \<noteq> right"
    using i by (cases "os = []"; cases "left = right") (auto simp: left_def right_def split: if_splits)
  then have "\<exists>m fis. tree_positions t target parent index = Some (target # take m (drop index os), fis) \<and>
    lands_at t os index m fis"
  proof cases
    case none
    then show ?thesis using i code by (intro exI [of _ 0] exI [of _ "[[fiTerminator]]"]) (simp add: lands_at_def fi_ok_def)
  next
    case one
    have "gap_ok left right"
      using one i le [of index] by (auto simp: gap_ok_def left right mem order_le_less split: if_splits)
    from fractional_gap [OF this, of 1] obtain b where b: "fiNew left right = Some b" "fi_ok b" "in_gap left right b" by blast
    have "lands_at t os index 0 [b]" by (rule gap_lands [OF s _ left right]) (use b i in auto)
    moreover have "tree_positions t target parent index = Some ([target], [b])" using one b code by auto
    ultimately show ?thesis by (intro exI [of _ 0] exI [of _ "[b]"]) simp
  next
    case run
    then have ix: "0 < index" "index < length os" by (auto simp: left right split: if_splits)
    obtain rs nxt where r: "same_run kd (\<lambda>i. fiOf t (kd i)) (the left) (length os) (index + 1) = (rs, nxt)" by fastforce
    from same_run_meaning [OF r] ix obtain m where m: "index + 1 + m \<le> length os" "rs = map kd [index + 1..<index + 1 + m]"
      "case nxt of None \<Rightarrow> index + 1 + m = length os
        | Some b \<Rightarrow> index + 1 + m < length os \<and> b = fiOf t (kd (index + 1 + m)) \<and> b \<noteq> the left" by auto
    have up: "nxt = (if index + (m + 1) < length os then Some (fiOf t (os ! (index + (m + 1)))) else None)"
      using m(1,3) by (auto simp: kd add.assoc split: option.splits)
    have "gap_ok left nxt"
      using m(3) ix le [of "index + 1 + m"]
      by (auto simp: gap_ok_def left mem kd order_le_less split: if_splits option.splits)
    from fractional_gap [OF this, of "m + 2"] obtain bs where bs: "fiEvenly left nxt (m + 2) = Some bs" "length bs = m + 2"
      "sorted_wrt (<) bs" "\<forall>b\<in>set bs. fi_ok b \<and> in_gap left nxt b" by blast
    have reset: "kd index # rs = take (m + 1) (drop index os)"
    proof (rule nth_equalityI)
      show "length (kd index # rs) = length (take (m + 1) (drop index os))" using m(1,2) by simp
      show "(kd index # rs) ! j = take (m + 1) (drop index os) ! j" if "j < length (kd index # rs)" for j
        using that m(1,2) by (cases j) (simp_all add: kd del: upt_Suc)
    qed
    have "length (target # kd index # rs) = m + 2" using m(2) by simp
    then have fis: "fiEvenly left nxt (length (target # kd index # rs)) = Some bs" using bs(1) by simp
    have "tree_positions t target parent index = Some (target # kd index # rs, bs)"
      using run r fis unfolding code Let_def by (auto simp del: list.size)
    then have "tree_positions t target parent index = Some (target # take (m + 1) (drop index os), bs)"
      unfolding reset .
    moreover have "lands_at t os index (m + 1) bs"
      by (rule gap_lands [OF s _ left up]) (use bs m(1) in auto)
    ultimately show ?thesis by (intro exI [of _ "m + 1"] exI [of _ bs]) blast
  qed
  then show ?thesis by (simp add: os_def)
qed

text \<open>Three nodes at the top level, two of them with one index; a new node between those two.\<close>

definition crowded :: treeIndex where
  "crowded = \<lparr>ti_nodes =
      [[65] \<mapsto> \<lparr>tp_parent = [], tp_fi = hex_upper [0x80], tp_lamport = 1, tp_peer = 1\<rparr>,
       [66] \<mapsto> \<lparr>tp_parent = [], tp_fi = hex_upper [0x80], tp_lamport = 2, tp_peer = 1\<rparr>,
       [67] \<mapsto> \<lparr>tp_parent = [], tp_fi = hex_upper [0x81, 0x80], tp_lamport = 3, tp_peer = 1\<rparr>],
     ti_ids = [[65], [66], [67]],
     ti_children = (\<lambda>p. if p = [] then [[65], [66], [67]] else []),
     ti_childCount = (\<lambda>p. if p = [] then 3 else 0)\<rparr>"

lemma positions_land_witness:
  "\<exists>fis. tree_positions crowded [68] [] 1 = Some ([[68], [66]], fis) \<and>
    lands_at crowded [[65], [66], [67]] 1 1 fis"
proof -
  have ok: "index_ok crowded"
    by (simp add: index_ok_def crowded_def node_key_def place_key_def) auto
  have k: "kids_right crowded [] (ti_children crowded [])"
    by (simp add: kids_right_def crowded_def node_key_def place_key_def ti_parent_def hex_upper_def hex_digit_def) auto
  have fi: "indexes_ok crowded"
    unfolding indexes_ok_def
  proof (intro allI impI)
    fix x p assume "ti_nodes crowded x = Some p"
    then consider "tp_fi p = hex_upper [0x80]" | "tp_fi p = hex_upper [0x81, 0x80]"
      by (auto simp: crowded_def split: if_splits)
    then show "\<exists>b. fi_ok b \<and> tp_fi p = hex_upper b"
      by cases (metis fi_ok_snoc append_Nil fiTerminator_def, metis fi_ok_snoc append_Cons append_Nil fiTerminator_def)
  qed
  have root: "[] \<noteq> deletedTreeRoot" by code_simp
  have os: "others crowded [68] [] = [[65], [66], [67]]" by (simp add: others_def crowded_def)
  obtain m fis where m: "tree_positions crowded [68] [] 1 = Some ([68] # take m (drop 1 [[65], [66], [67]]), fis)"
    "lands_at crowded [[65], [66], [67]] 1 m fis"
    using positions_land [OF ok root k fi, of 1 "[68]"] os by auto
  have "map_option fst (tree_positions crowded [68] [] 1) = Some [[68], [66]]" by code_simp
  with m(1) have "take m [[66 :: byte], [67]] = [[66]]" by simp
  then have "m = 1" by (cases m; cases "m - 1") auto
  with m show ?thesis by auto
qed

end
