(* ===== verification/FxTable.thy ===== *)
theory FxTable
  imports LoroTypes
begin

unbundle bit_operations_syntax

text \<open>
  The hash table of \<open>loro/frontiers.go\<close> and \<open>loro/version.go\<close>, a replay of hashbrown's table
  with 8-byte control groups. A control byte is empty, deleted, or holds seven bits of the
  hash of its bucket's key. An unallocated table, with \<open>ctrl\<close> nil, has an empty list.

  Every index is masked with \<open>mask()\<close>; \<open>FxInvariant\<close> proves the invariant \<open>fx_ok\<close> of all tables
  the program makes, in which the masked indexes are in range. The two probing loops and the
  inner loop of \<open>rehashInPlace\<close> have a step bound, which \<open>fx_ok\<close> tables never meet: \<open>None\<close>
  stands for a loop that does not end.
\<close>

record fxTable =
  fx_ctrl :: bytes
  fx_keys :: "u64 list"
  fx_vals :: "i64 list"
  fx_items :: int
  fx_growthLeft :: int

definition fx_nil :: fxTable where
  "fx_nil = \<lparr>fx_ctrl = [], fx_keys = [], fx_vals = [], fx_items = 0, fx_growthLeft = 0\<rparr>"

definition fxGroup :: nat where "fxGroup = 8"
definition fxEmpty :: byte where "fxEmpty = 0xff"
definition fxDeleted :: byte where "fxDeleted = 0x80"

definition fxHash :: "u64 \<Rightarrow> u32" where
  "fxHash peer =
     (let k = 0x93d765dd; h = 0;
          h = (h + ucast peer) * k;
          h = (h + ucast (drop_bit 32 peer)) * k
      in word_rotl 15 h)"

definition fxH2 :: "u32 \<Rightarrow> byte" where
  "fxH2 h = ucast (drop_bit 25 h) AND 0x7f"

definition fx_buckets :: "fxTable \<Rightarrow> nat" where
  "fx_buckets t = (if fx_ctrl t = [] then 0 else length (fx_ctrl t) - fxGroup)"

definition fx_mask :: "fxTable \<Rightarrow> nat" where
  "fx_mask t = nat (max (int (fx_buckets t) - 1) 0)"

text \<open>\<open>x & t.mask()\<close>\<close>

definition fx_wrap :: "fxTable \<Rightarrow> int \<Rightarrow> nat" where
  "fx_wrap t x = nat (x AND int (fx_mask t))"

definition fx_group :: "fxTable \<Rightarrow> nat \<Rightarrow> bytes" where
  "fx_group t pos = take fxGroup (drop pos (fx_ctrl t))"

definition fx_full :: "byte \<Rightarrow> bool" where
  "fx_full c \<longleftrightarrow> c AND 0x80 = 0"

definition capacityOf :: "nat \<Rightarrow> nat" where
  "capacityOf m = (if m < 8 then m else (m + 1) div 8 * 7)"

function double_to :: "nat \<Rightarrow> nat \<Rightarrow> nat" where
  "double_to n target = (if n < target \<and> n > 0 then double_to (n * 2) target else n)"
  by auto
termination by (relation "measure (\<lambda>(n, target). target - n)") auto

declare double_to.simps [simp del]

definition bucketsFor :: "nat \<Rightarrow> nat" where
  "bucketsFor capacity =
     (if capacity < 4 then 4
      else if capacity < 8 then 8
      else if capacity < 15 then 16
      else double_to 1 (capacity * 8 div 7))"

definition setCtrl :: "nat \<Rightarrow> byte \<Rightarrow> fxTable \<Rightarrow> fxTable" where
  "setCtrl i c t =
     t\<lparr>fx_ctrl := (fx_ctrl t)[i := c, fx_wrap t (int i - int fxGroup) + fxGroup := c]\<rparr>"

definition set_entry :: "nat \<Rightarrow> u64 \<Rightarrow> i64 \<Rightarrow> fxTable \<Rightarrow> fxTable" where
  "set_entry b k v t = t\<lparr>fx_keys := (fx_keys t)[b := k], fx_vals := (fx_vals t)[b := v]\<rparr>"

section \<open>Lookup\<close>

text \<open>One group of a probe: the bucket that holds \<open>peer\<close>, if a byte of the group leads to it.\<close>

definition group_hit :: "fxTable \<Rightarrow> u64 \<Rightarrow> nat \<Rightarrow> nat option" where
  "group_hit t peer pos =
     map_option (\<lambda>i. fx_wrap t (int (pos + i)))
       (List.find (\<lambda>i. fx_group t pos ! i = fxH2 (fxHash peer) \<and>
            fx_full (fx_ctrl t ! fx_wrap t (int (pos + i))) \<and>
            fx_keys t ! fx_wrap t (int (pos + i)) = peer)
         [0..<length (fx_group t pos)])"

text \<open>\<open>Some None\<close> is Go's -1.\<close>

fun find_loop :: "fxTable \<Rightarrow> u64 \<Rightarrow> nat \<Rightarrow> nat \<Rightarrow> nat \<Rightarrow> nat option option" where
  "find_loop t peer 0 pos stride = None"
| "find_loop t peer (Suc fuel) pos stride =
     (case group_hit t peer pos of
        Some b \<Rightarrow> Some (Some b)
      | None \<Rightarrow>
          if fxEmpty \<in> set (fx_group t pos) then Some None
          else let stride = stride + fxGroup in
            find_loop t peer fuel (fx_wrap t (int (pos + stride))) stride)"

definition fx_fuel :: "fxTable \<Rightarrow> nat" where
  "fx_fuel t = fx_buckets t + 1"

definition fx_find :: "fxTable \<Rightarrow> u64 \<Rightarrow> nat option option" where
  "fx_find t peer =
     (if fx_ctrl t = [] then Some None
      else find_loop t peer (fx_fuel t) (fx_wrap t (uint (fxHash peer))) 0)"

definition fx_get :: "fxTable \<Rightarrow> u64 \<Rightarrow> i64 option option" where
  "fx_get t peer = Option.bind (fx_find t peer) (\<lambda>b. Some (map_option (\<lambda>b. fx_vals t ! b) b))"

section \<open>Insertion\<close>

fun insertSlot_loop :: "fxTable \<Rightarrow> nat \<Rightarrow> nat \<Rightarrow> nat \<Rightarrow> nat option" where
  "insertSlot_loop t 0 pos stride = None"
| "insertSlot_loop t (Suc fuel) pos stride =
     (case List.find (\<lambda>i. \<not> fx_full (fx_group t pos ! i)) [0..<length (fx_group t pos)] of
        Some i \<Rightarrow>
          (let b = fx_wrap t (int (pos + i)) in
           if fx_full (fx_ctrl t ! b) then
             (case List.find (\<lambda>j. \<not> fx_full (fx_group t 0 ! j)) [0..<length (fx_group t 0)] of
                Some j \<Rightarrow> Some j
              | None \<Rightarrow> Some b)
           else Some b)
      | None \<Rightarrow>
          (let stride = stride + fxGroup in
           insertSlot_loop t fuel (fx_wrap t (int (pos + stride))) stride))"

definition insertSlot :: "fxTable \<Rightarrow> u32 \<Rightarrow> nat option" where
  "insertSlot t h = insertSlot_loop t (fx_fuel t) (fx_wrap t (uint h)) 0"

definition fx_alloc :: "nat \<Rightarrow> fxTable" where
  "fx_alloc n =
     \<lparr>fx_ctrl = replicate (n + fxGroup) fxEmpty, fx_keys = replicate n 0, fx_vals = replicate n 0,
      fx_items = 0, fx_growthLeft = 0\<rparr>"

text \<open>The loop of \<open>resize\<close> over the buckets \<open>bs\<close> of the old table.\<close>

fun resize_loop :: "fxTable \<Rightarrow> nat list \<Rightarrow> fxTable \<Rightarrow> fxTable option" where
  "resize_loop old [] t = Some t"
| "resize_loop old (b # bs) t =
     (if \<not> fx_full (fx_ctrl old ! b) then resize_loop old bs t
      else let h = fxHash (fx_keys old ! b) in
        Option.bind (insertSlot t h) (\<lambda>nb.
          resize_loop old bs (set_entry nb (fx_keys old ! b) (fx_vals old ! b) (setCtrl nb (fxH2 h) t))))"

definition fx_resize :: "nat \<Rightarrow> fxTable \<Rightarrow> fxTable option" where
  "fx_resize capacity old =
     (let n = bucketsFor capacity in
      map_option (\<lambda>t. t\<lparr>fx_items := fx_items old, fx_growthLeft := int (capacityOf (n - 1)) - fx_items old\<rparr>)
        (resize_loop old [0..<fx_buckets old] (fx_alloc n)))"

text \<open>The two preparing loops of \<open>rehashInPlace\<close>, and its loop over a bucket \<open>i\<close>.\<close>

definition mark_pending :: "fxTable \<Rightarrow> fxTable" where
  "mark_pending t =
     (let n = fx_buckets t;
          t = t\<lparr>fx_ctrl := map (\<lambda>c. if fx_full c then fxDeleted else fxEmpty) (take n (fx_ctrl t)) @ drop n (fx_ctrl t)\<rparr>
      in fold (\<lambda>i t. setCtrl i (fx_ctrl t ! i) t) [0..<n] t)"

definition probe_group :: "fxTable \<Rightarrow> nat \<Rightarrow> nat \<Rightarrow> nat" where
  "probe_group t start i = fx_wrap t (int i - int start) div fxGroup"

definition swap_entries :: "nat \<Rightarrow> nat \<Rightarrow> fxTable \<Rightarrow> fxTable" where
  "swap_entries i j t =
     t\<lparr>fx_keys := (fx_keys t)[j := fx_keys t ! i, i := fx_keys t ! j],
       fx_vals := (fx_vals t)[j := fx_vals t ! i, i := fx_vals t ! j]\<rparr>"

fun rehash_bucket :: "nat \<Rightarrow> nat \<Rightarrow> fxTable \<Rightarrow> fxTable option" where
  "rehash_bucket 0 i t = None"
| "rehash_bucket (Suc fuel) i t =
     (let h = fxHash (fx_keys t ! i) in
      Option.bind (insertSlot t h) (\<lambda>ni.
        let start = fx_wrap t (uint h) in
        if probe_group t start i = probe_group t start ni then Some (setCtrl i (fxH2 h) t)
        else
          let prev = fx_ctrl t ! ni; t = setCtrl ni (fxH2 h) t in
          if prev = fxEmpty then
            Some (set_entry ni (fx_keys t ! i) (fx_vals t ! i) (setCtrl i fxEmpty t))
          else rehash_bucket fuel i (swap_entries i ni t)))"

fun rehash_loop :: "nat list \<Rightarrow> fxTable \<Rightarrow> fxTable option" where
  "rehash_loop [] t = Some t"
| "rehash_loop (i # is) t =
     (if fx_ctrl t ! i \<noteq> fxDeleted then rehash_loop is t
      else Option.bind (rehash_bucket (fx_fuel t) i t) (rehash_loop is))"

definition rehashInPlace :: "fxTable \<Rightarrow> fxTable option" where
  "rehashInPlace t =
     map_option (\<lambda>t. t\<lparr>fx_growthLeft := int (capacityOf (fx_mask t)) - fx_items t\<rparr>)
       (rehash_loop [0..<fx_buckets t] (mark_pending t))"

definition reserveRehash :: "fxTable \<Rightarrow> fxTable option" where
  "reserveRehash t =
     (let newItems = fx_items t + 1; full = int (capacityOf (fx_mask t)) in
      if fx_ctrl t \<noteq> [] \<and> newItems \<le> full div 2 then rehashInPlace t
      else fx_resize (nat (max newItems (full + 1))) t)"

text \<open>The end of \<open>insertMax\<close> and of \<open>insertAlways\<close>: a new entry goes to a free bucket.\<close>

definition put_new :: "ID \<Rightarrow> fxTable \<Rightarrow> fxTable option" where
  "put_new op t =
     (let h = fxHash (Peer op) in
      Option.bind (insertSlot t h) (\<lambda>b.
        let t = (if fx_ctrl t ! b = fxEmpty then t\<lparr>fx_growthLeft := fx_growthLeft t - 1\<rparr> else t);
            t = set_entry b (Peer op) (Counter op) (setCtrl b (fxH2 h) t)
        in Some (t\<lparr>fx_items := fx_items t + 1\<rparr>)))"

definition reserve_one :: "fxTable \<Rightarrow> fxTable option" where
  "reserve_one t = (if fx_growthLeft t < 1 then reserveRehash t else Some t)"

definition insertMax :: "ID \<Rightarrow> fxTable \<Rightarrow> fxTable option" where
  "insertMax op t =
     Option.bind (fx_find t (Peer op)) (\<lambda>b. case b of
        Some b \<Rightarrow> Some (t\<lparr>fx_vals := (fx_vals t)[b := smax (fx_vals t ! b) (Counter op)]\<rparr>)
      | None \<Rightarrow> Option.bind (reserve_one t) (put_new op))"

definition insertAlways :: "ID \<Rightarrow> fxTable \<Rightarrow> fxTable option" where
  "insertAlways op t =
     Option.bind (reserve_one t) (\<lambda>t.
     Option.bind (fx_find t (Peer op)) (\<lambda>b. case b of
        Some b \<Rightarrow> Some (t\<lparr>fx_vals := (fx_vals t)[b := Counter op]\<rparr>)
      | None \<Rightarrow> put_new op t))"

definition fxWithCapacity :: "int \<Rightarrow> fxTable" where
  "fxWithCapacity capacity =
     (if capacity \<le> 0 then fx_nil
      else let n = bucketsFor (nat capacity) in
        (fx_alloc n)\<lparr>fx_growthLeft := int (capacityOf (n - 1))\<rparr>)"

section \<open>Removal\<close>

text \<open>
  The entry at bucket \<open>b\<close> goes. \<open>lead\<close> counts the bytes before \<open>b\<close> down to an empty one, \<open>trail\<close>
  those from \<open>b\<close> up to an empty one, both within a group's width.
\<close>

definition erase :: "nat \<Rightarrow> fxTable \<Rightarrow> fxTable" where
  "erase b t =
     (let pre = fx_group t (fx_wrap t (int b - int fxGroup));
          post = fx_group t b;
          lead = length (takeWhile (\<lambda>c. c \<noteq> fxEmpty) (rev pre));
          trail = length (takeWhile (\<lambda>c. c \<noteq> fxEmpty) post);
          t' = (if lead + trail \<ge> fxGroup then setCtrl b fxDeleted t
                else setCtrl b fxEmpty (t\<lparr>fx_growthLeft := fx_growthLeft t + 1\<rparr>))
      in t'\<lparr>fx_items := fx_items t' - 1\<rparr>)"

definition fx_remove :: "ID \<Rightarrow> fxTable \<Rightarrow> (bool \<times> fxTable) option" where
  "fx_remove op t =
     Option.bind (fx_find t (Peer op)) (\<lambda>b. case b of
        None \<Rightarrow> Some (False, t)
      | Some b \<Rightarrow> if fx_vals t ! b \<noteq> Counter op then Some (False, t) else Some (True, erase b t))"

definition removeKey :: "u64 \<Rightarrow> fxTable \<Rightarrow> fxTable option" where
  "removeKey peer t =
     Option.bind (fx_find t peer) (\<lambda>b. case b of
        None \<Rightarrow> Some t
      | Some b \<Rightarrow> map_option snd (fx_remove \<lparr>Peer = peer, Counter = fx_vals t ! b\<rparr> t))"

definition fx_ids :: "fxTable \<Rightarrow> ID list" where
  "fx_ids t =
     map (\<lambda>b. \<lparr>Peer = fx_keys t ! b, Counter = fx_vals t ! b\<rparr>)
       (filter (\<lambda>b. fx_full (fx_ctrl t ! b)) [0..<fx_buckets t])"

end
