(* ===== verification/FxProbe.thy ===== *)
theory FxProbe
  imports FxTable
begin

unbundle bit_operations_syntax

text \<open>
  The probe sequence of the hash table. Starting from the bucket that the hash selects, groups
  of eight buckets are visited at triangular distances. In a table of \<open>2 ^ k\<close> buckets the
  sequence reaches every bucket, since the triangular numbers are a complete system of
  residues modulo a power of two.
\<close>

section \<open>Triangular numbers\<close>

definition tri :: "nat \<Rightarrow> nat" where
  "tri m = m * (m + 1) div 2"

lemma double_tri: "2 * tri m = m * (m + 1)"
  by (simp add: tri_def)

lemma tri_Suc: "tri (Suc m) = tri m + Suc m"
  using double_tri [of m] double_tri [of "Suc m"] by simp

lemma pow2_dvd_mult_odd:
  fixes a b :: nat
  assumes "2 ^ j dvd a * b" and "odd a"
  shows "2 ^ j dvd b"
proof -
  from assms(2) have "coprime (2 ^ j) a" by simp
  with assms(1) show ?thesis by (simp add: coprime_dvd_mult_right_iff)
qed

lemma tri_inj: "inj_on (\<lambda>m. tri m mod 2 ^ j) {..<2 ^ j}"
proof (rule linorder_inj_onI')
  fix a b :: nat
  assume "a \<in> {..<2 ^ j}" and "b \<in> {..<2 ^ j}" and ab: "a < b"
  then have b: "b < 2 ^ j" by simp
  show "tri a mod 2 ^ j \<noteq> tri b mod 2 ^ j"
  proof
    assume "tri a mod 2 ^ j = tri b mod 2 ^ j"
    then have "2 ^ j dvd tri b - tri a"
      by (metis mod_eq_dvd_iff_nat nat_le_linear diff_is_0_eq dvd_0_right)
    then have "2 * 2 ^ j dvd 2 * (tri b - tri a)" by (rule mult_dvd_mono [OF dvd_refl])
    also have "2 * (tri b - tri a) = (b - a) * (b + a + 1)"
    proof -
      obtain d where "b = a + d" using ab less_imp_add_positive by blast
      then show ?thesis
        using double_tri [of a] double_tri [of b] by (simp add: diff_mult_distrib2 algebra_simps)
    qed
    finally have dvd: "2 ^ Suc j dvd (b - a) * (b + a + 1)" by simp
    show False
    proof (cases "odd (b - a)")
      case True
      from pow2_dvd_mult_odd [OF dvd this] have "2 ^ Suc j \<le> b + a + 1" by (intro dvd_imp_le) simp_all
      with ab b show False by simp
    next
      case False
      then have "odd (b + a + 1)" using ab by auto
      from pow2_dvd_mult_odd [OF _ this, of "Suc j" "b - a"] dvd have "2 ^ Suc j dvd b - a"
        by (simp only: mult.commute)
      then have "2 ^ Suc j \<le> b - a" using ab by (intro dvd_imp_le) simp_all
      with b show False by simp
    qed
  qed
qed

lemma tri_covers:
  assumes "q < 2 ^ j"
  shows "\<exists>m < 2 ^ j. tri m mod 2 ^ j = q"
proof -
  have "(\<lambda>m. tri m mod 2 ^ j) ` {..<2 ^ j} \<subseteq> {..<2 ^ j :: nat}" by auto
  then have "(\<lambda>m. tri m mod 2 ^ j) ` {..<2 ^ j} = {..<2 ^ j}"
    by (intro endo_inj_surj tri_inj) auto
  with assms have "q \<in> (\<lambda>m. tri m mod 2 ^ j) ` {..<2 ^ j}" by simp
  then show ?thesis by auto
qed

section \<open>Probe positions\<close>

fun probe :: "nat \<Rightarrow> nat \<Rightarrow> nat \<Rightarrow> nat" where
  "probe n p 0 = p"
| "probe n p (Suc m) = (probe n p m + 8 * Suc m) mod n"

definition window :: "nat \<Rightarrow> nat \<Rightarrow> nat set" where
  "window n pos = (\<lambda>i. (pos + i) mod n) ` {..<8}"

lemma probe_less: "0 < n \<Longrightarrow> p < n \<Longrightarrow> probe n p m < n"
  by (cases m) simp_all

lemma probe_eq: "p < n \<Longrightarrow> probe n p m = (p + 8 * tri m) mod n"
proof (induction m)
  case (Suc m)
  then have "probe n p (Suc m) = ((p + 8 * tri m) mod n + 8 * Suc m) mod n" by simp
  also have "\<dots> = (p + 8 * tri m + 8 * Suc m) mod n" by (rule mod_add_left_eq)
  also have "p + 8 * tri m + 8 * Suc m = p + 8 * tri (Suc m)" by (simp add: tri_Suc)
  finally show ?case .
qed (simp add: tri_def)

lemma window_4: "p < 4 \<Longrightarrow> window 4 p = {..<4}"
proof -
  assume p: "p < 4"
  have "x \<in> window 4 p" if "x < 4" for x
    unfolding window_def using p that by (intro image_eqI [of _ _ "x + 4 - p"]) simp_all
  moreover have "x < 4" if "x \<in> window 4 p" for x
    using that by (auto simp: window_def)
  ultimately show ?thesis by auto
qed

text \<open>The windows of a probe sequence tile a table of more than one group.\<close>

definition tile :: "nat \<Rightarrow> nat \<Rightarrow> nat \<Rightarrow> nat" where
  "tile n p b = (b + (n - p)) mod n div 8"

lemma mod_shift_inj:
  fixes p d e n :: nat
  assumes "(p + d) mod n = (p + e) mod n" and "d < n" and "e < n"
  shows "d = e"
  using assms
proof (induction d e rule: linorder_wlog)
  case (le d e)
  then have "n dvd (p + e) - (p + d)"
    by (subst mod_eq_dvd_iff_nat [symmetric]) simp_all
  then have "n dvd e - d" by simp
  then show ?case using le by (auto dest: dvd_imp_le)
qed simp

lemma window_tile:
  assumes "8 dvd n" and "p < n" and "b < n"
  shows "b \<in> window n (probe n p m) \<longleftrightarrow> tile n p b = 8 * tri m mod n div 8"
proof -
  define d where "d = (b + (n - p)) mod n"
  define s where "s = 8 * tri m mod n"
  have d: "d < n" using assms by (simp add: d_def)
  have n8: "8 dvd s" using assms(1) by (simp add: s_def dvd_mod)
  have s: "s < n" using assms by (simp add: s_def)
  have b: "b = (p + d) mod n"
  proof -
    have "(p + d) mod n = (p + (b + (n - p))) mod n" by (simp add: d_def mod_simps)
    also have "\<dots> = b" using assms by simp
    finally show ?thesis ..
  qed
  have pr: "(probe n p m + i) mod n = (p + (s + i)) mod n" for i
  proof -
    have "(probe n p m + i) mod n = (p + 8 * tri m + i) mod n"
      unfolding probe_eq [OF assms(2)] by (rule mod_add_left_eq)
    also have "\<dots> = (p + i + 8 * tri m) mod n" by (simp add: ac_simps)
    also have "\<dots> = (p + i + s) mod n" unfolding s_def by (rule mod_add_right_eq [symmetric])
    finally show ?thesis by (simp add: ac_simps)
  qed
  have si: "s + i < n" if "i < 8" for i
  proof -
    obtain k l where "s = 8 * k" "n = 8 * l" using n8 assms(1) by (elim dvdE) blast
    with s that show ?thesis by simp
  qed
  have "b \<in> window n (probe n p m) \<longleftrightarrow> (\<exists>i<8. (p + d) mod n = (p + (s + i)) mod n)"
    by (auto simp: window_def pr b)
  also have "\<dots> \<longleftrightarrow> (\<exists>i<8. d = s + i)"
  proof -
    have "(p + d) mod n = (p + (s + i)) mod n \<longleftrightarrow> d = s + i" if "i < 8" for i
      using mod_shift_inj [OF _ d si [OF that], of p] by auto
    then show ?thesis by auto
  qed
  also have "\<dots> \<longleftrightarrow> d div 8 = s div 8"
  proof
    assume "\<exists>i<8. d = s + i"
    with n8 show "d div 8 = s div 8" by auto
  next
    assume eq: "d div 8 = s div 8"
    have "d = 8 * (d div 8) + d mod 8" by simp
    also have "8 * (d div 8) = s" using eq n8 by simp
    finally show "\<exists>i<8. d = s + i" by (intro exI [of _ "d mod 8"]) simp
  qed
  finally show ?thesis by (simp add: tile_def d_def s_def)
qed

lemma probe_covers:
  assumes "n = 2 ^ k" and "2 \<le> k" and "p < n" and "b < n"
  shows "\<exists>m<n. b \<in> window n (probe n p m)"
proof (cases "k = 2")
  case True
  with assms show ?thesis by (intro exI [of _ 0]) (simp add: window_4)
next
  case False
  with assms(2) obtain j where k: "k = j + 3" by (metis add.commute le_neq_implies_less less_imp_Suc_add add_Suc_right numeral_3_eq_3 numeral_2_eq_2 add_Suc plus_1_eq_Suc add_2_eq_Suc')
  have n: "n = 8 * 2 ^ j" by (simp add: assms(1) k power_add)
  have "tile n p b < 2 ^ j"
    using assms(3) by (simp add: tile_def n less_mult_imp_div_less mult.commute)
  then obtain m where m: "m < 2 ^ j" "tri m mod 2 ^ j = tile n p b" using tri_covers by blast
  have "8 * tri m mod n div 8 = tile n p b" by (simp add: n m(2) flip: mult_mod_right)
  with assms(3,4) have "b \<in> window n (probe n p m)"
    by (subst window_tile) (simp_all add: n)
  with m(1) show ?thesis by (intro exI [of _ m]) (simp add: n)
qed

end
