(* ===== verification/FxInvariant.thy ===== *)
theory FxInvariant
  imports FxProbe
begin

unbundle bit_operations_syntax

text \<open>
  The invariant of the hash table: its shape (a power of two of buckets, the copy of the first
  group behind them), the control bytes of its entries, distinct keys, and that a probe finds
  every entry before it meets an empty byte. Under it, lookup and the search for a free
  bucket end within their step bounds and return the right bucket.
\<close>

section \<open>Shape\<close>

abbreviation ctl :: "fxTable \<Rightarrow> nat \<Rightarrow> byte" where
  "ctl t b \<equiv> fx_ctrl t ! b"

definition fx_shape :: "nat \<Rightarrow> fxTable \<Rightarrow> bool" where
  "fx_shape n t \<longleftrightarrow>
     (\<exists>k\<ge>2. n = 2 ^ k) \<and> length (fx_ctrl t) = n + 8 \<and> length (fx_keys t) = n \<and> length (fx_vals t) = n \<and>
     (\<forall>j. n \<le> j \<and> j < n + 8 \<longrightarrow> ctl t j = (if n = 4 \<and> j < 8 then fxEmpty else ctl t (j mod n)))"

lemma shape_size: "fx_shape n t \<Longrightarrow> 4 \<le> n"
  unfolding fx_shape_def
  by (auto dest: power_increasing [of 2 _ "2 :: nat"])

lemma shape_8: "fx_shape n t \<Longrightarrow> n \<noteq> 4 \<Longrightarrow> 8 dvd n"
proof -
  assume "fx_shape n t" and n: "n \<noteq> 4"
  then obtain k where k: "2 \<le> k" "n = 2 ^ k" by (auto simp: fx_shape_def)
  with n have "k \<noteq> 2" by auto
  with k(1) have "3 \<le> k" by simp
  then have "2 ^ 3 dvd (2 :: nat) ^ k" by (rule le_imp_power_dvd)
  then show ?thesis by (simp add: k(2))
qed

lemma shape_ge8: "fx_shape n t \<Longrightarrow> n \<noteq> 4 \<Longrightarrow> 8 \<le> n"
  using shape_8 [of n t] shape_size [of n t] by (auto dest: dvd_imp_le)

lemma shape_lengths:
  assumes "fx_shape n t"
  shows "length (fx_ctrl t) = n + 8" "length (fx_keys t) = n" "length (fx_vals t) = n"
    "fx_ctrl t \<noteq> []" "fx_buckets t = n" "fx_mask t = n - 1" "fx_fuel t = n + 1"
proof -
  show len: "length (fx_ctrl t) = n + 8" "length (fx_keys t) = n" "length (fx_vals t) = n"
    using assms by (simp_all add: fx_shape_def)
  then show ne: "fx_ctrl t \<noteq> []" by auto
  show buckets: "fx_buckets t = n" using len ne by (simp add: fx_buckets_def fxGroup_def)
  show "fx_fuel t = n + 1" by (simp add: fx_fuel_def buckets)
  show "fx_mask t = n - 1" using shape_size [OF assms] by (simp add: fx_mask_def buckets)
qed

text \<open>The masks only depend on the number of control bytes.\<close>

definition fx_dims :: "nat \<Rightarrow> fxTable \<Rightarrow> bool" where
  "fx_dims n t \<longleftrightarrow> (\<exists>k\<ge>2. n = 2 ^ k) \<and> length (fx_ctrl t) = n + 8"

lemma shape_dims: "fx_shape n t \<Longrightarrow> fx_dims n t"
  by (simp add: fx_shape_def fx_dims_def)

lemma dims_mask:
  assumes "fx_dims n t"
  shows "fx_buckets t = n" and "fx_mask t = n - 1" and "4 \<le> n" and "n \<noteq> 4 \<Longrightarrow> 8 \<le> n"
proof -
  have len: "length (fx_ctrl t) = n + 8" using assms by (simp add: fx_dims_def)
  then have "fx_ctrl t \<noteq> []" by auto
  with len show b: "fx_buckets t = n" by (simp add: fx_buckets_def fxGroup_def)
  obtain k where k: "2 \<le> k" "n = 2 ^ k" using assms by (auto simp: fx_dims_def)
  show n: "4 \<le> n" using power_increasing [OF k(1), of "2 :: nat"] k(2) by simp
  with b show "fx_mask t = n - 1" by (simp add: fx_mask_def)
  assume "n \<noteq> 4"
  with k have "3 \<le> k" by (cases "k = 2") simp_all
  from power_increasing [OF this, of "2 :: nat"] k(2) show "8 \<le> n" by simp
qed

lemma dims_wrap:
  assumes "fx_dims n t"
  shows "fx_wrap t x = nat (x mod int n)"
proof -
  obtain k where k: "n = 2 ^ k" using assms by (auto simp: fx_dims_def)
  then have "int (fx_mask t) = mask k"
    using dims_mask(2) [OF assms] by (simp add: mask_eq_exp_minus_1 of_nat_diff)
  then show ?thesis
    using k by (simp add: fx_wrap_def take_bit_eq_mod flip: take_bit_eq_mask)
qed

lemmas fx_wrap_mod = dims_wrap [OF shape_dims]

lemma fx_wrap_nat: "fx_shape n t \<Longrightarrow> fx_wrap t (int x) = x mod n"
  by (simp add: fx_wrap_mod nat_mod_as_int)

lemma fx_wrap_hash: "fx_shape n t \<Longrightarrow> fx_wrap t (uint h) = unat h mod n"
  using fx_wrap_nat [of n t "unat h"] by simp

lemma ctl_pad:
  assumes "fx_shape n t" and "pos < n" and "i < 8"
  shows "ctl t (pos + i) = (if n = 4 \<and> 4 \<le> pos + i \<and> pos + i < 8 then fxEmpty else ctl t ((pos + i) mod n))"
proof (cases "pos + i < n")
  case False
  with assms show ?thesis by (auto simp: fx_shape_def)
qed auto

lemma group_nth:
  assumes "fx_shape n t" and "pos < n"
  shows "length (fx_group t pos) = 8" "i < 8 \<Longrightarrow> fx_group t pos ! i = ctl t (pos + i)"
  using assms by (simp_all add: fx_group_def fxGroup_def shape_lengths)

lemma group_set: "fx_shape n t \<Longrightarrow> pos < n \<Longrightarrow> c \<in> set (fx_group t pos) \<longleftrightarrow> (\<exists>i<8. ctl t (pos + i) = c)"
  using group_nth [of n t pos] by (fastforce simp: in_set_conv_nth)

lemma window_index:
  assumes "fx_shape n t" and "pos < n" and "b \<in> window n pos"
  shows "\<exists>i<8. (pos + i) mod n = b \<and> ctl t (pos + i) = ctl t b"
proof (cases "n = 4")
  case True
  with assms have b: "b < 4" by (simp add: window_4)
  show ?thesis
  proof (cases "pos \<le> b")
    case le: True
    with b True show ?thesis by (intro exI [of _ "b - pos"]) simp
  next
    case False
    have m: "(8 + b) mod 4 = b" using b by presburger
    have "ctl t (8 + b) = ctl t b"
      using assms(1) True b m unfolding fx_shape_def by simp
    with False True assms(2) m b show ?thesis
      by (intro exI [of _ "8 + b - pos"]) simp
  qed
next
  case False
  obtain i where i: "i < 8" "b = (pos + i) mod n" using assms(3) by (auto simp: window_def)
  with False ctl_pad [OF assms(1,2), of i] show ?thesis by auto
qed

lemma window_less: "0 < n \<Longrightarrow> b \<in> window n pos \<Longrightarrow> b < n"
  by (auto simp: window_def)

subsection \<open>Writing a control byte\<close>

lemma dims_setCtrl:
  assumes "fx_dims n t" and "b < n"
  shows "fx_ctrl (setCtrl b c t) = (fx_ctrl t)[b := c, if n = 4 then b + 8 else if b < 8 then n + b else b := c]"
proof -
  have "fx_wrap t (int b - 8) + 8 = (if n = 4 then b + 8 else if b < 8 then n + b else b)"
  proof (cases "n = 4")
    case True
    have "(int b - 8) mod 4 = int b"
      using assms(2) True by (simp add: mod_diff_eq [symmetric, of "int b" 8])
    with True show ?thesis by (simp add: dims_wrap [OF assms(1)])
  next
    case False
    note n8 = dims_mask(4) [OF assms(1) False]
    show ?thesis
    proof (cases "b < 8")
      case True
      have "(int b - 8) mod int n = (int b - 8 + int n) mod int n" by simp
      also have "\<dots> = int b - 8 + int n" using True n8 by (intro mod_pos_pos_trivial) simp_all
      finally show ?thesis using True False n8 by (simp add: dims_wrap [OF assms(1)] nat_diff_distrib)
    next
      case b8: False
      have "(int b - 8) mod int n = int b - 8" using b8 assms(2) by (intro mod_pos_pos_trivial) simp_all
      with b8 False show ?thesis by (simp add: dims_wrap [OF assms(1)])
    qed
  qed
  then show ?thesis by (simp add: setCtrl_def fxGroup_def)
qed

lemmas setCtrl_ctrl = dims_setCtrl [OF shape_dims]

lemma setCtrl_simps [simp]:
  "fx_keys (setCtrl b c t) = fx_keys t" "fx_vals (setCtrl b c t) = fx_vals t"
  "fx_items (setCtrl b c t) = fx_items t" "fx_growthLeft (setCtrl b c t) = fx_growthLeft t"
  by (simp_all add: setCtrl_def)

lemma setCtrl_ctl:
  assumes "fx_shape n t" and "b < n" and "x < n"
  shows "ctl (setCtrl b c t) x = (if x = b then c else ctl t x)"
  using assms shape_ge8 [OF assms(1)] unfolding setCtrl_ctrl [OF assms(1,2)]
  by (auto simp: nth_list_update shape_lengths)

lemma setCtrl_shape:
  assumes "fx_shape n t" and b: "b < n"
  shows "fx_shape n (setCtrl b c t)"
proof -
  note len = shape_lengths [OF assms(1)]
  have "ctl (setCtrl b c t) j = (if n = 4 \<and> j < 8 then fxEmpty else ctl (setCtrl b c t) (j mod n))"
    if j: "n \<le> j" "j < n + 8" for j
  proof -
    have old: "ctl t j = (if n = 4 \<and> j < 8 then fxEmpty else ctl t (j mod n))"
      using assms(1) j by (simp add: fx_shape_def)
    have jn: "j mod n < n" using b by simp
    show ?thesis
    proof (cases "n = 4")
      case True
      have "j mod 4 = b \<longleftrightarrow> j = b + 8" if "8 \<le> j"
      proof -
        have "j \<in> {8, 9, 10, 11}" using that j True by auto
        with b True show ?thesis by auto
      qed
      with True j old b show ?thesis
        unfolding setCtrl_ctl [OF assms jn] setCtrl_ctrl [OF assms]
        by (auto simp: nth_list_update len)
    next
      case False
      note n8 = shape_ge8 [OF assms(1) False]
      then have jm: "j mod n = j - n" using j by (simp add: mod_if)
      with False j old b n8 show ?thesis
        unfolding setCtrl_ctl [OF assms jn] setCtrl_ctrl [OF assms]
        by (auto simp: nth_list_update len)
    qed
  qed
  then show ?thesis
    using assms(1) by (simp add: fx_shape_def setCtrl_ctrl [OF assms])
qed

lemma set_entry_simps [simp]:
  "fx_ctrl (set_entry b k v t) = fx_ctrl t" "fx_keys (set_entry b k v t) = (fx_keys t)[b := k]"
  "fx_vals (set_entry b k v t) = (fx_vals t)[b := v]" "fx_items (set_entry b k v t) = fx_items t"
  "fx_growthLeft (set_entry b k v t) = fx_growthLeft t"
  by (simp_all add: set_entry_def)

lemma set_entry_shape [simp]: "fx_shape n (set_entry b k v t) \<longleftrightarrow> fx_shape n t"
  by (simp add: fx_shape_def)

lemma counters_shape [simp]:
  "fx_shape n (t\<lparr>fx_items := i\<rparr>) \<longleftrightarrow> fx_shape n t" "fx_shape n (t\<lparr>fx_growthLeft := g\<rparr>) \<longleftrightarrow> fx_shape n t"
  "fx_shape n (t\<lparr>fx_vals := (fx_vals t)[b := v]\<rparr>) \<longleftrightarrow> fx_shape n t"
  by (simp_all add: fx_shape_def)

section \<open>Groups\<close>

lemma full_facts [simp]:
  "fx_full (fxH2 h)" "\<not> fx_full fxEmpty" "\<not> fx_full fxDeleted" "fxEmpty \<noteq> fxDeleted" "fxDeleted \<noteq> fxEmpty"
proof -
  have "(c AND 0x7f) AND 0x80 = 0" for c :: byte by (simp add: and.assoc)
  then show "fx_full (fxH2 h)" by (simp add: fx_full_def fxH2_def)
qed (simp_all add: fx_full_def fxEmpty_def fxDeleted_def)

lemma fxH2_not_empty [simp]: "fxH2 h \<noteq> fxEmpty" "fxH2 h \<noteq> fxDeleted" "fxEmpty \<noteq> fxH2 h" "fxDeleted \<noteq> fxH2 h"
  using full_facts(1) [of h] full_facts(2,3) by metis+

text \<open>
  In a table of four buckets the padding between the buckets and their copy is empty, so that
  every group has an empty byte.
\<close>

definition no_empty :: "nat \<Rightarrow> (nat \<Rightarrow> byte) \<Rightarrow> nat \<Rightarrow> bool" where
  "no_empty n C pos \<longleftrightarrow> n \<noteq> 4 \<and> (\<forall>b\<in>window n pos. C b \<noteq> fxEmpty)"

definition all_full :: "nat \<Rightarrow> (nat \<Rightarrow> byte) \<Rightarrow> nat \<Rightarrow> bool" where
  "all_full n C pos \<longleftrightarrow> n \<noteq> 4 \<and> (\<forall>b\<in>window n pos. fx_full (C b))"

definition reach :: "(nat \<Rightarrow> bool) \<Rightarrow> nat \<Rightarrow> nat \<Rightarrow> nat \<Rightarrow> bool" where
  "reach P n p b \<longleftrightarrow> (\<exists>m<n. b \<in> window n (probe n p m) \<and> (\<forall>m'<m. P (probe n p m')))"

lemma reach_mono: "reach P n p b \<Longrightarrow> (\<And>pos. P pos \<Longrightarrow> Q pos) \<Longrightarrow> reach Q n p b"
  unfolding reach_def by blast

lemma all_full_no_empty: "all_full n C pos \<Longrightarrow> no_empty n C pos"
  unfolding all_full_def no_empty_def by force

lemma group_has_empty:
  assumes "fx_shape n t" and "pos < n"
  shows "fxEmpty \<in> set (fx_group t pos) \<longleftrightarrow> \<not> no_empty n (ctl t) pos"
proof (cases "n = 4")
  case True
  have "ctl t (pos + (7 - pos)) = fxEmpty"
    using assms(2) True by (subst ctl_pad [OF assms]) auto
  moreover have "7 - pos < 8" by simp
  ultimately have "fxEmpty \<in> set (fx_group t pos)" unfolding group_set [OF assms] by blast
  with True show ?thesis by (simp add: no_empty_def)
next
  case False
  have "(\<exists>i<8. ctl t (pos + i) = fxEmpty) \<longleftrightarrow> (\<exists>b\<in>window n pos. ctl t b = fxEmpty)"
    unfolding window_def using False by (simp add: ctl_pad [OF assms] Bex_def cong: conj_cong)
  with False show ?thesis by (simp add: no_empty_def group_set [OF assms])
qed

definition start :: "nat \<Rightarrow> u64 \<Rightarrow> nat" where
  "start n k = unat (fxHash k) mod n"

lemma start_less [simp]: "0 < n \<Longrightarrow> start n k < n"
  by (simp add: start_def)

section \<open>The invariant of an allocated table\<close>

definition ctl_ok :: "nat \<Rightarrow> fxTable \<Rightarrow> bool" where
  "ctl_ok n t \<longleftrightarrow>
     (\<forall>b<n. ctl t b = fxEmpty \<or> ctl t b = fxDeleted \<or> ctl t b = fxH2 (fxHash (fx_keys t ! b)))"

definition keys_ok :: "nat \<Rightarrow> fxTable \<Rightarrow> bool" where
  "keys_ok n t \<longleftrightarrow>
     (\<forall>b<n. \<forall>b'<n. fx_full (ctl t b) \<and> fx_full (ctl t b') \<and> fx_keys t ! b = fx_keys t ! b' \<longrightarrow> b = b')"

definition fx_tab :: "nat \<Rightarrow> fxTable \<Rightarrow> bool" where
  "fx_tab n t \<longleftrightarrow>
     fx_shape n t \<and> ctl_ok n t \<and> keys_ok n t \<and>
     (\<forall>b<n. fx_full (ctl t b) \<longrightarrow> reach (no_empty n (ctl t)) n (start n (fx_keys t ! b)) b)"

lemma ctl_okD: "ctl_ok n t \<Longrightarrow> b < n \<Longrightarrow> fx_full (ctl t b) \<Longrightarrow> ctl t b = fxH2 (fxHash (fx_keys t ! b))"
  by (auto simp: ctl_ok_def)

lemma keys_okD:
  "keys_ok n t \<Longrightarrow> b < n \<Longrightarrow> b' < n \<Longrightarrow> fx_full (ctl t b) \<Longrightarrow> fx_full (ctl t b') \<Longrightarrow>
    fx_keys t ! b = fx_keys t ! b' \<Longrightarrow> b = b'"
  unfolding keys_ok_def by blast

section \<open>Lookup\<close>

text \<open>The bucket of a key, if it has one.\<close>

definition holds :: "nat \<Rightarrow> fxTable \<Rightarrow> u64 \<Rightarrow> nat \<Rightarrow> bool" where
  "holds n t p b \<longleftrightarrow> b < n \<and> fx_full (ctl t b) \<and> fx_keys t ! b = p"

lemma group_hit_eq:
  assumes "fx_shape n t" and "pos < n"
  shows "group_hit t p pos =
    map_option (\<lambda>i. (pos + i) mod n)
      (List.find (\<lambda>i. fx_group t pos ! i = fxH2 (fxHash p) \<and> fx_full (ctl t ((pos + i) mod n)) \<and>
        fx_keys t ! ((pos + i) mod n) = p) [0..<8])"
  by (simp only: group_hit_def fx_wrap_nat [OF assms(1)] group_nth(1) [OF assms])

lemma find_loop_step:
  assumes "fx_shape n t"
  shows "find_loop t p (Suc fuel) pos (8 * j) =
    (case group_hit t p pos of
        Some b \<Rightarrow> Some (Some b)
      | None \<Rightarrow> if fxEmpty \<in> set (fx_group t pos) then Some None
          else find_loop t p fuel ((pos + 8 * Suc j) mod n) (8 * Suc j))"
proof -
  have "8 * j + fxGroup = 8 * Suc j" by (simp add: fxGroup_def)
  then show ?thesis by (simp only: find_loop.simps Let_def fx_wrap_nat [OF assms])
qed

lemma group_hit_holds:
  assumes "fx_shape n t" and "pos < n" and "group_hit t p pos = Some b"
  shows "holds n t p b"
proof -
  have "0 < n" using shape_size [OF assms(1)] by simp
  with assms(3) show ?thesis
    unfolding group_hit_eq [OF assms(1,2)] by (auto simp: find_Some_iff holds_def)
qed

lemma group_hit_found:
  assumes "fx_shape n t" and "ctl_ok n t" and "holds n t p b" and "pos < n" and "b \<in> window n pos"
  shows "group_hit t p pos \<noteq> None"
proof -
  obtain i where i: "i < 8" "(pos + i) mod n = b" "ctl t (pos + i) = ctl t b"
    using window_index [OF assms(1,4,5)] by blast
  have b: "b < n" "fx_full (ctl t b)" "fx_keys t ! b = p" using assms(3) by (simp_all add: holds_def)
  from ctl_okD [OF assms(2) b(1,2)] have "ctl t b = fxH2 (fxHash p)" by (simp only: b(3))
  with i b group_nth(2) [OF assms(1,4) i(1)] show ?thesis
    unfolding group_hit_eq [OF assms(1,4)]
    by (auto simp: find_None_iff intro!: exI [of _ i])
qed

lemma find_loop_found:
  assumes t: "fx_shape n t" "ctl_ok n t" "keys_ok n t" and b: "holds n t p b"
    and w: "b \<in> window n (probe n s m)" "\<forall>m'<m. no_empty n (ctl t) (probe n s m')" and s: "s < n"
  shows "j \<le> m \<Longrightarrow> m - j < fuel \<Longrightarrow> find_loop t p fuel (probe n s j) (8 * j) = Some (Some b)"
proof (induction fuel arbitrary: j)
  case (Suc fuel)
  have pos: "probe n s j < n" by (rule probe_less) (use s in simp_all)
  show ?case
  proof (cases "group_hit t p (probe n s j)")
    case (Some b')
    then have "holds n t p b'" by (rule group_hit_holds [OF t(1) pos])
    with b have "b' = b" using keys_okD [OF t(3)] by (simp add: holds_def)
    with Some show ?thesis by simp
  next
    case None
    with group_hit_found [OF t(1,2) b pos] w(1) have "j \<noteq> m" by auto
    with Suc.prems have j: "j < m" by simp
    then have "\<not> fxEmpty \<in> set (fx_group t (probe n s j))"
      using w(2) by (simp add: group_has_empty [OF t(1) pos])
    moreover have "find_loop t p fuel (probe n s (Suc j)) (8 * Suc j) = Some (Some b)"
      using Suc.prems j by (intro Suc.IH) simp_all
    ultimately show ?thesis
      using None unfolding find_loop_step [OF t(1)] by simp
  qed
qed simp

lemma find_loop_missing:
  assumes t: "fx_shape n t" and none: "\<And>b. \<not> holds n t p b"
    and w: "\<not> no_empty n (ctl t) (probe n s m)" and s: "s < n"
  shows "j \<le> m \<Longrightarrow> m - j < fuel \<Longrightarrow> find_loop t p fuel (probe n s j) (8 * j) = Some None"
proof (induction fuel arbitrary: j)
  case (Suc fuel)
  have pos: "probe n s j < n" by (rule probe_less) (use s in simp_all)
  have hit: "group_hit t p (probe n s j) = None"
    using none group_hit_holds [OF t pos] by (metis not_None_eq)
  show ?case
  proof (cases "fxEmpty \<in> set (fx_group t (probe n s j))")
    case False
    then have "j \<noteq> m" using w by (auto simp: group_has_empty [OF t pos])
    with Suc.prems have "find_loop t p fuel (probe n s (Suc j)) (8 * Suc j) = Some None"
      by (intro Suc.IH) simp_all
    with False hit show ?thesis unfolding find_loop_step [OF t] by simp
  qed (simp add: hit)
qed simp

lemma fx_find_found:
  assumes "fx_tab n t" and b: "holds n t p b"
  shows "fx_find t p = Some (Some b)"
proof -
  have t: "fx_shape n t" "ctl_ok n t" "keys_ok n t" using assms(1) by (simp_all add: fx_tab_def)
  have n: "0 < n" using shape_size [OF t(1)] by simp
  from assms have "reach (no_empty n (ctl t)) n (start n p) b" by (auto simp: fx_tab_def holds_def)
  then obtain m where m: "m < n" "b \<in> window n (probe n (start n p) m)"
      "\<forall>m'<m. no_empty n (ctl t) (probe n (start n p) m')" by (auto simp: reach_def)
  have "find_loop t p (n + 1) (probe n (start n p) 0) (8 * 0) = Some (Some b)"
    by (rule find_loop_found [OF t b m(2,3)]) (use n m(1) in simp_all)
  then show ?thesis
    by (simp add: fx_find_def shape_lengths [OF t(1)] fx_wrap_hash [OF t(1)] start_def)
qed

lemma fx_find_missing:
  assumes "fx_shape n t" and "\<And>b. \<not> holds n t p b" and e: "e < n" "ctl t e = fxEmpty"
  shows "fx_find t p = Some None"
proof -
  have n: "0 < n" using shape_size [OF assms(1)] by simp
  obtain k where k: "2 \<le> k" "n = 2 ^ k" using assms(1) by (auto simp: fx_shape_def)
  from probe_covers [OF k(2,1) start_less [OF n] e(1), of p]
  obtain m where m: "m < n" "e \<in> window n (probe n (start n p) m)" by blast
  have "\<not> no_empty n (ctl t) (probe n (start n p) m)" using m(2) e(2) by (auto simp: no_empty_def)
  then have "find_loop t p (n + 1) (probe n (start n p) 0) (8 * 0) = Some None"
    by (rule find_loop_missing [OF assms(1,2)]) (use n m(1) in simp_all)
  then show ?thesis
    by (simp add: fx_find_def shape_lengths [OF assms(1)] fx_wrap_hash [OF assms(1)] start_def)
qed

end
