(* ===== verification/FxInsert.thy ===== *)
theory FxInsert
  imports FxInvariant
begin

text \<open>
  Finding a free bucket, writing an entry to it, and the counters of the table.
\<close>

section \<open>The search for a free bucket\<close>

lemma group_all_full:
  assumes "fx_shape n t" and "pos < n"
  shows "(\<forall>i<8. fx_full (fx_group t pos ! i)) \<longleftrightarrow> all_full n (ctl t) pos"
proof (cases "n = 4")
  case True
  have "ctl t (pos + (7 - pos)) = fxEmpty"
    using assms(2) True by (subst ctl_pad [OF assms]) auto
  then have "\<not> fx_full (fx_group t pos ! (7 - pos))" by (simp only: group_nth(2) [OF assms]) simp
  then have "\<not> (\<forall>i<8. fx_full (fx_group t pos ! i))"
    by (auto intro!: exI [of _ "7 - pos"])
  with True show ?thesis by (simp add: all_full_def)
next
  case False
  then have "fx_group t pos ! i = ctl t ((pos + i) mod n)" if "i < 8" for i
    using that by (simp add: group_nth(2) [OF assms] ctl_pad [OF assms])
  with False show ?thesis by (auto simp: all_full_def window_def)
qed

text \<open>The bucket a free byte of a group stands for; a padding byte leads to the first free bucket.\<close>

definition free_bucket :: "fxTable \<Rightarrow> nat \<Rightarrow> nat \<Rightarrow> nat" where
  "free_bucket t pos i =
     (let b = fx_wrap t (int (pos + i)) in
      if fx_full (ctl t b) then
        (case List.find (\<lambda>j. \<not> fx_full (fx_group t 0 ! j)) [0..<length (fx_group t 0)] of
           Some j \<Rightarrow> j
         | None \<Rightarrow> b)
      else b)"

lemma insertSlot_step:
  assumes "fx_shape n t" and "pos < n"
  shows "insertSlot_loop t (Suc fuel) pos (8 * j) =
    (case List.find (\<lambda>i. \<not> fx_full (fx_group t pos ! i)) [0..<8] of
        Some i \<Rightarrow> Some (free_bucket t pos i)
      | None \<Rightarrow> insertSlot_loop t fuel ((pos + 8 * Suc j) mod n) (8 * Suc j))"
proof -
  have "8 * j + fxGroup = 8 * Suc j" by (simp add: fxGroup_def)
  then show ?thesis
    by (simp only: insertSlot_loop.simps Let_def fx_wrap_nat [OF assms(1)] group_nth(1) [OF assms] free_bucket_def)
      (simp split: option.split)
qed

lemma free_bucket_ok:
  assumes t: "fx_shape n t" and pos: "pos < n" and i: "i < 8" "\<not> fx_full (fx_group t pos ! i)"
    and e: "e < n" "\<not> fx_full (ctl t e)"
  shows "free_bucket t pos i < n \<and> \<not> fx_full (ctl t (free_bucket t pos i)) \<and> free_bucket t pos i \<in> window n pos"
proof (cases "fx_full (ctl t ((pos + i) mod n))")
  case False
  then have "free_bucket t pos i = (pos + i) mod n"
    unfolding free_bucket_def fx_wrap_nat [OF t] by simp
  with False i(1) pos show ?thesis by (auto simp: window_def)
next
  case True
  from True i(2) have n: "n = 4"
    using ctl_pad [OF t pos i(1)] by (simp add: group_nth(2) [OF t pos i(1)] split: if_splits)
  have g0: "length (fx_group t 0) = 8" "j < 8 \<Longrightarrow> fx_group t 0 ! j = ctl t j" for j
    using group_nth [OF t, of 0] n by simp_all
  obtain j where j: "List.find (\<lambda>j. \<not> fx_full (fx_group t 0 ! j)) [0..<8] = Some j"
    using e n g0 by (cases "List.find (\<lambda>j. \<not> fx_full (fx_group t 0 ! j)) [0..<8]") (auto simp: find_None_iff)
  then have 1: "j < 8" "\<not> fx_full (ctl t j)" and 2: "\<And>k. k < j \<Longrightarrow> fx_full (ctl t k)"
    using g0(2) by (auto simp: find_Some_iff)
  from 2 e(2) have "\<not> e < j" by blast
  with e(1) have "j < n" by simp
  moreover have "free_bucket t pos i = j"
    unfolding free_bucket_def fx_wrap_nat [OF t] g0(1) j using True by simp
  ultimately show ?thesis using 1 n pos by (simp add: window_4)
qed

lemma insertSlot_loop_ok:
  assumes t: "fx_shape n t" and s: "s < n" and e: "e < n" "\<not> fx_full (ctl t e)" "e \<in> window n (probe n s m)"
  shows "j \<le> m \<Longrightarrow> m - j < fuel \<Longrightarrow> \<forall>m'<j. all_full n (ctl t) (probe n s m') \<Longrightarrow>
    \<exists>b m0. insertSlot_loop t fuel (probe n s j) (8 * j) = Some b \<and> b < n \<and> \<not> fx_full (ctl t b) \<and> m0 \<le> m \<and>
      b \<in> window n (probe n s m0) \<and> (\<forall>m'<m0. all_full n (ctl t) (probe n s m'))"
proof (induction fuel arbitrary: j)
  case (Suc fuel)
  have pos: "probe n s j < n" by (rule probe_less) (use s in simp_all)
  show ?case
  proof (cases "List.find (\<lambda>i. \<not> fx_full (fx_group t (probe n s j) ! i)) [0..<8]")
    case (Some i)
    then have "i < 8" "\<not> fx_full (fx_group t (probe n s j) ! i)" by (auto simp: find_Some_iff)
    from free_bucket_ok [OF t pos this e(1,2)] Some Suc.prems show ?thesis
      unfolding insertSlot_step [OF t pos] by auto
  next
    case None
    then have "\<forall>i<8. fx_full (fx_group t (probe n s j) ! i)" by (auto simp: find_None_iff)
    then have full: "all_full n (ctl t) (probe n s j)" by (simp only: group_all_full [OF t pos])
    with e have "j \<noteq> m" by (auto simp: all_full_def)
    with Suc.prems full have "\<exists>b m0. insertSlot_loop t fuel (probe n s (Suc j)) (8 * Suc j) = Some b \<and> b < n \<and>
        \<not> fx_full (ctl t b) \<and> m0 \<le> m \<and>
        b \<in> window n (probe n s m0) \<and> (\<forall>m'<m0. all_full n (ctl t) (probe n s m'))"
      by (intro Suc.IH) (auto simp: less_Suc_eq)
    with None show ?thesis unfolding insertSlot_step [OF t pos] by simp
  qed
qed simp

lemma insertSlot_ok:
  assumes t: "fx_shape n t" and e: "e < n" "\<not> fx_full (ctl t e)"
  obtains b where "insertSlot t (fxHash p) = Some b" and "b < n" and "\<not> fx_full (ctl t b)"
    and "reach (all_full n (ctl t)) n (start n p) b"
proof -
  have n: "0 < n" using shape_size [OF t] by simp
  obtain k where k: "2 \<le> k" "n = 2 ^ k" using t by (auto simp: fx_shape_def)
  from probe_covers [OF k(2,1) start_less [OF n] e(1), of p]
  obtain m where m: "m < n" "e \<in> window n (probe n (start n p) m)" by blast
  from insertSlot_loop_ok [OF t start_less [OF n] e m(2), of 0 "n + 1"] m(1) n
  obtain b m0 where "insertSlot_loop t (n + 1) (start n p) 0 = Some b" "b < n" "\<not> fx_full (ctl t b)" "m0 \<le> m"
    "b \<in> window n (probe n (start n p) m0)" "\<forall>m'<m0. all_full n (ctl t) (probe n (start n p) m')"
    by auto
  with m(1) have "insertSlot t (fxHash p) = Some b" "b < n" "\<not> fx_full (ctl t b)"
      "reach (all_full n (ctl t)) n (start n p) b"
    by (auto simp: insertSlot_def shape_lengths [OF t] fx_wrap_hash [OF t] start_def reach_def intro: le_less_trans)
  then show ?thesis by (rule that)
qed

section \<open>Entries and counters\<close>

definition fulls :: "nat \<Rightarrow> fxTable \<Rightarrow> nat set" where
  "fulls n t = {b. b < n \<and> fx_full (ctl t b)}"

definition tombs :: "nat \<Rightarrow> fxTable \<Rightarrow> nat set" where
  "tombs n t = {b. b < n \<and> ctl t b = fxDeleted}"

lemma finite_fulls [simp]: "finite (fulls n t)"
  and finite_tombs [simp]: "finite (tombs n t)"
  by (simp_all add: fulls_def tombs_def)

definition entries :: "nat set \<Rightarrow> fxTable \<Rightarrow> (u64 \<times> i64) set" where
  "entries B t = (\<lambda>b. (fx_keys t ! b, fx_vals t ! b)) ` B"

text \<open>A free bucket takes an entry with a new key.\<close>

definition write_entry :: "nat \<Rightarrow> u64 \<Rightarrow> i64 \<Rightarrow> fxTable \<Rightarrow> fxTable" where
  "write_entry b k v t = set_entry b k v (setCtrl b (fxH2 (fxHash k)) t)"

lemma write_entry_simps [simp]:
  "fx_keys (write_entry b k v t) = (fx_keys t)[b := k]" "fx_vals (write_entry b k v t) = (fx_vals t)[b := v]"
  "fx_items (write_entry b k v t) = fx_items t" "fx_growthLeft (write_entry b k v t) = fx_growthLeft t"
  by (simp_all add: write_entry_def)

lemma write_entry_shape: "fx_shape n t \<Longrightarrow> b < n \<Longrightarrow> fx_shape n (write_entry b k v t)"
  by (simp add: write_entry_def setCtrl_shape)

lemma write_entry_ctl:
  "fx_shape n t \<Longrightarrow> b < n \<Longrightarrow> x < n \<Longrightarrow>
    ctl (write_entry b k v t) x = (if x = b then fxH2 (fxHash k) else ctl t x)"
  by (simp add: write_entry_def setCtrl_ctl)

lemma fulls_write:
  "fx_shape n t \<Longrightarrow> b < n \<Longrightarrow> fulls n (write_entry b k v t) = insert b (fulls n t)"
  by (auto simp: fulls_def write_entry_ctl)

lemma tombs_write:
  "fx_shape n t \<Longrightarrow> b < n \<Longrightarrow> tombs n (write_entry b k v t) = tombs n t - {b}"
  by (auto simp: tombs_def write_entry_ctl split: if_splits)

lemma entries_write:
  "fx_shape n t \<Longrightarrow> b < n \<Longrightarrow> b \<notin> B \<Longrightarrow> B \<subseteq> {..<n} \<Longrightarrow>
    entries (insert b B) (write_entry b k v t) = insert (k, v) (entries B t)"
  by (auto simp: entries_def shape_lengths nth_list_update image_iff)

text \<open>Filling buckets only takes empty bytes away.\<close>

lemma reach_fill:
  assumes "reach (no_empty n C) n p b" and "\<And>x. x < n \<Longrightarrow> C' x = fxEmpty \<Longrightarrow> C x = fxEmpty" and "0 < n"
  shows "reach (no_empty n C') n p b"
  using assms(1)
proof (rule reach_mono)
  fix pos
  assume "no_empty n C pos"
  with assms(2) window_less [OF assms(3)] show "no_empty n C' pos"
    by (auto simp: no_empty_def)
qed

lemma write_entry_tab:
  assumes tab: "fx_tab n t" and b: "b < n" "\<not> fx_full (ctl t b)"
    and r: "reach (all_full n (ctl t)) n (start n k) b" and new: "\<And>b. \<not> holds n t k b"
  shows "fx_tab n (write_entry b k v t)"
proof -
  have t: "fx_shape n t" "ctl_ok n t" "keys_ok n t" using tab by (simp_all add: fx_tab_def)
  let ?t = "write_entry b k v t"
  have n: "0 < n" using shape_size [OF t(1)] by simp
  note len = shape_lengths [OF t(1)]
  note c = write_entry_ctl [OF t(1) b(1)]
  have "ctl_ok n ?t"
    using t(2) b(1) by (auto simp: ctl_ok_def c nth_list_update len)
  moreover have "keys_ok n ?t"
    using t(3) b(1) new unfolding keys_ok_def holds_def
    by (auto simp: c nth_list_update len)
  moreover have "reach (no_empty n (ctl ?t)) n (start n (fx_keys ?t ! x)) x"
    if x: "x < n" "fx_full (ctl ?t x)" for x
  proof (cases "x = b")
    case True
    have "reach (no_empty n (ctl t)) n (start n k) b"
      by (rule reach_mono [OF r]) (rule all_full_no_empty)
    then have "reach (no_empty n (ctl ?t)) n (start n k) b"
      by (rule reach_fill [OF _ _ n]) (auto simp: c split: if_splits)
    with True b(1) show ?thesis by (simp add: len)
  next
    case False
    then have "reach (no_empty n (ctl t)) n (start n (fx_keys t ! x)) x"
      using tab x by (simp add: fx_tab_def c)
    then have "reach (no_empty n (ctl ?t)) n (start n (fx_keys t ! x)) x"
      by (rule reach_fill [OF _ _ n]) (auto simp: c split: if_splits)
    with False show ?thesis by simp
  qed
  ultimately show ?thesis
    using write_entry_shape [OF t(1) b(1)] by (simp add: fx_tab_def)
qed

end
