(* ===== verification/FxResize.thy ===== *)
theory FxResize
  imports FxInsert
begin

text \<open>
  Growing the table and rehashing it in place: both keep the entries, find a bucket for every
  one of them, and leave room for one more.
\<close>

section \<open>Sizes\<close>

lemma capacity_less: "4 \<le> n \<Longrightarrow> capacityOf (n - 1) < n"
  by (auto simp: capacityOf_def)

lemma double_to_power:
  "n = 2 ^ j \<Longrightarrow> \<exists>k\<ge>j. double_to n target = 2 ^ k \<and> target \<le> 2 ^ k"
proof (induction n target arbitrary: j rule: double_to.induct)
  case (1 n target)
  show ?case
  proof (cases "n < target")
    case True
    with 1(2) have "n < target \<and> 0 < n" "n * 2 = 2 ^ Suc j" by simp_all
    from 1(1) [OF this] have "\<exists>k\<ge>Suc j. double_to (n * 2) target = 2 ^ k \<and> target \<le> 2 ^ k" .
    with True 1(2) show ?thesis by (subst double_to.simps) (auto intro: Suc_leD)
  next
    case False
    with 1(2) show ?thesis by (subst double_to.simps) auto
  qed
qed

lemma bucketsFor_ok: "(\<exists>k\<ge>2. bucketsFor c = 2 ^ k) \<and> c \<le> capacityOf (bucketsFor c - 1)"
proof (cases "c < 15")
  case True
  consider "c < 4" | "\<not> c < 4" "c < 8" | "\<not> c < 8" by linarith
  then show ?thesis
  proof cases
    case 1
    then show ?thesis by (auto simp: bucketsFor_def capacityOf_def intro: exI [of _ 2])
  next
    case 2
    then show ?thesis by (auto simp: bucketsFor_def capacityOf_def intro: exI [of _ 3])
  next
    case 3
    with True show ?thesis by (auto simp: bucketsFor_def capacityOf_def intro: exI [of _ 4])
  qed
next
  case False
  obtain k where k: "double_to 1 (c * 8 div 7) = 2 ^ k" "c * 8 div 7 \<le> 2 ^ k"
    using double_to_power [of 1 0 "c * 8 div 7"] by auto
  have b: "bucketsFor c = 2 ^ k" using False k(1) by (simp add: bucketsFor_def)
  have "17 \<le> c * 8 div 7" using False by simp
  with k(2) have "17 \<le> (2 :: nat) ^ k" by simp
  then have "3 \<le> k"
  proof (rule contrapos_pp)
    assume "\<not> 3 \<le> k"
    then have "k \<in> {0, 1, 2}" by auto
    then show "\<not> 17 \<le> (2 :: nat) ^ k" by auto
  qed
  then obtain j where j: "k = 3 + j" using le_Suc_ex by blast
  have n: "(2 :: nat) ^ k = 8 * 2 ^ j" by (simp add: j power_add)
  have "capacityOf (2 ^ k - 1) = 2 ^ j * 7"
    using \<open>17 \<le> 2 ^ k\<close> by (simp add: capacityOf_def n)
  moreover have "c \<le> x * 7" if "c * 8 div 7 \<le> 8 * x" for x
  proof -
    have arith: "c * 8 < 7 + 7 * q \<Longrightarrow> q \<le> 8 * x \<Longrightarrow> c \<le> x * 7" for q by simp
    show ?thesis
      by (rule arith [OF dividend_less_times_div that]) simp
  qed
  then have "c \<le> 2 ^ j * 7" using k(2) by (simp add: n)
  ultimately show ?thesis using b \<open>3 \<le> k\<close> by auto
qed

section \<open>A new table\<close>

lemma fx_alloc_tab:
  assumes "\<exists>k\<ge>2. n = 2 ^ k"
  shows "fx_tab n (fx_alloc n)" and "fulls n (fx_alloc n) = {}" and "tombs n (fx_alloc n) = {}"
proof -
  from assms obtain k where k: "2 \<le> k" "n = 2 ^ k" by blast
  have n: "4 \<le> n" using power_increasing [OF k(1), of "2 :: nat"] k(2) by simp
  have c: "ctl (fx_alloc n) b = fxEmpty" if "b < n + 8" for b
    using that by (simp add: fx_alloc_def fxGroup_def)
  have "ctl (fx_alloc n) j = (if n = 4 \<and> j < 8 then fxEmpty else ctl (fx_alloc n) (j mod n))" if "j < n + 8" for j
  proof -
    have "j mod n < n" using n by simp
    then show ?thesis using that by (simp add: c)
  qed
  then have "fx_shape n (fx_alloc n)"
    using assms unfolding fx_shape_def by (simp add: fx_alloc_def fxGroup_def)
  then show "fx_tab n (fx_alloc n)"
    by (auto simp: fx_tab_def ctl_ok_def keys_ok_def c)
  show "fulls n (fx_alloc n) = {}" and "tombs n (fx_alloc n) = {}"
    by (auto simp: fulls_def tombs_def c)
qed

lemma free_exists:
  assumes "card (fulls n t) < n"
  obtains e where "e < n" and "\<not> fx_full (ctl t e)"
proof -
  have "\<not> {..<n} \<subseteq> fulls n t"
    using assms card_mono [of "fulls n t" "{..<n}"] by auto
  then show ?thesis using that by (auto simp: fulls_def)
qed

lemma holds_entries: "holds n t k b \<Longrightarrow> (k, fx_vals t ! b) \<in> entries (fulls n t) t"
  by (auto simp: holds_def entries_def fulls_def image_iff)

lemma entries_holds: "(k, v) \<in> entries (fulls n t) t \<Longrightarrow> \<exists>b. holds n t k b"
  by (auto simp: holds_def entries_def fulls_def)

section \<open>Growing\<close>

lemma resize_loop_ok:
  assumes old: "keys_ok N old"
  shows "fx_tab n t \<Longrightarrow> tombs n t = {} \<Longrightarrow> distinct bs \<Longrightarrow> set bs \<subseteq> {..<N} \<Longrightarrow>
    entries (fulls n t) t = entries (fulls N old - set bs) old \<Longrightarrow>
    card (fulls n t) + card (fulls N old \<inter> set bs) < n \<Longrightarrow>
    \<exists>t'. resize_loop old bs t = Some t' \<and> fx_tab n t' \<and> tombs n t' = {} \<and>
      entries (fulls n t') t' = entries (fulls N old) old \<and>
      card (fulls n t') = card (fulls n t) + card (fulls N old \<inter> set bs)"
proof (induction bs arbitrary: t)
  case (Cons b bs)
  have bN: "b < N" and b: "b \<notin> set bs" using Cons.prems by auto
  show ?case
  proof (cases "fx_full (ctl old b)")
    case False
    then have *: "fulls N old - set (b # bs) = fulls N old - set bs" "fulls N old \<inter> set (b # bs) = fulls N old \<inter> set bs"
      by (auto simp: fulls_def)
    have "\<exists>t'. resize_loop old bs t = Some t' \<and> fx_tab n t' \<and> tombs n t' = {} \<and>
      entries (fulls n t') t' = entries (fulls N old) old \<and>
      card (fulls n t') = card (fulls n t) + card (fulls N old \<inter> set bs)"
      using Cons.prems unfolding * by (intro Cons.IH) simp_all
    with False show ?thesis unfolding * by simp
  next
    case True
    then have bf: "b \<in> fulls N old" using bN by (simp add: fulls_def)
    have ins: "fulls N old \<inter> set (b # bs) = insert b (fulls N old \<inter> set bs)" using bf by auto
    have card: "card (fulls N old \<inter> set (b # bs)) = Suc (card (fulls N old \<inter> set bs))"
      unfolding ins using b by (subst card_insert_disjoint) simp_all
    let ?k = "fx_keys old ! b"
    let ?v = "fx_vals old ! b"
    have t: "fx_shape n t" using Cons.prems(1) by (simp add: fx_tab_def)
    have new: "\<not> holds n t ?k x" for x
    proof
      assume "holds n t ?k x"
      from holds_entries [OF this] have "(?k, fx_vals t ! x) \<in> entries (fulls N old - set (b # bs)) old"
        using Cons.prems(5) by simp
      then obtain y where "y \<in> fulls N old - set (b # bs)" "fx_keys old ! y = ?k"
        unfolding entries_def by force
      with keys_okD [OF old, of y b] bf show False by (auto simp: fulls_def)
    qed
    obtain e where e: "e < n" "\<not> fx_full (ctl t e)"
      using free_exists [of n t] Cons.prems(6) by auto
    obtain nb where nb: "insertSlot t (fxHash ?k) = Some nb" "nb < n" "\<not> fx_full (ctl t nb)"
      "reach (all_full n (ctl t)) n (start n ?k) nb"
      by (rule insertSlot_ok [OF t e])
    let ?t = "write_entry nb ?k ?v t"
    have nbf: "nb \<notin> fulls n t" using nb(3) by (simp add: fulls_def)
    have fulls: "fulls n ?t = insert nb (fulls n t)" by (rule fulls_write [OF t nb(2)])
    have "\<exists>t'. resize_loop old bs ?t = Some t' \<and> fx_tab n t' \<and> tombs n t' = {} \<and>
      entries (fulls n t') t' = entries (fulls N old) old \<and>
      card (fulls n t') = card (fulls n ?t) + card (fulls N old \<inter> set bs)"
    proof (rule Cons.IH)
      show "fx_tab n ?t" by (rule write_entry_tab [OF Cons.prems(1) nb(2,3,4) new])
      show "tombs n ?t = {}" using Cons.prems(2) by (simp add: tombs_write [OF t nb(2)])
      have "entries (fulls n ?t) ?t = insert (?k, ?v) (entries (fulls n t) t)"
        unfolding fulls by (rule entries_write [OF t nb(2) nbf]) (auto simp: fulls_def)
      also have "\<dots> = insert (?k, ?v) (entries (fulls N old - set (b # bs)) old)"
        by (simp only: Cons.prems(5))
      also have "\<dots> = entries (insert b (fulls N old - set (b # bs))) old" by (simp add: entries_def)
      also have "insert b (fulls N old - set (b # bs)) = fulls N old - set bs" using bf b by auto
      finally show "entries (fulls n ?t) ?t = entries (fulls N old - set bs) old" .
      show "card (fulls n ?t) + card (fulls N old \<inter> set bs) < n"
        using Cons.prems(6) nbf card by (simp add: fulls)
    qed (use Cons.prems in auto)
    with True nb(1) nbf show ?thesis
      unfolding card by (simp add: fulls flip: write_entry_def)
  qed
qed auto

end
