(* ===== verification/FxRehash.thy ===== *)
theory FxRehash
  imports FxResize
begin

text \<open>
  Rehashing in place. While it runs, a full byte is an entry at its final place, a deleted byte
  one that is still to be placed. The final entries are found through groups that are
  entirely full, which no later step changes.
\<close>

definition occ :: "nat \<Rightarrow> fxTable \<Rightarrow> nat set" where
  "occ n t = {b. b < n \<and> ctl t b \<noteq> fxEmpty}"

lemma finite_occ [simp]: "finite (occ n t)"
  by (simp add: occ_def)

definition fx_mid :: "nat \<Rightarrow> fxTable \<Rightarrow> bool" where
  "fx_mid n t \<longleftrightarrow>
     fx_shape n t \<and> ctl_ok n t \<and> inj_on (\<lambda>b. fx_keys t ! b) (occ n t) \<and>
     (\<forall>b<n. fx_full (ctl t b) \<longrightarrow> reach (all_full n (ctl t)) n (start n (fx_keys t ! b)) b)"

section \<open>Preparing the table\<close>

lemma copy_bytes:
  assumes t0: "fx_dims n t0" and "m \<le> n"
  defines "t \<equiv> fold (\<lambda>i t. setCtrl i (fx_ctrl t ! i) t) [0..<m] t0"
  shows "length (fx_ctrl t) = n + 8 \<and> fx_keys t = fx_keys t0 \<and> fx_vals t = fx_vals t0 \<and> fx_items t = fx_items t0 \<and>
    (\<forall>x<n. ctl t x = ctl t0 x) \<and>
    (\<forall>j. n \<le> j \<and> j < n + 8 \<longrightarrow> ctl t j =
      (if n = 4 then if 8 \<le> j \<and> j - 8 < m then ctl t0 (j - 8) else ctl t0 j
       else if j - n < m then ctl t0 (j - n) else ctl t0 j))"
  using assms(2) unfolding t_def
proof (induction m)
  case 0
  with t0 show ?case by (simp add: fx_dims_def)
next
  case (Suc m)
  define s where "s = fold (\<lambda>i t. setCtrl i (fx_ctrl t ! i) t) [0..<m] t0"
  note IH = Suc.IH [folded s_def]
  have s: "length (fx_ctrl s) = n + 8" "fx_keys s = fx_keys t0" "fx_vals s = fx_vals t0" "fx_items s = fx_items t0"
    and main: "\<And>x. x < n \<Longrightarrow> ctl s x = ctl t0 x"
    and rest: "\<And>j. n \<le> j \<Longrightarrow> j < n + 8 \<Longrightarrow> ctl s j =
      (if n = 4 then if 8 \<le> j \<and> j - 8 < m then ctl t0 (j - 8) else ctl t0 j
       else if j - n < m then ctl t0 (j - n) else ctl t0 j)"
    using IH Suc.prems by simp_all
  have dims: "fx_dims n s" using t0 s(1) by (simp add: fx_dims_def)
  have m: "m < n" using Suc.prems by simp
  have eq: "fold (\<lambda>i t. setCtrl i (fx_ctrl t ! i) t) [0..<Suc m] t0 = setCtrl m (ctl t0 m) s"
    by (simp add: s_def main [OF m, unfolded s_def])
  have c: "fx_ctrl (setCtrl m (ctl t0 m) s) =
      (fx_ctrl s)[m := ctl t0 m, (if n = 4 then m + 8 else if m < 8 then n + m else m) := ctl t0 m]"
    by (rule dims_setCtrl [OF dims m])
  note n8 = dims_mask(4) [OF dims]
  have "ctl (setCtrl m (ctl t0 m) s) x = ctl t0 x" if "x < n" for x
    using that m n8 unfolding c by (auto simp: nth_list_update s(1) main)
  moreover have "ctl (setCtrl m (ctl t0 m) s) j =
      (if n = 4 then if 8 \<le> j \<and> j - 8 < Suc m then ctl t0 (j - 8) else ctl t0 j
       else if j - n < Suc m then ctl t0 (j - n) else ctl t0 j)" if j: "n \<le> j" "j < n + 8" for j
  proof (cases "n = 4")
    case True
    have "ctl (setCtrl m (ctl t0 m) s) j = (if j = m + 8 then ctl t0 m else ctl s j)"
      using j m True unfolding c by (simp add: nth_list_update s(1))
    then show ?thesis using rest [OF j] True by (simp add: less_Suc_eq) linarith
  next
    case False
    then have "ctl (setCtrl m (ctl t0 m) s) j = (if j = n + m then ctl t0 m else ctl s j)"
      using j m n8 unfolding c by (simp add: nth_list_update s(1))
    moreover have "j - n < Suc m \<longleftrightarrow> j - n < m \<or> j = n + m" using j by arith
    ultimately show ?thesis using rest [OF j] False by simp
  qed
  ultimately show ?case unfolding eq by (simp add: c s)
qed

lemma mark_pending_ok:
  assumes "fx_tab n t"
  shows "fx_mid n (mark_pending t)" and "occ n (mark_pending t) = fulls n t"
    and "entries (occ n (mark_pending t)) (mark_pending t) = entries (fulls n t) t"
    and "fx_items (mark_pending t) = fx_items t"
proof -
  have t: "fx_shape n t" and k: "keys_ok n t" using assms by (simp_all add: fx_tab_def)
  note len = shape_lengths [OF t]
  define u where "u = t\<lparr>fx_ctrl := map (\<lambda>c. if fx_full c then fxDeleted else fxEmpty) (take n (fx_ctrl t)) @ drop n (fx_ctrl t)\<rparr>"
  have u: "fx_dims n u" "fx_keys u = fx_keys t" "fx_vals u = fx_vals t" "fx_items u = fx_items t"
    using t len by (simp_all add: fx_dims_def fx_shape_def u_def)
  have um: "ctl u x = (if fx_full (ctl t x) then fxDeleted else fxEmpty)" if "x < n" for x
    using that len by (simp add: u_def nth_append)
  have ur: "ctl u j = ctl t j" if "n \<le> j" "j < n + 8" for j
    using that len by (simp add: u_def nth_append)
  have eq: "mark_pending t = fold (\<lambda>i t. setCtrl i (fx_ctrl t ! i) t) [0..<n] u"
    by (simp add: mark_pending_def len u_def Let_def)
  note copy = copy_bytes [OF u(1) order_refl, folded eq]
  from copy u have p: "length (fx_ctrl (mark_pending t)) = n + 8" "fx_keys (mark_pending t) = fx_keys t"
      "fx_vals (mark_pending t) = fx_vals t" "fx_items (mark_pending t) = fx_items t" by simp_all
  then show "fx_items (mark_pending t) = fx_items t" by simp
  have pm: "ctl (mark_pending t) x = (if fx_full (ctl t x) then fxDeleted else fxEmpty)" if "x < n" for x
    using copy um that by simp
  have n4: "4 \<le> n" by (rule shape_size [OF t])
  have pr: "ctl (mark_pending t) j = (if n = 4 \<and> j < 8 then fxEmpty else ctl (mark_pending t) (j mod n))"
    if j: "n \<le> j" "j < n + 8" for j
  proof (cases "n = 4")
    case True
    have "ctl t j = fxEmpty" if "j < 8" using t j True that by (simp add: fx_shape_def)
    moreover have "j mod 4 = j - 8" if "8 \<le> j"
      using that j True by presburger
    moreover have "j - 8 < 4" using j True by arith
    moreover have "ctl (mark_pending t) j = (if 8 \<le> j \<and> j - 8 < 4 then ctl u (j - 8) else ctl u j)"
      using copy j True by simp
    ultimately show ?thesis
      using j True um ur [OF j] pm by (cases "j < 8") simp_all
  next
    case False
    note n8 = shape_ge8 [OF t False]
    then have "j mod n = j - n" using j by (simp add: mod_if)
    moreover have "j - n < n" using j n8 by arith
    ultimately show ?thesis using copy um j False by simp
  qed
  have shape: "fx_shape n (mark_pending t)"
    using t p pr unfolding fx_shape_def by simp
  show occ: "occ n (mark_pending t) = fulls n t"
    by (auto simp: occ_def fulls_def pm split: if_splits)
  show "entries (occ n (mark_pending t)) (mark_pending t) = entries (fulls n t) t"
    unfolding occ by (simp add: entries_def p)
  have "inj_on (\<lambda>b. fx_keys t ! b) (fulls n t)"
    using k by (auto simp: inj_on_def fulls_def keys_ok_def)
  with shape show "fx_mid n (mark_pending t)"
    by (auto simp: fx_mid_def ctl_ok_def pm occ p)
qed

section \<open>One bucket\<close>

lemma probe_group_tile:
  assumes "fx_shape n t" and "s < n"
  shows "probe_group t s x = tile n s x"
proof -
  have "(int x - int s) mod int n = (int x - int s + int n) mod int n" by simp
  also have "int x - int s + int n = int (x + (n - s))" using assms(2) by simp
  finally have "nat ((int x - int s) mod int n) = (x + (n - s)) mod n"
    by (simp only: nat_mod_as_int)
  then show ?thesis
    by (simp add: probe_group_def fxGroup_def fx_wrap_mod [OF assms(1)] tile_def)
qed

lemma same_group_reach:
  assumes t: "fx_shape n t" and r: "reach P n s b" and x: "x < n" "b < n" "s < n" and tile: "tile n s x = tile n s b"
  shows "reach P n s x"
proof (cases "n = 4")
  case True
  with x show ?thesis unfolding reach_def by (intro exI [of _ 0]) (simp add: window_4)
next
  case False
  from r obtain m where m: "m < n" "b \<in> window n (probe n s m)" "\<forall>m'<m. P (probe n s m')"
    by (auto simp: reach_def)
  note w = window_tile [OF shape_8 [OF t False] x(3)]
  from m(2) tile have "x \<in> window n (probe n s m)" by (simp only: w [OF x(1)] w [OF x(2)])
  with m show ?thesis by (auto simp: reach_def)
qed

lemma reach_full_mono:
  assumes "reach (all_full n C) n p b" and "\<And>x. x < n \<Longrightarrow> fx_full (C x) \<Longrightarrow> fx_full (C' x)" and "0 < n"
  shows "reach (all_full n C') n p b"
  using assms(1)
proof (rule reach_mono)
  fix pos
  assume "all_full n C pos"
  with assms(2) window_less [OF assms(3)] show "all_full n C' pos"
    by (auto simp: all_full_def)
qed

text \<open>An entry stays in its bucket.\<close>

lemma rehash_stay:
  assumes mid: "fx_mid n t" and i: "i < n" "ctl t i = fxDeleted"
    and r: "reach (all_full n (ctl t)) n (start n (fx_keys t ! i)) i"
  defines "t' \<equiv> setCtrl i (fxH2 (fxHash (fx_keys t ! i))) t"
  shows "fx_mid n t' \<and> occ n t' = occ n t"
proof -
  have t: "fx_shape n t" and ok: "ctl_ok n t" using mid by (simp_all add: fx_mid_def)
  have n: "0 < n" using i(1) by simp
  note c = setCtrl_ctl [OF t i(1), of _ "fxH2 (fxHash (fx_keys t ! i))", folded t'_def]
  have keys: "fx_keys t' = fx_keys t" by (simp add: t'_def)
  have occ: "occ n t' = occ n t" using i by (auto simp: occ_def c split: if_splits)
  have "reach (all_full n (ctl t')) n (start n (fx_keys t' ! x)) x" if x: "x < n" "fx_full (ctl t' x)" for x
  proof -
    have "reach (all_full n (ctl t)) n (start n (fx_keys t ! x)) x"
      using x r mid by (cases "x = i") (simp_all add: c fx_mid_def)
    then show ?thesis
      unfolding keys by (rule reach_full_mono [OF _ _ n]) (simp add: c)
  qed
  with ok mid show ?thesis
    using setCtrl_shape [OF t i(1), of "fxH2 (fxHash (fx_keys t ! i))"]
    by (auto simp: fx_mid_def occ keys ctl_ok_def c t'_def [symmetric])
qed

text \<open>An entry moves to an empty bucket.\<close>

lemma rehash_move:
  assumes mid: "fx_mid n t" and i: "i < n" "ctl t i = fxDeleted" and ni: "ni < n" "ctl t ni = fxEmpty"
    and r: "reach (all_full n (ctl t)) n (start n (fx_keys t ! i)) ni"
  defines "t' \<equiv> set_entry ni (fx_keys t ! i) (fx_vals t ! i)
    (setCtrl i fxEmpty (setCtrl ni (fxH2 (fxHash (fx_keys t ! i))) t))"
  shows "fx_mid n t' \<and> occ n t' = insert ni (occ n t - {i}) \<and> ni \<noteq> i \<and>
    entries (occ n t') t' = entries (occ n t) t"
proof -
  let ?k = "fx_keys t ! i"
  have t: "fx_shape n t" and ok: "ctl_ok n t" and inj: "inj_on (\<lambda>b. fx_keys t ! b) (occ n t)"
    using mid by (simp_all add: fx_mid_def)
  have n: "0 < n" using i(1) by simp
  note len = shape_lengths [OF t]
  note s1 = setCtrl_shape [OF t ni(1), of "fxH2 (fxHash ?k)"]
  have ne: "ni \<noteq> i" using i(2) ni(2) by auto
  have c: "ctl t' x = (if x = i then fxEmpty else if x = ni then fxH2 (fxHash ?k) else ctl t x)" if "x < n" for x
    using that unfolding t'_def by (simp add: setCtrl_ctl [OF s1 i(1)] setCtrl_ctl [OF t ni(1)])
  have keys: "fx_keys t' = (fx_keys t)[ni := ?k]" "fx_vals t' = (fx_vals t)[ni := fx_vals t ! i]"
    by (simp_all add: t'_def)
  have io: "i \<in> occ n t" and nio: "ni \<notin> occ n t" using i ni by (simp_all add: occ_def)
  have occ: "occ n t' = insert ni (occ n t - {i})"
    using i ni ne by (auto simp: occ_def c split: if_splits)
  have "fx_keys t' ! x \<noteq> ?k" if "x \<in> occ n t - {i}" for x
  proof
    assume "fx_keys t' ! x = ?k"
    moreover have "x \<noteq> ni" using that nio by auto
    ultimately have "fx_keys t ! x = ?k" by (simp add: keys)
    with inj_onD [OF inj this] that io show False by auto
  qed
  moreover have "inj_on (\<lambda>b. fx_keys t' ! b) (occ n t - {i})"
  proof -
    have "fx_keys t' ! x = fx_keys t ! x" if "x \<in> occ n t" for x
    proof -
      have "ni \<noteq> x" using that nio by auto
      then show ?thesis by (simp add: keys)
    qed
    with inj show ?thesis by (auto simp: inj_on_def)
  qed
  ultimately have "inj_on (\<lambda>b. fx_keys t' ! b) (occ n t')"
    unfolding occ using ni(1) by (auto simp: inj_on_def keys len dest: sym)
  moreover have "ctl_ok n t'"
    using ok by (auto simp: ctl_ok_def c keys len nth_list_update)
  moreover have "reach (all_full n (ctl t')) n (start n (fx_keys t' ! x)) x" if x: "x < n" "fx_full (ctl t' x)" for x
  proof -
    have "reach (all_full n (ctl t)) n (start n (fx_keys t' ! x)) x"
      using x r mid ni(1) by (cases "x = ni") (auto simp: c fx_mid_def keys len split: if_splits)
    then show ?thesis
      by (rule reach_full_mono [OF _ _ n]) (use i in \<open>auto simp: c\<close>)
  qed
  moreover have "fx_shape n t'" using setCtrl_shape [OF s1 i(1)] by (simp add: t'_def)
  moreover have "entries (occ n t') t' = entries (occ n t) t"
  proof -
    have "entries (occ n t') t' = insert (?k, fx_vals t ! i) (entries (occ n t - {i}) t')"
      unfolding occ using ni(1) by (simp add: entries_def keys len)
    also have "entries (occ n t - {i}) t' = entries (occ n t - {i}) t"
    proof -
      have "fx_keys t' ! x = fx_keys t ! x" "fx_vals t' ! x = fx_vals t ! x" if "x \<in> occ n t - {i}" for x
      proof -
        have "ni \<noteq> x" using that nio by auto
        then show "fx_keys t' ! x = fx_keys t ! x" "fx_vals t' ! x = fx_vals t ! x" by (simp_all add: keys)
      qed
      then show ?thesis unfolding entries_def by (intro image_cong) simp_all
    qed
    also have "insert (?k, fx_vals t ! i) (entries (occ n t - {i}) t) = entries (insert i (occ n t - {i})) t"
      by (simp only: entries_def image_insert)
    also have "insert i (occ n t - {i}) = occ n t" using io by auto
    finally show ?thesis .
  qed
  ultimately show ?thesis using occ ne by (simp add: fx_mid_def)
qed

text \<open>An entry changes places with one that is still to be placed.\<close>

lemma rehash_swap:
  assumes mid: "fx_mid n t" and i: "i < n" "ctl t i = fxDeleted" and ni: "ni < n" "ctl t ni = fxDeleted" "ni \<noteq> i"
    and r: "reach (all_full n (ctl t)) n (start n (fx_keys t ! i)) ni"
  defines "t' \<equiv> swap_entries i ni (setCtrl ni (fxH2 (fxHash (fx_keys t ! i))) t)"
  shows "fx_mid n t' \<and> occ n t' = occ n t \<and> tombs n t' = tombs n t - {ni} \<and>
    entries (occ n t') t' = entries (occ n t) t"
proof -
  let ?k = "fx_keys t ! i"
  have t: "fx_shape n t" and ok: "ctl_ok n t" and inj: "inj_on (\<lambda>b. fx_keys t ! b) (occ n t)"
    using mid by (simp_all add: fx_mid_def)
  have n: "0 < n" using i(1) by simp
  note len = shape_lengths [OF t]
  note s1 = setCtrl_shape [OF t ni(1), of "fxH2 (fxHash ?k)"]
  have c: "ctl t' x = (if x = ni then fxH2 (fxHash ?k) else ctl t x)" if "x < n" for x
    using that unfolding t'_def by (simp add: swap_entries_def setCtrl_ctl [OF t ni(1)])
  define \<pi> where "\<pi> = (\<lambda>x. if x = i then ni else if x = ni then i else x)"
  have keys: "fx_keys t' ! x = fx_keys t ! \<pi> x" "fx_vals t' ! x = fx_vals t ! \<pi> x" if "x < n" for x
    using that i ni by (auto simp: t'_def swap_entries_def \<pi>_def len nth_list_update)
  have occ: "occ n t' = occ n t" using i ni by (auto simp: occ_def c split: if_splits)
  have io: "i \<in> occ n t" "ni \<in> occ n t" using i ni by (simp_all add: occ_def)
  have \<pi>: "\<pi> x \<in> occ n t" "\<pi> (\<pi> x) = x" if "x \<in> occ n t" for x
    using that io by (auto simp: \<pi>_def)
  have less: "x < n" if "x \<in> occ n t" for x using that by (simp add: occ_def)
  have "inj_on (\<lambda>b. fx_keys t' ! b) (occ n t')"
  proof (rule inj_onI)
    fix x y
    assume xy: "x \<in> occ n t'" "y \<in> occ n t'" and "fx_keys t' ! x = fx_keys t' ! y"
    then have "fx_keys t ! \<pi> x = fx_keys t ! \<pi> y" by (simp add: occ keys less)
    then have "\<pi> x = \<pi> y" using xy by (intro inj_onD [OF inj]) (simp_all add: occ \<pi>)
    then have "\<pi> (\<pi> x) = \<pi> (\<pi> y)" by simp
    then show "x = y" using xy by (simp add: occ \<pi>)
  qed
  moreover have "ctl_ok n t'"
    unfolding ctl_ok_def
  proof (intro allI impI)
    fix x
    assume x: "x < n"
    then show "ctl t' x = fxEmpty \<or> ctl t' x = fxDeleted \<or> ctl t' x = fxH2 (fxHash (fx_keys t' ! x))"
      using ok i ni by (auto simp: ctl_ok_def c keys \<pi>_def)
  qed
  moreover have "reach (all_full n (ctl t')) n (start n (fx_keys t' ! x)) x" if x: "x < n" "fx_full (ctl t' x)" for x
  proof -
    have "reach (all_full n (ctl t)) n (start n (fx_keys t' ! x)) x"
      using x r mid i ni by (cases "x = ni") (auto simp: c fx_mid_def keys \<pi>_def)
    then show ?thesis
      by (rule reach_full_mono [OF _ _ n]) (use ni in \<open>auto simp: c\<close>)
  qed
  moreover have "fx_shape n t'"
    using s1 by (simp add: t'_def swap_entries_def fx_shape_def)
  moreover have "entries (occ n t') t' = entries (occ n t) t"
  proof -
    have "entries (occ n t') t' = (\<lambda>x. (fx_keys t ! x, fx_vals t ! x)) ` \<pi> ` occ n t"
      unfolding entries_def image_image by (intro image_cong) (auto simp: occ keys less)
    also have "\<pi> ` occ n t = occ n t"
      using \<pi> by (metis (no_types, lifting) image_eqI image_subsetI subset_antisym subsetI)
    finally show ?thesis by (simp add: entries_def)
  qed
  moreover have "tombs n t' = tombs n t - {ni}"
    by (auto simp: tombs_def c split: if_splits)
  ultimately show ?thesis using occ by (simp add: fx_mid_def)
qed

lemma rehash_bucket_ok:
  "fx_mid n t \<Longrightarrow> i < n \<Longrightarrow> ctl t i = fxDeleted \<Longrightarrow> \<forall>b<i. ctl t b \<noteq> fxDeleted \<Longrightarrow> card (tombs n t) < fuel \<Longrightarrow>
    \<exists>t'. rehash_bucket fuel i t = Some t' \<and> fx_mid n t' \<and> (\<forall>b<Suc i. ctl t' b \<noteq> fxDeleted) \<and>
      entries (occ n t') t' = entries (occ n t) t \<and> card (occ n t') = card (occ n t) \<and> fx_items t' = fx_items t"
proof (induction fuel arbitrary: t)
  case (Suc fuel)
  let ?k = "fx_keys t ! i"
  note mid = Suc.prems(1) and i = Suc.prems(2,3) and low = Suc.prems(4)
  have t: "fx_shape n t" using mid by (simp add: fx_mid_def)
  have n: "0 < n" using i(1) by simp
  note len = shape_lengths [OF t]
  have "\<not> fx_full (ctl t i)" using i(2) by simp
  then obtain ni where ni: "insertSlot t (fxHash ?k) = Some ni" "ni < n" "\<not> fx_full (ctl t ni)"
    "reach (all_full n (ctl t)) n (start n ?k) ni"
    by (rule insertSlot_ok [OF t i(1)])
  have pg: "probe_group t (fx_wrap t (uint (fxHash ?k))) x = tile n (start n ?k) x" for x
    unfolding fx_wrap_hash [OF t] start_def [symmetric] by (rule probe_group_tile [OF t start_less [OF n]])
  have items: "fx_items (setCtrl b c u) = fx_items u" "fx_items (set_entry b k v u) = fx_items u"
    "fx_items (swap_entries b b' u) = fx_items u" for b b' c k v u
    by (simp_all add: swap_entries_def)
  show ?case
  proof (cases "tile n (start n ?k) i = tile n (start n ?k) ni")
    case True
    define u where "u = setCtrl i (fxH2 (fxHash ?k)) t"
    have "reach (all_full n (ctl t)) n (start n ?k) i"
      by (rule same_group_reach [OF t ni(4) i(1) ni(2) start_less [OF n] True])
    note stay = rehash_stay [OF mid i this, folded u_def]
    have "\<forall>b<Suc i. ctl u b \<noteq> fxDeleted"
      unfolding u_def using low i(1) by (auto simp: setCtrl_ctl [OF t i(1)] less_Suc_eq)
    moreover have "entries (occ n u) u = entries (occ n t) t"
      using stay by (simp add: entries_def u_def)
    moreover have "rehash_bucket (Suc fuel) i t = Some u"
      unfolding u_def using True by (simp add: ni(1) pg Let_def)
    moreover have "fx_items u = fx_items t" by (simp add: u_def items)
    ultimately show ?thesis using stay by (intro exI [of _ u]) simp
  next
    case False
    then have ne: "ni \<noteq> i" by auto
    show ?thesis
    proof (cases "ctl t ni = fxEmpty")
      case empty: True
      define u where "u = set_entry ni ?k (fx_vals t ! i) (setCtrl i fxEmpty (setCtrl ni (fxH2 (fxHash ?k)) t))"
      note s1 = setCtrl_shape [OF t ni(2), of "fxH2 (fxHash ?k)"]
      note m = rehash_move [OF mid i ni(2) empty ni(4), folded u_def]
      have "i \<in> occ n t" "ni \<notin> occ n t" using i ni empty by (simp_all add: occ_def)
      with m have "card (occ n u) = card (occ n t)" by (simp add: card_Suc_Diff1 del: card_Diff_insert)
      moreover have c: "ctl u b = (if b = i then fxEmpty else if b = ni then fxH2 (fxHash ?k) else ctl t b)" if "b < n" for b
        using that unfolding u_def by (simp add: setCtrl_ctl [OF s1 i(1)] setCtrl_ctl [OF t ni(2)])
      have "\<forall>b<Suc i. ctl u b \<noteq> fxDeleted"
        using low i(1) by (auto simp: c less_Suc_eq)
      moreover have "rehash_bucket (Suc fuel) i t = Some u"
        unfolding u_def using False empty by (simp add: ni(1) pg Let_def)
      moreover have "fx_items u = fx_items t" by (simp add: u_def items)
      ultimately show ?thesis
        using m [THEN conjunct1] m [THEN conjunct2, THEN conjunct2, THEN conjunct2] by blast
    next
      case False2: False
      have "ctl_ok n t" using mid by (simp add: fx_mid_def)
      with ni(2,3) False2 have del: "ctl t ni = fxDeleted" by (auto simp: ctl_ok_def)
      define u where "u = swap_entries i ni (setCtrl ni (fxH2 (fxHash ?k)) t)"
      note swap = rehash_swap [OF mid i ni(2) del ne ni(4), folded u_def]
      have c: "ctl u x = (if x = ni then fxH2 (fxHash ?k) else ctl t x)" if "x < n" for x
        using that unfolding u_def by (simp add: swap_entries_def setCtrl_ctl [OF t ni(2)])
      have "ni \<in> tombs n t" using ni(2) del by (simp add: tombs_def)
      then have "card (tombs n t - {ni}) < card (tombs n t)" by (intro card_Diff1_less) simp_all
      with swap have "card (tombs n u) < card (tombs n t)" by metis
      then have less: "card (tombs n u) < fuel" using Suc.prems(5) by simp
      have "\<forall>b<i. ctl u b \<noteq> fxDeleted" and "ctl u i = fxDeleted"
        using low i ne by (simp_all add: c)
      from Suc.IH [OF swap [THEN conjunct1] i(1) this(2,1) less] obtain t' where
        t': "rehash_bucket fuel i u = Some t'" "fx_mid n t'" "\<forall>b<Suc i. ctl t' b \<noteq> fxDeleted"
          "entries (occ n t') t' = entries (occ n u) u" "card (occ n t') = card (occ n u)" "fx_items t' = fx_items u"
        by blast
      have "rehash_bucket (Suc fuel) i t = rehash_bucket fuel i u"
        unfolding u_def using False False2 by (simp add: ni(1) pg Let_def)
      moreover have "fx_items u = fx_items t" by (simp add: u_def items)
      ultimately show ?thesis
        using t' swap [THEN conjunct2, THEN conjunct1] swap [THEN conjunct2, THEN conjunct2, THEN conjunct2]
        by (intro exI [of _ t'] conjI) metis+
    qed
  qed
qed simp

section \<open>All buckets\<close>

lemma rehash_loop_ok:
  "fx_mid n t \<Longrightarrow> i \<le> n \<Longrightarrow> \<forall>b<i. ctl t b \<noteq> fxDeleted \<Longrightarrow>
    \<exists>t'. rehash_loop [i..<n] t = Some t' \<and> fx_mid n t' \<and> (\<forall>b<n. ctl t' b \<noteq> fxDeleted) \<and>
      entries (occ n t') t' = entries (occ n t) t \<and> card (occ n t') = card (occ n t) \<and> fx_items t' = fx_items t"
proof (induction "n - i" arbitrary: i t)
  case (Suc d)
  have t: "fx_shape n t" using Suc.prems(1) by (simp add: fx_mid_def)
  have i: "i < n" using Suc.hyps(2) by simp
  then have up: "[i..<n] = i # [Suc i..<n]" by (rule upt_conv_Cons)
  show ?case
  proof (cases "ctl t i = fxDeleted")
    case False
    then have "\<forall>b<Suc i. ctl t b \<noteq> fxDeleted" using Suc.prems(3) by (auto simp: less_Suc_eq)
    with Suc i have "\<exists>t'. rehash_loop [Suc i..<n] t = Some t' \<and> fx_mid n t' \<and> (\<forall>b<n. ctl t' b \<noteq> fxDeleted) \<and>
      entries (occ n t') t' = entries (occ n t) t \<and> card (occ n t') = card (occ n t) \<and> fx_items t' = fx_items t"
      by (intro Suc.hyps(1)) simp_all
    with False show ?thesis unfolding up by simp
  next
    case True
    have "card (tombs n t) \<le> card {..<n}" by (intro card_mono) (auto simp: tombs_def)
    then have "card (tombs n t) < fx_fuel t" by (simp add: shape_lengths [OF t])
    from rehash_bucket_ok [OF Suc.prems(1) i True Suc.prems(3) this]
    obtain u where u: "rehash_bucket (fx_fuel t) i t = Some u" "fx_mid n u" "\<forall>b<Suc i. ctl u b \<noteq> fxDeleted"
      "entries (occ n u) u = entries (occ n t) t" "card (occ n u) = card (occ n t)" "fx_items u = fx_items t"
      by blast
    have "\<exists>t'. rehash_loop [Suc i..<n] u = Some t' \<and> fx_mid n t' \<and> (\<forall>b<n. ctl t' b \<noteq> fxDeleted) \<and>
      entries (occ n t') t' = entries (occ n u) u \<and> card (occ n t') = card (occ n u) \<and> fx_items t' = fx_items u"
      using Suc.hyps(2) i u by (intro Suc.hyps(1)) simp_all
    with True u show ?thesis unfolding up by simp
  qed
qed simp

text \<open>Without deleted bytes, the entries of a table in the middle of a rehash are all final.\<close>

lemma mid_tab:
  assumes "fx_mid n t" and "\<forall>b<n. ctl t b \<noteq> fxDeleted"
  shows "fx_tab n t" and "occ n t = fulls n t" and "tombs n t = {}"
proof -
  have ok: "ctl_ok n t" using assms(1) by (simp add: fx_mid_def)
  then show occ: "occ n t = fulls n t" using assms(2) by (auto simp: occ_def fulls_def ctl_ok_def)
  show "tombs n t = {}" using assms(2) by (simp add: tombs_def)
  have "keys_ok n t"
    using assms(1) unfolding fx_mid_def occ by (auto simp: keys_ok_def inj_on_def fulls_def)
  with assms(1) show "fx_tab n t"
    by (auto simp: fx_mid_def fx_tab_def intro: reach_mono all_full_no_empty)
qed

end
