(* ===== verification/FxMap.thy ===== *)
theory FxMap
  imports FxRehash
begin

text \<open>
  The hash table refines a finite map. \<open>fx_ok\<close> is the invariant of every table the program
  makes, counters included, \<open>fx_map\<close> the map it stands for. Every operation ends, keeps the
  invariant and acts on the map as its name says.
\<close>

section \<open>Abstraction\<close>

definition fx_ok :: "fxTable \<Rightarrow> bool" where
  "fx_ok t \<longleftrightarrow> t = fx_nil \<or>
     (\<exists>n. fx_tab n t \<and> fx_items t = int (card (fulls n t)) \<and>
       fx_growthLeft t = int (capacityOf (n - 1)) - fx_items t - int (card (tombs n t)) \<and> 0 \<le> fx_growthLeft t)"

definition fx_pairs :: "fxTable \<Rightarrow> (u64 \<times> i64) list" where
  "fx_pairs t = map (\<lambda>e. (Peer e, Counter e)) (fx_ids t)"

definition fx_map :: "fxTable \<Rightarrow> u64 \<Rightarrow> i64 option" where
  "fx_map t = map_of (fx_pairs t)"

lemma fx_map_nil [simp]: "fx_map fx_nil = Map.empty"
  by (simp add: fx_map_def fx_pairs_def fx_ids_def fx_nil_def fx_buckets_def)

lemma fx_ok_nil [simp]: "fx_ok fx_nil"
  by (simp add: fx_ok_def)

lemma pairs_eq:
  assumes "fx_shape n t"
  shows "fx_pairs t = map (\<lambda>b. (fx_keys t ! b, fx_vals t ! b)) (filter (\<lambda>b. fx_full (ctl t b)) [0..<n])"
  by (simp add: fx_pairs_def fx_ids_def shape_lengths [OF assms])

lemma pairs_set: "fx_shape n t \<Longrightarrow> set (fx_pairs t) = entries (fulls n t) t"
  by (auto simp: pairs_eq entries_def fulls_def)

lemma pairs_distinct:
  assumes "fx_shape n t" and "keys_ok n t"
  shows "distinct (map fst (fx_pairs t))"
  using assms(2) by (auto simp: pairs_eq [OF assms(1)] distinct_map inj_on_def keys_ok_def)

lemma pairs_length: "fx_shape n t \<Longrightarrow> length (fx_pairs t) = card (fulls n t)"
proof -
  assume t: "fx_shape n t"
  have "fulls n t = set (filter (\<lambda>b. fx_full (ctl t b)) [0..<n])" by (auto simp: fulls_def)
  then have "card (fulls n t) = length (filter (\<lambda>b. fx_full (ctl t b)) [0..<n])"
    by (simp only: distinct_card distinct_filter distinct_upt)
  then show ?thesis by (simp add: pairs_eq [OF t])
qed

lemma fx_map_iff:
  assumes "fx_tab n t"
  shows "fx_map t p = Some v \<longleftrightarrow> (p, v) \<in> entries (fulls n t) t"
  using assms pairs_distinct [of n t] pairs_set [of n t]
  by (simp add: fx_map_def fx_tab_def map_of_eq_Some_iff)

lemma fx_map_eqI:
  assumes "fx_tab n t" and "fx_tab n' t'" and "entries (fulls n' t') t' = entries (fulls n t) t"
  shows "fx_map t' = fx_map t"
proof
  fix p
  show "fx_map t' p = fx_map t p"
    using fx_map_iff [OF assms(1), of p] fx_map_iff [OF assms(2), of p] assms(3)
    by (metis option.exhaust)
qed

lemma fx_map_holds:
  assumes "fx_tab n t"
  shows "fx_map t p = Some v \<longleftrightarrow> (\<exists>b. holds n t p b \<and> fx_vals t ! b = v)"
  unfolding fx_map_iff [OF assms] by (auto simp: entries_def holds_def fulls_def)

lemma fx_map_none:
  assumes "fx_tab n t"
  shows "fx_map t p = None \<longleftrightarrow> (\<forall>b. \<not> holds n t p b)"
  using fx_map_holds [OF assms, of p] by (metis option.exhaust option.distinct(1))

text \<open>Two tables with the same entries have as many full buckets.\<close>

lemma card_entries:
  assumes "keys_ok n t"
  shows "card (entries (fulls n t) t) = card (fulls n t)"
  unfolding entries_def
  by (rule card_image) (use assms in \<open>auto simp: inj_on_def fulls_def keys_ok_def\<close>)

lemma empty_exists:
  assumes "fx_tab n t" and "card (fulls n t) + card (tombs n t) < n"
  obtains e where "e < n" and "ctl t e = fxEmpty"
proof -
  have "card (fulls n t \<union> tombs n t) < card {..<n}"
    using assms(2) card_Un_le [of "fulls n t" "tombs n t"] by simp
  then have "\<not> {..<n} \<subseteq> fulls n t \<union> tombs n t"
    using card_mono [of "fulls n t \<union> tombs n t" "{..<n}"] by auto
  then obtain e where e: "e < n" "e \<notin> fulls n t" "e \<notin> tombs n t" by auto
  moreover have "ctl_ok n t" using assms(1) by (simp add: fx_tab_def)
  ultimately have "ctl t e = fxEmpty" by (auto simp: ctl_ok_def fulls_def tombs_def)
  with e(1) show ?thesis by (rule that)
qed

lemma fx_okE:
  assumes "fx_ok t"
  obtains "t = fx_nil"
  | n e where "fx_tab n t" "fx_shape n t" "fx_items t = int (card (fulls n t))"
      "fx_growthLeft t = int (capacityOf (n - 1)) - fx_items t - int (card (tombs n t))" "0 \<le> fx_growthLeft t"
      "e < n" "ctl t e = fxEmpty"
proof -
  consider "t = fx_nil" | n where "fx_tab n t" "fx_items t = int (card (fulls n t))"
      "fx_growthLeft t = int (capacityOf (n - 1)) - fx_items t - int (card (tombs n t))" "0 \<le> fx_growthLeft t"
    using assms by (auto simp: fx_ok_def)
  then show ?thesis
  proof cases
    case 2
    have shape: "fx_shape n t" using 2(1) by (simp add: fx_tab_def)
    have "capacityOf (n - 1) < n" by (rule capacity_less [OF shape_size [OF shape]])
    with 2 have "card (fulls n t) + card (tombs n t) < n" by simp
    then obtain e where "e < n" "ctl t e = fxEmpty" by (rule empty_exists [OF 2(1)])
    with 2 shape show ?thesis by (intro that(2))
  qed (rule that(1))
qed

section \<open>Lookup\<close>

lemma fx_find_ok:
  assumes "fx_ok t"
  shows "(fx_map t p = None \<and> fx_find t p = Some None) \<or>
    (\<exists>n b. fx_tab n t \<and> holds n t p b \<and> fx_map t p = Some (fx_vals t ! b) \<and> fx_find t p = Some (Some b))"
  using assms
proof (cases rule: fx_okE)
  case 1
  then show ?thesis by (simp add: fx_find_def fx_nil_def) (simp flip: fx_nil_def)
next
  case (2 n e)
  show ?thesis
  proof (cases "\<exists>b. holds n t p b")
    case True
    then obtain b where b: "holds n t p b" by blast
    with fx_find_found [OF 2(1) b] 2(1) fx_map_holds [OF 2(1), of p] show ?thesis by blast
  next
    case False
    then have "fx_map t p = None" by (simp add: fx_map_none [OF 2(1)])
    with False fx_find_missing [OF 2(2) _ 2(6,7), of p] show ?thesis by blast
  qed
qed

lemma fx_get_ok: "fx_ok t \<Longrightarrow> fx_get t p = Some (fx_map t p)"
  using fx_find_ok [of t p] by (auto simp: fx_get_def)

section \<open>Making room\<close>

lemma counters_tab:
  "fx_tab n (t\<lparr>fx_items := i\<rparr>) \<longleftrightarrow> fx_tab n t" "fx_tab n (t\<lparr>fx_growthLeft := g\<rparr>) \<longleftrightarrow> fx_tab n t"
  "fulls n (t\<lparr>fx_items := i\<rparr>) = fulls n t" "fulls n (t\<lparr>fx_growthLeft := g\<rparr>) = fulls n t"
  "tombs n (t\<lparr>fx_items := i\<rparr>) = tombs n t" "tombs n (t\<lparr>fx_growthLeft := g\<rparr>) = tombs n t"
  "entries B (t\<lparr>fx_items := i\<rparr>) = entries B t" "entries B (t\<lparr>fx_growthLeft := g\<rparr>) = entries B t"
  "holds n (t\<lparr>fx_items := i\<rparr>) = holds n t" "holds n (t\<lparr>fx_growthLeft := g\<rparr>) = holds n t"
  by (simp_all add: fx_tab_def ctl_ok_def keys_ok_def fulls_def tombs_def entries_def holds_def fun_eq_iff)

lemma resize_nil:
  "fx_resize c fx_nil = Some ((fx_alloc (bucketsFor c))\<lparr>fx_items := 0, fx_growthLeft := int (capacityOf (bucketsFor c - 1))\<rparr>)"
  by (simp add: fx_resize_def fx_nil_def fx_buckets_def Let_def)

lemma resize_ok:
  assumes "fx_tab n t" and "fx_items t = int (card (fulls n t))" and "fx_items t < int c"
  shows "\<exists>t'. fx_resize c t = Some t' \<and> fx_ok t' \<and> fx_map t' = fx_map t \<and> 1 \<le> fx_growthLeft t'"
proof -
  define m where "m = bucketsFor c"
  have m: "\<exists>k\<ge>2. m = 2 ^ k" "c \<le> capacityOf (m - 1)" using bucketsFor_ok [of c] by (simp_all add: m_def)
  note alloc = fx_alloc_tab [OF m(1)]
  have t: "fx_shape n t" "keys_ok n t" using assms(1) by (simp_all add: fx_tab_def)
  have shape: "fx_shape m (fx_alloc m)" using alloc(1) by (simp add: fx_tab_def)
  have "card (fulls n t) < c" using assms by simp
  with m(2) have "card (fulls n t) < m"
    using capacity_less [OF shape_size [OF shape]] by simp
  moreover have "fulls n t - set [0..<n] = {}" "fulls n t \<inter> set [0..<n] = fulls n t"
    by (auto simp: fulls_def)
  ultimately obtain u where u: "resize_loop t [0..<n] (fx_alloc m) = Some u" "fx_tab m u" "tombs m u = {}"
    "entries (fulls m u) u = entries (fulls n t) t" "card (fulls m u) = card (fulls n t)"
    using resize_loop_ok [OF t(2) alloc(1,3), of "[0..<n]"] by (auto simp: alloc(2) entries_def atLeast0LessThan)
  define t' where "t' = u\<lparr>fx_items := fx_items t, fx_growthLeft := int (capacityOf (m - 1)) - fx_items t\<rparr>"
  have "fx_resize c t = Some t'"
    using u(1) by (simp add: fx_resize_def shape_lengths [OF t(1)] t'_def flip: m_def)
  moreover have "fx_tab m t'" by (simp add: t'_def counters_tab u(2))
  moreover have "1 \<le> fx_growthLeft t'" using assms(3) m(2) by (simp add: t'_def)
  moreover have "fx_map t' = fx_map t"
    using u(4) by (intro fx_map_eqI [OF assms(1) \<open>fx_tab m t'\<close>]) (simp add: t'_def counters_tab)
  moreover have "fx_ok t'"
    unfolding fx_ok_def using \<open>fx_tab m t'\<close> \<open>1 \<le> fx_growthLeft t'\<close> u(3,5) assms(2)
    by (intro disjI2 exI [of _ m]) (simp add: t'_def counters_tab)
  ultimately show ?thesis by blast
qed

lemma rehash_ok:
  assumes "fx_tab n t" and "fx_items t = int (card (fulls n t))" and "fx_items t < int (capacityOf (n - 1))"
  shows "\<exists>t'. rehashInPlace t = Some t' \<and> fx_ok t' \<and> fx_map t' = fx_map t \<and> 1 \<le> fx_growthLeft t'"
proof -
  have t: "fx_shape n t" using assms(1) by (simp add: fx_tab_def)
  note mp = mark_pending_ok [OF assms(1)]
  from rehash_loop_ok [OF mp(1), of 0]
  obtain u where u: "rehash_loop [0..<n] (mark_pending t) = Some u" "fx_mid n u" "\<forall>b<n. ctl u b \<noteq> fxDeleted"
    "entries (occ n u) u = entries (fulls n t) t" "card (occ n u) = card (fulls n t)" "fx_items u = fx_items t"
    using mp by auto
  note tab = mid_tab [OF u(2,3)]
  have shape: "fx_shape n u" using u(2) by (simp add: fx_mid_def)
  define t' where "t' = u\<lparr>fx_growthLeft := int (capacityOf (n - 1)) - fx_items t\<rparr>"
  have "rehashInPlace t = Some t'"
    using u(1,6) by (simp add: rehashInPlace_def shape_lengths [OF t] shape_lengths [OF shape] t'_def)
  moreover have "fx_tab n t'" by (simp add: t'_def counters_tab tab(1))
  moreover have "1 \<le> fx_growthLeft t'" using assms(3) by (simp add: t'_def)
  moreover have "fx_map t' = fx_map t"
    using u(4) by (intro fx_map_eqI [OF assms(1) \<open>fx_tab n t'\<close>]) (simp add: t'_def counters_tab tab(2))
  moreover have "fx_ok t'"
    unfolding fx_ok_def using \<open>fx_tab n t'\<close> \<open>1 \<le> fx_growthLeft t'\<close> u(5,6) assms(2) tab(2,3)
    by (intro disjI2 exI [of _ n]) (simp add: t'_def counters_tab)
  ultimately show ?thesis by blast
qed

lemma reserve_one_ok:
  assumes "fx_ok t"
  shows "\<exists>t'. reserve_one t = Some t' \<and> fx_ok t' \<and> fx_map t' = fx_map t \<and> 1 \<le> fx_growthLeft t'"
  using assms
proof (cases rule: fx_okE)
  case 1
  have "reserve_one t = fx_resize 1 t"
    by (simp add: 1 reserve_one_def reserveRehash_def) (simp add: fx_nil_def fx_mask_def fx_buckets_def capacityOf_def)
  moreover have "bucketsFor 1 = 4" by (simp add: bucketsFor_def)
  moreover have "\<exists>k\<ge>2. (4 :: nat) = 2 ^ k" by (rule exI [of _ 2]) simp
  note alloc = fx_alloc_tab [OF this]
  define t' where "t' = (fx_alloc 4)\<lparr>fx_items := 0, fx_growthLeft := int (capacityOf 3)\<rparr>"
  have tab: "fx_tab 4 t'" "fulls 4 t' = {}" "tombs 4 t' = {}"
    by (simp_all add: t'_def counters_tab alloc)
  then have "fx_ok t'"
    unfolding fx_ok_def by (intro disjI2 exI [of _ 4]) (simp add: t'_def)
  moreover have "fx_map t' = Map.empty"
  proof
    have "fx_map t' p \<noteq> Some v" for p v
      unfolding fx_map_iff [OF tab(1)] by (simp add: tab(2) entries_def)
    then show "fx_map t' p = None" for p by (metis option.exhaust)
  qed
  moreover have "1 \<le> fx_growthLeft t'" by (simp add: t'_def capacityOf_def)
  ultimately show ?thesis by (simp add: 1 resize_nil t'_def)
next
  case (2 n e)
  note len = shape_lengths [OF 2(2)]
  show ?thesis
  proof (cases "fx_growthLeft t < 1")
    case False
    with assms show ?thesis by (simp add: reserve_one_def)
  next
    case True
    show ?thesis
    proof (cases "fx_items t + 1 \<le> int (capacityOf (n - 1)) div 2")
      case half: True
      then have "fx_items t < int (capacityOf (n - 1))" using 2(3) by simp
      from rehash_ok [OF 2(1,3) this] True half show ?thesis
        by (simp add: reserve_one_def reserveRehash_def len)
    next
      case half: False
      have "fx_items t < int (nat (max (fx_items t + 1) (int (capacityOf (n - 1)) + 1)))"
        using 2(3) by linarith
      from resize_ok [OF 2(1,3) this] True half show ?thesis
        by (simp add: reserve_one_def reserveRehash_def len Let_def)
    qed
  qed
qed

section \<open>Insertion\<close>

lemma put_new_ok:
  assumes "fx_ok t" and "1 \<le> fx_growthLeft t" and "fx_map t (Peer e) = None"
  shows "\<exists>t'. put_new e t = Some t' \<and> fx_ok t' \<and> fx_map t' = (fx_map t)(Peer e \<mapsto> Counter e)"
  using assms(1)
proof (cases rule: fx_okE)
  case 1
  with assms(2) show ?thesis by (simp add: fx_nil_def)
next
  case (2 n x)
  let ?k = "Peer e" and ?v = "Counter e"
  have new: "\<And>b. \<not> holds n t ?k b" using assms(3) by (simp add: fx_map_none [OF 2(1)])
  have "\<not> fx_full (ctl t x)" using 2(7) by simp
  then obtain b where b: "insertSlot t (fxHash ?k) = Some b" "b < n" "\<not> fx_full (ctl t b)"
    "reach (all_full n (ctl t)) n (start n ?k) b"
    by (rule insertSlot_ok [OF 2(2,6)])
  define u where "u = write_entry b ?k ?v t"
  have tab: "fx_tab n u" unfolding u_def by (rule write_entry_tab [OF 2(1) b(2,3,4) new])
  have bf: "b \<notin> fulls n t" using b(3) by (simp add: fulls_def)
  have fulls: "fulls n u = insert b (fulls n t)" unfolding u_def by (rule fulls_write [OF 2(2) b(2)])
  have tombs: "tombs n u = tombs n t - {b}" unfolding u_def by (rule tombs_write [OF 2(2) b(2)])
  have "entries (insert b (fulls n t)) u = insert (?k, ?v) (entries (fulls n t) t)"
    unfolding u_def by (rule entries_write [OF 2(2) b(2) bf]) (auto simp: fulls_def)
  then have ents: "entries (fulls n u) u = insert (?k, ?v) (entries (fulls n t) t)" by (simp only: fulls)
  define g where "g = fx_growthLeft t - (if ctl t b = fxEmpty then 1 else 0)"
  define t' where "t' = u\<lparr>fx_growthLeft := g, fx_items := fx_items t + 1\<rparr>"
  have "put_new e t = Some t'"
    by (simp add: put_new_def b(1) Let_def t'_def u_def write_entry_def g_def set_entry_def setCtrl_def
        fx_wrap_def fx_mask_def fx_buckets_def)
  moreover have tab': "fx_tab n t'" by (simp add: t'_def counters_tab tab)
  moreover have "fx_map t' = (fx_map t)(?k \<mapsto> ?v)"
  proof
    fix p
    have iff: "fx_map t' p = Some w \<longleftrightarrow> (p, w) = (?k, ?v) \<or> fx_map t p = Some w" for w
      unfolding fx_map_iff [OF tab'] fx_map_iff [OF 2(1)] by (simp add: t'_def counters_tab ents)
    show "fx_map t' p = ((fx_map t)(?k \<mapsto> ?v)) p"
    proof (cases "p = ?k")
      case True
      then show ?thesis using iff [of ?v] by simp
    next
      case False
      then show ?thesis using iff by (cases "fx_map t p"; cases "fx_map t' p") auto
    qed
  qed
  moreover have "fx_ok t'"
  proof -
    have "card (tombs n u) = card (tombs n t) - (if ctl t b = fxEmpty then 0 else 1)"
    proof (cases "ctl t b = fxEmpty")
      case True
      then have "b \<notin> tombs n t" by (simp add: tombs_def)
      with True show ?thesis by (simp add: tombs)
    next
      case False
      have "ctl_ok n t" using 2(1) by (simp add: fx_tab_def)
      with False b(2,3) have "b \<in> tombs n t" by (auto simp: ctl_ok_def tombs_def)
      with False show ?thesis by (simp add: tombs)
    qed
    moreover have "ctl t b \<noteq> fxEmpty \<Longrightarrow> 1 \<le> card (tombs n t)"
    proof -
      assume "ctl t b \<noteq> fxEmpty"
      moreover have "ctl_ok n t" using 2(1) by (simp add: fx_tab_def)
      ultimately have "b \<in> tombs n t" using b(2,3) by (auto simp: ctl_ok_def tombs_def)
      then show ?thesis by (metis One_nat_def Suc_leI card_gt_0_iff empty_iff finite_tombs)
    qed
    moreover have "card (fulls n u) = card (fulls n t) + 1" using bf by (simp add: fulls)
    ultimately show ?thesis
      unfolding fx_ok_def using tab' 2(3,4) assms(2)
      by (intro disjI2 exI [of _ n]) (auto simp: t'_def counters_tab g_def)
  qed
  ultimately show ?thesis by blast
qed

text \<open>Changing the value of an entry.\<close>

lemma set_value_ok:
  assumes "fx_ok t" and tab: "fx_tab n t" and b: "holds n t p b"
  shows "fx_ok (t\<lparr>fx_vals := (fx_vals t)[b := v]\<rparr>) \<and> fx_map (t\<lparr>fx_vals := (fx_vals t)[b := v]\<rparr>) = (fx_map t)(p \<mapsto> v)"
    (is "fx_ok ?t \<and> fx_map ?t = _")
proof
  have shape: "fx_shape n t" and keys: "keys_ok n t" using tab by (simp_all add: fx_tab_def)
  note len = shape_lengths [OF shape]
  have tab': "fx_tab m ?t \<longleftrightarrow> fx_tab m t" if "m = n" for m
    using that by (simp add: fx_tab_def ctl_ok_def keys_ok_def fx_shape_def)
  have sets: "fulls m ?t = fulls m t" "tombs m ?t = tombs m t" for m
    by (simp_all add: fulls_def tombs_def)
  show "fx_ok ?t"
    using assms(1)
  proof (cases rule: fx_okE)
    case 1
    with len(4) show ?thesis by (simp add: fx_nil_def)
  next
    case (2 m e)
    then have "m = n" using len(5) shape_lengths(5) [OF 2(2)] by simp
    with 2 tab show ?thesis
      unfolding fx_ok_def by (intro disjI2 exI [of _ n]) (simp add: tab' sets)
  qed
  show "fx_map ?t = (fx_map t)(p \<mapsto> v)"
  proof
    fix q
    have h: "holds n ?t q x \<longleftrightarrow> holds n t q x" for x by (simp add: holds_def)
    have bn: "b < n" using b by (simp add: holds_def)
    have uniq: "x = b" if "holds n t p x" for x
      using that b keys_okD [OF keys, of x b] by (simp add: holds_def)
    have iff: "fx_map ?t q = Some w \<longleftrightarrow> (if q = p then w = v else fx_map t q = Some w)" for w
    proof -
      have "fx_map ?t q = Some w \<longleftrightarrow> (\<exists>x. holds n t q x \<and> (if x = b then w = v else fx_vals t ! x = w))"
        using tab tab' [OF refl] bn
        by (subst fx_map_holds [of n]) (auto simp: h nth_list_update len)
      also have "\<dots> \<longleftrightarrow> (if q = p then w = v else fx_map t q = Some w)"
      proof (cases "q = p")
        case True
        have "holds n t p x \<longleftrightarrow> x = b" for x using b uniq by blast
        with True show ?thesis by simp
      next
        case False
        then have "\<not> holds n t q b" using b by (auto simp: holds_def)
        with False show ?thesis unfolding fx_map_holds [OF tab] by auto
      qed
      finally show ?thesis .
    qed
    show "fx_map ?t q = ((fx_map t)(p \<mapsto> v)) q"
    proof (cases "q = p")
      case True
      then show ?thesis using iff [of v] by simp
    next
      case False
      then show ?thesis using iff by (cases "fx_map t q"; cases "fx_map ?t q") auto
    qed
  qed
qed

lemma insertAlways_ok:
  assumes "fx_ok t"
  shows "\<exists>t'. insertAlways e t = Some t' \<and> fx_ok t' \<and> fx_map t' = (fx_map t)(Peer e \<mapsto> Counter e)"
proof -
  obtain u where u: "reserve_one t = Some u" "fx_ok u" "fx_map u = fx_map t" "1 \<le> fx_growthLeft u"
    using reserve_one_ok [OF assms] by blast
  from fx_find_ok [OF u(2), of "Peer e"] show ?thesis
  proof (elim disjE exE conjE)
    assume "fx_map u (Peer e) = None" and find: "fx_find u (Peer e) = Some None"
    from put_new_ok [OF u(2,4) this(1)] u(3) show ?thesis
      by (simp add: insertAlways_def u(1) find)
  next
    fix n b
    assume "fx_tab n u" and "holds n u (Peer e) b" and find: "fx_find u (Peer e) = Some (Some b)"
    from set_value_ok [OF u(2) this(1,2), of "Counter e"] u(3) show ?thesis
      by (simp add: insertAlways_def u(1) find)
  qed
qed

text \<open>The value that \<open>insertMax\<close> leaves for a peer.\<close>

definition max_entry :: "(u64 \<Rightarrow> i64 option) \<Rightarrow> ID \<Rightarrow> u64 \<Rightarrow> i64 option" where
  "max_entry m e =
     m(Peer e \<mapsto> (case m (Peer e) of None \<Rightarrow> Counter e | Some c \<Rightarrow> smax c (Counter e)))"

lemma insertMax_ok:
  assumes "fx_ok t"
  shows "\<exists>t'. insertMax e t = Some t' \<and> fx_ok t' \<and> fx_map t' = max_entry (fx_map t) e"
  using fx_find_ok [OF assms, of "Peer e"]
proof (elim disjE exE conjE)
  assume none: "fx_map t (Peer e) = None" and find: "fx_find t (Peer e) = Some None"
  obtain u where u: "reserve_one t = Some u" "fx_ok u" "fx_map u = fx_map t" "1 \<le> fx_growthLeft u"
    using reserve_one_ok [OF assms] by blast
  from put_new_ok [OF u(2,4)] none u(3) show ?thesis
    by (simp add: insertMax_def u(1) find max_entry_def)
next
  fix n b
  assume 1: "fx_tab n t" "holds n t (Peer e) b" and m: "fx_map t (Peer e) = Some (fx_vals t ! b)"
    and find: "fx_find t (Peer e) = Some (Some b)"
  from set_value_ok [OF assms 1, of "smax (fx_vals t ! b) (Counter e)"] show ?thesis
    by (simp add: insertMax_def find m max_entry_def)
qed

lemma fxWithCapacity_ok: "fx_ok (fxWithCapacity c) \<and> fx_map (fxWithCapacity c) = Map.empty"
proof (cases "c \<le> 0")
  case False
  define n where "n = bucketsFor (nat c)"
  note alloc = fx_alloc_tab [of n]
  have n: "\<exists>k\<ge>2. n = 2 ^ k" using bucketsFor_ok [of "nat c"] by (simp add: n_def)
  have eq: "fxWithCapacity c = (fx_alloc n)\<lparr>fx_growthLeft := int (capacityOf (n - 1))\<rparr>"
    using False by (simp add: fxWithCapacity_def n_def Let_def)
  have tab: "fx_tab n (fxWithCapacity c)" "fulls n (fxWithCapacity c) = {}" "tombs n (fxWithCapacity c) = {}"
    unfolding eq by (simp_all add: counters_tab alloc [OF n])
  then have "fx_ok (fxWithCapacity c)"
    unfolding fx_ok_def by (intro disjI2 exI [of _ n]) (simp add: eq fx_alloc_def)
  moreover have "fx_map (fxWithCapacity c) p \<noteq> Some v" for p v
    unfolding fx_map_iff [OF tab(1)] by (simp add: tab(2) entries_def)
  ultimately show ?thesis by (metis option.exhaust ext)
qed (simp add: fxWithCapacity_def)

end
