(* ===== verification/FxRefine.thy ===== *)
theory FxRefine
  imports FxMap
begin

text \<open>
  Removal from the hash table, and the table as an implementation of a finite map: the locale
  \<open>map_impl\<close> is what the clients of the table rely on, \<open>fxM\<close> its interpretation on the table.
\<close>

section \<open>Removal\<close>

lemma takeWhile_stop:
  "length (takeWhile P xs) < length xs \<Longrightarrow> \<not> P (xs ! length (takeWhile P xs))"
  by (rule nth_length_takeWhile)

text \<open>
  A full bucket whose run of non-empty bytes is shorter than a group shares every group it is
  in with an empty bucket.
\<close>

lemma short_run:
  assumes t: "fx_shape n t" and n: "n \<noteq> 4" and b: "b < n" "fx_full (ctl t b)" and pos: "pos < n" "b \<in> window n pos"
    and run: "length (takeWhile (\<lambda>c. c \<noteq> fxEmpty) (rev (fx_group t (fx_wrap t (int b - int fxGroup))))) +
      length (takeWhile (\<lambda>c. c \<noteq> fxEmpty) (fx_group t b)) < fxGroup"
  shows "\<exists>x\<in>window n pos. x \<noteq> b \<and> ctl t x = fxEmpty"
proof -
  define pre where "pre = fx_group t (fx_wrap t (int b - int fxGroup))"
  define post where "post = fx_group t b"
  define lead where "lead = length (takeWhile (\<lambda>c. c \<noteq> fxEmpty) (rev pre))"
  define trail where "trail = length (takeWhile (\<lambda>c. c \<noteq> fxEmpty) post)"
  have lt: "lead + trail < 8" using run by (simp add: lead_def trail_def pre_def post_def fxGroup_def)
  have n8: "8 \<le> n" by (rule shape_ge8 [OF t n])
  define q where "q = (b + (n - 8)) mod n"
  have q: "fx_wrap t (int b - int fxGroup) = q"
  proof -
    have "(int b - 8) mod int n = (int b - 8 + int n) mod int n" by simp
    also have "int b - 8 + int n = int (b + (n - 8))" using n8 by simp
    finally show ?thesis by (simp add: fx_wrap_mod [OF t] fxGroup_def q_def nat_mod_as_int)
  qed
  have qn: "q < n" using b(1) by (simp add: q_def)
  have pre_nth: "length pre = 8" "i < 8 \<Longrightarrow> pre ! i = ctl t ((b + (n - 8) + i) mod n)" for i
  proof -
    show "length pre = 8" using group_nth(1) [OF t qn] by (simp add: pre_def q)
    assume "i < 8"
    then have "pre ! i = ctl t ((q + i) mod n)"
      using group_nth(2) [OF t qn] n by (simp add: pre_def q ctl_pad [OF t qn])
    then show "pre ! i = ctl t ((b + (n - 8) + i) mod n)" by (simp add: q_def mod_simps)
  qed
  have post_nth: "length post = 8" "i < 8 \<Longrightarrow> post ! i = ctl t ((b + i) mod n)" for i
    using group_nth [OF t b(1)] n by (simp_all add: post_def ctl_pad [OF t b(1)])
  have "post ! trail = fxEmpty"
    using takeWhile_stop [of "\<lambda>c. c \<noteq> fxEmpty" post] lt by (simp add: trail_def post_nth(1))
  then have after: "ctl t ((b + trail) mod n) = fxEmpty" using lt by (simp add: post_nth(2))
  have "rev pre ! lead = fxEmpty"
    using takeWhile_stop [of "\<lambda>c. c \<noteq> fxEmpty" "rev pre"] lt by (simp add: lead_def pre_nth(1))
  then have "pre ! (7 - lead) = fxEmpty" using lt by (simp add: rev_nth pre_nth(1))
  then have before: "ctl t ((b + (n - 8) + (7 - lead)) mod n) = fxEmpty" using lt by (simp add: pre_nth(2))
  obtain i where i: "i < 8" "b = (pos + i) mod n" using pos(2) by (auto simp: window_def)
  show ?thesis
  proof (cases "i + trail < 8")
    case True
    have "(b + trail) mod n = (pos + (i + trail)) mod n" by (simp add: i(2) mod_simps add.assoc)
    with True have "(b + trail) mod n \<in> window n pos" by (auto simp: window_def)
    with after b(2) show ?thesis by (intro bexI [of _ "(b + trail) mod n"]) auto
  next
    case False
    then have le: "lead + 1 \<le> i" using lt by simp
    have "(b + (n - 8) + (7 - lead)) mod n = (pos + i + (n - 8) + (7 - lead)) mod n"
      by (simp add: i(2) mod_simps add.assoc)
    also have "pos + i + (n - 8) + (7 - lead) = pos + (i - (lead + 1)) + n"
      using le lt n8 by simp
    also have "(pos + (i - (lead + 1)) + n) mod n = (pos + (i - (lead + 1))) mod n" by simp
    finally have "(b + (n - 8) + (7 - lead)) mod n \<in> window n pos"
      using i(1) by (auto simp: window_def)
    with before b(2) show ?thesis by (intro bexI [of _ "(b + (n - 8) + (7 - lead)) mod n"]) auto
  qed
qed

lemma erase_ok:
  assumes ok: "fx_ok t" and tab: "fx_tab n t" and h: "holds n t p b"
  shows "fx_ok (erase b t) \<and> fx_map (erase b t) = (fx_map t)(p := None)"
proof -
  have t: "fx_shape n t" "ctl_ok n t" "keys_ok n t" using tab by (simp_all add: fx_tab_def)
  note len = shape_lengths [OF t(1)]
  have b: "b < n" "fx_full (ctl t b)" "fx_keys t ! b = p" using h by (simp_all add: holds_def)
  have n: "0 < n" using b(1) by simp
  define run where "run \<longleftrightarrow> length (takeWhile (\<lambda>c. c \<noteq> fxEmpty) (rev (fx_group t (fx_wrap t (int b - int fxGroup))))) +
      length (takeWhile (\<lambda>c. c \<noteq> fxEmpty) (fx_group t b)) \<ge> fxGroup"
  define c where "c = (if run then fxDeleted else fxEmpty)"
  define u where "u = setCtrl b c t"
  define g where "g = fx_growthLeft t + (if run then 0 else 1)"
  have er: "erase b t = u\<lparr>fx_growthLeft := g, fx_items := fx_items t - 1\<rparr>"
    by (simp add: erase_def Let_def run_def u_def c_def g_def setCtrl_def fx_wrap_def fx_mask_def fx_buckets_def)
  have cu: "ctl u x = (if x = b then c else ctl t x)" if "x < n" for x
    unfolding u_def by (rule setCtrl_ctl [OF t(1) b(1) that])
  have cn: "\<not> fx_full c" by (simp add: c_def)
  have keys: "fx_keys u = fx_keys t" "fx_vals u = fx_vals t" by (simp_all add: u_def)
  have fulls: "fulls n u = fulls n t - {b}"
    using cn by (auto simp: fulls_def cu split: if_splits)
  have same: "no_empty n (ctl u) pos" if "no_empty n (ctl t) pos" "pos < n" for pos
  proof (cases "b \<in> window n pos \<and> \<not> run")
    case True
    have "n \<noteq> 4" using that(1) by (simp add: no_empty_def)
    from short_run [OF t(1) this b(1,2) that(2)] True that(1) show ?thesis
      by (auto simp: run_def no_empty_def)
  next
    case False
    with that(1) window_less [OF n] show ?thesis
      by (auto simp: no_empty_def cu c_def split: if_splits)
  qed
  have "reach (no_empty n (ctl u)) n (start n (fx_keys u ! x)) x" if x: "x < n" "fx_full (ctl u x)" for x
  proof -
    have "x \<noteq> b" using x cn by (auto simp: cu)
    with x have "reach (no_empty n (ctl t)) n (start n (fx_keys t ! x)) x"
      using tab by (simp add: fx_tab_def cu)
    then obtain m where m: "m < n" "x \<in> window n (probe n (start n (fx_keys t ! x)) m)"
        "\<forall>m'<m. no_empty n (ctl t) (probe n (start n (fx_keys t ! x)) m')" by (auto simp: reach_def)
    have "probe n (start n (fx_keys t ! x)) m' < n" for m' by (rule probe_less) (use n in simp_all)
    with m same show ?thesis unfolding reach_def keys by (intro exI [of _ m]) simp
  qed
  moreover have "keys_ok n u"
    using t(3) cn by (auto simp: keys_ok_def cu keys)
  moreover have "ctl_ok n u"
    using t(2) by (auto simp: ctl_ok_def cu keys c_def)
  ultimately have tabu: "fx_tab n u"
    using setCtrl_shape [OF t(1) b(1), of c] by (simp add: fx_tab_def u_def)
  then have tabe: "fx_tab n (erase b t)" by (simp add: er counters_tab)
  have bf: "b \<in> fulls n t" using b by (simp add: fulls_def)
  have "fx_ok (erase b t)"
    using ok
  proof (cases rule: fx_okE)
    case 1
    with len(4) show ?thesis by (simp add: fx_nil_def)
  next
    case (2 m e)
    then have m: "m = n" using len(5) shape_lengths(5) [OF 2(2)] by simp
    have "card (fulls n t - {b}) = card (fulls n t) - 1" using bf by simp
    moreover have pos: "1 \<le> card (fulls n t)" using bf by (metis One_nat_def Suc_leI card_gt_0_iff empty_iff finite_fulls)
    moreover have "card (tombs n u) = card (tombs n t) + (if run then 1 else 0)"
    proof -
      have "b \<notin> tombs n t" using b(2) by (auto simp: tombs_def)
      moreover have "tombs n u = (if run then insert b (tombs n t) else tombs n t)"
        using b(1,2) by (auto simp: tombs_def cu c_def split: if_splits)
      ultimately show ?thesis by simp
    qed
    ultimately show ?thesis
      unfolding fx_ok_def using 2 m tabe
      by (intro disjI2 exI [of _ n]) (auto simp: er counters_tab fulls g_def)
  qed
  moreover have "fx_map (erase b t) = (fx_map t)(p := None)"
  proof
    fix q
    have hu: "holds n (erase b t) q x \<longleftrightarrow> holds n t q x \<and> x \<noteq> b" for x
      using cn b(1) by (auto simp: er counters_tab) (auto simp: holds_def cu keys split: if_splits)
    have iff: "fx_map (erase b t) q = Some w \<longleftrightarrow> q \<noteq> p \<and> fx_map t q = Some w" for w
    proof -
      have "fx_map (erase b t) q = Some w \<longleftrightarrow> (\<exists>x. holds n t q x \<and> x \<noteq> b \<and> fx_vals t ! x = w)"
        unfolding fx_map_holds [OF tabe] hu by (simp add: er keys conj_assoc)
      moreover have "holds n t p x \<Longrightarrow> x = b" for x
        using h keys_okD [OF t(3), of x b] by (simp add: holds_def)
      moreover have "holds n t q b \<Longrightarrow> q = p" using h by (simp add: holds_def)
      ultimately show ?thesis unfolding fx_map_holds [OF tab] by blast
    qed
    show "fx_map (erase b t) q = ((fx_map t)(p := None)) q"
      using iff by (cases "q = p"; cases "fx_map t q"; cases "fx_map (erase b t) q") auto
  qed
  ultimately show ?thesis ..
qed

lemma fx_remove_ok:
  assumes "fx_ok t"
  shows "\<exists>t'. fx_remove e t = Some (fx_map t (Peer e) = Some (Counter e), t') \<and> fx_ok t' \<and>
    fx_map t' = (if fx_map t (Peer e) = Some (Counter e) then (fx_map t)(Peer e := None) else fx_map t)"
  using fx_find_ok [OF assms, of "Peer e"]
proof (elim disjE exE conjE)
  assume "fx_map t (Peer e) = None" and find: "fx_find t (Peer e) = Some None"
  then show ?thesis using assms by (simp add: fx_remove_def find)
next
  fix n b
  assume 1: "fx_tab n t" "holds n t (Peer e) b" and m: "fx_map t (Peer e) = Some (fx_vals t ! b)"
    and find: "fx_find t (Peer e) = Some (Some b)"
  from erase_ok [OF assms 1] assms show ?thesis
    by (simp add: fx_remove_def find m)
qed

lemma removeKey_ok:
  assumes "fx_ok t"
  shows "\<exists>t'. removeKey p t = Some t' \<and> fx_ok t' \<and> fx_map t' = (fx_map t)(p := None)"
  using fx_find_ok [OF assms, of p]
proof (elim disjE exE conjE)
  assume "fx_map t p = None" and find: "fx_find t p = Some None"
  then show ?thesis using assms by (simp add: removeKey_def find fun_upd_idem)
next
  fix n b
  assume m: "fx_map t p = Some (fx_vals t ! b)" and find: "fx_find t p = Some (Some b)"
  from fx_remove_ok [OF assms, of "\<lparr>Peer = p, Counter = fx_vals t ! b\<rparr>"] m show ?thesis
    by (auto simp: removeKey_def find)
qed

section \<open>The entries in iteration order\<close>

lemma fx_ids_ok:
  assumes "fx_ok t"
  shows "distinct (map Peer (fx_ids t)) \<and> int (length (fx_ids t)) = fx_items t \<and>
    fx_map t = map_of (map (\<lambda>e. (Peer e, Counter e)) (fx_ids t))"
  using assms
proof (cases rule: fx_okE)
  case 1
  then show ?thesis by (simp add: fx_ids_def fx_nil_def fx_buckets_def fx_map_def fx_pairs_def)
next
  case (2 n e)
  then have "keys_ok n t" by (simp add: fx_tab_def)
  from pairs_distinct [OF 2(2) this] pairs_length [OF 2(2)] 2(3) show ?thesis
    by (simp add: fx_pairs_def fx_map_def o_def)
qed

section \<open>The interface\<close>

datatype ('k, 'v) map_op = Put 'k 'v | Del 'k

fun map_exec :: "('k, 'v) map_op \<Rightarrow> ('k \<Rightarrow> 'v option) \<Rightarrow> 'k \<Rightarrow> 'v option" where
  "map_exec (Put k v) m = m(k \<mapsto> v)"
| "map_exec (Del k) m = m(k := None)"

locale map_impl =
  fixes ok :: "'t \<Rightarrow> bool" and abs :: "'t \<Rightarrow> 'k \<Rightarrow> 'v option"
    and lookup :: "'t \<Rightarrow> 'k \<Rightarrow> 'v option option" and update :: "'k \<Rightarrow> 'v \<Rightarrow> 't \<Rightarrow> 't option"
    and delete :: "'k \<Rightarrow> 't \<Rightarrow> 't option"
  assumes lookup_ok: "ok t \<Longrightarrow> lookup t k = Some (abs t k)"
    and update_ok: "ok t \<Longrightarrow> \<exists>t'. update k v t = Some t' \<and> ok t' \<and> abs t' = (abs t)(k \<mapsto> v)"
    and delete_ok: "ok t \<Longrightarrow> \<exists>t'. delete k t = Some t' \<and> ok t' \<and> abs t' = (abs t)(k := None)"
begin

fun step :: "('k, 'v) map_op \<Rightarrow> 't \<Rightarrow> 't option" where
  "step (Put k v) t = update k v t"
| "step (Del k) t = delete k t"

lemma step_ok: "ok t \<Longrightarrow> \<exists>t'. step c t = Some t' \<and> ok t' \<and> abs t' = map_exec c (abs t)"
  by (cases c) (simp_all add: update_ok delete_ok)

fun run :: "('k, 'v) map_op list \<Rightarrow> 't \<Rightarrow> 't option" where
  "run [] t = Some t"
| "run (c # cs) t = Option.bind (step c t) (run cs)"

lemma run_ok: "ok t \<Longrightarrow> \<exists>t'. run cs t = Some t' \<and> ok t' \<and> abs t' = fold map_exec cs (abs t)"
proof (induction cs arbitrary: t)
  case (Cons c cs)
  from step_ok [OF Cons.prems, of c] obtain u where "step c t = Some u" "ok u" "abs u = map_exec c (abs t)" by blast
  with Cons.IH [of u] show ?case by simp
qed simp

end

definition fx_update :: "u64 \<Rightarrow> i64 \<Rightarrow> fxTable \<Rightarrow> fxTable option" where
  "fx_update p c t = insertAlways \<lparr>Peer = p, Counter = c\<rparr> t"

interpretation fxM: map_impl fx_ok fx_map fx_get fx_update removeKey
proof
  show "\<exists>t'. fx_update k v t = Some t' \<and> fx_ok t' \<and> fx_map t' = (fx_map t)(k \<mapsto> v)" if "fx_ok t" for t k v
    using insertAlways_ok [OF that, of "\<lparr>Peer = k, Counter = v\<rparr>"] by (simp add: fx_update_def)
qed (rule fx_get_ok removeKey_ok; assumption)+

end
