(* ===== verification/Frontiers.thy ===== *)
theory Frontiers
  imports FxRefine
begin

text \<open>
  Frontiers (\<open>loro/frontiers.go\<close>): no id, one id, or a table of at least two. \<open>fr_map\<close> is the
  map from peers to counters that they stand for; every operation ends and acts on it as
  loro's \<open>Frontiers\<close> promises. The theory also states what the table itself promises.
\<close>

section \<open>Operations\<close>

record frontiers =
  f_n :: int
  f_one :: ID
  f_tab :: "fxTable option"

definition fr_empty :: frontiers where
  "fr_empty = \<lparr>f_n = 0, f_one = \<lparr>Peer = 0, Counter = 0\<rparr>, f_tab = None\<rparr>"

definition fr_len :: "frontiers \<Rightarrow> int" where
  "fr_len f = (case f_tab f of Some t \<Rightarrow> fx_items t | None \<Rightarrow> if f_n f = 1 then 1 else 0)"

definition fr_ids :: "frontiers \<Rightarrow> ID list" where
  "fr_ids f = (case f_tab f of Some t \<Rightarrow> fx_ids t | None \<Rightarrow> if f_n f = 1 then [f_one f] else [])"

definition fr_contains :: "ID \<Rightarrow> frontiers \<Rightarrow> bool option" where
  "fr_contains i f =
     (case f_tab f of
        Some t \<Rightarrow> map_option (\<lambda>c. c = Some (Counter i)) (fx_get t (Peer i))
      | None \<Rightarrow> Some (f_n f = 1 \<and> f_one f = i))"

definition fr_push :: "ID \<Rightarrow> frontiers \<Rightarrow> frontiers option" where
  "fr_push i f =
     (case f_tab f of
        Some t \<Rightarrow> map_option (\<lambda>t. f\<lparr>f_tab := Some t\<rparr>) (insertMax i t)
      | None \<Rightarrow>
          if f_n f = 0 then Some (f\<lparr>f_n := 1, f_one := i\<rparr>)
          else if Peer (f_one f) \<noteq> Peer i then
            Option.bind (insertMax (f_one f) fx_nil) (\<lambda>t.
              map_option (\<lambda>t. f\<lparr>f_n := 2, f_tab := Some t\<rparr>) (insertMax i t))
          else if sless (Counter (f_one f)) (Counter i) then Some (f\<lparr>f_one := i\<rparr>)
          else Some f)"

fun fr_pushes :: "ID list \<Rightarrow> frontiers \<Rightarrow> frontiers option" where
  "fr_pushes [] f = Some f"
| "fr_pushes (i # ids) f = Option.bind (fr_push i f) (fr_pushes ids)"

definition frontiersOf :: "ID list \<Rightarrow> frontiers option" where
  "frontiersOf ids = fr_pushes ids fr_empty"

text \<open>\<open>ids()[0]\<close> is an id: the table has one item.\<close>

definition fr_remove :: "ID \<Rightarrow> frontiers \<Rightarrow> frontiers option" where
  "fr_remove i f =
     (case f_tab f of
        Some t \<Rightarrow> map_option (\<lambda>(removed, t).
          if \<not> removed then f\<lparr>f_tab := Some t\<rparr>
          else if fx_items t = 0 then fr_empty
          else if fx_items t = 1 then \<lparr>f_n = 1, f_one = fx_ids t ! 0, f_tab = None\<rparr>
          else f\<lparr>f_tab := Some t\<rparr>) (fx_remove i t)
      | None \<Rightarrow> Some (if f_n f = 1 \<and> f_one f = i then fr_empty else f))"

fun fr_removes :: "ID list \<Rightarrow> frontiers \<Rightarrow> frontiers option" where
  "fr_removes [] f = Some f"
| "fr_removes (i # ids) f = Option.bind (fr_remove i f) (fr_removes ids)"

fun contains_all :: "ID list \<Rightarrow> frontiers \<Rightarrow> bool option" where
  "contains_all [] f = Some True"
| "contains_all (i # ids) f =
     Option.bind (fr_contains i f) (\<lambda>c. if c then contains_all ids f else Some False)"

definition fr_equal :: "ID list \<Rightarrow> frontiers \<Rightarrow> bool option" where
  "fr_equal ids f = (if fr_len f \<noteq> int (length ids) then Some False else contains_all ids f)"

definition updateOnNewChange :: "ID \<Rightarrow> ID list \<Rightarrow> frontiers \<Rightarrow> frontiers option" where
  "updateOnNewChange lst deps f =
     Option.bind (if fr_len f \<le> 8 then fr_equal deps f else Some False) (\<lambda>same.
       if same then Some \<lparr>f_n = 1, f_one = lst, f_tab = None\<rparr>
       else Option.bind (fr_removes deps f) (fr_push lst))"

definition depsOrder :: "ID list \<Rightarrow> ID list option" where
  "depsOrder deps = (if length deps < 2 then Some deps else map_option fr_ids (frontiersOf deps))"

section \<open>The map that frontiers stand for\<close>

definition fr_ok :: "frontiers \<Rightarrow> bool" where
  "fr_ok f = (case f_tab f of Some t \<Rightarrow> fx_ok t \<and> 2 \<le> fx_items t | None \<Rightarrow> f_n f = 0 \<or> f_n f = 1)"

definition fr_map :: "frontiers \<Rightarrow> u64 \<Rightarrow> i64 option" where
  "fr_map f =
     (case f_tab f of
        Some t \<Rightarrow> fx_map t
      | None \<Rightarrow> if f_n f = 1 then [Peer (f_one f) \<mapsto> Counter (f_one f)] else Map.empty)"

text \<open>An id leaves a map if it is listed exactly.\<close>

definition del_entry :: "(u64 \<Rightarrow> i64 option) \<Rightarrow> ID \<Rightarrow> u64 \<Rightarrow> i64 option" where
  "del_entry m i = (if m (Peer i) = Some (Counter i) then m(Peer i := None) else m)"

lemma ID_eq_iff: "(i :: ID) = j \<longleftrightarrow> Peer i = Peer j \<and> Counter i = Counter j"
  by (cases i; cases j) simp

lemma ID_image_iff: "(Peer i, Counter i) \<in> (\<lambda>e. (Peer e, Counter e)) ` A \<longleftrightarrow> (i :: ID) \<in> A"
proof -
  have "inj (\<lambda>e :: ID. (Peer e, Counter e))" by (simp add: inj_def ID_eq_iff)
  from inj_image_mem_iff [OF this, of i A] show ?thesis by simp
qed

lemma fr_empty_ok [simp]: "fr_ok fr_empty" "fr_map fr_empty = Map.empty"
  by (simp_all add: fr_ok_def fr_map_def fr_empty_def)

lemma fr_one_ok [simp]:
  "fr_ok \<lparr>f_n = 1, f_one = i, f_tab = None\<rparr>"
  "fr_map \<lparr>f_n = 1, f_one = i, f_tab = None\<rparr> = [Peer i \<mapsto> Counter i]"
  by (simp_all add: fr_ok_def fr_map_def)

lemma max_entry_new: "m (Peer i) = None \<Longrightarrow> max_entry m i = m(Peer i \<mapsto> Counter i)"
  by (simp add: max_entry_def)

lemma fx_items_dom: "fx_ok t \<Longrightarrow> fx_items t = int (card (dom (fx_map t))) \<and> finite (dom (fx_map t))"
  using fx_ids_ok [of t] distinct_card [of "map Peer (fx_ids t)"]
  by (simp add: dom_map_of_conv_image_fst image_image)

lemma fx_ids_set:
  assumes "fx_ok t"
  shows "i \<in> set (fx_ids t) \<longleftrightarrow> fx_map t (Peer i) = Some (Counter i)"
proof -
  have "fx_map t (Peer i) = Some (Counter i) \<longleftrightarrow> (Peer i, Counter i) \<in> (\<lambda>e. (Peer e, Counter e)) ` set (fx_ids t)"
    using fx_ids_ok [OF assms] by (simp add: o_def)
  also have "\<dots> \<longleftrightarrow> i \<in> set (fx_ids t)" by (rule ID_image_iff)
  finally show ?thesis ..
qed

lemma fr_len_ok: "fr_ok f \<Longrightarrow> fr_len f = int (card (dom (fr_map f))) \<and> finite (dom (fr_map f))"
  using fx_items_dom by (auto simp: fr_ok_def fr_len_def fr_map_def split: option.splits)

lemma fr_ids_ok:
  assumes "fr_ok f"
  shows "distinct (map Peer (fr_ids f)) \<and> fr_map f = map_of (map (\<lambda>e. (Peer e, Counter e)) (fr_ids f))"
  using assms fx_ids_ok by (auto simp: fr_ok_def fr_ids_def fr_map_def split: option.splits)

lemma fr_contains_ok: "fr_ok f \<Longrightarrow> fr_contains i f = Some (fr_map f (Peer i) = Some (Counter i))"
  using fx_get_ok by (auto simp: fr_ok_def fr_contains_def fr_map_def intro: ID.equality split: option.splits)

lemma fr_push_ok:
  assumes ok: "fr_ok f"
  shows "\<exists>f'. fr_push i f = Some f' \<and> fr_ok f' \<and> fr_map f' = max_entry (fr_map f) i"
proof (cases "f_tab f")
  case (Some t)
  with ok have t: "fx_ok t" "2 \<le> fx_items t" by (simp_all add: fr_ok_def)
  obtain u where u: "insertMax i t = Some u" "fx_ok u" "fx_map u = max_entry (fx_map t) i"
    using insertMax_ok [OF t(1)] by blast
  have "dom (fx_map t) \<subseteq> dom (fx_map u)" by (auto simp: u(3) max_entry_def)
  then have "fx_items t \<le> fx_items u"
    using fx_items_dom [OF t(1)] fx_items_dom [OF u(2)] by (simp add: card_mono)
  with t(2) u Some show ?thesis by (simp add: fr_push_def fr_ok_def fr_map_def)
next
  case None
  consider "f_n f = 0" | "f_n f = 1" "Peer (f_one f) \<noteq> Peer i" | "f_n f = 1" "Peer (f_one f) = Peer i"
    using ok None by (auto simp: fr_ok_def)
  then show ?thesis
  proof cases
    case 2
    obtain t where t: "insertMax (f_one f) fx_nil = Some t" "fx_ok t"
      "fx_map t = max_entry Map.empty (f_one f)"
      using insertMax_ok [OF fx_ok_nil, of "f_one f"] by auto
    obtain u where u: "insertMax i t = Some u" "fx_ok u" "fx_map u = max_entry (fx_map t) i"
      using insertMax_ok [OF t(2)] by blast
    have m: "fx_map u = [Peer (f_one f) \<mapsto> Counter (f_one f), Peer i \<mapsto> Counter i]"
      using 2(2) by (simp add: u(3) t(3) max_entry_def)
    have "card (dom (fx_map u)) = 2" using 2(2) by (simp add: m)
    with fx_items_dom [OF u(2)] have "2 \<le> fx_items u" by simp
    with 2 None t(1) u m show ?thesis by (simp add: fr_push_def fr_ok_def fr_map_def max_entry_def)
  qed (use None in \<open>auto simp: fr_push_def fr_ok_def fr_map_def max_entry_def smax_def\<close>)
qed

lemma fr_remove_ok:
  assumes ok: "fr_ok f"
  shows "\<exists>f'. fr_remove i f = Some f' \<and> fr_ok f' \<and> fr_map f' = del_entry (fr_map f) i"
proof (cases "f_tab f")
  case None
  with ok show ?thesis
    by (cases "f_one f = i") (auto simp: fr_remove_def fr_map_def [of f] fr_ok_def [of f] del_entry_def ID_eq_iff)
next
  case (Some t)
  with ok have t: "fx_ok t" "2 \<le> fx_items t" by (simp_all add: fr_ok_def)
  obtain u where u: "fx_remove i t = Some (fx_map t (Peer i) = Some (Counter i), u)" "fx_ok u"
    "fx_map u = del_entry (fx_map t) i"
    using fx_remove_ok [OF t(1)] unfolding del_entry_def by blast
  consider "fx_map t (Peer i) \<noteq> Some (Counter i)"
    | "fx_map t (Peer i) = Some (Counter i)" "fx_items u = 0"
    | "fx_map t (Peer i) = Some (Counter i)" "fx_items u = 1"
    | "fx_map t (Peer i) = Some (Counter i)" "2 \<le> fx_items u"
    using fx_items_dom [OF u(2)] by linarith
  then show ?thesis
  proof cases
    case 1
    then have "fx_items u = fx_items t"
      using fx_items_dom [OF u(2)] fx_items_dom [OF t(1)] by (simp add: u(3) del_entry_def)
    with 1 t u Some show ?thesis by (simp add: fr_remove_def fr_ok_def fr_map_def)
  next
    case 2
    then have "fx_map u = Map.empty" using fx_items_dom [OF u(2)] by simp
    with 2 u Some show ?thesis by (simp add: fr_remove_def fr_map_def [of f])
  next
    case 3
    then obtain e where "fx_ids u = [e]"
      using fx_ids_ok [OF u(2)] by (cases "fx_ids u") auto
    moreover from this have "fx_map u = [Peer e \<mapsto> Counter e]" using fx_ids_ok [OF u(2)] by simp
    ultimately show ?thesis using 3 u Some by (simp add: fr_remove_def fr_map_def [of f])
  next
    case 4
    with u Some show ?thesis by (simp add: fr_remove_def fr_ok_def fr_map_def)
  qed
qed

lemma fr_pushes_ok:
  "fr_ok f \<Longrightarrow> \<exists>f'. fr_pushes ids f = Some f' \<and> fr_ok f' \<and> fr_map f' = foldl max_entry (fr_map f) ids"
proof (induction ids arbitrary: f)
  case (Cons i ids)
  obtain g where "fr_push i f = Some g" "fr_ok g" "fr_map g = max_entry (fr_map f) i"
    using fr_push_ok [OF Cons.prems] by blast
  with Cons.IH [of g] show ?case by simp
qed simp

lemma fr_removes_ok:
  "fr_ok f \<Longrightarrow> \<exists>f'. fr_removes ids f = Some f' \<and> fr_ok f' \<and> fr_map f' = foldl del_entry (fr_map f) ids"
proof (induction ids arbitrary: f)
  case (Cons i ids)
  obtain g where "fr_remove i f = Some g" "fr_ok g" "fr_map g = del_entry (fr_map f) i"
    using fr_remove_ok [OF Cons.prems] by blast
  with Cons.IH [of g] show ?case by simp
qed simp

lemma frontiersOf_ok:
  "\<exists>f. frontiersOf ids = Some f \<and> fr_ok f \<and> fr_map f = foldl max_entry Map.empty ids"
  using fr_pushes_ok [OF fr_empty_ok(1)] by (simp add: frontiersOf_def)

lemma contains_all_ok:
  "fr_ok f \<Longrightarrow> contains_all ids f = Some (\<forall>i\<in>set ids. fr_map f (Peer i) = Some (Counter i))"
  by (induction ids) (auto simp: fr_contains_ok)

lemma fr_equal_ok:
  "fr_ok f \<Longrightarrow> fr_equal ids f =
    Some (card (dom (fr_map f)) = length ids \<and> (\<forall>i\<in>set ids. fr_map f (Peer i) = Some (Counter i)))"
  using fr_len_ok [of f] by (simp add: fr_equal_def contains_all_ok)


section \<open>What the operations promise\<close>

lemma foldl_del_entry:
  "foldl del_entry m ids p = (if \<exists>i\<in>set ids. Peer i = p \<and> m p = Some (Counter i) then None else m p)"
  by (induction ids arbitrary: m) (auto simp: del_entry_def split: if_splits)

text \<open>The ids that stay when a change with dependencies \<open>deps\<close> arrives, and its last id.\<close>

definition advance_heads :: "ID \<Rightarrow> ID list \<Rightarrow> (u64 \<Rightarrow> i64 option) \<Rightarrow> u64 \<Rightarrow> i64 option" where
  "advance_heads lst deps m = max_entry (foldl del_entry m deps) lst"

lemma all_removed:
  assumes "distinct deps" "\<forall>i\<in>set deps. m (Peer i) = Some (Counter i)" "card (dom m) = length deps" "finite (dom m)"
  shows "foldl del_entry m deps = Map.empty"
proof -
  have inj: "inj_on Peer (set deps)"
    using assms(2) by (simp add: inj_on_def ID_eq_iff) (metis option.inject)
  have "Peer ` set deps = dom m"
    by (rule card_subset_eq [OF assms(4)])
      (use assms(2,3) card_image [OF inj] distinct_card [OF assms(1)] in auto)
  then have "m p = None \<or> (\<exists>i\<in>set deps. Peer i = p \<and> m p = Some (Counter i))" for p
    using assms(2) by (metis domIff image_iff)
  then show ?thesis by (intro ext) (metis foldl_del_entry)
qed

lemma updateOnNewChange_ok:
  assumes "fr_ok f" and "distinct deps"
  shows "\<exists>f'. updateOnNewChange lst deps f = Some f' \<and> fr_ok f' \<and>
    fr_map f' = advance_heads lst deps (fr_map f)"
proof (cases "fr_len f \<le> 8 \<and> fr_equal deps f = Some True")
  case True
  then have "foldl del_entry (fr_map f) deps = Map.empty"
    using fr_len_ok [OF assms(1)] by (intro all_removed [OF assms(2)]) (auto simp: fr_equal_ok [OF assms(1)])
  then have "advance_heads lst deps (fr_map f) = [Peer lst \<mapsto> Counter lst]"
    by (simp add: advance_heads_def max_entry_def)
  with True show ?thesis by (simp add: updateOnNewChange_def)
next
  case False
  then have upd: "updateOnNewChange lst deps f = Option.bind (fr_removes deps f) (fr_push lst)"
    using fr_equal_ok [OF assms(1), of deps] by (auto simp: updateOnNewChange_def)
  obtain g where "fr_removes deps f = Some g" "fr_ok g" "fr_map g = foldl del_entry (fr_map f) deps"
    using fr_removes_ok [OF assms(1)] by blast
  then show ?thesis
    using fr_push_ok [of g lst] by (simp add: upd advance_heads_def)
qed

text \<open>The order of the dependencies, as \<open>depsOrder\<close> gives it, keeps them when their peers differ.\<close>

lemma foldl_max_entry:
  "distinct (map Peer ids) \<Longrightarrow> Peer ` set ids \<inter> dom m = {} \<Longrightarrow>
    foldl max_entry m ids = m ++ map_of (map (\<lambda>e. (Peer e, Counter e)) ids)"
proof (induction ids arbitrary: m)
  case (Cons i ids)
  have new: "max_entry m i = m(Peer i \<mapsto> Counter i)"
    using Cons.prems(2) by (intro max_entry_new) auto
  have notin: "map_of (map (\<lambda>e. (Peer e, Counter e)) ids) (Peer i) = None"
    using Cons.prems(1) by (simp add: map_of_eq_None_iff image_image)
  from Cons show ?case
    by (auto simp: new notin map_add_def fun_eq_iff split: option.splits)
qed simp

lemma map_of_ids_set:
  fixes ids :: "ID list"
  shows "distinct (map Peer ids) \<Longrightarrow>
    map_of (map (\<lambda>e. (Peer e, Counter e)) ids) (Peer i) = Some (Counter i) \<longleftrightarrow> i \<in> set ids"
  using ID_image_iff [of i "set ids"] by (simp add: map_of_eq_Some_iff o_def)

text \<open>A run of table operations, and what each does to a map.\<close>

datatype fx_op = FxMax ID | FxSet ID | FxRemove ID | FxDrop u64

fun fx_step :: "fx_op \<Rightarrow> fxTable \<Rightarrow> fxTable option" where
  "fx_step (FxMax i) t = insertMax i t"
| "fx_step (FxSet i) t = insertAlways i t"
| "fx_step (FxRemove i) t = map_option snd (fx_remove i t)"
| "fx_step (FxDrop p) t = removeKey p t"

fun fx_run :: "fx_op list \<Rightarrow> fxTable \<Rightarrow> fxTable option" where
  "fx_run [] t = Some t"
| "fx_run (c # cs) t = Option.bind (fx_step c t) (fx_run cs)"

fun fx_spec :: "(u64 \<Rightarrow> i64 option) \<Rightarrow> fx_op \<Rightarrow> u64 \<Rightarrow> i64 option" where
  "fx_spec m (FxMax i) = max_entry m i"
| "fx_spec m (FxSet i) = m(Peer i \<mapsto> Counter i)"
| "fx_spec m (FxRemove i) = del_entry m i"
| "fx_spec m (FxDrop p) = m(p := None)"

lemma fx_step_ok: "fx_ok t \<Longrightarrow> \<exists>t'. fx_step c t = Some t' \<and> fx_ok t' \<and> fx_map t' = fx_spec (fx_map t) c"
proof (cases c)
  case (FxRemove i)
  then show "fx_ok t \<Longrightarrow> ?thesis" using fx_remove_ok [of t i] by (auto simp: del_entry_def)
qed (simp_all add: insertMax_ok insertAlways_ok removeKey_ok)

lemma fx_run_ok: "fx_ok t \<Longrightarrow> \<exists>t'. fx_run cs t = Some t' \<and> fx_ok t' \<and> fx_map t' = foldl fx_spec (fx_map t) cs"
proof (induction cs arbitrary: t)
  case (Cons c cs)
  obtain u where "fx_step c t = Some u" "fx_ok u" "fx_map u = fx_spec (fx_map t) c"
    using fx_step_ok [OF Cons.prems] by blast
  with Cons.IH [of u] show ?case by simp
qed simp

section \<open>Properties\<close>

text \<open>C7: The hash table refines a finite map. From a fresh table of any announced capacity,
  every sequence of insertions and removals ends (no probing loop runs forever), and leaves a
  table in which a lookup ends with the map's value and the iteration lists each entry of the
  map, each peer once.\<close>

theorem table_refines_map:
  fixes ops :: "fx_op list"
  shows "\<exists>t. fx_run ops (fxWithCapacity c) = Some t \<and>
    (\<forall>p. fx_get t p = Some (foldl fx_spec Map.empty ops p)) \<and>
    distinct (map Peer (fx_ids t)) \<and> int (length (fx_ids t)) = fx_items t \<and>
    (\<forall>i. i \<in> set (fx_ids t) \<longleftrightarrow> foldl fx_spec Map.empty ops (Peer i) = Some (Counter i))"
proof -
  obtain t where "fx_run ops (fxWithCapacity c) = Some t" "fx_ok t" "fx_map t = foldl fx_spec Map.empty ops"
    using fx_run_ok [of "fxWithCapacity c" ops] fxWithCapacity_ok [of c] by auto
  then show ?thesis
    using fx_get_ok [of t] fx_ids_ok [of t] fx_ids_set [of t] by simp
qed

text \<open>C8: The table's invariant holds of every table the program can make, and each operation
  keeps it: the control bytes agree with their copies and with the keys' hashes, every key is
  reachable by its probe sequence, at least one bucket is empty, and the two counters count
  what the control bytes show.\<close>

theorem table_invariant:
  fixes c :: int
  shows "fx_ok fx_nil \<and> fx_ok (fxWithCapacity c) \<and>
    (\<forall>t op. fx_ok t \<longrightarrow> (\<exists>t'. fx_step op t = Some t' \<and> fx_ok t'))"
  using fx_step_ok fxWithCapacity_ok fx_ok_nil by blast

theorem table_invariant_witness:
  "\<exists>t'. fx_step (FxSet \<lparr>Peer = 7, Counter = 1\<rparr>) fx_nil = Some t' \<and> fx_ok t'"
  using table_invariant [of 0] fx_ok_nil by blast

text \<open>C9: When a change arrives, \<open>updateOnNewChange\<close> ends and leaves the frontiers without the
  dependencies that were listed and with the change's last id, a later counter of the same
  peer winning, whichever of its two branches it takes, provided the dependencies are listed
  once each.\<close>

theorem update_frontiers:
  assumes "distinct earlier" and "distinct deps"
  shows "\<exists>f f'. frontiersOf earlier = Some f \<and> updateOnNewChange lst deps f = Some f' \<and>
    (\<forall>i. fr_contains i f' = Some (advance_heads lst deps (foldl max_entry Map.empty earlier) (Peer i) = Some (Counter i))) \<and>
    (\<forall>i. i \<in> set (fr_ids f') \<longleftrightarrow> fr_contains i f' = Some True)"
proof -
  obtain f where f: "frontiersOf earlier = Some f" "fr_ok f" "fr_map f = foldl max_entry Map.empty earlier"
    using frontiersOf_ok by blast
  obtain f' where f': "updateOnNewChange lst deps f = Some f'" "fr_ok f'"
    "fr_map f' = advance_heads lst deps (fr_map f)"
    using updateOnNewChange_ok [OF f(2) assms(2)] by blast
  show ?thesis
    using f f' fr_ids_ok [OF f'(2)] map_of_ids_set [of "fr_ids f'"] by (simp add: fr_contains_ok)
qed

text \<open>C10: \<open>depsOrder\<close> ends and only reorders: it returns the dependencies it was given, each
  once, when their peers differ.\<close>

theorem deps_order_permutes:
  assumes "distinct (map Peer deps)"
  shows "\<exists>deps'. depsOrder deps = Some deps' \<and> set deps' = set deps \<and> distinct deps'"
proof (cases "length deps < 2")
  case True
  then show ?thesis using assms by (auto simp: depsOrder_def distinct_map)
next
  case False
  obtain f where f: "frontiersOf deps = Some f" "fr_ok f" "fr_map f = foldl max_entry Map.empty deps"
    using frontiersOf_ok by blast
  have "map_of (map (\<lambda>e. (Peer e, Counter e)) (fr_ids f)) = map_of (map (\<lambda>e. (Peer e, Counter e)) deps)"
    using f(3) fr_ids_ok [OF f(2)] foldl_max_entry [OF assms, of Map.empty] by simp
  then have "set (fr_ids f) = set deps"
    using map_of_ids_set [OF assms] map_of_ids_set [of "fr_ids f"] fr_ids_ok [OF f(2)] by (metis subset_antisym subsetI)
  with False f fr_ids_ok [OF f(2)] show ?thesis by (auto simp: depsOrder_def distinct_map)
qed

theorem deps_order_witness:
  "\<exists>deps'. depsOrder [\<lparr>Peer = 9, Counter = 3\<rparr>, \<lparr>Peer = 4, Counter = 1\<rparr>] = Some deps' \<and>
    set deps' = {\<lparr>Peer = 9, Counter = 3\<rparr>, \<lparr>Peer = 4, Counter = 1\<rparr>}"
  using deps_order_permutes [of "[\<lparr>Peer = 9, Counter = 3\<rparr>, \<lparr>Peer = 4, Counter = 1\<rparr>]"] by auto

theorem update_frontiers_witness:
  "\<exists>f f'. frontiersOf [\<lparr>Peer = 9, Counter = 3\<rparr>] = Some f \<and>
    updateOnNewChange \<lparr>Peer = 4, Counter = 1\<rparr> [\<lparr>Peer = 9, Counter = 3\<rparr>] f = Some f' \<and>
    fr_contains \<lparr>Peer = 9, Counter = 3\<rparr> f' = Some False"
proof -
  obtain f f' where "frontiersOf [\<lparr>Peer = 9, Counter = 3\<rparr>] = Some f"
    "updateOnNewChange \<lparr>Peer = 4, Counter = 1\<rparr> [\<lparr>Peer = 9, Counter = 3\<rparr>] f = Some f'"
    "\<forall>i. fr_contains i f' = Some (advance_heads \<lparr>Peer = 4, Counter = 1\<rparr> [\<lparr>Peer = 9, Counter = 3\<rparr>]
      (foldl max_entry Map.empty [\<lparr>Peer = 9, Counter = 3\<rparr>]) (Peer i) = Some (Counter i))"
    using update_frontiers [of "[\<lparr>Peer = 9, Counter = 3\<rparr>]" "[\<lparr>Peer = 9, Counter = 3\<rparr>]" "\<lparr>Peer = 4, Counter = 1\<rparr>"]
    by auto
  then show ?thesis by (auto simp: advance_heads_def max_entry_def del_entry_def)
qed

end
