(* ===== verification/VersionVec.thy ===== *)
theory VersionVec
  imports Frontiers Cursor "HOL-Library.Product_Lexorder"
begin

unbundle bit_operations_syntax

text \<open>
  Version vectors and frontiers as bytes (\<open>loro/version.go\<close>): a count, then each peer as a
  varint and its counter as a zigzag varint of 32 bits. A \<open>None\<close> of the hash table, a loop
  that does not end, becomes \<open>OutOfFuel\<close>, which no function here returns.
\<close>

section \<open>Reading and writing 32-bit integers\<close>

function readU32_loop :: "nat \<Rightarrow> u32 \<Rightarrow> reader \<Rightarrow> (u32 \<times> reader) res" where
  "readU32_loop i x r =
     (if i < 5 then
        bindR (reader_Byte r) (\<lambda>(c, r).
          let x = x OR push_bit (7 * i) (ucast (c AND 0x7f)) in
          if c AND 0x80 = 0 then
            (if i = 4 \<and> c > 0x0f then Inl ErrOverflow else Inr (x, r))
          else readU32_loop (i + 1) x r)
      else Inl ErrOverflow)"
  by pat_completeness auto
termination by (relation "measure (\<lambda>(i, _). 5 - i)") auto

declare readU32_loop.simps [simp del]

definition readU32 :: "reader \<Rightarrow> (u32 \<times> reader) res" where
  "readU32 = readU32_loop 0 0"

definition readI32 :: "reader \<Rightarrow> (i64 \<times> reader) res" where
  "readI32 r = bindR (readU32 r) (\<lambda>(u, r). Inr (scast (drop_bit 1 u XOR - (u AND 1)), r))"

definition appendI32 :: "bytes \<Rightarrow> i64 \<Rightarrow> bytes" where
  "appendI32 dst c =
     (let x = ucast c :: u32 in AppendUvarint dst (ucast (push_bit 1 x XOR signed_drop_bit 31 x)))"

section \<open>Version vectors\<close>

record VersionVector =
  vv_t :: fxTable

definition liftF :: "'a option \<Rightarrow> 'a res" where
  "liftF m = (case m of Some x \<Rightarrow> Inr x | None \<Rightarrow> Inl OutOfFuel)"

definition vv_Get :: "u64 \<Rightarrow> VersionVector \<Rightarrow> i64 option option" where
  "vv_Get peer v = fx_get (vv_t v) peer"

definition vv_Len :: "VersionVector \<Rightarrow> int" where
  "vv_Len v = fx_items (vv_t v)"

definition vv_Map :: "VersionVector \<Rightarrow> u64 \<Rightarrow> i64 option" where
  "vv_Map v = foldl (\<lambda>m i. m(Peer i \<mapsto> Counter i)) Map.empty (fx_ids (vv_t v))"

text \<open>Tables are values here, so \<open>clone\<close> is the identity.\<close>

definition SetEnd :: "u64 \<Rightarrow> i64 \<Rightarrow> VersionVector \<Rightarrow> VersionVector res" where
  "SetEnd peer lim v =
     (if sint lim > 2 ^ 31 - 1 then Inl (Errorf ''counter past 32 bits'')
      else bindR (liftF (if sint lim \<le> 0 then removeKey peer (vv_t v)
                         else insertAlways \<lparr>Peer = peer, Counter = lim\<rparr> (vv_t v)))
        (\<lambda>t. Inr (v\<lparr>vv_t := t\<rparr>)))"

definition put_id :: "bytes \<Rightarrow> ID \<Rightarrow> bytes" where
  "put_id dst i = appendI32 (AppendUvarint dst (Peer i)) (Counter i)"

definition vv_Encode :: "VersionVector \<Rightarrow> bytes" where
  "vv_Encode v =
     foldl put_id (AppendUvarint [] (word_of_int (fx_items (vv_t v)))) (fx_ids (vv_t v))"

definition maxDecodeCapacity :: int where
  "maxDecodeCapacity = 65536"

text \<open>One entry, and the loop that inserts \<open>n\<close> of them.\<close>

definition read_id :: "reader \<Rightarrow> (ID \<times> reader) res" where
  "read_id r = bindR (reader_Uvarint r) (\<lambda>(peer, r). bindR (readI32 r) (\<lambda>(ctr, r).
     Inr (\<lparr>Peer = peer, Counter = ctr\<rparr>, r)))"

fun vv_entries :: "nat \<Rightarrow> fxTable \<Rightarrow> reader \<Rightarrow> (fxTable \<times> reader) res" where
  "vv_entries 0 t r = Inr (t, r)"
| "vv_entries (Suc n) t r =
     bindR (read_id r) (\<lambda>(i, r). bindR (liftF (insertAlways i t)) (\<lambda>t. vv_entries n t r))"

definition decodeVersionVector :: "bytes \<Rightarrow> bool \<Rightarrow> VersionVector res" where
  "decodeVersionVector b presize =
     bindR (readU32 (NewReader b)) (\<lambda>(n, r).
       if unat n > reader_Remaining r div 2 then Inl (Errorf ''version vector too long'')
       else bindR (vv_entries (unat n)
              (if presize then fxWithCapacity (min (uint n) maxDecodeCapacity) else fx_nil) r)
         (\<lambda>(t, r). Inr \<lparr>vv_t = t\<rparr>))"

definition DecodeVersionVector :: "bytes \<Rightarrow> VersionVector res" where
  "DecodeVersionVector b = decodeVersionVector b True"

section \<open>Frontiers\<close>

definition fits32 :: "i64 \<Rightarrow> bool" where
  "fits32 c \<longleftrightarrow> - (2 ^ 31) \<le> sint c \<and> sint c \<le> 2 ^ 31 - 1"

text \<open>\<open>slices.SortFunc\<close> by peer, then counter.\<close>

definition sort_ids :: "ID list \<Rightarrow> ID list" where
  "sort_ids = sort_key (\<lambda>i. (Peer i, sint (Counter i)))"

definition EncodeFrontiers :: "ID list \<Rightarrow> bytes res" where
  "EncodeFrontiers ids =
     (if \<exists>i\<in>set ids. \<not> fits32 (Counter i) then Inl (Errorf ''frontier counter outside 32 bits'')
      else bindR (liftF (frontiersOf ids)) (\<lambda>f.
        let list = sort_ids (fr_ids f) in
        Inr (foldl put_id (AppendUvarint [] (of_nat (length list))) list)))"

definition decodeIDList :: "bytes \<Rightarrow> ID list res" where
  "decodeIDList b =
     bindR (readU32 (NewReader b)) (\<lambda>(n, r).
       if unat n > reader_Remaining r div 2 then Inl (Errorf ''frontiers too long'')
       else bindR (read_n (unat n) read_id r) (\<lambda>(ids, r). Inr ids))"

definition DecodeFrontiers :: "bytes \<Rightarrow> ID list res" where
  "DecodeFrontiers b = bindR (decodeIDList b) (\<lambda>ids. bindR (liftF (frontiersOf ids)) (\<lambda>f. Inr (fr_ids f)))"

section \<open>32-bit integers read back\<close>

lemma bit_less_32: "bit (v :: u32) i \<Longrightarrow> i < 32"
  using bit_imp_le_length [of v i] by auto

lemma ucast_32_64: "ucast (ucast (v :: u32) :: u64) = v" "ucast (drop_bit 7 v) = drop_bit 7 (ucast v :: u64)"
  by (rule bit_eqI; auto simp: bit_ucast_iff bit_drop_bit_eq dest: bit_less_32)+

lemma ucast_lt_80: "(ucast (v :: u32) :: u64) < 0x80 \<longleftrightarrow> v < 0x80"
proof -
  have "unat (ucast v :: u64) = unat v"
    by (rule bit_eqI) (auto simp: bit_unsigned_iff dest: bit_less_32)
  then show ?thesis by (simp add: word_less_nat_alt)
qed

lemma flag_byte: "(c :: byte) AND 0x80 = 0 \<longleftrightarrow> c < 0x80"
proof -
  have "c AND 0x80 = 0 \<longleftrightarrow> \<not> bit c 7"
    unfolding byte_consts by (rule and_exp_eq_0_iff_not_bit)
  moreover have "bit c 7 \<longleftrightarrow> odd (unat c div 128)"
  proof -
    have "bit c 7 \<longleftrightarrow> bit (unat c) 7" by (simp only: bit_unsigned_iff) simp
    then show ?thesis by (simp add: bit_iff_odd [of "unat c"])
  qed
  moreover have "odd (unat c div 128) \<longleftrightarrow> \<not> unat c < 128"
  proof -
    have "unat c < 256" using unsigned_less [of c] by simp
    then have "unat c div 128 < 2" by (simp add: div_less_iff_less_mult)
    then have "unat c div 128 = 0 \<or> unat c div 128 = 1" by linarith
    then show ?thesis by (auto simp: div_eq_0_iff)
  qed
  ultimately show ?thesis by (simp add: word_less_nat_alt)
qed

lemma readU32_step:
  "i < 5 \<Longrightarrow> readU32_loop i x r = bindR (reader_Byte r) (\<lambda>(c, r).
     if c < 0x80 then
       (if i = 4 \<and> c > 0x0f then Inl ErrOverflow
        else Inr (x OR push_bit (7 * i) (ucast (c AND 0x7f)), r))
     else readU32_loop (i + 1) (x OR push_bit (7 * i) (ucast (c AND 0x7f))) r)"
  by (subst readU32_loop.simps) (simp add: flag_byte Let_def)


lemma take_bit_32_64: "take_bit n (ucast (v :: u32) :: u64) = ucast (take_bit n v)"
  by (rule bit_eqI) (auto simp: bit_ucast_iff bit_take_bit_iff dest: bit_less_32)

lemma last_nibble: "take_bit 4 (v :: u32) = v \<Longrightarrow> \<not> (ucast (ucast v :: u64) :: byte) > 0x0f"
proof -
  assume v: "take_bit 4 v = v"
  have "(ucast (ucast v :: u64) :: byte) = take_bit 4 (ucast (ucast v :: u64))"
    by (subst v [symmetric]) (rule bit_eqI, auto simp: bit_ucast_iff bit_take_bit_iff)
  then have "(ucast (ucast v :: u64) :: byte) < 2 ^ 4" by (subst word_less_exp_iff) auto
  then show ?thesis by (simp add: word_less_nat_alt)
qed

lemma payload32:
  "ucast ((ucast (ucast (v :: u32) :: u64) :: byte) AND 0x7f) = take_bit 7 v"
  "ucast ((ucast (ucast v :: u64) OR 0x80 :: byte) AND 0x7f) = take_bit 7 v"
  unfolding byte_consts by (rule bit_eqI; simp only: bit_simps; auto)+

lemma varint_glue32:
  "push_bit s (take_bit 7 v) OR push_bit (s + 7) (drop_bit 7 v) = push_bit s (v :: u32)"
proof (rule bit_eqI)
  fix n
  show "bit (push_bit s (take_bit 7 v) OR push_bit (s + 7) (drop_bit 7 v)) n \<longleftrightarrow>
      bit (push_bit s v) n"
    by (cases "n < s + 7")
      (auto simp: bit_or_iff bit_push_bit_iff bit_take_bit_iff bit_drop_bit_eq)
qed

lemma readU32_loop_parses:
  assumes "i \<le> 4" and "take_bit (32 - 7 * i) v = v"
  shows "parses (readU32_loop i x) (uvarint_bytes (ucast v)) (x OR push_bit (7 * i) v)"
  using assms
proof (induction "unat v" arbitrary: v i x rule: less_induct)
  case less
  have i5: "i < 5" using less.prems(1) by simp
  show ?case
  proof (cases "v < 0x80")
    case True
    then have t: "(ucast v :: u64) < 0x80" by (simp only: ucast_lt_80)
    have eq: "uvarint_bytes (ucast v) = [ucast (ucast v :: u64)] @ []" by (simp add: uvarint_bytes_small [OF t])
    have small: "(i = 4 \<and> (ucast (ucast v :: u64) :: byte) > 0x0f) = False"
      using less.prems last_nibble [of v] by auto
    have "take_bit 7 v = v" using True by (simp add: low7_take_bit)
    then show ?thesis unfolding eq
      by (intro parses_cong [OF _ readU32_step [OF i5, symmetric]] parses_bindR [OF reader_Byte_parses])
        (use ucast_low7 [OF t] parses_return in \<open>simp only: case_prod_conv small if_True if_False payload32\<close>)
  next
    case False
    then have t: "0x80 \<le> (ucast v :: u64)" by (simp only: linorder_not_less [symmetric] ucast_lt_80) simp
    have "i \<noteq> 4"
    proof
      assume "i = 4"
      with less.prems have "take_bit 4 v = v" by simp
      then have "take_bit 7 v = v" by (metis take_bit_take_bit min.absorb2 numeral_le_iff semiring_norm(68,69,71,72,79))
      with False show False by (simp add: low7_take_bit)
    qed
    with less.prems have i: "i + 1 \<le> 4" by simp
    have "unat v > 0" using False by (simp add: word_less_nat_alt)
    then have smaller: "unat (drop_bit 7 v) < unat v" by (simp only: unat_drop_bit) simp
    have fits: "take_bit (32 - 7 * (i + 1)) (drop_bit 7 v) = drop_bit 7 v"
      using less.prems(2) drop_bit_take_bit [of 7 "32 - 7 * i" v] by (simp add: algebra_simps)
    have eq: "uvarint_bytes (ucast v) = [ucast (ucast v :: u64) OR 0x80] @ uvarint_bytes (ucast (drop_bit 7 v))"
      by (simp add: uvarint_bytes_large [OF t] ucast_32_64)
    have val: "x OR push_bit (7 * i) v =
        (x OR push_bit (7 * i) (take_bit 7 v)) OR push_bit (7 * (i + 1)) (drop_bit 7 v)"
      using varint_glue32 [of "7 * i" v] by (simp add: or.assoc algebra_simps)
    show ?thesis unfolding eq val
      by (intro parses_cong [OF _ readU32_step [OF i5, symmetric]] parses_bindR [OF reader_Byte_parses])
        (use less.hyps [OF smaller i fits] in \<open>simp add: continuation_byte payload32\<close>)
  qed
qed

lemma readU32_parses: "parses readU32 (uvarint_bytes (ucast v)) v"
  using readU32_loop_parses [of 0 v 0] take_bit_length_eq [of v] by (simp add: readU32_def)

lemma bit_zig32: "bit (push_bit 1 v XOR signed_drop_bit 31 v :: u32) i \<longleftrightarrow> i < 32 \<and> (0 < i \<and> bit v (i - 1)) \<noteq> bit v 31"
  by (cases i; simp only: bit_xor_iff bit_push_bit_iff bit_signed_drop_bit_iff possible_bit_def exp_eq_zero_iff)
    (auto dest: bit_less_32)

lemma bit_unzig32: "bit (drop_bit 1 u XOR - (u AND 1) :: u32) i \<longleftrightarrow> i < 32 \<and> bit u (Suc i) \<noteq> bit u 0"
proof -
  have "u AND 1 = of_bool (bit u 0)" by (simp add: and_one_eq bit_0 mod2_eq_if)
  then have "bit (- (u AND 1)) i \<longleftrightarrow> i < 32 \<and> bit u 0"
    by (cases "bit u 0") (simp_all add: bit_minus_1_iff possible_bit_def)
  then show ?thesis
    by (simp only: bit_xor_iff bit_drop_bit_eq o_apply plus_1_eq_Suc) (auto dest: bit_less_32)
qed

lemma unzig_zig32:
  fixes v :: u32
  defines "u \<equiv> push_bit 1 v XOR signed_drop_bit 31 v"
  shows "drop_bit 1 u XOR - (u AND 1) = v"
proof (rule bit_eqI)
  fix n
  show "bit (drop_bit 1 u XOR - (u AND 1)) n \<longleftrightarrow> bit v n"
    unfolding bit_unzig32 unfolding u_def bit_zig32
    by (cases "n < 31"; cases "n = 31") (auto dest: bit_less_32)
qed

lemma scast_ucast_32:
  assumes "fits32 c"
  shows "scast (ucast c :: u32) = (c :: i64)"
proof -
  have "(ucast c :: u32) = word_of_int (sint c)"
    by (rule bit_eqI, simp only: bit_word_of_int_iff bit_ucast_iff bit_sint_iff) auto
  moreover have "sint (word_of_int k :: u32) = signed_take_bit 31 k" for k
    by (simp add: signed_of_int)
  moreover have "signed_take_bit 31 (sint c) = sint c"
    using assms by (intro signed_take_bit_int_eq_self) (simp_all add: fits32_def)
  ultimately have "sint (ucast c :: u32) = sint c" by (simp only:)
  then have "scast (ucast c :: u32) = (word_of_int (sint c) :: i64)" by (simp only: scast_eq)
  then show ?thesis by simp
qed

lemma readI32_parses: "fits32 c \<Longrightarrow> parses readI32 (appendI32 [] c) c"
  unfolding readI32_def appendI32_def Let_def
  by (rule parses_bindR_last [OF readU32_parses]) (simp only: case_prod_conv unzig_zig32 scast_ucast_32)


section \<open>What decoding accepts\<close>

lemma readU32_loop_strict: "reader_ok r \<Longrightarrow> strict_from r (readU32_loop i x r)"
proof (induction i x r rule: readU32_loop.induct)
  case (1 i x r)
  show ?case
  proof (cases "i < 5")
    case True
    show ?thesis unfolding readU32_step [OF True]
      by (rule strict_from_bindR [OF reader_Byte_strict [OF "1.prems"]])
        (use 1 True in \<open>auto simp: Let_def flag_byte intro: strict_from_safe intro!: safe_from_Inl safe_from_Inr\<close>)
  next
    case False
    then show ?thesis by (subst readU32_loop.simps) (simp add: strict_from_Inl)
  qed
qed

lemma scast_fits32: "fits32 (scast (u :: u32))"
proof -
  have "sint (scast u :: i64) = sint u" by (simp add: sint_up_scast is_up)
  then show ?thesis using sint_ge [of u] sint_lt [of u] by (simp add: fits32_def)
qed

lemma readI32_strict: "reader_ok r \<Longrightarrow> strict_from r (readI32 r)"
  unfolding readI32_def readU32_def by (auto intro!: safe_intros readU32_loop_strict strict_from_bindR)

lemma readI32_fits: "readI32 r = Inr (c, r') \<Longrightarrow> fits32 c"
  by (auto simp: readI32_def bindR_Inr_iff scast_fits32)

lemma read_id_strict: "reader_ok r \<Longrightarrow> strict_from r (read_id r)"
  unfolding read_id_def by (auto intro!: safe_intros strict_from_safe [OF readI32_strict])

definition id_fits :: "ID \<Rightarrow> bool" where
  "id_fits i \<longleftrightarrow> fits32 (Counter i)"

lemma read_id_fits: "read_id r = Inr (i, r') \<Longrightarrow> id_fits i"
  by (auto simp: read_id_def bindR_Inr_iff id_fits_def dest: readI32_fits)

lemma appendI32_append: "appendI32 dst c = dst @ appendI32 [] c"
  unfolding appendI32_def Let_def by (rule AppendUvarint_eq)

lemma put_id_eq: "put_id dst i = dst @ uvarint_bytes (Peer i) @ appendI32 [] (Counter i)"
  unfolding put_id_def by (subst appendI32_append, subst AppendUvarint_eq) simp

lemma read_id_parses: "id_fits i \<Longrightarrow> parses read_id (put_id [] i) i"
proof -
  assume i: "id_fits i"
  have eq: "put_id [] i = uvarint_bytes (Peer i) @ appendI32 [] (Counter i)"
    by (simp add: put_id_eq)
  show ?thesis
    unfolding read_id_def eq
    by (rule parses_bindR [OF reader_Uvarint_parses], simp only: case_prod_conv,
        rule parses_bindR_last [OF readI32_parses]) (use i in \<open>simp_all add: id_fits_def\<close>)
qed

interpretation idC: codec read_id put_id id_fits
  by unfold_locales
    (use read_id_parses in \<open>auto simp: put_id_eq\<close>)

interpretation idR: cursor1 read_id
  by unfold_locales (auto intro: read_id_strict strict_from_safe)


section \<open>The loops over the hash table\<close>

definition put_entry :: "(u64 \<Rightarrow> i64 option) \<Rightarrow> ID \<Rightarrow> u64 \<Rightarrow> i64 option" where
  "put_entry m i = m(Peer i \<mapsto> Counter i)"

lemma vv_entries_ok:
  "fx_ok t \<Longrightarrow> case read_n n read_id r of
     Inl e \<Rightarrow> vv_entries n t r = Inl e
   | Inr (ids, r') \<Rightarrow> \<exists>t'. vv_entries n t r = Inr (t', r') \<and> fx_ok t' \<and>
       fx_map t' = foldl put_entry (fx_map t) ids"
proof (induction n arbitrary: t r)
  case (Suc n)
  show ?case
  proof (cases "read_id r")
    case (Inr p)
    obtain i r1 where p: "p = (i, r1)" by (cases p)
    obtain u where u: "insertAlways i t = Some u" "fx_ok u" "fx_map u = put_entry (fx_map t) i"
      using insertAlways_ok [OF Suc.prems, of i] by (auto simp: put_entry_def)
    from Suc.IH [OF u(2), of r1] show ?thesis
      by (auto simp: Inr p liftF_def u split: sum.splits)
  qed simp
qed simp

lemma foldl_put_entry:
  "distinct (map Peer ids) \<Longrightarrow> Peer ` set ids \<inter> dom m = {} \<Longrightarrow> foldl put_entry m ids = foldl max_entry m ids"
proof (induction ids arbitrary: m)
  case (Cons i ids)
  then have "max_entry m i = put_entry m i"
    unfolding put_entry_def by (intro max_entry_new) auto
  moreover have "dom (put_entry m i) = insert (Peer i) (dom m)" by (auto simp: put_entry_def)
  ultimately show ?case using Cons.IH [of "put_entry m i"] Cons.prems by simp
qed simp

lemma foldl_put_ids:
  "distinct (map Peer ids) \<Longrightarrow> foldl put_entry Map.empty ids = map_of (map (\<lambda>e. (Peer e, Counter e)) ids)"
  using foldl_max_entry [of ids Map.empty] by (simp add: foldl_put_entry)

section \<open>Properties\<close>

text \<open>The version vectors the program makes: a good table, every counter within 32 bits.\<close>

definition vv_ok :: "VersionVector \<Rightarrow> bool" where
  "vv_ok v \<longleftrightarrow> fx_ok (vv_t v) \<and> (\<forall>p c. fx_map (vv_t v) p = Some c \<longrightarrow> fits32 c)"

lemma vv_Map_eq: "fx_ok (vv_t v) \<Longrightarrow> vv_Map v = fx_map (vv_t v)"
  using fx_ids_ok [of "vv_t v"] foldl_put_ids [of "fx_ids (vv_t v)"]
  by (simp add: vv_Map_def put_entry_def [abs_def])

lemma foldl_put_fits:
  "\<forall>p c. m p = Some c \<longrightarrow> fits32 c \<Longrightarrow> \<forall>i\<in>set ids. id_fits i \<Longrightarrow>
    foldl put_entry m ids p = Some c \<Longrightarrow> fits32 c"
proof (induction ids arbitrary: m)
  case (Cons i ids)
  have "\<forall>p c. put_entry m i p = Some c \<longrightarrow> fits32 c"
    using Cons.prems(1,2) by (simp add: put_entry_def id_fits_def)
  from Cons.IH [OF this] Cons.prems(2,3) show ?case by simp
qed simp

lemma read_n_fits: "read_n n read_id r = Inr (ids, r') \<Longrightarrow> \<forall>i\<in>set ids. id_fits i"
  by (induction n arbitrary: r ids) (auto simp: bindR_Inr_iff dest: read_id_fits)

definition fresh_table :: "bool \<Rightarrow> u32 \<Rightarrow> fxTable" where
  "fresh_table presize n = (if presize then fxWithCapacity (min (uint n) maxDecodeCapacity) else fx_nil)"

lemma fresh_table_ok: "fx_ok (fresh_table presize n)" "fx_map (fresh_table presize n) = Map.empty"
  using fxWithCapacity_ok by (simp_all add: fresh_table_def)

text \<open>The list of ids that \<open>decodeIDList\<close> reads decides what \<open>decodeVersionVector\<close> does.\<close>

lemma decode_vv_ids:
  "case decodeIDList b of
     Inr ids \<Rightarrow> \<exists>v. decodeVersionVector b presize = Inr v \<and> vv_ok v \<and> vv_Map v = foldl put_entry Map.empty ids
   | Inl e \<Rightarrow> \<exists>e'. decodeVersionVector b presize = Inl e' \<and> (go_error e' \<longleftrightarrow> go_error e)"
proof (cases "readU32 (NewReader b)")
  case (Inr p)
  obtain n r where p: "p = (n, r)" by (cases p)
  note * = vv_entries_ok [OF fresh_table_ok(1) [of presize n], where n = "unat n" and r = r]
  show ?thesis
  proof (cases "read_n (unat n) read_id r")
    case err: (Inl e)
    with * show ?thesis
      by (simp add: decodeIDList_def decodeVersionVector_def Inr p fresh_table_def)
  next
    case ok: (Inr q)
    obtain ids r' where q: "q = (ids, r')" by (cases q)
    from * obtain t where t: "vv_entries (unat n) (fresh_table presize n) r = Inr (t, r')" "fx_ok t"
      "fx_map t = foldl put_entry Map.empty ids"
      by (auto simp: ok q fresh_table_ok)
    have "\<forall>p c. fx_map t p = Some c \<longrightarrow> fits32 c"
      unfolding t(3) using foldl_put_fits [of Map.empty] read_n_fits [OF ok [unfolded q]] by auto
    with t vv_Map_eq [of "\<lparr>vv_t = t\<rparr>"] show ?thesis
      by (simp add: decodeIDList_def decodeVersionVector_def Inr p ok q fresh_table_def vv_ok_def)
  qed
qed (simp add: decodeIDList_def decodeVersionVector_def)

lemma decodeIDList_error: "decodeIDList b = Inl e \<Longrightarrow> go_error e"
proof -
  assume e: "decodeIDList b = Inl e"
  show ?thesis
  proof (cases "readU32 (NewReader b)")
    case (Inl f)
    moreover have "safe_from (NewReader b) (readU32 (NewReader b))"
      unfolding readU32_def by (intro strict_from_safe readU32_loop_strict) simp
    ultimately show ?thesis using e by (simp add: decodeIDList_def safe_from_def)
  next
    case (Inr p)
    obtain n r where p: "p = (n, r)" by (cases p)
    have "safe_from (NewReader b) (readU32 (NewReader b))"
      unfolding readU32_def by (intro strict_from_safe readU32_loop_strict) simp
    then have "reader_ok r" by (simp add: Inr p safe_from_def moved_def)
    from idR.read_n_safe [OF this, of "unat n"] e show ?thesis
      by (cases "read_n (unat n) read_id r") (auto simp: decodeIDList_def Inr p safe_from_def split: if_splits)
  qed
qed

lemma decodeIDList_encoded:
  assumes fits: "\<forall>i\<in>set ids. id_fits i" and len: "length ids < 2 ^ 32"
  shows "decodeIDList (foldl put_id (AppendUvarint [] (of_nat (length ids))) ids @ ys) = Inr ids"
proof -
  define n :: u32 where "n = of_nat (length ids)"
  have "unat n = length ids" using len by (simp add: n_def unat_of_nat_fits)
  have "(of_nat (length ids) :: u64) = ucast n"
    unfolding \<open>unat n = length ids\<close> [symmetric] by (rule of_nat_unat)
  then have enc: "foldl put_id (AppendUvarint [] (of_nat (length ids))) ids =
      uvarint_bytes (ucast n) @ concat (map (put_id []) ids)"
    by (simp add: idC.foldl_wr)
  define b where "b = concat (map (put_id []) ids)"
  define r where "r = advance (length (uvarint_bytes (ucast n))) (NewReader ((uvarint_bytes (ucast n) @ b) @ ys))"
  have at: "reader_at (NewReader ((uvarint_bytes (ucast n) @ b) @ ys)) (uvarint_bytes (ucast n) @ (b @ ys))" by simp
  have rd: "readU32 (NewReader ((uvarint_bytes (ucast n) @ b) @ ys)) = Inr (n, r)"
    unfolding r_def by (rule parsesD [OF readU32_parses at])
  have r: "reader_at r (b @ ys)"
    unfolding r_def by (rule reader_at_advance [OF at]) simp
  have ids: "read_n (length ids) read_id r = Inr (ids, advance (length b) r)"
    using idC.read_n_parses [of ids] fits r by (auto simp: b_def list_all_iff intro: parsesD)
  have two: "2 \<le> length (put_id [] i)" for i
  proof -
    have "1 \<le> length (uvarint_bytes u)" for u
      using length_uvarint_bytes [of u] by linarith
    from add_mono [OF this [of "Peer i"] this] show ?thesis
      by (simp add: put_id_eq appendI32_def Let_def numeral_2_eq_2)
  qed
  have "2 * length ids \<le> length b"
    unfolding b_def
  proof (induction ids)
    case (Cons i ids)
    then show ?case using two [of i] by simp
  qed simp
  then have "\<not> unat n > reader_Remaining r div 2"
    using \<open>unat n = length ids\<close> reader_at_Remaining [OF r] by simp
  then show ?thesis
    using \<open>unat n = length ids\<close> ids unfolding enc b_def [symmetric] by (simp add: decodeIDList_def rd del: append_assoc)
qed

lemma vv_ids_fit: "vv_ok v \<Longrightarrow> i \<in> set (fx_ids (vv_t v)) \<Longrightarrow> id_fits i"
  using fx_ids_set [of "vv_t v" i] by (auto simp: vv_ok_def id_fits_def)

lemma vv_encoded:
  assumes "vv_ok v" and "vv_Len v < 2 ^ 32"
  shows "\<exists>w. DecodeVersionVector (vv_Encode v @ ys) = Inr w \<and> vv_ok w \<and> vv_Map w = vv_Map v"
proof -
  let ?ids = "fx_ids (vv_t v)"
  have ok: "fx_ok (vv_t v)" using assms(1) by (simp add: vv_ok_def)
  have items: "fx_items (vv_t v) = int (length ?ids)" using fx_ids_ok [OF ok] by simp
  have "decodeIDList (vv_Encode v @ ys) = Inr ?ids"
    using decodeIDList_encoded [of ?ids ys] vv_ids_fit [OF assms(1)] assms(2)
    by (simp add: vv_Encode_def vv_Len_def items)
  with decode_vv_ids [of "vv_Encode v @ ys" True]
  show ?thesis
    using fx_ids_ok [OF ok] foldl_put_ids [of ?ids] vv_Map_eq [OF ok]
    by (auto simp: DecodeVersionVector_def)
qed

lemma SetEnd_ok:
  assumes "vv_ok v" and "sint e \<le> 2 ^ 31 - 1"
  shows "\<exists>w. SetEnd p e v = Inr w \<and> vv_ok w \<and>
    fx_map (vv_t w) = (fx_map (vv_t v))(p := if sint e \<le> 0 then None else Some e)"
proof -
  have ok: "fx_ok (vv_t v)" using assms(1) by (simp add: vv_ok_def)
  define op where "op = (if sint e \<le> 0 then Del p else Put p e)"
  obtain t where t: "fxM.step op (vv_t v) = Some t" "fx_ok t" "fx_map t = map_exec op (fx_map (vv_t v))"
    using fxM.step_ok [OF ok] by blast
  have "SetEnd p e v = Inr (v\<lparr>vv_t := t\<rparr>)"
    using assms(2) t(1) by (auto simp: SetEnd_def op_def liftF_def fx_update_def split: if_splits)
  moreover have "fx_map t = (fx_map (vv_t v))(p := if sint e \<le> 0 then None else Some e)"
    by (simp add: t(3) op_def)
  moreover from this have "vv_ok (v\<lparr>vv_t := t\<rparr>)"
    using assms t(2) by (auto simp: vv_ok_def fits32_def)
  ultimately show ?thesis by simp
qed

text \<open>A sequence of \<open>SetEnd\<close> calls.\<close>

fun set_ends :: "(u64 \<times> i64) list \<Rightarrow> VersionVector \<Rightarrow> VersionVector res" where
  "set_ends [] v = Inr v"
| "set_ends ((p, e) # ps) v = bindR (SetEnd p e v) (set_ends ps)"

definition end_entry :: "(u64 \<Rightarrow> i64 option) \<Rightarrow> u64 \<times> i64 \<Rightarrow> u64 \<Rightarrow> i64 option" where
  "end_entry m pe = m(fst pe := if sint (snd pe) \<le> 0 then None else Some (snd pe))"

lemma set_ends_ok:
  "vv_ok v \<Longrightarrow> \<forall>(p, e)\<in>set ps. sint e \<le> 2 ^ 31 - 1 \<Longrightarrow>
    \<exists>w. set_ends ps v = Inr w \<and> vv_ok w \<and> fx_map (vv_t w) = foldl end_entry (fx_map (vv_t v)) ps"
proof (induction ps arbitrary: v)
  case (Cons pe ps)
  obtain p e where pe: "pe = (p, e)" by (cases pe)
  obtain u where "SetEnd p e v = Inr u" "vv_ok u" "fx_map (vv_t u) = end_entry (fx_map (vv_t v)) pe"
    using SetEnd_ok [OF Cons.prems(1), of e p] Cons.prems(2) by (auto simp: pe end_entry_def)
  with Cons.IH [of u] Cons.prems(2) show ?case by (simp add: pe)
qed simp

lemma vv_dom_bound:
  "finite (dom m) \<Longrightarrow> card (dom (foldl end_entry m ps)) \<le> card (dom m) + length ps"
proof (induction ps arbitrary: m)
  case (Cons pe ps)
  have sub: "dom (end_entry m pe) \<subseteq> insert (fst pe) (dom m)" by (auto simp: end_entry_def split: if_splits)
  then have "finite (dom (end_entry m pe))" using Cons.prems finite_subset by blast
  moreover have "card (dom (end_entry m pe)) \<le> Suc (card (dom m))"
    using card_mono [OF _ sub] Cons.prems by (auto simp: card_insert_if split: if_splits)
  ultimately show ?case using Cons.IH [of "end_entry m pe"] by simp
qed simp

text \<open>C23: \<open>DecodeVersionVector\<close> ends on every input, without a panic: it returns an error, or a
  well-formed version vector, whose table satisfies its invariant and whose counters fit 32
  bits; sizing the table beforehand does not change the entries.\<close>

theorem version_vector_decoded:
  fixes b :: bytes
  shows "(\<exists>v w. DecodeVersionVector b = Inr v \<and> vv_ok v \<and> decodeVersionVector b False = Inr w \<and> vv_Map w = vv_Map v) \<or>
    (\<exists>e. DecodeVersionVector b = Inl e \<and> go_error e)"
proof (cases "decodeIDList b")
  case (Inl e)
  with decode_vv_ids [of b True] decodeIDList_error [OF Inl] show ?thesis
    by (auto simp: DecodeVersionVector_def)
next
  case (Inr ids)
  with decode_vv_ids [of b True] decode_vv_ids [of b False] show ?thesis
    by (auto simp: DecodeVersionVector_def)
qed


text \<open>C21: A version vector filled by any sequence of \<open>SetEnd\<close> calls, each with an end within 32
  bits, holds for every peer the last end set, or nothing if that was zero or less; \<open>Len\<close>
  counts its entries, and decoding what it encodes to, whatever bytes follow, gives an equal
  one.\<close>

theorem version_vector_round_trip:
  assumes "\<forall>(p, e)\<in>set ps. sint e \<le> 2 ^ 31 - 1" and "length ps < 2 ^ 32"
  shows "\<exists>v w. set_ends ps \<lparr>vv_t = fx_nil\<rparr> = Inr v \<and>
    (\<forall>p. vv_Get p v = Some (foldl end_entry Map.empty ps p)) \<and>
    vv_Map v = foldl end_entry Map.empty ps \<and> vv_Len v = int (card (dom (vv_Map v))) \<and>
    DecodeVersionVector (vv_Encode v @ ys) = Inr w \<and> vv_Map w = vv_Map v"
proof -
  have "vv_ok \<lparr>vv_t = fx_nil\<rparr>" by (simp add: vv_ok_def)
  from set_ends_ok [OF this assms(1)]
  obtain v where v: "set_ends ps \<lparr>vv_t = fx_nil\<rparr> = Inr v" "vv_ok v" "fx_map (vv_t v) = foldl end_entry Map.empty ps"
    by auto
  have ok: "fx_ok (vv_t v)" using v(2) by (simp add: vv_ok_def)
  have len: "vv_Len v = int (card (dom (vv_Map v)))"
    using fx_items_dom [OF ok] vv_Map_eq [OF ok] by (simp add: vv_Len_def)
  moreover have "vv_Len v < 2 ^ 32"
    using vv_dom_bound [of Map.empty ps] assms(2) by (simp add: len vv_Map_eq [OF ok] v(3))
  from vv_encoded [OF v(2) this] obtain w where "DecodeVersionVector (vv_Encode v @ ys) = Inr w" "vv_Map w = vv_Map v"
    by blast
  ultimately show ?thesis
    using v fx_get_ok [OF ok] vv_Map_eq [OF ok] by (auto simp: vv_Get_def)
qed

theorem version_vector_witness:
  "\<exists>v w. set_ends [(7, 5), (9, 2), (7, 0)] \<lparr>vv_t = fx_nil\<rparr> = Inr v \<and> vv_Map v = [9 \<mapsto> 2] \<and>
    DecodeVersionVector (vv_Encode v @ [1]) = Inr w \<and> vv_Map w = [9 \<mapsto> 2]"
proof -
  have "\<forall>(p :: u64, e :: i64)\<in>set [(7, 5), (9, 2), (7, 0)]. sint e \<le> 2 ^ 31 - 1" by simp
  from version_vector_round_trip [OF this, of "[1]"] obtain v w where
    "set_ends [(7, 5), (9, 2), (7, 0)] \<lparr>vv_t = fx_nil\<rparr> = Inr v"
    "vv_Map v = foldl end_entry Map.empty [(7, 5), (9, 2), (7, 0)]"
    "DecodeVersionVector (vv_Encode v @ [1]) = Inr w" "vv_Map w = vv_Map v" by auto
  moreover have "foldl end_entry Map.empty [(7, 5), (9, 2), (7, 0)] = [9 \<mapsto> 2]"
    by (auto simp: end_entry_def)
  ultimately show ?thesis by auto
qed

lemma sort_ids_set [simp]: "set (sort_ids ids) = set ids" "length (sort_ids ids) = length ids"
  by (simp_all add: sort_ids_def)

lemma sort_ids_unique:
  assumes "set xs = set ys" and "distinct xs" and "distinct ys"
  shows "sort_ids xs = sort_ids ys"
proof -
  let ?k = "\<lambda>i :: ID. (Peer i, sint (Counter i))"
  have inj: "inj ?k" by (auto simp: inj_def ID_eq_iff intro: signed_word_eqI)
  have "sorted (map ?k (sort_ids zs))" for zs by (simp add: sort_ids_def)
  moreover have "distinct (map ?k (sort_ids zs)) \<longleftrightarrow> distinct zs" for zs
    by (simp add: sort_ids_def distinct_map inj_on_subset [OF inj])
  ultimately have "map ?k (sort_ids xs) = map ?k (sort_ids ys)"
    using assms by (intro sorted_distinct_set_unique) simp_all
  then show ?thesis using inj by (rule map_injective)
qed

lemma foldl_max_fits:
  "\<forall>p c. m p = Some c \<longrightarrow> fits32 c \<Longrightarrow> \<forall>i\<in>set ids. id_fits i \<Longrightarrow>
    foldl max_entry m ids p = Some c \<Longrightarrow> fits32 c"
proof (induction ids arbitrary: m)
  case (Cons i ids)
  have "\<forall>p c. max_entry m i p = Some c \<longrightarrow> fits32 c"
    using Cons.prems(1,2) by (auto simp: max_entry_def id_fits_def smax_def split: option.splits)
  from Cons.IH [OF this] Cons.prems(2,3) show ?case by simp
qed simp

lemma foldl_max_dom: "dom (foldl max_entry m ids) = dom m \<union> Peer ` set ids"
proof (induction ids arbitrary: m)
  case (Cons i ids)
  have "dom (max_entry m i) = insert (Peer i) (dom m)" by (auto simp: max_entry_def)
  with Cons show ?case by auto
qed simp

text \<open>C22: Frontiers whose counters fit 32 bits encode to bytes that depend only on the set of
  ids they stand for (the latest of each peer), not on the order they were listed in, and that
  decode, whatever bytes follow, to exactly that set.\<close>

theorem frontiers_encoding_canonical:
  assumes fits: "\<forall>i\<in>set ids. fits32 (Counter i)" and fits': "\<forall>i\<in>set ids'. fits32 (Counter i)"
    and len: "length ids < 2 ^ 32"
    and same: "foldl max_entry Map.empty ids = foldl max_entry Map.empty ids'"
  shows "\<exists>bs list. EncodeFrontiers ids = Inr bs \<and> EncodeFrontiers ids' = Inr bs \<and>
    DecodeFrontiers (bs @ ys) = Inr list \<and> distinct (map Peer list) \<and>
    (\<forall>i. i \<in> set list \<longleftrightarrow> foldl max_entry Map.empty ids (Peer i) = Some (Counter i))"
proof -
  obtain f where f: "frontiersOf ids = Some f" "fr_ok f" "fr_map f = foldl max_entry Map.empty ids"
    using frontiersOf_ok by blast
  obtain f' where f': "frontiersOf ids' = Some f'" "fr_ok f'" "fr_map f' = foldl max_entry Map.empty ids"
    using frontiersOf_ok same by metis
  let ?l = "sort_ids (fr_ids f)"
  have mem: "i \<in> set (fr_ids g) \<longleftrightarrow> fr_map g (Peer i) = Some (Counter i)" if "fr_ok g" for i g
    using fr_ids_ok [OF that] map_of_ids_set [of "fr_ids g"] by simp
  have dist: "distinct (fr_ids g)" if "fr_ok g" for g
    using fr_ids_ok [OF that] by (auto simp: distinct_map)
  have sorted_eq: "sort_ids (fr_ids f') = ?l"
    by (rule sort_ids_unique) (use f f' mem dist in auto)
  then have len_eq: "length (fr_ids f') = length (fr_ids f)" by (metis sort_ids_set(2))
  have "\<forall>i\<in>set ?l. id_fits i"
    using foldl_max_fits [of Map.empty ids] fits mem [OF f(2)] f(3) by (auto simp: id_fits_def)
  moreover have "length ?l < 2 ^ 32"
  proof -
    have "set (map Peer (fr_ids f)) = Peer ` set ids"
      using fr_ids_ok [OF f(2)] foldl_max_dom [of Map.empty ids] f(3)
      by (simp add: dom_map_of_conv_image_fst image_image)
    then have "length (fr_ids f) \<le> length ids"
      using fr_ids_ok [OF f(2)] distinct_card [of "map Peer (fr_ids f)"] card_length [of "map Peer ids"] by simp
    with len show ?thesis by simp
  qed
  ultimately have dec: "decodeIDList (foldl put_id (AppendUvarint [] (of_nat (length ?l))) ?l @ ys) = Inr ?l"
    by (rule decodeIDList_encoded)
  have dl: "distinct (map Peer ?l)"
    using fr_ids_ok [OF f(2)] by (auto simp: distinct_map sort_ids_def)
  obtain g where g: "frontiersOf ?l = Some g" "fr_ok g" "fr_map g = foldl max_entry Map.empty ?l"
    using frontiersOf_ok by blast
  have iff: "i \<in> set (fr_ids g) \<longleftrightarrow> foldl max_entry Map.empty ids (Peer i) = Some (Counter i)" for i
    using mem [OF g(2), of i] mem [OF f(2), of i] map_of_ids_set [OF dl, of i]
    by (simp add: g(3) f(3) foldl_max_entry [OF dl])
  show ?thesis
    using fits fits' f(1) f'(1) sorted_eq len_eq dec g(1) iff fr_ids_ok [OF g(2)]
    by (simp add: EncodeFrontiers_def DecodeFrontiers_def liftF_def Let_def)
qed

theorem frontiers_encoding_witness:
  "\<exists>bs list. EncodeFrontiers [\<lparr>Peer = 9, Counter = 3\<rparr>, \<lparr>Peer = 4, Counter = 1\<rparr>] = Inr bs \<and>
    EncodeFrontiers [\<lparr>Peer = 4, Counter = 1\<rparr>, \<lparr>Peer = 9, Counter = 2\<rparr>, \<lparr>Peer = 9, Counter = 3\<rparr>] = Inr bs \<and>
    DecodeFrontiers (bs @ [7]) = Inr list \<and> \<lparr>Peer = 9, Counter = 3\<rparr> \<in> set list"
proof -
  have "foldl max_entry Map.empty [\<lparr>Peer = 9, Counter = 3\<rparr>, \<lparr>Peer = 4, Counter = 1\<rparr>] =
    foldl max_entry Map.empty [\<lparr>Peer = 4, Counter = 1\<rparr>, \<lparr>Peer = 9, Counter = 2\<rparr>, \<lparr>Peer = 9, Counter = 3\<rparr>]"
    by (auto simp: max_entry_def smax_def)
  note t = frontiers_encoding_canonical [OF _ _ _ this, of "[7]"]
  obtain bs list where "EncodeFrontiers [\<lparr>Peer = 9, Counter = 3\<rparr>, \<lparr>Peer = 4, Counter = 1\<rparr>] = Inr bs"
    "EncodeFrontiers [\<lparr>Peer = 4, Counter = 1\<rparr>, \<lparr>Peer = 9, Counter = 2\<rparr>, \<lparr>Peer = 9, Counter = 3\<rparr>] = Inr bs"
    "DecodeFrontiers (bs @ [7]) = Inr list"
    "\<forall>i. i \<in> set list \<longleftrightarrow> foldl max_entry Map.empty [\<lparr>Peer = 9, Counter = 3\<rparr>, \<lparr>Peer = 4, Counter = 1\<rparr>] (Peer i) = Some (Counter i)"
    using t by (auto simp: fits32_def)
  then show ?thesis by (auto simp: max_entry_def)
qed

end
