(* ===== verification/RustSort.thy ===== *)
theory RustSort
  imports Prelude "HOL-Library.Multiset"
begin

unbundle bit_operations_syntax

text \<open>
  Rust's unstable sort (\<open>loro/rustsort.go\<close>), generic in the comparison \<open>less\<close>, here \<open>lss\<close>: insertion sort,
  run detection, quicksort with a cyclic Hoare partition, heapsort. A Go function that changes
  a slice in place returns the changed list here; a slice of a slice is a part of the list, put
  back when the call returns. Every index the code uses is in range on the slices it passes,
  which the lemmas on lengths show.
\<close>

section \<open>Insertion sort and runs\<close>

text \<open>\<open>ins_shift\<close>: the inner loop, with the gap at \<open>j\<close>.\<close>

fun ins_shift :: "('a \<Rightarrow> 'a \<Rightarrow> bool) \<Rightarrow> 'a \<Rightarrow> 'a list \<Rightarrow> nat \<Rightarrow> 'a list" where
  "ins_shift lss tmp v 0 = v[0 := tmp]"
| "ins_shift lss tmp v (Suc j) =
     (if lss tmp (v ! j) then ins_shift lss tmp (v[Suc j := v ! j]) j else v[Suc j := tmp])"

definition ins_step :: "('a \<Rightarrow> 'a \<Rightarrow> bool) \<Rightarrow> nat \<Rightarrow> 'a list \<Rightarrow> 'a list" where
  "ins_step lss i v = (if \<not> lss (v ! i) (v ! (i - 1)) then v else ins_shift lss (v ! i) v i)"

definition insertionSortShiftLeft :: "('a \<Rightarrow> 'a \<Rightarrow> bool) \<Rightarrow> nat \<Rightarrow> 'a list \<Rightarrow> 'a list" where
  "insertionSortShiftLeft lss offset v = fold (ins_step lss) [offset..<length v] v"

function run_from :: "('a \<Rightarrow> 'a \<Rightarrow> bool) \<Rightarrow> 'a list \<Rightarrow> nat \<Rightarrow> nat" where
  "run_from goes v n = (if n < length v \<and> goes (v ! n) (v ! (n - 1)) then run_from goes v (n + 1) else n)"
  by pat_completeness auto
termination by (relation "measure (\<lambda>(_, v, n). length v - n)") auto

declare run_from.simps [simp del]

definition existingRun :: "('a \<Rightarrow> 'a \<Rightarrow> bool) \<Rightarrow> 'a list \<Rightarrow> nat \<times> bool" where
  "existingRun lss v =
     (let descending = lss (v ! 1) (v ! 0) in
      (if descending then run_from lss v 2 else run_from (\<lambda>a b. \<not> lss a b) v 2, descending))"

function reverse_loop :: "nat \<Rightarrow> nat \<Rightarrow> 'a list \<Rightarrow> 'a list" where
  "reverse_loop i j v = (if i < j then reverse_loop (i + 1) (j - 1) (v[i := v ! j, j := v ! i]) else v)"
  by pat_completeness auto
termination by (relation "measure (\<lambda>(i, j, _). j)") auto

declare reverse_loop.simps [simp del]

section \<open>Pivots\<close>

definition median3 :: "('a \<Rightarrow> 'a \<Rightarrow> bool) \<Rightarrow> 'a list \<Rightarrow> nat \<Rightarrow> nat \<Rightarrow> nat \<Rightarrow> nat" where
  "median3 lss v a b c =
     (let x = lss (v ! a) (v ! b); y = lss (v ! a) (v ! c) in
      if x = y then (if lss (v ! b) (v ! c) \<noteq> x then c else b) else a)"

function median3Rec :: "('a \<Rightarrow> 'a \<Rightarrow> bool) \<Rightarrow> 'a list \<Rightarrow> nat \<Rightarrow> nat \<Rightarrow> nat \<Rightarrow> nat \<Rightarrow> nat" where
  "median3Rec lss v a b c n =
     (if n * 8 \<ge> 64 then
        let n8 = n div 8;
            a = median3Rec lss v a (a + n8 * 4) (a + n8 * 7) n8;
            b = median3Rec lss v b (b + n8 * 4) (b + n8 * 7) n8;
            c = median3Rec lss v c (c + n8 * 4) (c + n8 * 7) n8
        in median3 lss v a b c
      else median3 lss v a b c)"
  by pat_completeness auto
termination by (relation "measure (\<lambda>(_, _, _, _, _, n). n)") auto

declare median3Rec.simps [simp del]

definition choosePivot :: "('a \<Rightarrow> 'a \<Rightarrow> bool) \<Rightarrow> 'a list \<Rightarrow> nat" where
  "choosePivot lss v =
     (let n8 = length v div 8; a = 0; b = n8 * 4; c = n8 * 7 in
      if length v < 64 then median3 lss v a b c else median3Rec lss v a b c n8)"

section \<open>Partition\<close>

text \<open>
  The two scans of \<open>hoareCyclic\<close>. The first leaves \<open>left\<close> at the first element that is not lss
  than the pivot. The second leaves \<open>right\<close> at the last one that is, or at or below \<open>left\<close>; it
  is only at 0 before the decrement when \<open>left\<close> is 0 too, so the Go value -1 and the 0 here
  take the same branch.
\<close>

function scan_left :: "('a \<Rightarrow> bool) \<Rightarrow> 'a list \<Rightarrow> nat \<Rightarrow> nat \<Rightarrow> nat" where
  "scan_left low v left right =
     (if left < right \<and> low (v ! left) then scan_left low v (left + 1) right else left)"
  by pat_completeness auto
termination by (relation "measure (\<lambda>(_, _, left, right). right - left)") auto

fun scan_right :: "('a \<Rightarrow> bool) \<Rightarrow> 'a list \<Rightarrow> nat \<Rightarrow> nat \<Rightarrow> nat" where
  "scan_right low v left 0 = 0"
| "scan_right low v left (Suc right) =
     (if left \<ge> right \<or> low (v ! right) then right else scan_right low v left right)"

declare scan_left.simps [simp del]

lemma scan_right_le: "scan_right low v left right \<le> right"
  by (induction low v left right rule: scan_right.induct) auto

lemma scan_left_ge: "left \<le> scan_left low v left right"
proof (induction low v left right rule: scan_left.induct)
  case (1 low v left right)
  then show ?case by (subst scan_left.simps) (auto dest: Suc_leD)
qed

text \<open>The gap, once open, is its value and its position.\<close>

function hoare_loop :: "('a \<Rightarrow> bool) \<Rightarrow> ('a \<times> nat) option \<Rightarrow> nat \<Rightarrow> nat \<Rightarrow> 'a list \<Rightarrow> 'a list \<times> nat" where
  "hoare_loop low gap left right v =
     (let left = scan_left low v left right; right' = scan_right low v left right in
      if left \<ge> right' then
        ((case gap of None \<Rightarrow> v | Some (gapVal, gapPos) \<Rightarrow> v[gapPos := gapVal]), left)
      else
        let (gapVal, v) = (case gap of None \<Rightarrow> (v ! left, v) | Some (gapVal, gapPos) \<Rightarrow> (gapVal, v[gapPos := v ! left]))
        in hoare_loop low (Some (gapVal, right')) (left + 1) right' (v[left := v ! right']))"
  by pat_completeness auto

termination
proof (relation "measure (\<lambda>(_, _, left, right, _). right - left)")
  fix low :: "'a \<Rightarrow> bool" and gap :: "('a \<times> nat) option" and left right v x xa p g w
  assume "x = scan_left low v left right" "xa = scan_right low v x right" "\<not> xa \<le> x"
  then show "((low, Some (g, xa), x + 1, xa, w[x := w ! xa]), (low, gap, left, right, v)) \<in>
      measure (\<lambda>(_, _, left, right, _). right - left)"
    using scan_right_le [of low v x right] scan_left_ge [of left low v right] by auto
qed simp

declare hoare_loop.simps [simp del]

definition hoareCyclic :: "('a \<Rightarrow> 'a \<Rightarrow> bool) \<Rightarrow> 'a \<Rightarrow> 'a list \<Rightarrow> 'a list \<times> nat" where
  "hoareCyclic lss pivot v = hoare_loop (\<lambda>x. lss x pivot) None 0 (length v) v"

definition swap_at :: "nat \<Rightarrow> nat \<Rightarrow> 'a list \<Rightarrow> 'a list" where
  "swap_at i j v = v[i := v ! j, j := v ! i]"

definition rustPartition :: "('a \<Rightarrow> 'a \<Rightarrow> bool) \<Rightarrow> nat \<Rightarrow> 'a list \<Rightarrow> 'a list \<times> nat" where
  "rustPartition lss pivot v =
     (let v = swap_at 0 pivot v; (w, lt) = hoareCyclic lss (v ! 0) (drop 1 v)
      in (swap_at 0 lt (v ! 0 # w), lt))"

section \<open>Heapsort, quicksort\<close>

text \<open>Sifting down in \<open>h := v[:len]\<close>.\<close>

function sift :: "('a \<Rightarrow> 'a \<Rightarrow> bool) \<Rightarrow> nat \<Rightarrow> nat \<Rightarrow> 'a list \<Rightarrow> 'a list" where
  "sift lss len node v =
     (let child = 2 * node + 1 in
      if child \<ge> len then v
      else let child = (if child + 1 < len \<and> lss (v ! child) (v ! (child + 1)) then child + 1 else child) in
        if \<not> lss (v ! node) (v ! child) then v
        else sift lss len child (swap_at node child v))"
  by pat_completeness auto
termination by (relation "measure (\<lambda>(_, len, node, _). len - node)") auto

declare sift.simps [simp del]

definition heap_step :: "('a \<Rightarrow> 'a \<Rightarrow> bool) \<Rightarrow> nat \<Rightarrow> 'a list \<Rightarrow> 'a list" where
  "heap_step lss i v =
     (let n = length v in
      if i \<ge> n then sift lss (min i n) (i - n) v else sift lss (min i n) 0 (swap_at 0 i v))"

definition rustHeapsort :: "('a \<Rightarrow> 'a \<Rightarrow> bool) \<Rightarrow> 'a list \<Rightarrow> 'a list" where
  "rustHeapsort lss v = fold (heap_step lss) (rev [0..<length v + length v div 2]) v"

text \<open>The loop of \<open>rustQuicksort\<close>: every turn and every call takes one from the limit.\<close>

fun rustQuicksort :: "('a \<Rightarrow> 'a \<Rightarrow> bool) \<Rightarrow> 'a option \<Rightarrow> nat \<Rightarrow> 'a list \<Rightarrow> 'a list" where
  "rustQuicksort lss ancestor limit v =
     (if length v \<le> 16 then insertionSortShiftLeft lss 1 v
      else case limit of
        0 \<Rightarrow> rustHeapsort lss v
      | Suc limit \<Rightarrow>
          let p = choosePivot lss v in
          if (case ancestor of Some a \<Rightarrow> \<not> lss a (v ! p) | None \<Rightarrow> False) then
            let (v, lt) = rustPartition (\<lambda>a b. \<not> lss b a) p v in
            take (lt + 1) v @ rustQuicksort lss None limit (drop (lt + 1) v)
          else
            let (v, lt) = rustPartition lss p v in
            rustQuicksort lss ancestor limit (take lt v) @ [v ! lt] @
              rustQuicksort lss (Some (v ! lt)) limit (drop (lt + 1) v))"

declare rustQuicksort.simps [simp del]

text \<open>\<open>bits.Len\<close>\<close>

fun bits_Len :: "nat \<Rightarrow> nat" where
  "bits_Len n = (if n = 0 then 0 else bits_Len (n div 2) + 1)"

declare bits_Len.simps [simp del]

definition rustSortUnstable :: "('a \<Rightarrow> 'a \<Rightarrow> bool) \<Rightarrow> 'a list \<Rightarrow> 'a list" where
  "rustSortUnstable lss v =
     (if length v < 2 then v
      else if length v \<le> 20 then insertionSortShiftLeft lss 1 v
      else
        let (run, descending) = existingRun lss v in
        if run = length v then (if descending then reverse_loop 0 (length v - 1) v else v)
        else rustQuicksort lss None (2 * (bits_Len (length v OR 1) - 1)) v)"

end
