(* ===== verification/SortProof.thy ===== *)
theory SortProof
  imports RustSort
begin

text \<open>
  The sort returns a permutation of its input, sorted by the comparison, for every comparison
  that is a strict weak order: the locale \<open>weak_order\<close>, whose lemmas its clients get by
  interpretation. Every function of the sort is total, so it also ends; what had to be shown
  for that is that the partition's scans approach each other and that each turn of quicksort
  takes one from the limit.
\<close>

section \<open>Lists changed in place\<close>

lemma mset_swap_at: "i < length v \<Longrightarrow> j < length v \<Longrightarrow> mset (swap_at i j v) = mset v"
  unfolding swap_at_def by (rule mset_swap)

lemma length_swap_at [simp]: "length (swap_at i j v) = length v"
  by (simp add: swap_at_def)

lemma swap_at_nth:
  "i < length v \<Longrightarrow> j < length v \<Longrightarrow> k < length v \<Longrightarrow>
    swap_at i j v ! k = (if k = j then v ! i else if k = i then v ! j else v ! k)"
  by (simp add: swap_at_def nth_list_update)

lemma reverse_loop_nth:
  "i \<le> j + 1 \<Longrightarrow> j < length v \<Longrightarrow> length (reverse_loop i j v) = length v \<and>
    (\<forall>k<length v. reverse_loop i j v ! k = (if i \<le> k \<and> k \<le> j then v ! (i + j - k) else v ! k))"
proof (induction i j v rule: reverse_loop.induct)
  case (1 i j v)
  show ?case
  proof (cases "i < j")
    case True
    with 1 show ?thesis
      by (subst (1 2) reverse_loop.simps) (auto simp: nth_list_update)
  next
    case False
    with 1(2) have "i + j - k = k" if "i \<le> k" "k \<le> j" for k using that by linarith
    with False show ?thesis by (subst (1 2) reverse_loop.simps) auto
  qed
qed

lemma reverse_loop_rev: "v \<noteq> [] \<Longrightarrow> reverse_loop 0 (length v - 1) v = rev v"
  using reverse_loop_nth [of 0 "length v - 1" v] by (intro nth_equalityI) (auto simp: rev_nth)

section \<open>Insertion\<close>

text \<open>\<open>ins_shift\<close> puts \<open>tmp\<close> before the elements above it that end the sorted part.\<close>

lemma ins_shift_eq:
  "j < length v \<Longrightarrow> ins_shift lss tmp v j =
    rev (dropWhile (lss tmp) (rev (take j v))) @ tmp # rev (takeWhile (lss tmp) (rev (take j v))) @ drop (Suc j) v"
proof (induction j arbitrary: v)
  case 0
  then show ?case by (cases v) simp_all
next
  case (Suc j)
  have t: "take (Suc j) v = take j v @ [v ! j]" using Suc.prems by (simp add: take_Suc_conv_app_nth)
  show ?case
  proof (cases "lss tmp (v ! j)")
    case True
    have "ins_shift lss tmp v (Suc j) = ins_shift lss tmp (v[Suc j := v ! j]) j" using True by simp
    also have "\<dots> = rev (dropWhile (lss tmp) (rev (take j v))) @ tmp #
        rev (takeWhile (lss tmp) (rev (take j v))) @ drop (Suc j) (v[Suc j := v ! j])"
      using Suc.IH [of "v[Suc j := v ! j]"] Suc.prems by simp
    also have "drop (Suc j) (v[Suc j := v ! j]) = v ! j # drop (Suc (Suc j)) v"
      using Suc.prems by (simp add: Cons_nth_drop_Suc [symmetric] nth_list_update)
    finally show ?thesis using True by (simp add: t)
  next
    case False
    then have "ins_shift lss tmp v (Suc j) = v[Suc j := tmp]" by simp
    also have "\<dots> = take (Suc j) v @ tmp # drop (Suc (Suc j)) v"
      using Suc.prems by (simp only: upd_conv_take_nth_drop)
    finally show ?thesis using False by (simp add: t)
  qed
qed

lemma mset_while: "mset (dropWhile P xs) + mset (takeWhile P xs) = mset xs"
  by (metis mset_append takeWhile_dropWhile_id union_commute)

lemma ins_step_facts:
  assumes "i < length v"
  shows "mset (ins_step lss i v) = mset v" and "drop (Suc i) (ins_step lss i v) = drop (Suc i) v"
proof -
  have "mset v = mset (take i v) + mset (v ! i # drop (Suc i) v)"
    using assms by (metis id_take_nth_drop mset_append)
  then show "mset (ins_step lss i v) = mset v"
    using mset_while [of "lss (v ! i)" "rev (take i v)"]
    by (simp add: ins_step_def ins_shift_eq [OF assms])
  have len: "length (dropWhile (lss (v ! i)) (rev (take i v))) + length (takeWhile (lss (v ! i)) (rev (take i v))) = i"
    using arg_cong [OF mset_while [of "lss (v ! i)" "rev (take i v)"], of size] assms by simp
  then have "Suc i - length (dropWhile (lss (v ! i)) (rev (take i v))) =
      Suc (length (rev (takeWhile (lss (v ! i)) (rev (take i v)))))" by simp
  then show "drop (Suc i) (ins_step lss i v) = drop (Suc i) v"
    by (simp add: ins_step_def ins_shift_eq [OF assms])
qed

lemma ins_steps_facts:
  "n \<le> length v \<Longrightarrow> mset (fold (ins_step lss) [k..<n] v) = mset v \<and>
    drop n (fold (ins_step lss) [k..<n] v) = drop n v"
proof (induction n)
  case (Suc n)
  let ?w = "fold (ins_step lss) [k..<n] v"
  have w: "mset ?w = mset v" "drop n ?w = drop n v" using Suc by simp_all
  have "n < length ?w" using mset_eq_length [OF w(1)] Suc.prems by simp
  from ins_step_facts [OF this, of lss] w show ?case
    by (cases "k \<le> n") (simp_all add: not_le, metis drop_Suc tl_drop)
qed simp

lemma insertion_mset: "mset (insertionSortShiftLeft lss k v) = mset v"
  using ins_steps_facts [of "length v" v] by (simp add: insertionSortShiftLeft_def)


section \<open>Partition\<close>

lemma scan_left_ok:
  "left \<le> right \<Longrightarrow> (let l = scan_left low v left right in left \<le> l \<and> l \<le> right \<and>
     (\<forall>k. left \<le> k \<and> k < l \<longrightarrow> low (v ! k)) \<and> (l < right \<longrightarrow> \<not> low (v ! l)))"
proof (induction low v left right rule: scan_left.induct)
  case (1 low v left right)
  show ?case
  proof (cases "left < right \<and> low (v ! left)")
    case True
    then have eq: "scan_left low v left right = scan_left low v (left + 1) right"
      by (subst scan_left.simps) simp
    from True 1 show ?thesis unfolding eq Let_def
      by (metis Suc_eq_plus1 Suc_leI Suc_le_lessD Suc_leD le_neq_implies_less)
  next
    case False
    then have "scan_left low v left right = left" by (subst scan_left.simps) (simp only: if_False)
    with False 1 show ?thesis by auto
  qed
qed

lemma scan_right_ok:
  "let r = scan_right low v left right in
     (\<forall>k. r < k \<and> k < right \<longrightarrow> \<not> low (v ! k)) \<and> (left < r \<longrightarrow> r < right \<and> low (v ! r))"
proof (induction low v left right rule: scan_right.induct)
  case (2 low v left right)
  then show ?case by (cases "left \<ge> right \<or> low (v ! right)") (auto simp: Let_def less_Suc_eq)
qed simp

text \<open>
  The loop's invariant: below \<open>left\<close> all is low, from \<open>right\<close> on nothing is, the gap aside,
  whose value would not be low there; and filling the gap gives a permutation of the input.
\<close>

definition filled :: "('a \<times> nat) option \<Rightarrow> 'a list \<Rightarrow> 'a list" where
  "filled gap v = (case gap of None \<Rightarrow> v | Some (x, p) \<Rightarrow> v[p := x])"

definition hoare_inv :: "('a \<Rightarrow> bool) \<Rightarrow> ('a \<times> nat) option \<Rightarrow> nat \<Rightarrow> nat \<Rightarrow> 'a list \<Rightarrow> bool" where
  "hoare_inv low gap left right v \<longleftrightarrow> left \<le> right \<and> right \<le> length v \<and>
     (\<forall>k<left. low (v ! k)) \<and> (\<forall>k. right \<le> k \<and> k < length v \<longrightarrow> \<not> low (filled gap v ! k)) \<and>
     (case gap of None \<Rightarrow> True | Some (x, p) \<Rightarrow> right \<le> p \<and> p < length v)"

lemma hoare_loop_ok:
  "hoare_inv low gap left right v \<Longrightarrow> hoare_loop low gap left right v = (w, lt) \<Longrightarrow>
    mset w = mset (filled gap v) \<and> lt \<le> length v \<and>
    (\<forall>k<lt. low (w ! k)) \<and> (\<forall>k. lt \<le> k \<and> k < length v \<longrightarrow> \<not> low (w ! k))"
proof (induction low gap left right v rule: hoare_loop.induct)
  case (1 low gap left right v)
  define l where "l = scan_left low v left right"
  define r where "r = scan_right low v l right"
  have inv: "left \<le> right" "right \<le> length v" "\<forall>k<left. low (v ! k)"
    "\<forall>k. right \<le> k \<and> k < length v \<longrightarrow> \<not> low (filled gap v ! k)"
    using "1.prems"(1) by (simp_all add: hoare_inv_def)
  have l: "left \<le> l" "l \<le> right" "\<forall>k. left \<le> k \<and> k < l \<longrightarrow> low (v ! k)" "l < right \<longrightarrow> \<not> low (v ! l)"
    using scan_left_ok [OF inv(1), of low v] by (simp_all add: l_def Let_def)
  have r: "\<forall>k. r < k \<and> k < right \<longrightarrow> \<not> low (v ! k)" "l < r \<longrightarrow> r < right \<and> low (v ! r)"
    using scan_right_ok [of low v l right] by (simp_all add: r_def Let_def)
  have low_l: "\<forall>k<l. low (v ! k)" using inv(3) l(3) by (meson not_le)
  have gp: "right \<le> snd g \<and> snd g < length v" if "gap = Some g" for g
    using "1.prems"(1) that by (auto simp: hoare_inv_def split: prod.splits)
  have outside: "filled gap v ! k = v ! k" if "k < right" for k
    using that gp by (auto simp: filled_def split: option.splits)
  show ?case
  proof (cases "l \<ge> r")
    case True
    then have "hoare_loop low gap left right v = (filled gap v, l)"
      unfolding l_def r_def by (subst hoare_loop.simps) (simp add: Let_def filled_def)
    with "1.prems"(2) have w: "w = filled gap v" "lt = l" by simp_all
    have "\<not> low (filled gap v ! k)" if "l \<le> k" "k < length v" for k
    proof (cases "k < right")
      case k: True
      then have "\<not> low (v ! k)"
        using l(4) r(1) that True by (metis le_less_trans le_neq_implies_less)
      with outside [OF k] show ?thesis by simp
    qed (use inv(4) that in auto)
    moreover have "low (filled gap v ! k)" if "k < l" for k
      using outside [of k] low_l l(2) that by simp
    ultimately show ?thesis using w l(2) inv(2) by simp
  next
    case False
    then have lr: "l < r" "r < right" "low (v ! r)" using r(2) by simp_all
    have nl: "\<not> low (v ! l)" using l(4) lr by simp
    define g where "g = (case gap of None \<Rightarrow> v ! l | Some (x, p) \<Rightarrow> x)"
    define u where "u = (case gap of None \<Rightarrow> v | Some (x, p) \<Rightarrow> v[p := v ! l])"
    have step: "hoare_loop low gap left right v = hoare_loop low (Some (g, r)) (l + 1) r (u[l := u ! r])"
      using False unfolding l_def r_def g_def u_def
      by (subst hoare_loop.simps) (auto simp: Let_def split: option.splits)
    have lenu: "length u = length v" by (simp add: u_def split: option.splits prod.splits)
    have ur: "u ! k = v ! k" if "k < right" for k
      using that gp by (auto simp: u_def split: option.splits)
    define W where "W = filled (Some (g, r)) (u[l := u ! r])"
    have W_nth: "W ! k = (if k = r then g else if k = l then v ! r else u ! k)" if "k < length v" for k
      using that lr inv(2) ur [of r] by (simp add: W_def filled_def lenu nth_list_update)
    have perm: "mset W = mset (filled gap v)"
    proof (cases gap)
      case None
      then have "W = swap_at r l v"
        using lr inv(2) by (simp add: W_def filled_def u_def g_def swap_at_def list_update_swap)
      then show ?thesis using lr inv(2) None by (simp add: mset_swap_at filled_def)
    next
      case (Some xp)
      obtain x p where xp: "xp = (x, p)" by (cases xp)
      have p: "right \<le> p" "p < length v" using gp [OF Some] by (simp_all add: xp)
      have "W = swap_at l r (swap_at l p (filled gap v))"
        using p lr inv(2)
        by (intro nth_equalityI)
          (auto simp: Some xp W_nth swap_at_nth filled_def u_def g_def nth_list_update W_def)
      then show ?thesis using p lr inv(2) by (simp add: mset_swap_at filled_def Some xp)
    qed
    have "\<not> low g"
      using nl inv(4) gp by (cases gap) (auto simp: g_def filled_def)
    have up: "\<not> low (u ! k)" if "right \<le> k" "k < length v" for k
      using inv(4) that nl gp by (cases gap) (auto simp: u_def filled_def nth_list_update split: if_splits)
    have "hoare_inv low (Some (g, r)) (l + 1) r (u[l := u ! r])"
      unfolding hoare_inv_def
    proof (intro conjI allI impI)
      fix k assume "k < l + 1"
      then show "low (u[l := u ! r] ! k)"
        using low_l lr inv(2) ur [of k] ur [of r] by (auto simp: nth_list_update lenu less_Suc_eq)
    next
      fix k assume k: "r \<le> k \<and> k < length (u[l := u ! r])"
      have "\<not> low (W ! k)"
      proof (cases "k < right")
        case True
        then show ?thesis using k r(1) lr \<open>\<not> low g\<close> ur [of k] by (simp add: W_nth lenu)
      next
        case False
        then show ?thesis using k up [of k] lr by (simp add: W_nth lenu)
      qed
      then show "\<not> low (filled (Some (g, r)) (u[l := u ! r]) ! k)" by (simp add: W_def)
    qed (use lr inv(2) in \<open>simp_all add: lenu\<close>)
    note inv' = this
    have gu: "(g, u) = (case gap of None \<Rightarrow> (v ! l, v) | Some (gapVal, gapPos) \<Rightarrow> (gapVal, v[gapPos := v ! l]))"
      by (auto simp: g_def u_def split: option.splits)
    from "1.IH" [OF l_def r_def False refl gu inv' "1.prems"(2) [unfolded step]] perm show ?thesis
      by (simp add: W_def lenu)
  qed
qed

lemma rustPartition_ok:
  assumes "rustPartition lss p v = (w, lt)" and "p < length v"
  shows "mset w = mset v \<and> lt < length v \<and> w ! lt = v ! p \<and>
    (\<forall>k<lt. lss (w ! k) (v ! p)) \<and> (\<forall>k. lt < k \<and> k < length v \<longrightarrow> \<not> lss (w ! k) (v ! p))"
proof -
  define u where "u = swap_at 0 p v"
  have ne: "0 < length v" using assms(2) by linarith
  have u: "u ! 0 = v ! p" "mset u = mset v" "length u = length v"
    using assms(2) ne by (simp_all add: u_def swap_at_nth mset_swap_at)
  have ucons: "u = v ! p # drop 1 u" using u(1,3) ne by (cases u) auto
  obtain x n where x: "hoareCyclic lss (v ! p) (drop 1 u) = (x, n)" by fastforce
  have "hoare_inv (\<lambda>x. lss x (v ! p)) None 0 (length (drop 1 u)) (drop 1 u)"
    by (auto simp: hoare_inv_def filled_def)
  from hoare_loop_ok [OF this x [unfolded hoareCyclic_def]]
  have h: "mset x = mset (drop 1 u)" "n \<le> length (drop 1 u)"
    "\<forall>k<n. lss (x ! k) (v ! p)" "\<forall>k. n \<le> k \<and> k < length (drop 1 u) \<longrightarrow> \<not> lss (x ! k) (v ! p)"
    by (simp_all add: filled_def)
  have lenx: "length x = length v - 1" using mset_eq_length [OF h(1)] u(3) by simp
  have w: "w = swap_at 0 n (v ! p # x)" "lt = n"
    using assms(1) x by (auto simp: rustPartition_def Let_def u(1) u_def [symmetric])
  have n: "n < length v" using h(2) u(3) assms(2) unfolding length_drop by linarith
  then have "mset w = mset (v ! p # x)"
    unfolding w(1) using lenx ne by (intro mset_swap_at) auto
  also have "\<dots> = mset v"
    using h(1) u(2) arg_cong [OF ucons, of mset] by simp
  finally have "mset w = mset v" .
  moreover have "lss (w ! k) (v ! p)" if "k < lt" for k
    using that n h(3) lenx u(3) by (cases k) (auto simp: w swap_at_nth nth_Cons')
  moreover have "\<not> lss (w ! k) (v ! p)" if "lt < k" "k < length v" for k
  proof -
    have "\<not> lss (x ! (k - 1)) (v ! p)"
      by (rule h(4) [rule_format]) (use that u(3) w(2) in auto)
    then show ?thesis using that n lenx by (auto simp: w swap_at_nth nth_Cons')
  qed
  ultimately show ?thesis using n lenx u(3) ne by (simp add: w swap_at_nth nth_Cons')
qed

lemma median3_in: "median3 lss v a b c \<in> {a, b, c}"
  by (simp add: median3_def Let_def)

lemma median3Rec_less:
  "\<lbrakk>a + n \<le> length v; b + n \<le> length v; c + n \<le> length v; 0 < n\<rbrakk> \<Longrightarrow> median3Rec lss v a b c n < length v"
proof (induction lss v a b c n rule: median3Rec.induct)
  case (1 lss v a b c n)
  have m: "median3 lss v x y z < length v" if "x < length v" "y < length v" "z < length v" for x y z
    using median3_in [of lss v x y z] that by auto
  show ?case
  proof (cases "n * 8 \<ge> 64")
    case False
    then show ?thesis using 1 by (subst median3Rec.simps) (simp add: m)
  next
    case True
    define q where "q = n div 8"
    have q: "8 * q \<le> n" "0 < q" using True by (simp_all add: q_def)
    show ?thesis
      using 1(1-3) [OF True q_def] "1.prems" q
      by (subst median3Rec.simps) (auto simp: Let_def True q_def [symmetric] intro!: m)
  qed
qed

lemma choosePivot_less: "8 \<le> length v \<Longrightarrow> choosePivot lss v < length v"
proof -
  assume v: "8 \<le> length v"
  define q where "q = length v div 8"
  have q: "8 * q \<le> length v" "0 < q" using v by (simp_all add: q_def)
  show ?thesis
    using median3_in [of lss v 0 "q * 4" "q * 7"] median3Rec_less [of 0 q v "q * 4" "q * 7" lss] q
    by (auto simp: choosePivot_def Let_def q_def [symmetric])
qed


section \<open>Strict weak orders\<close>

locale weak_order =
  fixes lss :: "'a \<Rightarrow> 'a \<Rightarrow> bool"
  assumes asym: "lss a b \<Longrightarrow> \<not> lss b a"
    and ntrans: "\<not> lss a b \<Longrightarrow> \<not> lss b c \<Longrightarrow> \<not> lss a c"
begin

definition le :: "'a \<Rightarrow> 'a \<Rightarrow> bool" where
  "le a b \<longleftrightarrow> \<not> lss b a"

lemma le_trans: "le a b \<Longrightarrow> le b c \<Longrightarrow> le a c"
  unfolding le_def using ntrans by blast

lemma le_refl: "le a a"
  unfolding le_def using asym by blast

lemma lss_le: "lss a b \<Longrightarrow> le a b"
  unfolding le_def by (rule asym)

lemma transp_le: "transp le"
  by (rule transpI) (rule le_trans)

abbreviation srt :: "'a list \<Rightarrow> bool" where
  "srt \<equiv> sorted_wrt le"

lemma ins_step_sorted:
  assumes i: "i < length v" and s: "srt (take i v)"
  shows "srt (take (Suc i) (ins_step lss i v))"
proof (cases "0 < i \<and> lss (v ! i) (v ! (i - 1))")
  case False
  show ?thesis
  proof (cases "i = 0")
    case True
    have "take 1 w = [w ! 0]" if "length w = length v" for w :: "'a list"
      using that i by (cases w) auto
    from this [of "ins_step lss 0 v"] show ?thesis
      using True mset_eq_length [OF ins_step_facts(1) [OF i, of lss]] by (simp add: True)
  next
    case pos: False
    then have le: "le (v ! (i - 1)) (v ! i)" and eq: "ins_step lss i v = v"
      using False by (simp_all add: le_def ins_step_def)
    have "le x (v ! i)" if "x \<in> set (take i v)" for x
    proof -
      have t: "take i v = take (i - 1) v @ [v ! (i - 1)]"
        using pos i by (metis Suc_diff_1 less_imp_diff_less neq0_conv take_Suc_conv_app_nth)
      from that s le show ?thesis unfolding t by (auto simp: sorted_wrt_append intro: le_trans)
    qed
    then show ?thesis using s i by (simp add: eq take_Suc_conv_app_nth sorted_wrt_append)
  qed
next
  case True
  let ?t = "v ! i"
  define D where "D = dropWhile (lss ?t) (rev (take i v))"
  define T where "T = takeWhile (lss ?t) (rev (take i v))"
  have TD: "T @ D = rev (take i v)" by (simp add: T_def D_def)
  then have split: "take i v = rev D @ rev T" by (metis rev_append rev_rev_ident)
  have len: "length D + length T = i" using arg_cong [OF TD, of length] i by simp
  have "ins_step lss i v = (rev D @ ?t # rev T) @ drop (Suc i) v"
    using True by (simp add: ins_step_def ins_shift_eq [OF i] D_def T_def)
  moreover have "length (rev D @ ?t # rev T) = Suc i" using len by simp
  ultimately have eq: "take (Suc i) (ins_step lss i v) = rev D @ ?t # rev T" by (metis append_eq_conv_conj)
  have T: "le ?t x" if "x \<in> set T" for x
    using that lss_le by (auto simp: T_def dest: set_takeWhileD)
  have D: "le x ?t" if "x \<in> set D" for x
  proof -
    obtain d ds where d: "D = d # ds" using \<open>x \<in> set D\<close> by (cases D) auto
    then have "\<not> lss ?t d" unfolding D_def by (metis dropWhile_eq_Cons_conv)
    then have dt: "le d ?t" by (simp add: le_def)
    from s split d have "srt (rev ds @ [d] @ rev T)" by simp
    then have "le y d" if "y \<in> set ds" for y using that by (simp add: sorted_wrt_append)
    with dt d \<open>x \<in> set D\<close> show ?thesis by (auto intro: le_trans)
  qed
  show ?thesis
    using s T D unfolding eq split by (auto simp: sorted_wrt_append intro: le_trans)
qed

lemma insertion_sorted: "srt (insertionSortShiftLeft lss 1 v)"
proof -
  have "n \<le> length v \<Longrightarrow> srt (take (max 1 n) (fold (ins_step lss) [1..<n] v))" for n
  proof (induction n)
    case 0
    then show ?case by (cases v) simp_all
  next
    case (Suc n)
    let ?w = "fold (ins_step lss) [1..<n] v"
    show ?case
    proof (cases "n = 0")
      case True
      then show ?thesis by (cases v) simp_all
    next
      case False
      have "n < length ?w"
        using ins_steps_facts [of n v lss 1] Suc.prems mset_eq_length [of ?w v] by simp
      from ins_step_sorted [OF this] Suc False show ?thesis by (simp add: max_def)
    qed
  qed
  from this [of "length v"] ins_steps_facts [of "length v" v lss 1] show ?thesis
    by (cases v) (auto simp: insertionSortShiftLeft_def dest: mset_eq_length)
qed

subsection \<open>Heapsort\<close>

text \<open>
  In \<open>v[:len]\<close> no child of a node from \<open>lo\<close> on is above it, except perhaps below \<open>hole\<close>; and
  if the hole has a parent from \<open>lo\<close> on, the hole's children are not above that parent.
\<close>

definition child :: "nat \<Rightarrow> nat \<Rightarrow> bool" where
  "child j c \<longleftrightarrow> c = 2 * j + 1 \<or> c = 2 * j + 2"

definition heap_but :: "nat \<Rightarrow> nat \<Rightarrow> nat option \<Rightarrow> 'a list \<Rightarrow> bool" where
  "heap_but lo len hole v \<longleftrightarrow>
     (\<forall>j c. lo \<le> j \<and> child j c \<and> c < len \<and> hole \<noteq> Some j \<longrightarrow> le (v ! c) (v ! j)) \<and>
     (\<forall>h j c. hole = Some h \<and> lo \<le> j \<and> child j h \<and> child h c \<and> c < len \<longrightarrow> le (v ! c) (v ! j))"

abbreviation heap :: "nat \<Rightarrow> nat \<Rightarrow> 'a list \<Rightarrow> bool" where
  "heap lo len \<equiv> heap_but lo len None"

lemma heap_child: "heap lo len v \<Longrightarrow> lo \<le> j \<Longrightarrow> child j c \<Longrightarrow> c < len \<Longrightarrow> le (v ! c) (v ! j)"
  by (simp add: heap_but_def)

lemma child_unique: "child j d \<Longrightarrow> child i d \<Longrightarrow> i = j"
  unfolding child_def by linarith

lemma child_less: "child j c \<Longrightarrow> j < c"
  by (auto simp: child_def)

lemma sift_swap:
  assumes hole: "heap_but lo len (Some node) v" and lo: "lo \<le> node" and len: "len \<le> length v"
    and c: "child node c" "c < len" and big: "\<And>d. child node d \<Longrightarrow> d < len \<Longrightarrow> le (v ! d) (v ! c)"
    and lss: "lss (v ! node) (v ! c)"
  shows "heap_but lo len (Some c) (swap_at node c v)"
proof -
  have nc: "node < c" using child_less [OF c(1)] .
  have nth: "swap_at node c v ! k = (if k = c then v ! node else if k = node then v ! c else v ! k)"
    if "k < len" for k
    using that nc c(2) len by (simp add: swap_at_nth)
  have h1: "le (v ! d) (v ! j)" if "lo \<le> j" "child j d" "d < len" "j \<noteq> node" for j d
    using hole that by (simp add: heap_but_def)
  have h2: "le (v ! d) (v ! j)" if "lo \<le> j" "child j node" "child node d" "d < len" for j d
    using hole that unfolding heap_but_def by blast
  have "le (swap_at node c v ! d) (swap_at node c v ! j)"
    if jd: "lo \<le> j" "child j d" "d < len" "j \<noteq> c" for j d
  proof (cases "j = node")
    case True
    then show ?thesis
      using jd nc c big lss_le [OF lss] child_less [OF jd(2)] by (auto simp: nth)
  next
    case False
    have "d \<noteq> c" using child_unique [OF c(1)] jd(2) False by blast
    then show ?thesis
      using jd False h1 h2 [OF jd(1) _ c] child_less [OF jd(2)] by (auto simp: nth)
  qed
  moreover have "le (swap_at node c v ! d) (swap_at node c v ! j)"
    if jd: "lo \<le> j" "child j c" "child c d" "d < len" for j d
  proof -
    have "j = node" using child_unique [OF c(1) jd(2)] by simp
    moreover have "le (v ! d) (v ! c)" using h1 [of c d] lo nc jd by simp
    ultimately show ?thesis
      using nc c(2) jd(4) child_less [OF jd(3)] by (simp add: nth)
  qed
  ultimately show ?thesis by (simp add: heap_but_def)
qed

lemma sift_ok:
  "heap_but lo len (Some node) v \<Longrightarrow> lo \<le> node \<Longrightarrow> len \<le> length v \<Longrightarrow>
    heap lo len (sift lss len node v) \<and> mset (take len (sift lss len node v)) = mset (take len v) \<and>
    drop len (sift lss len node v) = drop len v"
proof (induction "len - node" arbitrary: node v rule: less_induct)
  case less
  have hd: "le (v ! d) (v ! j)" if "lo \<le> j" "child j d" "d < len" "j \<noteq> node" for j d
    using less.prems(1) that by (simp add: heap_but_def)
  show ?case
  proof (cases "2 * node + 1 < len")
    case False
    then have "sift lss len node v = v" by (subst sift.simps) simp
    moreover have "heap lo len v"
      using hd False by (auto simp: heap_but_def child_def)
    ultimately show ?thesis by simp
  next
    case True
    define c where "c = (if 2 * node + 1 + 1 < len \<and> lss (v ! (2 * node + 1)) (v ! (2 * node + 1 + 1))
      then 2 * node + 1 + 1 else 2 * node + 1)"
    have c: "child node c" "c < len" using True by (auto simp: c_def child_def)
    have big: "le (v ! d) (v ! c)" if "child node d" "d < len" for d
      using that lss_le le_refl by (auto simp: child_def c_def le_def)
    have eq: "sift lss len node v =
        (if \<not> lss (v ! node) (v ! c) then v else sift lss len c (swap_at node c v))"
      using True by (subst sift.simps) (simp add: Let_def c_def)
    show ?thesis
    proof (cases "lss (v ! node) (v ! c)")
      case False
      then have "le (v ! d) (v ! node)" if "child node d" "d < len" for d
        using big [OF that] by (auto simp: le_def [of "v ! c"] intro: le_trans)
      with hd have "heap lo len v" by (simp add: heap_but_def) metis
      with False show ?thesis by (simp add: eq)
    next
      case swap: True
      note nc = child_less [OF c(1)]
      have pre: "take len (swap_at node c v) = swap_at node c (take len v)" "drop len (swap_at node c v) = drop len v"
        using nc c(2) by (simp_all add: swap_at_def take_update_swap drop_update_cancel)
      have "mset (take len (swap_at node c v)) = mset (take len v)"
        unfolding pre using nc c(2) less.prems(3) by (intro mset_swap_at) auto
      with less.hyps [OF _ sift_swap [OF less.prems c big swap]] nc c(2) less.prems(2,3) swap pre(2)
      show ?thesis by (simp add: eq)
    qed
  qed
qed

lemma heap_root: "heap 0 len v \<Longrightarrow> k < len \<Longrightarrow> le (v ! k) (v ! 0)"
proof (induction k rule: less_induct)
  case (less k)
  show ?case
  proof (cases "k = 0")
    case False
    define j where "j = (k - 1) div 2"
    have j: "child j k" "j < k" using False unfolding j_def child_def by presburger+
    then show ?thesis
      using heap_child [OF less.prems(1) _ j(1)] less.prems less.IH [OF j(2)] by (auto intro: le_trans)
  qed (simp add: le_refl)
qed

lemma heap_build:
  "k \<le> length v div 2 \<Longrightarrow>
    (let w = fold (heap_step lss) (rev [length v + k..<length v + length v div 2]) v in
      heap k (length v) w \<and> mset w = mset v)"
proof (induction "length v div 2 - k" arbitrary: k)
  case 0
  then have "k = length v div 2" by simp
  then show ?case by (auto simp: heap_but_def child_def Let_def)
next
  case (Suc m)
  let ?n = "length v"
  define w where "w = fold (heap_step lss) (rev [?n + Suc k..<?n + ?n div 2]) v"
  have k: "k < ?n div 2" using Suc by linarith
  have w: "heap (Suc k) ?n w" "mset w = mset v"
    using Suc(1) [of "Suc k"] Suc(2) k unfolding w_def Let_def by auto
  have len: "length w = ?n" using w(2) by (rule mset_eq_length)
  have "heap_but k ?n (Some k) w"
    using w(1) by (auto simp: heap_but_def dest: child_less)
  from sift_ok [OF this] have s: "heap k ?n (sift lss ?n k w)" "mset (sift lss ?n k w) = mset w"
    using mset_eq_length [of "take ?n (sift lss ?n k w)" "take ?n w"] arg_cong [of _ _ mset, OF append_take_drop_id [of ?n "sift lss ?n k w"]]
    by (simp_all add: len) (metis append_take_drop_id drop_all len mset_append order_refl take_all_iff)
  have "[?n + k..<?n + ?n div 2] = (?n + k) # [?n + Suc k..<?n + ?n div 2]"
    using k by (simp add: upt_conv_Cons)
  then have "fold (heap_step lss) (rev [?n + k..<?n + ?n div 2]) v = heap_step lss (?n + k) w"
    by (simp add: w_def)
  also have "\<dots> = sift lss ?n k w" by (simp add: heap_step_def len)
  finally show ?case using s w(2) by (simp add: Let_def)
qed

lemma heap_drain:
  assumes "heap 0 (length v) v"
  shows "k \<le> length v \<Longrightarrow>
    (let w = fold (heap_step lss) (rev [k..<length v]) v in
      heap 0 k w \<and> srt (drop k w) \<and> (\<forall>x\<in>set (take k w). \<forall>y\<in>set (drop k w). le x y) \<and> mset w = mset v)"
proof (induction "length v - k" arbitrary: k)
  case 0
  then show ?case using assms by (simp add: Let_def)
next
  case (Suc m)
  let ?n = "length v"
  define w where "w = fold (heap_step lss) (rev [Suc k..<?n]) v"
  have k: "k < ?n" using Suc by linarith
  have w: "heap 0 (Suc k) w" "srt (drop (Suc k) w)" "mset w = mset v"
    "\<forall>x\<in>set (take (Suc k) w). \<forall>y\<in>set (drop (Suc k) w). le x y"
    using Suc(1) [of "Suc k"] Suc(2) k unfolding w_def Let_def by auto
  have len: "length w = ?n" using w(3) by (rule mset_eq_length)
  define u where "u = swap_at 0 k w"
  have u: "length u = ?n" "u ! k = w ! 0" "drop (Suc k) u = drop (Suc k) w" "mset u = mset w"
  proof -
    have "0 < length w" using k len by linarith
    then show "length u = ?n" "u ! k = w ! 0" "mset u = mset w"
      using k len by (simp_all add: u_def swap_at_nth mset_swap_at)
    show "drop (Suc k) u = drop (Suc k) w" by (simp add: u_def swap_at_def drop_update_cancel)
  qed
  have "take (Suc k) u = swap_at 0 k (take (Suc k) w)"
    by (simp add: u_def swap_at_def take_update_swap)
  then have "set (take (Suc k) u) = set (take (Suc k) w)"
    using k len by (intro mset_eq_setD) (simp add: mset_swap_at)
  moreover have tk: "take (Suc k) u = take k u @ [w ! 0]" using k u by (simp add: take_Suc_conv_app_nth)
  ultimately have sub: "set (take k u) \<subseteq> set (take (Suc k) w)" "w ! 0 \<in> set (take (Suc k) w)" by auto
  have hb: "heap_but 0 k (Some 0) u"
    unfolding heap_but_def
  proof (intro conjI allI impI)
    fix j c assume jc: "0 \<le> j \<and> child j c \<and> c < k \<and> Some 0 \<noteq> Some j"
    then have "j < c" using child_less by blast
    then have "u ! c = w ! c" "u ! j = w ! j"
      using jc k len by (auto simp: u_def swap_at_def)
    moreover have "le (w ! c) (w ! j)" using heap_child [OF w(1), of j c] jc by simp
    ultimately show "le (u ! c) (u ! j)" by simp
  qed (auto simp: child_def)
  define z where "z = sift lss k 0 u"
  have z: "heap 0 k z" "mset (take k z) = mset (take k u)" "drop k z = drop k u"
    using sift_ok [OF hb] k u(1) by (simp_all add: z_def)
  have dk: "drop k u = w ! 0 # drop (Suc k) w" using k u by (metis Cons_nth_drop_Suc)
  have root: "le x (w ! 0)" if "x \<in> set (take (Suc k) w)" for x
    using that heap_root [OF w(1)] k len by (auto simp: in_set_conv_nth)
  have "srt (drop k z)" using w(2,4) sub(2) by (simp add: z(3) dk)
  moreover have "\<forall>x\<in>set (take k z). \<forall>y\<in>set (drop k z). le x y"
    using mset_eq_setD [OF z(2)] sub root w(4) by (auto simp: z(3) dk)
  moreover have "mset z = mset v"
    using z(2,3) u(4) w(3) by (metis append_take_drop_id mset_append)
  moreover have "[k..<?n] = k # [Suc k..<?n]" using k by (simp add: upt_conv_Cons)
  then have "fold (heap_step lss) (rev [k..<?n]) v = heap_step lss k w" by (simp add: w_def)
  then have "fold (heap_step lss) (rev [k..<?n]) v = z"
    using k by (simp add: heap_step_def len u_def z_def)
  ultimately show ?case using z(1) by (simp add: Let_def)
qed

lemma heapsort_ok: "srt (rustHeapsort lss v) \<and> mset (rustHeapsort lss v) = mset v"
proof -
  let ?n = "length v"
  define w where "w = fold (heap_step lss) (rev [?n..<?n + ?n div 2]) v"
  have w: "heap 0 ?n w" "mset w = mset v" using heap_build [of 0 v] by (simp_all add: w_def Let_def)
  have len: "length w = ?n" using w(2) by (rule mset_eq_length)
  have "[0..<?n + ?n div 2] = [0..<?n] @ [?n..<?n + ?n div 2]" by (metis upt_add_eq_append le0 add_0)
  then have "rustHeapsort lss v = fold (heap_step lss) (rev [0..<?n]) w"
    by (simp add: rustHeapsort_def w_def)
  then show ?thesis using heap_drain [of w 0] w len by (simp add: Let_def)
qed

subsection \<open>Quicksort\<close>

lemma quicksort_ok:
  "(\<And>a x. ancestor = Some a \<Longrightarrow> x \<in> set v \<Longrightarrow> le a x) \<Longrightarrow>
    srt (rustQuicksort lss ancestor limit v) \<and> mset (rustQuicksort lss ancestor limit v) = mset v"
proof (induction limit arbitrary: ancestor v)
  case 0
  then show ?case
    using insertion_sorted [of v] insertion_mset [of lss 1 v] heapsort_ok [of v]
    by (subst (1 2) rustQuicksort.simps) simp
next
  case (Suc limit)
  show ?case
  proof (cases "length v \<le> 16")
    case True
    then show ?thesis
      using insertion_sorted [of v] insertion_mset [of lss 1 v] by (subst (1 2) rustQuicksort.simps) simp
  next
    case False
    define p where "p = choosePivot lss v"
    have p: "p < length v" unfolding p_def using False by (intro choosePivot_less) simp
    note unfold = rustQuicksort.simps [of lss ancestor "Suc limit" v]
    show ?thesis
    proof (cases "case ancestor of Some a \<Rightarrow> \<not> lss a (v ! p) | None \<Rightarrow> False")
      case True
      then obtain a where a: "ancestor = Some a" "le (v ! p) a" by (auto simp: le_def split: option.splits)
      obtain w lt where part: "rustPartition (\<lambda>a b. \<not> lss b a) p v = (w, lt)" by fastforce
      note w = rustPartition_ok [OF part p]
      let ?q = "rustQuicksort lss None limit (drop (lt + 1) w)"
      have q: "srt ?q" "mset ?q = mset (drop (lt + 1) w)" using Suc.IH [of None] by simp_all
      have eq: "rustQuicksort lss ancestor (Suc limit) v = take (lt + 1) w @ ?q"
        using False True by (subst unfold) (simp add: p_def [symmetric] Let_def part)
      have len: "length w = length v" using w by (metis mset_eq_length)
      have pivot: "le (v ! p) x" if "x \<in> set v" for x
        using le_trans [OF a(2) Suc.prems [OF a(1) that]] .
      have L: "le x (v ! p)" "le (v ! p) x" if "x \<in> set (take (lt + 1) w)" for x
      proof -
        from that obtain k where "k \<le> lt" "k < length w" "x = w ! k"
          by (auto simp: in_set_conv_nth less_Suc_eq_le)
        then show "le x (v ! p)" using w le_refl by (cases "k = lt") (auto simp: le_def)
        from that w show "le (v ! p) x" by (metis pivot in_set_takeD mset_eq_setD)
      qed
      have R: "le (v ! p) x" if "x \<in> set (drop (lt + 1) w)" for x
        using that w by (metis pivot in_set_dropD mset_eq_setD)
      have front: "srt (take (lt + 1) w)"
        by (rule sorted_wrt_mono_rel [where P = "\<lambda>_ _. True"]) (auto intro: le_trans [OF L] simp: sorted_wrt_iff_nth_less)
      have cross: "le x y" if "x \<in> set (take (lt + 1) w)" "y \<in> set ?q" for x y
        by (rule le_trans [OF L(1) [OF that(1)] R]) (use that(2) mset_eq_setD [OF q(2)] in simp)
      have "srt (take (lt + 1) w @ ?q)"
        unfolding sorted_wrt_append using front q(1) cross by blast
      moreover have "mset (take (lt + 1) w @ ?q) = mset v"
        using w q(2) by (metis append_take_drop_id mset_append)
      ultimately show ?thesis by (simp add: eq)
    next
      case no: False
      obtain w lt where part: "rustPartition lss p v = (w, lt)" by fastforce
      note w = rustPartition_ok [OF part p]
      have len: "length w = length v" using w by (metis mset_eq_length)
      let ?l = "rustQuicksort lss ancestor limit (take lt w)"
      let ?r = "rustQuicksort lss (Some (w ! lt)) limit (drop (lt + 1) w)"
      have "le a x" if "ancestor = Some a" "x \<in> set (take lt w)" for a x
        using Suc.prems [OF that(1)] that(2) w by (metis in_set_takeD mset_eq_setD)
      then have l: "srt ?l" "mset ?l = mset (take lt w)" using Suc.IH [of ancestor "take lt w"] by simp_all
      have R: "le (w ! lt) x" if "x \<in> set (drop (lt + 1) w)" for x
      proof -
        from that obtain i where "i < length (drop (lt + 1) w)" "x = drop (lt + 1) w ! i"
          by (auto simp only: in_set_conv_nth)
        then have "lt < lt + 1 + i" "lt + 1 + i < length v" "x = w ! (lt + 1 + i)" using len by simp_all
        then show ?thesis using w by (simp only: le_def) blast
      qed
      then have "Some (w ! lt) = Some a \<Longrightarrow> x \<in> set (drop (lt + 1) w) \<Longrightarrow> le a x" for a x by (metis option.inject)
      note rr = Suc.IH [of "Some (w ! lt)" "drop (lt + 1) w", OF this]
      then have r: "srt ?r" "mset ?r = mset (drop (lt + 1) w)" by blast+
      have L: "le x (w ! lt)" if "x \<in> set (take lt w)" for x
        using that w lss_le by (auto simp: in_set_conv_nth)
      have eq: "rustQuicksort lss ancestor (Suc limit) v = ?l @ [w ! lt] @ ?r"
        using False no by (subst unfold) (simp add: p_def [symmetric] Let_def part)
      have "srt (?l @ [w ! lt] @ ?r)"
        using l r L R mset_eq_setD [OF l(2)] mset_eq_setD [OF r(2)]
        by (auto simp: sorted_wrt_append intro: le_trans)
      moreover have "mset (?l @ [w ! lt] @ ?r) = mset v"
        using l(2) r(2) w len arg_cong [of _ _ mset, OF id_take_nth_drop [of lt w]] by simp
      ultimately show ?thesis by (simp add: eq)
    qed
  qed
qed

subsection \<open>The whole sort\<close>

lemma run_from_ok:
  "n \<le> length v \<Longrightarrow> run_from goes v n = length v \<Longrightarrow> n \<le> k \<Longrightarrow> k < length v \<Longrightarrow> goes (v ! k) (v ! (k - 1))"
proof (induction goes v n rule: run_from.induct)
  case (1 goes v n)
  show ?case
  proof (cases "n < length v \<and> goes (v ! n) (v ! (n - 1))")
    case True
    then have "run_from goes v (n + 1) = length v" using 1(3) by (subst (asm) run_from.simps) simp
    with 1 True show ?thesis by (cases "k = n") auto
  next
    case False
    then have "run_from goes v n = n" by (subst run_from.simps) (simp only: if_False)
    with 1 show ?thesis by simp
  qed
qed

lemma transp_lss: "transp lss"
  by (rule transpI) (metis asym ntrans)

lemma rustSortUnstable_ok: "srt (rustSortUnstable lss v) \<and> mset (rustSortUnstable lss v) = mset v"
proof -
  consider "length v < 2" | "2 \<le> length v" "length v \<le> 20"
    | "20 < length v" "fst (existingRun lss v) = length v" | "20 < length v" "fst (existingRun lss v) \<noteq> length v"
    by linarith
  then show ?thesis
  proof cases
    case 1
    then show ?thesis by (cases v) (auto simp: rustSortUnstable_def)
  next
    case 2
    then show ?thesis using insertion_sorted [of v] insertion_mset [of lss 1 v] by (simp add: rustSortUnstable_def)
  next
    case 3
    have first: "goes (v ! k) (v ! (k - 1))"
      if "goes (v ! 1) (v ! 0)" "run_from goes v 2 = length v" "0 < k" "k < length v" for goes k
      using run_from_ok [of 2 v goes k] that 3(1) by (cases "k = 1") auto
    show ?thesis
    proof (cases "lss (v ! 1) (v ! 0)")
      case True
      then have "run_from lss v 2 = length v" using 3(2) by (simp add: existingRun_def Let_def)
      then have "lss (v ! Suc i) (v ! i)" if "Suc i < length v" for i
        using first [of lss "Suc i"] True that by simp
      moreover have "transp (\<lambda>a b. lss b a)" using transp_lss by (auto simp: transp_def)
      ultimately have "sorted_wrt (\<lambda>a b. lss b a) v" by (subst sorted_wrt_iff_nth_Suc_transp) auto
      then have "srt (rev v)" by (simp add: sorted_wrt_rev) (rule sorted_wrt_mono_rel, auto intro: lss_le)
      moreover have "rustSortUnstable lss v = rev v"
        using 3 True reverse_loop_rev [of v] by (cases v) (auto simp: rustSortUnstable_def existingRun_def Let_def)
      ultimately show ?thesis by simp
    next
      case False
      then have "run_from (\<lambda>a b. \<not> lss a b) v 2 = length v" using 3(2) by (simp add: existingRun_def Let_def)
      then have "le (v ! i) (v ! Suc i)" if "Suc i < length v" for i
        using first [of "\<lambda>a b. \<not> lss a b" "Suc i"] False that by (simp add: le_def)
      then have "srt v" by (simp add: sorted_wrt_iff_nth_Suc_transp [OF transp_le])
      moreover have "rustSortUnstable lss v = v"
        using 3 False by (simp add: rustSortUnstable_def existingRun_def Let_def)
      ultimately show ?thesis by simp
    qed
  next
    case 4
    then have "rustSortUnstable lss v = rustQuicksort lss None (2 * (bits_Len (length v OR 1) - 1)) v"
      by (auto simp: rustSortUnstable_def split: prod.splits)
    then show ?thesis using quicksort_ok [of None v] by simp
  qed
qed

end

end
