(* ===== verification/Lz4.thy ===== *)
theory Lz4
  imports XXH32
begin

text \<open>
  Package \<open>encoding/lz4\<close>: \<open>DecompressFrame\<close> and \<open>decompressBlock\<close>, with every index and
  slice checked at run time as in Go. Every error of the package wraps \<open>ErrFrame\<close>
  (\<open>fmt.Errorf("%w: ...", ErrFrame)\<close>) and is modelled by it. Lengths and positions are natural
  numbers: each is bounded by a small multiple of the input's length, so Go's 64-bit \<open>int\<close>
  holds it; a comparison of a difference in the code (\<open>litLen > len(src)-i\<close>) is written
  with the sum.

  The second half states what an LZ4 block means, independently of the decoder: a list of
  sequences (literals, offset, match length) and final literals. \<open>decompressBlock_reads\<close>
  shows that the decoder turns every well-formed block into its meaning.
\<close>

definition frameMagic :: u32 where "frameMagic = 0x184D2204"

definition maxDecompressed :: nat where "maxDecompressed = 64 * 2 ^ 20"

text \<open>The loops that extend a length by further bytes while they are 255.\<close>

definition len_step :: "bytes \<Rightarrow> nat \<times> nat \<Rightarrow> ((nat \<times> nat) + (nat \<times> nat)) res" where
  "len_step src = (\<lambda>(i, len).
     guardR (i \<ge> length src) ErrFrame
       (bindR (index_at src i) (\<lambda>c.
          if c \<noteq> 255 then Inr (Inr (i + 1, len + unat c)) else Inr (Inl (i + 1, len + unat c)))))"

definition read_len :: "bytes \<Rightarrow> nat \<Rightarrow> nat \<Rightarrow> (nat \<times> nat) res" where
  "read_len src i len = loopR (Suc (length src)) (len_step src) (i, len)"

text \<open>A length whose nibble is 15 goes on; any other is complete.\<close>

definition extended :: "bool \<Rightarrow> bytes \<Rightarrow> nat \<Rightarrow> nat \<Rightarrow> (nat \<times> nat) res" where
  "extended more src i len = (if more then read_len src i len else Inr (i, len))"

text \<open>The byte-by-byte copy: \<open>dst = append(dst, dst[pos+k])\<close>.\<close>

primrec copy_match :: "nat \<Rightarrow> nat \<Rightarrow> bytes \<Rightarrow> bytes res" where
  "copy_match 0 p dst = Inr dst"
| "copy_match (Suc k) p dst = bindR (index_at dst p) (\<lambda>b. copy_match k (p + 1) (dst @ [b]))"

text \<open>One turn of the loop of \<open>decompressBlock\<close>, first the literals of a sequence, then its match.\<close>

definition match_part :: "bytes \<Rightarrow> nat \<Rightarrow> byte \<Rightarrow> nat \<Rightarrow> bytes \<Rightarrow> (nat \<times> bytes) res" where
  "match_part src maxOut token i dst =
     guardR (i + 2 > length src) ErrFrame
       (bindR (le16_at src i) (\<lambda>off.
          let offset = unat off; i = i + 2 in
          guardR (offset = 0 \<or> offset > length dst) ErrFrame
            (let matchLen = unat (token AND 0x0F) + 4 in
             bindR (extended (token AND 0x0F = 15) src i matchLen)
               (\<lambda>(i, matchLen).
                  guardR (length dst + matchLen > maxOut) ErrFrame
                    (bindR (copy_match matchLen (length dst - offset) dst) (\<lambda>dst. Inr (i, dst)))))))"

definition block_step :: "bytes \<Rightarrow> nat \<Rightarrow> nat \<times> bytes \<Rightarrow> ((nat \<times> bytes) + bytes) res" where
  "block_step src maxOut = (\<lambda>(i, dst).
     if \<not> i < length src then Inr (Inr dst)
     else bindR (index_at src i) (\<lambda>token.
       let i = i + 1; litLen = unat (drop_bit 4 token) in
       bindR (extended (litLen = 15) src i litLen) (\<lambda>(i, litLen).
         guardR (i + litLen > length src) ErrFrame
           (guardR (length dst + litLen > maxOut) ErrFrame
             (bindR (slice src i (i + litLen)) (\<lambda>lits.
                let dst = dst @ lits; i = i + litLen in
                if i = length src then Inr (Inr dst)
                else bindR (match_part src maxOut token i dst) (\<lambda>s. Inr (Inl s))))))))"

definition decompressBlock :: "bytes \<Rightarrow> bytes \<Rightarrow> nat \<Rightarrow> bytes res" where
  "decompressBlock src dst maxOut = loopR (Suc (length src)) (block_step src maxOut) (0, dst)"

text \<open>The check of a block's own checksum, where the frame carries one; it moves past it.\<close>

definition block_checksum :: "bytes \<Rightarrow> bool \<Rightarrow> nat \<Rightarrow> bytes \<Rightarrow> nat res" where
  "block_checksum b blockChecksum p data =
     (if blockChecksum then
        guardR (p + 4 > length b) ErrFrame
          (bindR (le32_at b p) (\<lambda>stored.
           bindR (Checksum data 0) (\<lambda>sum.
             guardR (stored \<noteq> sum) ErrFrame (Inr (p + 4)))))
      else Inr p)"

text \<open>One turn of the loop over the blocks of a frame; the result carries the position too.\<close>

definition frame_step ::
  "bytes \<Rightarrow> bool \<Rightarrow> nat \<times> bytes \<Rightarrow> ((nat \<times> bytes) + (nat \<times> bytes)) res" where
  "frame_step b blockChecksum = (\<lambda>(p, out).
     guardR (p + 4 > length b) ErrFrame
       (bindR (le32_at b p) (\<lambda>size.
          let p = p + 4 in
          if size = 0 then Inr (Inr (p, out))
          else
            let uncompressed = (size AND push_bit 31 1 \<noteq> 0);
                n = unat (size AND NOT (push_bit 31 1)) in
            guardR (p + n > length b) ErrFrame
              (bindR (slice b p (p + n)) (\<lambda>data.
                 let p = p + n in
                 bindR (block_checksum b blockChecksum p data) (\<lambda>p.
                 if uncompressed then
                   guardR (length out + length data > maxDecompressed) ErrFrame
                     (Inr (Inl (p, out @ data)))
                 else bindR (decompressBlock data out maxDecompressed) (\<lambda>dec.
                   Inr (Inl (p, dec)))))))))"

definition DecompressFrame :: "bytes \<Rightarrow> bytes res" where
  "DecompressFrame b =
     guardR (length b < 7) ErrFrame
       (bindR (le32_at b 0) (\<lambda>magic.
        guardR (magic \<noteq> frameMagic) ErrFrame
          (bindR (index_at b 4) (\<lambda>flg.
           bindR (index_at b 5) (\<lambda>bd.
           guardR (drop_bit 6 flg \<noteq> 1) ErrFrame
             (let blockChecksum = (flg AND push_bit 4 1 \<noteq> 0);
                  contentSize = (flg AND push_bit 3 1 \<noteq> 0);
                  contentChecksum = (flg AND push_bit 2 1 \<noteq> 0);
                  dictID = (flg AND 1 \<noteq> 0);
                  p = 6 + (if contentSize then 8 else 0) + (if dictID then 4 else 0)
              in guardR (p \<ge> length b) ErrFrame
                (bindR (index_at b p) (\<lambda>hc.
                 bindR (slice b 4 p) (\<lambda>desc.
                 bindR (Checksum desc 0) (\<lambda>sum.
                 guardR ((ucast (drop_bit 8 sum) :: byte) \<noteq> hc) ErrFrame
                   (bindR (loopR (Suc (length b)) (frame_step b blockChecksum) (p + 1, []))
                     (\<lambda>(p, out).
                        if contentChecksum then
                          guardR (p + 4 > length b) ErrFrame
                            (bindR (le32_at b p) (\<lambda>stored.
                             bindR (Checksum out 0) (\<lambda>sum.
                               guardR (stored \<noteq> sum) ErrFrame (Inr out))))
                        else Inr out))))))))))))"

section \<open>Safety and the bound on the output\<close>

lemma read_len_okR:
  assumes "i \<le> length src"
  shows "okR (\<lambda>(j, n). i < j \<and> j \<le> length src \<and> len \<le> n) (read_len src i len)"
proof -
  have "okR (\<lambda>(j, n). i < j \<and> j \<le> length src \<and> len \<le> n)
      (loopR (Suc (length src)) (len_step src) (i, len))"
    by (rule loopR_okR [where I = "\<lambda>(j, n). i \<le> j \<and> j \<le> length src \<and> len \<le> n"
          and m = "\<lambda>(j, n). length src - j"])
      (use assms in \<open>auto simp: len_step_def guardR_def\<close>)
  then show ?thesis by (simp add: read_len_def)
qed

lemma extended_okR [okR_intros]:
  "i \<le> length src \<Longrightarrow>
    okR (\<lambda>(j, n). i \<le> j \<and> j \<le> length src \<and> len \<le> n) (extended more src i len)"
  using okR_mono [OF read_len_okR] by (auto simp: extended_def)

lemma copy_match_okR [okR_intros]:
  "p < length dst \<Longrightarrow> okR (\<lambda>out. length out = length dst + k) (copy_match k p dst)"
proof (induction k arbitrary: p dst)
  case (Suc k)
  then have "okR (\<lambda>out. length out = length (dst @ [dst ! p]) + k)
      (copy_match k (p + 1) (dst @ [dst ! p]))"
    by (intro Suc.IH) simp
  with Suc.prems show ?case by simp
qed simp

lemma match_part_okR:
  "okR (\<lambda>(j, out). i < j \<and> j \<le> length src \<and> length out \<le> maxOut) (match_part src maxOut token i dst)"
proof (cases "i + 2 \<le> length src")
  case True
  then show ?thesis
    unfolding match_part_def Let_def
    by (auto intro!: okR_intros)
qed (simp add: match_part_def)

lemma block_step_okR:
  assumes "i \<le> length src"
  shows "okR (\<lambda>x. case x of
      Inl (j, out) \<Rightarrow> i < j \<and> j \<le> length src \<and> length out \<le> maxOut
    | Inr out \<Rightarrow> length out \<le> max maxOut (length dst)) (block_step src maxOut (i, dst))"
proof (cases "i < length src")
  case True
  then show ?thesis
    unfolding block_step_def Let_def
    by (auto simp del: One_nat_def intro!: okR_intros match_part_okR)
qed (use assms in \<open>simp add: block_step_def\<close>)

lemma decompressBlock_okR:
  assumes "length dst \<le> maxOut"
  shows "okR (\<lambda>out. length out \<le> maxOut) (decompressBlock src dst maxOut)"
  unfolding decompressBlock_def
proof (rule loopR_okR [where I = "\<lambda>(i, out). i \<le> length src \<and> length out \<le> maxOut"
        and m = "\<lambda>(i, out). length src - i"])
  fix s :: "nat \<times> bytes"
  assume s: "case s of (i, out) \<Rightarrow> i \<le> length src \<and> length out \<le> maxOut"
  obtain i out where s': "s = (i, out)" by (cases s)
  from s s' block_step_okR [of i src maxOut out]
  show "okR (\<lambda>x. case x of
      Inl s' \<Rightarrow> (case s' of (i, out) \<Rightarrow> i \<le> length src \<and> length out \<le> maxOut) \<and>
        (case s' of (i, out) \<Rightarrow> length src - i) < (case s of (i, out) \<Rightarrow> length src - i)
    | Inr v \<Rightarrow> length v \<le> maxOut) (block_step src maxOut s)"
    by (auto elim!: okR_mono split: sum.splits)
qed (use assms in auto)

lemma block_checksum_okR:
  "p \<le> length b \<Longrightarrow> okR (\<lambda>q. p \<le> q \<and> q \<le> length b) (block_checksum b c p data)"
  by (cases "p + 4 \<le> length b") (auto simp: block_checksum_def guardR_def)

lemma frame_step_okR:
  assumes "p \<le> length b" and "length out \<le> maxDecompressed"
  shows "okR (\<lambda>x. case x of
      Inl (q, out) \<Rightarrow> p < q \<and> q \<le> length b \<and> length out \<le> maxDecompressed
    | Inr (q, out) \<Rightarrow> q \<le> length b \<and> length out \<le> maxDecompressed)
    (frame_step b blockChecksum (p, out))"
proof (cases "p + 4 \<le> length b")
  case True
  then show ?thesis
    using assms(2)
    unfolding frame_step_def Let_def prod.case
    by (auto intro!: okR_guardR okR_if okR_bindR [OF block_checksum_okR]
        okR_bindR [OF decompressBlock_okR])
qed (simp add: frame_step_def)

lemma DecompressFrame_okR: "okR (\<lambda>out. length out \<le> maxDecompressed) (DecompressFrame b)"
proof (cases "length b < 7")
  case False
  have frames: "okR (\<lambda>(q, out). q \<le> length b \<and> length out \<le> maxDecompressed)
      (loopR (Suc (length b)) (frame_step b c) (p, []))" if "p \<le> length b" for p c
  proof (rule loopR_okR [where I = "\<lambda>(q, out). q \<le> length b \<and> length out \<le> maxDecompressed"
        and m = "\<lambda>(q, out). length b - q"])
    fix s :: "nat \<times> bytes"
    assume s: "case s of (q, out) \<Rightarrow> q \<le> length b \<and> length out \<le> maxDecompressed"
    obtain q out where s': "s = (q, out)" by (cases s)
    from s s' frame_step_okR [of q b out c]
    show "okR (\<lambda>x. case x of
        Inl s' \<Rightarrow> (case s' of (q, out) \<Rightarrow> q \<le> length b \<and> length out \<le> maxDecompressed) \<and>
          (case s' of (q, out) \<Rightarrow> length b - q) < (case s of (q, out) \<Rightarrow> length b - q)
      | Inr v \<Rightarrow> (case v of (q, out) \<Rightarrow> q \<le> length b \<and> length out \<le> maxDecompressed))
      (frame_step b c s)"
      by (auto elim!: okR_mono split: sum.splits)
  qed (use that in auto)
  show ?thesis
    unfolding DecompressFrame_def Let_def using False
    by (auto intro!: okR_guardR okR_if okR_bindR [OF frames] simp del: loopR.simps)
qed (simp add: DecompressFrame_def)

section \<open>What a block means\<close>

text \<open>
  A sequence is literals, the offset of a match and its length. A match of length \<open>m\<close> at
  offset \<open>o\<close> repeats the last \<open>o\<close> bytes of the output cyclically.
\<close>

type_synonym lz4_seq = "bytes \<times> nat \<times> nat"

definition match_bytes :: "bytes \<Rightarrow> nat \<Rightarrow> nat \<Rightarrow> bytes" where
  "match_bytes dst off m = map (\<lambda>k. dst ! (length dst - off + k mod off)) [0..<m]"

fun lz4_meaning :: "bytes \<Rightarrow> lz4_seq list \<Rightarrow> bytes \<Rightarrow> bytes" where
  "lz4_meaning dst [] lits = dst @ lits"
| "lz4_meaning dst ((ls, off, m) # seqs) lits =
     lz4_meaning (dst @ ls @ match_bytes (dst @ ls) off m) seqs lits"

fun lz4_ok :: "nat \<Rightarrow> lz4_seq list \<Rightarrow> bool" where
  "lz4_ok n [] = True"
| "lz4_ok n ((ls, off, m) # seqs) \<longleftrightarrow>
     0 < off \<and> off < 2 ^ 16 \<and> off \<le> n + length ls \<and> 4 \<le> m \<and> lz4_ok (n + length ls + m) seqs"

text \<open>The block format: a token of two nibbles, each saturating at 15 and then extended.\<close>

definition nibble :: "nat \<Rightarrow> nat" where
  "nibble n = min 15 n"

definition put_ext :: "nat \<Rightarrow> bytes" where
  "put_ext n = (if n < 15 then [] else replicate ((n - 15) div 255) 255 @ [of_nat ((n - 15) mod 255)])"

definition put_token :: "nat \<Rightarrow> nat \<Rightarrow> byte" where
  "put_token l m = of_nat (16 * nibble l + nibble m)"

fun put_block :: "lz4_seq list \<Rightarrow> bytes \<Rightarrow> bytes" where
  "put_block [] lits = put_token (length lits) 0 # put_ext (length lits) @ lits"
| "put_block ((ls, off, m) # seqs) lits =
     put_token (length ls) (m - 4) # put_ext (length ls) @ ls @ le_put 2 (of_nat off :: u16) @
     put_ext (m - 4) @ put_block seqs lits"

text \<open>The copy of the code appends exactly \<open>match_bytes\<close>.\<close>

lemma match_bytes_Suc:
  assumes "0 < off" and "off \<le> length dst"
  shows "match_bytes dst off (Suc m) =
    dst ! (length dst - off) # match_bytes (dst @ [dst ! (length dst - off)]) off m"
proof (rule nth_equalityI)
  let ?b = "dst ! (length dst - off)"
  fix k
  assume "k < length (match_bytes dst off (Suc m))"
  then have k: "k < Suc m" by (simp add: match_bytes_def)
  show "match_bytes dst off (Suc m) ! k = (?b # match_bytes (dst @ [?b]) off m) ! k"
  proof (cases k)
    case (Suc j)
    with k have j: "j < m" by simp
    have lt: "j mod off < off" using assms(1) by simp
    have "dst ! (length dst - off + Suc j mod off) =
        (dst @ [?b]) ! (length (dst @ [?b]) - off + j mod off)"
      using assms lt by (auto simp: mod_Suc nth_append Suc_diff_le)
    with j show ?thesis by (simp add: Suc match_bytes_def del: upt_Suc)
  qed (simp add: match_bytes_def del: upt_Suc)
qed (simp add: match_bytes_def)

lemma copy_match_eq:
  "0 < off \<Longrightarrow> off \<le> length dst \<Longrightarrow>
    copy_match m (length dst - off) dst = Inr (dst @ match_bytes dst off m)"
proof (induction m arbitrary: dst)
  case 0
  then show ?case by (simp add: match_bytes_def)
next
  case (Suc m)
  from Suc.IH [of "dst @ [dst ! (length dst - off)]"] Suc.prems
  show ?case by (simp add: match_bytes_Suc Suc_diff_le)
qed

text \<open>What the decoder makes of an extended length.\<close>

lemma read_len_ext:
  assumes "at_pos src i (replicate n 255 @ c # ys)" and "c \<noteq> 255"
  shows "read_len src i len = Inr (Suc (i + n), len + 255 * n + unat c)"
proof -
  have "at_pos src i (replicate n 255 @ c # ys) \<Longrightarrow> n < k \<Longrightarrow>
      loopR k (len_step src) (i, len) = Inr (Suc (i + n), len + 255 * n + unat c)" for k
  proof (induction n arbitrary: i len k)
    case 0
    then obtain j where "k = Suc j" by (cases k) auto
    with 0 show ?case
      using at_pos_length [OF 0(1)] at_pos_index [of src i c ys] assms(2)
      by (simp add: len_step_def)
  next
    case (Suc n)
    then obtain j where k: "k = Suc j" by (cases k) auto
    from Suc.prems(1) have a: "at_pos src i (255 # replicate n 255 @ c # ys)" by simp
    show ?case
      using at_pos_length [OF a] at_pos_index [OF a] Suc.IH [OF at_pos_Cons [OF a], of j "len + 255"]
        Suc.prems(2)
      by (simp add: k len_step_def)
  qed
  then show ?thesis
    unfolding read_len_def using assms(1) at_pos_length [OF assms(1)]
    by (simp del: loopR.simps)
qed

lemma extended_put_ext:
  assumes "at_pos src i (put_ext n @ ys)"
  shows "extended (nibble n = 15) src i (nibble n + k) = Inr (i + length (put_ext n), n + k)"
proof (cases "n < 15")
  case True
  then show ?thesis by (simp add: extended_def nibble_def put_ext_def)
next
  case False
  let ?r = "(n - 15) mod 255"
  have r: "?r < 255" by simp
  then have u: "unat (of_nat ?r :: byte) = ?r"
    by (subst unat_of_nat_fits) simp_all
  then have "(of_nat ?r :: byte) \<noteq> 255"
    using r by (auto dest: arg_cong [where f = unat])
  moreover have "at_pos src i (replicate ((n - 15) div 255) 255 @ of_nat ?r # ys)"
    using assms False by (simp add: put_ext_def)
  ultimately have "read_len src i (15 + k) =
      Inr (Suc (i + (n - 15) div 255), 15 + k + 255 * ((n - 15) div 255) + unat (of_nat ?r :: byte))"
    by (intro read_len_ext) auto
  moreover have "15 + k + 255 * ((n - 15) div 255) + ?r = n + k"
    using mult_div_mod_eq [of 255 "n - 15"] False by linarith
  ultimately show ?thesis
    using False by (simp add: extended_def nibble_def put_ext_def u)
qed

lemma put_token_literals: "unat (drop_bit 4 (put_token l m)) = nibble l"
  and put_token_match: "unat (put_token l m AND 0x0F) = nibble m"
proof -
  have u: "unat (put_token l m) = 16 * nibble l + nibble m"
    unfolding put_token_def nibble_def by (subst unat_of_nat_fits) (simp_all add: min_def)
  have "nibble m < 16" by (simp add: nibble_def)
  then show "unat (drop_bit 4 (put_token l m)) = nibble l"
    by (simp add: drop_bit_eq_div unat_div_distrib u)
  have "put_token l m AND 0x0F = take_bit 4 (put_token l m)"
    by (simp add: take_bit_eq_mask mask_eq_exp_minus_1)
  then have "unat (put_token l m AND 0x0F) = unat (put_token l m) mod 2 ^ 4"
    by (simp only: unsigned_take_bit_eq) (simp only: take_bit_eq_mod)
  with \<open>nibble m < 16\<close> show "unat (put_token l m AND 0x0F) = nibble m"
    by (simp only: u) simp
qed

lemma block_step_seq:
  assumes at: "at_pos src i (put_block ((ls, off, m) # seqs) lits)"
    and off: "0 < off" "off < 2 ^ 16" "off \<le> length dst + length ls" and m: "4 \<le> m"
    and small: "length dst + length ls + m \<le> maxOut"
  shows "\<exists>j. block_step src maxOut (i, dst) =
      Inr (Inl (j, dst @ ls @ match_bytes (dst @ ls) off m)) \<and> at_pos src j (put_block seqs lits)"
proof -
  define t where "t = put_token (length ls) (m - 4)"
  define o2 where "o2 = le_put 2 (of_nat off :: u16)"
  define i1 where "i1 = Suc i + length (put_ext (length ls))"
  define i2 where "i2 = i1 + length ls"
  define j where "j = i2 + 2 + length (put_ext (m - 4))"
  have 0: "at_pos src i (t # put_ext (length ls) @ ls @ o2 @ put_ext (m - 4) @ put_block seqs lits)"
    using at by (simp add: t_def o2_def)
  note 1 = at_pos_Cons [OF 0]
  have 2: "at_pos src i1 (ls @ o2 @ put_ext (m - 4) @ put_block seqs lits)"
    using at_pos_append [OF 1] by (simp add: i1_def)
  have 3: "at_pos src i2 (o2 @ put_ext (m - 4) @ put_block seqs lits)"
    using at_pos_append [OF 2] by (simp add: i2_def)
  have o2: "length o2 = 2" by (simp add: o2_def)
  have 4: "at_pos src (i2 + 2) (put_ext (m - 4) @ put_block seqs lits)"
    using at_pos_append [OF 3] by (simp add: o2)
  have 5: "at_pos src j (put_block seqs lits)"
    using at_pos_append [OF 4] by (simp add: j_def)
  have u: "unat (of_nat off :: u16) = off"
    using off(2) by (subst unat_of_nat_fits) simp_all
  have le: "le16_at src i2 = Inr (of_nat off)"
    using at_pos_le16 3 unfolding o2_def by blast
  have ext1: "extended (nibble (length ls) = 15) src (Suc i) (nibble (length ls)) = Inr (i1, length ls)"
    using extended_put_ext [OF 1, of 0] by (simp add: i1_def)
  have ext2: "extended (nibble (m - 4) = 15) src (i2 + 2) (nibble (m - 4) + 4) = Inr (j, m)"
    using extended_put_ext [OF 4, of 4] m by (simp add: j_def)
  have nib: "t AND 0x0F = 15 \<longleftrightarrow> nibble (m - 4) = 15"
    using put_token_match [of "length ls" "m - 4"] unfolding t_def
    by (auto simp: word_unat_eq_iff)
  have copy: "copy_match m (length (dst @ ls) - off) (dst @ ls) =
      Inr (dst @ ls @ match_bytes (dst @ ls) off m)"
    using copy_match_eq [of off "dst @ ls" m] off by simp
  have "match_part src maxOut t i2 (dst @ ls) = Inr (j, dst @ ls @ match_bytes (dst @ ls) off m)"
    using at_pos_length [OF 3] o2 off small copy
    by (simp add: match_part_def Let_def le u nib [unfolded t_def] put_token_match
        ext2 [simplified] t_def)
  then show ?thesis
    using at_pos_length [OF 0] at_pos_length [OF 2] at_pos_index [OF 0] at_pos_slice [OF 2] small 5 o2
    by (simp add: block_step_def Let_def t_def put_token_literals ext1 i2_def)
qed

lemma block_step_last:
  assumes at: "at_pos src i (put_block [] lits)" and small: "length dst + length lits \<le> maxOut"
  shows "block_step src maxOut (i, dst) = Inr (Inr (dst @ lits))"
proof -
  define t where "t = put_token (length lits) 0"
  define i1 where "i1 = Suc i + length (put_ext (length lits))"
  have 0: "at_pos src i (t # put_ext (length lits) @ lits @ [])"
    using at by (simp add: t_def)
  note 1 = at_pos_Cons [OF 0]
  have 2: "at_pos src i1 (lits @ [])"
    using at_pos_append [OF 1] by (simp add: i1_def)
  have "extended (nibble (length lits) = 15) src (Suc i) (nibble (length lits)) = Inr (i1, length lits)"
    using extended_put_ext [OF 1, of 0] by (simp add: i1_def)
  then show ?thesis
    using at_pos_length [OF 0] at_pos_length [OF 2] at_pos_index [OF 0] at_pos_slice [OF 2] small
    by (simp add: block_step_def Let_def t_def put_token_literals)
qed

lemma lz4_meaning_length: "length dst \<le> length (lz4_meaning dst seqs lits)"
proof (induction dst seqs lits rule: lz4_meaning.induct)
  case (2 dst ls off m seqs lits)
  then show ?case by simp
qed simp

lemma put_block_length: "length seqs < length (put_block seqs lits)"
  by (induction seqs) (auto simp: split_paired_all)

lemma decompressBlock_reads:
  assumes "lz4_ok (length dst) seqs" and "length (lz4_meaning dst seqs lits) \<le> maxOut"
  shows "decompressBlock (put_block seqs lits) dst maxOut = Inr (lz4_meaning dst seqs lits)"
proof -
  have "at_pos src i (put_block seqs lits) \<Longrightarrow> lz4_ok (length dst) seqs \<Longrightarrow>
      length (lz4_meaning dst seqs lits) \<le> maxOut \<Longrightarrow>
      steps_to (block_step src maxOut) (i, dst) (length seqs) (lz4_meaning dst seqs lits)" for src i
  proof (induction seqs arbitrary: i dst)
    case Nil
    then show ?case by (simp add: block_step_last)
  next
    case (Cons s seqs)
    obtain ls off m where s: "s = (ls, off, m)" by (cases s)
    let ?dst = "dst @ ls @ match_bytes (dst @ ls) off m"
    have len: "length (match_bytes (dst @ ls) off m) = m" by (simp add: match_bytes_def)
    have "length dst + length ls + m \<le> maxOut"
      using lz4_meaning_length [of ?dst seqs lits] Cons.prems(3) by (simp add: s len)
    with block_step_seq [of src i ls off m seqs lits dst maxOut] Cons.prems
    obtain j where step: "block_step src maxOut (i, dst) = Inr (Inl (j, ?dst))"
      and at: "at_pos src j (put_block seqs lits)" by (auto simp: s)
    have "steps_to (block_step src maxOut) (j, ?dst) (length seqs) (lz4_meaning ?dst seqs lits)"
      using Cons.prems at by (intro Cons.IH) (simp_all add: s len add.assoc)
    with step show ?case by (auto simp: s)
  qed
  from this [of "put_block seqs lits" 0] assms put_block_length [of seqs lits]
  show ?thesis
    unfolding decompressBlock_def by (intro loopR_steps_to) auto
qed

section \<open>Properties\<close>

text \<open>C27: \<open>decompressBlock\<close> turns every well-formed LZ4 block, appended to the output so far, into
  its meaning: literals copied, and a match of any length repeating the last \<open>offset\<close> bytes
  cyclically, also where source and destination overlap.\<close>

theorem decompress_block_meaning:
  assumes "lz4_ok (length dst) seqs" and "length (lz4_meaning dst seqs lits) \<le> maxOut"
  shows "decompressBlock (put_block seqs lits) dst maxOut = Inr (lz4_meaning dst seqs lits)"
  using assms by (rule decompressBlock_reads)

theorem decompress_block_witness:
  "decompressBlock (put_block [([1, 2, 3], 2, 9)] [7]) [9] 100 =
    Inr [9, 1, 2, 3, 2, 3, 2, 3, 2, 3, 2, 3, 2, 7]"
proof -
  have "lz4_meaning [9] [([1, 2, 3], 2, 9)] [7] = [9, 1, 2, 3, 2, 3, 2, 3, 2, 3, 2, 3, 2, 7 :: byte]"
    by (simp add: match_bytes_def upt_rec)
  then show ?thesis
    using decompress_block_meaning [of "[9]" "[([1, 2, 3], 2, 9)]" "[7]" 100] by simp
qed

text \<open>C31: \<open>DecompressFrame\<close> on any bytes neither panics nor loops, and what it returns is at most
  \<open>maxDecompressed\<close> bytes long.\<close>

theorem decompress_frame_bounded:
  "case DecompressFrame b of
     Inl e \<Rightarrow> e \<noteq> GoPanic \<and> e \<noteq> OutOfFuel
   | Inr out \<Rightarrow> length out \<le> maxDecompressed"
  using DecompressFrame_okR [of b] by (simp add: okR_def go_error_def split: sum.splits)

end
