(* ===== verification/SSTable.thy ===== *)
theory SSTable
  imports Lz4
begin

text \<open>
  Package \<open>encoding/kv\<close>: the reader of the SSTable that holds the oplog and state sections
  of a snapshot. Every error of the package wraps \<open>ErrSSTable\<close> and is modelled by it (an
  error of the decompression is \<open>ErrFrame\<close>). Positions are natural numbers, and every index
  and slice is checked as in Go.

  The second half gives the format: \<open>put_table\<close> lays out a table of uncompressed
  blocks, and \<open>ParseSSTable_reads\<close> shows that the reader returns its entries.
\<close>

record entry =
  e_Key :: bytes
  e_Value :: bytes

record blockMeta =
  bm_offset :: u32
  bm_firstKey :: bytes
  bm_isLarge :: bool
  bm_compression :: byte

text \<open>The turn of the loop of \<open>decodeMeta\<close>, and the loop.\<close>

definition read_meta :: "bytes \<Rightarrow> nat \<Rightarrow> (blockMeta \<times> nat) res" where
  "read_meta body p =
     guardR (p + 4 + 2 > length body) ErrSSTable
       (bindR (le32_at body p) (\<lambda>off.
        let p = p + 4 in
        bindR (le16_at body p) (\<lambda>fk.
          let fkLen = unat fk; p = p + 2 in
          guardR (p + fkLen + 1 > length body) ErrSSTable
            (bindR (slice body p (p + fkLen)) (\<lambda>firstKey.
             let p = p + fkLen in
             bindR (index_at body p) (\<lambda>lac.
               let p = p + 1;
                   m = \<lparr>bm_offset = off, bm_firstKey = firstKey, bm_isLarge = (lac AND 0x80 \<noteq> 0),
                        bm_compression = lac AND 0x7f\<rparr>
               in if \<not> bm_isLarge m then
                    guardR (p + 2 > length body) ErrSSTable
                      (bindR (le16_at body p) (\<lambda>lk.
                         let p = p + (2 + unat lk) in
                         guardR (p > length body) ErrSSTable (Inr (m, p))))
                  else Inr (m, p)))))))"

primrec read_metas :: "nat \<Rightarrow> bytes \<Rightarrow> nat \<Rightarrow> blockMeta list res" where
  "read_metas 0 body p = Inr []"
| "read_metas (Suc n) body p =
     bindR (read_meta body p) (\<lambda>(m, p). bindR (read_metas n body p) (\<lambda>ms. Inr (m # ms)))"

definition decodeMeta :: "bytes \<Rightarrow> blockMeta list res" where
  "decodeMeta meta =
     guardR (length meta < 4 + 4) ErrSSTable
       (bindR (le32_at meta 0) (\<lambda>num.
        guardR (unat num > length meta div 7) ErrSSTable
          (bindR (slice meta 4 (length meta - 4)) (\<lambda>body.
           bindR (le32_at meta (length meta - 4)) (\<lambda>want.
           bindR (Checksum body Seed) (\<lambda>sum.
             guardR (sum \<noteq> want) ErrSSTable (read_metas (unat num) body 0)))))))"

text \<open>
  The turn of the last loop of \<open>decodeBlock\<close>: the entry between \<open>start\<close> and \<open>stop\<close>. Its
  key is the first key of the block for the first entry, and otherwise shares a prefix of it.
\<close>

definition entry_key :: "blockMeta \<Rightarrow> bytes \<Rightarrow> nat \<Rightarrow> nat \<Rightarrow> nat \<Rightarrow> (bytes \<times> nat) res" where
  "entry_key m kv i start stop =
     (if i = 0 then Inr (bm_firstKey m, start)
      else guardR (start + 3 > stop) ErrSSTable
        (bindR (index_at kv start) (\<lambda>pl.
         bindR (le16_at kv (start + 1)) (\<lambda>sl.
           let prefixLen = unat pl; suffixLen = unat sl; ks = start + 3 in
           guardR (ks + suffixLen > stop \<or> prefixLen > length (bm_firstKey m)) ErrSSTable
             (bindR (slice (bm_firstKey m) 0 prefixLen) (\<lambda>prefix.
              bindR (slice kv ks (ks + suffixLen)) (\<lambda>suffix.
                Inr (prefix @ suffix, ks + suffixLen))))))))"

definition entry_at :: "blockMeta \<Rightarrow> bytes \<Rightarrow> nat list \<Rightarrow> nat \<Rightarrow> nat \<Rightarrow> entry res" where
  "entry_at m kv offs dataEnd i =
     bindR (index_at offs i) (\<lambda>start.
     bindR (if i + 1 < length offs then index_at offs (i + 1) else Inr dataEnd) (\<lambda>stop.
       guardR (start > stop \<or> stop > length kv) ErrSSTable
         (bindR (entry_key m kv i start stop) (\<lambda>(key, valStart).
            bindR (slice kv valStart stop) (\<lambda>v. Inr \<lparr>e_Key = key, e_Value = v\<rparr>)))))"

text \<open>The entries of a block's decompressed data.\<close>

definition block_entries :: "bytes \<Rightarrow> blockMeta \<Rightarrow> entry list res" where
  "block_entries data m =
     guardR (length data < 2) ErrSSTable
       (bindR (le16_at data (length data - 2)) (\<lambda>n16.
        let n = unat n16 in
        guardR (n = 0) ErrSSTable
          (let offBytes = 2 * (n + 1) in
           guardR (length data < offBytes) ErrSSTable
             (let dataEnd = length data - offBytes in
              bindR (collectR [0..<n] (\<lambda>i. bindR (le16_at data (dataEnd + 2 * i)) (\<lambda>off. Inr (unat off))))
                (\<lambda>offs.
              bindR (slice data 0 dataEnd) (\<lambda>kv.
                collectR [0..<n] (entry_at m kv offs dataEnd)))))))"

definition decodeBlock :: "bytes \<Rightarrow> blockMeta \<Rightarrow> entry list res" where
  "decodeBlock block m =
     guardR (length block < 4) ErrSSTable
       (bindR (slice block 0 (length block - 4)) (\<lambda>data.
        bindR (le32_at block (length block - 4)) (\<lambda>want.
        bindR (Checksum data Seed) (\<lambda>sum.
          guardR (sum \<noteq> want) ErrSSTable
            (bindR (if bm_compression m = 0 then Inr data
                else if bm_compression m = 1 then DecompressFrame data
                else Inl ErrSSTable) (\<lambda>data.
               if bm_isLarge m then Inr [\<lparr>e_Key = bm_firstKey m, e_Value = data\<rparr>]
               else block_entries data m))))))"

text \<open>The bytes of \<open>LORO\<close>.\<close>

definition sst_magic :: bytes where "sst_magic = [0x4C, 0x4F, 0x52, 0x4F]"

text \<open>The turn of the loop of \<open>ParseSSTable\<close> for the block at index \<open>i\<close>.\<close>

definition table_block :: "bytes \<Rightarrow> u32 \<Rightarrow> blockMeta list \<Rightarrow> nat \<Rightarrow> entry list res" where
  "table_block b metaOffset metas i =
     bindR (index_at metas i) (\<lambda>m.
     bindR (if i + 1 < length metas then bindR (index_at metas (i + 1)) (\<lambda>m'. Inr (bm_offset m'))
         else Inr metaOffset) (\<lambda>blockEnd.
       guardR (unat (bm_offset m) > unat blockEnd \<or> unat blockEnd > length b) ErrSSTable
         (bindR (slice b (unat (bm_offset m)) (unat blockEnd)) (\<lambda>block. decodeBlock block m))))"

definition ParseSSTable :: "bytes \<Rightarrow> entry list res" where
  "ParseSSTable b =
     guardR (length b < 5 + 4) ErrSSTable
       (bindR (slice b 0 4) (\<lambda>mg.
        guardR (mg \<noteq> sst_magic) ErrSSTable
          (bindR (index_at b 4) (\<lambda>ver.
           guardR (ver \<noteq> 0) ErrSSTable
             (bindR (le32_at b (length b - 4)) (\<lambda>metaOffset.
              guardR (unat metaOffset < 5 \<or> unat metaOffset > length b - 4) ErrSSTable
                (bindR (slice b (unat metaOffset) (length b - 4)) (\<lambda>meta.
                 bindR (decodeMeta meta) (\<lambda>metas.
                 bindR (collectR [0..<length metas] (table_block b metaOffset metas)) (\<lambda>ess.
                   Inr (concat ess)))))))))))"

section \<open>Safety\<close>

lemma read_meta_okR: "okR (\<lambda>(m, q). p < q \<and> q \<le> length body) (read_meta body p)"
proof (cases "p + 6 \<le> length body")
  case True
  then show ?thesis
    unfolding read_meta_def Let_def by (auto intro!: okR_intros)
qed (simp add: read_meta_def)

lemma read_metas_okR: "okR (\<lambda>ms. length ms = n) (read_metas n body p)"
proof (induction n arbitrary: p)
  case (Suc n)
  then show ?case
    by (auto intro!: okR_bindR [OF read_meta_okR] okR_bindR [OF Suc.IH])
qed simp

lemma decodeMeta_okR: "okR (\<lambda>ms. 7 * length ms \<le> length meta) (decodeMeta meta)"
proof (cases "length meta < 8")
  case False
  have "okR (\<lambda>ms. 7 * length ms \<le> length meta) (read_metas n body 0)"
    if "\<not> n > length meta div 7" for n body
    using that by (intro okR_mono [OF read_metas_okR]) linarith
  then show ?thesis
    unfolding decodeMeta_def using False by (auto intro!: okR_guardR okR_bindR)
qed (simp add: decodeMeta_def)

lemma entry_key_okR:
  assumes "start \<le> stop" and "stop \<le> length kv"
  shows "okR (\<lambda>(k, v). start \<le> v \<and> v \<le> stop) (entry_key m kv i start stop)"
proof (cases "start + 3 \<le> stop")
  case True
  then show ?thesis
    unfolding entry_key_def Let_def using assms by (auto simp: slice_def intro!: okR_guardR)
qed (use assms in \<open>simp add: entry_key_def\<close>)

lemma entry_at_okR:
  assumes "i < length offs"
  shows "okR (\<lambda>_. True) (entry_at m kv offs dataEnd i)"
  unfolding entry_at_def Let_def using assms
  by (auto intro!: okR_guardR okR_bindR [OF entry_key_okR])

lemma block_entries_okR: "okR (\<lambda>_. True) (block_entries data m)"
proof (cases "2 \<le> length data")
  case True
  have ok: "okR (\<lambda>_. True) (let dataEnd = length data - 2 * (n + 1) in
      bindR (collectR [0..<n] (\<lambda>i. bindR (le16_at data (dataEnd + 2 * i)) (\<lambda>off. Inr (unat off))))
        (\<lambda>offs. bindR (slice data 0 dataEnd) (\<lambda>kv. collectR [0..<n] (entry_at m kv offs dataEnd))))"
    if "\<not> length data < 2 * (n + 1)" for n
  proof -
    let ?e = "length data - 2 * (n + 1)"
    have "okR (\<lambda>offs. length offs = length [0..<n] \<and> (\<forall>v\<in>set offs. True))
      (collectR [0..<n] (\<lambda>i. bindR (le16_at data (?e + 2 * i)) (\<lambda>off. Inr (unat off))))"
      using that by (intro collectR_okR) auto
    then show ?thesis
      unfolding Let_def
      by (auto intro!: okR_bindR okR_mono [OF collectR_okR [OF entry_at_okR]])
  qed
  show ?thesis
    unfolding block_entries_def Let_def [of "2 * _"]
    using True ok by (auto simp: Let_def intro!: okR_guardR)
qed (simp add: block_entries_def)

lemma decodeBlock_okR: "okR (\<lambda>_. True) (decodeBlock block m)"
proof (cases "4 \<le> length block")
  case True
  have "okR (\<lambda>_. True) (if bm_compression m = 0 then Inr data
      else if bm_compression m = 1 then DecompressFrame data else Inl ErrSSTable)" for data
    using okR_mono [OF DecompressFrame_okR] by auto
  with True show ?thesis
    unfolding decodeBlock_def
    by (auto intro!: okR_guardR okR_bindR block_entries_okR)
qed (simp add: decodeBlock_def)

lemma table_block_okR: "i < length metas \<Longrightarrow> okR (\<lambda>_. True) (table_block b metaOffset metas i)"
  unfolding table_block_def
  by (auto intro!: okR_guardR okR_if decodeBlock_okR okR_bindR)

lemma ParseSSTable_okR: "okR (\<lambda>_. True) (ParseSSTable b)"
proof (cases "9 \<le> length b")
  case True
  then show ?thesis
    unfolding ParseSSTable_def
    by (auto intro!: okR_guardR okR_bindR [OF decodeMeta_okR]
        okR_bindR [OF collectR_okR [OF table_block_okR]])
qed (simp add: ParseSSTable_def)

section \<open>The format, for uncompressed blocks\<close>

text \<open>
  A block holds one large value, or a first entry, further entries given by the length of
  the prefix they share with the first key, their suffix and their value, and the last key
  (which the reader skips).
\<close>

datatype kv_block =
    LargeBlock bytes bytes
  | SmallBlock bytes bytes "(nat \<times> bytes \<times> bytes) list" bytes

fun block_chunks :: "bytes \<Rightarrow> (nat \<times> bytes \<times> bytes) list \<Rightarrow> bytes list" where
  "block_chunks v rest =
     v # map (\<lambda>(p, s, v). of_nat p # le_put 2 (of_nat (length s) :: u16) @ s @ v) rest"

fun put_data :: "kv_block \<Rightarrow> bytes" where
  "put_data (LargeBlock k v) = v"
| "put_data (SmallBlock k v rest lk) =
     (let cs = block_chunks v rest in
      concat cs @ concat (map (\<lambda>i. le_put 2 (of_nat (chunk_off cs i) :: u16)) [0..<length cs]) @
      le_put 2 (of_nat (length cs) :: u16))"

definition put_kv_block :: "kv_block \<Rightarrow> bytes" where
  "put_kv_block blk = put_data blk @ le_put 4 (xxh32 (put_data blk) Seed)"

fun put_meta :: "nat \<times> kv_block \<Rightarrow> bytes" where
  "put_meta (off, LargeBlock k v) =
     le_put 4 (of_nat off :: u32) @ le_put 2 (of_nat (length k) :: u16) @ k @ [0x80]"
| "put_meta (off, SmallBlock k v rest lk) =
     le_put 4 (of_nat off :: u32) @ le_put 2 (of_nat (length k) :: u16) @ k @ [0] @
     le_put 2 (of_nat (length lk) :: u16) @ lk"

definition table_chunks :: "kv_block list \<Rightarrow> bytes list" where
  "table_chunks blks = map put_kv_block blks"

definition put_metas :: "kv_block list \<Rightarrow> bytes" where
  "put_metas blks =
     concat (map put_meta (map (\<lambda>i. (5 + chunk_off (table_chunks blks) i, blks ! i)) [0..<length blks]))"

definition put_table :: "kv_block list \<Rightarrow> bytes" where
  "put_table blks =
     (sst_magic @ [0]) @ concat (table_chunks blks) @
     (le_put 4 (of_nat (length blks) :: u32) @ put_metas blks @
      le_put 4 (xxh32 (put_metas blks) Seed)) @
     le_put 4 (of_nat (5 + length (concat (table_chunks blks))) :: u32)"

fun block_meaning :: "kv_block \<Rightarrow> entry list" where
  "block_meaning (LargeBlock k v) = [\<lparr>e_Key = k, e_Value = v\<rparr>]"
| "block_meaning (SmallBlock k v rest lk) =
     \<lparr>e_Key = k, e_Value = v\<rparr> # map (\<lambda>(p, s, v). \<lparr>e_Key = take p k @ s, e_Value = v\<rparr>) rest"

fun block_ok :: "kv_block \<Rightarrow> bool" where
  "block_ok (LargeBlock k v) \<longleftrightarrow> length k < 2 ^ 16"
| "block_ok (SmallBlock k v rest lk) \<longleftrightarrow>
     length k < 2 ^ 16 \<and> length lk < 2 ^ 16 \<and> length (block_chunks v rest) < 2 ^ 16 \<and>
     length (concat (block_chunks v rest)) < 2 ^ 16 \<and>
     list_all (\<lambda>(p, s, v). p < 2 ^ 8 \<and> p \<le> length k \<and> length s < 2 ^ 16) rest"

definition table_ok :: "kv_block list \<Rightarrow> bool" where
  "table_ok blks \<longleftrightarrow> list_all block_ok blks \<and> 5 + length (concat (table_chunks blks)) < 2 ^ 32"

fun meta_of :: "nat \<times> kv_block \<Rightarrow> blockMeta" where
  "meta_of (off, LargeBlock k v) =
     \<lparr>bm_offset = of_nat off, bm_firstKey = k, bm_isLarge = True, bm_compression = 0\<rparr>"
| "meta_of (off, SmallBlock k v rest lk) =
     \<lparr>bm_offset = of_nat off, bm_firstKey = k, bm_isLarge = False, bm_compression = 0\<rparr>"

lemma le_put2_small: "n < 2 ^ 16 \<Longrightarrow> unat (of_nat n :: u16) = n"
  and le_put4_small: "n < 2 ^ 32 \<Longrightarrow> unat (of_nat n :: u32) = n"
  by (subst unat_of_nat_fits, simp_all)+

subsection \<open>The block index\<close>

lemma read_meta_start:
  assumes at: "at_pos body p (le_put 4 off @ le_put 2 (of_nat (length k) :: u16) @ k @ flag # rest)"
    and k: "length k < 2 ^ 16"
  shows "read_meta body p =
      (let q = p + 7 + length k;
           m = \<lparr>bm_offset = off, bm_firstKey = k, bm_isLarge = (flag AND 0x80 \<noteq> 0),
                bm_compression = flag AND 0x7f\<rparr>
       in if \<not> bm_isLarge m then
            guardR (q + 2 > length body) ErrSSTable
              (bindR (le16_at body q) (\<lambda>lk.
                 let q = q + (2 + unat lk) in guardR (q > length body) ErrSSTable (Inr (m, q))))
          else Inr (m, q))"
    and "at_pos body (p + 7 + length k) rest"
proof -
  have a1: "at_pos body (p + 4) (le_put 2 (of_nat (length k) :: u16) @ k @ flag # rest)"
    using at_pos_append [OF at] by simp
  have a2: "at_pos body (p + 4 + 2) (k @ flag # rest)"
    using at_pos_append [OF a1] by simp
  have a3: "at_pos body (p + 4 + 2 + length k) (flag # rest)"
    using at_pos_append [OF a2] by simp
  have g: "\<not> length body < p + 4 + 2" "\<not> length body < p + 7 + length k"
    and q: "p + 4 + 2 + length k + 1 = p + 7 + length k"
    using at_pos_length [OF at] by simp_all
  show "read_meta body p =
      (let q = p + 7 + length k;
           m = \<lparr>bm_offset = off, bm_firstKey = k, bm_isLarge = (flag AND 0x80 \<noteq> 0),
                bm_compression = flag AND 0x7f\<rparr>
       in if \<not> bm_isLarge m then
            guardR (q + 2 > length body) ErrSSTable
              (bindR (le16_at body q) (\<lambda>lk.
                 let q = q + (2 + unat lk) in guardR (q > length body) ErrSSTable (Inr (m, q))))
          else Inr (m, q))"
    unfolding read_meta_def Let_def
    by (simp only: g at_pos_le32 [OF at] at_pos_le16 [OF a1] at_pos_slice [OF a2]
        at_pos_index [OF a3] le_put2_small [OF k] guardR_simps bindR_simps q)
  show "at_pos body (p + 7 + length k) rest"
    using at_pos_Cons [OF a3] by (simp add: eval_nat_numeral)
qed

lemma read_meta_reads:
  assumes at: "at_pos body p (put_meta (off, blk) @ ys)" and ok: "block_ok blk"
  shows "read_meta body p = Inr (meta_of (off, blk), p + length (put_meta (off, blk)))"
proof (cases blk)
  case (LargeBlock k v)
  have a: "at_pos body p (le_put 4 (of_nat off :: u32) @ le_put 2 (of_nat (length k) :: u16) @ k @ 0x80 # ys)"
    using at by (simp add: LargeBlock)
  show ?thesis
    using read_meta_start(1) [OF a] ok by (simp add: LargeBlock Let_def)
next
  case (SmallBlock k v rest lk)
  have a: "at_pos body p (le_put 4 (of_nat off :: u32) @ le_put 2 (of_nat (length k) :: u16) @ k @ 0 #
      le_put 2 (of_nat (length lk) :: u16) @ lk @ ys)"
    using at by (simp add: SmallBlock)
  have k: "length k < 2 ^ 16" and lk: "length lk < 2 ^ 16" using ok by (simp_all add: SmallBlock)
  note b = read_meta_start(2) [OF a k]
  show ?thesis
    using at_pos_length [OF b]
    by (simp add: SmallBlock Let_def read_meta_start(1) [OF a k] at_pos_le16 [OF b]
        le_put2_small [OF lk] del: le16_at_simps)
qed

lemma read_metas_reads:
  "at_pos body p (concat (map put_meta obs) @ ys) \<Longrightarrow> list_all (\<lambda>(off, blk). block_ok blk) obs \<Longrightarrow>
    read_metas (length obs) body p = Inr (map meta_of obs)"
proof (induction obs arbitrary: p)
  case (Cons ob obs)
  obtain off blk where ob: "ob = (off, blk)" by (cases ob)
  have a: "at_pos body p (put_meta (off, blk) @ concat (map put_meta obs) @ ys)"
    using Cons.prems(1) by (simp add: ob)
  have "block_ok blk" using Cons.prems(2) by (simp add: ob)
  from read_meta_reads [OF a this] Cons.IH [OF at_pos_append [OF a]] Cons.prems(2)
  show ?case by (simp add: ob)
qed simp

lemma put_meta_length: "7 \<le> length (put_meta ob)"
  by (cases ob rule: put_meta.cases) auto

lemma put_metas_length: "7 * length obs \<le> length (concat (map put_meta obs))"
proof (induction obs)
  case (Cons ob obs)
  then show ?case using put_meta_length [of ob] by simp
qed simp

lemma decodeMeta_reads:
  assumes "list_all (\<lambda>(off, blk). block_ok blk) obs" and "length obs < 2 ^ 32"
  shows "decodeMeta (le_put 4 (of_nat (length obs) :: u32) @ concat (map put_meta obs) @
      le_put 4 (xxh32 (concat (map put_meta obs)) Seed)) = Inr (map meta_of obs)"
proof -
  let ?body = "concat (map put_meta obs)"
  let ?meta = "le_put 4 (of_nat (length obs) :: u32) @ ?body @ le_put 4 (xxh32 ?body Seed)"
  have a0: "at_pos ?meta 0 ?meta" by simp
  have a1: "at_pos ?meta 4 (?body @ le_put 4 (xxh32 ?body Seed) @ [])"
    using at_pos_append [OF a0] by simp
  have a2: "at_pos ?meta (4 + length ?body) (le_put 4 (xxh32 ?body Seed) @ [])"
    using at_pos_append [OF a1] by simp
  have num: "unat (of_nat (length obs) :: u32) = length obs"
    using assms(2) by (rule le_put4_small)
  have few: "\<not> length ?meta div 7 < length obs"
    using put_metas_length [of obs] by simp
  have e: "length ?meta - 4 = 4 + length ?body" by simp
  have "read_metas (length obs) ?body 0 = Inr (map meta_of obs)"
    using assms(1) by (intro read_metas_reads [where ys = "[]"]) simp_all
  then show ?thesis
    using few unfolding decodeMeta_def e
    by (simp add: at_pos_le32 [OF a0] at_pos_slice [OF a1] at_pos_le32 [OF a2] num
        del: le32_at_simps slice_simps)
qed

subsection \<open>The entries of a block\<close>

lemma concat_le16_chunks:
  "length (concat (map (\<lambda>i. le_put 2 (f i :: u16)) is)) = 2 * length is"
  by (induction "is") simp_all

lemma block_offsets:
  assumes "i < n"
  shows "le16_at (pre @ concat (map (\<lambda>i. le_put 2 (f i :: u16)) [0..<n]) @ post) (length pre + 2 * i) =
    Inr (f i)"
proof -
  let ?cs = "map (\<lambda>i. le_put 2 (f i :: u16)) [0..<n]"
  have off: "chunk_off ?cs i = 2 * i"
    using assms by (simp add: chunk_off_def take_map concat_le16_chunks)
  have "at_pos (pre @ concat ?cs @ post) (length pre + 2 * i)
      (le_put 2 (f i) @ concat (drop (Suc i) ?cs) @ post)"
    using at_pos_chunk [of i ?cs pre post] assms unfolding off by simp
  then show ?thesis by (rule at_pos_le16)
qed

text \<open>What the entry at index \<open>i\<close> is read as, given the chunk at its offset.\<close>

lemma entry_key_first: "entry_key m kv 0 start stop = Inr (bm_firstKey m, start)"
  by (simp add: entry_key_def)

lemma entry_key_rest:
  assumes at: "at_pos kv start (of_nat p # le_put 2 (of_nat (length s) :: u16) @ s @ v @ ys)"
    and p: "p < 2 ^ 8" "p \<le> length (bm_firstKey m)" and s: "length s < 2 ^ 16" and i: "0 < i"
    and stop: "stop = start + 3 + length s + length v"
  shows "entry_key m kv i start stop = Inr (take p (bm_firstKey m) @ s, start + 3 + length s)"
    and "at_pos kv (start + 3 + length s) (v @ ys)"
proof -
  have a1: "at_pos kv (start + 1) (le_put 2 (of_nat (length s) :: u16) @ s @ v @ ys)"
    using at_pos_Cons [OF at] by simp
  have a2: "at_pos kv (start + 3) (s @ v @ ys)"
    using at_pos_append [OF a1] by (simp add: eval_nat_numeral)
  have u: "unat (of_nat p :: byte) = p" using p(1) by (subst unat_of_nat_fits) simp_all
  have g: "\<not> stop < start + 3" "\<not> (stop < start + 3 + length s \<or> length (bm_firstKey m) < p)"
    "i \<noteq> 0"
    using stop p i by simp_all
  have pre: "slice (bm_firstKey m) 0 p = Inr (take p (bm_firstKey m))"
    using p(2) by simp
  show "entry_key m kv i start stop = Inr (take p (bm_firstKey m) @ s, start + 3 + length s)"
    unfolding entry_key_def Let_def
    by (simp only: g at_pos_index [OF at] at_pos_le16 [OF a1] at_pos_slice [OF a2] u
        le_put2_small [OF s] pre guardR_simps bindR_simps if_False)
  show "at_pos kv (start + 3 + length s) (v @ ys)"
    by (rule at_pos_append [OF a2])
qed

lemma block_entries_reads:
  assumes ok: "block_ok (SmallBlock k v rest lk)" and m: "bm_firstKey m = k"
  shows "block_entries (put_data (SmallBlock k v rest lk)) m = Inr (block_meaning (SmallBlock k v rest lk))"
proof -
  define cs where "cs = block_chunks v rest"
  define n where "n = length cs"
  define data where "data = put_data (SmallBlock k v rest lk)"
  let ?f = "\<lambda>i. of_nat (chunk_off cs i) :: u16"
  have n: "n = Suc (length rest)" "n < 2 ^ 16" and small: "length (concat cs) < 2 ^ 16"
    using ok by (simp_all add: n_def cs_def)
  have data: "data = concat cs @ concat (map (\<lambda>i. le_put 2 (?f i)) [0..<n]) @ le_put 2 (of_nat n :: u16)"
    by (simp add: data_def cs_def n_def Let_def)
  have len: "length data = length (concat cs) + 2 * n + 2"
    by (simp only: data length_append concat_le16_chunks length_le_put) simp
  have count: "le16_at data (length data - 2) = Inr (of_nat n)"
  proof -
    have "at_pos data 0 ((concat cs @ concat (map (\<lambda>i. le_put 2 (?f i)) [0..<n])) @ le_put 2 (of_nat n :: u16) @ [])"
      by (simp add: data)
    from at_pos_append [OF this]
    have "at_pos data (length data - 2) (le_put 2 (of_nat n :: u16) @ [])"
      by (simp add: len concat_le16_chunks)
    then show ?thesis by (rule at_pos_le16)
  qed
  have dataEnd: "length data - 2 * (n + 1) = length (concat cs)" by (simp add: len)
  define offs where "offs = map (chunk_off cs) [0..<n]"
  have offs: "collectR [0..<n] (\<lambda>i. bindR (le16_at data (length (concat cs) + 2 * i)) (\<lambda>off. Inr (unat off))) =
      Inr offs"
  proof -
    have "unat (?f i) = chunk_off cs i" for i
      using le_put2_small [of "chunk_off cs i"] chunk_off_le [of cs i] small by linarith
    then show ?thesis
      unfolding offs_def by (intro collectR_Inr) (simp add: data block_offsets)
  qed
  have kv: "slice data 0 (length (concat cs)) = Inr (concat cs)"
    by (simp add: data)
  have ents: "entry_at m (concat cs) offs (length (concat cs)) i = Inr (block_meaning (SmallBlock k v rest lk) ! i)"
    if i: "i < n" for i
  proof -
    let ?stop = "chunk_off cs (Suc i)"
    have start: "index_at offs i = Inr (chunk_off cs i)" using i by (simp add: offs_def)
    have stop: "(if i + 1 < length offs then index_at offs (i + 1) else Inr (length (concat cs))) = Inr ?stop"
      using i by (auto simp: offs_def n_def chunk_off_all not_less)
    have le: "\<not> (chunk_off cs i > ?stop \<or> ?stop > length (concat cs))"
      using chunk_off_Suc [of i cs] chunk_off_le [of cs "Suc i"] i by (simp add: n_def)
    have at: "at_pos (concat cs) (chunk_off cs i) (cs ! i @ concat (drop (Suc i) cs))"
      using at_pos_chunk [of i cs "[]" "[]"] i by (simp add: n_def)
    have sz: "?stop = chunk_off cs i + length (cs ! i)"
      using i by (simp add: chunk_off_Suc n_def)
    show ?thesis
    proof (cases i)
      case 0
      then have "cs ! i = v" by (simp add: cs_def)
      then have "slice (concat cs) (chunk_off cs i) ?stop = Inr v"
        using at_pos_slice [OF at] sz by simp
      then show ?thesis
        unfolding entry_at_def start stop bindR_simps
        using le 0 m by (simp add: entry_key_first)
    next
      case (Suc j)
      obtain p s w where r: "rest ! j = (p, s, w)" by (cases "rest ! j")
      have j: "j < length rest" using i Suc n by simp
      have chunk: "cs ! i = of_nat p # le_put 2 (of_nat (length s) :: u16) @ s @ w"
        using j by (simp add: cs_def Suc r)
      have ps: "p < 2 ^ 8" "p \<le> length (bm_firstKey m)" "length s < 2 ^ 16"
        using ok j r m by (auto simp: list_all_length)
      have at': "at_pos (concat cs) (chunk_off cs i)
          (of_nat p # le_put 2 (of_nat (length s) :: u16) @ s @ w @ concat (drop (Suc i) cs))"
        using at by (simp add: chunk)
      have st: "?stop = chunk_off cs i + 3 + length s + length w" by (simp add: sz chunk)
      note key = entry_key_rest [OF at' ps(1,2,3) _ st, of i]
      have i0: "0 < i" by (simp add: Suc)
      have "slice (concat cs) (chunk_off cs i + 3 + length s) ?stop = Inr w"
        using at_pos_slice [OF key(2) [OF i0]] by (simp only: st)
      then show ?thesis
        unfolding entry_at_def start stop bindR_simps
        using le key(1) [OF i0] m j by (simp add: Suc r)
    qed
  qed
  have "map (\<lambda>i. block_meaning (SmallBlock k v rest lk) ! i) [0..<n] = block_meaning (SmallBlock k v rest lk)"
    using map_nth [of "block_meaning (SmallBlock k v rest lk)"] by (simp add: n del: upt_Suc)
  moreover have "collectR [0..<n] (entry_at m (concat cs) offs (length (concat cs))) =
      Inr (map (\<lambda>i. block_meaning (SmallBlock k v rest lk) ! i) [0..<n])"
    by (rule collectR_Inr) (simp add: ents)
  moreover have "\<not> length data < 2" "n \<noteq> 0" "\<not> length data < 2 * (n + 1)" by (simp_all add: len n)
  ultimately show ?thesis
    unfolding block_entries_def data_def [symmetric] Let_def
    by (simp only: guardR_simps bindR_simps count le_put2_small [OF n(2)] dataEnd offs kv)
qed

lemma decodeBlock_reads:
  assumes "block_ok blk"
  shows "decodeBlock (put_kv_block blk) (meta_of (off, blk)) = Inr (block_meaning blk)"
proof -
  let ?d = "put_data blk"
  have a0: "at_pos (put_kv_block blk) 0 (?d @ le_put 4 (xxh32 ?d Seed) @ [])"
    by (simp add: put_kv_block_def)
  have e: "length (put_kv_block blk) - 4 = 0 + length ?d" by (simp add: put_kv_block_def)
  have g: "\<not> length (put_kv_block blk) < 4" by (simp add: put_kv_block_def)
  note a1 = at_pos_append [OF a0]
  have c: "bm_compression (meta_of (off, blk)) = 0" by (cases blk) simp_all
  have "(if bm_isLarge (meta_of (off, blk))
      then Inr [\<lparr>e_Key = bm_firstKey (meta_of (off, blk)), e_Value = ?d\<rparr>]
      else block_entries ?d (meta_of (off, blk))) = Inr (block_meaning blk)"
  proof (cases blk)
    case (SmallBlock k v rest lk)
    then show ?thesis
      using block_entries_reads [of k v rest lk "meta_of (off, blk)"] assms by simp
  qed simp
  then show ?thesis
    unfolding decodeBlock_def e
    by (simp only: g at_pos_slice [OF a0] at_pos_le32 [OF a1] Checksum_eq c guardR_simps bindR_simps
        simp_thms if_True)
qed

lemma length_concat_map_pos:
  "(\<And>x. 0 < length (f x)) \<Longrightarrow> length xs \<le> length (concat (map f xs))"
proof (induction xs)
  case (Cons x xs)
  then have "0 < length (f x)" and "length xs \<le> length (concat (map f xs))" by blast+
  then show ?case by (simp only: list.map concat.simps length_append list.size)
qed simp

text \<open>The reader returns the entries of every table that the format can hold.\<close>

lemma ParseSSTable_reads:
  assumes ok: "table_ok blks"
  shows "ParseSSTable (put_table blks) = Inr (concat (map block_meaning blks))"
proof -
  define cs where "cs = table_chunks blks"
  define n where "n = length blks"
  define obs where "obs = map (\<lambda>i. (5 + chunk_off cs i, blks ! i)) [0..<n]"
  define meta where "meta = le_put 4 (of_nat n :: u32) @ put_metas blks @ le_put 4 (xxh32 (put_metas blks) Seed)"
  define mo where "mo = 5 + length (concat cs)"
  define b where "b = put_table blks"
  have b: "b = (sst_magic @ [0]) @ concat cs @ meta @ le_put 4 (of_nat mo :: u32)"
    by (simp only: b_def put_table_def cs_def meta_def mo_def n_def append_assoc)
  have ncs: "length cs = n" by (simp add: cs_def table_chunks_def n_def)
  have mo: "mo < 2 ^ 32" using ok by (simp add: table_ok_def mo_def cs_def)
  have mg: "length (sst_magic @ [0]) = 5" by (simp add: sst_magic_def)
  have lb: "length b = mo + length meta + 4" by (simp add: b mo_def sst_magic_def)
  have lm: "8 \<le> length meta" by (simp add: meta_def)
  have a0: "at_pos b 0 (sst_magic @ 0 # concat cs @ meta @ le_put 4 (of_nat mo :: u32) @ [])"
    by (simp add: b)
  have a4: "at_pos b (0 + length sst_magic) (0 # concat cs @ meta @ le_put 4 (of_nat mo :: u32) @ [])"
    using at_pos_append [OF a0] .
  have l4: "0 + length sst_magic = 4" by (simp add: sst_magic_def)
  have a5: "at_pos b 5 (concat cs @ meta @ le_put 4 (of_nat mo :: u32) @ [])"
    using at_pos_Cons [OF a4] by (simp add: l4 [simplified] eval_nat_numeral)
  have am: "at_pos b mo (meta @ le_put 4 (of_nat mo :: u32) @ [])"
    using at_pos_append [OF a5] by (simp add: mo_def)
  have ae: "at_pos b (mo + length meta) (le_put 4 (of_nat mo :: u32) @ [])"
    by (rule at_pos_append [OF am])
  have le: "length b - 4 = mo + length meta" by (simp add: lb)
  have "n \<le> length (concat cs)"
  proof -
    have "length bs \<le> length (concat (map put_kv_block bs))" for bs
      by (rule length_concat_map_pos) (simp only: put_kv_block_def length_append, simp)
    then have "length cs \<le> length (concat cs)" by (simp add: cs_def table_chunks_def)
    then show ?thesis by (simp add: ncs)
  qed
  then have n32: "n < 2 ^ 32" using mo by (simp add: mo_def)
  have obs: "length obs = n" by (simp add: obs_def)
  have "put_metas blks = concat (map put_meta obs)"
    by (simp only: put_metas_def obs_def cs_def n_def)
  moreover have "list_all (\<lambda>(off, blk). block_ok blk) obs"
    using ok by (auto simp: obs_def table_ok_def list_all_iff n_def)
  ultimately have metas: "decodeMeta meta = Inr (map meta_of obs)"
    using decodeMeta_reads [of obs] n32 obs by (simp add: meta_def)
  have blocks: "collectR [0..<length (map meta_of obs)] (table_block b (of_nat mo) (map meta_of obs)) =
      Inr (map (\<lambda>i. block_meaning (blks ! i)) [0..<n])"
    unfolding length_map obs
  proof (rule collectR_Inr)
    fix i
    assume "i \<in> set [0..<n]"
    then have i: "i < n" by simp
    have off: "bm_offset (meta_of (off, blk)) = of_nat off" for off blk by (cases blk) simp_all
    have mi: "index_at (map meta_of obs) i = Inr (meta_of (5 + chunk_off cs i, blks ! i))"
      using i by (simp add: obs_def)
    have stop: "(if i + 1 < n then bindR (index_at (map meta_of obs) (i + 1)) (\<lambda>m'. Inr (bm_offset m'))
        else Inr (of_nat mo)) = Inr (of_nat (5 + chunk_off cs (Suc i)))"
      using i by (auto simp: obs_def off mo_def chunk_off_all ncs not_less)
    have "chunk_off cs (Suc i) \<le> length (concat cs)" and "chunk_off cs i \<le> length (concat cs)"
      by (rule chunk_off_le)+
    then have u: "unat (of_nat (5 + chunk_off cs i) :: u32) = 5 + chunk_off cs i"
      "unat (of_nat (5 + chunk_off cs (Suc i)) :: u32) = 5 + chunk_off cs (Suc i)"
      using mo by (intro le_put4_small; simp add: mo_def)+
    have c: "cs ! i = put_kv_block (blks ! i)"
      using i by (simp add: cs_def table_chunks_def n_def)
    have sz: "chunk_off cs (Suc i) = chunk_off cs i + length (put_kv_block (blks ! i))"
      using i by (simp add: chunk_off_Suc ncs c)
    have g: "\<not> (5 + chunk_off cs i > 5 + chunk_off cs (Suc i) \<or> 5 + chunk_off cs (Suc i) > length b)"
      using chunk_off_le [of cs "Suc i"] sz by (simp add: lb mo_def)
    have "at_pos b (5 + chunk_off cs i) (put_kv_block (blks ! i) @ concat (drop (Suc i) cs) @ meta @ le_put 4 (of_nat mo :: u32))"
      using at_pos_chunk [of i cs "sst_magic @ [0]"] i unfolding b mg c [symmetric] ncs by blast
    from at_pos_slice [OF this]
    have sl: "slice b (5 + chunk_off cs i) (5 + chunk_off cs (Suc i)) = Inr (put_kv_block (blks ! i))"
      by (simp only: sz add.assoc)
    have "block_ok (blks ! i)" using ok i by (simp add: table_ok_def list_all_length n_def)
    from decodeBlock_reads [OF this]
    show "table_block b (of_nat mo) (map meta_of obs) i = Inr (block_meaning (blks ! i))"
      unfolding table_block_def length_map obs
      by (simp only: mi stop off u g sl bindR_simps guardR_simps)
  qed
  have g: "\<not> length b < 5 + 4" "\<not> (mo < 5 \<or> mo > mo + length meta)"
    using lm by (simp_all add: lb mo_def)
  have m4: "slice b 0 4 = Inr sst_magic" and i4: "index_at b 4 = Inr 0"
    using at_pos_slice [OF a0] at_pos_index [OF a4] unfolding l4 by simp_all
  have "map (\<lambda>i. block_meaning (blks ! i)) [0..<n] = map block_meaning blks"
    by (rule nth_equalityI) (simp_all add: n_def)
  then show ?thesis
    unfolding ParseSSTable_def b_def [symmetric] le
    by (simp only: g m4 i4 at_pos_le32 [OF ae] le_put4_small [OF mo] at_pos_slice [OF am] metas blocks
        simp_thms bindR_simps guardR_simps)
qed

section \<open>Properties\<close>

text \<open>C26: \<open>ParseSSTable\<close> returns, in order, the entries of every uncompressed table the format can
  hold: large values, and blocks whose keys share a prefix with the block's first key.\<close>

theorem sstable_round_trip:
  assumes "table_ok blks"
  shows "ParseSSTable (put_table blks) = Inr (concat (map block_meaning blks))"
  using assms by (rule ParseSSTable_reads)

theorem sstable_round_trip_witness:
  "ParseSSTable (put_table [SmallBlock [1, 2] [7] [(1, [5], [8, 8])] [1, 5], LargeBlock [3] [9]]) =
    Inr [\<lparr>e_Key = [1, 2], e_Value = [7]\<rparr>, \<lparr>e_Key = [1, 5], e_Value = [8, 8]\<rparr>,
      \<lparr>e_Key = [3], e_Value = [9]\<rparr>]"
proof -
  have "table_ok [SmallBlock [1, 2] [7] [(1, [5], [8, 8])] [1, 5], LargeBlock [3] [9]]"
    by (simp add: table_ok_def table_chunks_def put_kv_block_def Let_def concat_le16_chunks)
  from sstable_round_trip [OF this] show ?thesis by simp
qed

text \<open>C30: \<open>ParseSSTable\<close> on any bytes, compressed blocks included, fails with an error or returns
  entries; no index or slice is out of range and no loop runs on.\<close>

theorem sstable_never_panics: "ParseSSTable b \<noteq> Inl GoPanic \<and> ParseSSTable b \<noteq> Inl OutOfFuel"
  using ParseSSTable_okR [of b] by auto

end
