(* ===== verification/SeqState.thy ===== *)
theory SeqState
  imports OpRanges
begin

text \<open>
  One container's merged sequence (\<open>loro/seqmerge.go\<close>): a Text, List or MovableList in document
  order, deleted elements included, and the operations that merge an op into it. Go's node and
  element pointers are addresses of a store, natural numbers below the next free one. The
  counters kept for tests (\<open>total\<close>, \<open>movSteps\<close>) and the user view of a MovableList (\<open>movIx\<close>), which
  nothing here reads, are left out. An error leaves no state: the merge that met it is given up.
\<close>

section \<open>Steps\<close>

definition seqWorkLimit :: int where "seqWorkLimit = 2 ^ 28"

record seqWork =
  sw_steps :: int
  sw_limit :: int
  sw_strict :: bool

abbreviation workLimit :: err where "workLimit \<equiv> Errorf ''steps''"
abbreviation viewError :: err where "viewError \<equiv> Errorf ''view''"
abbreviation beyondView :: err where "beyondView \<equiv> Errorf ''beyond''"

definition spend :: "int \<Rightarrow> seqWork \<Rightarrow> seqWork res" where
  "spend n w =
     (let w = w\<lparr>sw_steps := sw_steps w + n\<rparr> in
      if sw_steps w > sw_limit w then Inl workLimit else Inr w)"

lemma spend_strict: "spend n w = Inr w' \<Longrightarrow> sw_strict w' = sw_strict w"
  by (auto simp: spend_def Let_def split: if_splits)

section \<open>Views\<close>

text \<open>A version, \<open>map[uint64]int64\<close>: peer to the end of the counters seen, 0 when absent.\<close>

type_synonym version = "(u64 \<times> i64) list"

definition vv_at :: "version \<Rightarrow> u64 \<Rightarrow> i64" where
  "vv_at v p = (case gm_get v p of None \<Rightarrow> 0 | Some c \<Rightarrow> c)"

record pastView =
  pv_vv :: version
  pv_peer :: u64
  pv_own :: i64

definition pv_has :: "pastView \<Rightarrow> u64 \<Rightarrow> i64 \<Rightarrow> bool" where
  "pv_has p peer counter \<longleftrightarrow>
     peer = pv_peer p \<and> sless counter (pv_own p) \<or> sless counter (vv_at (pv_vv p) peer)"

section \<open>Nodes, elements and the state\<close>

record writer =
  wr_lamport :: i64
  wr_peer :: u64

definition writer_after :: "writer \<Rightarrow> writer \<Rightarrow> bool" where
  "writer_after a b \<longleftrightarrow>
     (if wr_lamport a \<noteq> wr_lamport b then sless (wr_lamport b) (wr_lamport a) else wr_peer b < wr_peer a)"

datatype seqval = SNil | SStr gostring | SItem lval | SMarkStart MarkInfo writer | SMarkEnd

record seqNode =
  sn_peer :: u64
  sn_counter :: i64
  sn_left :: "nat option"
  sn_right :: "nat option"
  sn_value :: seqval
  sn_anchor :: bool
  sn_deleters :: "ID list"
  sn_elem :: "nat option"

record movElem =
  me_key :: ListElem
  me_value :: lval
  me_valueWriter :: writer
  me_valueID :: ID
  me_valueSet :: bool
  me_pos :: nat
  me_posWriter :: writer

record seqCursor =
  cu_ok :: bool
  cu_idx :: nat
  cu_before :: int

record seqState =
  ss_heap :: "nat \<Rightarrow> seqNode"
  ss_next :: nat
  ss_nodes :: "nat list"
  ss_byID :: "ID \<Rightarrow> nat option"
  ss_byPeer :: "u64 \<Rightarrow> nat list"
  ss_live :: int
  ss_pendingEnd :: "ID \<Rightarrow> i64 option"
  ss_cursor :: seqCursor
  ss_elemHeap :: "nat \<Rightarrow> movElem"
  ss_elemNext :: nat
  ss_elems :: "ListElem \<Rightarrow> nat option"

text \<open>What the store holds where nothing has been allocated; never read.\<close>

definition no_node :: seqNode where
  "no_node = \<lparr>sn_peer = 0, sn_counter = 0, sn_left = None, sn_right = None, sn_value = SNil, sn_anchor = False,
     sn_deleters = [], sn_elem = None\<rparr>"

definition no_elem :: movElem where
  "no_elem = \<lparr>me_key = \<lparr>le_Peer = 0, le_Lamport = 0\<rparr>, me_value = LNull, me_valueWriter = \<lparr>wr_lamport = 0, wr_peer = 0\<rparr>,
     me_valueID = \<lparr>Peer = 0, Counter = 0\<rparr>, me_valueSet = False, me_pos = 0, me_posWriter = \<lparr>wr_lamport = 0, wr_peer = 0\<rparr>\<rparr>"

definition newSeqState :: seqState where
  "newSeqState = \<lparr>ss_heap = (\<lambda>_. no_node), ss_next = 0, ss_nodes = [], ss_byID = Map.empty, ss_byPeer = (\<lambda>_. []),
     ss_live = 0, ss_pendingEnd = Map.empty, ss_cursor = \<lparr>cu_ok = False, cu_idx = 0, cu_before = 0\<rparr>,
     ss_elemHeap = (\<lambda>_. no_elem), ss_elemNext = 0, ss_elems = Map.empty\<rparr>"

definition isSeqOp :: "Op \<Rightarrow> bool" where
  "isSeqOp op \<longleftrightarrow>
     (if op_Kind op = CText then op_VKind op \<in> {VKStr, VKMarkStart, VKNull, VKDeleteSeq}
      else if op_Kind op = CList then op_VKind op = VKLoroValue \<or> op_VKind op = VKDeleteSeq
      else op_Kind op = CMovableList \<and> op_VKind op \<in> {VKLoroValue, VKDeleteSeq, VKListMove, VKListSet})"

section \<open>Finding an element\<close>

definition removedIn :: "seqNode \<Rightarrow> pastView \<Rightarrow> bool" where
  "removedIn n past \<longleftrightarrow> list_ex (\<lambda>d. pv_has past (Peer d) (Counter d)) (sn_deleters n)"

abbreviation is_live :: "seqState \<Rightarrow> nat \<Rightarrow> bool" where
  "is_live s a \<equiv> sn_deleters (ss_heap s a) = []"

text \<open>\<open>past.has(n.peer, n.counter) && !removedIn(n, past)\<close>\<close>

definition in_past :: "pastView \<Rightarrow> seqNode \<Rightarrow> bool" where
  "in_past past n \<longleftrightarrow> pv_has past (sn_peer n) (sn_counter n) \<and> \<not> removedIn n past"

text \<open>The two loops of \<open>walkLive\<close>, with the steps taken.\<close>

function walk_right :: "seqState \<Rightarrow> nat \<Rightarrow> int \<Rightarrow> int \<Rightarrow> int \<Rightarrow> nat \<times> int" where
  "walk_right s i before want steps =
     (if i < length (ss_nodes s) then
        if is_live s (ss_nodes s ! i) then
          if before = want then (i, steps + 1) else walk_right s (i + 1) (before + 1) want (steps + 1)
        else walk_right s (i + 1) before want (steps + 1)
      else (length (ss_nodes s) - 1, steps))"
  by pat_completeness auto
termination by (relation "measure (\<lambda>(s, i, _). length (ss_nodes s) - i)") auto

declare walk_right.simps [simp del]

fun walk_left :: "seqState \<Rightarrow> nat \<Rightarrow> int \<Rightarrow> int \<Rightarrow> int \<Rightarrow> nat \<times> int" where
  "walk_left s 0 before want steps = (0, steps)"
| "walk_left s (Suc i) before want steps =
     (if is_live s (ss_nodes s ! i) then
        if before - 1 = want then (i, steps + 1) else walk_left s i (before - 1) want (steps + 1)
      else walk_left s i before want (steps + 1))"

definition walkLive :: "seqState \<Rightarrow> nat \<Rightarrow> int \<Rightarrow> int \<Rightarrow> nat \<times> int" where
  "walkLive s idx before want =
     (if want \<ge> before then walk_right s idx before want 0 else walk_left s idx before want 0)"

text \<open>Where the walk starts: the front, the back or the cursor, whichever is nearest.\<close>

definition walk_from :: "seqState \<Rightarrow> int \<Rightarrow> nat \<times> int" where
  "walk_from s want =
     (let back = ss_live s - 1 - want;
          (idx, before, dist) =
            (if back < want then (length (ss_nodes s), ss_live s, back) else (0, 0, want));
          c = ss_cursor s in
      if cu_ok c \<and> \<bar>want - cu_before c\<bar> \<le> dist then (cu_idx c, cu_before c) else (idx, before))"

text \<open>
  The scan of a view that is not everything merged: the index of its \<open>pos\<close>-th element, else the
  last one, the number seen, and the steps.
\<close>

fun scan_view :: "(nat \<Rightarrow> seqNode) \<Rightarrow> pastView \<Rightarrow> int \<Rightarrow> nat list \<Rightarrow> nat \<Rightarrow> int \<Rightarrow> nat option \<Rightarrow> int \<Rightarrow> (bool \<times> nat option \<times> int)" where
  "scan_view h past pos [] i seen lst steps = (False, lst, steps)"
| "scan_view h past pos (a # as) i seen lst steps =
     (let steps = steps + 1 + int (length (sn_deleters (h a))) in
      if \<not> in_past past (h a) then scan_view h past pos as (i + 1) seen lst steps
      else if seen + 1 = pos then (True, Some i, steps)
      else scan_view h past pos as (i + 1) (seen + 1) (Some i) steps)"

definition locate :: "seqState \<Rightarrow> seqWork \<Rightarrow> i64 \<Rightarrow> bool \<Rightarrow> pastView \<Rightarrow> (nat option \<times> seqState \<times> seqWork) res" where
  "locate s w pos all past =
     (if all then
        if sw_strict w \<and> sint pos > ss_live s then Inl viewError
        else if ss_live s = 0 then Inr (None, s, w)
        else
          let want = sint (word_of_int (min (sint pos) (ss_live s)) - 1 :: i64);
              (idx, before) = walk_from s want;
              (i, steps) = walkLive s idx before want in
          bindR (spend steps w)
            (\<lambda>w. Inr (Some i, s\<lparr>ss_cursor := \<lparr>cu_ok = True, cu_idx = i, cu_before = want\<rparr>\<rparr>, w))
      else
        (case scan_view (ss_heap s) past (sint pos) (ss_nodes s) 0 0 None 0 of (found, i, steps) \<Rightarrow>
          if \<not> found \<and> sw_strict w then Inl viewError
          else bindR (spend steps w) (\<lambda>w. Inr (i, s, w))))"

text \<open>\<open>nthVisible\<close>: \<open>None\<close> where Go returns -1.\<close>

definition nthVisible :: "seqState \<Rightarrow> seqWork \<Rightarrow> i64 \<Rightarrow> bool \<Rightarrow> pastView \<Rightarrow> (nat option \<times> seqState \<times> seqWork) res" where
  "nthVisible s w i all past =
     (if sint i < 0 then Inr (None, s, w)
      else if all then
        if sint i \<ge> ss_live s then Inr (None, s, w) else locate s w (i + 1) True past
      else
        (case scan_view (ss_heap s) past (sint i + 1) (ss_nodes s) 0 0 None 0 of (found, j, steps) \<Rightarrow>
          bindR (spend steps w) (\<lambda>w. Inr (if found then j else None, s, w))))"

section \<open>Inserting\<close>

text \<open>\<open>end\<close>: the first element from \<open>i\<close> on that the author had seen, deleted or not.\<close>

function first_seen :: "seqState \<Rightarrow> pastView \<Rightarrow> nat \<Rightarrow> nat" where
  "first_seen s past i =
     (if i < length (ss_nodes s) \<and>
         \<not> pv_has past (sn_peer (ss_heap s (ss_nodes s ! i))) (sn_counter (ss_heap s (ss_nodes s ! i)))
      then first_seen s past (i + 1) else i)"
  by pat_completeness auto
termination by (relation "measure (\<lambda>(s, _, i). length (ss_nodes s) - i)") auto

declare first_seen.simps [simp del]

text \<open>
  \<open>rightParent\<close>'s search, which continues where the last one stopped: the indexes found so far,
  the next index to look at, and the steps.
\<close>

record rpIndex =
  rp_index :: "nat \<Rightarrow> nat option"
  rp_indexed :: nat
  rp_steps :: int

function rp_scan :: "nat list \<Rightarrow> nat \<Rightarrow> rpIndex \<Rightarrow> nat option \<times> rpIndex" where
  "rp_scan nodes r x =
     (if rp_indexed x < length nodes then
        let i = rp_indexed x; a = nodes ! i;
            x = \<lparr>rp_index = (rp_index x)(a \<mapsto> i), rp_indexed = i + 1, rp_steps = rp_steps x + 1\<rparr> in
        if a = r then (Some i, x) else rp_scan nodes r x
      else (None, x))"
  by pat_completeness auto
termination by (relation "measure (\<lambda>(nodes, _, x). length nodes - rp_indexed x)") auto

declare rp_scan.simps [simp del]

definition rightParent :: "seqState \<Rightarrow> nat option \<Rightarrow> nat option \<Rightarrow> rpIndex \<Rightarrow> nat option \<times> rpIndex" where
  "rightParent s left r x =
     (case r of None \<Rightarrow> (None, x)
      | Some a \<Rightarrow>
          if sn_left (ss_heap s a) \<noteq> left then (None, x)
          else (case rp_index x a of Some i \<Rightarrow> (Some i, x) | None \<Rightarrow> rp_scan (ss_nodes s) a x))"

definition comparePositions :: "nat option \<Rightarrow> nat option \<Rightarrow> int" where
  "comparePositions a b =
     (case (a, b) of (Some x, Some y) \<Rightarrow> int x - int y | (Some _, None) \<Rightarrow> - 1 | (None, Some _) \<Rightarrow> 1
      | (None, None) \<Rightarrow> 0)"

text \<open>
  One round of \<open>integrate\<close>'s loop at element \<open>a\<close>: \<open>None\<close> where it breaks, else the new value of
  \<open>scanning\<close>.
\<close>

definition integrate_step ::
  "seqState \<Rightarrow> nat option \<Rightarrow> nat option \<Rightarrow> nat option \<Rightarrow> u64 \<Rightarrow> nat \<Rightarrow> (nat \<Rightarrow> bool) \<Rightarrow> bool \<Rightarrow> rpIndex \<Rightarrow> bool option \<times> rpIndex"
where
  "integrate_step s left right ours peer a visited scanning x =
     (let other = ss_heap s a in
      if sn_left other \<noteq> left \<and> (case sn_left other of None \<Rightarrow> True | Some l \<Rightarrow> \<not> visited l) then (None, x)
      else if sn_left other = left then
        if sn_right other = right then
          if sn_peer other > peer then (None, x) else (Some False, x)
        else
          (case rightParent s left (sn_right other) x of (theirs, x) \<Rightarrow>
            let c = comparePositions theirs ours in
            if c < 0 then (Some True, x)
            else if c = 0 \<and> sn_peer other > peer then (None, x)
            else (Some False, x))
      else (Some scanning, x))"

function integrate_loop ::
  "seqState \<Rightarrow> nat option \<Rightarrow> nat option \<Rightarrow> nat option \<Rightarrow> u64 \<Rightarrow> nat \<Rightarrow> nat \<Rightarrow> nat \<Rightarrow> (nat \<Rightarrow> bool) \<Rightarrow> bool \<Rightarrow> rpIndex \<Rightarrow> int \<Rightarrow> nat \<times> int"
where
  "integrate_loop s left right ours peer stop i at visited scanning x steps =
     (if i < stop then
        let a = ss_nodes s ! i; steps = steps + 1 in
        (case integrate_step s left right ours peer a visited scanning x of
          (None, x) \<Rightarrow> (at, steps + rp_steps x)
        | (Some scanning, x) \<Rightarrow>
            integrate_loop s left right ours peer stop (i + 1) (if scanning then at else i + 1)
              (visited(a := True)) scanning x steps)
      else (at, steps + rp_steps x))"
  by pat_completeness auto
termination by (relation "measure (\<lambda>(_, _, _, _, _, stop, i, _). stop - i)") auto

declare integrate_loop.simps [simp del]

definition integrate :: "seqState \<Rightarrow> nat \<Rightarrow> nat \<Rightarrow> nat option \<Rightarrow> nat option \<Rightarrow> u64 \<Rightarrow> nat \<times> int" where
  "integrate s start stop left right peer =
     (if start = stop then (start, 0)
      else
        case rightParent s left right \<lparr>rp_index = Map.empty, rp_indexed = start, rp_steps = 0\<rparr> of (ours, x) \<Rightarrow>
          integrate_loop s left right ours peer stop start start (\<lambda>_. False) False x 0)"

text \<open>The nodes of a run: each atom's left origin is the one before it.\<close>

definition run_node :: "Op \<Rightarrow> nat \<Rightarrow> nat option \<Rightarrow> nat option \<Rightarrow> seqval list \<Rightarrow> bool \<Rightarrow> nat \<Rightarrow> seqNode" where
  "run_node op next left right items anchor k =
     \<lparr>sn_peer = op_Peer op, sn_counter = op_Counter op + of_nat k,
       sn_left = (if k = 0 then left else Some (next + k - 1)), sn_right = right,
       sn_value = items ! k, sn_anchor = anchor, sn_deleters = [], sn_elem = None\<rparr>"

definition add_id :: "nat \<Rightarrow> seqState \<Rightarrow> seqState" where
  "add_id a s =
     (let n = ss_heap s a; id = \<lparr>Peer = sn_peer n, Counter = sn_counter n\<rparr> in
      if ss_byID s id = None then
        s\<lparr>ss_byID := (ss_byID s)(id \<mapsto> a),
          ss_byPeer := (ss_byPeer s)(sn_peer n := ss_byPeer s (sn_peer n) @ [a])\<rparr>
      else s)"

text \<open>The part of \<open>insert\<close> that changes the state: the run goes in at index \<open>at\<close>.\<close>

definition put_run :: "Op \<Rightarrow> seqval list \<Rightarrow> bool \<Rightarrow> nat option \<Rightarrow> nat option \<Rightarrow> nat \<Rightarrow> seqState \<Rightarrow> nat list \<times> seqState" where
  "put_run op items anchor left right at s =
     (let next = ss_next s; k = length items; run = [next..<next + k]; c = ss_cursor s;
          s = s\<lparr>ss_heap := (\<lambda>a. if next \<le> a \<and> a < next + k then run_node op next left right items anchor (a - next)
                 else ss_heap s a),
               ss_next := next + k,
               ss_nodes := take at (ss_nodes s) @ run @ drop at (ss_nodes s),
               ss_cursor := (if cu_ok c \<and> at \<le> cu_idx c
                 then c\<lparr>cu_idx := cu_idx c + k, cu_before := cu_before c + int k\<rparr> else c)\<rparr>;
          s = fold add_id run s in
      (run, s\<lparr>ss_live := ss_live s + int k\<rparr>))"

definition insert_left :: "seqState \<Rightarrow> seqWork \<Rightarrow> i64 \<Rightarrow> bool \<Rightarrow> pastView \<Rightarrow> (nat option \<times> seqState \<times> seqWork) res" where
  "insert_left s w pos all past =
     (if sint pos > 0 then
        (case locate s w pos all past of
           Inl e \<Rightarrow> Inl (if e = viewError then beyondView else e)
         | Inr r \<Rightarrow> Inr r)
      else Inr (None, s, w))"

definition seq_insert ::
  "seqState \<Rightarrow> seqWork \<Rightarrow> Op \<Rightarrow> i64 \<Rightarrow> seqval list \<Rightarrow> bool \<Rightarrow> bool \<Rightarrow> pastView \<Rightarrow> (nat list \<times> seqState \<times> seqWork) res"
where
  "seq_insert s w op pos items anchor all past =
     (if items = [] then Inr ([], s, w)
      else
        bindR (insert_left s w pos all past) (\<lambda>(left, s, w).
          let start = (case left of None \<Rightarrow> 0 | Some l \<Rightarrow> l + 1);
              stop = (if all then start else first_seen s past start);
              leftNode = map_option ((!) (ss_nodes s)) left;
              rightNode = (if stop < length (ss_nodes s) then Some (ss_nodes s ! stop) else None);
              (at, steps) = integrate s start stop leftNode rightNode (op_Peer op) in
          bindR (spend (steps + int stop - int start + int (length items) + int ((length (ss_nodes s) - at) div 64)) w)
            (\<lambda>w. case put_run op items anchor leftNode rightNode at s of (run, s) \<Rightarrow> Inr (run, s, w))))"

section \<open>Deleting\<close>

text \<open>An atom \<open>d\<close> removes the element \<open>a\<close>, at index \<open>i\<close>.\<close>

definition mark_at :: "nat \<Rightarrow> nat \<Rightarrow> ID \<Rightarrow> seqState \<Rightarrow> seqState" where
  "mark_at a i d s =
     (let n = ss_heap s a; c = ss_cursor s;
          s = (if sn_deleters n = [] then
                 s\<lparr>ss_live := ss_live s - 1,
                   ss_cursor := (if cu_ok c \<and> i < cu_idx c then c\<lparr>cu_before := cu_before c - 1\<rparr> else c)\<rparr>
               else s) in
      s\<lparr>ss_heap := (ss_heap s)(a := n\<lparr>sn_deleters := sn_deleters n @ [d]\<rparr>)\<rparr>)"

text \<open>The loop of \<open>removeAt\<close> that collects targets with their indexes; \<open>n\<close> are still to find.\<close>

fun targets_from ::
  "(nat \<Rightarrow> seqNode) \<Rightarrow> (nat \<Rightarrow> bool) \<Rightarrow> i64 \<Rightarrow> nat list \<Rightarrow> nat \<Rightarrow> i64 \<Rightarrow> nat \<Rightarrow> int \<Rightarrow> (nat \<times> nat) list \<times> int"
where
  "targets_from h visible low [] i seen n steps = ([], steps)"
| "targets_from h visible low (a # as) i seen n steps =
     (if n = 0 then ([], steps)
      else
        let steps = steps + 1 + int (length (sn_deleters (h a))) in
        if \<not> visible a then targets_from h visible low as (i + 1) seen n steps
        else if sleq low seen then
          (case targets_from h visible low as (i + 1) (seen + 1) (n - 1) steps of (ts, steps) \<Rightarrow> ((a, i) # ts, steps))
        else targets_from h visible low as (i + 1) (seen + 1) n steps)"

fun mark_targets :: "Op \<Rightarrow> (nat \<Rightarrow> i64) \<Rightarrow> (nat \<times> nat) list \<Rightarrow> nat \<Rightarrow> seqState \<Rightarrow> seqState" where
  "mark_targets op atom [] k s = s"
| "mark_targets op atom ((a, i) # ts) k s =
     mark_targets op atom ts (k + 1) (mark_at a i \<lparr>Peer = op_Peer op, Counter = op_Counter op + atom k\<rparr> s)"

definition visible_in :: "seqState \<Rightarrow> bool \<Rightarrow> pastView \<Rightarrow> nat \<Rightarrow> bool" where
  "visible_in s all past a \<longleftrightarrow> (if all then is_live s a else in_past past (ss_heap s a))"

text \<open>
  \<open>locate\<close> returns -1 on an empty view, and \<open>removeAt\<close> reads its elements from there: a panic. The
  check on \<open>low + n\<close> keeps that from happening unless the sum wraps.
\<close>

definition removeAt :: "seqState \<Rightarrow> seqWork \<Rightarrow> Op \<Rightarrow> bool \<Rightarrow> pastView \<Rightarrow> (bool \<times> seqState \<times> seqWork) res" where
  "removeAt s w op all past =
     (case op_Value op of
        ODelete span \<Rightarrow>
          let n = snd (Normalize span);
              low = (if sint (ds_Len span) < 0 then op_Pos op - n + 1 else op_Pos op) in
          if n = 0 \<or> sint low < 0 \<or> all \<and> sint (low + n) > ss_live s then
            (if sw_strict w then Inl beyondView else Inr (False, s, w))
          else
            bindR (if all then bindR (locate s w (low + 1) True past) (\<lambda>(i, s, w).
                     case i of None \<Rightarrow> Inl GoPanic | Some i \<Rightarrow> Inr (i, low, s, w))
                   else Inr (0, 0, s, w)) (\<lambda>(from, seen, s, w).
              case targets_from (ss_heap s) (visible_in s all past) low (drop from (ss_nodes s)) from seen (nat (sint n)) 0 of
                (ts, steps) \<Rightarrow>
                  bindR (spend steps w) (\<lambda>w.
                    if int (length ts) < sint n then
                      (if sw_strict w then Inl beyondView else Inr (False, s, w))
                    else
                      Inr (True,
                        mark_targets op (\<lambda>k. if sint (ds_Len span) < 0 then n - 1 - of_nat k else of_nat k) ts 0 s, w)))
      | _ \<Rightarrow> Inr (False, s, w))"

fun mark_ids :: "DeleteSpan \<Rightarrow> Op \<Rightarrow> nat list \<Rightarrow> seqState \<Rightarrow> seqState" where
  "mark_ids span op [] s = s"
| "mark_ids span op (a # as) s =
     (let n = ss_heap s a in
      case atomFor span (sn_counter n) of
        None \<Rightarrow> mark_ids span op as s
      | Some k \<Rightarrow>
          let s = (if sn_deleters n = [] then s\<lparr>ss_live := ss_live s - 1, ss_cursor := (ss_cursor s)\<lparr>cu_ok := False\<rparr>\<rparr> else s) in
          mark_ids span op as
            (s\<lparr>ss_heap := (ss_heap s)(a := n\<lparr>sn_deleters := sn_deleters n @ [\<lparr>Peer = op_Peer op, Counter = op_Counter op + k\<rparr>]\<rparr>)\<rparr>))"

definition remove_ids :: "seqState \<Rightarrow> seqWork \<Rightarrow> Op \<Rightarrow> (seqState \<times> seqWork) res" where
  "remove_ids s w op =
     (case op_Value op of
        ODelete span \<Rightarrow>
          let (start, n) = Normalize span; peerNodes = ss_byPeer s (ds_Peer span) in
          if sint n \<le> int (length peerNodes) then
            let cs = map (\<lambda>k. start + of_nat k) [0..<nat (sint (start + n) - sint start)];
                as = concat (map (\<lambda>c. case ss_byID s \<lparr>Peer = ds_Peer span, Counter = c\<rparr> of None \<Rightarrow> [] | Some a \<Rightarrow> [a]) cs) in
            bindR (spend (sint n + 1) w) (\<lambda>w. Inr (mark_ids span op as s, w))
          else bindR (spend (int (length peerNodes) + 1) w) (\<lambda>w. Inr (mark_ids span op peerNodes s, w))
      | _ \<Rightarrow> Inr (s, w))"

section \<open>Moves and sets\<close>

definition seq_move :: "seqState \<Rightarrow> seqWork \<Rightarrow> Op \<Rightarrow> bool \<Rightarrow> pastView \<Rightarrow> (seqState \<times> seqWork) res" where
  "seq_move s w op all past =
     (case op_Value op of
        OElem le \<Rightarrow>
          (case ss_elems s le of
             None \<Rightarrow> Inr (s, w)
           | Some e \<Rightarrow>
               bindR (nthVisible s w (op_MoveFrom op) all past) (\<lambda>(src, s, w).
                 case src of
                   None \<Rightarrow> if sw_strict w then Inl beyondView else Inr (s, w)
                 | Some i \<Rightarrow>
                     let s = mark_at (ss_nodes s ! i) i \<lparr>Peer = op_Peer op, Counter = op_Counter op\<rparr> s in
                     bindR (seq_insert s w op (op_Pos op) [SNil] False all (past\<lparr>pv_own := op_Counter op + 1\<rparr>))
                       (\<lambda>(run, s, w).
                         let n = hd run; wr = \<lparr>wr_lamport = op_Lamport op, wr_peer = op_Peer op\<rparr>;
                             s = s\<lparr>ss_heap := (ss_heap s)(n := (ss_heap s n)\<lparr>sn_elem := Some e\<rparr>)\<rparr>;
                             el = ss_elemHeap s e in
                         Inr (if writer_after wr (me_posWriter el)
                              then s\<lparr>ss_elemHeap := (ss_elemHeap s)(e := el\<lparr>me_pos := n, me_posWriter := wr\<rparr>)\<rparr>
                              else s, w))))
      | _ \<Rightarrow> Inr (s, w))"

definition seq_set :: "Op \<Rightarrow> seqState \<Rightarrow> seqState" where
  "seq_set op s =
     (case op_Value op of
        OSet lset \<Rightarrow>
          (case ss_elems s (sv_Elem lset) of
             None \<Rightarrow> s
           | Some e \<Rightarrow>
               let el = ss_elemHeap s e; wr = \<lparr>wr_lamport = op_Lamport op, wr_peer = op_Peer op\<rparr> in
               if writer_after wr (me_valueWriter el) then
                 s\<lparr>ss_elemHeap := (ss_elemHeap s)(e := el\<lparr>me_value := sv_Value lset, me_valueWriter := wr,
                   me_valueID := \<lparr>Peer = op_Peer op, Counter = op_Counter op\<rparr>, me_valueSet := True\<rparr>)\<rparr>
               else s)
      | _ \<Rightarrow> s)"

text \<open>The elements that an insert into a MovableList creates, one per position of its run.\<close>

fun new_elems :: "Op \<Rightarrow> lval list \<Rightarrow> nat list \<Rightarrow> nat \<Rightarrow> seqState \<Rightarrow> seqState" where
  "new_elems op (v # vs) (n # run) k s =
     (let wr = \<lparr>wr_lamport = op_Lamport op + of_nat k, wr_peer = op_Peer op\<rparr>;
          key = \<lparr>le_Peer = op_Peer op, le_Lamport = wr_lamport wr\<rparr>; e = ss_elemNext s; nd = ss_heap s n in
      new_elems op vs run (k + 1)
        (s\<lparr>ss_elemHeap := (ss_elemHeap s)(e := \<lparr>me_key = key, me_value = v, me_valueWriter = wr,
             me_valueID = \<lparr>Peer = op_Peer op, Counter = sn_counter nd\<rparr>, me_valueSet = False, me_pos = n, me_posWriter = wr\<rparr>),
           ss_elemNext := e + 1,
           ss_heap := (ss_heap s)(n := nd\<lparr>sn_elem := Some e, sn_value := SNil\<rparr>),
           ss_elems := (ss_elems s)(key \<mapsto> e)\<rparr>))"
| "new_elems op vs run k s = s"

section \<open>Merging one op\<close>

definition seq_apply :: "seqState \<Rightarrow> seqWork \<Rightarrow> Op \<Rightarrow> bool \<Rightarrow> pastView \<Rightarrow> bool \<Rightarrow> (seqState \<times> seqWork) res" where
  "seq_apply s w op all past byPosition =
     (let drop_run = (\<lambda>(run, s, w). Inr (s, w)) in
      if op_VKind op = VKDeleteSeq then
        bindR (if byPosition \<and> op_Kind op \<noteq> CMovableList then removeAt s w op all past else Inr (False, s, w))
          (\<lambda>(done, s, w). if done then Inr (s, w) else remove_ids s w op)
      else if op_VKind op = VKMarkStart then
        (case op_Value op of
           OMark mi \<Rightarrow>
             bindR (seq_insert s w op (op_Pos op)
                [SMarkStart mi \<lparr>wr_lamport = op_Lamport op, wr_peer = op_Peer op\<rparr>] True all past) (\<lambda>(run, s, w).
               Inr (s\<lparr>ss_pendingEnd := (ss_pendingEnd s)
                 (\<lparr>Peer = op_Peer op, Counter = op_Counter op + 1\<rparr> \<mapsto> mi_Start mi + mi_Len mi + 1)\<rparr>, w))
         | _ \<Rightarrow> bindR (seq_insert s w op (op_Pos op) [SNil] True all past) drop_run)
      else if op_VKind op = VKNull then
        (let id = \<lparr>Peer = op_Peer op, Counter = op_Counter op\<rparr> in
         case ss_pendingEnd s id of
           None \<Rightarrow> Inr (s, w)
         | Some at \<Rightarrow>
             bindR (seq_insert (s\<lparr>ss_pendingEnd := (ss_pendingEnd s)(id := None)\<rparr>) w op at [SMarkEnd] True all past) drop_run)
      else if op_VKind op = VKStr then
        (let str = (case op_Value op of OVal (LStr x) \<Rightarrow> x | _ \<Rightarrow> []) in
         bindR (seq_insert s w op (op_Pos op) (map (\<lambda>r. SStr (encode_rune r)) (runes str)) False all past) drop_run)
      else if op_VKind op = VKListMove then seq_move s w op all past
      else if op_VKind op = VKListSet then Inr (seq_set op s, w)
      else
        (let items = (case op_Value op of OVal (LList xs) \<Rightarrow> xs | _ \<Rightarrow> []) in
         bindR (seq_insert s w op (op_Pos op) (map SItem items) False all past) (\<lambda>(run, s, w).
           Inr (if op_Kind op \<noteq> CMovableList then s else new_elems op items run 0 s, w))))"

section \<open>Reading the result\<close>

definition seq_text :: "seqState \<Rightarrow> gostring" where
  "seq_text s = concat (map (\<lambda>a. case sn_value (ss_heap s a) of SStr r \<Rightarrow> r | _ \<Rightarrow> [])
     (filter (\<lambda>a. is_live s a \<and> \<not> sn_anchor (ss_heap s a)) (ss_nodes s)))"

text \<open>What \<open>each\<close> calls \<open>f\<close> with: a value, the id of the atom that wrote it, and \<open>whole\<close>.\<close>

definition seq_each :: "seqState \<Rightarrow> (seqval \<times> ID \<times> bool) list" where
  "seq_each s = concat (map (\<lambda>a.
     let n = ss_heap s a in
     if sn_deleters n \<noteq> [] \<or> sn_anchor n then []
     else case sn_elem n of
       None \<Rightarrow> [(sn_value n, \<lparr>Peer = sn_peer n, Counter = sn_counter n\<rparr>, False)]
     | Some e \<Rightarrow>
         let el = ss_elemHeap s e in
         if me_pos el = a then [(SItem (me_value el), me_valueID el, me_valueSet el)] else []) (ss_nodes s))"

end
