(* ===== verification/SeqView.thy ===== *)
theory SeqView
  imports SeqState "HOL-Library.Sublist"
begin

text \<open>
  Finding elements in a merged sequence: the walk from the cursor and the scan of a view both find
  the element a reader of the whole view would count to. The invariant of a sequence.
\<close>

section \<open>Counting in a list\<close>

lemma filter_at:
  assumes "i < length xs" and "P (xs ! i)" and "length (filter P (take i xs)) = k"
  shows "filter P (take (i + 1) xs) = take (k + 1) (filter P xs)"
    and "filter P (drop (i + 1) xs) = drop (k + 1) (filter P xs)"
    and "k < length (filter P xs)"
proof -
  have l: "length (filter P (take (i + 1) xs)) = k + 1"
    using assms by (simp add: take_Suc_conv_app_nth)
  have "filter P xs = filter P (take (i + 1) xs) @ filter P (drop (i + 1) xs)"
    by (metis append_take_drop_id filter_append)
  then show "filter P (take (i + 1) xs) = take (k + 1) (filter P xs)"
    and "filter P (drop (i + 1) xs) = drop (k + 1) (filter P xs)" and "k < length (filter P xs)"
    using l by simp_all
qed

lemma filter_take_mono: "i \<le> j \<Longrightarrow> length (filter P (take i xs)) \<le> length (filter P (take j xs))"
  by (metis filter_append le_Suc_ex length_append le_add1 take_add)

lemma filter_take_le: "length (filter P (take i xs)) \<le> length (filter P xs)"
  by (metis append_take_drop_id filter_append le_add1 length_append)

section \<open>The invariant\<close>

definition before_of :: "seqState \<Rightarrow> nat \<Rightarrow> int" where
  "before_of s i = int (length (filter (is_live s) (take i (ss_nodes s))))"

text \<open>\<open>a\<close> lies before \<open>b\<close>.\<close>

definition precedes :: "'a list \<Rightarrow> 'a \<Rightarrow> 'a \<Rightarrow> bool" where
  "precedes xs a b \<longleftrightarrow> subseq [a, b] xs"

definition cursor_ok :: "seqState \<Rightarrow> bool" where
  "cursor_ok s \<longleftrightarrow> (cu_ok (ss_cursor s) \<longrightarrow>
     cu_idx (ss_cursor s) \<le> length (ss_nodes s) \<and> cu_before (ss_cursor s) = before_of s (cu_idx (ss_cursor s)))"

text \<open>Each element lies between the two its author saw around it.\<close>

definition origins_ok :: "seqState \<Rightarrow> bool" where
  "origins_ok s \<longleftrightarrow> (\<forall>a\<in>set (ss_nodes s).
     (\<forall>l. sn_left (ss_heap s a) = Some l \<longrightarrow> precedes (ss_nodes s) l a) \<and>
     (\<forall>r. sn_right (ss_heap s a) = Some r \<longrightarrow> precedes (ss_nodes s) a r))"

definition index_maps_ok :: "seqState \<Rightarrow> bool" where
  "index_maps_ok s \<longleftrightarrow>
     (\<forall>id a. ss_byID s id = Some a \<longrightarrow> a \<in> set (ss_nodes s)) \<and> (\<forall>p. set (ss_byPeer s p) \<subseteq> set (ss_nodes s)) \<and>
     (\<forall>key e. ss_elems s key = Some e \<longrightarrow> e < ss_elemNext s) \<and>
     (\<forall>e. e < ss_elemNext s \<longrightarrow> me_pos (ss_elemHeap s e) \<in> set (ss_nodes s))"

definition seq_ok :: "seqState \<Rightarrow> bool" where
  "seq_ok s \<longleftrightarrow> distinct (ss_nodes s) \<and> (\<forall>a\<in>set (ss_nodes s). a < ss_next s) \<and>
     ss_live s = int (length (filter (is_live s) (ss_nodes s))) \<and>
     cursor_ok s \<and> origins_ok s \<and> index_maps_ok s"

lemma seq_okD:
  assumes "seq_ok s"
  shows "distinct (ss_nodes s)" and "a \<in> set (ss_nodes s) \<Longrightarrow> a < ss_next s"
    and "ss_live s = int (length (filter (is_live s) (ss_nodes s)))"
    and "cursor_ok s" and "origins_ok s" and "index_maps_ok s"
  using assms by (simp_all add: seq_ok_def)

lemma newSeqState_ok: "seq_ok newSeqState"
  by (simp add: seq_ok_def newSeqState_def cursor_ok_def origins_ok_def index_maps_ok_def)

lemma before_of_total: "before_of s (length (ss_nodes s)) = int (length (filter (is_live s) (ss_nodes s)))"
  by (simp add: before_of_def)

lemma before_of_Suc:
  "i < length (ss_nodes s) \<Longrightarrow> before_of s (i + 1) = before_of s i + (if is_live s (ss_nodes s ! i) then 1 else 0)"
  by (simp add: before_of_def take_Suc_conv_app_nth)

lemma before_of_le: "before_of s i \<le> int (length (filter (is_live s) (ss_nodes s)))"
  by (simp add: before_of_def filter_take_le)

section \<open>The walk\<close>

text \<open>\<open>i\<close> is the index of the live element that \<open>want\<close> live ones lie before.\<close>

definition live_index :: "seqState \<Rightarrow> int \<Rightarrow> nat \<Rightarrow> bool" where
  "live_index s want i \<longleftrightarrow> i < length (ss_nodes s) \<and> is_live s (ss_nodes s ! i) \<and> before_of s i = want"

lemma walk_right_finds:
  "i \<le> length (ss_nodes s) \<Longrightarrow> before = before_of s i \<Longrightarrow> before \<le> want \<Longrightarrow>
    want < before_of s (length (ss_nodes s)) \<Longrightarrow> live_index s want (fst (walk_right s i before want steps))"
proof (induction s i before want steps rule: walk_right.induct)
  case (1 s i before want steps)
  have i: "i < length (ss_nodes s)" using "1.prems" by (cases "i = length (ss_nodes s)") auto
  then have le: "i + 1 \<le> length (ss_nodes s)" by simp
  note Suc = before_of_Suc [OF i]
  consider (stop) "is_live s (ss_nodes s ! i)" "before = want" | (live) "is_live s (ss_nodes s ! i)" "before \<noteq> want"
    | (dead) "\<not> is_live s (ss_nodes s ! i)" by blast
  then show ?case
  proof cases
    case stop
    with 1 i show ?thesis by (simp add: walk_right.simps [of s i] live_index_def)
  next
    case live
    then have "live_index s want (fst (walk_right s (i + 1) (before + 1) want (steps + 1)))"
      using "1.IH"(1) [OF i live le] Suc "1.prems" by simp
    with live i show ?thesis by (simp add: walk_right.simps [of s i])
  next
    case dead
    then have "live_index s want (fst (walk_right s (i + 1) before want (steps + 1)))"
      using "1.IH"(2) [OF i dead le] Suc "1.prems" by simp
    with dead i show ?thesis by (simp add: walk_right.simps [of s i])
  qed
qed

lemma walk_left_finds:
  "i \<le> length (ss_nodes s) \<Longrightarrow> before = before_of s i \<Longrightarrow> 0 \<le> want \<Longrightarrow> want < before \<Longrightarrow>
    live_index s want (fst (walk_left s i before want steps))"
proof (induction s i before want steps rule: walk_left.induct)
  case (1 s before want steps)
  then show ?case by (simp add: before_of_def)
next
  case (2 s i before want steps)
  have i: "i < length (ss_nodes s)" using "2.prems" by simp
  note Suc = before_of_Suc [OF i]
  consider (stop) "is_live s (ss_nodes s ! i)" "before - 1 = want" | (live) "is_live s (ss_nodes s ! i)" "before - 1 \<noteq> want"
    | (dead) "\<not> is_live s (ss_nodes s ! i)" by blast
  then show ?case
  proof cases
    case stop
    with "2.prems" i Suc show ?thesis by (simp add: live_index_def)
  next
    case live
    with 2 i Suc show ?thesis by simp
  next
    case dead
    with 2 i Suc show ?thesis by simp
  qed
qed

lemma walkLive_finds:
  assumes ok: "seq_ok s" and w: "0 \<le> want" "want < ss_live s" and f: "walk_from s want = (idx, before)"
  shows "live_index s want (fst (walkLive s idx before want))"
proof -
  have "before = before_of s idx \<and> idx \<le> length (ss_nodes s)"
    using f seq_okD(3,4) [OF ok]
    by (auto simp: walk_from_def Let_def cursor_ok_def before_of_total split: if_splits)
      (simp_all add: before_of_def)
  moreover have "want < before_of s (length (ss_nodes s))" using w seq_okD(3) [OF ok] by (simp add: before_of_total)
  ultimately show ?thesis
    using w by (auto simp: walkLive_def intro: walk_right_finds walk_left_finds)
qed

text \<open>Such an index splits the elements where the view splits.\<close>

lemma live_index_splits:
  assumes "live_index s want i"
  shows "filter (is_live s) (take (i + 1) (ss_nodes s)) = take (nat want + 1) (filter (is_live s) (ss_nodes s))"
    and "filter (is_live s) (drop (i + 1) (ss_nodes s)) = drop (nat want + 1) (filter (is_live s) (ss_nodes s))"
  using assms filter_at [of i "ss_nodes s" "is_live s" "nat want"]
  by (auto simp: live_index_def before_of_def)

section \<open>The scan\<close>

lemma scan_view_finds:
  "scan_view h past pos xs i seen lst steps = (found, j, steps') \<Longrightarrow> seen < pos \<Longrightarrow>
    pos \<le> seen + int (length (filter (\<lambda>a. in_past past (h a)) xs)) \<Longrightarrow>
    found \<and> (\<exists>k. j = Some (i + k) \<and> k < length xs \<and> in_past past (h (xs ! k)) \<and>
      seen + int (length (filter (\<lambda>a. in_past past (h a)) (take k xs))) = pos - 1)"
proof (induction h past pos xs i seen lst steps rule: scan_view.induct)
  case (2 h past pos a as i seen lst steps)
  let ?st = "steps + 1 + int (length (sn_deleters (h a)))"
  consider (skip) "\<not> in_past past (h a)" | (stop) "in_past past (h a)" "seen + 1 = pos"
    | (step) "in_past past (h a)" "seen + 1 \<noteq> pos" by blast
  then show ?case
  proof cases
    case skip
    then have "scan_view h past pos as (i + 1) seen lst ?st = (found, j, steps')"
      and "pos \<le> seen + int (length (filter (\<lambda>a. in_past past (h a)) as))"
      using "2.prems" by simp_all
    from "2.IH"(1) [OF refl skip this(1) "2.prems"(2) this(2)] obtain k where
      "found" "j = Some (i + 1 + k)" "k < length as" "in_past past (h (as ! k))"
      "seen + int (length (filter (\<lambda>a. in_past past (h a)) (take k as))) = pos - 1" by blast
    with skip show ?thesis by (intro conjI exI [of _ "k + 1"]) simp_all
  next
    case stop
    with "2.prems" show ?thesis by (intro conjI exI [of _ 0]) auto
  next
    case step
    then have "scan_view h past pos as (i + 1) (seen + 1) (Some i) ?st = (found, j, steps')"
      and "seen + 1 < pos" "pos \<le> seen + 1 + int (length (filter (\<lambda>a. in_past past (h a)) as))"
      using "2.prems" by simp_all
    with "2.IH"(2) [OF refl _ step(2)] step(1) obtain k where
      "found" "j = Some (i + 1 + k)" "k < length as" "in_past past (h (as ! k))"
      "seen + 1 + int (length (filter (\<lambda>a. in_past past (h a)) (take k as))) = pos - 1" by blast
    with step show ?thesis by (intro conjI exI [of _ "k + 1"]) simp_all
  qed
qed simp

text \<open>Past the end, the last element of the view.\<close>

lemma scan_view_beyond:
  "scan_view h past pos xs i seen lst steps = (found, j, steps') \<Longrightarrow>
    pos > seen + int (length (filter (\<lambda>a. in_past past (h a)) xs)) \<Longrightarrow>
    \<not> found \<and> (if filter (\<lambda>a. in_past past (h a)) xs = [] then j = lst
      else \<exists>k. j = Some (i + k) \<and> k < length xs \<and> in_past past (h (xs ! k)) \<and>
        filter (\<lambda>a. in_past past (h a)) (drop (k + 1) xs) = [])"
proof (induction h past pos xs i seen lst steps rule: scan_view.induct)
  case (2 h past pos a as i seen lst steps)
  let ?st = "steps + 1 + int (length (sn_deleters (h a)))"
  let ?P = "\<lambda>a. in_past past (h a)"
  show ?case
  proof (cases "?P a")
    case False
    then have "scan_view h past pos as (i + 1) seen lst ?st = (found, j, steps')"
      and "pos > seen + int (length (filter ?P as))" using "2.prems" by simp_all
    note ih = "2.IH"(1) [OF refl False this]
    show ?thesis
    proof (cases "filter ?P as = []")
      case True
      with ih False show ?thesis by simp
    next
      case ne: False
      with ih obtain k where "j = Some (i + 1 + k)" "k < length as" "?P (as ! k)" "filter ?P (drop (k + 1) as) = []"
        by auto
      moreover have "filter ?P (a # as) \<noteq> []" using ne by (simp add: False)
      ultimately show ?thesis using ih by (simp only: if_False) (intro conjI exI [of _ "k + 1"], simp_all)
    qed
  next
    case True
    then have ne: "seen + 1 \<noteq> pos" and "scan_view h past pos as (i + 1) (seen + 1) (Some i) ?st = (found, j, steps')"
      and "pos > seen + 1 + int (length (filter ?P as))" using "2.prems" by (auto split: if_splits)
    have "\<not> \<not> ?P a" using True by simp
    note ih = "2.IH"(2) [OF refl this ne \<open>scan_view _ _ _ _ _ _ (Some i) _ = _\<close> \<open>pos > seen + 1 + _\<close>]
    show ?thesis
    proof (cases "filter ?P as = []")
      case e: True
      with ih have "\<not> found" "j = Some (i + 0)" by auto
      with True e show ?thesis by (auto intro: exI [of _ 0])
    next
      case ne: False
      with ih True obtain k where "j = Some (i + 1 + k)" "k < length as" "?P (as ! k)" "filter ?P (drop (k + 1) as) = []"
        by auto
      moreover have "filter ?P (a # as) \<noteq> []" using True by simp
      ultimately show ?thesis using ih True by (simp only: if_False) (intro conjI exI [of _ "k + 1"], simp_all)
    qed
  qed
qed simp

section \<open>Locating a position\<close>

text \<open>What an op's author sees: every live element, or those of their past.\<close>

definition view :: "seqState \<Rightarrow> bool \<Rightarrow> pastView \<Rightarrow> nat list" where
  "view s all past = filter (visible_in s all past) (ss_nodes s)"

text \<open>Index \<open>left\<close>, if any, is where the first \<open>k\<close> elements of the view end.\<close>

definition splits_view :: "seqState \<Rightarrow> bool \<Rightarrow> pastView \<Rightarrow> nat \<Rightarrow> nat option \<Rightarrow> bool" where
  "splits_view s all past k left \<longleftrightarrow>
     (case left of None \<Rightarrow> k = 0
      | Some i \<Rightarrow> i < length (ss_nodes s) \<and> visible_in s all past (ss_nodes s ! i) \<and>
          filter (visible_in s all past) (take (i + 1) (ss_nodes s)) = take k (view s all past) \<and>
          filter (visible_in s all past) (drop (i + 1) (ss_nodes s)) = drop k (view s all past))"

text \<open>How far into a view a position reaches.\<close>

definition reach :: "i64 \<Rightarrow> nat list \<Rightarrow> nat" where
  "reach pos v = min (nat (sint pos)) (length v)"

lemma seq_ok_cursor:
  "seq_ok s \<Longrightarrow> i \<le> length (ss_nodes s) \<Longrightarrow> b = before_of s i \<Longrightarrow>
    seq_ok (s\<lparr>ss_cursor := \<lparr>cu_ok = True, cu_idx = i, cu_before = b\<rparr>\<rparr>)"
  by (simp add: seq_ok_def cursor_ok_def origins_ok_def index_maps_ok_def before_of_def)

lemma visible_all: "visible_in s True past = is_live s"
  by (auto simp: visible_in_def)

lemma view_True: "view s True past = filter (is_live s) (ss_nodes s)"
  by (simp add: view_def visible_all)

lemma same_cursor: "\<exists>c. s = s\<lparr>ss_cursor := c\<rparr>"
  by (rule exI [of _ "ss_cursor s"]) simp

lemma locate_all_finds:
  assumes ok: "seq_ok s" and fit: "length (ss_nodes s) < 2 ^ 63" and p: "1 \<le> sint pos"
    and f: "locate s w pos True past = Inr (left, s', w')"
  shows "splits_view s True past (reach pos (view s True past)) left \<and> (left = None \<longrightarrow> view s True past = []) \<and>
    seq_ok s' \<and> (\<exists>c. s' = s\<lparr>ss_cursor := c\<rparr>)"
proof (cases "ss_live s = 0")
  case True
  then have "view s True past = []" using seq_okD(3) [OF ok] by (simp add: view_True)
  moreover have "left = None" "s' = s" using f True by (auto simp: locate_def split: if_splits)
  ultimately show ?thesis using ok same_cursor by (simp add: splits_view_def reach_def)
next
  case False
  let ?v = "view s True past" and ?m = "min (sint pos) (ss_live s)"
  define want where "want = sint (word_of_int ?m - 1 :: i64)"
  obtain idx before where wf: "walk_from s want = (idx, before)" by fastforce
  obtain i steps where wl: "walkLive s idx before want = (i, steps)" by fastforce
  have lv: "ss_live s = int (length ?v)" "length ?v \<le> length (ss_nodes s)"
    using seq_okD(3) [OF ok] by (simp_all add: view_True)
  have "?v \<noteq> []" using False lv(1) by auto
  then have "1 \<le> length ?v" by (simp add: Suc_le_eq)
  then have m: "1 \<le> ?m" "?m < 2 ^ 63" using p lv fit by simp_all
  have "want = ?m - 1"
    using m sint_of_int_small [of "?m - 1"] by (simp add: want_def)
  then have wr: "0 \<le> want" "want < ss_live s" and k: "nat want + 1 = reach pos ?v" using m lv by (auto simp: reach_def)
  have r: "left = Some i" "s' = s\<lparr>ss_cursor := \<lparr>cu_ok = True, cu_idx = i, cu_before = want\<rparr>\<rparr>"
    using f False wf wl by (auto simp: locate_def Let_def want_def [symmetric] bindR_Inr_iff split: if_splits)
  have li: "live_index s want i" using walkLive_finds [OF ok wr wf] wl by simp
  note sp = live_index_splits [OF li, unfolded k]
  have "splits_view s True past (reach pos ?v) left"
    using li sp r by (simp add: splits_view_def visible_all view_True live_index_def)
  moreover have "seq_ok s'" using seq_ok_cursor [OF ok, of i want] li r(2) by (simp add: live_index_def)
  ultimately show ?thesis using r by auto
qed

lemma visible_past: "visible_in s False past = (\<lambda>a. in_past past (ss_heap s a))"
  by (auto simp: visible_in_def)

lemma locate_past_finds:
  assumes p: "1 \<le> sint pos" and f: "locate s w pos False past = Inr (left, s', w')"
  shows "splits_view s False past (reach pos (view s False past)) left \<and> (left = None \<longrightarrow> view s False past = []) \<and> s' = s"
proof -
  let ?P = "\<lambda>a. in_past past (ss_heap s a)" and ?xs = "ss_nodes s"
  have v: "view s False past = filter ?P ?xs" by (simp add: view_def visible_past)
  obtain found j steps where sc: "scan_view (ss_heap s) past (sint pos) ?xs 0 0 None 0 = (found, j, steps)"
    by (cases "scan_view (ss_heap s) past (sint pos) ?xs 0 0 None 0") auto
  have r: "left = j" "s' = s" using f sc by (auto simp: locate_def bindR_Inr_iff split: if_splits)
  have "splits_view s False past (reach pos (view s False past)) j \<and> (j = None \<longrightarrow> view s False past = [])"
  proof (cases "sint pos \<le> int (length (filter ?P ?xs))")
    case True
    obtain k where k: "j = Some k" "k < length ?xs" "?P (?xs ! k)" "int (length (filter ?P (take k ?xs))) = sint pos - 1"
      using scan_view_finds [OF sc] p True by auto
    have n: "nat (sint pos) = length (filter ?P (take k ?xs)) + 1" using k(4) p by linarith
    have "reach pos (filter ?P ?xs) = nat (sint pos)" using True by (simp add: reach_def)
    with filter_at [OF k(2), of ?P, OF k(3) refl] k n show ?thesis
      by (simp add: splits_view_def v visible_past)
  next
    case False
    note b = scan_view_beyond [OF sc]
    show ?thesis
    proof (cases "filter ?P ?xs = []")
      case True
      with b False show ?thesis by (auto simp: splits_view_def v reach_def)
    next
      case ne: False
      with b False obtain k where k: "j = Some k" "k < length ?xs" "?P (?xs ! k)" "filter ?P (drop (k + 1) ?xs) = []" by auto
      have "filter ?P ?xs = filter ?P (take (k + 1) ?xs) @ filter ?P (drop (k + 1) ?xs)"
        by (metis append_take_drop_id filter_append)
      moreover have "reach pos (filter ?P ?xs) = length (filter ?P ?xs)" using False by (simp add: reach_def)
      ultimately show ?thesis using k by (simp add: splits_view_def v visible_past)
    qed
  qed
  with r show ?thesis by simp
qed

lemma locate_finds:
  assumes "seq_ok s" and "length (ss_nodes s) < 2 ^ 63" and "1 \<le> sint pos"
    and "locate s w pos all past = Inr (left, s', w')"
  shows "splits_view s all past (reach pos (view s all past)) left" and "left = None \<longrightarrow> view s all past = []"
    and "seq_ok s'" and "\<exists>c. s' = s\<lparr>ss_cursor := c\<rparr>"
proof -
  have "splits_view s all past (reach pos (view s all past)) left \<and> (left = None \<longrightarrow> view s all past = []) \<and>
      seq_ok s' \<and> (\<exists>c. s' = s\<lparr>ss_cursor := c\<rparr>)"
  proof (cases all)
    case True
    with locate_all_finds [OF assms(1-3)] assms(4) show ?thesis by simp
  next
    case False
    with locate_past_finds [OF assms(3), of s w past left s' w'] assms(1,4) same_cursor [of s] show ?thesis by simp
  qed
  then show "splits_view s all past (reach pos (view s all past)) left" and "left = None \<longrightarrow> view s all past = []"
    and "seq_ok s'" and "\<exists>c. s' = s\<lparr>ss_cursor := c\<rparr>" by blast+
qed

lemma insert_left_finds:
  assumes "seq_ok s" and "length (ss_nodes s) < 2 ^ 63" and f: "insert_left s w pos all past = Inr (left, s', w')"
  shows "splits_view s all past (reach pos (view s all past)) left" and "seq_ok s'" and "\<exists>c. s' = s\<lparr>ss_cursor := c\<rparr>"
proof -
  have "splits_view s all past (reach pos (view s all past)) left \<and> seq_ok s' \<and> (\<exists>c. s' = s\<lparr>ss_cursor := c\<rparr>)"
  proof (cases "sint pos > 0")
    case True
    then have "locate s w pos all past = Inr (left, s', w')"
      using f by (simp add: insert_left_def split: sum.splits)
    with locate_finds [OF assms(1,2), of pos] True show ?thesis by simp
  next
    case False
    then have "left = None" "s' = s" using f by (simp_all add: insert_left_def)
    with False assms(1) same_cursor [of s] show ?thesis by (simp add: reach_def splits_view_def)
  qed
  then show "splits_view s all past (reach pos (view s all past)) left" and "seq_ok s'" and "\<exists>c. s' = s\<lparr>ss_cursor := c\<rparr>"
    by blast+
qed

end
