(* ===== verification/SeqInsert.thy ===== *)
theory SeqInsert
  imports SeqView
begin

text \<open>
  Inserting into a merged sequence: where a run of new elements lands, for any view of its author,
  and that the invariant is kept.
\<close>

section \<open>Inserting keeps the invariant\<close>

lemma precedes_subseq: "subseq xs ys \<Longrightarrow> precedes xs a b \<Longrightarrow> precedes ys a b"
  by (auto simp: precedes_def intro: subseq_order.trans)

lemma precedes_append: "a \<in> set xs \<Longrightarrow> b \<in> set ys \<Longrightarrow> precedes (xs @ ys) a b"
  unfolding precedes_def using list_emb_append_mono [of "(=)" "[a]" xs "[b]" ys] by (simp add: subseq_singleton_left)

lemma subseq_insert: "subseq (xs @ ys) (xs @ zs @ ys)"
  by (intro list_emb_append_mono list_emb_append2 subseq_order.refl)

lemma first_seen_bounds:
  "i \<le> first_seen s past i \<and> (i \<le> length (ss_nodes s) \<longrightarrow> first_seen s past i \<le> length (ss_nodes s)) \<and>
    (\<forall>j. i \<le> j \<and> j < first_seen s past i \<longrightarrow> \<not> in_past past (ss_heap s (ss_nodes s ! j)))"
proof (induction s past i rule: first_seen.induct)
  case (1 s past i)
  let ?n = "ss_heap s (ss_nodes s ! i)"
  show ?case
  proof (cases "i < length (ss_nodes s) \<and> \<not> pv_has past (sn_peer ?n) (sn_counter ?n)")
    case True
    then have e: "first_seen s past i = first_seen s past (i + 1)" by (simp add: first_seen.simps [of s past i])
    have "\<not> in_past past ?n" using True by (simp add: in_past_def)
    moreover have "j = i \<or> i + 1 \<le> j" if "i \<le> j" for j using that by linarith
    ultimately show ?thesis using 1 True unfolding e by (metis Suc_eq_plus1 Suc_leD Suc_leI)
  next
    case False
    then have "first_seen s past i = i" by (subst first_seen.simps) (use False in auto)
    then show ?thesis by auto
  qed
qed

lemma integrate_loop_bounds:
  "lo \<le> at \<Longrightarrow> at \<le> i \<Longrightarrow> i \<le> stop \<Longrightarrow> integrate_loop s l r ours peer stop i at visited scanning x steps = (at', st) \<Longrightarrow>
    lo \<le> at' \<and> at' \<le> stop"
proof (induction s l r ours peer stop i at visited scanning x steps rule: integrate_loop.induct)
  case (1 s l r ours peer stop i at visited scanning x steps)
  obtain o' x' where step: "integrate_step s l r ours peer (ss_nodes s ! i) visited scanning x = (o', x')" by fastforce
  show ?case
  proof (cases "i < stop")
    case True
    show ?thesis
    proof (cases o')
      case None
      with 1 True step show ?thesis by (simp add: integrate_loop.simps [of s l r ours peer stop i])
    next
      case (Some sc)
      have "lo \<le> (if sc then at else i + 1)" "(if sc then at else i + 1) \<le> i + 1" "i + 1 \<le> stop" using "1.prems" True by auto
      note ih = "1.IH" [OF True refl refl step [symmetric] Some this]
      show ?thesis
        using "1.prems"(4) True step Some by (intro ih) (simp add: integrate_loop.simps [of s l r ours peer stop i] Let_def del: fun_upd_apply)
    qed
  next
    case False
    then have "integrate_loop s l r ours peer stop i at visited scanning x steps = (at, steps + rp_steps x)"
      by (subst integrate_loop.simps) simp
    with "1.prems" show ?thesis by simp
  qed
qed

lemma integrate_bounds:
  assumes "start \<le> stop" and "integrate s start stop l r peer = (at, steps)"
  shows "start \<le> at \<and> at \<le> stop"
proof (cases "start = stop")
  case False
  then show ?thesis
    using assms integrate_loop_bounds [of start start start stop s l r _ peer "\<lambda>_. False" False _ 0 at steps]
    by (auto simp: integrate_def split: prod.splits)
qed (use assms in \<open>simp add: integrate_def\<close>)

lemma add_ids:
  "\<exists>f g. fold add_id run s = s\<lparr>ss_byID := f, ss_byPeer := g\<rparr> \<and>
    (\<forall>id a. f id = Some a \<longrightarrow> ss_byID s id = Some a \<or> a \<in> set run) \<and> (\<forall>p. set (g p) \<subseteq> set (ss_byPeer s p) \<union> set run)"
proof (induction run arbitrary: s)
  case Nil
  show ?case by (intro exI [of _ "ss_byID s"] exI [of _ "ss_byPeer s"]) simp
next
  case (Cons a run)
  obtain f g where fg: "add_id a s = s\<lparr>ss_byID := f, ss_byPeer := g\<rparr>"
    "\<forall>id b. f id = Some b \<longrightarrow> ss_byID s id = Some b \<or> b = a" "\<forall>p. set (g p) \<subseteq> insert a (set (ss_byPeer s p))"
  proof (cases "ss_byID s \<lparr>Peer = sn_peer (ss_heap s a), Counter = sn_counter (ss_heap s a)\<rparr> = None")
    case True
    let ?n = "ss_heap s a"
    let ?id = "\<lparr>Peer = sn_peer ?n, Counter = sn_counter ?n\<rparr>"
    show thesis
      by (rule that [of "(ss_byPeer s)(sn_peer ?n := ss_byPeer s (sn_peer ?n) @ [a])" "(ss_byID s)(?id \<mapsto> a)"])
        (use True in \<open>auto simp: add_id_def Let_def split: if_splits\<close>)
  next
    case False
    then show thesis by (intro that [of "ss_byPeer s" "ss_byID s"]) (auto simp: add_id_def Let_def)
  qed
  obtain f' g' where "fold add_id run (add_id a s) = (add_id a s)\<lparr>ss_byID := f', ss_byPeer := g'\<rparr>"
    "\<forall>id b. f' id = Some b \<longrightarrow> f id = Some b \<or> b \<in> set run" "\<forall>p. set (g' p) \<subseteq> set (g p) \<union> set run"
    using Cons.IH [of "add_id a s"] fg(1) by auto
  with fg show ?case by (intro exI [of _ f'] exI [of _ g']) (simp, blast)
qed

definition put_heap :: "Op \<Rightarrow> seqval list \<Rightarrow> bool \<Rightarrow> nat option \<Rightarrow> nat option \<Rightarrow> seqState \<Rightarrow> nat \<Rightarrow> seqNode" where
  "put_heap op items anchor left right s =
     (\<lambda>a. if ss_next s \<le> a \<and> a < ss_next s + length items
       then run_node op (ss_next s) left right items anchor (a - ss_next s) else ss_heap s a)"

lemma put_run_parts:
  assumes "put_run op items anchor left right at s = (run, s')"
  shows "run = [ss_next s..<ss_next s + length items]" and "ss_heap s' = put_heap op items anchor left right s"
    and "ss_nodes s' = take at (ss_nodes s) @ run @ drop at (ss_nodes s)" and "ss_next s' = ss_next s + length items"
    and "ss_live s' = ss_live s + int (length items)" and "ss_pendingEnd s' = ss_pendingEnd s"
    and "ss_cursor s' = (let c = ss_cursor s in if cu_ok c \<and> at \<le> cu_idx c
       then c\<lparr>cu_idx := cu_idx c + length items, cu_before := cu_before c + int (length items)\<rparr> else c)"
    and "ss_elems s' = ss_elems s" and "ss_elemHeap s' = ss_elemHeap s" and "ss_elemNext s' = ss_elemNext s"
    and "ss_byID s' i = Some a \<Longrightarrow> ss_byID s i = Some a \<or> a \<in> set run"
    and "set (ss_byPeer s' p) \<subseteq> set (ss_byPeer s p) \<union> set run"
proof -
  define c where "c = ss_cursor s"
  define s1 where "s1 = s\<lparr>ss_heap := put_heap op items anchor left right s, ss_next := ss_next s + length items,
    ss_nodes := take at (ss_nodes s) @ [ss_next s..<ss_next s + length items] @ drop at (ss_nodes s),
    ss_cursor := (if cu_ok c \<and> at \<le> cu_idx c
       then c\<lparr>cu_idx := cu_idx c + length items, cu_before := cu_before c + int (length items)\<rparr> else c)\<rparr>"
  have r: "run = [ss_next s..<ss_next s + length items]"
    and s': "s' = (fold add_id run s1)\<lparr>ss_live := ss_live (fold add_id run s1) + int (length items)\<rparr>"
    using assms by (auto simp: put_run_def Let_def s1_def put_heap_def c_def)
  obtain f g where fg: "fold add_id run s1 = s1\<lparr>ss_byID := f, ss_byPeer := g\<rparr>"
    "\<forall>id a. f id = Some a \<longrightarrow> ss_byID s1 id = Some a \<or> a \<in> set run" "\<forall>p. set (g p) \<subseteq> set (ss_byPeer s1 p) \<union> set run"
    using add_ids [of run s1] by blast
  note s'' = s' [unfolded fg(1)]
  show "run = [ss_next s..<ss_next s + length items]" by (rule r)
  show "ss_heap s' = put_heap op items anchor left right s" "ss_next s' = ss_next s + length items"
    "ss_nodes s' = take at (ss_nodes s) @ run @ drop at (ss_nodes s)"
    "ss_live s' = ss_live s + int (length items)" "ss_pendingEnd s' = ss_pendingEnd s"
    "ss_elems s' = ss_elems s" "ss_elemHeap s' = ss_elemHeap s" "ss_elemNext s' = ss_elemNext s"
    by (simp_all add: s'' s1_def r)
  show "ss_cursor s' = (let c = ss_cursor s in if cu_ok c \<and> at \<le> cu_idx c
       then c\<lparr>cu_idx := cu_idx c + length items, cu_before := cu_before c + int (length items)\<rparr> else c)"
    by (simp add: s'' s1_def c_def Let_def)
  show "ss_byID s' i = Some a \<Longrightarrow> ss_byID s i = Some a \<or> a \<in> set run"
    using fg(2) by (auto simp: s'' s1_def)
  show "set (ss_byPeer s' p) \<subseteq> set (ss_byPeer s p) \<union> set run"
    using fg(3) by (auto simp: s'' s1_def)
qed

lemma heap_put:
  assumes "put_run op items anchor left right at s = (run, s')" and "seq_ok s"
  shows "a \<in> set (ss_nodes s) \<Longrightarrow> ss_heap s' a = ss_heap s a"
    and "k < length items \<Longrightarrow> ss_heap s' (ss_next s + k) = run_node op (ss_next s) left right items anchor k"
proof -
  show "a \<in> set (ss_nodes s) \<Longrightarrow> ss_heap s' a = ss_heap s a"
    using seq_okD(2) [OF assms(2), of a] by (auto simp: put_run_parts(2) [OF assms(1)] put_heap_def)
  show "k < length items \<Longrightarrow> ss_heap s' (ss_next s + k) = run_node op (ss_next s) left right items anchor k"
    by (simp add: put_run_parts(2) [OF assms(1)] put_heap_def)
qed

lemma put_run_live:
  assumes p: "put_run op items anchor left right at s = (run, s')" and ok: "seq_ok s"
  shows "set xs \<subseteq> set (ss_nodes s) \<Longrightarrow> filter (is_live s') xs = filter (is_live s) xs"
    and "filter (is_live s') run = run"
proof -
  show "set xs \<subseteq> set (ss_nodes s) \<Longrightarrow> filter (is_live s') xs = filter (is_live s) xs"
    using heap_put(1) [OF p ok] by (intro filter_cong) auto
  show "filter (is_live s') run = run"
  proof (rule filter_True, rule ballI)
    fix a assume "a \<in> set run"
    then have "a - ss_next s < length items" "a = ss_next s + (a - ss_next s)"
      using put_run_parts(1) [OF p] by auto
    then show "is_live s' a" using heap_put(2) [OF p ok, of "a - ss_next s"] by (simp add: run_node_def)
  qed
qed

lemma put_run_cursor:
  assumes p: "put_run op items anchor left right at s = (run, s')" and ok: "seq_ok s" and at: "at \<le> length (ss_nodes s)"
  shows "cursor_ok s'"
proof -
  let ?xs = "ss_nodes s" and ?c = "ss_cursor s" and ?k = "length items"
  have lr: "length run = ?k" using put_run_parts(1) [OF p] by simp
  note nodes = put_run_parts(3) [OF p] and cur = put_run_parts(7) [OF p] and lv = put_run_live [OF p ok]
  show ?thesis
  proof (cases "cu_ok ?c")
    case True
    then have c: "cu_idx ?c \<le> length ?xs" "cu_before ?c = before_of s (cu_idx ?c)"
      using seq_okD(4) [OF ok] by (simp_all add: cursor_ok_def)
    show ?thesis
    proof (cases "at \<le> cu_idx ?c")
      case le: True
      have s: "take (cu_idx ?c) ?xs = take at ?xs @ take (cu_idx ?c - at) (drop at ?xs)"
        using le by (metis le_add_diff_inverse take_add)
      have "take (cu_idx ?c + ?k) (ss_nodes s') = take at ?xs @ run @ take (cu_idx ?c - at) (drop at ?xs)"
        using le at lr by (simp add: nodes)
      then have "before_of s' (cu_idx ?c + ?k) = before_of s (cu_idx ?c) + int ?k"
        unfolding before_of_def s filter_append using lv(1) [of "take at ?xs"] lv(1) [of "take (cu_idx ?c - at) (drop at ?xs)"] lv(2) lr
        by (simp add: set_take_subset order_trans [OF set_take_subset set_drop_subset])
      then show ?thesis using True le c lr by (simp add: cursor_ok_def cur nodes Let_def)
    next
      case False
      then have "take (cu_idx ?c) (ss_nodes s') = take (cu_idx ?c) ?xs" using c at by (simp add: nodes min_def)
      then have "before_of s' (cu_idx ?c) = before_of s (cu_idx ?c)"
        unfolding before_of_def using lv(1) [of "take (cu_idx ?c) ?xs"] by (simp add: set_take_subset)
      then show ?thesis using True False c by (simp add: cursor_ok_def cur nodes Let_def)
    qed
  next
    case False
    then show ?thesis by (simp add: cursor_ok_def cur Let_def)
  qed
qed

lemma put_run_origins:
  assumes p: "put_run op items anchor left right at s = (run, s')" and ok: "seq_ok s"
    and l: "\<forall>l. left = Some l \<longrightarrow> l \<in> set (take at (ss_nodes s))" and r: "\<forall>r. right = Some r \<longrightarrow> r \<in> set (drop at (ss_nodes s))"
  shows "origins_ok s'"
  unfolding origins_ok_def
proof (intro ballI conjI allI impI)
  note nodes = put_run_parts(3) [OF p]
  have sub: "subseq (ss_nodes s) (ss_nodes s')"
    using subseq_insert [of "take at (ss_nodes s)" "drop at (ss_nodes s)" run] by (simp add: nodes)
  have new: "\<exists>k<length items. a = ss_next s + k" if "a \<in> set (ss_nodes s')" "a \<notin> set (ss_nodes s)" for a
  proof -
    have "a \<in> set run" using that by (auto simp: nodes dest: in_set_takeD in_set_dropD)
    then show ?thesis using put_run_parts(1) [OF p] by (intro exI [of _ "a - ss_next s"]) auto
  qed
  fix a x
  assume a: "a \<in> set (ss_nodes s')"
  {
    assume x: "sn_left (ss_heap s' a) = Some x"
    show "precedes (ss_nodes s') x a"
    proof (cases "a \<in> set (ss_nodes s)")
      case True
      then have "precedes (ss_nodes s) x a"
        using x heap_put(1) [OF p ok True] seq_okD(5) [OF ok] by (simp add: origins_ok_def)
      with sub show ?thesis by (rule precedes_subseq)
    next
      case False
      obtain k where k: "k < length items" "a = ss_next s + k" using new [OF a False] by blast
      have x': "(if k = 0 then left else Some (ss_next s + k - 1)) = Some x"
        using x heap_put(2) [OF p ok k(1)] k(2) by (simp add: run_node_def)
      show ?thesis
      proof (cases "k = 0")
        case True
        with x' l have "x \<in> set (take at (ss_nodes s))" by simp
        moreover have "a \<in> set (run @ drop at (ss_nodes s))" using k put_run_parts(1) [OF p] by auto
        ultimately show ?thesis unfolding nodes by (rule precedes_append)
      next
        case False
        with x' have xx: "x = ss_next s + (k - 1)" by auto
        have "[ss_next s..<ss_next s + length items] = [ss_next s..<ss_next s + k] @ [ss_next s + k..<ss_next s + length items]"
          using upt_add_eq_append [of "ss_next s" "ss_next s + k" "length items - k"] k(1) by simp
        moreover have "x \<in> set [ss_next s..<ss_next s + k]" "a \<in> set [ss_next s + k..<ss_next s + length items]"
          using False k xx by auto
        ultimately have "precedes run x a" using put_run_parts(1) [OF p] by (simp add: precedes_append)
        moreover have "subseq run (ss_nodes s')" by (simp add: nodes list_emb_append2 list_emb_prefix)
        ultimately show ?thesis by (blast intro: precedes_subseq)
      qed
    qed
  }
  {
    assume x: "sn_right (ss_heap s' a) = Some x"
    show "precedes (ss_nodes s') a x"
    proof (cases "a \<in> set (ss_nodes s)")
      case True
      then have "precedes (ss_nodes s) a x"
        using x heap_put(1) [OF p ok True] seq_okD(5) [OF ok] by (simp add: origins_ok_def)
      with sub show ?thesis by (rule precedes_subseq)
    next
      case False
      obtain k where k: "k < length items" "a = ss_next s + k" using new [OF a False] by blast
      then have "right = Some x" using x heap_put(2) [OF p ok k(1)] by (simp add: run_node_def)
      with r have "x \<in> set (drop at (ss_nodes s))" by simp
      moreover have "a \<in> set (take at (ss_nodes s) @ run)" using k put_run_parts(1) [OF p] by auto
      ultimately show ?thesis using precedes_append [of a "take at (ss_nodes s) @ run" x] by (simp add: nodes)
    qed
  }
qed

lemma put_run_ok:
  assumes p: "put_run op items anchor left right at s = (run, s')" and ok: "seq_ok s" and at: "at \<le> length (ss_nodes s)"
    and l: "\<forall>l. left = Some l \<longrightarrow> l \<in> set (take at (ss_nodes s))" and r: "\<forall>r. right = Some r \<longrightarrow> r \<in> set (drop at (ss_nodes s))"
  shows "seq_ok s'"
proof -
  note parts = put_run_parts [OF p] and lv = put_run_live [OF p ok]
  have xs: "ss_nodes s = take at (ss_nodes s) @ drop at (ss_nodes s)" by simp
  have set': "set (ss_nodes s') = set (ss_nodes s) \<union> set run"
  proof -
    have "set (ss_nodes s) = set (take at (ss_nodes s)) \<union> set (drop at (ss_nodes s))"
      by (metis append_take_drop_id set_append)
    then show ?thesis unfolding parts(3) set_append by blast
  qed
  have run: "a \<in> set run \<longleftrightarrow> ss_next s \<le> a \<and> a < ss_next s'" for a by (simp add: parts(1,4))
  have td: "distinct (take at (ss_nodes s) @ drop at (ss_nodes s))" using seq_okD(1) [OF ok] by simp
  have dj: "set run \<inter> set (ss_nodes s) = {}" using seq_okD(2) [OF ok] run by force
  have "set run \<inter> set (take at (ss_nodes s)) = {}" "set run \<inter> set (drop at (ss_nodes s)) = {}"
    using dj set_take_subset [of at "ss_nodes s"] set_drop_subset [of at "ss_nodes s"] by blast+
  moreover have "distinct run" by (simp add: parts(1))
  ultimately have d: "distinct (ss_nodes s')"
    using td unfolding parts(3) distinct_append set_append by blast
  have s: "set (ss_nodes s) \<subseteq> set (ss_nodes s')"
    by (simp add: set')
  have "filter (is_live s') (ss_nodes s') = filter (is_live s) (take at (ss_nodes s)) @ run @ filter (is_live s) (drop at (ss_nodes s))"
    using lv(1) [of "take at (ss_nodes s)"] lv(1) [of "drop at (ss_nodes s)"] lv(2)
    by (simp add: parts(3) set_take_subset set_drop_subset)
  moreover have "filter (is_live s) (ss_nodes s) = filter (is_live s) (take at (ss_nodes s)) @ filter (is_live s) (drop at (ss_nodes s))"
    by (metis xs filter_append)
  ultimately have live: "ss_live s' = int (length (filter (is_live s') (ss_nodes s')))"
    using seq_okD(3) [OF ok] parts(1,5) by simp
  have "\<forall>a\<in>set (ss_nodes s'). a < ss_next s'"
    using seq_okD(2) [OF ok] run parts(4) by (force simp: set')
  moreover have "index_maps_ok s'"
    unfolding index_maps_ok_def
  proof (intro conjI allI impI)
    note m = seq_okD(6) [OF ok, unfolded index_maps_ok_def]
    show "a \<in> set (ss_nodes s')" if "ss_byID s' i = Some a" for i a using parts(11) [OF that] m by (auto simp: set')
    show "set (ss_byPeer s' q) \<subseteq> set (ss_nodes s')" for q using parts(12) [of q] m unfolding set' by blast
    show "e < ss_elemNext s'" if "ss_elems s' key = Some e" for key e using that m parts(8,10) by simp
    show "me_pos (ss_elemHeap s' e) \<in> set (ss_nodes s')" if "e < ss_elemNext s'" for e using that m parts(9,10) by (simp add: set')
  qed
  ultimately show ?thesis
    using d live put_run_cursor [OF p ok at] put_run_origins [OF p ok l r] by (simp add: seq_ok_def)
qed
section \<open>An insert lands where its author put it\<close>

definition made_node :: "Op \<Rightarrow> seqval \<Rightarrow> bool \<Rightarrow> nat \<Rightarrow> seqNode \<Rightarrow> bool" where
  "made_node op v anchor k n \<longleftrightarrow> sn_peer n = op_Peer op \<and> sn_counter n = op_Counter op + of_nat k \<and>
     sn_value n = v \<and> sn_anchor n = anchor \<and> sn_deleters n = [] \<and> sn_elem n = None"

text \<open>
  The run goes between \<open>xs\<close> and \<open>ys\<close>, which are where the view splits at the position; the old
  elements keep what they hold.
\<close>

definition lands_between ::
  "seqState \<Rightarrow> Op \<Rightarrow> nat \<Rightarrow> seqval list \<Rightarrow> bool \<Rightarrow> bool \<Rightarrow> pastView \<Rightarrow> nat list \<Rightarrow> seqState \<Rightarrow> bool"
where
  "lands_between s op k items anchor all past run s' \<longleftrightarrow>
     (\<exists>xs ys. ss_nodes s = xs @ ys \<and> ss_nodes s' = xs @ run @ ys \<and>
        filter (visible_in s all past) xs = take k (view s all past) \<and>
        filter (visible_in s all past) ys = drop k (view s all past)) \<and>
     (\<forall>a\<in>set (ss_nodes s). ss_heap s' a = ss_heap s a) \<and> length run = length items \<and>
     set run \<inter> set (ss_nodes s) = {} \<and>
     (\<forall>i<length items. made_node op (items ! i) anchor i (ss_heap s' (run ! i)))"

lemma gap_unseen:
  assumes "\<forall>j. i \<le> j \<and> j < k \<longrightarrow> \<not> P (xs ! j)" and "k \<le> length xs" and "i \<le> at" and "at \<le> k"
  shows "filter P (take at xs) = filter P (take i xs)" and "filter P (drop at xs) = filter P (drop i xs)"
proof -
  have e: "\<forall>x\<in>set (take (at - i) (drop i xs)). \<not> P x" using assms by (auto simp: in_set_conv_nth)
  have "take at xs = take i xs @ take (at - i) (drop i xs)" using assms(3) by (metis le_add_diff_inverse take_add)
  then show "filter P (take at xs) = filter P (take i xs)" using e by simp
  have "drop i xs = take (at - i) (drop i xs) @ drop at xs"
    using assms(3) by (metis append_take_drop_id drop_drop le_add_diff_inverse2)
  then have "filter P (drop i xs) = filter P (take (at - i) (drop i xs)) @ filter P (drop at xs)"
    by (metis filter_append)
  then show "filter P (drop at xs) = filter P (drop i xs)" using e by simp
qed

lemma seq_insert_lands:
  assumes ok: "seq_ok s" and fit: "length (ss_nodes s) < 2 ^ 63" and ne: "items \<noteq> []"
    and f: "seq_insert s w op pos items anchor all past = Inr (run, s', w')"
  shows "seq_ok s'" and "lands_between s op (reach pos (view s all past)) items anchor all past run s'"
    and "ss_pendingEnd s' = ss_pendingEnd s"
proof -
  let ?k = "reach pos (view s all past)" and ?V = "visible_in s all past"
  obtain left s1 w1 where il: "insert_left s w pos all past = Inr (left, s1, w1)"
    and rest: "(let start = (case left of None \<Rightarrow> 0 | Some l \<Rightarrow> l + 1);
              stop = (if all then start else first_seen s1 past start);
              leftNode = map_option ((!) (ss_nodes s1)) left;
              rightNode = (if stop < length (ss_nodes s1) then Some (ss_nodes s1 ! stop) else None);
              (at, steps) = integrate s1 start stop leftNode rightNode (op_Peer op) in
          bindR (spend (steps + int stop - int start + int (length items) + int ((length (ss_nodes s1) - at) div 64)) w1)
            (\<lambda>w. case put_run op items anchor leftNode rightNode at s1 of (run, s) \<Rightarrow> Inr (run, s, w))) = Inr (run, s', w')"
    using f ne by (auto simp: seq_insert_def bindR_Inr_iff simp del: Let_def)
  note lf = insert_left_finds [OF ok fit il]
  then obtain c where s1: "s1 = s\<lparr>ss_cursor := c\<rparr>" by blast
  then have hp: "ss_heap s1 = ss_heap s" "ss_nodes s1 = ss_nodes s" by simp_all
  let ?xs = "ss_nodes s"
  define start where "start = (case left of None \<Rightarrow> 0 | Some l \<Rightarrow> l + 1)"
  define stop where "stop = (if all then start else first_seen s1 past start)"
  define ln where "ln = map_option ((!) ?xs) left"
  define rn where "rn = (if stop < length ?xs then Some (?xs ! stop) else None)"
  obtain at steps where ig: "integrate s1 start stop ln rn (op_Peer op) = (at, steps)" by fastforce
  obtain run2 s2 where p2: "put_run op items anchor ln rn at s1 = (run2, s2)" by fastforce
  have pr: "put_run op items anchor ln rn at s1 = (run, s')"
    using rest ig unfolding hp Let_def start_def [symmetric] stop_def [symmetric] ln_def [symmetric] rn_def [symmetric]
    by (auto simp: bindR_Inr_iff p2)
  have st: "start \<le> length ?xs" using lf(1) by (auto simp: start_def splits_view_def split: option.splits)
  have gap: "start \<le> stop" "stop \<le> length ?xs" "\<forall>j. start \<le> j \<and> j < stop \<longrightarrow> \<not> ?V (?xs ! j)"
    using first_seen_bounds [of start s1 past] st by (auto simp: stop_def hp visible_past)
  have at: "start \<le> at" "at \<le> stop" using integrate_bounds [OF gap(1) ig] by blast+
  have ll: "\<forall>l. ln = Some l \<longrightarrow> l \<in> set (take at ?xs)"
  proof (intro allI impI)
    fix l assume "ln = Some l"
    then obtain i where i: "left = Some i" "l = ?xs ! i" by (auto simp: ln_def)
    then have "i < length ?xs" "i < at" using lf(1) at by (auto simp: splits_view_def start_def)
    then show "l \<in> set (take at ?xs)" using i by (auto simp: in_set_conv_nth)
  qed
  have rr: "\<forall>r. rn = Some r \<longrightarrow> r \<in> set (drop at ?xs)"
  proof (intro allI impI)
    fix r assume "rn = Some r"
    then have "stop < length ?xs" "r = ?xs ! stop" by (auto simp: rn_def split: if_splits)
    then have "r = drop at ?xs ! (stop - at)" "stop - at < length (drop at ?xs)" using at by simp_all
    then show "r \<in> set (drop at ?xs)" by (metis nth_mem)
  qed
  have atl: "at \<le> length ?xs" using at gap by simp
  show "seq_ok s'" using put_run_ok [OF pr lf(2)] atl ll rr by (simp add: hp)
  have sp: "filter ?V (take start ?xs) = take ?k (view s all past)" "filter ?V (drop start ?xs) = drop ?k (view s all past)"
    using lf(1) by (auto simp: splits_view_def start_def view_def split: option.splits)
  note g = gap_unseen [OF gap(3,2) at]
  note parts = put_run_parts [OF pr] and hq = heap_put [OF pr lf(2)]
  show "ss_pendingEnd s' = ss_pendingEnd s" using parts(6) by (simp add: s1)
  have run: "run ! i = ss_next s1 + i" if "i < length items" for i using that parts(1) by simp
  have "set run \<inter> set ?xs = {}" using seq_okD(2) [OF ok] parts(1) by (force simp: s1)
  moreover have "\<forall>a\<in>set ?xs. ss_heap s' a = ss_heap s a" using hq(1) by (simp add: hp)
  moreover have "\<forall>i<length items. made_node op (items ! i) anchor i (ss_heap s' (run ! i))"
    using hq(2) run by (simp add: made_node_def run_node_def)
  moreover have "length run = length items" using parts(1) by simp
  moreover have "ss_nodes s' = take at ?xs @ run @ drop at ?xs" using parts(3) by (simp add: hp)
  ultimately show "lands_between s op ?k items anchor all past run s'"
    unfolding lands_between_def using g sp
    by (intro conjI exI [of _ "take at ?xs"] exI [of _ "drop at ?xs"]) simp_all
qed

end
