(* ===== verification/SeqDelete.thy ===== *)
theory SeqDelete
  imports SeqInsert
begin

text \<open>
  Deleting from a merged sequence, by position and by id, and the rest of merging one op: the
  elements a delete takes, and the invariant kept by every op.
\<close>

section \<open>Marking one element\<close>

definition mark_node :: "nat \<Rightarrow> ID \<Rightarrow> (nat \<Rightarrow> seqNode) \<Rightarrow> nat \<Rightarrow> seqNode" where
  "mark_node a d h = h(a := (h a)\<lparr>sn_deleters := sn_deleters (h a) @ [d]\<rparr>)"

lemma mark_node_facts [simp]:
  "sn_left (mark_node a d h x) = sn_left (h x)" "sn_right (mark_node a d h x) = sn_right (h x)"
  "sn_peer (mark_node a d h x) = sn_peer (h x)" "sn_counter (mark_node a d h x) = sn_counter (h x)"
  "sn_value (mark_node a d h x) = sn_value (h x)" "sn_anchor (mark_node a d h x) = sn_anchor (h x)"
  "sn_elem (mark_node a d h x) = sn_elem (h x)"
  "sn_deleters (mark_node a d h x) = [] \<longleftrightarrow> x \<noteq> a \<and> sn_deleters (h x) = []"
  by (simp_all add: mark_node_def)

lemma filter_but_one:
  "distinct xs \<Longrightarrow> int (length (filter (\<lambda>x. x \<noteq> a \<and> P x) xs)) =
    int (length (filter P xs)) - (if a \<in> set xs \<and> P a then 1 else 0)"
proof (induction xs)
  case (Cons x xs)
  show ?case
  proof (cases "x = a")
    case True
    with Cons show ?thesis by simp
  next
    case False
    with Cons show ?thesis by (simp split: if_splits)
  qed
qed simp

text \<open>What marking does to the counts: \<open>live\<close> and the cursor follow.\<close>

definition marked :: "nat \<Rightarrow> ID \<Rightarrow> seqState \<Rightarrow> seqState \<Rightarrow> bool" where
  "marked a d s s' \<longleftrightarrow>
     (\<exists>c l. s' = s\<lparr>ss_heap := mark_node a d (ss_heap s), ss_live := l, ss_cursor := c\<rparr>)"

lemma count_marked:
  assumes "distinct xs"
  shows "int (length (filter (\<lambda>x. sn_deleters (mark_node a d h x) = []) xs)) =
    int (length (filter (\<lambda>x. sn_deleters (h x) = []) xs)) - (if a \<in> set xs \<and> sn_deleters (h a) = [] then 1 else 0)"
  using filter_but_one [OF assms, of a "\<lambda>x. sn_deleters (h x) = []"] by simp

lemma marked_ok:
  assumes ok: "seq_ok s" and m: "marked a d s s'"
    and l: "ss_live s' = ss_live s - (if a \<in> set (ss_nodes s) \<and> is_live s a then 1 else 0)" and c: "cursor_ok s'"
  shows "seq_ok s'"
proof -
  obtain cu lv where s': "s' = s\<lparr>ss_heap := mark_node a d (ss_heap s), ss_live := lv, ss_cursor := cu\<rparr>"
    using m by (auto simp: marked_def)
  have "origins_ok s'" "index_maps_ok s'" using seq_okD(5,6) [OF ok] by (auto simp: s' origins_ok_def index_maps_ok_def)
  moreover have "ss_live s' = int (length (filter (is_live s') (ss_nodes s')))"
  proof -
    have "ss_live s' = int (length (filter (is_live s) (ss_nodes s))) - (if a \<in> set (ss_nodes s) \<and> is_live s a then 1 else 0)"
      using l seq_okD(3) [OF ok] by simp
    then show ?thesis unfolding count_marked [OF seq_okD(1) [OF ok], where a = a and d = d and h = "ss_heap s", symmetric] by (simp add: s')
  qed
  ultimately show ?thesis using ok c by (simp add: seq_ok_def) (simp add: s')
qed

lemma mark_at_marked: "marked a d s (mark_at a i d s)"
proof -
  have "mark_node a d (ss_heap s) = (ss_heap s)(a := (ss_heap s a)\<lparr>sn_deleters := sn_deleters (ss_heap s a) @ [d]\<rparr>)"
    by (simp add: mark_node_def)
  then show ?thesis
    by (cases "is_live s a")
      (auto simp: marked_def mark_at_def Let_def intro!: exI [of _ "ss_cursor (mark_at a i d s)"] exI [of _ "ss_live (mark_at a i d s)"])
qed

lemma mark_at_heap [simp]:
  "ss_heap (mark_at a i d s) = mark_node a d (ss_heap s)" "ss_nodes (mark_at a i d s) = ss_nodes s"
  "ss_elems (mark_at a i d s) = ss_elems s" "ss_elemNext (mark_at a i d s) = ss_elemNext s"
  by (simp_all add: mark_at_def Let_def mark_node_def)

lemma mark_at_ok:
  assumes ok: "seq_ok s" and i: "i < length (ss_nodes s)" and a: "ss_nodes s ! i = a"
  shows "seq_ok (mark_at a i d s)"
proof (rule marked_ok [OF ok mark_at_marked])
  have mem: "a \<in> set (ss_nodes s)" using i a by auto
  show "ss_live (mark_at a i d s) = ss_live s - (if a \<in> set (ss_nodes s) \<and> is_live s a then 1 else 0)"
    using mem by (simp add: mark_at_def Let_def)
  note dist = seq_okD(1) [OF ok]
  have tk: "a \<in> set (take k (ss_nodes s)) \<longleftrightarrow> i < k" for k
    using i a dist by (auto simp: in_set_conv_nth nth_eq_iff_index_eq)
  have b: "before_of (mark_at a i d s) k = before_of s k - (if i < k \<and> is_live s a then 1 else 0)" for k
    using count_marked [OF distinct_take [OF dist], where a = a and d = d and h = "ss_heap s"]
    unfolding before_of_def mark_at_heap tk .
  show "cursor_ok (mark_at a i d s)"
    using seq_okD(4) [OF ok] unfolding cursor_ok_def b by (auto simp: mark_at_def Let_def)
qed

text \<open>By id, where the cursor is dropped.\<close>

lemma drop_cursor_ok:
  assumes ok: "seq_ok s" and a: "a \<in> set (ss_nodes s)"
  defines "s' \<equiv> (if is_live s a then s\<lparr>ss_live := ss_live s - 1, ss_cursor := (ss_cursor s)\<lparr>cu_ok := False\<rparr>\<rparr> else s)"
  shows "seq_ok (s'\<lparr>ss_heap := mark_node a d (ss_heap s)\<rparr>)"
proof (rule marked_ok [OF ok])
  let ?t = "s'\<lparr>ss_heap := mark_node a d (ss_heap s)\<rparr>"
  have t: "?t = s\<lparr>ss_heap := mark_node a d (ss_heap s), ss_live := ss_live s', ss_cursor := ss_cursor s'\<rparr>"
    by (simp add: s'_def)
  then show "marked a d s ?t" unfolding marked_def by blast
  show "ss_live ?t = ss_live s - (if a \<in> set (ss_nodes s) \<and> is_live s a then 1 else 0)" using a by (simp add: s'_def)
  show "cursor_ok ?t"
  proof (cases "is_live s a")
    case True
    then show ?thesis by (simp add: cursor_ok_def s'_def)
  next
    case False
    have "before_of ?t k = before_of s k" for k
      using count_marked [OF distinct_take [OF seq_okD(1) [OF ok]], where a = a and d = d and h = "ss_heap s"] False
      by (simp add: before_of_def s'_def del: mark_node_facts)
    then show ?thesis using seq_okD(4) [OF ok] False by (simp add: cursor_ok_def s'_def)
  qed
qed

lemma mark_ids_ok: "seq_ok s \<Longrightarrow> set as \<subseteq> set (ss_nodes s) \<Longrightarrow> seq_ok (mark_ids span op as s)"
proof (induction span op as s rule: mark_ids.induct)
  case (2 span op a as s)
  show ?case
  proof (cases "atomFor span (sn_counter (ss_heap s a))")
    case None
    with 2 show ?thesis by simp
  next
    case (Some k)
    let ?d = "\<lparr>Peer = op_Peer op, Counter = op_Counter op + k\<rparr>"
    let ?s1 = "if is_live s a then s\<lparr>ss_live := ss_live s - 1, ss_cursor := (ss_cursor s)\<lparr>cu_ok := False\<rparr>\<rparr> else s"
    define s2 where "s2 = ?s1\<lparr>ss_heap := mark_node a ?d (ss_heap s)\<rparr>"
    have h2: "s2 = ?s1\<lparr>ss_heap := (ss_heap ?s1)(a := (ss_heap s a)\<lparr>sn_deleters := sn_deleters (ss_heap s a) @ [?d]\<rparr>)\<rparr>"
      by (simp add: s2_def mark_node_def)
    have "seq_ok s2" unfolding s2_def using "2.prems" by (intro drop_cursor_ok) auto
    moreover have "set as \<subseteq> set (ss_nodes s2)" using "2.prems" by (simp add: s2_def)
    ultimately have "seq_ok (mark_ids span op as s2)"
      using "2.IH"(2) [OF refl Some refl] unfolding h2 by blast
    moreover have "mark_ids span op (a # as) s = mark_ids span op as s2"
      by (subst mark_ids.simps) (simp only: Let_def Some option.case h2)
    ultimately show ?thesis by simp
  qed
qed simp

lemma remove_ids_ok:
  assumes ok: "seq_ok s" and f: "remove_ids s w op = Inr (s', w')"
  shows "seq_ok s'"
proof (cases "op_Value op")
  case (ODelete span)
  note m = seq_okD(6) [OF ok, unfolded index_maps_ok_def]
  obtain start n where nm: "Normalize span = (start, n)" by fastforce
  define cs where "cs = map (\<lambda>k. start + of_nat k) [0..<nat (sint (start + n) - sint start)]"
  define found where "found = concat (map (\<lambda>c. case ss_byID s \<lparr>Peer = ds_Peer span, Counter = c\<rparr> of None \<Rightarrow> [] | Some a \<Rightarrow> [a]) cs)"
  have "set found \<subseteq> set (ss_nodes s)" using m by (auto simp: found_def split: option.splits)
  moreover have "s' = mark_ids span op found s \<or> s' = mark_ids span op (ss_byPeer s (ds_Peer span)) s"
    using f ODelete nm by (auto simp: remove_ids_def Let_def bindR_Inr_iff found_def cs_def split: if_splits)
  ultimately obtain as where "s' = mark_ids span op as s" "set as \<subseteq> set (ss_nodes s)" using m by blast
  then show ?thesis using mark_ids_ok [OF ok] by simp
qed (use assms in \<open>simp_all add: remove_ids_def\<close>)

section \<open>Deleting by position\<close>

text \<open>\<open>removeAt\<close> computes with the op's numbers; these bounds keep that from wrapping.\<close>

definition delete_fits :: "Op \<Rightarrow> bool" where
  "delete_fits op \<longleftrightarrow>
     (case op_Value op of
        ODelete d \<Rightarrow> 0 \<le> sint (snd (Normalize d)) \<and> sint (snd (Normalize d)) < 2 ^ 62 \<and> \<bar>sint (op_Pos op)\<bar> < 2 ^ 62
      | _ \<Rightarrow> True)"

text \<open>The lowest position a delete takes, the number it takes, and the atom that takes the \<open>k\<close>-th.\<close>

definition delete_low :: "Op \<Rightarrow> DeleteSpan \<Rightarrow> int" where
  "delete_low op d = (if sint (ds_Len d) < 0 then sint (op_Pos op) - sint (snd (Normalize d)) + 1 else sint (op_Pos op))"

definition delete_atom :: "Op \<Rightarrow> DeleteSpan \<Rightarrow> nat \<Rightarrow> ID" where
  "delete_atom op d k = \<lparr>Peer = op_Peer op, Counter = op_Counter op +
     (if sint (ds_Len d) < 0 then snd (Normalize d) - 1 - of_nat k else of_nat k)\<rparr>"

text \<open>Within those bounds the words mean their numbers.\<close>

lemma delete_low_word:
  assumes v: "op_Value op = ODelete d" and df: "delete_fits op"
    and low: "low = (if sint (ds_Len d) < 0 then op_Pos op - snd (Normalize d) + 1 else op_Pos op)"
  shows "sint low = delete_low op d" and "sint low < 2 ^ 62 + 1" and "- (2 ^ 63) < sint low"
    and "sint (low + snd (Normalize d)) = sint low + sint (snd (Normalize d))"
proof -
  define nw where "nw = snd (Normalize d)"
  have b: "0 \<le> sint nw" "sint nw < 2 ^ 62" "\<bar>sint (op_Pos op)\<bar> < 2 ^ 62"
    using df v by (simp_all add: delete_fits_def nw_def)
  have "sint (op_Pos op - nw) = sint (op_Pos op) - sint nw" using b by ((intro sint_diff), simp_all)
  moreover have "sint (op_Pos op - nw + 1) = sint (op_Pos op - nw) + 1"
    using b calculation by ((subst sint_add), simp_all)
  ultimately show l: "sint low = delete_low op d" by (simp add: low delete_low_def nw_def)
  show lb: "sint low < 2 ^ 62 + 1" "- (2 ^ 63) < sint low"
    unfolding l delete_low_def nw_def [symmetric] using b by (auto simp: abs_less_iff)
  show "sint (low + snd (Normalize d)) = sint low + sint (snd (Normalize d))"
    using b lb unfolding nw_def [symmetric] by ((intro sint_add), simp_all)
qed

definition takes :: "seqState \<Rightarrow> (nat \<Rightarrow> ID) \<Rightarrow> nat list \<Rightarrow> seqState \<Rightarrow> bool" where
  "takes s atom ts s' \<longleftrightarrow> ss_nodes s' = ss_nodes s \<and>
     (\<forall>k<length ts. ss_heap s' (ts ! k) =
        (ss_heap s (ts ! k))\<lparr>sn_deleters := sn_deleters (ss_heap s (ts ! k)) @ [atom k]\<rparr>) \<and>
     (\<forall>a. a \<notin> set ts \<longrightarrow> ss_heap s' a = ss_heap s a)"

lemma targets_from_meaning:
  "targets_from h vis low xs i seen n steps = (ts, st) \<Longrightarrow> sint seen + int (length xs) < 2 ^ 63 \<Longrightarrow>
    map fst ts = take n (drop (nat (sint low - sint seen)) (filter vis xs)) \<and>
    (\<forall>t\<in>set ts. i \<le> snd t \<and> snd t < i + length xs \<and> xs ! (snd t - i) = fst t)"
proof (induction h vis low xs i seen n steps arbitrary: ts st rule: targets_from.induct)
  case (2 h vis low a as i seen n steps)
  let ?st = "steps + 1 + int (length (sn_deleters (h a)))"
  have one: "sint (seen + 1) = sint seen + 1"
    using sint_i64_range(1) [of seen] "2.prems"(2) by (simp add: sint_add)
  consider (stop) "n = 0" | (skip) "n \<noteq> 0" "\<not> vis a" | (take) "n \<noteq> 0" "vis a" "sleq low seen"
    | (pass) "n \<noteq> 0" "vis a" "\<not> sleq low seen" by blast
  then show ?case
  proof cases
    case stop
    with "2.prems" show ?thesis by simp
  next
    case skip
    then have t: "targets_from h vis low as (i + 1) seen n ?st = (ts, st)" using "2.prems" by simp
    note ih = "2.IH"(1) [OF skip(1) refl skip(2) t]
    then have "\<forall>t\<in>set ts. i + 1 \<le> snd t \<and> snd t < i + 1 + length as \<and> as ! (snd t - (i + 1)) = fst t"
      using "2.prems" by simp
    then have "\<forall>t\<in>set ts. i \<le> snd t \<and> snd t < i + length (a # as) \<and> (a # as) ! (snd t - i) = fst t"
      by (auto simp: nth_Cons')
    with ih skip "2.prems" show ?thesis by simp
  next
    case take
    obtain ts' st' where t: "targets_from h vis low as (i + 1) (seen + 1) (n - 1) ?st = (ts', st')" by fastforce
    have e: "ts = (a, i) # ts'" using "2.prems" take t by simp
    have "\<not> \<not> vis a" using take by simp
    note ih = "2.IH"(2) [OF take(1) refl this take(3) t]
    then have "\<forall>t\<in>set ts'. i + 1 \<le> snd t \<and> snd t < i + 1 + length as \<and> as ! (snd t - (i + 1)) = fst t"
      using "2.prems" one by simp
    then have "\<forall>t\<in>set ts. i \<le> snd t \<and> snd t < i + length (a # as) \<and> (a # as) ! (snd t - i) = fst t"
      by (auto simp: nth_Cons' e)
    moreover have "map fst ts = take n (drop (nat (sint low - sint seen)) (filter vis (a # as)))"
      using ih take "2.prems"(2) one by (simp add: e take_Cons')
    ultimately show ?thesis by blast
  next
    case pass
    then have t: "targets_from h vis low as (i + 1) (seen + 1) n ?st = (ts, st)" using "2.prems" by simp
    have "\<not> \<not> vis a" using pass by simp
    note ih = "2.IH"(3) [OF pass(1) refl this pass(3) t]
    then have "\<forall>t\<in>set ts. i + 1 \<le> snd t \<and> snd t < i + 1 + length as \<and> as ! (snd t - (i + 1)) = fst t"
      using "2.prems" one by simp
    then have "\<forall>t\<in>set ts. i \<le> snd t \<and> snd t < i + length (a # as) \<and> (a # as) ! (snd t - i) = fst t"
      by (auto simp: nth_Cons')
    moreover have "nat (sint low - sint seen) = nat (sint low - sint (seen + 1)) + 1" using pass(3) by (simp add: one)
    ultimately show ?thesis using ih pass "2.prems"(2) one by (simp del: diff_diff_eq2)
  qed
qed simp

text \<open>Marking the targets one after the other.\<close>

lemma mark_targets_takes:
  "seq_ok s \<Longrightarrow> distinct (map fst ts) \<Longrightarrow> \<forall>t\<in>set ts. snd t < length (ss_nodes s) \<and> ss_nodes s ! snd t = fst t \<Longrightarrow>
    s' = mark_targets op atom ts k s \<Longrightarrow>
    seq_ok s' \<and> takes s (\<lambda>j. \<lparr>Peer = op_Peer op, Counter = op_Counter op + atom (k + j)\<rparr>) (map fst ts) s'"
proof (induction ts arbitrary: k s)
  case Nil
  then show ?case by (simp add: takes_def)
next
  case (Cons t ts)
  obtain a i where t: "t = (a, i)" by fastforce
  let ?id = "\<lambda>j. \<lparr>Peer = op_Peer op, Counter = op_Counter op + atom (k + j)\<rparr>"
  define s1 where "s1 = mark_at a i (?id 0) s"
  have s1: "seq_ok s1" unfolding s1_def using Cons.prems t by (intro mark_at_ok) simp_all
  have h: "ss_heap s1 = mark_node a (?id 0) (ss_heap s)" "ss_nodes s1 = ss_nodes s" by (simp_all add: s1_def)
  have e: "s' = mark_targets op atom ts (k + 1) s1" using Cons.prems(4) by (simp add: t s1_def)
  have ih: "seq_ok s' \<and> takes s1 (\<lambda>j. ?id (j + 1)) (map fst ts) s'"
    using Cons.IH [OF s1 _ _ e] Cons.prems(2,3) by (simp add: h add.commute)
  have d: "a \<notin> set (map fst ts)" using Cons.prems(2) t by simp
  have hn: "x \<noteq> a \<Longrightarrow> ss_heap s1 x = ss_heap s x" for x by (simp add: h mark_node_def)
  have ha: "ss_heap s1 a = (ss_heap s a)\<lparr>sn_deleters := sn_deleters (ss_heap s a) @ [?id 0]\<rparr>" by (simp add: h mark_node_def)
  note tk = ih [THEN conjunct2, unfolded takes_def]
  have "ss_heap s' (map fst (t # ts) ! j) = (ss_heap s (map fst (t # ts) ! j))
      \<lparr>sn_deleters := sn_deleters (ss_heap s (map fst (t # ts) ! j)) @ [?id j]\<rparr>" if j: "j < length (map fst (t # ts))" for j
  proof (cases j)
    case 0
    then show ?thesis using tk d ha by (simp add: t)
  next
    case (Suc m)
    then have "map fst ts ! m \<noteq> a" "m < length (map fst ts)" using j d by (metis length_Cons list.simps(9) nth_mem Suc_less_eq)+
    then show ?thesis using tk hn [of "map fst ts ! m"] Suc by simp
  qed
  moreover have "ss_heap s' x = ss_heap s x" if "x \<notin> set (map fst (t # ts))" for x
    using that tk hn [of x] by (simp add: t)
  ultimately show ?case using ih tk by (simp add: takes_def h)
qed

lemma locate_from:
  assumes ok: "seq_ok s" and fit: "length (ss_nodes s) < 2 ^ 63" and p: "1 \<le> sint pos" "sint pos \<le> ss_live s"
    and f: "locate s w pos True past = Inr (left, s', w')"
  shows "\<exists>i. left = Some i \<and> i < length (ss_nodes s) \<and>
    filter (is_live s) (drop i (ss_nodes s)) = drop (nat (sint pos) - 1) (view s True past)"
proof -
  let ?v = "view s True past" and ?xs = "ss_nodes s"
  note lf = locate_finds [OF ok fit p(1) f]
  have lv: "ss_live s = int (length ?v)" using seq_okD(3) [OF ok] by (simp add: view_True)
  have k: "reach pos ?v = nat (sint pos)" using p lv by (simp add: reach_def)
  obtain i where i: "left = Some i" "i < length ?xs" "is_live s (?xs ! i)"
    "filter (is_live s) (take (i + 1) ?xs) = take (nat (sint pos)) ?v"
    "filter (is_live s) (drop (i + 1) ?xs) = drop (nat (sint pos)) ?v"
    using lf(1,2) k lv p by (cases left) (auto simp: splits_view_def visible_all)
  have "0 < nat (sint pos)" "nat (sint pos) \<le> length ?v" using p lv by linarith+
  then obtain m where m: "nat (sint pos) = Suc m" "m < length ?v" by (cases "nat (sint pos)") auto
  have "filter (is_live s) (take i ?xs) @ [?xs ! i] = take m ?v @ [?v ! m]"
    using i(2,3,4) m by (simp add: take_Suc_conv_app_nth)
  then have "?xs ! i = ?v ! m" by simp
  then have "filter (is_live s) (drop i ?xs) = ?v ! m # drop (Suc m) ?v"
    using i(2,3,5) m by (simp add: Cons_nth_drop_Suc [symmetric])
  with i m show ?thesis by (simp add: Cons_nth_drop_Suc)
qed

lemma removeAt_takes:
  assumes ok: "seq_ok s" and fit: "length (ss_nodes s) < 2 ^ 62" and v: "op_Value op = ODelete d" and df: "delete_fits op"
    and f: "removeAt s w op all past = Inr (done, s', w')"
  defines "n \<equiv> nat (sint (snd (Normalize d)))"
  shows "seq_ok s'" and "done \<longleftrightarrow> 0 < n \<and> 0 \<le> delete_low op d \<and> nat (delete_low op d) + n \<le> length (view s all past)"
    and "done \<Longrightarrow> takes s (delete_atom op d) (take n (drop (nat (delete_low op d)) (view s all past))) s'"
    and "\<not> done \<Longrightarrow> \<exists>c. s' = s\<lparr>ss_cursor := c\<rparr>"
proof -
  let ?xs = "ss_nodes s" and ?v = "view s all past" and ?V = "visible_in s all past"
  define nw where "nw = snd (Normalize d)"
  define low where "low = (if sint (ds_Len d) < 0 then op_Pos op - nw + 1 else op_Pos op)"
  have b: "0 \<le> sint nw" "sint nw < 2 ^ 62" "\<bar>sint (op_Pos op)\<bar> < 2 ^ 62"
    using df v by (simp_all add: delete_fits_def nw_def)
  note lw = delete_low_word [OF v df, folded nw_def, OF low_def]
  have low: "sint low = delete_low op d" and lb: "sint low < 2 ^ 62 + 1" "- (2 ^ 63) < sint low"
    and sum: "sint (low + nw) = sint low + sint nw" using lw by simp_all
  have one: "sint (low + 1) = sint low + 1" using lb by ((subst sint_add), simp_all)
  have n: "int n = sint nw" "n = nat (sint nw)" using b by (simp_all add: n_def nw_def)
  have lv: "all \<Longrightarrow> ss_live s = int (length ?v)" using seq_okD(3) [OF ok] by (simp add: view_True)
  have vl: "length ?v \<le> length ?xs" by (simp add: view_def)
  define bad where "bad \<longleftrightarrow> nw = 0 \<or> sint low < 0 \<or> all \<and> sint (low + nw) > ss_live s"
  have code: "removeAt s w op all past =
     (if bad then (if sw_strict w then Inl beyondView else Inr (False, s, w))
      else bindR (if all then bindR (locate s w (low + 1) True past) (\<lambda>(i, s, w).
                     case i of None \<Rightarrow> Inl GoPanic | Some i \<Rightarrow> Inr (i, low, s, w)) else Inr (0, 0, s, w)) (\<lambda>(frm, seen, s, w).
              case targets_from (ss_heap s) (visible_in s all past) low (drop frm (ss_nodes s)) frm seen (nat (sint nw)) 0 of
                (ts, steps) \<Rightarrow>
                  bindR (spend steps w) (\<lambda>w.
                    if int (length ts) < sint nw then
                      (if sw_strict w then Inl beyondView else Inr (False, s, w))
                    else
                      Inr (True,
                        mark_targets op (\<lambda>k. if sint (ds_Len d) < 0 then nw - 1 - of_nat k else of_nat k) ts 0 s, w))))"
    unfolding removeAt_def v opval.case Let_def nw_def [symmetric] low_def [symmetric] bad_def ..
  have nw0: "nw = 0 \<longleftrightarrow> n = 0" 
  proof -
    have "n = 0 \<longleftrightarrow> sint nw = sint (0 :: i64)" using b(1) n(2) by simp
    then show ?thesis unfolding sint_eq by blast
  qed
  let ?goal = "seq_ok s' \<and> (done \<longleftrightarrow> 0 < n \<and> 0 \<le> delete_low op d \<and> nat (delete_low op d) + n \<le> length ?v) \<and>
    (done \<longrightarrow> takes s (delete_atom op d) (take n (drop (nat (delete_low op d)) ?v)) s') \<and>
    (\<not> done \<longrightarrow> (\<exists>c. s' = s\<lparr>ss_cursor := c\<rparr>))"
  have ?goal
  proof (cases bad)
    case True
    then have "done = False" "s' = s" using f code by (auto split: if_splits)
    moreover have "\<not> (0 < n \<and> 0 \<le> delete_low op d \<and> nat (delete_low op d) + n \<le> length ?v)"
      using True nw0 low sum n lv by (auto simp: bad_def)
    ultimately show ?thesis using ok same_cursor [of s] by blast
  next
    case False
    then have lo: "0 \<le> sint low" "0 < n" "all \<Longrightarrow> sint low + int n \<le> ss_live s"
      using nw0 sum n by (auto simp: bad_def)
    let ?start = "if all then bindR (locate s w (low + 1) True past) (\<lambda>(i, s, w).
         case i of None \<Rightarrow> Inl GoPanic | Some i \<Rightarrow> Inr (i, low, s, w)) else Inr (0, 0, s, w)"
    let ?rest = "\<lambda>(frm, seen, s, w).
              case targets_from (ss_heap s) (visible_in s all past) low (drop frm (ss_nodes s)) frm seen (nat (sint nw)) 0 of
                (ts, steps) \<Rightarrow>
                  bindR (spend steps w) (\<lambda>w.
                    if int (length ts) < sint nw then
                      (if sw_strict w then Inl beyondView else Inr (False, s, w))
                    else
                      Inr (True,
                        mark_targets op (\<lambda>k. if sint (ds_Len d) < 0 then nw - 1 - of_nat k else of_nat k) ts 0 s, w))"
    obtain frm seen s1 w1 where st: "(if all then bindR (locate s w (low + 1) True past) (\<lambda>(i, s, w).
         case i of None \<Rightarrow> Inl GoPanic | Some i \<Rightarrow> Inr (i, low, s, w)) else Inr (0, 0, s, w)) = Inr (frm, seen, s1, w1)"
      and rest: "(case targets_from (ss_heap s1) (visible_in s1 all past) low (drop frm (ss_nodes s1)) frm seen (nat (sint nw)) 0 of
                (ts, steps) \<Rightarrow>
                  bindR (spend steps w1) (\<lambda>w.
                    if int (length ts) < sint nw then
                      (if sw_strict w then Inl beyondView else Inr (False, s1, w))
                    else
                      Inr (True,
                        mark_targets op (\<lambda>k. if sint (ds_Len d) < 0 then nw - 1 - of_nat k else of_nat k) ts 0 s1, w)))
          = Inr (done, s', w')"
    proof -
      have "bindR ?start ?rest = Inr (done, s', w')" using f unfolding code if_not_P [OF False] .
      then obtain x where x: "?start = Inr x" "?rest x = Inr (done, s', w')" by (rule bindR_InrE)
      obtain frm seen s1 w1 where e: "x = (frm, seen, s1, w1)" by (cases x) 
      show thesis by (rule that [OF x(1) [unfolded e]]) (use x(2) e in simp)
    qed
    have s1: "seq_ok s1 \<and> (\<exists>c. s1 = s\<lparr>ss_cursor := c\<rparr>) \<and> frm \<le> length ?xs \<and> sint seen \<le> sint low \<and> 0 \<le> sint seen \<and>
        drop (nat (sint low - sint seen)) (filter ?V (drop frm ?xs)) = drop (nat (sint low)) ?v"
    proof (cases all)
      case True
      then obtain i where i: "locate s w (low + 1) True past = Inr (Some i, s1, w1)" "frm = i" "seen = low"
        using st by (auto simp: bindR_Inr_iff split: option.splits)
      have fit': "length ?xs < 2 ^ 63" using fit by simp
      have p: "1 \<le> sint (low + 1)" "sint (low + 1) \<le> ss_live s" using lo True by (simp_all add: one)
      have k: "nat (sint (low + 1)) - 1 = nat (sint low)" using lo(1) by (simp add: one)
      have "i < length ?xs \<and> filter (is_live s) (drop i ?xs) = drop (nat (sint low)) (view s True past)"
        using locate_from [OF ok fit' p i(1)] k by auto
      with locate_finds(3,4) [OF ok fit' p(1) i(1)] i lo(1) True show ?thesis by (simp add: visible_all)
    next
      case False
      then have "frm = 0" "seen = 0" "s1 = s" using st by simp_all
      with ok lo(1) same_cursor [of s] show ?thesis by (simp add: view_def)
    qed
    then obtain c where c: "s1 = s\<lparr>ss_cursor := c\<rparr>" by blast
    have hp: "ss_heap s1 = ss_heap s" "ss_nodes s1 = ?xs" "visible_in s1 all past = ?V"
      by (auto simp: c visible_in_def fun_eq_iff)
    obtain ts st where ts: "targets_from (ss_heap s) ?V low (drop frm ?xs) frm seen n 0 = (ts, st)" by fastforce
    have "sint seen + int (length (drop frm ?xs)) < 2 ^ 63" using s1 lb fit by simp
    note tm = targets_from_meaning [OF ts this]
    have m: "map fst ts = take n (drop (nat (sint low)) ?v)" using tm s1 by simp
    have len: "length ts = min n (length ?v - nat (sint low))" using arg_cong [OF m, of length] by (simp add: min.commute)
    have r: "if length ts < n then done = False \<and> s' = s1 else done = True \<and>
        s' = mark_targets op (\<lambda>k. if sint (ds_Len d) < 0 then nw - 1 - of_nat k else of_nat k) ts 0 s1"
      using rest ts n unfolding hp n(2) [symmetric] by (auto simp: bindR_Inr_iff split: if_splits)
    have dn: "length ts < n \<longleftrightarrow> \<not> nat (delete_low op d) + n \<le> length ?v" using len lo(2) low by auto
    show ?thesis
    proof (cases "length ts < n")
      case True
      with r dn s1 c show ?thesis by auto
    next
      case False
      have pos: "\<forall>t\<in>set ts. snd t < length (ss_nodes s1) \<and> ss_nodes s1 ! snd t = fst t"
        using tm s1 unfolding hp by (auto simp: nth_drop)
      have "distinct ?v" using seq_okD(1) [OF ok] by (simp add: view_def)
      then have "distinct (map fst ts)" unfolding m by simp
      note mt = mark_targets_takes [OF s1 [THEN conjunct1] this pos]
      let ?atom = "\<lambda>k. if sint (ds_Len d) < 0 then nw - 1 - of_nat k else of_nat k"
      have "delete_atom op d = (\<lambda>j. \<lparr>Peer = op_Peer op, Counter = op_Counter op + ?atom (0 + j)\<rparr>)"
        by (simp add: delete_atom_def nw_def fun_eq_iff)
      have "s' = mark_targets op ?atom ts 0 s1" using r False by simp
      note sm = mt [OF this]
      note ok' = conjunct1 [OF sm]
      have "takes s1 (delete_atom op d) (map fst ts) s'"
        unfolding \<open>delete_atom op d = _\<close> by (rule conjunct2 [OF sm])
      then have "takes s (delete_atom op d) (map fst ts) s'" by (simp add: takes_def hp)
      then have "takes s (delete_atom op d) (take n (drop (nat (delete_low op d)) ?v)) s'" by (simp add: m low)
      moreover have "done" using r False by simp
      moreover have "0 < n \<and> 0 \<le> delete_low op d \<and> nat (delete_low op d) + n \<le> length ?v"
        using False dn lo low by simp
      ultimately show ?thesis using ok' by blast
    qed
  qed
  then show "seq_ok s'" and "done \<longleftrightarrow> 0 < n \<and> 0 \<le> delete_low op d \<and> nat (delete_low op d) + n \<le> length (view s all past)"
    and "done \<Longrightarrow> takes s (delete_atom op d) (take n (drop (nat (delete_low op d)) (view s all past))) s'"
    and "\<not> done \<Longrightarrow> \<exists>c. s' = s\<lparr>ss_cursor := c\<rparr>" by blast+
qed

section \<open>Every op keeps the invariant\<close>

lemma nthVisible_ok:
  assumes ok: "seq_ok s" and fit: "length (ss_nodes s) < 2 ^ 63" and f: "nthVisible s w i all past = Inr (src, s', w')"
  shows "seq_ok s'" and "\<exists>c. s' = s\<lparr>ss_cursor := c\<rparr>"
    and "src = Some j \<Longrightarrow> j < length (ss_nodes s) \<and> nat (sint i) < length (view s all past) \<and>
      ss_nodes s ! j = view s all past ! nat (sint i)"
proof -
  let ?v = "view s all past" and ?xs = "ss_nodes s" and ?V = "visible_in s all past"
  have "seq_ok s' \<and> (\<exists>c. s' = s\<lparr>ss_cursor := c\<rparr>) \<and> (\<forall>j. src = Some j \<longrightarrow> j < length ?xs \<and> nat (sint i) < length ?v \<and>
    ?xs ! j = ?v ! nat (sint i))"
  proof (cases "sint i < 0 \<or> all \<and> sint i \<ge> ss_live s")
    case True
    then have "src = None" "s' = s" using f by (auto simp: nthVisible_def split: if_splits)
    then show ?thesis using ok same_cursor [of s] by simp
  next
    case False
    show ?thesis
    proof (cases all)
      case True
      then have l: "locate s w (i + 1) True past = Inr (src, s', w')" using f False by (simp add: nthVisible_def)
      have lv: "ss_live s = int (length ?v)" using seq_okD(3) [OF ok] True by (simp add: view_True)
      have "int (length ?v) < 2 ^ 63" 
        using le_less_trans [OF length_filter_le fit, of ?V] by (simp add: view_def)
      then have one: "sint (i + 1) = sint i + 1" using False True lv by (subst sint_add) auto
      have p: "1 \<le> sint (i + 1)" "sint (i + 1) \<le> ss_live s" using False True by (simp_all add: one)
      obtain k where k: "src = Some k" "k < length ?xs" "filter (is_live s) (drop k ?xs) = drop (nat (sint (i + 1)) - 1) ?v"
        "is_live s (?xs ! k)"
        using locate_from [OF ok fit p l] locate_finds(1) [OF ok fit p(1) l] True by (auto simp: splits_view_def visible_all)
      have "nat (sint (i + 1)) - 1 = nat (sint i)" using False by (simp add: one)
      moreover have "nat (sint i) < length ?v" using False True lv by auto
      ultimately have "?xs ! k = ?v ! nat (sint i)"
        using k(2,3,4) by (simp add: Cons_nth_drop_Suc [symmetric])
      with k \<open>nat (sint i) < length ?v\<close> locate_finds(3,4) [OF ok fit p(1) l] show ?thesis by simp
    next
      case past: False
      let ?P = "\<lambda>a. in_past past (ss_heap s a)"
      obtain found k st where sc: "scan_view (ss_heap s) past (sint i + 1) ?xs 0 0 None 0 = (found, k, st)"
        by (cases "scan_view (ss_heap s) past (sint i + 1) ?xs 0 0 None 0") auto
      have r: "src = (if found then k else None)" "s' = s"
        using f past False sc by (auto simp: nthVisible_def bindR_Inr_iff)
      have v: "?v = filter ?P ?xs" using past by (simp add: view_def visible_past)
      have "j < length ?xs \<and> nat (sint i) < length ?v \<and> ?xs ! j = ?v ! nat (sint i)" if j: "src = Some j" for j
      proof -
        have found using j r by (auto split: if_splits)
        then have le: "sint i + 1 \<le> int (length (filter ?P ?xs))" using scan_view_beyond [OF sc] by linarith
        obtain m where m: "k = Some m" "m < length ?xs" "?P (?xs ! m)" "int (length (filter ?P (take m ?xs))) = sint i"
          using scan_view_finds [OF sc _ _] le False by auto
        have n: "length (filter ?P (take m ?xs)) = nat (sint i)" using m(4) by linarith
        note fa = filter_at [OF m(2), of ?P, OF m(3) n]
        have "filter ?P (take (m + 1) ?xs) = filter ?P (take m ?xs) @ [?xs ! m]" using m by (simp add: take_Suc_conv_app_nth)
        moreover have "take (nat (sint i) + 1) (filter ?P ?xs) = take (nat (sint i)) (filter ?P ?xs) @ [filter ?P ?xs ! nat (sint i)]"
          using fa(3) by (simp add: take_Suc_conv_app_nth)
        ultimately have "?xs ! m = filter ?P ?xs ! nat (sint i)" using fa(1) by simp
        then show ?thesis using m j r \<open>found\<close> fa(3) v by simp
      qed
      then show ?thesis using r ok same_cursor [of s] by blast
    qed
  qed
  then show "seq_ok s'" and "\<exists>c. s' = s\<lparr>ss_cursor := c\<rparr>"
    and "src = Some j \<Longrightarrow> j < length ?xs \<and> nat (sint i) < length ?v \<and> ?xs ! j = ?v ! nat (sint i)" by blast+
qed

text \<open>Changes outside what the invariant reads.\<close>

lemma seq_ok_elem: "seq_ok s \<Longrightarrow> (\<forall>a. sn_deleters (h a) = sn_deleters (ss_heap s a) \<and> sn_left (h a) = sn_left (ss_heap s a) \<and>
    sn_right (h a) = sn_right (ss_heap s a)) \<Longrightarrow> seq_ok (s\<lparr>ss_heap := h\<rparr>)"
  by (simp add: seq_ok_def cursor_ok_def origins_ok_def index_maps_ok_def before_of_def)

lemma seq_ok_pending: "seq_ok (s\<lparr>ss_pendingEnd := p\<rparr>) \<longleftrightarrow> seq_ok s"
  by (simp add: seq_ok_def cursor_ok_def origins_ok_def index_maps_ok_def before_of_def)

lemma seq_ok_elems:
  "seq_ok s \<Longrightarrow> (\<forall>e < ss_elemNext s. me_pos (h e) \<in> set (ss_nodes s)) \<Longrightarrow> seq_ok (s\<lparr>ss_elemHeap := h\<rparr>)"
  by (simp add: seq_ok_def cursor_ok_def origins_ok_def index_maps_ok_def before_of_def)

lemma seq_set_ok: "seq_ok s \<Longrightarrow> seq_ok (seq_set op s)"
proof -
  assume ok: "seq_ok s"
  note m = seq_okD(6) [OF ok, unfolded index_maps_ok_def]
  show ?thesis
    unfolding seq_set_def using ok m
    by (auto simp: Let_def intro!: seq_ok_elems split: opval.splits option.splits)
qed

lemma new_elems_ok: "seq_ok s \<Longrightarrow> set run \<subseteq> set (ss_nodes s) \<Longrightarrow> seq_ok (new_elems op vs run k s)"
proof (induction op vs run k s rule: new_elems.induct)
  case (1 op v vs n run k s)
  let ?wr = "\<lparr>wr_lamport = op_Lamport op + of_nat k, wr_peer = op_Peer op\<rparr>"
  let ?key = "\<lparr>le_Peer = op_Peer op, le_Lamport = wr_lamport ?wr\<rparr>"
  let ?nd = "ss_heap s n" and ?e = "ss_elemNext s"
  let ?el = "\<lparr>me_key = ?key, me_value = v, me_valueWriter = ?wr, me_valueID = \<lparr>Peer = op_Peer op, Counter = sn_counter ?nd\<rparr>,
    me_valueSet = False, me_pos = n, me_posWriter = ?wr\<rparr>"
  define s1 where "s1 = s\<lparr>ss_heap := (ss_heap s)(n := ?nd\<lparr>sn_elem := Some ?e, sn_value := SNil\<rparr>)\<rparr>"
  define s2 where "s2 = s\<lparr>ss_elemHeap := (ss_elemHeap s)(?e := ?el), ss_elemNext := ?e + 1,
    ss_heap := (ss_heap s)(n := ?nd\<lparr>sn_elem := Some ?e, sn_value := SNil\<rparr>), ss_elems := (ss_elems s)(?key \<mapsto> ?e)\<rparr>"
  have s2: "s2 = s1\<lparr>ss_elemHeap := (ss_elemHeap s)(?e := ?el), ss_elemNext := ?e + 1, ss_elems := (ss_elems s)(?key \<mapsto> ?e)\<rparr>" by (simp add: s1_def s2_def)
  have s1: "seq_ok s1" unfolding s1_def using 1(2) by (rule seq_ok_elem) simp
  note m = seq_okD(6) [OF s1, unfolded index_maps_ok_def]
  have "index_maps_ok s2"
    using m "1.prems"(2) unfolding index_maps_ok_def s2 s1_def by (auto simp: less_Suc_eq)
  moreover have "cursor_ok s2 = cursor_ok s1" "origins_ok s2 = origins_ok s1"
    by (simp_all add: cursor_ok_def origins_ok_def before_of_def s2)
  ultimately have "seq_ok s2" using s1 unfolding seq_ok_def by (simp add: s2)
  moreover have "set run \<subseteq> set (ss_nodes s2)" using "1.prems"(2) by (simp add: s2_def s1_def)
  ultimately have "seq_ok (new_elems op vs run (k + 1) s2)"
    using "1.IH" [OF refl refl refl refl] unfolding s2_def by blast
  moreover have "new_elems op (v # vs) (n # run) k s = new_elems op vs run (k + 1) s2"
    by (subst new_elems.simps) (simp only: Let_def s2_def)
  ultimately show ?case by simp
qed simp_all

end
