(* ===== verification/SeqApply.thy ===== *)
theory SeqApply
  imports SeqDelete
begin

text \<open>
  Merging one op keeps the invariant of a sequence, and never reorders or drops an element.
\<close>

lemma mark_ids_nodes: "ss_nodes (mark_ids span op as s) = ss_nodes s"
  by (induction as arbitrary: s) (simp_all add: Let_def split: option.splits)

lemma remove_ids_nodes: "remove_ids s w op = Inr (s', w') \<Longrightarrow> ss_nodes s' = ss_nodes s"
  by (auto simp: remove_ids_def Let_def bindR_Inr_iff mark_ids_nodes split: opval.splits prod.splits if_splits)

lemma new_elems_nodes: "ss_nodes (new_elems op vs run k s) = ss_nodes s"
  by (induction op vs run k s rule: new_elems.induct) (simp_all add: Let_def)

lemma seq_set_nodes: "ss_nodes (seq_set op s) = ss_nodes s"
  by (simp add: seq_set_def Let_def split: opval.splits option.splits)

text \<open>
  What is kept from one state to the next: nothing is reordered or dropped, and at most \<open>k\<close>
  elements are new.
\<close>

definition extends :: "nat \<Rightarrow> seqState \<Rightarrow> seqState \<Rightarrow> bool" where
  "extends k s s' \<longleftrightarrow> seq_ok s' \<and> subseq (ss_nodes s) (ss_nodes s') \<and> length (ss_nodes s') \<le> length (ss_nodes s) + k"

lemma extendsI: "seq_ok s' \<Longrightarrow> ss_nodes s' = ss_nodes s \<Longrightarrow> extends k s s'"
  by (simp add: extends_def)

lemma extends_trans: "extends j s t \<Longrightarrow> extends k t u \<Longrightarrow> j + k \<le> n \<Longrightarrow> extends n s u"
  by (auto simp: extends_def intro: subseq_order.trans)

text \<open>The elements an op can add.\<close>

definition op_size :: "Op \<Rightarrow> nat" where
  "op_size op = (case op_Value op of OVal (LStr x) \<Rightarrow> max 1 (length (runes x)) | OVal (LList xs) \<Rightarrow> max 1 (length xs) | _ \<Rightarrow> 1)"

lemma op_size_pos: "1 \<le> op_size op"
  by (simp add: op_size_def split: opval.splits lval.splits)

lemma lands_between_subseq: "lands_between s op k items anchor all past run s' \<Longrightarrow> subseq (ss_nodes s) (ss_nodes s')"
  by (auto simp: lands_between_def subseq_insert)

lemma seq_insert_extends:
  assumes ok: "seq_ok s" and fit: "length (ss_nodes s) < 2 ^ 63"
    and f: "seq_insert s w op pos items anchor all past = Inr (run, s', w')"
  shows "extends (length items) s s' \<and> set run \<subseteq> set (ss_nodes s') \<and> length run = length items"
proof (cases "items = []")
  case True
  with f ok show ?thesis by (auto simp: seq_insert_def extends_def)
next
  case False
  note l = seq_insert_lands [OF ok fit False f]
  then show ?thesis
    using lands_between_subseq [OF l(2)] unfolding extends_def lands_between_def by auto
qed

lemma mark_at_extends:
  "seq_ok s \<Longrightarrow> i < length (ss_nodes s) \<Longrightarrow> extends 0 s (mark_at (ss_nodes s ! i) i d s)"
  by (simp add: extendsI mark_at_ok)

lemma seq_move_extends:
  assumes ok: "seq_ok s" and fit: "length (ss_nodes s) < 2 ^ 63" and f: "seq_move s w op all past = Inr (s', w')"
  shows "extends 1 s s'"
proof -
  have refl: "extends 1 s s" using ok by (simp add: extendsI)
  show ?thesis
  proof (cases "\<exists>le e. op_Value op = OElem le \<and> ss_elems s le = Some e")
    case False
    then have "s' = s" using f by (auto simp: seq_move_def split: opval.splits option.splits)
    with refl show ?thesis by simp
  next
    case True
    then obtain le e where le: "op_Value op = OElem le" "ss_elems s le = Some e" by blast
    obtain src s1 w1 where nv: "nthVisible s w (op_MoveFrom op) all past = Inr (src, s1, w1)"
      using f le by (cases "nthVisible s w (op_MoveFrom op) all past") (auto simp: seq_move_def)
    note n = nthVisible_ok [OF ok fit nv]
    obtain c where c: "s1 = s\<lparr>ss_cursor := c\<rparr>" using n(2) by blast
    show ?thesis
    proof (cases src)
      case None
      then have "s' = s1" using f le nv by (auto simp: seq_move_def split: if_splits)
      with n(1) c show ?thesis by (simp add: extendsI)
    next
      case (Some i)
      then have i: "i < length (ss_nodes s1)" using n(3) c by simp
      define s2 where "s2 = mark_at (ss_nodes s1 ! i) i \<lparr>Peer = op_Peer op, Counter = op_Counter op\<rparr> s1"
      have s2: "extends 0 s1 s2" unfolding s2_def by (rule mark_at_extends [OF n(1) i])
      have n2: "length (ss_nodes s2) < 2 ^ 63" using fit c by (simp add: s2_def)
      obtain run s3 w3 where ins: "seq_insert s2 w1 op (op_Pos op) [SNil] False all (past\<lparr>pv_own := op_Counter op + 1\<rparr>) = Inr (run, s3, w3)"
        using f le nv Some
        by (cases "seq_insert s2 w1 op (op_Pos op) [SNil] False all (past\<lparr>pv_own := op_Counter op + 1\<rparr>)") (auto simp: seq_move_def s2_def Let_def)
      note se = seq_insert_extends [OF _ n2 ins]
      have s2ok: "seq_ok s2" using s2 by (simp add: extends_def)
      have s3: "extends 1 s2 s3" "set run \<subseteq> set (ss_nodes s3)" "length run = 1" using se [OF s2ok] by simp_all
      define s4 where "s4 = s3\<lparr>ss_heap := (ss_heap s3)(hd run := (ss_heap s3 (hd run))\<lparr>sn_elem := Some e\<rparr>)\<rparr>"
      have s3ok: "seq_ok s3" using s3 by (simp add: extends_def)
      have "seq_ok s4" unfolding s4_def by (rule seq_ok_elem [OF s3ok]) simp
      then have s4: "extends 0 s3 s4" by (rule extendsI) (simp add: s4_def)
      define wr where "wr = \<lparr>wr_lamport = op_Lamport op, wr_peer = op_Peer op\<rparr>"
      have "s' = s4 \<or> s' = s4\<lparr>ss_elemHeap := (ss_elemHeap s4)(e := (ss_elemHeap s4 e)\<lparr>me_pos := hd run, me_posWriter := wr\<rparr>)\<rparr>"
        using f le nv Some ins by (auto simp: seq_move_def Let_def s2_def [symmetric] s4_def wr_def split: if_splits)
      moreover have "seq_ok (s4\<lparr>ss_elemHeap := (ss_elemHeap s4)(e := (ss_elemHeap s4 e)\<lparr>me_pos := hd run, me_posWriter := wr\<rparr>)\<rparr>)"
      proof (rule seq_ok_elems)
        show "seq_ok s4" by fact
        have "hd run \<in> set (ss_nodes s4)" using s3(2,3) by (cases run) (auto simp: s4_def)
        then show "\<forall>e'. e' < ss_elemNext s4 \<longrightarrow> me_pos (((ss_elemHeap s4)(e := (ss_elemHeap s4 e)\<lparr>me_pos := hd run, me_posWriter := wr\<rparr>)) e') \<in> set (ss_nodes s4)"
          using seq_okD(6) [OF \<open>seq_ok s4\<close>] by (simp add: index_maps_ok_def)
      qed
      ultimately have "extends 0 s4 s'" using \<open>seq_ok s4\<close> by (auto intro: extendsI)
      moreover have "extends 0 s s1" using n(1) c by (simp add: extendsI)
      ultimately have "extends 0 s s1" "extends 0 s4 s'" by blast+
      have "extends 0 s s2" by (rule extends_trans [OF \<open>extends 0 s s1\<close> s2]) simp
      then have "extends 1 s s3" by (rule extends_trans [OF _ s3(1)]) simp
      then have "extends 1 s s4" by (rule extends_trans [OF _ s4]) simp
      then show ?thesis by (rule extends_trans [OF _ \<open>extends 0 s4 s'\<close>]) simp
    qed
  qed
qed

lemma removeAt_extends:
  assumes ok: "seq_ok s" and fit: "length (ss_nodes s) < 2 ^ 62" and df: "delete_fits op"
    and f: "removeAt s w op all past = Inr (dn, s', w')"
  shows "extends 0 s s'"
proof (cases "op_Value op")
  case (ODelete d)
  note r = removeAt_takes [OF ok fit ODelete df f]
  show ?thesis
    by (rule extendsI [OF r(1)]) (use r(3,4) in \<open>cases dn; auto simp: takes_def\<close>)
qed (use f ok in \<open>auto simp: removeAt_def extendsI\<close>)

lemma seq_apply_extends:
  assumes ok: "seq_ok s" and fit: "length (ss_nodes s) < 2 ^ 62" and df: "delete_fits op"
    and f: "seq_apply s w op all past byPosition = Inr (s', w')"
  shows "extends (op_size op) s s'"
proof -
  have refl: "extends k s s" for k using ok by (simp add: extendsI)
  have fit': "length (ss_nodes s) < 2 ^ 63" using fit by simp
  note ins = seq_insert_extends [OF ok fit']
  consider (del) "op_VKind op = VKDeleteSeq" | (mark) "op_VKind op = VKMarkStart" | (null) "op_VKind op = VKNull"
    | (str) "op_VKind op = VKStr" | (move) "op_VKind op = VKListMove" | (set) "op_VKind op = VKListSet"
    | (other) "op_VKind op \<notin> {VKDeleteSeq, VKMarkStart, VKNull, VKStr, VKListMove, VKListSet}" by blast
  then show ?thesis
  proof cases
    case del
    obtain dn s1 w1 where r: "(if byPosition \<and> op_Kind op \<noteq> CMovableList then removeAt s w op all past else Inr (False, s, w)) = Inr (dn, s1, w1)"
      and rest: "(if dn then Inr (s1, w1) else remove_ids s1 w1 op) = Inr (s', w')"
      using f del by (auto simp: seq_apply_def bindR_Inr_iff vk_defs split: if_splits)
    have s1: "extends 0 s s1" using r refl removeAt_extends [OF ok fit df] by (auto split: if_splits)
    show ?thesis
    proof (cases dn)
      case False
      then have r: "remove_ids s1 w1 op = Inr (s', w')" using rest by simp
      have "extends 0 s1 s'" using remove_ids_ok [OF _ r] remove_ids_nodes [OF r] s1 by (simp add: extends_def)
      with s1 show ?thesis by (rule extends_trans) simp
    qed (use rest s1 in \<open>simp add: extends_def\<close>)
  next
    case mark
    then obtain run s1 items where i: "seq_insert s w op (op_Pos op) items True all past = Inr (run, s1, w')"
      and s': "s' = s1 \<or> (\<exists>p. s' = s1\<lparr>ss_pendingEnd := p\<rparr>)" and l: "length items = 1"
      using f by (fastforce simp: seq_apply_def bindR_Inr_iff vk_defs Let_def split: opval.splits)
    have "extends 1 s s1" using ins [OF i] l by simp
    moreover have "extends 0 s1 s'" using calculation s' by (auto simp: extends_def seq_ok_pending)
    ultimately show ?thesis by (rule extends_trans) (use op_size_pos [of op] in simp)
  next
    case null
    show ?thesis
    proof (cases "ss_pendingEnd s \<lparr>Peer = op_Peer op, Counter = op_Counter op\<rparr>")
      case None
      with f null refl show ?thesis by (simp add: seq_apply_def vk_defs Let_def)
    next
      case (Some at)
      let ?s0 = "s\<lparr>ss_pendingEnd := (ss_pendingEnd s)(\<lparr>Peer = op_Peer op, Counter = op_Counter op\<rparr> := None)\<rparr>"
      obtain run where i: "seq_insert ?s0 w op at [SMarkEnd] True all past = Inr (run, s', w')"
        using f null Some by (auto simp: seq_apply_def bindR_Inr_iff vk_defs Let_def)
      have "extends (length [SMarkEnd]) ?s0 s'"
        by (rule seq_insert_extends [OF _ _ i, THEN conjunct1]) (use ok fit' in \<open>simp_all add: seq_ok_pending\<close>)
      then show ?thesis using op_size_pos [of op] by (simp add: extends_def)
    qed
  next
    case str
    then obtain run items where i: "seq_insert s w op (op_Pos op) items False all past = Inr (run, s', w')"
      and l: "length items \<le> op_size op"
      using f by (fastforce simp: seq_apply_def bindR_Inr_iff vk_defs Let_def op_size_def split: opval.splits lval.splits)
    from ins [OF i] l show ?thesis by (auto simp: extends_def)
  next
    case move
    then have "seq_move s w op all past = Inr (s', w')" using f by (simp add: seq_apply_def vk_defs Let_def)
    from seq_move_extends [OF ok fit' this] show ?thesis using op_size_pos [of op] by (simp add: extends_def)
  next
    case set
    then have "s' = seq_set op s" using f by (simp add: seq_apply_def vk_defs Let_def)
    then show ?thesis using seq_set_ok [OF ok] seq_set_nodes [of op s] by (simp add: extendsI)
  next
    case other
    define items where "items = (case op_Value op of OVal (LList xs) \<Rightarrow> xs | _ \<Rightarrow> [])"
    have e: "seq_apply s w op all past byPosition = bindR (seq_insert s w op (op_Pos op) (map SItem items) False all past)
        (\<lambda>(run, s, w). Inr (if op_Kind op \<noteq> CMovableList then s else new_elems op items run 0 s, w))"
      using other unfolding items_def by (simp add: seq_apply_def Let_def)
    obtain run s1 where i: "seq_insert s w op (op_Pos op) (map SItem items) False all past = Inr (run, s1, w')"
      and s': "s' = s1 \<or> s' = new_elems op items run 0 s1"
      using f unfolding e by (auto simp: bindR_Inr_iff split: if_splits)
    have len: "length items \<le> op_size op" by (simp add: items_def op_size_def split: opval.splits lval.splits)
    note l = ins [OF i]
    then have ok1: "seq_ok s1" and sub: "set run \<subseteq> set (ss_nodes s1)" by (simp_all add: extends_def)
    have "extends 0 s1 s'" using s' new_elems_ok [OF ok1 sub] new_elems_nodes [of op items run 0 s1] ok1 by (auto intro: extendsI)
    then show ?thesis using extends_trans [OF conjunct1 [OF l]] len by simp
  qed
qed

end
