(* ===== verification/SeqSpec.thy ===== *)
theory SeqSpec
  imports SeqApply
begin

text \<open>
  What merging an op means when its author had seen everything merged so far: an edit of a plain
  list. The document of a sequence is the list of its live elements, each with whether it is an
  anchor, and the ends that open marks still have to place.
\<close>

section \<open>Plain edits\<close>

type_synonym doc = "(seqval \<times> bool) list \<times> (ID \<Rightarrow> i64 option)"

definition splice :: "i64 \<Rightarrow> 'a list \<Rightarrow> 'a list \<Rightarrow> 'a list" where
  "splice pos items v = (let k = min (nat (sint pos)) (length v) in take k v @ items @ drop k v)"

definition cut :: "nat \<Rightarrow> nat \<Rightarrow> 'a list \<Rightarrow> 'a list" where
  "cut low n v = take low v @ drop (low + n) v"

definition plain :: "seqval list \<Rightarrow> (seqval \<times> bool) list" where
  "plain vs = map (\<lambda>v. (v, False)) vs"

text \<open>\<open>None\<close>: the op is not one of a Text or List, or reaches past the end of the document.\<close>

definition edit_of :: "Op \<Rightarrow> doc \<Rightarrow> doc option" where
  "edit_of op d =
     (case d of (v, pend) \<Rightarrow>
       if op_VKind op = VKDeleteSeq then
         (case op_Value op of
            ODelete x \<Rightarrow>
              let n = nat (sint (snd (Normalize x))); low = delete_low op x in
              if 0 < n \<and> 0 \<le> low \<and> nat low + n \<le> length v then Some (cut (nat low) n v, pend) else None
          | _ \<Rightarrow> None)
       else if op_VKind op = VKMarkStart then
         (case op_Value op of
            OMark mi \<Rightarrow>
              Some (splice (op_Pos op) [(SMarkStart mi \<lparr>wr_lamport = op_Lamport op, wr_peer = op_Peer op\<rparr>, True)] v,
                pend(\<lparr>Peer = op_Peer op, Counter = op_Counter op + 1\<rparr> \<mapsto> mi_Start mi + mi_Len mi + 1))
          | _ \<Rightarrow> None)
       else if op_VKind op = VKNull then
         (let i = \<lparr>Peer = op_Peer op, Counter = op_Counter op\<rparr> in
          case pend i of None \<Rightarrow> Some (v, pend) | Some at \<Rightarrow> Some (splice at [(SMarkEnd, True)] v, pend(i := None)))
       else if op_VKind op = VKStr then
         (case op_Value op of
            OVal (LStr x) \<Rightarrow> Some (splice (op_Pos op) (plain (map (\<lambda>r. SStr (encode_rune r)) (runes x))) v, pend)
          | _ \<Rightarrow> None)
       else if op_VKind op = VKLoroValue \<and> op_Kind op \<noteq> CMovableList then
         (case op_Value op of
            OVal (LList xs) \<Rightarrow> Some (splice (op_Pos op) (plain (map SItem xs)) v, pend)
          | _ \<Rightarrow> None)
       else None)"

definition elem_of :: "seqState \<Rightarrow> nat \<Rightarrow> seqval \<times> bool" where
  "elem_of s a = (sn_value (ss_heap s a), sn_anchor (ss_heap s a))"

definition doc_of :: "seqState \<Rightarrow> doc" where
  "doc_of s = (map (elem_of s) (filter (is_live s) (ss_nodes s)), ss_pendingEnd s)"

definition elem_text :: "seqval \<times> bool \<Rightarrow> gostring" where
  "elem_text e = (if snd e then [] else case fst e of SStr r \<Rightarrow> r | _ \<Rightarrow> [])"

text \<open>The text shown is that of the document's characters.\<close>

lemma seq_text_doc: "seq_text s = concat (map elem_text (fst (doc_of s)))"
proof -
  have "concat (map (\<lambda>a. case sn_value (h a) of SStr r \<Rightarrow> r | _ \<Rightarrow> []) (filter (\<lambda>a. L a \<and> \<not> sn_anchor (h a)) xs)) =
      concat (map elem_text (map (\<lambda>a. (sn_value (h a), sn_anchor (h a))) (filter L xs)))" for h L and xs :: "nat list"
    by (induction xs) (auto simp: elem_text_def)
  from this [of "ss_heap s" "is_live s" "ss_nodes s"] show ?thesis
    by (simp add: seq_text_def doc_of_def elem_of_def [abs_def])
qed

lemma new_doc: "doc_of newSeqState = ([], Map.empty)"
  by (simp add: doc_of_def newSeqState_def)

section \<open>Inserts\<close>

lemma filter_live_cong: "\<forall>a\<in>set xs. ss_heap s' a = ss_heap s a \<Longrightarrow> filter (is_live s') xs = filter (is_live s) xs"
  by (intro filter_cong) auto

lemma map_elem_cong: "\<forall>a\<in>set xs. ss_heap s' a = ss_heap s a \<Longrightarrow> map (elem_of s') xs = map (elem_of s) xs"
  by (simp add: elem_of_def)

lemma lands_between_doc:
  assumes l: "lands_between s op (reach pos (view s True past)) items anchor True past run s'"
  shows "fst (doc_of s') = splice pos (map (\<lambda>v. (v, anchor)) items) (fst (doc_of s))"
proof -
  let ?k = "reach pos (view s True past)" and ?v = "view s True past"
  obtain xs ys where n: "ss_nodes s = xs @ ys" "ss_nodes s' = xs @ run @ ys"
    and f: "filter (is_live s) xs = take ?k ?v" "filter (is_live s) ys = drop ?k ?v"
    using l by (auto simp: lands_between_def visible_all)
  have same: "\<forall>a\<in>set xs \<union> set ys. ss_heap s' a = ss_heap s a" using l n by (auto simp: lands_between_def)
  have made: "\<forall>i<length items. made_node op (items ! i) anchor i (ss_heap s' (run ! i))" and len: "length run = length items"
    using l by (auto simp: lands_between_def)
  have "filter (is_live s') run = run"
    using made len by (intro filter_True) (auto simp: in_set_conv_nth made_node_def)
  then have "filter (is_live s') (ss_nodes s') = take ?k ?v @ run @ drop ?k ?v"
    using same by (simp add: n filter_live_cong [of xs s' s] filter_live_cong [of ys s' s] f)
  moreover have "map (elem_of s') run = map (\<lambda>v. (v, anchor)) items"
    using made len by (intro nth_equalityI) (auto simp: elem_of_def made_node_def)
  moreover have "map (elem_of s') (take ?k ?v) = map (elem_of s) (take ?k ?v)" "map (elem_of s') (drop ?k ?v) = map (elem_of s) (drop ?k ?v)"
    using same by (intro map_elem_cong; simp add: f [symmetric])+
  ultimately show ?thesis
    by (simp add: doc_of_def splice_def Let_def view_True reach_def take_map drop_map)
qed

lemma seq_insert_doc:
  assumes ok: "seq_ok s" and fit: "length (ss_nodes s) < 2 ^ 63"
    and f: "seq_insert s w op pos items anchor True past = Inr (run, s', w')"
  shows "fst (doc_of s') = splice pos (map (\<lambda>v. (v, anchor)) items) (fst (doc_of s))" and "ss_pendingEnd s' = ss_pendingEnd s"
proof -
  show "fst (doc_of s') = splice pos (map (\<lambda>v. (v, anchor)) items) (fst (doc_of s))"
  proof (cases "items = []")
    case True
    with f show ?thesis by (simp add: seq_insert_def splice_def Let_def)
  next
    case False
    from lands_between_doc [OF seq_insert_lands(2) [OF ok fit False f]] show ?thesis .
  qed
  show "ss_pendingEnd s' = ss_pendingEnd s"
  proof (cases "items = []")
    case True
    with f show ?thesis by (simp add: seq_insert_def)
  next
    case False
    from seq_insert_lands(3) [OF ok fit False f] show ?thesis .
  qed
qed

section \<open>Deletes\<close>

lemma takes_doc:
  assumes ok: "seq_ok s" and t: "takes s atom (take n (drop low (view s True past))) s'"
  shows "fst (doc_of s') = cut low n (fst (doc_of s))"
proof -
  let ?v = "view s True past" and ?ts = "take n (drop low (view s True past))"
  have d: "distinct ?v" using seq_okD(1) [OF ok] by (simp add: view_def)
  have dead: "\<not> is_live s' a" if "a \<in> set ?ts" for a
    using that t by (auto simp: takes_def in_set_conv_nth)
  have same: "ss_heap s' a = ss_heap s a" if "a \<notin> set ?ts" for a using that t by (auto simp: takes_def)
  have live: "is_live s' a \<longleftrightarrow> is_live s a \<and> a \<notin> set ?ts" for a
    using dead [of a] same [of a] by (cases "a \<in> set ?ts") auto
  have "filter (is_live s') (ss_nodes s') = filter (\<lambda>a. a \<notin> set ?ts) ?v"
    using t by (simp add: takes_def live view_True conj_commute)
  also have "\<dots> = cut low n ?v"
  proof -
    have e: "?v = take low ?v @ ?ts @ drop (low + n) ?v" by (metis append_take_drop_id drop_drop add.commute)
    then have "distinct (take low ?v @ ?ts @ drop (low + n) ?v)" using d by simp
    then have "filter (\<lambda>a. a \<notin> set ?ts) (take low ?v @ ?ts @ drop (low + n) ?v) = take low ?v @ drop (low + n) ?v"
      by (simp only: filter_append distinct_append) (subst (1 2 3) filter_id_conv [THEN iffD2] filter_False; auto)
    then show ?thesis using e by (metis cut_def)
  qed
  finally have f: "filter (is_live s') (ss_nodes s') = cut low n ?v" .
  have "map (elem_of s') (cut low n ?v) = map (elem_of s) (cut low n ?v)"
    unfolding f [symmetric] using live same by (intro map_elem_cong) auto
  then show ?thesis by (simp add: doc_of_def f view_True cut_def take_map drop_map)
qed

lemma mark_targets_pending [simp]: "ss_pendingEnd (mark_targets op atom ts k s) = ss_pendingEnd s"
  by (induction op atom ts k s rule: mark_targets.induct) (simp_all add: mark_at_def Let_def)

lemma locate_pending: "locate s w pos all past = Inr (i, s', w') \<Longrightarrow> ss_pendingEnd s' = ss_pendingEnd s"
  by (auto simp: locate_def Let_def bindR_Inr_iff split: if_splits prod.splits)

lemma removeAt_pending: "removeAt s w op all past = Inr (fin, s', w') \<Longrightarrow> ss_pendingEnd s' = ss_pendingEnd s"
  by (auto simp: removeAt_def Let_def bindR_Inr_iff dest!: locate_pending
      split: opval.splits if_splits prod.splits option.splits)

section \<open>The errors of an edit\<close>

lemma spend_error: "spend n w = Inl e \<Longrightarrow> e = workLimit"
  by (auto simp: spend_def Let_def split: if_splits)

lemma locate_error: "locate s w pos all past = Inl e \<Longrightarrow> \<not> sw_strict w \<Longrightarrow> e = workLimit"
  by (auto simp: locate_def Let_def bindR_Inl_iff dest: spend_error split: if_splits prod.splits)

lemma seq_insert_error:
  assumes "seq_insert s w op pos items anchor all past = Inl e" and "\<not> sw_strict w"
  shows "e = workLimit"
proof (cases "items = []")
  case False
  have "e = workLimit" if "insert_left s w pos all past = Inl e"
    using that assms(2) locate_error [of s w pos all past] by (auto simp: insert_left_def split: if_splits sum.splits)
  with False assms(1) show ?thesis
    by (auto simp: seq_insert_def Let_def bindR_Inl_iff case_prod_beta dest: spend_error)
qed (use assms in \<open>simp add: seq_insert_def\<close>)

lemma removeAt_error:
  assumes ok: "seq_ok s" and fit: "length (ss_nodes s) < 2 ^ 62" and v: "op_Value op = ODelete d" and df: "delete_fits op"
    and f: "removeAt s w op True past = Inl e" and st: "\<not> sw_strict w"
    and n: "0 < nat (sint (snd (Normalize d)))" and lo: "0 \<le> delete_low op d"
  shows "e = workLimit"
proof -
  define low where "low = (if sint (ds_Len d) < 0 then op_Pos op - snd (Normalize d) + 1 else op_Pos op)"
  have b: "0 \<le> sint (snd (Normalize d))" "sint (snd (Normalize d)) < 2 ^ 62" "\<bar>sint (op_Pos op)\<bar> < 2 ^ 62"
    using df v by (simp_all add: delete_fits_def)
  note low = delete_low_word [OF v df low_def]
  have one: "sint (low + 1) = sint low + 1" using low(2,3) by (subst sint_add) simp_all
  show ?thesis
  proof (cases "snd (Normalize d) = 0 \<or> sint low < 0 \<or> sint (low + snd (Normalize d)) > ss_live s")
    case True
    then show ?thesis using f st by (auto simp: removeAt_def v Let_def low_def [symmetric])
  next
    case False
    have ne: "left \<noteq> None" if l: "locate s w (low + 1) True past = Inr (left, s1, w1)" for left s1 w1
    proof
      assume "left = None"
      then have "view s True past = []"
        using locate_finds(2) [OF ok _ _ l] fit lo low(1) one by simp
      then have "ss_live s = 0" using seq_okD(3) [OF ok] by (simp add: view_True)
      then show False using False low lo n by simp
    qed
    let ?X = "bindR (locate s w (low + 1) True past)
      (\<lambda>(i, s, w). case i of None \<Rightarrow> Inl GoPanic | Some i \<Rightarrow> Inr (i, low, s, w))"
    have X_error: "e = workLimit" if "?X = Inl e" for e
      using that st by (auto simp: bindR_Inl_iff dest!: ne dest: locate_error split: option.splits)
    have X_strict: "\<not> sw_strict w1" if "?X = Inr (i, sn, s1, w1)" for i sn s1 w1
      using that st by (auto simp: bindR_Inr_iff locate_def Let_def dest!: spend_strict split: option.splits if_splits prod.splits)
    show ?thesis
    proof (cases ?X)
      case (Inl e')
      then show ?thesis
        using X_error [OF Inl] f False
        unfolding removeAt_def v opval.case Let_def low_def [symmetric] if_True Inl bindR_simps
        by auto
    next
      case (Inr x)
      obtain i sn s1 w1 where x: "x = (i, sn, s1, w1)" by (cases x)
      show ?thesis
        using f st X_strict [OF Inr [unfolded x]] False
        unfolding removeAt_def v opval.case Let_def low_def [symmetric] if_True Inr x
        by (auto simp: bindR_Inl_iff case_prod_beta dest: spend_error dest!: spend_strict split: if_splits)
    qed
  qed
qed

section \<open>Merging an op in full view is an edit\<close>

lemma doc_of_pending: "doc_of (s\<lparr>ss_pendingEnd := p\<rparr>) = (fst (doc_of s), p)"
  by (simp add: doc_of_def elem_of_def [abs_def])

lemma doc_of_cursor: "doc_of (s\<lparr>ss_cursor := c\<rparr>) = doc_of s"
  by (simp add: doc_of_def elem_of_def [abs_def])

text \<open>What \<open>seq_apply\<close> returns for an insert alone, seen through documents.\<close>

definition edits_to :: "doc \<Rightarrow> (seqState \<times> seqWork) res \<Rightarrow> bool" where
  "edits_to d r \<longleftrightarrow> (case r of Inl e \<Rightarrow> e = workLimit | Inr (s, w) \<Rightarrow> doc_of s = d)"

lemma edits_to_Inr: "edits_to d (Inr (s, w)) \<longleftrightarrow> fst (doc_of s) = fst d \<and> ss_pendingEnd s = snd d"
  by (cases d) (auto simp: edits_to_def doc_of_def)

lemma insert_edits:
  assumes ok: "seq_ok s" and fit: "length (ss_nodes s) < 2 ^ 63" and st: "\<not> sw_strict w"
    and g: "\<And>run s' w'. fst (doc_of s') = splice pos (map (\<lambda>v. (v, anchor)) items) (fst (doc_of s)) \<Longrightarrow>
      ss_pendingEnd s' = ss_pendingEnd s \<Longrightarrow> edits_to d (g (run, s', w'))"
  shows "edits_to d (bindR (seq_insert s w op pos items anchor True past) g)"
proof (cases "seq_insert s w op pos items anchor True past")
  case (Inl e)
  with seq_insert_error [OF Inl st] show ?thesis by (simp add: edits_to_def)
next
  case (Inr r)
  obtain run s' w' where r: "r = (run, s', w')" by (cases r)
  note d = seq_insert_doc [OF ok fit Inr [unfolded r]]
  show ?thesis unfolding Inr r bindR_simps using d by (rule g)
qed

lemma seq_apply_delete:
  assumes ok: "seq_ok s" and fit: "length (ss_nodes s) < 2 ^ 62" and df: "delete_fits op" and st: "\<not> sw_strict w"
    and k: "op_VKind op = VKDeleteSeq" "op_Kind op \<noteq> CMovableList" and e: "edit_of op (doc_of s) = Some d"
  shows "edits_to d (seq_apply s w op True past True)"
proof -
  obtain x where x: "op_Value op = ODelete x"
    using e k by (auto simp: edit_of_def split: prod.splits opval.splits)
  let ?n = "nat (sint (snd (Normalize x)))" and ?low = "delete_low op x"
  have len: "length (fst (doc_of s)) = length (view s True past)" by (simp add: doc_of_def view_True)
  have c: "0 < ?n" "0 \<le> ?low" "nat ?low + ?n \<le> length (fst (doc_of s))"
    and d: "d = (cut (nat ?low) ?n (fst (doc_of s)), ss_pendingEnd s)"
    using e k x by (auto simp: edit_of_def doc_of_def Let_def split: if_splits)
  have code: "seq_apply s w op True past True = bindR (removeAt s w op True past)
      (\<lambda>(fin, s, w). if fin then Inr (s, w) else remove_ids s w op)"
    using k by (simp add: seq_apply_def vk_defs)
  show ?thesis
  proof (cases "removeAt s w op True past")
    case (Inl e')
    with removeAt_error [OF ok fit x df Inl st c(1,2)] show ?thesis by (simp add: code edits_to_def)
  next
    case (Inr r)
    obtain fin s' w' where r: "r = (fin, s', w')" by (cases r)
    note rm = removeAt_takes [OF ok fit x df Inr [unfolded r]]
    have fin using rm(2) c len by simp
    have "fst (doc_of s') = cut (nat ?low) ?n (fst (doc_of s))"
      by (rule takes_doc [OF ok rm(3) [OF \<open>fin\<close>]])
    moreover have "ss_pendingEnd s' = ss_pendingEnd s" by (rule removeAt_pending [OF Inr [unfolded r]])
    ultimately show ?thesis using \<open>fin\<close> by (simp add: code Inr r edits_to_Inr d)
  qed
qed

lemma seq_apply_edits:
  assumes ok: "seq_ok s" and fit: "length (ss_nodes s) < 2 ^ 62" and df: "delete_fits op" and st: "\<not> sw_strict w"
    and kind: "op_Kind op \<noteq> CMovableList" and e: "edit_of op (doc_of s) = Some d"
  shows "edits_to d (seq_apply s w op True past True)"
proof -
  have fit': "length (ss_nodes s) < 2 ^ 63" using fit by simp
  note ins = insert_edits [OF ok fit' st]
  consider (del) "op_VKind op = VKDeleteSeq" | (mark) "op_VKind op = VKMarkStart" | (null) "op_VKind op = VKNull"
    | (str) "op_VKind op = VKStr" | (val) "op_VKind op = VKLoroValue"
    using e by (auto simp: edit_of_def split: prod.splits if_splits)
  then show ?thesis
  proof cases
    case del
    from seq_apply_delete [OF ok fit df st this kind e] show ?thesis .
  next
    case mark
    then obtain mi where mi: "op_Value op = OMark mi"
      using e by (auto simp: edit_of_def vk_defs split: prod.splits opval.splits)
    have "seq_apply s w op True past True = bindR (seq_insert s w op (op_Pos op)
        [SMarkStart mi \<lparr>wr_lamport = op_Lamport op, wr_peer = op_Peer op\<rparr>] True True past) (\<lambda>(run, s, w).
          Inr (s\<lparr>ss_pendingEnd := (ss_pendingEnd s)(\<lparr>Peer = op_Peer op, Counter = op_Counter op + 1\<rparr> \<mapsto> mi_Start mi + mi_Len mi + 1)\<rparr>, w))"
      using mark mi by (simp add: seq_apply_def vk_defs Let_def)
    moreover have "d = (splice (op_Pos op) [(SMarkStart mi \<lparr>wr_lamport = op_Lamport op, wr_peer = op_Peer op\<rparr>, True)] (fst (doc_of s)),
        (ss_pendingEnd s)(\<lparr>Peer = op_Peer op, Counter = op_Counter op + 1\<rparr> \<mapsto> mi_Start mi + mi_Len mi + 1))"
      using e mark mi by (simp add: edit_of_def doc_of_def vk_defs)
    ultimately show ?thesis by (simp only:) (rule ins, simp add: edits_to_Inr doc_of_pending)
  next
    case null
    let ?i = "\<lparr>Peer = op_Peer op, Counter = op_Counter op\<rparr>"
    show ?thesis
    proof (cases "ss_pendingEnd s ?i")
      case None
      have "d = doc_of s" using e null None by (simp add: edit_of_def doc_of_def vk_defs Let_def)
      moreover have "seq_apply s w op True past True = Inr (s, w)" using null None by (simp add: seq_apply_def vk_defs Let_def)
      ultimately show ?thesis by (simp add: edits_to_def)
    next
      case (Some at)
      let ?s = "s\<lparr>ss_pendingEnd := (ss_pendingEnd s)(?i := None)\<rparr>"
      have d: "d = (splice at [(SMarkEnd, True)] (fst (doc_of s)), (ss_pendingEnd s)(?i := None))"
        using e null Some by (simp add: edit_of_def doc_of_def vk_defs Let_def)
      have ok': "seq_ok ?s" "length (ss_nodes ?s) < 2 ^ 63" using ok fit' by (simp_all add: seq_ok_pending)
      have "edits_to d (bindR (seq_insert ?s w op at [SMarkEnd] True True past) (\<lambda>(run, s, w). Inr (s, w)))"
        by (rule insert_edits [OF ok' st]) (simp add: edits_to_Inr doc_of_pending d)
      then show ?thesis using null Some by (simp add: seq_apply_def vk_defs Let_def)
    qed
  next
    case str
    then obtain x where x: "op_Value op = OVal (LStr x)"
      using e by (auto simp: edit_of_def vk_defs split: prod.splits opval.splits lval.splits)
    have d: "d = (splice (op_Pos op) (plain (map (\<lambda>r. SStr (encode_rune r)) (runes x))) (fst (doc_of s)), ss_pendingEnd s)"
      using e str x by (simp add: edit_of_def doc_of_def vk_defs)
    have "edits_to d (bindR (seq_insert s w op (op_Pos op) (map (\<lambda>r. SStr (encode_rune r)) (runes x)) False True past)
        (\<lambda>(run, s, w). Inr (s, w)))"
      by (rule ins) (simp add: edits_to_Inr d plain_def)
    then show ?thesis using str x by (simp add: seq_apply_def vk_defs Let_def)
  next
    case val
    then obtain xs where x: "op_Value op = OVal (LList xs)"
      using e kind by (auto simp: edit_of_def vk_defs split: prod.splits opval.splits lval.splits)
    have d: "d = (splice (op_Pos op) (plain (map SItem xs)) (fst (doc_of s)), ss_pendingEnd s)"
      using e val x kind by (simp add: edit_of_def doc_of_def vk_defs)
    have "edits_to d (bindR (seq_insert s w op (op_Pos op) (map SItem xs) False True past) (\<lambda>(run, s, w). Inr (s, w)))"
      by (rule ins) (simp add: edits_to_Inr d plain_def)
    then show ?thesis using val x kind by (simp add: seq_apply_def vk_defs Let_def)
  qed
qed

end
