(* ===== verification/SeqMerge.thy ===== *)
theory SeqMerge
  imports SeqApply GoSearch "HOL-Library.Product_Lexorder"
begin

text \<open>
  Merging the sequences of a history (\<open>loro/seqmerge.go\<close>): what each change's author had seen, from
  the dependencies of the changes, and the replay of every op in one order. Changes are given by
  their index among the copies; a Go map keyed by a change's pointer is a map from the index.
\<close>

section \<open>What an author had seen\<close>

definition seqVersionCacheLimit :: int where "seqVersionCacheLimit = 2 ^ 22"

record causalIndex =
  ci_byPeer :: "u64 \<Rightarrow> nat list"
  ci_maxEnd :: "u64 \<Rightarrow> i64 list"
  ci_cache :: "nat \<Rightarrow> version option"
  ci_cached :: int
  ci_complete :: bool

fun running_max :: "i64 \<Rightarrow> i64 list \<Rightarrow> i64 list" where
  "running_max m [] = []"
| "running_max m (e # es) = smax m e # running_max (smax m e) es"

abbreviation sc_peer :: "seqChange \<Rightarrow> u64" where
  "sc_peer sc \<equiv> Peer (ch_ID (sc_ch sc))"

definition peer_changes :: "seqChange list \<Rightarrow> u64 \<Rightarrow> nat list" where
  "peer_changes all p =
     sort_key (\<lambda>i. sint (sc_start (all ! i))) (filter (\<lambda>i. sc_peer (all ! i) = p) [0..<length all])"

text \<open>\<open>find\<close>: the search, then the walk back over copies that may overlap; \<open>j\<close> is one past Go's.\<close>

fun find_back :: "seqChange list \<Rightarrow> nat list \<Rightarrow> i64 list \<Rightarrow> i64 \<Rightarrow> nat \<Rightarrow> seqWork \<Rightarrow> (nat option \<times> seqWork) res" where
  "find_back all cs ends c 0 w = Inr (None, w)"
| "find_back all cs ends c (Suc j) w =
     (if sless c (ends ! j) then
        bindR (spend 1 w) (\<lambda>w.
          if sless c (sc_end (all ! (cs ! j))) then Inr (Some (cs ! j), w) else find_back all cs ends c j w)
      else Inr (None, w))"

definition ci_find :: "seqChange list \<Rightarrow> causalIndex \<Rightarrow> ID \<Rightarrow> seqWork \<Rightarrow> (nat option \<times> seqWork) res" where
  "ci_find all ix d w =
     (let cs = ci_byPeer ix (Peer d); ends = ci_maxEnd ix (Peer d);
          i = bsearch (\<lambda>z. \<not> sless (Counter d) (sc_start (all ! z))) cs 0 (length cs) in
      find_back all cs ends (Counter d) i w)"

text \<open>The checks of \<open>newCausalIndex\<close> on one change: a missing dependency, one not before it.\<close>

fun index_deps :: "seqChange list \<Rightarrow> seqChange \<Rightarrow> ID list \<Rightarrow> causalIndex \<Rightarrow> seqWork \<Rightarrow> (causalIndex \<times> seqWork) res" where
  "index_deps all sc [] ix w = Inr (ix, w)"
| "index_deps all sc (d # ds) ix w =
     bindR (ci_find all ix d w) (\<lambda>(z, w).
       case z of
         None \<Rightarrow> index_deps all sc ds (ix\<lparr>ci_complete := False\<rparr>) w
       | Some z \<Rightarrow>
           if sleq (ch_Lamport (sc_ch sc)) (ch_Lamport (sc_ch (all ! z)) + (Counter d - sc_start (all ! z)))
           then Inl (Errorf ''depends'')
           else index_deps all sc ds ix w)"

fun index_changes :: "seqChange list \<Rightarrow> seqChange list \<Rightarrow> causalIndex \<Rightarrow> seqWork \<Rightarrow> (causalIndex \<times> seqWork) res" where
  "index_changes all [] ix w = Inr (ix, w)"
| "index_changes all (sc # scs) ix w =
     bindR (if sint (sc_start sc) > 0 then
              bindR (ci_find all ix \<lparr>Peer = sc_peer sc, Counter = sc_start sc - 1\<rparr> w)
                (\<lambda>(z, w). Inr (if z = None then ix\<lparr>ci_complete := False\<rparr> else ix, w))
            else Inr (ix, w)) (\<lambda>(ix, w).
       bindR (index_deps all sc (ch_Deps (sc_ch sc)) ix w) (\<lambda>(ix, w). index_changes all scs ix w))"

definition index_of_peers :: "seqChange list \<Rightarrow> causalIndex" where
  "index_of_peers all =
     \<lparr>ci_byPeer = peer_changes all,
      ci_maxEnd = (\<lambda>p. running_max 0 (map (\<lambda>i. sc_end (all ! i)) (peer_changes all p))),
      ci_cache = Map.empty, ci_cached = 0, ci_complete = True\<rparr>"

definition newCausalIndex :: "seqChange list \<Rightarrow> seqWork \<Rightarrow> (causalIndex \<times> seqWork) res" where
  "newCausalIndex all w = index_changes all all (index_of_peers all) w"

text \<open>\<open>versionOf\<close>'s loop; the head of the list is the top of its stack.\<close>

definition vv_raise :: "u64 \<Rightarrow> i64 \<Rightarrow> version \<Rightarrow> version" where
  "vv_raise p c v = (if sless (vv_at v p) c then gm_put p c v else v)"

definition own_dep :: "seqChange \<Rightarrow> ID list" where
  "own_dep sc = (if sint (sc_start sc) > 0 then [\<lparr>Peer = sc_peer sc, Counter = sc_start sc - 1\<rparr>] else [])"

definition push_deps :: "seqChange \<Rightarrow> ID list \<Rightarrow> ID list" where
  "push_deps sc stack = rev (ch_Deps (sc_ch sc) @ own_dep sc) @ stack"

lemma spend_steps: "spend n w = Inr w' \<Longrightarrow> sw_steps w' = sw_steps w + n \<and> sw_limit w' = sw_limit w \<and>
    sw_strict w' = sw_strict w \<and> sw_steps w' \<le> sw_limit w'"
  by (auto simp: spend_def Let_def split: if_splits)

lemma find_back_steps:
  "find_back all cs ends c j w = Inr (z, w') \<Longrightarrow> sw_steps w \<le> sw_steps w' \<and> sw_limit w' = sw_limit w"
proof (induction all cs ends c j w rule: find_back.induct)
  case (2 all cs ends c j w)
  show ?case
  proof (cases "sless c (ends ! j)")
    case True
    then obtain w1 where w1: "spend 1 w = Inr w1"
      and r: "(if sless c (sc_end (all ! (cs ! j))) then Inr (Some (cs ! j), w1) else find_back all cs ends c j w1) = Inr (z, w')"
      using "2.prems" by (auto simp: bindR_Inr_iff simp del: if_split)
    have "sw_steps w1 \<le> sw_steps w' \<and> sw_limit w' = sw_limit w1"
      using r "2.IH" [OF True w1] by (auto split: if_splits)
    with spend_steps [OF w1] show ?thesis by simp
  next
    case False
    with "2.prems" show ?thesis by simp
  qed
qed simp

lemma ci_find_strict: "ci_find all ix d w = Inr (z, w') \<Longrightarrow> sw_strict w' = sw_strict w"
proof -
  have "find_back all cs ends c j w = Inr (z, w') \<Longrightarrow> sw_strict w' = sw_strict w" for cs ends c j
  proof (induction j arbitrary: w)
    case (Suc j)
    then show ?case by (auto simp: bindR_Inr_iff dest: spend_strict split: if_splits)
  qed simp
  then show "ci_find all ix d w = Inr (z, w') \<Longrightarrow> sw_strict w' = sw_strict w" by (simp add: ci_find_def Let_def)
qed

lemma ci_find_steps: "ci_find all ix d w = Inr (z, w') \<Longrightarrow> sw_steps w \<le> sw_steps w' \<and> sw_limit w' = sw_limit w"
  by (auto simp: ci_find_def Let_def dest: find_back_steps)

function version_loop ::
  "seqChange list \<Rightarrow> causalIndex \<Rightarrow> ID list \<Rightarrow> version \<Rightarrow> nat list \<Rightarrow> seqWork \<Rightarrow> (version \<times> seqWork) res"
where
  "version_loop all ix [] v seen w = Inr (v, w)"
| "version_loop all ix (d # stack) v seen w =
     bindR (spend 1 w) (\<lambda>w.
       let v = vv_raise (Peer d) (Counter d + 1) v in
       bindR (ci_find all ix d w) (\<lambda>(z, w).
         case z of
           None \<Rightarrow> version_loop all ix stack v seen w
         | Some z \<Rightarrow>
             if z \<in> set seen then version_loop all ix stack v seen w
             else (case ci_cache ix z of
                 Some zv \<Rightarrow> bindR (spend (int (length zv)) w) (\<lambda>w.
                   version_loop all ix stack (foldl (\<lambda>v (p, c). vv_raise p c v) v zv) (z # seen) w)
               | None \<Rightarrow> version_loop all ix (push_deps (all ! z) stack) v (z # seen) w)))"
  by pat_completeness auto
termination
  by (relation "measure (\<lambda>(_, _, _, _, _, w). nat (sw_limit w - sw_steps w))")
    (use spend_steps ci_find_steps in \<open>fastforce\<close>)+

declare version_loop.simps [simp del]

definition versionOf :: "seqChange list \<Rightarrow> causalIndex \<Rightarrow> nat \<Rightarrow> seqWork \<Rightarrow> (version \<times> causalIndex \<times> seqWork) res" where
  "versionOf all ix sc w =
     (case ci_cache ix sc of
        Some v \<Rightarrow> Inr (v, ix, w)
      | None \<Rightarrow>
          bindR (version_loop all ix (push_deps (all ! sc) []) [] [] w) (\<lambda>(v, w).
            Inr (v,
              if ci_cached ix + int (length v) \<le> seqVersionCacheLimit
              then ix\<lparr>ci_cache := (ci_cache ix)(sc \<mapsto> v), ci_cached := ci_cached ix + int (length v)\<rparr> else ix, w)))"

section \<open>The replay\<close>

definition id_key :: "ID \<Rightarrow> u64 \<times> int" where
  "id_key x = (Peer x, sint (Counter x))"

definition sameIDs :: "ID list \<Rightarrow> ID list \<Rightarrow> bool" where
  "sameIDs a b =
     (if length a + length b \<le> 16 then list_all (\<lambda>x. x \<in> set b) a \<and> list_all (\<lambda>x. x \<in> set a) b
      else remdups_adj (sort_key id_key a) = remdups_adj (sort_key id_key b))"

text \<open>A run: the change its ops are from, and the ops, one after the other.\<close>

type_synonym seqRun = "nat \<times> Op list"

fun op_runs :: "Op list \<Rightarrow> Op list list" where
  "op_runs [] = []"
| "op_runs [x] = [[x]]"
| "op_runs (x # y # ops) =
     (if op_Counter y \<noteq> op_Counter x + atomCount x then [x] # op_runs (y # ops)
      else (case op_runs (y # ops) of r # rs \<Rightarrow> (x # r) # rs | [] \<Rightarrow> []))"

definition run_key :: "seqRun \<Rightarrow> int \<times> u64 \<times> int" where
  "run_key r = (let x = hd (snd r) in (sint (op_Lamport x), op_Peer x, sint (op_Counter x)))"

definition seq_runs :: "seqChange list \<Rightarrow> nat list \<Rightarrow> seqRun list" where
  "seq_runs all units = sort_key run_key (concat (map (\<lambda>u. map (Pair u) (op_runs (sc_fresh (all ! u)))) units))"

record replay =
  rp_seqs :: "contKey \<Rightarrow> seqState option"
  rp_frontier :: "ID list"
  rp_ix :: causalIndex
  rp_work :: seqWork

definition op_deps :: "seqChange \<Rightarrow> Op \<Rightarrow> ID list" where
  "op_deps u op =
     (if op_Counter op \<noteq> sc_start u then [\<lparr>Peer = op_Peer op, Counter = op_Counter op - 1\<rparr>] else ch_Deps (sc_ch u))"

definition op_last :: "Op \<Rightarrow> ID" where
  "op_last op = \<lparr>Peer = op_Peer op, Counter = op_Counter op + atomCount op - 1\<rparr>"

definition no_past :: pastView where
  "no_past = \<lparr>pv_vv = [], pv_peer = 0, pv_own = 0\<rparr>"

text \<open>One op; \<open>vv\<close> is what its change's author had seen, once asked for.\<close>

definition replay_op :: "seqChange list \<Rightarrow> nat \<Rightarrow> Op \<Rightarrow> version option \<times> replay \<Rightarrow> (version option \<times> replay) res" where
  "replay_op all u op st =
     (case st of (vv, r) \<Rightarrow>
       let deps = op_deps (all ! u) op in
       bindR (spend (int (length deps + length (rp_frontier r))) (rp_work r)) (\<lambda>w.
         let inView = sameIDs deps (rp_frontier r) in
         bindR (if inView then Inr (no_past, vv, rp_ix r, w)
                else
                  bindR (case vv of Some v \<Rightarrow> Inr (v, rp_ix r, w) | None \<Rightarrow> versionOf all (rp_ix r) u w)
                    (\<lambda>(v, ix, w). Inr (\<lparr>pv_vv = v, pv_peer = op_Peer op, pv_own = op_Counter op\<rparr>, Some v, ix, w)))
           (\<lambda>(past, vv, ix, w).
             bindR (if isSeqOp op then
                      (let key = keyOf op; s = (case rp_seqs r key of None \<Rightarrow> newSeqState | Some s \<Rightarrow> s) in
                       bindR (seq_apply s w op inView past (ci_complete ix))
                         (\<lambda>(s, w). Inr ((rp_seqs r)(key \<mapsto> s), w)))
                    else Inr (rp_seqs r, w)) (\<lambda>(seqs, w).
               let lst = op_last op;
                   frontier = (if inView then [lst]
                     else filter (\<lambda>f. \<not> pv_has past (Peer f) (Counter f) \<and>
                            (Peer f \<noteq> op_Peer op \<or> sless (Counter lst) (Counter f))) (rp_frontier r) @ [lst]) in
               Inr (vv, \<lparr>rp_seqs = seqs, rp_frontier = frontier, rp_ix = ix, rp_work = w\<rparr>)))))"

fun replay_ops :: "seqChange list \<Rightarrow> nat \<Rightarrow> Op list \<Rightarrow> version option \<times> replay \<Rightarrow> (version option \<times> replay) res" where
  "replay_ops all u [] st = Inr st"
| "replay_ops all u (op # ops) st = bindR (replay_op all u op st) (replay_ops all u ops)"

fun replay_runs :: "seqChange list \<Rightarrow> seqRun list \<Rightarrow> replay \<Rightarrow> replay res" where
  "replay_runs all [] r = Inr r"
| "replay_runs all ((u, ops) # rs) r = bindR (replay_ops all u ops (None, r)) (\<lambda>(_, r). replay_runs all rs r)"

definition mergeSequences ::
  "seqChange list \<Rightarrow> nat list \<Rightarrow> seqWork \<Rightarrow> ((contKey \<Rightarrow> seqState option) \<times> seqWork) res"
where
  "mergeSequences all units w =
     bindR (newCausalIndex all w) (\<lambda>(ix, w).
       bindR (replay_runs all (seq_runs all units)
         \<lparr>rp_seqs = Map.empty, rp_frontier = [], rp_ix = ix, rp_work = w\<rparr>) (\<lambda>r. Inr (rp_seqs r, rp_work r)))"

end
