(* ===== verification/SeqHistory.thy ===== *)
theory SeqHistory
  imports SeqSpec SeqMerge "HOL-Library.Multiset"
begin

text \<open>
  Whole histories: finding the change that holds an id, the invariant of every merged sequence, and
  histories in which each change was made with everything before it in view, which merge to what
  their ops say one after the other.
\<close>

section \<open>Finding a change\<close>

text \<open>Change \<open>z\<close> holds the id \<open>d\<close>.\<close>

definition holds :: "seqChange list \<Rightarrow> nat \<Rightarrow> ID \<Rightarrow> bool" where
  "holds all z d \<longleftrightarrow> z < length all \<and> sc_peer (all ! z) = Peer d \<and>
     sleq (sc_start (all ! z)) (Counter d) \<and> sless (Counter d) (sc_end (all ! z))"

lemma length_running_max [simp]: "length (running_max m es) = length es"
  by (induction es arbitrary: m) auto

lemma running_max_bound:
  "j < length es \<Longrightarrow> sint m \<le> sint (running_max m es ! j) \<and> (\<forall>k\<le>j. sint (es ! k) \<le> sint (running_max m es ! j))"
proof (induction es arbitrary: m j)
  case (Cons e es)
  show ?case
  proof (cases j)
    case 0
    then show ?thesis by (simp add: sint_smax)
  next
    case (Suc i)
    with Cons have ih: "sint (smax m e) \<le> sint (running_max (smax m e) es ! i)"
      "\<forall>k\<le>i. sint (es ! k) \<le> sint (running_max (smax m e) es ! i)" by auto
    have "sint ((e # es) ! k) \<le> sint (running_max m (e # es) ! j)" if "k \<le> j" for k
      using that ih Suc by (cases k) (auto simp: sint_smax)
    then show ?thesis using ih(1) Suc by (simp add: sint_smax)
  qed
qed simp

lemma find_back_ok:
  "find_back all cs ends c j w = Inr (z, w') \<Longrightarrow> ends = running_max 0 (map (\<lambda>i. sc_end (all ! i)) cs) \<Longrightarrow> j \<le> length cs \<Longrightarrow>
    (case z of Some z \<Rightarrow> \<exists>k<j. z = cs ! k \<and> sless c (sc_end (all ! (cs ! k)))
     | None \<Rightarrow> \<forall>k<j. sleq (sc_end (all ! (cs ! k))) c)"
proof (induction all cs ends c j w rule: find_back.induct)
  case (2 all cs ends c j w)
  show ?case
  proof (cases "sless c (ends ! j)")
    case True
    then obtain w1 where w1: "spend 1 w = Inr w1"
      and r: "(if sless c (sc_end (all ! (cs ! j))) then Inr (Some (cs ! j), w1) else find_back all cs ends c j w1) = Inr (z, w')"
      using "2.prems"(1) by (auto simp: bindR_Inr_iff simp del: if_split)
    show ?thesis
    proof (cases "sless c (sc_end (all ! (cs ! j)))")
      case True
      with r show ?thesis by (auto intro: exI [of _ j])
    next
      case False
      with r have f: "find_back all cs ends c j w1 = Inr (z, w')" by simp
      from "2.IH" [OF True w1 False f "2.prems"(2)] "2.prems"(3) False show ?thesis
        by (auto simp: less_Suc_eq split: option.splits)
    qed
  next
    case False
    then have "z = None" using "2.prems"(1) by simp
    moreover have "sleq (sc_end (all ! (cs ! k))) c" if "k < Suc j" for k
    proof -
      have "sleq (map (\<lambda>i. sc_end (all ! i)) cs ! k) (ends ! j)"
        using running_max_bound [of j "map (\<lambda>i. sc_end (all ! i)) cs" 0] that "2.prems"(2,3) by simp
      with that False "2.prems"(3) show ?thesis by simp
    qed
    ultimately show ?thesis by simp
  qed
qed (simp split: option.splits)

lemma peer_changes_mem: "z \<in> set (peer_changes all p) \<longleftrightarrow> z < length all \<and> sc_peer (all ! z) = p"
  by (auto simp: peer_changes_def)

text \<open>An index over all the changes, whatever it has cached.\<close>

definition index_for :: "seqChange list \<Rightarrow> causalIndex \<Rightarrow> bool" where
  "index_for all ix \<longleftrightarrow> ci_byPeer ix = peer_changes all \<and>
     ci_maxEnd ix = (\<lambda>p. running_max 0 (map (\<lambda>i. sc_end (all ! i)) (peer_changes all p)))"

text \<open>The search with its running maximum finds a change exactly when one holds the id.\<close>

lemma ci_find_ok:
  assumes ix: "index_for all ix" and f: "ci_find all ix d w = Inr (z, w')"
  shows "case z of Some z \<Rightarrow> holds all z d | None \<Rightarrow> \<forall>z. \<not> holds all z d"
proof -
  define cs where "cs = peer_changes all (Peer d)"
  let ?before = "\<lambda>z. \<not> sless (Counter d) (sc_start (all ! z))"
  define i where "i = bsearch ?before cs 0 (length cs)"
  have s: "sorted (map (\<lambda>i. sint (sc_start (all ! i))) cs)" by (simp add: cs_def peer_changes_def)
  have mono: "?before (cs ! a)" if "a \<le> b" "b < length cs" "?before (cs ! b)" for a b
    using sorted_nth_mono [OF s that(1)] that by simp
  have il: "i \<le> length cs" unfolding i_def by (rule bsearch_whole(1), rule mono)
  have below: "?before (cs ! k)" if "k < i" for k
    using that unfolding i_def by (rule bsearch_whole(2) [rotated]) (rule mono)
  have above: "\<not> ?before (cs ! k)" if "i \<le> k" "k < length cs" for k
    using that unfolding i_def by (rule bsearch_whole(3) [rotated]) (rule mono)
  have fb: "find_back all cs (running_max 0 (map (\<lambda>i. sc_end (all ! i)) cs)) (Counter d) i w = Inr (z, w')"
    using f ix by (simp add: ci_find_def Let_def index_for_def i_def cs_def)
  note r = find_back_ok [OF fb refl il]
  have mem: "cs ! k < length all \<and> sc_peer (all ! (cs ! k)) = Peer d" if "k < length cs" for k
    using nth_mem [OF that] by (simp add: cs_def peer_changes_mem)
  show ?thesis
  proof (cases z)
    case None
    have "\<not> holds all y d" for y
    proof
      assume h: "holds all y d"
      then have "y \<in> set cs" by (simp add: cs_def peer_changes_mem holds_def)
      then obtain k where k: "k < length cs" "y = cs ! k" by (auto simp: in_set_conv_nth)
      show False
      proof (cases "k < i")
        case True
        with r None k h show False by (auto simp: holds_def)
      next
        case False
        then have "\<not> ?before (cs ! k)" using k by (intro above) simp_all
        with k h show False by (simp add: holds_def)
      qed
    qed
    with None show ?thesis by simp
  next
    case (Some y)
    then obtain k where k: "k < i" "y = cs ! k" "sless (Counter d) (sc_end (all ! (cs ! k)))" using r by auto
    have "?before (cs ! k)" by (rule below [OF k(1)])
    with Some k mem [of k] il show ?thesis by (simp add: holds_def)
  qed
qed

lemma ci_find_error: "ci_find all ix d w = Inl e \<Longrightarrow> e = workLimit"
proof -
  have "find_back all cs ends c j w = Inl e \<Longrightarrow> e = workLimit" for cs ends c j
    by (induction all cs ends c j w rule: find_back.induct) (auto simp: bindR_Inl_iff dest: spend_error split: if_splits)
  then show "ci_find all ix d w = Inl e \<Longrightarrow> e = workLimit" by (simp add: ci_find_def Let_def)
qed

text \<open>A set of ids is compared as a set, by either branch.\<close>

lemma id_key_inj: "id_key x = id_key y \<longleftrightarrow> x = y"
proof -
  have "sint (Counter x) = sint (Counter y) \<Longrightarrow> Counter x = Counter y" by (simp only: sint_eq)
  then show ?thesis by (auto simp: id_key_def intro: ID.equality)
qed

lemma distinct_remdups_adj: "sorted xs \<Longrightarrow> distinct (remdups_adj (xs :: 'a :: linorder list))"
proof (induction xs rule: remdups_adj.induct)
  case (3 x y xs)
  show ?case
  proof (cases "x = y")
    case False
    then have "\<forall>z\<in>set (y # xs). x < z" using "3.prems" by auto
    with 3 False show ?thesis by auto
  qed (use 3 in simp)
qed simp_all

lemma sameIDs_iff: "sameIDs a b \<longleftrightarrow> set a = set b"
proof (cases "length a + length b \<le> 16")
  case True
  then show ?thesis by (auto simp: sameIDs_def list_all_iff)
next
  case False
  have d: "distinct (map id_key (remdups_adj (sort_key id_key xs))) \<and> sorted (map id_key (remdups_adj (sort_key id_key xs)))" for xs
  proof -
    have m: "map id_key (remdups_adj ys) = remdups_adj (map id_key ys)" for ys
      by (rule remdups_adj_map_injective [symmetric]) (simp add: inj_on_def id_key_inj)
    show ?thesis unfolding m by (simp add: sorted_remdups_adj distinct_remdups_adj)
  qed
  have "remdups_adj (sort_key id_key a) = remdups_adj (sort_key id_key b)" if "set a = set b"
  proof (rule map_inj_on)
    show "map id_key (remdups_adj (sort_key id_key a)) = map id_key (remdups_adj (sort_key id_key b))"
      using that d by (intro sorted_distinct_set_unique) simp_all
    show "inj_on id_key (set (remdups_adj (sort_key id_key a)) \<union> set (remdups_adj (sort_key id_key b)))"
      by (simp add: inj_on_def id_key_inj)
  qed
  moreover have "set a = set b" if "remdups_adj (sort_key id_key a) = remdups_adj (sort_key id_key b)"
    using arg_cong [OF that, of set] by simp
  ultimately show ?thesis using False by (auto simp: sameIDs_def)
qed

section \<open>Closed histories\<close>

text \<open>
  Every change has its author's earlier op and its dependencies in the history, the dependencies
  before it by lamport, in whichever copy they are found.
\<close>

definition dep_lamport :: "seqChange \<Rightarrow> ID \<Rightarrow> i64" where
  "dep_lamport z d = ch_Lamport (sc_ch z) + (Counter d - sc_start z)"

definition closed_change :: "seqChange list \<Rightarrow> seqChange \<Rightarrow> bool" where
  "closed_change all sc \<longleftrightarrow>
     (sint (sc_start sc) > 0 \<longrightarrow> (\<exists>z. holds all z \<lparr>Peer = sc_peer sc, Counter = sc_start sc - 1\<rparr>)) \<and>
     (\<forall>d\<in>set (ch_Deps (sc_ch sc)). (\<exists>z. holds all z d) \<and>
        (\<forall>z. holds all z d \<longrightarrow> sless (dep_lamport (all ! z) d) (ch_Lamport (sc_ch sc))))"

lemma index_deps_closed:
  assumes "index_for all ix" and "ci_complete ix"
    and "\<forall>d\<in>set ds. (\<exists>z. holds all z d) \<and> (\<forall>z. holds all z d \<longrightarrow> sless (dep_lamport (all ! z) d) (ch_Lamport (sc_ch sc)))"
  shows "case index_deps all sc ds ix w of Inl e \<Rightarrow> e = workLimit | Inr (ix', w') \<Rightarrow> ix' = ix \<and> sw_strict w' = sw_strict w"
  using assms
proof (induction ds arbitrary: w)
  case (Cons d ds)
  show ?case
  proof (cases "ci_find all ix d w")
    case (Inl e)
    with ci_find_error [OF Inl] show ?thesis by simp
  next
    case (Inr r)
    obtain z w1 where r: "r = (z, w1)" by (cases r)
    note f = ci_find_ok [OF Cons.prems(1) Inr [unfolded r]]
    obtain y where y: "z = Some y" "holds all y d" using f Cons.prems(3) by (cases z) auto
    have "sw_strict w1 = sw_strict w" by (rule ci_find_strict [OF Inr [unfolded r]])
    moreover have "\<not> sleq (ch_Lamport (sc_ch sc)) (ch_Lamport (sc_ch (all ! y)) + (Counter d - sc_start (all ! y)))"
      using y Cons.prems(3) by (auto simp: dep_lamport_def)
    ultimately show ?thesis using Cons.IH [of w1] Cons.prems y by (simp add: Inr r split: sum.splits prod.splits)
  qed
qed simp

lemma index_changes_closed:
  assumes "index_for all ix" and "ci_complete ix" and "\<forall>sc\<in>set scs. closed_change all sc"
  shows "case index_changes all scs ix w of Inl e \<Rightarrow> e = workLimit | Inr (ix', w') \<Rightarrow> ix' = ix \<and> sw_strict w' = sw_strict w"
  using assms
proof (induction scs arbitrary: w)
  case (Cons sc scs)
  have c: "closed_change all sc" using Cons.prems by simp
  let ?own = "if sint (sc_start sc) > 0 then
              bindR (ci_find all ix \<lparr>Peer = sc_peer sc, Counter = sc_start sc - 1\<rparr> w)
                (\<lambda>(z, w). Inr (if z = None then ix\<lparr>ci_complete := False\<rparr> else ix, w))
            else Inr (ix, w)"
  have own: "case ?own of Inl e \<Rightarrow> e = workLimit | Inr (ix', w') \<Rightarrow> ix' = ix \<and> sw_strict w' = sw_strict w"
  proof (cases "sint (sc_start sc) > 0")
    case True
    show ?thesis
    proof (cases "ci_find all ix \<lparr>Peer = sc_peer sc, Counter = sc_start sc - 1\<rparr> w")
      case (Inl e)
      with ci_find_error [OF Inl] True show ?thesis by simp
    next
      case (Inr r)
      obtain z w1 where r: "r = (z, w1)" by (cases r)
      have "z \<noteq> None" using ci_find_ok [OF Cons.prems(1) Inr [unfolded r]] c True
        by (cases z) (auto simp: closed_change_def)
      with ci_find_strict [OF Inr [unfolded r]] True show ?thesis by (auto simp: Inr r)
    qed
  qed simp
  show ?case
  proof (cases ?own)
    case (Inl e)
    with own show ?thesis by simp
  next
    case (Inr r)
    obtain w1 where r: "r = (ix, w1)" "sw_strict w1 = sw_strict w" using own Inr by (cases r) auto
    note d = index_deps_closed [OF Cons.prems(1,2), of "ch_Deps (sc_ch sc)" sc w1]
    have d': "case index_deps all sc (ch_Deps (sc_ch sc)) ix w1 of Inl e \<Rightarrow> e = workLimit
        | Inr (ix', w') \<Rightarrow> ix' = ix \<and> sw_strict w' = sw_strict w1"
      using c by (intro d) (simp add: closed_change_def)
    show ?thesis
    proof (cases "index_deps all sc (ch_Deps (sc_ch sc)) ix w1")
      case (Inl e)
      with d' Inr r show ?thesis by simp
    next
      case i2: (Inr r2)
      obtain w2 where "r2 = (ix, w2)" "sw_strict w2 = sw_strict w" using d' i2 r by (cases r2) auto
      then show ?thesis
        using Cons.IH [of w2] Cons.prems i2 Inr r by (simp split: sum.splits prod.splits)
    qed
  qed
qed simp

lemma newCausalIndex_closed:
  assumes "\<forall>sc\<in>set all. closed_change all sc"
  shows "case newCausalIndex all w of Inl e \<Rightarrow> e = workLimit
    | Inr (ix, w') \<Rightarrow> index_for all ix \<and> ci_complete ix \<and> sw_strict w' = sw_strict w"
proof -
  have i: "index_for all (index_of_peers all)" "ci_complete (index_of_peers all)"
    by (simp_all add: index_for_def index_of_peers_def)
  from index_changes_closed [OF i assms, of w] i show ?thesis
    by (auto simp: newCausalIndex_def split: sum.splits)
qed

section \<open>The invariant through a replay\<close>

definition seqs_ok :: "nat \<Rightarrow> (contKey \<Rightarrow> seqState option) \<Rightarrow> bool" where
  "seqs_ok n seqs \<longleftrightarrow> (\<forall>k s. seqs k = Some s \<longrightarrow> seq_ok s \<and> length (ss_nodes s) \<le> n)"

definition total_size :: "Op list \<Rightarrow> nat" where
  "total_size ops = sum_list (map op_size ops)"

lemma seqs_ok_mono: "seqs_ok m seqs \<Longrightarrow> m \<le> n \<Longrightarrow> seqs_ok n seqs"
  by (fastforce simp: seqs_ok_def)

definition seq_at :: "(contKey \<Rightarrow> seqState option) \<Rightarrow> contKey \<Rightarrow> seqState" where
  "seq_at seqs k = (case seqs k of None \<Rightarrow> newSeqState | Some s \<Rightarrow> s)"

lemma seq_at_ok: "seqs_ok n seqs \<Longrightarrow> seq_ok (seq_at seqs k) \<and> length (ss_nodes (seq_at seqs k)) \<le> n"
  by (auto simp: seqs_ok_def seq_at_def newSeqState_ok split: option.splits) (simp add: newSeqState_def)

text \<open>What one op does to the sequences.\<close>

lemma replay_op_seqs:
  assumes "replay_op all u op (vv, r) = Inr (vv', r')"
  shows "if isSeqOp op then \<exists>w past b s w' all'. seq_apply (seq_at (rp_seqs r) (keyOf op)) w op all' past b = Inr (s, w') \<and>
      rp_seqs r' = (rp_seqs r)(keyOf op \<mapsto> s)
    else rp_seqs r' = rp_seqs r"
  using assms by (auto simp: replay_op_def seq_at_def [symmetric] Let_def bindR_Inr_iff split: if_splits) blast+

lemma replay_op_ok:
  assumes ok: "seqs_ok n (rp_seqs r)" and n: "n < 2 ^ 62" and df: "delete_fits op" and f: "replay_op all u op (vv, r) = Inr (vv', r')"
  shows "seqs_ok (n + op_size op) (rp_seqs r')"
proof (cases "isSeqOp op")
  case True
  then obtain w past b s w' all' where a: "seq_apply (seq_at (rp_seqs r) (keyOf op)) w op all' past b = Inr (s, w')"
    and r': "rp_seqs r' = (rp_seqs r)(keyOf op \<mapsto> s)" using replay_op_seqs [OF f] by auto
  note s = seq_at_ok [OF ok, of "keyOf op"]
  have "extends (op_size op) (seq_at (rp_seqs r) (keyOf op)) s"
    by (rule seq_apply_extends [OF _ _ df a]) (use s n in simp_all)
  then have "seq_ok s \<and> length (ss_nodes s) \<le> n + op_size op" using s by (simp add: extends_def)
  then show ?thesis using seqs_ok_mono [OF ok, of "n + op_size op"] by (auto simp: r' seqs_ok_def)
next
  case False
  then show ?thesis using replay_op_seqs [OF f] seqs_ok_mono [OF ok] by simp
qed

lemma replay_ops_ok:
  "seqs_ok n (rp_seqs r) \<Longrightarrow> n + total_size ops < 2 ^ 62 \<Longrightarrow> \<forall>op\<in>set ops. delete_fits op \<Longrightarrow>
    replay_ops all u ops (vv, r) = Inr (vv', r') \<Longrightarrow> seqs_ok (n + total_size ops) (rp_seqs r')"
proof (induction ops arbitrary: n vv r)
  case (Cons op ops)
  obtain v1 r1 where o: "replay_op all u op (vv, r) = Inr (v1, r1)" and rest: "replay_ops all u ops (v1, r1) = Inr (vv', r')"
    using Cons.prems(4) by (auto simp: bindR_Inr_iff)
  have "seqs_ok (n + op_size op) (rp_seqs r1)"
    by (rule replay_op_ok [OF Cons.prems(1) _ _ o]) (use Cons.prems(2,3) in \<open>simp_all add: total_size_def\<close>)
  from Cons.IH [OF this _ _ rest] Cons.prems show ?case by (simp add: total_size_def add.assoc)
qed (simp add: total_size_def)

lemma replay_runs_ok:
  "seqs_ok n (rp_seqs r) \<Longrightarrow> n + total_size (concat (map snd runs)) < 2 ^ 62 \<Longrightarrow> \<forall>op\<in>set (concat (map snd runs)). delete_fits op \<Longrightarrow>
    replay_runs all runs r = Inr r' \<Longrightarrow> seqs_ok (n + total_size (concat (map snd runs))) (rp_seqs r')"
proof (induction all runs r arbitrary: n rule: replay_runs.induct)
  case (2 all u ops rs r)
  obtain v1 r1 where o: "replay_ops all u ops (None, r) = Inr (v1, r1)" and rest: "replay_runs all rs r1 = Inr r'"
    using "2.prems"(4) by (auto simp: bindR_Inr_iff)
  have "seqs_ok (n + total_size ops) (rp_seqs r1)"
    by (rule replay_ops_ok [OF "2.prems"(1) _ _ o]) (use "2.prems"(2,3) in \<open>auto simp: total_size_def\<close>)
  moreover have "x = (v1, r1) \<Longrightarrow> y = r1 \<Longrightarrow> replay_runs all rs y = Inr r'" for x y using rest by simp
  ultimately show ?case
    using "2.IH" [of "(v1, r1)" v1 r1 "n + total_size ops"] "2.prems"(2,3) o rest by (simp add: total_size_def add.assoc)
qed (simp add: total_size_def)

lemma concat_op_runs: "concat (op_runs ops) = ops"
proof (induction ops rule: op_runs.induct)
  case (3 x y ops)
  then show ?case by (cases "op_runs (y # ops)") auto
qed simp_all

lemma op_runs_ne: "ops \<noteq> [] \<Longrightarrow> op_runs ops \<noteq> []"
  using concat_op_runs [of ops] by auto

text \<open>The ops of the units, the sum of their sizes.\<close>

definition unit_ops :: "seqChange list \<Rightarrow> nat list \<Rightarrow> Op list" where
  "unit_ops all units = concat (map (\<lambda>u. sc_fresh (all ! u)) units)"

lemma seq_runs_ops: "mset (concat (map snd (seq_runs all units))) = mset (unit_ops all units)"
proof -
  have m: "mset (concat xss) = mset (concat yss)" if "mset xss = mset yss" for xss yss :: "Op list list"
    using arg_cong [OF that, of "\<lambda>m. sum_mset (image_mset mset m)"] 
    by (simp only: mset_map [symmetric] sum_mset_sum_list mset_concat)
  have "mset (map snd (seq_runs all units)) = mset (map snd (concat (map (\<lambda>u. map (Pair u) (op_runs (sc_fresh (all ! u)))) units)))"
    by (simp add: seq_runs_def)
  from m [OF this] have "mset (concat (map snd (seq_runs all units))) =
      mset (concat (map snd (concat (map (\<lambda>u. map (Pair u) (op_runs (sc_fresh (all ! u)))) units))))" .
  also have "concat (map snd (concat (map (\<lambda>u. map (Pair u) (op_runs (sc_fresh (all ! u)))) units))) = unit_ops all units"
    by (induction units) (simp_all add: unit_ops_def o_def concat_op_runs)
  finally show ?thesis .
qed

text \<open>The invariant holds of every sequence a merge returns.\<close>

lemma total_size_mset: "total_size ops = sum_mset (image_mset op_size (mset ops))"
  by (simp add: total_size_def sum_mset_sum_list [symmetric])

lemma merged_seqs_ok:
  assumes m: "mergeSequences all units w = Inr (seqs, w')" and df: "\<forall>op\<in>set (unit_ops all units). delete_fits op"
    and size: "total_size (unit_ops all units) < 2 ^ 62"
  shows "seqs_ok (total_size (unit_ops all units)) seqs"
proof -
  let ?runs = "seq_runs all units"
  obtain ix w1 r where r: "replay_runs all ?runs \<lparr>rp_seqs = Map.empty, rp_frontier = [], rp_ix = ix, rp_work = w1\<rparr> = Inr r"
    and s: "seqs = rp_seqs r" using m by (auto simp: mergeSequences_def bindR_Inr_iff)
  have ms: "mset (concat (map snd ?runs)) = mset (unit_ops all units)" by (rule seq_runs_ops)
  then have t: "total_size (concat (map snd ?runs)) = total_size (unit_ops all units)" by (simp only: total_size_mset)
  have "set (concat (map snd ?runs)) = set (unit_ops all units)" using ms by (rule mset_eq_setD)
  with df have df': "\<forall>op\<in>set (concat (map snd ?runs)). delete_fits op" by simp
  have "seqs_ok 0 (rp_seqs \<lparr>rp_seqs = Map.empty, rp_frontier = [], rp_ix = ix, rp_work = w1\<rparr>)" by (simp add: seqs_ok_def)
  from replay_runs_ok [OF this _ df' r] size t s show ?thesis by simp
qed

section \<open>Histories in full view\<close>

lemma locate_strict: "locate s w pos all past = Inr (i, s', w') \<Longrightarrow> sw_strict w' = sw_strict w"
  by (auto simp: locate_def Let_def bindR_Inr_iff dest: spend_strict split: if_splits prod.splits)

lemma seq_insert_strict: "seq_insert s w op pos items anchor all past = Inr (run, s', w') \<Longrightarrow> sw_strict w' = sw_strict w"
  by (auto simp: seq_insert_def Let_def bindR_Inr_iff case_prod_beta insert_left_def dest!: spend_strict locate_strict
      split: if_splits sum.splits)

lemma remove_ids_strict: "remove_ids s w op = Inr (s', w') \<Longrightarrow> sw_strict w' = sw_strict w"
  by (auto simp: remove_ids_def Let_def bindR_Inr_iff dest: spend_strict split: opval.splits prod.splits if_splits)

lemma removeAt_strict: "removeAt s w op all past = Inr (fin, s', w') \<Longrightarrow> sw_strict w' = sw_strict w"
  by (auto simp: removeAt_def Let_def bindR_Inr_iff case_prod_beta dest!: spend_strict locate_strict
      split: opval.splits if_splits option.splits)

lemma nthVisible_strict: "nthVisible s w i all past = Inr (j, s', w') \<Longrightarrow> sw_strict w' = sw_strict w"
  by (auto simp: nthVisible_def bindR_Inr_iff case_prod_beta dest: spend_strict locate_strict split: if_splits)

lemma seq_move_strict: "seq_move s w op all past = Inr (s', w') \<Longrightarrow> sw_strict w' = sw_strict w"
  by (auto simp: seq_move_def Let_def bindR_Inr_iff dest!: seq_insert_strict nthVisible_strict
      split: opval.splits option.splits if_splits)

lemma seq_apply_strict: "seq_apply s w op all past b = Inr (s', w') \<Longrightarrow> sw_strict w' = sw_strict w"
  by (auto simp: seq_apply_def Let_def bindR_Inr_iff dest!: seq_insert_strict remove_ids_strict removeAt_strict
      dest: seq_move_strict split: opval.splits option.splits if_splits)

text \<open>The documents of all containers, and the ops of a history as edits of them.\<close>

definition docs_of :: "(contKey \<Rightarrow> seqState option) \<Rightarrow> contKey \<Rightarrow> doc" where
  "docs_of seqs k = doc_of (seq_at seqs k)"

fun edit_all :: "Op list \<Rightarrow> (contKey \<Rightarrow> doc) \<Rightarrow> (contKey \<Rightarrow> doc) option" where
  "edit_all [] ds = Some ds"
| "edit_all (op # ops) ds =
     (if isSeqOp op then
        (case edit_of op (ds (keyOf op)) of None \<Rightarrow> None | Some d \<Rightarrow> edit_all ops (ds(keyOf op := d)))
      else edit_all ops ds)"

lemma edit_all_append: "edit_all (xs @ ys) ds = (case edit_all xs ds of None \<Rightarrow> None | Some ds \<Rightarrow> edit_all ys ds)"
  by (induction xs arbitrary: ds) (auto split: option.splits)

text \<open>A state of the replay in which the documents are \<open>ds\<close>.\<close>

definition replay_at :: "nat \<Rightarrow> (contKey \<Rightarrow> doc) \<Rightarrow> replay \<Rightarrow> bool" where
  "replay_at n ds r \<longleftrightarrow> seqs_ok n (rp_seqs r) \<and> docs_of (rp_seqs r) = ds \<and> ci_complete (rp_ix r) \<and> \<not> sw_strict (rp_work r)"

definition op_fits :: "Op \<Rightarrow> bool" where
  "op_fits op \<longleftrightarrow> delete_fits op \<and> op_Kind op \<noteq> CMovableList"

lemma replay_op_edits:
  assumes r: "replay_at n ds r" and n: "n < 2 ^ 62" and fits: "op_fits op" and e: "edit_all [op] ds = Some ds'"
    and view: "set (op_deps (all ! u) op) = set (rp_frontier r)"
  shows "case replay_op all u op (vv, r) of Inl e \<Rightarrow> e = workLimit
    | Inr (vv', r') \<Rightarrow> vv' = vv \<and> replay_at (n + op_size op) ds' r' \<and> rp_frontier r' = [op_last op]"
proof (cases "spend (int (length (op_deps (all ! u) op) + length (rp_frontier r))) (rp_work r)")
  case (Inl e)
  with spend_error [OF Inl] show ?thesis by (simp add: replay_op_def)
next
  case (Inr w1)
  have st: "\<not> sw_strict w1" using spend_strict [OF Inr] r by (simp add: replay_at_def)
  have ok: "seqs_ok n (rp_seqs r)" and d: "docs_of (rp_seqs r) = ds" and c: "ci_complete (rp_ix r)"
    using r by (simp_all add: replay_at_def)
  let ?s = "seq_at (rp_seqs r) (keyOf op)"
  have code: "replay_op all u op (vv, r) =
      bindR (if isSeqOp op then
               bindR (seq_apply ?s w1 op True no_past True) (\<lambda>(s, w). Inr ((rp_seqs r)(keyOf op \<mapsto> s), w))
             else Inr (rp_seqs r, w1))
        (\<lambda>(seqs, w). Inr (vv, \<lparr>rp_seqs = seqs, rp_frontier = [op_last op], rp_ix = rp_ix r, rp_work = w\<rparr>))"
    using Inr view c by (simp add: replay_op_def Let_def sameIDs_iff seq_at_def)
  show ?thesis
  proof (cases "isSeqOp op")
    case True
    obtain d' where d': "edit_of op (doc_of ?s) = Some d'" "ds' = ds(keyOf op := d')"
      using e True d by (auto simp: docs_of_def split: option.splits)
    note s = seq_at_ok [OF ok, of "keyOf op"]
    have fit: "length (ss_nodes ?s) < 2 ^ 62" using s n by simp
    have df: "delete_fits op" and kind: "op_Kind op \<noteq> CMovableList" using fits by (simp_all add: op_fits_def)
    note ed = seq_apply_edits [OF _ fit df st kind d'(1), of no_past]
    show ?thesis
    proof (cases "seq_apply ?s w1 op True no_past True")
      case (Inl e)
      with ed s True show ?thesis by (simp add: code edits_to_def)
    next
      case i: (Inr p)
      obtain s' w2 where p: "p = (s', w2)" by (cases p)
      have "extends (op_size op) ?s s'" by (rule seq_apply_extends [OF _ fit df i [unfolded p]]) (use s in simp)
      then have "seq_ok s' \<and> length (ss_nodes s') \<le> n + op_size op" using s by (simp add: extends_def)
      then have "seqs_ok (n + op_size op) ((rp_seqs r)(keyOf op \<mapsto> s'))"
        using seqs_ok_mono [OF ok, of "n + op_size op"] by (auto simp: seqs_ok_def)
      moreover have "docs_of ((rp_seqs r)(keyOf op \<mapsto> s')) = ds'"
        using ed s i p d d'(2) by (auto simp: docs_of_def seq_at_def edits_to_def fun_eq_iff)
      moreover have "\<not> sw_strict w2" using seq_apply_strict [OF i [unfolded p]] st by simp
      ultimately show ?thesis using True c by (simp add: code i p replay_at_def)
    qed
  next
    case False
    then have "ds' = ds" using e by simp
    then show ?thesis using False seqs_ok_mono [OF ok] d c st by (simp add: code replay_at_def)
  qed
qed

text \<open>The ops of a change, one after the other, each next to the one before.\<close>

definition in_turn :: "Op \<Rightarrow> Op \<Rightarrow> bool" where
  "in_turn x y \<longleftrightarrow> op_Counter y = op_Counter x + atomCount x \<and> op_Peer y = op_Peer x"

definition linear_change :: "seqChange \<Rightarrow> bool" where
  "linear_change sc \<longleftrightarrow> sc_fresh sc \<noteq> [] \<and> op_Counter (hd (sc_fresh sc)) = sc_start sc \<and>
     successively in_turn (sc_fresh sc) \<and> (\<forall>op\<in>set (tl (sc_fresh sc)). op_Counter op \<noteq> sc_start sc)"

lemma op_runs_chain: "successively in_turn ops \<Longrightarrow> ops \<noteq> [] \<Longrightarrow> op_runs ops = [ops]"
  by (induction ops rule: op_runs.induct) (auto simp: in_turn_def)

lemma replay_ops_edits:
  "replay_at n ds r \<Longrightarrow> n + total_size ops < 2 ^ 62 \<Longrightarrow> \<forall>op\<in>set ops. op_fits op \<Longrightarrow> edit_all ops ds = Some ds' \<Longrightarrow>
    ops \<noteq> [] \<Longrightarrow> successively in_turn ops \<Longrightarrow> \<forall>op\<in>set (tl ops). op_Counter op \<noteq> sc_start (all ! u) \<Longrightarrow>
    set (op_deps (all ! u) (hd ops)) = set (rp_frontier r) \<Longrightarrow>
    (case replay_ops all u ops (vv, r) of Inl e \<Rightarrow> e = workLimit
    | Inr (vv', r') \<Rightarrow> replay_at (n + total_size ops) ds' r' \<and> rp_frontier r' = [op_last (last ops)])"
proof (induction ops arbitrary: n ds r vv)
  case (Cons op ops)
  obtain ds1 where e1: "edit_all [op] ds = Some ds1" and e2: "edit_all ops ds1 = Some ds'"
    using Cons.prems(4) by (auto split: if_splits option.splits)
  have n: "n < 2 ^ 62" "op_fits op" using Cons.prems(2,3) by auto
  have v: "set (op_deps (all ! u) op) = set (rp_frontier r)" using Cons.prems(8) by simp
  note o = replay_op_edits [OF Cons.prems(1) n e1 v, of vv]
  show ?case
  proof (cases "replay_op all u op (vv, r)")
    case (Inl e)
    with o show ?thesis by simp
  next
    case (Inr p)
    obtain r1 where p: "p = (vv, r1)" and r1: "replay_at (n + op_size op) ds1 r1" "rp_frontier r1 = [op_last op]"
      using o Inr by (cases p) auto
    show ?thesis
    proof (cases ops)
      case Nil
      then show ?thesis using Inr p r1 e2 by (simp add: total_size_def)
    next
      case (Cons y ys)
      have t: "n + op_size op + total_size ops < 2 ^ 62" using Cons.prems(2) by (simp add: total_size_def)
      have turn: "in_turn op y" "successively in_turn ops" using Cons.prems(6) Cons by simp_all
      have "op_Counter y \<noteq> sc_start (all ! u)" using Cons.prems(7) Cons by simp
      then have "op_deps (all ! u) (hd ops) = [op_last op]"
        using turn(1) Cons by (simp add: op_deps_def op_last_def in_turn_def)
      then have dv: "set (op_deps (all ! u) (hd ops)) = set (rp_frontier r1)" using r1(2) by simp
      have tl: "\<forall>op\<in>set (tl ops). op_Counter op \<noteq> sc_start (all ! u)" using Cons.prems(7) Cons by simp
      have fits: "\<forall>op\<in>set ops. op_fits op" using Cons.prems(3) by simp
      have ne: "ops \<noteq> []" using Cons by simp
      then have eq: "replay_ops all u (op # ops) (vv, r) = replay_ops all u ops (vv, r1)" "last (op # ops) = last ops"
        "n + total_size (op # ops) = n + op_size op + total_size ops" using Inr p by (simp_all add: total_size_def)
      show ?thesis unfolding eq by (rule Cons.IH [OF r1(1) t fits e2 ne turn(2) tl dv])
    qed
  qed
qed simp

text \<open>
  Each change depends on the one before it alone, so it was made with everything before it in view;
  the changes come in the order the replay takes them.
\<close>

definition linear_history :: "seqChange list \<Rightarrow> bool" where
  "linear_history all \<longleftrightarrow> (\<forall>sc\<in>set all. linear_change sc \<and> closed_change all sc) \<and>
     (\<forall>i<length all. ch_Deps (sc_ch (all ! i)) = (if i = 0 then [] else [op_last (last (sc_fresh (all ! (i - 1))))])) \<and>
     sorted (map (\<lambda>sc. run_key (0, sc_fresh sc)) all)"

lemma linear_runs:
  assumes "\<forall>sc\<in>set all. linear_change sc" and "sorted (map (\<lambda>sc. run_key (0, sc_fresh sc)) all)"
  shows "seq_runs all [0..<length all] = map (\<lambda>i. (i, sc_fresh (all ! i))) [0..<length all]"
proof -
  have "concat (map (\<lambda>u. map (Pair u) (op_runs (sc_fresh (all ! u)))) us) = map (\<lambda>i. (i, sc_fresh (all ! i))) us"
    if "\<forall>u\<in>set us. u < length all" for us
    using that assms(1) by (induction us) (auto simp: linear_change_def op_runs_chain)
  then have c: "concat (map (\<lambda>u. map (Pair u) (op_runs (sc_fresh (all ! u)))) [0..<length all]) =
      map (\<lambda>i. (i, sc_fresh (all ! i))) [0..<length all]" by simp
  have "map run_key (map (\<lambda>i. (i, sc_fresh (all ! i))) [0..<length all]) = map (\<lambda>sc. run_key (0, sc_fresh sc)) all"
    by (intro nth_equalityI) (simp_all add: run_key_def)
  then have "sorted (map run_key (map (\<lambda>i. (i, sc_fresh (all ! i))) [0..<length all]))" using assms(2) by (simp only:)
  then show ?thesis unfolding seq_runs_def c by (rule sort_key_id_if_sorted)
qed

lemma replay_linear:
  assumes lin: "linear_history all"
  shows "replay_at n ds r \<Longrightarrow> k + length us = length all \<Longrightarrow> us = map (\<lambda>i. (i, sc_fresh (all ! i))) [k..<length all] \<Longrightarrow>
    n + total_size (concat (map snd us)) < 2 ^ 62 \<Longrightarrow> \<forall>op\<in>set (concat (map snd us)). op_fits op \<Longrightarrow>
    edit_all (concat (map snd us)) ds = Some ds' \<Longrightarrow>
    rp_frontier r = (if k = 0 then [] else [op_last (last (sc_fresh (all ! (k - 1))))]) \<Longrightarrow>
    (case replay_runs all us r of Inl e \<Rightarrow> e = workLimit | Inr r' \<Rightarrow> docs_of (rp_seqs r') = ds')"
proof (induction us arbitrary: k n ds r)
  case Nil
  then show ?case by (simp add: replay_at_def)
next
  case (Cons u us)
  have k: "k < length all" using Cons.prems(2) by simp
  then have u: "u = (k, sc_fresh (all ! k))" and us: "us = map (\<lambda>i. (i, sc_fresh (all ! i))) [k + 1..<length all]"
    using Cons.prems(3) by (simp_all add: upt_conv_Cons)
  let ?ops = "sc_fresh (all ! k)"
  have lc: "linear_change (all ! k)" and dp: "ch_Deps (sc_ch (all ! k)) = (if k = 0 then [] else [op_last (last (sc_fresh (all ! (k - 1))))])"
    using lin k by (auto simp: linear_history_def)
  have ne: "?ops \<noteq> []" and chain: "successively in_turn ?ops" and tl: "\<forall>op\<in>set (tl ?ops). op_Counter op \<noteq> sc_start (all ! k)"
    and hd: "op_Counter (hd ?ops) = sc_start (all ! k)" using lc by (simp_all add: linear_change_def)
  have v: "set (op_deps (all ! k) (hd ?ops)) = set (rp_frontier r)"
    using hd dp Cons.prems(7) by (simp add: op_deps_def)
  obtain ds1 where e1: "edit_all ?ops ds = Some ds1" and e2: "edit_all (concat (map snd us)) ds1 = Some ds'"
    using Cons.prems(6) u by (auto simp: edit_all_append split: option.splits)
  have t: "n + total_size ?ops < 2 ^ 62" "\<forall>op\<in>set ?ops. op_fits op"
    using Cons.prems(4,5) u by (auto simp: total_size_def)
  note o = replay_ops_edits [OF Cons.prems(1) t e1 ne chain tl v, of None]
  show ?case
  proof (cases "replay_ops all k ?ops (None, r)")
    case (Inl e)
    with o u show ?thesis by simp
  next
    case (Inr p)
    obtain vv r1 where p: "p = (vv, r1)" by (cases p)
    have r1: "replay_at (n + total_size ?ops) ds1 r1" "rp_frontier r1 = [op_last (last ?ops)]" using o Inr p by simp_all
    have fr: "rp_frontier r1 = (if k + 1 = 0 then [] else [op_last (last (sc_fresh (all ! (k + 1 - 1))))])" using r1(2) by simp
    have l: "k + 1 + length us = length all" using Cons.prems(2) by simp
    have t2: "n + total_size ?ops + total_size (concat (map snd us)) < 2 ^ 62" using Cons.prems(4) u by (simp add: total_size_def)
    have f2: "\<forall>op\<in>set (concat (map snd us)). op_fits op" using Cons.prems(5) by auto
    have "replay_runs all (u # us) r = replay_runs all us r1" using u Inr p by simp
    then show ?thesis using Cons.IH [OF r1(1) l us t2 f2 e2 fr] by (simp only:)
  qed
qed

lemma linear_history_merges:
  assumes lin: "linear_history all" and st: "\<not> sw_strict w"
    and fits: "\<forall>op\<in>set (concat (map sc_fresh all)). op_fits op" and size: "total_size (concat (map sc_fresh all)) < 2 ^ 62"
    and e: "edit_all (concat (map sc_fresh all)) (\<lambda>_. ([], Map.empty)) = Some ds"
  shows "case mergeSequences all [0..<length all] w of Inl e \<Rightarrow> e = workLimit | Inr (seqs, w') \<Rightarrow> docs_of seqs = ds"
proof (cases "newCausalIndex all w")
  case (Inl e')
  have "\<forall>sc\<in>set all. closed_change all sc" using lin by (simp add: linear_history_def)
  from newCausalIndex_closed [OF this, of w] Inl show ?thesis by (simp add: mergeSequences_def)
next
  case (Inr p)
  obtain ix w1 where p: "p = (ix, w1)" by (cases p)
  have "\<forall>sc\<in>set all. closed_change all sc" using lin by (simp add: linear_history_def)
  from newCausalIndex_closed [OF this, of w] Inr p have ix: "ci_complete ix" "\<not> sw_strict w1" using st by simp_all
  let ?r = "\<lparr>rp_seqs = Map.empty, rp_frontier = [], rp_ix = ix, rp_work = w1\<rparr>"
  define us where "us = map (\<lambda>i. (i, sc_fresh (all ! i))) [0..<length all]"
  have runs: "seq_runs all [0..<length all] = us"
    using lin linear_runs [of all] by (simp add: linear_history_def us_def)
  have "map snd us = map sc_fresh all" by (intro nth_equalityI) (simp_all add: us_def)
  then have ops: "concat (map snd us) = concat (map sc_fresh all)" by simp
  have r: "replay_at 0 (\<lambda>_. ([], Map.empty)) ?r"
    using ix by (simp add: replay_at_def seqs_ok_def docs_of_def [abs_def] seq_at_def new_doc)
  have l: "0 + length us = length all" by (simp add: us_def)
  have "case replay_runs all us ?r of Inl e \<Rightarrow> e = workLimit | Inr r' \<Rightarrow> docs_of (rp_seqs r') = ds"
    by (rule replay_linear [OF lin r l us_def]) (use fits size e in \<open>simp_all add: ops\<close>)
  then show ?thesis by (simp add: mergeSequences_def Inr p runs split: sum.splits)
qed

end
