(* ===== verification/SeqExamples.thy ===== *)
theory SeqExamples
  imports SeqHistory
begin

text \<open>
  What the sequence merge promises, over the whole of it, with histories to which it applies: two
  authors at work at once, one after the other, and a delete at the end of the number range.
\<close>

definition seq_op :: "u64 \<Rightarrow> i64 \<Rightarrow> i64 \<Rightarrow> byte \<Rightarrow> i64 \<Rightarrow> opval \<Rightarrow> i64 \<Rightarrow> Op" where
  "seq_op peer counter lamport vk pos v n = \<lparr>op_Container = [116], op_IsRoot = True, op_Kind = CText, op_VKind = vk,
     op_Pos = pos, op_MapKey = [], op_Value = v, op_MoveFrom = 0, op_Len = n, op_Peer = peer, op_Counter = counter,
     op_Lamport = lamport\<rparr>"

definition seq_change :: "ID list \<Rightarrow> Op list \<Rightarrow> seqChange" where
  "seq_change deps ops =
     (let x = hd ops; ch = \<lparr>ch_ID = \<lparr>Peer = op_Peer x, Counter = op_Counter x\<rparr>, ch_Lamport = op_Lamport x, ch_Timestamp = 0,
        ch_Deps = deps, ch_CommitMsg = [], ch_Ops = ops\<rparr> in
      \<lparr>sc_ch = ch, sc_start = op_Counter x, sc_end = change_end ch, sc_fresh = ops\<rparr>)"

definition text_key :: contKey where
  "text_key = \<lparr>ck_root = True, ck_name = [116], ck_kind = CText\<rparr>"

definition fresh_work :: seqWork where
  "fresh_work = \<lparr>sw_steps = 0, sw_limit = seqWorkLimit, sw_strict = False\<rparr>"

abbreviation text_of :: "((contKey \<Rightarrow> seqState option) \<times> seqWork) res \<Rightarrow> err + gostring option" where
  "text_of m \<equiv> map_sum (\<lambda>e. e) (\<lambda>(seqs, w). map_option seq_text (seqs text_key)) m"

text \<open>\<open>ab\<close> and \<open>xy\<close>, typed at once at the start of an empty text, and a letter of each deleted later.\<close>

definition at_once :: "seqChange list" where
  "at_once =
     [seq_change [] [seq_op 1 0 0 VKStr 0 (OVal (LStr [97, 98])) 2],
      seq_change [] [seq_op 2 0 0 VKStr 0 (OVal (LStr [120, 121])) 2],
      seq_change [\<lparr>Peer = 1, Counter = 1\<rparr>, \<lparr>Peer = 2, Counter = 1\<rparr>]
        [seq_op 1 2 2 VKDeleteSeq 1 (ODelete \<lparr>ds_Peer = 1, ds_Counter = 1, ds_Len = 1\<rparr>) 1]]"

text \<open>\<open>ab\<close>, then another author's \<open>X\<close> between the two letters and a delete of the first.\<close>

definition in_order :: "seqChange list" where
  "in_order =
     [seq_change [] [seq_op 1 0 0 VKStr 0 (OVal (LStr [97, 98])) 2],
      seq_change [\<lparr>Peer = 1, Counter = 1\<rparr>]
        [seq_op 2 0 2 VKStr 1 (OVal (LStr [88])) 1,
         seq_op 2 1 3 VKDeleteSeq 0 (ODelete \<lparr>ds_Peer = 1, ds_Counter = 0, ds_Len = 1\<rparr>) 1]]"

lemma at_once_text: "text_of (mergeSequences at_once [0, 1, 2] fresh_work) = Inr (Some [97, 120, 121])"
  by code_simp

lemma in_order_text: "text_of (mergeSequences in_order [0, 1] fresh_work) = Inr (Some [88, 98])"
  by code_simp

text \<open>A delete at the far end of the numbers.\<close>

definition far_delete :: seqChange where
  "far_delete = seq_change [] [seq_op 1 0 0 VKDeleteSeq 0x7fffffffffffffff (ODelete \<lparr>ds_Peer = 1, ds_Counter = 0, ds_Len = 1\<rparr>) 1]"

text \<open>A text of two letters of one author, and what an author who has seen only the first of them sees.\<close>

definition two_letters :: seqState where
  "two_letters =
     (case seq_insert newSeqState fresh_work (seq_op 1 0 0 VKStr 0 (OVal (LStr [97, 98])) 2) 0 [SStr [97], SStr [98]] False True no_past of
        Inr (_, s, _) \<Rightarrow> s | Inl _ \<Rightarrow> newSeqState)"

definition first_letter :: pastView where
  "first_letter = \<lparr>pv_vv = [(1, 1)], pv_peer = 2, pv_own = 0\<rparr>"

lemma two_letters_ok: "seq_ok two_letters" "length (ss_nodes two_letters) = 2"
proof -
  let ?op = "seq_op 1 0 0 VKStr 0 (OVal (LStr [97, 98])) 2"
  have "map_sum (\<lambda>_. ()) (\<lambda>(_, s, _). length (ss_nodes s))
      (seq_insert newSeqState fresh_work ?op 0 [SStr [97], SStr [98]] False True no_past) = Inr 2" by code_simp
  then obtain run s w where i: "seq_insert newSeqState fresh_work ?op 0 [SStr [97], SStr [98]] False True no_past = Inr (run, s, w)"
    "length (ss_nodes s) = 2"
    by (cases "seq_insert newSeqState fresh_work ?op 0 [SStr [97], SStr [98]] False True no_past") auto
  then have t: "two_letters = s" by (simp add: two_letters_def)
  show "seq_ok two_letters" unfolding t
    by (rule seq_insert_lands(1) [OF newSeqState_ok _ _ i(1)]) (simp_all add: newSeqState_def)
  show "length (ss_nodes two_letters) = 2" using i(2) t by simp
qed

section \<open>Inserts and deletes in an author's view\<close>

text \<open>C13: An insert puts its run in one piece where the view of its author splits at the asked position, be
  the view everything merged so far or only what the author's version covers, and changes no
  element already there.\<close>

theorem insert_lands_in_view:
  assumes "seq_ok s" and "length (ss_nodes s) < 2 ^ 63" and "items \<noteq> []"
    and "seq_insert s w op pos items anchor all past = Inr (run, s', w')"
  shows "seq_ok s' \<and> lands_between s op (reach pos (view s all past)) items anchor all past run s'"
  using seq_insert_lands [OF assms] by blast

lemma insert_lands_in_view_witness:
  "\<exists>run s' w'. seq_insert two_letters fresh_work (seq_op 2 0 5 VKStr 1 (OVal (LStr [88])) 1) 1 [SStr [88]] False False first_letter =
      Inr (run, s', w') \<and> seq_ok s' \<and>
    lands_between two_letters (seq_op 2 0 5 VKStr 1 (OVal (LStr [88])) 1) (reach 1 (view two_letters False first_letter))
      [SStr [88]] False False first_letter run s'"
proof -
  let ?m = "seq_insert two_letters fresh_work (seq_op 2 0 5 VKStr 1 (OVal (LStr [88])) 1) 1 [SStr [88]] False False first_letter"
  have "map_sum (\<lambda>_. ()) (\<lambda>_. ()) ?m = Inr ()" by code_simp
  then obtain run s' w' where m: "?m = Inr (run, s', w')" by (cases ?m) auto
  have "length (ss_nodes two_letters) < 2 ^ 63" by (simp add: two_letters_ok)
  from insert_lands_in_view [OF two_letters_ok(1) this _ m] m show ?thesis by blast
qed

text \<open>C14: A delete by position succeeds exactly when its range is in the author's view, and then marks exactly the
  elements of that range, each with the atom that took it; otherwise it changes no element.\<close>

theorem delete_takes_range:
  assumes "seq_ok s" and "length (ss_nodes s) < 2 ^ 62" and "op_Value op = ODelete d" and "delete_fits op"
    and "removeAt s w op all past = Inr (fin, s', w')"
  shows "seq_ok s' \<and>
    (let n = nat (sint (snd (Normalize d))); low = delete_low op d; v = view s all past in
      fin = (0 < n \<and> 0 \<le> low \<and> nat low + n \<le> length v) \<and>
      (if fin then takes s (delete_atom op d) (take n (drop (nat low) v)) s' else ss_heap s' = ss_heap s \<and> ss_nodes s' = ss_nodes s))"
  using removeAt_takes [OF assms] by (auto simp: Let_def)

lemma delete_takes_range_witness:
  "\<exists>s' w'. removeAt two_letters fresh_work (seq_op 2 0 5 VKDeleteSeq 0 (ODelete \<lparr>ds_Peer = 1, ds_Counter = 0, ds_Len = 1\<rparr>) 1)
      False first_letter = Inr (True, s', w') \<and> seq_ok s' \<and>
    takes two_letters (delete_atom (seq_op 2 0 5 VKDeleteSeq 0 (ODelete \<lparr>ds_Peer = 1, ds_Counter = 0, ds_Len = 1\<rparr>) 1)
        \<lparr>ds_Peer = 1, ds_Counter = 0, ds_Len = 1\<rparr>)
      (take 1 (view two_letters False first_letter)) s'"
proof -
  let ?d = "\<lparr>ds_Peer = 1, ds_Counter = 0, ds_Len = 1\<rparr>"
  let ?op = "seq_op 2 0 5 VKDeleteSeq 0 (ODelete ?d) 1"
  let ?m = "removeAt two_letters fresh_work ?op False first_letter"
  have "map_sum (\<lambda>_. ()) (\<lambda>(fin, _). fin) ?m = Inr True" by code_simp
  then obtain s' w' where m: "?m = Inr (True, s', w')" by (cases ?m) auto
  have l: "length (ss_nodes two_letters) < 2 ^ 62" by (simp add: two_letters_ok)
  have n: "snd (Normalize ?d) = 1" by code_simp
  have v: "op_Value ?op = ODelete ?d" by (simp add: seq_op_def)
  have f: "delete_fits ?op" by (simp add: delete_fits_def seq_op_def n [unfolded seq_op_def])
  have low: "delete_low ?op ?d = 0" by (simp add: delete_low_def seq_op_def)
  from delete_takes_range [OF two_letters_ok(1) l v f m] m n low show ?thesis by (auto simp: Let_def)
qed

section \<open>Whole histories\<close>

text \<open>C12: Whatever the history, every sequence a merge returns keeps the invariant: distinct nodes below the
  allocation mark, the live count, the cursor, origins and id index in agreement with the nodes.\<close>

theorem merged_sequences_ok:
  assumes "mergeSequences all units w = Inr (seqs, w')" and "\<forall>op\<in>set (unit_ops all units). delete_fits op"
    and "total_size (unit_ops all units) < 2 ^ 62" and "seqs k = Some s"
  shows "seq_ok s \<and> length (ss_nodes s) \<le> total_size (unit_ops all units)"
  using merged_seqs_ok [OF assms(1-3)] assms(4) by (auto simp: seqs_ok_def)

lemma text_of_Inr:
  "text_of m = Inr (Some x) \<Longrightarrow> \<exists>seqs w' s. m = Inr (seqs, w') \<and> seqs text_key = Some s \<and> seq_text s = x"
  by (cases m) auto

lemma at_once_fits: "\<forall>op\<in>set (unit_ops at_once [0, 1, 2]). delete_fits op" "total_size (unit_ops at_once [0, 1, 2]) < 2 ^ 62"
proof -
  have "unit_ops at_once [0, 1, 2] = [seq_op 1 0 0 VKStr 0 (OVal (LStr [97, 98])) 2, seq_op 2 0 0 VKStr 0 (OVal (LStr [120, 121])) 2,
      seq_op 1 2 2 VKDeleteSeq 1 (ODelete \<lparr>ds_Peer = 1, ds_Counter = 1, ds_Len = 1\<rparr>) 1]"
    by (simp add: unit_ops_def at_once_def seq_change_def Let_def)
  moreover have "snd (Normalize \<lparr>ds_Peer = 1, ds_Counter = 1, ds_Len = 1\<rparr>) = 1" by code_simp
  moreover have "total_size (unit_ops at_once [0, 1, 2]) = 5" by code_simp
  ultimately show "\<forall>op\<in>set (unit_ops at_once [0, 1, 2]). delete_fits op" "total_size (unit_ops at_once [0, 1, 2]) < 2 ^ 62"
    by (simp_all add: delete_fits_def seq_op_def)
qed

lemma merged_sequences_ok_witness:
  "\<exists>seqs w' s. mergeSequences at_once [0, 1, 2] fresh_work = Inr (seqs, w') \<and> seqs text_key = Some s \<and>
    seq_text s = [97, 120, 121] \<and> seq_ok s"
  using text_of_Inr [OF at_once_text] merged_sequences_ok [OF _ at_once_fits] by blast

text \<open>C11: A history in which every change was made with everything before it in view merges to the documents its
  ops describe one after the other, as splices and cuts of a plain list; or the step limit is reached.\<close>

theorem linear_history_reads_as_typed:
  assumes "linear_history all" and "\<not> sw_strict w"
    and "\<forall>op\<in>set (concat (map sc_fresh all)). op_fits op" and "total_size (concat (map sc_fresh all)) < 2 ^ 62"
    and "edit_all (concat (map sc_fresh all)) (\<lambda>_. ([], Map.empty)) = Some ds"
  shows "case mergeSequences all [0..<length all] w of Inl e \<Rightarrow> e = workLimit | Inr (seqs, w') \<Rightarrow> docs_of seqs = ds"
  using linear_history_merges [OF assms] .


lemma in_order_fields:
  "map (\<lambda>sc. (sc_peer sc, sint (sc_start sc), sint (sc_end sc), sint (ch_Lamport (sc_ch sc)), ch_Deps (sc_ch sc))) in_order =
    [(1, 0, 2, 0, []), (2, 0, 2, 2, [\<lparr>Peer = 1, Counter = 1\<rparr>])]"
  by code_simp

lemma in_order_changes: "length in_order = 2" "in_order ! 0 \<in> set in_order"
   "sc_peer (in_order ! 0) = 1" "sc_start (in_order ! 0) = 0" "sc_end (in_order ! 0) = 2" "ch_Lamport (sc_ch (in_order ! 0)) = 0"
   "ch_Deps (sc_ch (in_order ! 0)) = []"
   "sc_peer (in_order ! Suc 0) = 2" "sc_start (in_order ! Suc 0) = 0" "sc_end (in_order ! Suc 0) = 2" "ch_Lamport (sc_ch (in_order ! Suc 0)) = 2"
   "ch_Deps (sc_ch (in_order ! Suc 0)) = [\<lparr>Peer = 1, Counter = 1\<rparr>]"
  by code_simp+

lemma in_order_linear: "linear_history in_order"
proof -
  have two: "x \<in> set in_order \<longleftrightarrow> x = in_order ! 0 \<or> x = in_order ! Suc 0" for x
    using in_order_changes(1) by (auto simp: in_set_conv_nth less_2_cases_iff)
  have h: "holds in_order z \<lparr>Peer = 1, Counter = 1\<rparr> \<longleftrightarrow> z = 0" for z
    by (auto simp: holds_def in_order_changes less_2_cases_iff)
  have c: "closed_change in_order x" if "x \<in> set in_order" for x
    using that by (auto simp: two closed_change_def in_order_changes h dep_lamport_def)
  have l: "list_all linear_change in_order" by code_simp
  have d: "list_all (\<lambda>i. ch_Deps (sc_ch (in_order ! i)) = (if i = 0 then [] else [op_last (last (sc_fresh (in_order ! (i - 1))))])) [0, 1]"
    by code_simp
  have s: "sorted (map (\<lambda>sc. run_key (0, sc_fresh sc)) in_order)" by code_simp
  show ?thesis using c l d s by (auto simp: linear_history_def list_all_iff in_order_changes less_2_cases_iff)
qed

lemma in_order_edits:
  "map_option (\<lambda>ds. fst (ds text_key)) (edit_all (concat (map sc_fresh in_order)) (\<lambda>_. ([], Map.empty))) =
    Some [(SStr [88], False), (SStr [98], False)]"
  by code_simp

lemma linear_history_reads_as_typed_witness:
  "\<exists>seqs w'. mergeSequences in_order [0, 1] fresh_work = Inr (seqs, w') \<and>
    fst (docs_of seqs text_key) = [(SStr [88], False), (SStr [98], False)]"
proof -
  obtain seqs w' where m: "mergeSequences in_order [0, 1] fresh_work = Inr (seqs, w')" using text_of_Inr [OF in_order_text] by blast
  obtain ds where e: "edit_all (concat (map sc_fresh in_order)) (\<lambda>_. ([], Map.empty)) = Some ds"
    and t: "fst (ds text_key) = [(SStr [88], False), (SStr [98], False)]" using in_order_edits by auto
  have n: "snd (Normalize \<lparr>ds_Peer = 1, ds_Counter = 0, ds_Len = 1\<rparr>) = 1" by code_simp
  have f: "concat (map sc_fresh in_order) = [seq_op 1 0 0 VKStr 0 (OVal (LStr [97, 98])) 2, seq_op 2 0 2 VKStr 1 (OVal (LStr [88])) 1,
      seq_op 2 1 3 VKDeleteSeq 0 (ODelete \<lparr>ds_Peer = 1, ds_Counter = 0, ds_Len = 1\<rparr>) 1]"
    by (simp add: in_order_def seq_change_def Let_def)
  have fits: "\<forall>op\<in>set (concat (map sc_fresh in_order)). op_fits op"
    unfolding f by (simp add: op_fits_def delete_fits_def seq_op_def n CText_def CMovableList_def)
  have "total_size (concat (map sc_fresh in_order)) = 4" by code_simp
  then have size: "total_size (concat (map sc_fresh in_order)) < 2 ^ 62" by simp
  have u: "[0..<length in_order] = [0, 1]" by code_simp
  have "\<not> sw_strict fresh_work" by (simp add: fresh_work_def)
  from linear_history_reads_as_typed [OF in_order_linear this fits size e] m t u show ?thesis by simp
qed

end
