(* ===== verification/OpFold.thy ===== *)
theory OpFold
  imports OpRanges
begin

text \<open>
  Folding and cutting the ops a document keeps (\<open>loro/oplog.go\<close>, \<open>loro/txn.go\<close>,
  \<open>loro/export_from.go\<close>): where the value of an op lies in loro's memory, which decides whether the
  next op is folded into it, delete spans, and the parts of an op. A pointer to a shared buffer is
  an address of the store \<open>buffers\<close>; the room a folded value keeps to grow in (\<open>growBuf\<close>) changes
  no value and is left out, as are the rules tests switch off (\<open>knocked\<close>). Go's \<open>int\<close>, which counts
  bytes and items in memory here, is \<open>int\<close>.
\<close>

section \<open>Where values live\<close>

datatype provKind = ProvNone | ProvText | ProvList | ProvShared nat

record opProv =
  pr_kind :: provKind
  pr_gen :: int
  pr_start :: int
  pr_end :: int

definition prov_none :: opProv where
  "prov_none = \<lparr>pr_kind = ProvNone, pr_gen = 0, pr_start = 0, pr_end = 0\<rparr>"

record sharedItems =
  si_holders :: int
  si_len :: int

record buffers =
  bf_next :: nat
  bf_at :: "nat \<Rightarrow> sharedItems"

definition new_buf :: "sharedItems \<Rightarrow> buffers \<Rightarrow> nat \<times> buffers" where
  "new_buf x b = (bf_next b, b\<lparr>bf_next := bf_next b + 1, bf_at := (bf_at b)(bf_next b := x)\<rparr>)"

definition hold_buf :: "int \<Rightarrow> nat \<Rightarrow> buffers \<Rightarrow> buffers" where
  "hold_buf n a b = b\<lparr>bf_at := (bf_at b)(a := (bf_at b a)\<lparr>si_holders := si_holders (bf_at b a) + n\<rparr>)\<rparr>"

definition grow_buf :: "int \<Rightarrow> nat \<Rightarrow> buffers \<Rightarrow> buffers" where
  "grow_buf n a b = b\<lparr>bf_at := (bf_at b)(a := (bf_at b a)\<lparr>si_len := si_len (bf_at b a) + n\<rparr>)\<rparr>"

definition owns :: "sharedItems \<Rightarrow> opProv \<Rightarrow> bool" where
  "owns s p \<longleftrightarrow> si_holders s = 1 \<and> pr_end p = si_len s"

record strArena =
  sa_len :: int
  sa_cap :: int
  sa_gen :: int

text \<open>The doubling loop of \<open>alloc\<close>.\<close>

function double_cap :: "int \<Rightarrow> int \<Rightarrow> int" where
  "double_cap cap need = (if 0 < cap \<and> cap < need then double_cap (cap * 2) need else cap)"
  by pat_completeness auto
termination by (relation "measure (\<lambda>(cap, need). nat (need - cap))") auto

declare double_cap.simps [simp del]

definition arena_alloc :: "strArena \<Rightarrow> int \<Rightarrow> opProv \<times> strArena" where
  "arena_alloc a n =
     (let a = (if sa_len a + n > sa_cap a
               then a\<lparr>sa_gen := sa_gen a + 1, sa_cap := double_cap 32 (sa_len a + n)\<rparr> else a) in
      (\<lparr>pr_kind = ProvText, pr_gen = sa_gen a, pr_start = sa_len a, pr_end = sa_len a + n\<rparr>,
       a\<lparr>sa_len := sa_len a + n\<rparr>))"

record provOp =
  po_op :: Op
  po_prov :: opProv

definition isListInsert :: "Op \<Rightarrow> bool" where
  "isListInsert op \<longleftrightarrow> op_VKind op = VKLoroValue \<and> (op_Kind op = CList \<or> op_Kind op = CMovableList)"

section \<open>Delete spans\<close>

record delSpan =
  dl_pos :: i64
  dl_slen :: i64
  dl_peer :: u64
  dl_ctr :: i64

definition delSpanOf :: "Op \<Rightarrow> delSpan option" where
  "delSpanOf op =
     (case op_Value op of
        ODelete d \<Rightarrow> Some \<lparr>dl_pos = op_Pos op, dl_slen = ds_Len d, dl_peer = ds_Peer d, dl_ctr = ds_Counter d\<rparr>
      | _ \<Rightarrow> None)"

definition bidirectional :: "delSpan \<Rightarrow> bool" where
  "bidirectional s \<longleftrightarrow> dl_slen s = 1 \<or> dl_slen s = - 1"

definition dl_length :: "delSpan \<Rightarrow> i64" where
  "dl_length s = (if sint (dl_slen s) < 0 then - dl_slen s else dl_slen s)"

definition dl_direction :: "delSpan \<Rightarrow> i64" where
  "dl_direction s = (if sint (dl_slen s) > 0 then 1 else - 1)"

definition dl_start :: "delSpan \<Rightarrow> i64" where
  "dl_start s = (if sint (dl_slen s) > 0 then dl_pos s else dl_pos s + 1 + dl_slen s)"

definition dl_end :: "delSpan \<Rightarrow> i64" where
  "dl_end s = (if sint (dl_slen s) > 0 then dl_pos s + dl_slen s else dl_pos s + 1)"

definition nextPos :: "delSpan \<Rightarrow> i64" where
  "nextPos s = (if sint (dl_slen s) > 0 then dl_start s else dl_start s - 1)"

definition prevPos :: "delSpan \<Rightarrow> i64" where
  "prevPos s = (if sint (dl_slen s) > 0 then dl_pos s else dl_end s)"

definition idIs :: "delSpan \<Rightarrow> u64 \<Rightarrow> i64 \<Rightarrow> bool" where
  "idIs s peer ctr \<longleftrightarrow> dl_peer s = peer \<and> dl_ctr s = ctr"

definition dl_mergeable :: "delSpan \<Rightarrow> delSpan \<Rightarrow> bool" where
  "dl_mergeable s r =
     (if bidirectional s \<and> bidirectional r then
        dl_pos s = dl_pos r \<and> idIs r (dl_peer s) (dl_ctr s + 1) \<or>
        dl_pos s = dl_pos r + 1 \<and> idIs s (dl_peer r) (dl_ctr r + 1)
      else if bidirectional s then
        dl_pos s = prevPos r \<and>
        (if sint (dl_slen r) > 0 then idIs r (dl_peer s) (dl_ctr s + 1) else idIs s (dl_peer r) (dl_ctr r + dl_length r))
      else if bidirectional r then
        nextPos s = dl_pos r \<and>
        (if sint (dl_slen s) > 0 then idIs r (dl_peer s) (dl_ctr s + dl_length s) else idIs s (dl_peer r) (dl_ctr r + 1))
      else
        nextPos s = dl_pos r \<and> dl_direction s = dl_direction r \<and>
        (if sint (dl_slen s) > 0 then idIs r (dl_peer s) (dl_ctr s + dl_length s)
         else idIs s (dl_peer r) (dl_ctr r + dl_length r)))"

definition dl_merge :: "delSpan \<Rightarrow> delSpan \<Rightarrow> delSpan" where
  "dl_merge s r =
     (let s = s\<lparr>dl_ctr := smin (dl_ctr s) (dl_ctr r)\<rparr> in
      if bidirectional s \<and> bidirectional r then s\<lparr>dl_slen := (if dl_pos s = dl_pos r then 2 else - 2)\<rparr>
      else if bidirectional s then s\<lparr>dl_slen := dl_slen r + dl_direction r\<rparr>
      else if bidirectional r then s\<lparr>dl_slen := dl_slen s + dl_direction s\<rparr>
      else s\<lparr>dl_slen := dl_slen s + dl_slen r\<rparr>)"

section \<open>Folding\<close>

definition listFolds :: "buffers \<Rightarrow> opProv \<Rightarrow> opProv \<Rightarrow> bool" where
  "listFolds bufs a b =
     (case pr_kind a of
        ProvList \<Rightarrow> True
      | ProvShared x \<Rightarrow> pr_kind b = ProvShared x \<and> pr_end a = pr_start b \<or> owns (bf_at bufs x) a
      | _ \<Rightarrow> False)"

text \<open>The switch of \<open>canFold\<close> and of \<open>decodedFolds\<close>, which differ in what tests can switch off only.\<close>

definition canFold :: "buffers \<Rightarrow> provOp \<Rightarrow> Op \<Rightarrow> opProv \<Rightarrow> bool" where
  "canFold bufs a b pb =
     (let x = po_op a; p = po_prov a in
      if keyOf x \<noteq> keyOf b \<or> op_Counter x + op_Len x \<noteq> op_Counter b \<or> op_VKind x \<noteq> op_VKind b then False
      else if op_VKind x = VKStr \<and> op_Kind x = CText then
        pr_kind p = ProvText \<and> pr_kind pb = ProvText \<and> pr_gen p = pr_gen pb \<and> pr_end p = pr_start pb \<and>
        op_Pos x + op_Len x = op_Pos b
      else if op_VKind x = VKLoroValue \<and> (op_Kind x = CList \<or> op_Kind x = CMovableList) then
        op_Pos x + op_Len x = op_Pos b \<and> listFolds bufs p pb
      else if op_VKind x = VKDeleteSeq then
        (case (delSpanOf x, delSpanOf b) of (Some s, Some r) \<Rightarrow> dl_mergeable s r | _ \<Rightarrow> False)
      else False)"

definition decodedFolds :: "buffers \<Rightarrow> provOp \<Rightarrow> Op \<Rightarrow> opProv \<Rightarrow> bool" where
  "decodedFolds bufs a b pb =
     (let x = po_op a; p = po_prov a in
      if keyOf x \<noteq> keyOf b \<or> op_Counter x + op_Len x \<noteq> op_Counter b \<or> op_VKind x \<noteq> op_VKind b then False
      else if op_VKind x = VKStr \<and> op_Kind x = CText then
        pr_kind p = ProvText \<and> pr_kind pb = ProvText \<and> pr_gen p = pr_gen pb \<and> pr_end p = pr_start pb \<and>
        op_Pos x + op_Len x = op_Pos b
      else if isListInsert x then op_Pos x + op_Len x = op_Pos b \<and> listFolds bufs p pb
      else if op_VKind x = VKDeleteSeq then
        (case (delSpanOf x, delSpanOf b) of (Some s, Some r) \<Rightarrow> dl_mergeable s r | _ \<Rightarrow> False)
      else False)"

text \<open>The value of a type assertion that yields the zero value when it fails.\<close>

definition str_of :: "opval \<Rightarrow> gostring" where
  "str_of v = (case v of OVal (LStr s) \<Rightarrow> s | _ \<Rightarrow> [])"

definition list_of :: "opval \<Rightarrow> lval list" where
  "list_of v = (case v of OVal (LList xs) \<Rightarrow> xs | _ \<Rightarrow> [])"

definition span_of :: "Op \<Rightarrow> delSpan" where
  "span_of op = (case delSpanOf op of Some s \<Rightarrow> s | None \<Rightarrow> \<lparr>dl_pos = 0, dl_slen = 0, dl_peer = 0, dl_ctr = 0\<rparr>)"

text \<open>\<open>ValueSlice::merge\<close>: what folding a list insert does to the places of the two.\<close>

definition fold_items :: "provOp \<Rightarrow> provOp \<Rightarrow> buffers \<Rightarrow> opProv \<times> buffers" where
  "fold_items a b bufs =
     (let p = po_prov a; q = po_prov b;
          (p, bufs) =
            (case pr_kind p of
               ProvShared x \<Rightarrow>
                 if pr_kind q = ProvShared x \<and> pr_end p = pr_start q then (p\<lparr>pr_end := pr_end q\<rparr>, bufs)
                 else let bufs = grow_buf (sint (op_Len (po_op b))) x bufs in (p\<lparr>pr_end := si_len (bf_at bufs x)\<rparr>, bufs)
             | _ \<Rightarrow> (p, bufs)) in
      (p, case pr_kind q of ProvShared y \<Rightarrow> hold_buf (- 1) y bufs | _ \<Rightarrow> bufs))"

definition foldOps :: "provOp \<Rightarrow> provOp \<Rightarrow> buffers \<Rightarrow> provOp \<times> buffers" where
  "foldOps a b bufs =
     (let x = po_op a; y = po_op b;
          (x, p, bufs) =
            (if op_VKind x = VKStr then
               (x\<lparr>op_Value := OVal (LStr (str_of (op_Value x) @ str_of (op_Value y)))\<rparr>,
                (po_prov a)\<lparr>pr_end := pr_end (po_prov b)\<rparr>, bufs)
             else if op_VKind x = VKLoroValue then
               (case fold_items a b bufs of (p, bufs) \<Rightarrow>
                 (x\<lparr>op_Value := OVal (LList (list_of (op_Value x) @ list_of (op_Value y)))\<rparr>, p, bufs))
             else if op_VKind x = VKDeleteSeq then
               (let s = dl_merge (span_of x) (span_of y) in
                (x\<lparr>op_Pos := dl_pos s, op_Value := ODelete \<lparr>ds_Peer = dl_peer s, ds_Counter = dl_ctr s, ds_Len = dl_slen s\<rparr>\<rparr>,
                 po_prov a, bufs))
             else (x, po_prov a, bufs)) in
      (\<lparr>po_op = x\<lparr>op_Len := op_Len x + op_Len y\<rparr>, po_prov = p\<rparr>, bufs))"

section \<open>Cutting\<close>

fun rune_bytes :: "gostring \<Rightarrow> nat \<Rightarrow> int" where
  "rune_bytes s 0 = 0"
| "rune_bytes s (Suc n) = (if s = [] then 0 else let k = snd (decode_rune s) in int k + rune_bytes (drop k s) n)"

definition runeBytes :: "gostring \<Rightarrow> i64 \<Rightarrow> int" where
  "runeBytes s n = rune_bytes s (nat (sint n))"

text \<open>The slice expressions of \<open>clipOp\<close> panic when the range to keep ends before it starts.\<close>

definition clip_panics :: "Op \<Rightarrow> idRange \<Rightarrow> idRange \<Rightarrow> bool" where
  "clip_panics op span keep \<longleftrightarrow> keep \<noteq> span \<and>
     (let off = ir_start keep - ir_start span; upto = off + (ir_end keep - ir_start keep) in
      0 \<le> sint off \<and> sless upto off \<and>
      (case op_Value op of
         OVal (LStr s) \<Rightarrow> sint upto \<le> int (length (runes s))
       | OVal (LList xs) \<Rightarrow> sint upto \<le> int (length xs)
       | _ \<Rightarrow> False))"

definition slice_prov :: "Op \<Rightarrow> Op \<Rightarrow> opProv \<Rightarrow> idRange \<Rightarrow> idRange \<Rightarrow> opProv" where
  "slice_prov op clipped p span keep =
     (case pr_kind p of
        ProvShared _ \<Rightarrow>
          (let st = pr_start p + sint (ir_start keep - ir_start span) in
           p\<lparr>pr_start := st, pr_end := st + sint (ir_end keep - ir_start keep)\<rparr>)
      | ProvText \<Rightarrow>
          (case op_Value op of
             OVal (LStr s) \<Rightarrow>
               (let st = pr_start p + runeBytes s (ir_start keep - ir_start span) in
                p\<lparr>pr_start := st, pr_end := st + int (length (str_of (op_Value clipped)))\<rparr>)
           | _ \<Rightarrow> p)
      | _ \<Rightarrow> p)"

definition sliceOp :: "provOp \<Rightarrow> idRange \<Rightarrow> idRange \<Rightarrow> provOp res" where
  "sliceOp a span keep =
     (if clip_panics (po_op a) span keep then Inl GoPanic
      else case clipOp (po_op a) span keep of
        None \<Rightarrow> Inr a
      | Some clipped \<Rightarrow> Inr \<lparr>po_op = clipped, po_prov = slice_prov (po_op a) clipped (po_prov a) span keep\<rparr>)"

text \<open>A list insert cut into pieces that stay in the document; each holds the insert's items.\<close>

definition cutItems :: "Op \<Rightarrow> opProv \<Rightarrow> buffers \<Rightarrow> opProv \<times> buffers" where
  "cutItems op p bufs =
     (if \<not> isListInsert op \<or> sint (op_Len op) < 2 then (p, bufs)
      else
        let (p, bufs) =
          (if pr_kind p = ProvList then
             (case new_buf \<lparr>si_holders = 1, si_len = sint (op_Len op)\<rparr> bufs of (x, bufs) \<Rightarrow>
               (\<lparr>pr_kind = ProvShared x, pr_gen = 0, pr_start = 0, pr_end = sint (op_Len op)\<rparr>, bufs))
           else (p, bufs)) in
        (p, case pr_kind p of ProvShared x \<Rightarrow> hold_buf 1 x bufs | _ \<Rightarrow> bufs))"

end
