(* ===== verification/ChangeStore.thy ===== *)
theory ChangeStore
  imports OpFold GoMap GoSearch
begin

text \<open>
  The change store of a document (\<open>loro/oplog.go\<close>, loro's \<open>ChangeStore\<close>): each peer's changes in
  blocks, a new change merged into the last one, appended to the last block or put in a block of
  its own, and a change too big for a block split. A block is never made without a change, so
  Go's index of its last one is in range; an index that could be out of range is a panic here.
\<close>

section \<open>Stored changes\<close>

record storedChange =
  sto_ch :: Change
  sto_prov :: "opProv list"

definition sto_start :: "storedChange \<Rightarrow> i64" where
  "sto_start c = Counter (ch_ID (sto_ch c))"

definition sto_end :: "storedChange \<Rightarrow> i64" where
  "sto_end c = foldl (\<lambda>e op. e + op_Len op) (Counter (ch_ID (sto_ch c))) (ch_Ops (sto_ch c))"

definition sto_peer :: "storedChange \<Rightarrow> u64" where
  "sto_peer c = Peer (ch_ID (sto_ch c))"

definition sto_lastID :: "storedChange \<Rightarrow> ID" where
  "sto_lastID c = \<lparr>Peer = sto_peer c, Counter = sto_end c - 1\<rparr>"

definition setLamport :: "i64 \<Rightarrow> storedChange \<Rightarrow> storedChange" where
  "setLamport l c =
     (let ch = sto_ch c in
      c\<lparr>sto_ch := ch\<lparr>ch_Lamport := l,
          ch_Ops := map (\<lambda>op. op\<lparr>op_Lamport := l + (op_Counter op - Counter (ch_ID ch))\<rparr>) (ch_Ops ch)\<rparr>\<rparr>)"

definition prov_ops :: "storedChange \<Rightarrow> provOp list" where
  "prov_ops c = map (\<lambda>(op, p). \<lparr>po_op = op, po_prov = p\<rparr>) (zip (ch_Ops (sto_ch c)) (sto_prov c))"

definition with_ops :: "Change \<Rightarrow> provOp list \<Rightarrow> storedChange" where
  "with_ops ch pops = \<lparr>sto_ch = ch\<lparr>ch_Ops := map po_op pops\<rparr>, sto_prov = map po_prov pops\<rparr>"

text \<open>The loop of \<open>slice\<close>: the parts of the ops whose counters are in \<open>lo\<close> up to \<open>hi\<close>.\<close>

definition len_span :: "Op \<Rightarrow> idRange" where
  "len_span op = \<lparr>ir_start = op_Counter op, ir_end = op_Counter op + op_Len op\<rparr>"

fun slice_ops :: "i64 \<Rightarrow> i64 \<Rightarrow> provOp list \<Rightarrow> provOp list res" where
  "slice_ops lo hi [] = Inr []"
| "slice_ops lo hi (a # as) =
     (let span = len_span (po_op a);
          keep = \<lparr>ir_start = smax (ir_start span) lo, ir_end = smin (ir_end span) hi\<rparr> in
      if sleq (ir_end keep) (ir_start keep) then slice_ops lo hi as
      else bindR (sliceOp a span keep) (\<lambda>x. bindR (slice_ops lo hi as) (\<lambda>xs. Inr (x # xs))))"

definition sto_slice :: "storedChange \<Rightarrow> i64 \<Rightarrow> i64 \<Rightarrow> storedChange res" where
  "sto_slice c from til =
     (let ch = sto_ch c; start = Counter (ch_ID ch) in
      bindR (slice_ops (start + from) (start + til) (prov_ops c)) (\<lambda>pops.
        Inr (with_ops
          \<lparr>ch_ID = \<lparr>Peer = Peer (ch_ID ch), Counter = start + from\<rparr>, ch_Lamport = ch_Lamport ch + from,
            ch_Timestamp = ch_Timestamp ch,
            ch_Deps = (if sint from > 0 then [\<lparr>Peer = Peer (ch_ID ch), Counter = start + from - 1\<rparr>] else ch_Deps ch),
            ch_CommitMsg = ch_CommitMsg ch, ch_Ops = []\<rparr> pops)))"

section \<open>Sizes\<close>

definition storeBlockLimit :: int where "storeBlockLimit = 4096"

definition storedOpSize :: "Op \<Rightarrow> int" where
  "storedOpSize op =
     (if op_Kind op = CMap then 3
      else if op_Kind op = CTree then 8
      else if op_Kind op = CCounter then 4
      else if op_Kind op = CText \<or> op_Kind op = CList \<or> op_Kind op = CMovableList then
        (if op_VKind op = VKStr then int (length (str_of (op_Value op)))
         else if op_VKind op = VKLoroValue then sint (4 * op_Len op)
         else if op_VKind op = VKDeleteSeq \<or> op_VKind op = VKListMove then 8
         else if op_VKind op = VKListSet then 7
         else if op_VKind op = VKMarkStart then 10
         else 1)
      else 6)"

definition storedChangeSize :: "Change \<Rightarrow> int" where
  "storedChangeSize ch =
     foldl (\<lambda>n op. n + storedOpSize op) (2 + 1 + 1 + (max (int (length (ch_Deps ch))) 1 - 1) * 4) (ch_Ops ch)"

section \<open>Merging changes\<close>

definition pushOp :: "provOp \<Rightarrow> storedChange \<Rightarrow> buffers \<Rightarrow> bool \<times> storedChange \<times> buffers" where
  "pushOp b c bufs =
     (let ch = sto_ch c; pops = prov_ops c in
      if ch_Ops ch \<noteq> [] \<and> canFold bufs (last pops) (po_op b) (po_prov b) then
        (case foldOps (last pops) b bufs of (x, bufs) \<Rightarrow> (True, with_ops ch (butlast pops @ [x]), bufs))
      else (False, \<lparr>sto_ch = ch\<lparr>ch_Ops := ch_Ops ch @ [po_op b]\<rparr>, sto_prov = sto_prov c @ [po_prov b]\<rparr>, bufs))"

definition canMergeRight :: "storedChange \<Rightarrow> storedChange \<Rightarrow> i64 \<Rightarrow> bool" where
  "canMergeRight a b interval \<longleftrightarrow>
     sto_peer b = sto_peer a \<and> sto_start b = sto_end a \<and>
     length (ch_Deps (sto_ch b)) = 1 \<and> Peer (ch_Deps (sto_ch b) ! 0) = sto_peer a \<and>
     sleq (ch_Timestamp (sto_ch b) - ch_Timestamp (sto_ch a)) interval \<and>
     ch_CommitMsg (sto_ch a) = ch_CommitMsg (sto_ch b)"

record storeBlock =
  sb_changes :: "storedChange list"
  sb_size :: int
  sb_end :: i64

type_synonym changeStore = "(u64 \<times> storeBlock list) list"

definition blocks_of :: "changeStore \<Rightarrow> u64 \<Rightarrow> storeBlock list" where
  "blocks_of s p = (case gm_get s p of None \<Rightarrow> [] | Some bs \<Rightarrow> bs)"

text \<open>The ops of a change merged into the last one; what did not fold adds to the size.\<close>

fun push_ops :: "provOp list \<Rightarrow> storedChange \<Rightarrow> int \<Rightarrow> buffers \<Rightarrow> storedChange \<times> int \<times> buffers" where
  "push_ops [] lst sz bufs = (lst, sz, bufs)"
| "push_ops (a # as) lst sz bufs =
     (case pushOp a lst bufs of (folded, lst, bufs) \<Rightarrow>
        push_ops as lst (if folded then sz else sz + storedOpSize (po_op a)) bufs)"

text \<open>\<open>push\<close>: \<open>None\<close> where it returns false.\<close>

definition block_push :: "storedChange \<Rightarrow> int \<Rightarrow> i64 \<Rightarrow> storeBlock \<Rightarrow> buffers \<Rightarrow> (storeBlock \<times> buffers) option res" where
  "block_push c sz interval b bufs =
     (let full = sz + sb_size b > storeBlockLimit; lst = last (sb_changes b); single = (length (ch_Ops (sto_ch c)) = 1) in
      if canMergeRight lst c interval \<and> full \<and> single \<and> ch_Ops (sto_ch lst) = [] then Inl GoPanic
      else if canMergeRight lst c interval \<and>
        (\<not> full \<or> single \<and> canFold bufs (last (prov_ops lst)) (hd (ch_Ops (sto_ch c))) (hd (sto_prov c))) then
        (case push_ops (prov_ops c) lst (sb_size b) bufs of (lst, sz, bufs) \<Rightarrow>
          Inr (Some (\<lparr>sb_changes = butlast (sb_changes b) @ [lst], sb_size = sz, sb_end = sto_end c\<rparr>, bufs)))
      else if full then Inr None
      else Inr (Some (\<lparr>sb_changes = sb_changes b @ [c], sb_size = sb_size b + sz, sb_end = sto_end c\<rparr>, bufs)))"

text \<open>\<open>insert\<close> with \<open>split\<close> unset.\<close>

definition insert_whole :: "storedChange \<Rightarrow> i64 \<Rightarrow> changeStore \<Rightarrow> buffers \<Rightarrow> (changeStore \<times> buffers) res" where
  "insert_whole c interval s bufs =
     (let sz = storedChangeSize (sto_ch c); peer = sto_peer c; blocks = blocks_of s peer;
          fresh = \<lparr>sb_changes = [c], sb_size = sz, sb_end = sto_end c\<rparr> in
      if blocks \<noteq> [] \<and> sb_end (last blocks) = sto_start c then
        bindR (block_push c sz interval (last blocks) bufs) (\<lambda>r. case r of
            Some (b, bufs) \<Rightarrow> Inr (gm_put peer (butlast blocks @ [b]) s, bufs)
          | None \<Rightarrow> Inr (gm_put peer (blocks @ [fresh]) s, bufs))
      else Inr (gm_put peer (blocks @ [fresh]) s, bufs))"

section \<open>Splitting a change\<close>

definition fitsIn :: "Op \<Rightarrow> int \<Rightarrow> i64 option" where
  "fitsIn op room =
     (if storedOpSize op \<le> room then None
      else if op_VKind op \<noteq> VKStr \<and> op_VKind op \<noteq> VKLoroValue then None
      else
        let n = (if op_VKind op = VKLoroValue \<and> op_Kind op \<noteq> CText
                 then (if room < 0 then - ((- room) div 4) else room div 4) else room) in
        Some (smin (word_of_int n) (op_Len op)))"

text \<open>The piece being filled and its size, and what \<open>flush\<close> changes.\<close>

record splitting =
  sp_piece :: storedChange
  sp_size :: int
  sp_store :: changeStore
  sp_bufs :: buffers

definition empty_piece :: "Change \<Rightarrow> storedChange" where
  "empty_piece ch = \<lparr>sto_ch = ch\<lparr>ch_Ops := []\<rparr>, sto_prov = []\<rparr>"

definition split_flush :: "splitting \<Rightarrow> splitting res" where
  "split_flush sp =
     (let piece = sp_piece sp; ch = sto_ch piece; lim = sto_end piece in
      if ch_Ops ch = [] then Inr sp
      else
        let rest = empty_piece (ch\<lparr>ch_ID := \<lparr>Peer = Peer (ch_ID ch), Counter = lim\<rparr>,
              ch_Lamport := ch_Lamport ch + (lim - Counter (ch_ID ch)),
              ch_Deps := [\<lparr>Peer = Peer (ch_ID ch), Counter = lim - 1\<rparr>]\<rparr>) in
        bindR (insert_whole piece 0 (sp_store sp) (sp_bufs sp)) (\<lambda>(s, bufs).
          Inr \<lparr>sp_piece = rest, sp_size = storedChangeSize (sto_ch rest), sp_store = s, sp_bufs = bufs\<rparr>))"

definition split_push :: "provOp \<Rightarrow> splitting \<Rightarrow> splitting" where
  "split_push a sp = (case pushOp a (sp_piece sp) (sp_bufs sp) of (_, piece, bufs) \<Rightarrow> sp\<lparr>sp_piece := piece, sp_bufs := bufs\<rparr>)"

text \<open>
  The inner loop: \<open>None\<close> where the whole op went in, else what is left of it. Each round but the
  last cuts at least one atom off a checked op, so its length bounds them.
\<close>

fun cut_loop :: "nat \<Rightarrow> provOp \<Rightarrow> splitting \<Rightarrow> (provOp option \<times> splitting) res" where
  "cut_loop 0 cur sp = Inl OutOfFuel"
| "cut_loop (Suc fuel) cur sp =
     (case fitsIn (po_op cur) (storeBlockLimit - sp_size sp) of
        None \<Rightarrow> Inr (Some cur, sp)
      | Some fit \<Rightarrow>
          let op = po_op cur; span = len_span op;
              (p, bufs) = (if sless fit (op_Len op) then cutItems op (po_prov cur) (sp_bufs sp) else (po_prov cur, sp_bufs sp));
              cur = cur\<lparr>po_prov := p\<rparr>; sp = sp\<lparr>sp_bufs := bufs\<rparr>; at = ir_start span + fit in
          bindR (sliceOp cur span \<lparr>ir_start = ir_start span, ir_end = at\<rparr>) (\<lambda>head.
          bindR (split_flush (split_push head sp)) (\<lambda>sp.
            if sleq (op_Len op) fit then Inr (None, sp)
            else bindR (sliceOp cur span \<lparr>ir_start = at, ir_end = ir_end span\<rparr>) (\<lambda>cur. cut_loop fuel cur sp))))"

definition split_op :: "provOp \<Rightarrow> splitting \<Rightarrow> splitting res" where
  "split_op a sp =
     bindR (if storedOpSize (po_op a) \<ge> storeBlockLimit - sp_size sp then split_flush sp else Inr sp) (\<lambda>sp.
     bindR (cut_loop (nat (sint (op_Len (po_op a))) + 2) a sp) (\<lambda>(r, sp).
       case r of
         None \<Rightarrow> Inr sp
       | Some cur \<Rightarrow>
           if op_Len (po_op cur) = 0 then Inr sp
           else
             let sp = sp\<lparr>sp_size := sp_size sp + storedOpSize (po_op cur)\<rparr> in
             bindR (if sp_size sp > storeBlockLimit \<and> ch_Ops (sto_ch (sp_piece sp)) \<noteq> [] then split_flush sp else Inr sp)
               (\<lambda>sp. Inr (split_push cur sp))))"

fun split_ops :: "provOp list \<Rightarrow> splitting \<Rightarrow> splitting res" where
  "split_ops [] sp = Inr sp"
| "split_ops (a # as) sp = bindR (split_op a sp) (split_ops as)"

definition splitThenInsert :: "storedChange \<Rightarrow> changeStore \<Rightarrow> buffers \<Rightarrow> (changeStore \<times> buffers) res" where
  "splitThenInsert c s bufs =
     (let piece = empty_piece (sto_ch c) in
      bindR (split_ops (prov_ops c) \<lparr>sp_piece = piece, sp_size = storedChangeSize (sto_ch piece), sp_store = s, sp_bufs = bufs\<rparr>)
        (\<lambda>sp. if ch_Ops (sto_ch (sp_piece sp)) \<noteq> [] then insert_whole (sp_piece sp) 0 (sp_store sp) (sp_bufs sp)
          else Inr (sp_store sp, sp_bufs sp)))"

definition store_insert :: "storedChange \<Rightarrow> bool \<Rightarrow> i64 \<Rightarrow> changeStore \<Rightarrow> buffers \<Rightarrow> (changeStore \<times> buffers) res" where
  "store_insert c split interval s bufs =
     (if storedChangeSize (sto_ch c) > storeBlockLimit \<and> split then splitThenInsert c s bufs
      else insert_whole c interval s bufs)"

section \<open>Reading\<close>

definition store_changes :: "changeStore \<Rightarrow> storedChange list" where
  "store_changes s = concat (map (\<lambda>(p, bs). concat (map sb_changes bs)) s)"

definition sortedPeers :: "changeStore \<Rightarrow> u64 list" where
  "sortedPeers s = map fst s"

definition store_find :: "changeStore \<Rightarrow> ID \<Rightarrow> storedChange option" where
  "store_find s d =
     (let blocks = blocks_of s (Peer d); c = Counter d;
          i = bsearch (\<lambda>b. sleq (sb_end b) c) blocks 0 (length blocks) in
      if i = length blocks then None
      else
        let chs = sb_changes (blocks ! i); j = bsearch (\<lambda>ch. sleq (sto_end ch) c) chs 0 (length chs) in
        if j = length chs \<or> sless c (sto_start (chs ! j)) then None else Some (chs ! j))"

end
