(* ===== verification/OpAtoms.thy ===== *)
theory OpAtoms
  imports ChangeStore
begin

text \<open>
  The atoms of an op, as \<open>loro/oplog.go\<close> compares them, and what folding and cutting do to them:
  the atoms of a folded op are those of its two parts, one after the other, and a cut op has the
  atoms that were kept.
\<close>

section \<open>Atoms\<close>

datatype atomValue = AVal opval | AId ID

record opAtom =
  oa_cont :: contKey
  oa_vk :: byte
  oa_pos :: i64
  oa_from :: i64
  oa_key :: gostring
  oa_value :: atomValue

text \<open>The position and the value of atom \<open>k\<close>.\<close>

definition atom_what :: "Op \<Rightarrow> nat \<Rightarrow> i64 \<times> atomValue" where
  "atom_what op k =
     (case op_Value op of
        OVal (LStr s) \<Rightarrow>
          if op_VKind op = VKStr then (op_Pos op + of_nat k, AVal (OVal (LStr (encode_rune (runes s ! k)))))
          else (op_Pos op, AVal (op_Value op))
      | OVal (LList xs) \<Rightarrow>
          if isListInsert op then (op_Pos op + of_nat k, AVal (OVal (xs ! k))) else (op_Pos op, AVal (op_Value op))
      | ODelete d \<Rightarrow>
          (case Normalize d of (start, n) \<Rightarrow>
            if sint (ds_Len d) \<ge> 0 then (op_Pos op, AId \<lparr>Peer = ds_Peer d, Counter = start + of_nat k\<rparr>)
            else (op_Pos op - of_nat k, AId \<lparr>Peer = ds_Peer d, Counter = start + n - 1 - of_nat k\<rparr>))
      | _ \<Rightarrow> (op_Pos op, AVal (op_Value op)))"

definition atom_of :: "Op \<Rightarrow> nat \<Rightarrow> opAtom" where
  "atom_of op k = \<lparr>oa_cont = keyOf op, oa_vk = op_VKind op, oa_pos = fst (atom_what op k), oa_from = op_MoveFrom op,
     oa_key = op_MapKey op, oa_value = snd (atom_what op k)\<rparr>"

text \<open>An atom with its counter and lamport.\<close>

type_synonym numbered = "i64 \<times> i64 \<times> opAtom"

definition op_len :: "Op \<Rightarrow> nat" where
  "op_len op = nat (sint (op_Len op))"

definition numbered :: "Op \<Rightarrow> nat \<Rightarrow> numbered" where
  "numbered op k = (op_Counter op + of_nat k, op_Lamport op + of_nat k, atom_of op k)"

definition atoms :: "Op \<Rightarrow> numbered list" where
  "atoms op = map (numbered op) [0..<op_len op]"

text \<open>
  What the decoder, \<open>checkOp\<close> and \<open>checkChange\<close> make sure of: an op is as long as what it carries, its
  counters, and those it deletes, are in range, and an insert or delete names no key and no
  position it moves from.
\<close>

definition op_shape :: "Op \<Rightarrow> bool" where
  "op_shape op \<longleftrightarrow>
     (if op_VKind op = VKStr then \<exists>s. op_Value op = OVal (LStr s) \<and> valid_utf8 s \<and> length (runes s) = op_len op
      else if isListInsert op then \<exists>xs. op_Value op = OVal (LList xs) \<and> length xs = op_len op
      else if op_VKind op = VKDeleteSeq then
        \<exists>d. op_Value op = ODelete d \<and> \<bar>sint (ds_Len d)\<bar> = int (op_len op) \<and> 0 \<le> sint (ds_Counter d) \<and>
          sint (ds_Counter d) + int (op_len op) < 2 ^ 62
      else op_len op = 1)"

definition cuttable :: "Op \<Rightarrow> bool" where
  "cuttable op \<longleftrightarrow> op_VKind op = VKStr \<or> isListInsert op \<or> op_VKind op = VKDeleteSeq"

definition op_ok :: "Op \<Rightarrow> bool" where
  "op_ok op \<longleftrightarrow> (cuttable op \<longrightarrow> op_MapKey op = [] \<and> op_MoveFrom op = 0) \<and> 1 \<le> sint (op_Len op) \<and> 0 \<le> sint (op_Counter op) \<and> sint (op_Counter op) + sint (op_Len op) < 2 ^ 62 \<and>
     op_shape op"

lemma VK_distinct: "VKStr \<noteq> VKDeleteSeq" "VKStr \<noteq> VKLoroValue" "VKLoroValue \<noteq> VKDeleteSeq"
  by (simp_all add: vk_defs)

lemma not_list_insert [simp]: "op_VKind op = VKStr \<Longrightarrow> \<not> isListInsert op" "op_VKind op = VKDeleteSeq \<Longrightarrow> \<not> isListInsert op"
  by (auto simp: isListInsert_def vk_defs)

lemma length_atoms [simp]: "length (atoms op) = op_len op"
  by (simp add: atoms_def)

lemma op_ok_len: "op_ok op \<Longrightarrow> 1 \<le> op_len op \<and> int (op_len op) = sint (op_Len op) \<and> op_len op < 2 ^ 62 \<and> op_Len op = of_nat (op_len op)"
proof -
  assume ok: "op_ok op"
  then have l: "int (op_len op) = sint (op_Len op)" by (simp add: op_ok_def op_len_def)
  moreover from this have "op_Len op = of_nat (op_len op)" by (metis of_int_of_nat_eq of_sint)
  moreover have "1 \<le> op_len op" "op_len op < 2 ^ 62" using l ok by (auto simp: op_ok_def)
  ultimately show ?thesis by blast
qed

section \<open>Delete spans\<close>

text \<open>Atom \<open>k\<close> of a delete span: the position and the counter it takes.\<close>

definition del_atom :: "delSpan \<Rightarrow> nat \<Rightarrow> i64 \<times> i64" where
  "del_atom s k =
     (if sint (dl_slen s) \<ge> 0 then (dl_pos s, dl_ctr s + of_nat k)
      else (dl_pos s - of_nat k, dl_ctr s + (- dl_slen s) - 1 - of_nat k))"

definition span_ok :: "delSpan \<Rightarrow> nat \<Rightarrow> bool" where
  "span_ok s n \<longleftrightarrow> 1 \<le> n \<and> n < 2 ^ 62 \<and> (dl_slen s = of_nat n \<or> dl_slen s = - of_nat n) \<and>
     0 \<le> sint (dl_ctr s) \<and> sint (dl_ctr s) + int n < 2 ^ 62"

lemma span_ok_sint:
  assumes "span_ok s n"
  shows "sint (of_nat n :: i64) = int n" and "sint (- of_nat n :: i64) = - int n"
    and "dl_slen s = of_nat n \<Longrightarrow> 0 < sint (dl_slen s)" and "dl_slen s = - of_nat n \<Longrightarrow> sint (dl_slen s) < 0"
  using assms by (simp_all add: span_ok_def sint_of_nat_small sint_minus_of_nat_small)

lemma of_nat_eq_one: "n < 2 ^ 62 \<Longrightarrow> (of_nat n :: i64) = 1 \<longleftrightarrow> n = 1"
proof
  assume n: "n < 2 ^ 62" and e: "(of_nat n :: i64) = 1"
  have "sint (of_nat n :: i64) = int n" using n by (intro sint_of_nat_small) simp
  then show "n = 1" unfolding e by simp
qed simp

lemma bidirectional_one: "span_ok s n \<Longrightarrow> bidirectional s \<longleftrightarrow> n = 1"
proof -
  assume ok: "span_ok s n"
  note sn = span_ok_sint [OF ok]
  have n: "1 \<le> n" "n < 2 ^ 62" using ok by (simp_all add: span_ok_def)
  have "(of_nat n :: i64) \<noteq> - 1"
  proof
    assume "(of_nat n :: i64) = - 1"
    then have "sint (of_nat n :: i64) = - 1" by simp
    with sn(1) show False by simp
  qed
  moreover have "(- of_nat n :: i64) \<noteq> 1"
  proof
    assume "(- of_nat n :: i64) = 1"
    then have "sint (- of_nat n :: i64) = 1" by simp
    with sn(2) show False by simp
  qed
  moreover have "dl_slen s = of_nat n \<or> dl_slen s = - of_nat n" using ok by (simp add: span_ok_def)
  ultimately show ?thesis using of_nat_eq_one [OF n(2)] by (auto simp: bidirectional_def)
qed

text \<open>Spans that run forwards and backwards; one atom does both.\<close>

definition forwards :: "delSpan \<Rightarrow> nat \<Rightarrow> bool" where
  "forwards s n \<longleftrightarrow> n = 1 \<or> dl_slen s = of_nat n"

definition backwards :: "delSpan \<Rightarrow> nat \<Rightarrow> bool" where
  "backwards s n \<longleftrightarrow> n = 1 \<or> dl_slen s = - of_nat n"

lemma del_atom_forwards: "span_ok s n \<Longrightarrow> forwards s n \<Longrightarrow> k < n \<Longrightarrow> del_atom s k = (dl_pos s, dl_ctr s + of_nat k)"
  using span_ok_sint [of s n] by (auto simp: forwards_def del_atom_def span_ok_def)

lemma del_atom_backwards:
  "span_ok s n \<Longrightarrow> backwards s n \<Longrightarrow> k < n \<Longrightarrow> del_atom s k = (dl_pos s - of_nat k, dl_ctr s + of_nat n - 1 - of_nat k)"
proof -
  assume ok: "span_ok s n" and b: "backwards s n" and k: "k < n"
  note sn = span_ok_sint [OF ok]
  have "dl_slen s = of_nat n \<or> dl_slen s = - of_nat n" using ok by (simp add: span_ok_def)
  then consider "dl_slen s = - of_nat n" | "n = 1" "dl_slen s = 1" using b by (auto simp: backwards_def)
  then show ?thesis
  proof cases
    case 1
    then show ?thesis using sn(4) by (simp add: del_atom_def)
  qed (use k in \<open>simp add: del_atom_def\<close>)
qed

text \<open>What two spans that fold have in common.\<close>

definition folds_forwards :: "delSpan \<Rightarrow> nat \<Rightarrow> delSpan \<Rightarrow> nat \<Rightarrow> bool" where
  "folds_forwards s n r m \<longleftrightarrow> forwards s n \<and> forwards r m \<and> dl_pos r = dl_pos s \<and> dl_ctr r = dl_ctr s + of_nat n \<and>
     dl_slen (dl_merge s r) = of_nat (n + m)"

definition folds_backwards :: "delSpan \<Rightarrow> nat \<Rightarrow> delSpan \<Rightarrow> nat \<Rightarrow> bool" where
  "folds_backwards s n r m \<longleftrightarrow> backwards s n \<and> backwards r m \<and> dl_pos r = dl_pos s - of_nat n \<and>
     dl_ctr s = dl_ctr r + of_nat m \<and> dl_slen (dl_merge s r) = - of_nat (n + m)"

lemma merge_directions:
  assumes s: "span_ok s n" and r: "span_ok r m" and mg: "dl_mergeable s r"
  shows "dl_peer r = dl_peer s \<and> (folds_forwards s n r m \<or> folds_backwards s n r m)"
proof -
  note bs = bidirectional_one [OF s] and br = bidirectional_one [OF r]
  note sn = span_ok_sint [OF s] and rn = span_ok_sint [OF r]
  have ctr [simp]: "bidirectional (s\<lparr>dl_ctr := c\<rparr>) = bidirectional s" for c by (simp add: bidirectional_def)
  have dir [simp]: "dl_direction (s\<lparr>dl_ctr := c\<rparr>) = dl_direction s" for c by (simp add: dl_direction_def)
  consider "n = 1" "m = 1" | "n = 1" "m \<noteq> 1" | "n \<noteq> 1" "m = 1" | "n \<noteq> 1" "m \<noteq> 1" by blast
  then show ?thesis
  proof cases
    case 1
    then show ?thesis using mg bs br
      by (auto simp: dl_mergeable_def dl_merge_def idIs_def folds_forwards_def folds_backwards_def forwards_def backwards_def)
  next
    case 2
    consider "dl_slen r = of_nat m" | "dl_slen r = - of_nat m" using r by (auto simp: span_ok_def)
    then show ?thesis using 2 mg bs br rn
      by cases (auto simp: dl_mergeable_def dl_merge_def idIs_def folds_forwards_def folds_backwards_def forwards_def
        backwards_def prevPos_def dl_end_def dl_length_def dl_direction_def)
  next
    case 3
    consider "dl_slen s = of_nat n" | "dl_slen s = - of_nat n" using s by (auto simp: span_ok_def)
    then show ?thesis using 3 mg bs br sn
      by cases (auto simp: dl_mergeable_def dl_merge_def idIs_def folds_forwards_def folds_backwards_def forwards_def
        backwards_def nextPos_def dl_start_def dl_length_def dl_direction_def algebra_simps)
  next
    case 4
    have "dl_slen s = of_nat n \<or> dl_slen s = - of_nat n" "dl_slen r = of_nat m \<or> dl_slen r = - of_nat m"
      using s r by (simp_all add: span_ok_def)
    then show ?thesis using 4 mg bs br sn rn
      by (elim disjE) (auto simp: dl_mergeable_def dl_merge_def idIs_def folds_forwards_def folds_backwards_def forwards_def
        backwards_def nextPos_def dl_start_def dl_length_def dl_direction_def algebra_simps)
  qed
qed

lemma dl_merge_atoms:
  assumes s: "span_ok s n" and r: "span_ok r m" and mg: "dl_mergeable s r" and nm: "n + m < 2 ^ 62"
  shows "span_ok (dl_merge s r) (n + m)" and "dl_peer (dl_merge s r) = dl_peer s" and "dl_peer r = dl_peer s"
    and "dl_pos (dl_merge s r) = dl_pos s"
    and "k < n \<Longrightarrow> del_atom (dl_merge s r) k = del_atom s k" and "k < m \<Longrightarrow> del_atom (dl_merge s r) (n + k) = del_atom r k"
proof -
  let ?t = "dl_merge s r"
  have p: "dl_peer ?t = dl_peer s" "dl_pos ?t = dl_pos s" "dl_ctr ?t = smin (dl_ctr s) (dl_ctr r)"
    by (simp_all add: dl_merge_def Let_def)
  note d = merge_directions [OF s r mg]
  show "dl_peer ?t = dl_peer s" "dl_pos ?t = dl_pos s" by (rule p)+
  show "dl_peer r = dl_peer s" using d by simp
  have bounds: "0 \<le> sint (dl_ctr s)" "0 \<le> sint (dl_ctr r)" "sint (dl_ctr s) + int n < 2 ^ 62" "sint (dl_ctr r) + int m < 2 ^ 62"
    "1 \<le> n" "1 \<le> m" using s r by (simp_all add: span_ok_def)
  note sn = span_ok_sint(1) [OF s] and rn = span_ok_sint(1) [OF r]
  have "span_ok ?t (n + m) \<and> (\<forall>k<n. del_atom ?t k = del_atom s k) \<and> (\<forall>k<m. del_atom ?t (n + k) = del_atom r k)"
  proof (cases "folds_forwards s n r m")
    case True
    then have f: "forwards s n" "forwards r m" "dl_pos r = dl_pos s" "dl_ctr r = dl_ctr s + of_nat n" "dl_slen ?t = of_nat (n + m)"
      by (simp_all add: folds_forwards_def)
    have "sint (dl_ctr r) = sint (dl_ctr s) + int n" unfolding f(4) using bounds sn by (subst sint_add) simp_all
    then have c: "dl_ctr ?t = dl_ctr s" using bounds by (simp add: p smin_def)
    have ok: "span_ok ?t (n + m)" using bounds nm f(5) c \<open>sint (dl_ctr r) = _\<close> by (simp add: span_ok_def)
    have ft: "forwards ?t (n + m)" using f(5) by (simp add: forwards_def)
    have "del_atom ?t k = del_atom s k" if "k < n" for k
      using del_atom_forwards [OF ok ft] del_atom_forwards [OF s f(1) that] that by (simp add: p(1,2) c)
    moreover have "del_atom ?t (n + k) = del_atom r k" if "k < m" for k
      using del_atom_forwards [OF ok ft] del_atom_forwards [OF r f(2) that] that f by (simp add: p(1,2) c)
    ultimately show ?thesis using ok by blast
  next
    case False
    then have f: "backwards s n" "backwards r m" "dl_pos r = dl_pos s - of_nat n" "dl_ctr s = dl_ctr r + of_nat m" "dl_slen ?t = - of_nat (n + m)"
      using d by (simp_all add: folds_backwards_def)
    have "sint (dl_ctr s) = sint (dl_ctr r) + int m" unfolding f(4) using bounds rn by (subst sint_add) simp_all
    then have c: "dl_ctr ?t = dl_ctr r" using bounds by (simp add: p smin_def)
    have ok: "span_ok ?t (n + m)" using bounds nm f(5) c \<open>sint (dl_ctr s) = _\<close> by (simp add: span_ok_def)
    have ft: "backwards ?t (n + m)" using f(5) by (simp add: backwards_def)
    have "del_atom ?t k = del_atom s k" if "k < n" for k
      using del_atom_backwards [OF ok ft] del_atom_backwards [OF s f(1) that] that f by (simp add: p(1,2) c algebra_simps)
    moreover have "del_atom ?t (n + k) = del_atom r k" if "k < m" for k
      using del_atom_backwards [OF ok ft] del_atom_backwards [OF r f(2) that] that f by (simp add: p(1,2) c algebra_simps)
    ultimately show ?thesis using ok by blast
  qed
  then show "span_ok ?t (n + m)" and "k < n \<Longrightarrow> del_atom ?t k = del_atom s k" and "k < m \<Longrightarrow> del_atom ?t (n + k) = del_atom r k"
    by blast+
qed

section \<open>Folding\<close>

lemma atoms_append:
  assumes "op_len z = op_len x + op_len y" and "\<And>k. k < op_len x \<Longrightarrow> numbered z k = numbered x k"
    and "\<And>k. k < op_len y \<Longrightarrow> numbered z (op_len x + k) = numbered y k"
  shows "atoms z = atoms x @ atoms y"
proof (rule nth_equalityI)
  fix k assume "k < length (atoms z)"
  then have k: "k < op_len x + op_len y" using assms(1) by simp
  show "atoms z ! k = (atoms x @ atoms y) ! k"
  proof (cases "k < op_len x")
    case False
    then have "k = op_len x + (k - op_len x)" "k - op_len x < op_len y" using k by simp_all
    then show ?thesis using assms(3) [of "k - op_len x"] k assms(1) by (simp add: atoms_def nth_append)
  qed (use assms(1,2) k in \<open>simp add: atoms_def nth_append\<close>)
qed (use assms(1) in simp)

lemma op_shape_cong:
  "op_VKind z = op_VKind x \<Longrightarrow> op_Kind z = op_Kind x \<Longrightarrow> isListInsert z = isListInsert x"
  by (simp add: isListInsert_def)

lemma sint_len_add:
  assumes "op_ok x" and "op_ok y" and "op_Counter x + op_Len x = op_Counter y"
  shows "sint (op_Len x + op_Len y) = sint (op_Len x) + sint (op_Len y)"
    and "sint (op_Counter x) + (sint (op_Len x) + sint (op_Len y)) < 2 ^ 62"
    and "nat (sint (op_Len x + op_Len y)) = op_len x + op_len y"
proof -
  have b: "0 \<le> sint (op_Counter x)" "sint (op_Counter x) + sint (op_Len x) < 2 ^ 62" "1 \<le> sint (op_Len x)" "1 \<le> sint (op_Len y)"
    "sint (op_Counter y) + sint (op_Len y) < 2 ^ 62" using assms(1,2) by (simp_all add: op_ok_def)
  have "sint (op_Counter y) = sint (op_Counter x) + sint (op_Len x)"
    unfolding assms(3) [symmetric] using b by (subst sint_add) simp_all
  with b show c: "sint (op_Counter x) + (sint (op_Len x) + sint (op_Len y)) < 2 ^ 62" by simp
  show l: "sint (op_Len x + op_Len y) = sint (op_Len x) + sint (op_Len y)" using b c by (subst sint_add) simp_all
  show "nat (sint (op_Len x + op_Len y)) = op_len x + op_len y" unfolding l using op_ok_len [OF assms(1)] op_ok_len [OF assms(2)] by linarith
qed

lemma span_of_ok:
  assumes ok: "op_ok x" and k: "op_VKind x = VKDeleteSeq"
  shows "delSpanOf x = Some (span_of x)" and "span_ok (span_of x) (op_len x)"
    and "j < op_len x \<Longrightarrow> atom_what x j =
      (fst (del_atom (span_of x) j), AId \<lparr>Peer = dl_peer (span_of x), Counter = snd (del_atom (span_of x) j)\<rparr>)"
    and "dl_pos (span_of x) = op_Pos x"
proof -
  have nl: "\<not> isListInsert x" "op_VKind x \<noteq> VKStr" using k by (simp_all add: vk_defs)
  obtain d where d: "op_Value x = ODelete d" "\<bar>sint (ds_Len d)\<bar> = int (op_len x)" "0 \<le> sint (ds_Counter d)"
    "sint (ds_Counter d) + int (op_len x) < 2 ^ 62"
    using ok k nl by (auto simp: op_ok_def op_shape_def)
  note l = op_ok_len [OF ok]
  have s: "span_of x = \<lparr>dl_pos = op_Pos x, dl_slen = ds_Len d, dl_peer = ds_Peer d, dl_ctr = ds_Counter d\<rparr>"
    by (simp add: span_of_def delSpanOf_def d)
  then show "delSpanOf x = Some (span_of x)" "dl_pos (span_of x) = op_Pos x" by (simp_all add: delSpanOf_def d)
  have "sint (ds_Len d) = int (op_len x) \<or> sint (ds_Len d) = - int (op_len x)" using d(2) by linarith
  then have "ds_Len d = of_nat (op_len x) \<or> ds_Len d = - of_nat (op_len x)"
    by (metis of_int_minus of_int_of_nat_eq of_sint)
  then show "span_ok (span_of x) (op_len x)" using l d by (simp add: s span_ok_def)
  show "atom_what x j = (fst (del_atom (span_of x) j), AId \<lparr>Peer = dl_peer (span_of x), Counter = snd (del_atom (span_of x) j)\<rparr>)"
    if "j < op_len x" using nl by (simp add: s atom_what_def d del_atom_def Normalize_def)
qed

lemma foldOps_atoms:
  assumes x: "op_ok x" and y: "op_ok y" and f: "canFold bufs \<lparr>po_op = x, po_prov = p\<rparr> y q"
    and lam: "op_Lamport y = op_Lamport x + op_Len x"
  defines "z \<equiv> po_op (fst (foldOps \<lparr>po_op = x, po_prov = p\<rparr> \<lparr>po_op = y, po_prov = q\<rparr> bufs))"
  shows "op_ok z \<and> atoms z = atoms x @ atoms y" and "op_len z = op_len x + op_len y"
    and "op_Len z = op_Len x + op_Len y" and "op_Counter z = op_Counter x" and "op_Lamport z = op_Lamport x"
    and "op_Peer z = op_Peer x"
proof -
  have c: "keyOf y = keyOf x" "op_Counter x + op_Len x = op_Counter y" "op_VKind y = op_VKind x"
    using f by (auto simp: canFold_def split: if_splits)
  have kind: "op_Kind y = op_Kind x" using c(1) by (simp add: keyOf_def)
  note sl = sint_len_add [OF x y c(2)]
  have lx: "op_Len x = of_nat (op_len x)" "op_Len y = of_nat (op_len y)" using op_ok_len x y by blast+
  show len: "op_Len z = op_Len x + op_Len y" and ctr: "op_Counter z = op_Counter x" and lz: "op_Lamport z = op_Lamport x"
    and "op_Peer z = op_Peer x"
    by (simp_all add: z_def foldOps_def Let_def split: prod.splits)
  show olen: "op_len z = op_len x + op_len y" using sl(3) by (simp only: op_len_def [of z] len)
  have same: "keyOf z = keyOf x" "op_VKind z = op_VKind x" "op_MapKey z = op_MapKey x" "op_MoveFrom z = op_MoveFrom x" "op_Kind z = op_Kind x"
    by (simp_all add: z_def foldOps_def Let_def keyOf_def split: prod.splits)
  have li: "isListInsert z = isListInsert x" "isListInsert y = isListInsert x"
    using same c kind by (simp_all add: isListInsert_def)
  have kinds: "cuttable x" using f by (auto simp: canFold_def cuttable_def isListInsert_def split: if_splits)
  have names: "op_MapKey y = op_MapKey x" "op_MoveFrom y = op_MoveFrom x"
    using x y kinds c li by (auto simp: op_ok_def cuttable_def)
  have nums: "1 \<le> sint (op_Len z)" "0 \<le> sint (op_Counter z)" "sint (op_Counter z) + sint (op_Len z) < 2 ^ 62"
    using x y sl by (simp_all add: len ctr op_ok_def)
  have num: "numbered z k = numbered x k" if "atom_what z k = atom_what x k" for k
    using that by (simp add: numbered_def atom_of_def same ctr lz)
  have num2: "numbered z (op_len x + k) = numbered y k" if "atom_what z (op_len x + k) = atom_what y k" for k
    using that lam lx c(2) [symmetric] by (simp add: numbered_def atom_of_def same ctr lz c names add.assoc)
  have "op_shape z \<and> (\<forall>k<op_len x. atom_what z k = atom_what x k) \<and> (\<forall>k<op_len y. atom_what z (op_len x + k) = atom_what y k)"
  proof -
    consider (str) "op_VKind x = VKStr" | (list) "isListInsert x" | (del) "op_VKind x = VKDeleteSeq"
      using kinds by (auto simp: cuttable_def)
    then show ?thesis
    proof cases
      case str
      obtain s t where s: "op_Value x = OVal (LStr s)" "valid_utf8 s" "length (runes s) = op_len x"
        and t: "op_Value y = OVal (LStr t)" "valid_utf8 t" "length (runes t) = op_len y"
        using x y str c by (auto simp: op_ok_def op_shape_def)
      have v: "op_Value z = OVal (LStr (s @ t))" "op_Pos z = op_Pos x"
        using str s t by (simp_all add: z_def foldOps_def str_of_def)
      have pos: "op_Pos y = op_Pos x + op_Len x" using f str s by (auto simp: canFold_def vk_defs split: if_splits)
      show ?thesis using s t v str c same pos lx olen
        by (auto simp: op_shape_def atom_what_def valid_append runes_append nth_append)
    next
      case list
      then have k: "op_VKind x = VKLoroValue" "op_VKind x \<noteq> VKStr" "op_VKind x \<noteq> VKDeleteSeq" by (auto simp: isListInsert_def vk_defs)
      obtain xs ys where s: "op_Value x = OVal (LList xs)" "length xs = op_len x"
        and t: "op_Value y = OVal (LList ys)" "length ys = op_len y"
        using x y list c li k by (auto simp: op_ok_def op_shape_def)
      have v: "op_Value z = OVal (LList (xs @ ys))" "op_Pos z = op_Pos x"
        using k s t by (simp_all add: z_def foldOps_def list_of_def split: prod.splits)
      have pos: "op_Pos y = op_Pos x + op_Len x" using f list k by (auto simp: canFold_def isListInsert_def split: if_splits)
      show ?thesis using s t v list k li c same pos lx olen
        by (auto simp: op_shape_def atom_what_def nth_append)
    next
      case del
      then have k: "op_VKind x \<noteq> VKStr" "op_VKind x \<noteq> VKLoroValue" "\<not> isListInsert x" by (auto simp: vk_defs)
      let ?s = "span_of x" and ?r = "span_of y"
      let ?t = "dl_merge ?s ?r"
      note sx = span_of_ok [OF x del] and sy = span_of_ok [OF y, unfolded c(3), OF del]
      have mg: "dl_mergeable ?s ?r" using f del k sx(1) sy(1) by (auto simp: canFold_def split: if_splits)
      have nm: "op_len x + op_len y < 2 ^ 62"
        using sl(2) op_ok_len [OF x] op_ok_len [OF y] x by (auto simp: op_ok_def)
      note m = dl_merge_atoms [OF sx(2) sy(2) mg nm]
      have v: "op_Value z = ODelete \<lparr>ds_Peer = dl_peer ?t, ds_Counter = dl_ctr ?t, ds_Len = dl_slen ?t\<rparr>" "op_Pos z = dl_pos ?t"
        using del k by (simp_all add: z_def foldOps_def Let_def)
      have st: "span_of z = ?t" by (simp add: span_of_def delSpanOf_def v)
      have a: "atom_what z k = (fst (del_atom ?t k), AId \<lparr>Peer = dl_peer ?t, Counter = snd (del_atom ?t k)\<rparr>)" for k
        by (simp add: atom_what_def v del_atom_def Normalize_def)
      have "\<bar>sint (dl_slen ?t)\<bar> = int (op_len x + op_len y)"
        using m(1) span_ok_sint [OF m(1)] by (auto simp: span_ok_def)
      then have "op_shape z" using k same del m(1) li
        by (simp add: op_shape_def v olen span_ok_def)
      then show ?thesis using m(2-6) sx(3) sy(3) by (simp add: a)
    qed
  qed
  then show "op_ok z \<and> atoms z = atoms x @ atoms y"
    using nums num num2 x same li by (auto simp: op_ok_def cuttable_def intro!: atoms_append [OF olen])
qed

section \<open>Cutting\<close>

lemma clipped_runes:
  "runes (string_of_runes (take m (drop a (runes s)))) = take m (drop a (runes s))" "valid_utf8 (string_of_runes (take m (drop a (runes s))))"
proof -
  have r: "\<forall>r\<in>set (take m (drop a (runes s))). is_rune r"
    using runes_is_rune by (meson in_set_dropD in_set_takeD)
  show "runes (string_of_runes (take m (drop a (runes s)))) = take m (drop a (runes s))" by (rule runes_string_of_runes [OF r])
  show "valid_utf8 (string_of_runes (take m (drop a (runes s))))" using valid_string_of_runes [OF r, of "[]"] by simp
qed

text \<open>The part of an op that clipping to atoms \<open>a\<close> up to \<open>a + m\<close> leaves.\<close>

lemma clipped_shape:
  assumes ok: "op_ok op" and m: "0 < m" and le: "a + m \<le> op_len op" and ct: "cuttable op"
    and c: "clip_value (of_nat a) (of_nat m) (op_Value op) = Some (v, shift)"
    and z: "op_Value z = v" "op_Pos z = op_Pos op + shift" "op_Len z = of_nat m" "op_VKind z = op_VKind op" "op_Kind z = op_Kind op"
  shows "op_shape z" and "k < m \<Longrightarrow> atom_what z k = atom_what op (a + k)"
proof -
  note l = op_ok_len [OF ok]
  have sa: "sint (of_nat a :: i64) = int a" and sm: "sint (of_nat m :: i64) = int m" "sint (- of_nat m :: i64) = - int m"
    using le l by (simp_all add: sint_of_nat_small sint_minus_of_nat_small)
  have am: "sint (of_nat a + of_nat m :: i64) = int (a + m)" using le l sint_of_nat_small [of "a + m"] by simp
  have zl: "op_len z = m" by (simp add: op_len_def z sm)
  have li: "isListInsert z = isListInsert op" using z by (simp add: isListInsert_def)
  consider (str) "op_VKind op = VKStr" | (list) "isListInsert op" | (del) "op_VKind op = VKDeleteSeq"
    using ct by (auto simp: cuttable_def)
  then have "op_shape z \<and> (\<forall>k<m. atom_what z k = atom_what op (a + k))"
  proof cases
    case str
    obtain s where s: "op_Value op = OVal (LStr s)" "length (runes s) = op_len op" using ok str by (auto simp: op_ok_def op_shape_def)
    have v: "op_Value z = OVal (LStr (string_of_runes (take m (drop a (runes s)))))" "shift = of_nat a"
      using c s sa sm am z by (auto simp: clip_value_def Let_def split: if_splits)
    show ?thesis using str s v z le zl
      by (auto simp: op_shape_def atom_what_def clipped_runes nth_take nth_drop add.assoc)
  next
    case list
    then have k: "op_VKind op \<noteq> VKStr" by (auto simp: isListInsert_def vk_defs)
    obtain xs where s: "op_Value op = OVal (LList xs)" "length xs = op_len op" using ok list k by (auto simp: op_ok_def op_shape_def)
    have v: "op_Value z = OVal (LList (take m (drop a xs)))" "shift = of_nat a"
      using c s sa sm am z by (auto simp: clip_value_def Let_def split: if_splits)
    show ?thesis using list s v z le zl k li
      by (auto simp: op_shape_def atom_what_def nth_take nth_drop add.assoc)
  next
    case del
    then have k: "op_VKind op \<noteq> VKStr" "\<not> isListInsert op" by (auto simp: vk_defs)
    obtain d where d: "op_Value op = ODelete d" "\<bar>sint (ds_Len d)\<bar> = int (op_len op)" "0 \<le> sint (ds_Counter d)"
      "sint (ds_Counter d) + int (op_len op) < 2 ^ 62"
      using ok del k by (auto simp: op_ok_def op_shape_def)
    show ?thesis
    proof (cases "0 \<le> sint (ds_Len d)")
      case True
      have v: "op_Value z = ODelete (d\<lparr>ds_Counter := ds_Counter d + of_nat a, ds_Len := of_nat m\<rparr>)" "shift = 0"
        using c d z True by (auto simp: clip_value_def Normalize_def split: if_splits)
      have "sint (ds_Counter d) + int a < 2 ^ 62" using d le by linarith
      then have "sint (ds_Counter d + of_nat a) = sint (ds_Counter d) + int a" using sa d(3) by (subst sint_add) simp_all
      then show ?thesis using del d v z le zl k li True sm
        by (auto simp: op_shape_def atom_what_def Normalize_def add.assoc)
    next
      case False
      have n: "- ds_Len d = of_nat (op_len op)"
      proof -
        have "sint (ds_Len d) = - int (op_len op)" using d(2) False by simp
        then have "ds_Len d = - of_nat (op_len op)" by (metis of_int_minus of_int_of_nat_eq of_sint)
        then show ?thesis by simp
      qed
      have v: "op_Value z = ODelete (d\<lparr>ds_Counter := ds_Counter d + of_nat (op_len op) - (of_nat a + of_nat m), ds_Len := - of_nat m\<rparr>)"
        "shift = - of_nat a"
        using c d z False n by (auto simp: clip_value_def Normalize_def split: if_splits)
      have "ds_Counter d + of_nat (op_len op) - (of_nat a + of_nat m) = ds_Counter d + of_nat (op_len op - (a + m))"
        using le by (simp add: of_nat_diff)
      moreover have "sint (ds_Counter d + of_nat (op_len op - (a + m))) = sint (ds_Counter d) + int (op_len op - (a + m))"
      proof -
        have "sint (ds_Counter d) + int (op_len op - (a + m)) < 2 ^ 62" using d le by linarith
        moreover have "op_len op < 2 ^ 63" using l by simp
        then have "op_len op - (a + m) < 2 ^ 63" by linarith
        then have "sint (of_nat (op_len op - (a + m)) :: i64) = int (op_len op - (a + m))" by (rule sint_of_nat_small)
        ultimately show ?thesis using d(3) by (subst sint_add) simp_all
      qed
      ultimately show ?thesis using del d v z le zl k li False sm m n
        by (auto simp: op_shape_def atom_what_def Normalize_def algebra_simps)
    qed
  qed
  then show "op_shape z" and "k < m \<Longrightarrow> atom_what z k = atom_what op (a + k)" by blast+
qed
definition part_of :: "Op \<Rightarrow> nat \<Rightarrow> nat \<Rightarrow> Op \<Rightarrow> bool" where
  "part_of op a m x \<longleftrightarrow> op_ok x \<and> atoms x = take m (drop a (atoms op)) \<and> op_Len x = of_nat m \<and>
     op_Counter x = op_Counter op + of_nat a \<and> op_Lamport x = op_Lamport op + of_nat a \<and> op_Peer x = op_Peer op \<and>
     keyOf x = keyOf op \<and> op_VKind x = op_VKind op"

lemma sliceOp_part:
  assumes ok: "op_ok op" and m: "0 < m" and le: "a + m \<le> op_len op"
  defines "keep \<equiv> \<lparr>ir_start = op_Counter op + of_nat a, ir_end = op_Counter op + of_nat (a + m)\<rparr>"
  shows "\<exists>x. sliceOp \<lparr>po_op = op, po_prov = p\<rparr> (len_span op) keep = Inr x \<and> part_of op a m (po_op x)"
proof -
  note l = op_ok_len [OF ok]
  have "op_len op < 2 ^ 63" using l by simp
  then have la: "a < 2 ^ 63" "m < 2 ^ 63" "a + m < 2 ^ 63" using le by linarith+
  note sa = sint_of_nat_small [OF la(1)] sint_of_nat_small [OF la(2)] sint_of_nat_small [OF la(3)]
  have np: "\<not> clip_panics op (len_span op) keep"
    using sa by (simp add: clip_panics_def keep_def len_span_def Let_def)
  show ?thesis
  proof (cases "a = 0 \<and> m = op_len op")
    case True
    then have e: "keep = len_span op" using l by (simp add: keep_def len_span_def)
    then have "clipOp op (len_span op) keep = Some op" by (simp add: clipOp_def)
    with True ok l np show ?thesis by (simp add: sliceOp_def part_of_def)
  next
    case False
    have cut: "cuttable op"
    proof (rule ccontr)
      assume "\<not> cuttable op"
      then have "op_len op = 1" using ok by (simp add: op_ok_def op_shape_def cuttable_def)
      with False m le show False by linarith
    qed
    have ne: "keep \<noteq> len_span op"
    proof
      assume "keep = len_span op"
      then have e: "(of_nat a :: i64) = 0" "of_nat (a + m) = op_Len op"
        by (simp_all add: keep_def len_span_def del: of_nat_add)
      from e(1) have "a = 0" using sa(1) by simp
      moreover have "a + m = op_len op" using e(2) sa(3) l by (metis of_nat_eq_iff)
      ultimately show False using False by simp
    qed
    have some: "clip_value (of_nat a) (of_nat m) (op_Value op) \<noteq> None"
    proof -
      have am: "sint (of_nat a + of_nat m :: i64) = int a + int m" using sa(3) by simp
      have nn: "\<not> sint (of_nat a :: i64) < 0" using sa(1) by simp
      consider (str) "op_VKind op = VKStr" | (list) "isListInsert op" "op_VKind op \<noteq> VKStr"
        | (del) "op_VKind op = VKDeleteSeq" "\<not> isListInsert op" "op_VKind op \<noteq> VKStr"
        using cut by (auto simp: cuttable_def vk_defs)
      then show ?thesis
      proof cases
        case str
        then obtain s where "op_Value op = OVal (LStr s)" "length (runes s) = op_len op" using ok by (auto simp: op_ok_def op_shape_def)
        then show ?thesis using le nn by (simp add: clip_value_def am)
      next
        case list
        then obtain xs where "op_Value op = OVal (LList xs)" "length xs = op_len op" using ok by (auto simp: op_ok_def op_shape_def)
        then show ?thesis using le nn by (simp add: clip_value_def am)
      next
        case del
        then obtain d where d: "op_Value op = ODelete d" "\<bar>sint (ds_Len d)\<bar> = int (op_len op)" using ok by (auto simp: op_ok_def op_shape_def)
        have "ds_Len d \<noteq> - (2 ^ 63)"
        proof
          assume "ds_Len d = - (2 ^ 63)"
          then have "sint (ds_Len d) = - (2 ^ 63)" by simp
          with d(2) have "int (op_len op) = 2 ^ 63" by simp
          moreover have "op_len op < 2 ^ 63" using l by simp
          ultimately show False by simp
        qed
        then have "sint (snd (Normalize d)) = int (op_len op)" using d(2) sint_minus [of "ds_Len d"] by (auto simp: Normalize_def)
        then show ?thesis using d(1) le nn by (auto simp: clip_value_def am split: prod.splits)
      qed
    qed
    then obtain v shift where v: "clip_value (of_nat a) (of_nat m) (op_Value op) = Some (v, shift)" by fastforce
    let ?z = "op\<lparr>op_Value := v, op_Counter := op_Counter op + of_nat a, op_Lamport := op_Lamport op + of_nat a,
      op_Pos := op_Pos op + shift, op_Len := of_nat m\<rparr>"
    have c: "clipOp op (len_span op) keep = Some ?z"
    proof -
      have "ir_start keep - ir_start (len_span op) = of_nat a" "ir_end keep - ir_start keep = of_nat m"
        by (simp_all add: keep_def len_span_def)
      then show ?thesis unfolding clipOp_def if_not_P [OF ne] Let_def by (simp add: v)
    qed
    have sh: "op_shape ?z" and wh: "\<And>k. k < m \<Longrightarrow> atom_what ?z k = atom_what op (a + k)"
      by (rule clipped_shape [OF ok m le cut v]; simp)+
    have zl: "op_len ?z = m" using sa(2) by (simp add: op_len_def)
    have ctr: "sint (op_Counter op + of_nat a) = sint (op_Counter op) + int a"
    proof -
      have "0 \<le> sint (op_Counter op)" "sint (op_Counter op) + int a < 2 ^ 62" using ok le l by (auto simp: op_ok_def)
      then show ?thesis using sa(1) by (subst sint_add) simp_all
    qed
    have okz: "op_ok ?z" using ok sh m le l sa(2) ctr
      by (auto simp: op_ok_def cuttable_def isListInsert_def)
    have "atoms ?z = take m (drop a (atoms op))"
    proof (rule nth_equalityI)
      fix k assume "k < length (atoms ?z)"
      then have k: "k < m" using zl by simp
      have "numbered ?z k = numbered op (a + k)"
        using wh [OF k] by (simp add: numbered_def atom_of_def keyOf_def add.assoc)
      then show "atoms ?z ! k = take m (drop a (atoms op)) ! k" using k le zl by (simp add: atoms_def)
    qed (use zl le in simp)
    then show ?thesis using c np okz by (simp add: sliceOp_def part_of_def keyOf_def)
  qed
qed

end
