(* ===== verification/StoreAtoms.thy ===== *)
theory StoreAtoms
  imports OpAtoms
begin

text \<open>
  What a stored change stands for: its atoms, each with what it depends on, the first on the
  change's dependencies and every other on the one before it. Merging a change into another that it
  continues, and cutting one, lose no atom and change none.
\<close>

section \<open>Chains of ops\<close>

fun chain :: "u64 \<Rightarrow> i64 \<Rightarrow> i64 \<Rightarrow> Op list \<Rightarrow> bool" where
  "chain p c l [] = True"
| "chain p c l (op # ops) \<longleftrightarrow>
     op_ok op \<and> op_Peer op = p \<and> op_Counter op = c \<and> op_Lamport op = l \<and> chain p (c + op_Len op) (l + op_Len op) ops"

definition ops_end :: "i64 \<Rightarrow> Op list \<Rightarrow> i64" where
  "ops_end c ops = foldl (\<lambda>e op. e + op_Len op) c ops"

definition ops_len :: "Op list \<Rightarrow> nat" where
  "ops_len ops = sum_list (map op_len ops)"

definition ops_atoms :: "Op list \<Rightarrow> numbered list" where
  "ops_atoms ops = concat (map atoms ops)"

lemma ops_simps [simp]:
  "ops_end c [] = c" "ops_end c (op # ops) = ops_end (c + op_Len op) ops"
  "ops_len [] = 0" "ops_len (op # ops) = op_len op + ops_len ops"
  "ops_atoms [] = []" "ops_atoms (op # ops) = atoms op @ ops_atoms ops"
  by (simp_all add: ops_end_def ops_len_def ops_atoms_def)

lemma ops_append [simp]:
  "ops_end c (xs @ ys) = ops_end (ops_end c xs) ys" "ops_len (xs @ ys) = ops_len xs + ops_len ys"
  "ops_atoms (xs @ ys) = ops_atoms xs @ ops_atoms ys"
  by (simp_all add: ops_end_def ops_len_def ops_atoms_def)

lemma length_ops_atoms [simp]: "length (ops_atoms ops) = ops_len ops"
  by (induction ops) simp_all

lemma ops_end_shift: "ops_end (c + d) ops = ops_end c ops + d"
proof (induction ops arbitrary: c)
  case (Cons op ops)
  have "c + d + op_Len op = c + op_Len op + d" by simp
  then show ?case by (simp only: ops_simps Cons.IH)
qed simp

lemma chain_append: "chain p c l (xs @ ys) \<longleftrightarrow> chain p c l xs \<and> chain p (ops_end c xs) (l + (ops_end c xs - c)) ys"
proof (induction xs arbitrary: c l)
  case (Cons x xs)
  have "ops_end (c + op_Len x) xs = ops_end c xs + op_Len x" by (rule ops_end_shift)
  then show ?case by (simp add: Cons algebra_simps)
qed simp

lemma op_ok_end: "op_ok op \<Longrightarrow> sint (op_Counter op + op_Len op) = sint (op_Counter op) + int (op_len op)"
proof -
  assume ok: "op_ok op"
  then have "sint (op_Counter op + op_Len op) = sint (op_Counter op) + sint (op_Len op)"
    by (intro sint_add) (auto simp: op_ok_def)
  then show ?thesis using op_ok_len [OF ok] by simp
qed

lemma chain_end: "chain p c l ops \<Longrightarrow> sint (ops_end c ops) = sint c + int (ops_len ops)"
proof (induction ops arbitrary: c l)
  case (Cons op ops)
  then have "sint (c + op_Len op) = sint c + int (op_len op)" using op_ok_end [of op] by simp
  moreover have "sint (ops_end (c + op_Len op) ops) = sint (c + op_Len op) + int (ops_len ops)"
    using Cons.IH Cons.prems by auto
  ultimately show ?case by simp
qed simp

lemma chain_end_bound: "chain p c l ops \<Longrightarrow> ops \<noteq> [] \<Longrightarrow> 0 \<le> sint c \<and> sint c < sint (ops_end c ops) \<and> sint (ops_end c ops) < 2 ^ 62"
proof (induction ops arbitrary: c l)
  case (Cons op ops)
  have ok: "op_ok op" "op_Counter op = c" using Cons.prems by simp_all
  have e: "sint (c + op_Len op) = sint c + int (op_len op)" using op_ok_end [OF ok(1)] ok(2) by simp
  have l: "1 \<le> op_len op" "int (op_len op) = sint (op_Len op)" using op_ok_len [OF ok(1)] by simp_all
  have b: "0 \<le> sint c" "sint c + sint (op_Len op) < 2 ^ 62" using ok by (auto simp: op_ok_def)
  show ?case
  proof (cases "ops = []")
    case True
    then show ?thesis using e l b by simp
  next
    case False
    with Cons have "sint (c + op_Len op) < sint (ops_end (c + op_Len op) ops) \<and> sint (ops_end (c + op_Len op) ops) < 2 ^ 62" by auto
    then show ?thesis using e l b by simp
  qed
qed simp

section \<open>Changes\<close>

text \<open>A change of the store, possibly one that ops are still being put in.\<close>

definition piece_ok :: "storedChange \<Rightarrow> bool" where
  "piece_ok c \<longleftrightarrow> length (sto_prov c) = length (ch_Ops (sto_ch c)) \<and>
     chain (sto_peer c) (sto_start c) (ch_Lamport (sto_ch c)) (ch_Ops (sto_ch c)) \<and>
     (\<forall>d\<in>set (ch_Deps (sto_ch c)). Peer d = sto_peer c \<longrightarrow> Counter d = sto_start c - 1)"

definition change_ok :: "storedChange \<Rightarrow> bool" where
  "change_ok c \<longleftrightarrow> piece_ok c \<and> ch_Ops (sto_ch c) \<noteq> []"

text \<open>An atom of a history: its counter and lamport, what it does, and what it depends on.\<close>

type_synonym histAtom = "numbered \<times> ID list"

fun dep_atoms :: "u64 \<Rightarrow> ID list \<Rightarrow> numbered list \<Rightarrow> histAtom list" where
  "dep_atoms p ds [] = []"
| "dep_atoms p ds (x # xs) = (x, ds) # map (\<lambda>y. (y, [\<lparr>Peer = p, Counter = fst y - 1\<rparr>])) xs"

definition change_atoms :: "storedChange \<Rightarrow> histAtom list" where
  "change_atoms c = dep_atoms (sto_peer c) (ch_Deps (sto_ch c)) (ops_atoms (ch_Ops (sto_ch c)))"

lemma sto_end_ops: "sto_end c = ops_end (sto_start c) (ch_Ops (sto_ch c))"
  by (simp add: sto_end_def ops_end_def sto_start_def)

lemma length_dep_atoms [simp]: "length (dep_atoms p ds xs) = length xs"
  by (cases xs) simp_all

lemma dep_atoms_append:
  "xs \<noteq> [] \<Longrightarrow> dep_atoms p ds (xs @ ys) = dep_atoms p ds xs @ map (\<lambda>y. (y, [\<lparr>Peer = p, Counter = fst y - 1\<rparr>])) ys"
  by (cases xs) simp_all

lemma atoms_hd: "op_ok op \<Longrightarrow> atoms op \<noteq> [] \<and> fst (hd (atoms op)) = op_Counter op"
  using op_ok_len [of op] by (cases "op_len op") (auto simp: atoms_def numbered_def upt_conv_Cons simp del: upt_Suc)

lemma chain_atoms_hd: "chain p c l ops \<Longrightarrow> ops \<noteq> [] \<Longrightarrow> ops_atoms ops \<noteq> [] \<and> fst (hd (ops_atoms ops)) = c"
  using atoms_hd by (cases ops) auto

text \<open>A change that depends on the op before it only has no first atom of its own kind.\<close>

lemma own_dep_atoms:
  assumes "chain p c l ops" and "ds = [\<lparr>Peer = p, Counter = c - 1\<rparr>]"
  shows "dep_atoms p ds (ops_atoms ops) = map (\<lambda>y. (y, [\<lparr>Peer = p, Counter = fst y - 1\<rparr>])) (ops_atoms ops)"
proof (cases "ops = []")
  case False
  with chain_atoms_hd [OF assms(1)] assms(2) show ?thesis by (cases "ops_atoms ops") auto
qed simp

lemma prov_ops_map: "length (sto_prov c) = length (ch_Ops (sto_ch c)) \<Longrightarrow>
    map po_op (prov_ops c) = ch_Ops (sto_ch c) \<and> map po_prov (prov_ops c) = sto_prov c \<and> length (prov_ops c) = length (ch_Ops (sto_ch c))"
proof -
  assume l: "length (sto_prov c) = length (ch_Ops (sto_ch c))"
  have "map po_op (prov_ops c) = map fst (zip (ch_Ops (sto_ch c)) (sto_prov c))"
    "map po_prov (prov_ops c) = map snd (zip (ch_Ops (sto_ch c)) (sto_prov c))"
    by (simp_all add: prov_ops_def case_prod_beta)
  then show ?thesis using l by (simp add: prov_ops_def)
qed

text \<open>What two changes have in common that differ in their ops only.\<close>

definition same_meta :: "storedChange \<Rightarrow> storedChange \<Rightarrow> bool" where
  "same_meta a b \<longleftrightarrow> (sto_ch a)\<lparr>ch_Ops := []\<rparr> = (sto_ch b)\<lparr>ch_Ops := []\<rparr>"

lemma same_metaD:
  assumes "same_meta a b"
  shows "ch_ID (sto_ch a) = ch_ID (sto_ch b)" and "ch_Lamport (sto_ch a) = ch_Lamport (sto_ch b)"
    and "ch_Deps (sto_ch a) = ch_Deps (sto_ch b)" and "sto_peer a = sto_peer b" and "sto_start a = sto_start b"
proof -
  show id: "ch_ID (sto_ch a) = ch_ID (sto_ch b)" and "ch_Lamport (sto_ch a) = ch_Lamport (sto_ch b)"
    and "ch_Deps (sto_ch a) = ch_Deps (sto_ch b)"
    using arg_cong [OF assms [unfolded same_meta_def], of ch_ID] arg_cong [OF assms [unfolded same_meta_def], of ch_Lamport]
      arg_cong [OF assms [unfolded same_meta_def], of ch_Deps] by simp_all
  then show "sto_peer a = sto_peer b" "sto_start a = sto_start b" by (simp_all add: sto_peer_def sto_start_def)
qed

section \<open>Putting ops in\<close>

abbreviation sto_ops :: "storedChange \<Rightarrow> Op list" where
  "sto_ops c \<equiv> ch_Ops (sto_ch c)"

text \<open>An op that comes next in a change.\<close>

definition next_op :: "storedChange \<Rightarrow> Op \<Rightarrow> bool" where
  "next_op c op \<longleftrightarrow> op_ok op \<and> op_Peer op = sto_peer c \<and> op_Counter op = sto_end c \<and>
     op_Lamport op = ch_Lamport (sto_ch c) + (sto_end c - sto_start c)"

definition piece_extended :: "storedChange \<Rightarrow> numbered list \<Rightarrow> i64 \<Rightarrow> storedChange \<Rightarrow> bool" where
  "piece_extended c xs e c' \<longleftrightarrow> piece_ok c' \<and> same_meta c' c \<and> ops_atoms (sto_ops c') = ops_atoms (sto_ops c) @ xs \<and> sto_end c' = e"

lemma piece_extended_append:
  assumes "piece_ok c" and "next_op c op" and "sto_ch c' = (sto_ch c)\<lparr>ch_Ops := sto_ops c @ [op]\<rparr>" and "sto_prov c' = sto_prov c @ [q]"
  shows "piece_extended c (atoms op) (sto_end c + op_Len op) c'"
proof -
  have m: "sto_peer c' = sto_peer c" "sto_start c' = sto_start c" by (simp_all add: sto_peer_def sto_start_def assms(3))
  have e: "sto_end c = ops_end (sto_start c) (sto_ops c)" by (rule sto_end_ops)
  have "piece_ok c'" using assms(1,2) by (simp add: piece_ok_def m assms(3,4) chain_append next_op_def e)
  then show ?thesis by (simp add: piece_extended_def same_meta_def assms(3) sto_end_ops m)
qed

lemma pushOp_ok:
  assumes ok: "piece_ok c" and n: "next_op c (po_op b)" and f: "pushOp b c bufs = (r, c', bufs')"
  shows "piece_extended c (atoms (po_op b)) (sto_end c + op_Len (po_op b)) c' \<and> sto_ops c' \<noteq> []"
proof -
  let ?pops = "prov_ops c"
  note pm = prov_ops_map [of c]
  have len: "length (sto_prov c) = length (sto_ops c)" using ok by (simp add: piece_ok_def)
  consider (fold) "sto_ops c \<noteq> []" "canFold bufs (last ?pops) (po_op b) (po_prov b)"
    | (app) "sto_ch c' = (sto_ch c)\<lparr>ch_Ops := sto_ops c @ [po_op b]\<rparr>" "sto_prov c' = sto_prov c @ [po_prov b]"
    using f by (auto simp: pushOp_def Let_def split: if_splits prod.splits)
  then show ?thesis
  proof cases
    case fold
    let ?a = "last ?pops"
    have ne: "?pops \<noteq> []" using fold(1) pm len by auto
    obtain x bufs2 where x: "foldOps ?a b bufs = (x, bufs2)" by fastforce
    have c': "c' = with_ops (sto_ch c) (butlast ?pops @ [x])"
      using f fold x by (simp add: pushOp_def Let_def)
    define bl where "bl = map po_op (butlast ?pops)"
    have ops: "sto_ops c = bl @ [po_op ?a]"
      using pm [OF len] ne append_butlast_last_id [OF ne] by (metis bl_def list.simps(8,9) map_append)
    have ch: "chain (sto_peer c) (sto_start c) (ch_Lamport (sto_ch c)) (bl @ [po_op ?a])" using ok ops by (simp add: piece_ok_def)
    let ?e = "ops_end (sto_start c) bl"
    have a: "op_ok (po_op ?a)" "op_Peer (po_op ?a) = sto_peer c" "op_Counter (po_op ?a) = ?e"
      "op_Lamport (po_op ?a) = ch_Lamport (sto_ch c) + (?e - sto_start c)"
      and chb: "chain (sto_peer c) (sto_start c) (ch_Lamport (sto_ch c)) bl"
      using ch by (simp_all add: chain_append)
    have se: "sto_end c = ?e + op_Len (po_op ?a)" by (simp add: sto_end_ops ops)
    have ob: "op_ok (po_op b)" using n by (simp add: next_op_def)
    have lam: "op_Lamport (po_op b) = op_Lamport (po_op ?a) + op_Len (po_op ?a)" using n a se by (simp add: next_op_def)
    note fo = foldOps_atoms [of "po_op ?a" "po_op b" bufs "po_prov ?a" "po_prov b"]
    have eq: "\<lparr>po_op = po_op ?a, po_prov = po_prov ?a\<rparr> = ?a" "\<lparr>po_op = po_op b, po_prov = po_prov b\<rparr> = b" by simp_all
    note fx = fo [OF a(1) ob, unfolded eq, OF fold(2) lam, unfolded x fst_conv]
    have m: "sto_peer c' = sto_peer c" "sto_start c' = sto_start c" "ch_Lamport (sto_ch c') = ch_Lamport (sto_ch c)"
      "ch_Deps (sto_ch c') = ch_Deps (sto_ch c)"
      by (simp_all add: c' with_ops_def sto_peer_def sto_start_def)
    have ops': "sto_ops c' = bl @ [po_op x]" by (simp add: c' with_ops_def bl_def)
    have "chain (sto_peer c') (sto_start c') (ch_Lamport (sto_ch c')) (sto_ops c')"
      unfolding ops' m using chb a fx by (simp add: chain_append)
    then have "piece_ok c'" using ok by (simp add: piece_ok_def m) (simp add: c' with_ops_def)
    moreover have "same_meta c' c" by (simp add: same_meta_def c' with_ops_def)
    moreover have "sto_end c' = sto_end c + op_Len (po_op b)" by (simp add: sto_end_ops [of c'] ops' m se fx)
    ultimately show ?thesis using fx(1) by (simp add: piece_extended_def ops' ops)
  next
    case app
    from piece_extended_append [OF ok n this] show ?thesis using app by simp
  qed
qed

lemma same_meta_trans: "same_meta a b \<Longrightarrow> same_meta b c \<Longrightarrow> same_meta a c"
  by (simp add: same_meta_def)

lemma push_ops_ok:
  "piece_ok c \<Longrightarrow> chain (sto_peer c) (sto_end c) (ch_Lamport (sto_ch c) + (sto_end c - sto_start c)) (map po_op as) \<Longrightarrow>
    push_ops as c sz bufs = (c', sz', bufs') \<Longrightarrow>
    piece_extended c (ops_atoms (map po_op as)) (ops_end (sto_end c) (map po_op as)) c' \<and> (sto_ops c \<noteq> [] \<or> as \<noteq> [] \<longrightarrow> sto_ops c' \<noteq> [])"
proof (induction as arbitrary: c sz bufs)
  case Nil
  then show ?case by (simp add: piece_extended_def same_meta_def)
next
  case (Cons a as)
  obtain r c1 b1 where p: "pushOp a c bufs = (r, c1, b1)" by (cases "pushOp a c bufs") auto
  have n: "next_op c (po_op a)" using Cons.prems(2) by (simp add: next_op_def)
  note e = pushOp_ok [OF Cons.prems(1) n p]
  then have m: "same_meta c1 c" and ok: "piece_ok c1" and en: "sto_end c1 = sto_end c + op_Len (po_op a)" by (simp_all add: piece_extended_def)
  note mm = same_metaD [OF m]
  have ch: "chain (sto_peer c1) (sto_end c1) (ch_Lamport (sto_ch c1) + (sto_end c1 - sto_start c1)) (map po_op as)"
    using Cons.prems(2) by (simp add: mm en algebra_simps)
  have "push_ops as c1 (if r then sz else sz + storedOpSize (po_op a)) b1 = (c', sz', bufs')" using Cons.prems(3) by (simp add: p)
  from Cons.IH [OF ok ch this] e m show ?case by (auto simp: piece_extended_def en intro: same_meta_trans)
qed

section \<open>Merging changes\<close>

text \<open>Where a change ends, and the lamport it ends at.\<close>

definition change_tip :: "storedChange \<Rightarrow> i64 \<times> i64" where
  "change_tip c = (sto_end c, ch_Lamport (sto_ch c) + (sto_end c - sto_start c))"

definition own_prev :: "storedChange \<Rightarrow> ID" where
  "own_prev c = \<lparr>Peer = sto_peer c, Counter = sto_start c - 1\<rparr>"

lemma change_okD:
  assumes "change_ok c"
  shows "length (sto_prov c) = length (sto_ops c)" and "chain (sto_peer c) (sto_start c) (ch_Lamport (sto_ch c)) (sto_ops c)"
    and "sto_ops c \<noteq> []" and "0 \<le> sint (sto_start c)" and "sint (sto_start c) < sint (sto_end c)" and "sint (sto_end c) < 2 ^ 62"
    and "sint (sto_end c) = sint (sto_start c) + int (ops_len (sto_ops c))"
proof -
  show l: "length (sto_prov c) = length (sto_ops c)" and ch: "chain (sto_peer c) (sto_start c) (ch_Lamport (sto_ch c)) (sto_ops c)"
    and ne: "sto_ops c \<noteq> []" using assms by (simp_all add: change_ok_def piece_ok_def)
  from chain_end_bound [OF ch ne] show "0 \<le> sint (sto_start c)" "sint (sto_start c) < sint (sto_end c)" "sint (sto_end c) < 2 ^ 62"
    by (simp_all add: sto_end_ops)
  from chain_end [OF ch] show "sint (sto_end c) = sint (sto_start c) + int (ops_len (sto_ops c))" by (simp add: sto_end_ops)
qed

lemma canMergeRight_own:
  assumes "canMergeRight a c iv" and "change_ok c"
  shows "ch_Deps (sto_ch c) = [own_prev c]" and "sto_peer c = sto_peer a" and "sto_start c = sto_end a"
proof -
  show p: "sto_peer c = sto_peer a" "sto_start c = sto_end a" using assms(1) by (simp_all add: canMergeRight_def)
  obtain d where d: "ch_Deps (sto_ch c) = [d]" using assms(1) by (cases "ch_Deps (sto_ch c)") (auto simp: canMergeRight_def)
  then have "Peer d = sto_peer c" using assms(1) p by (simp add: canMergeRight_def)
  moreover from this have "Counter d = sto_start c - 1" using assms(2) d by (simp add: change_ok_def piece_ok_def)
  ultimately show "ch_Deps (sto_ch c) = [own_prev c]" by (simp add: d own_prev_def)
qed

lemma merge_change:
  assumes a: "change_ok a" and c: "change_ok c" and own: "ch_Deps (sto_ch c) = [own_prev c]"
    and at: "sto_peer c = sto_peer a" "(sto_start c, ch_Lamport (sto_ch c)) = change_tip a"
    and f: "push_ops (prov_ops c) a sz bufs = (a', sz', bufs')"
  shows "change_ok a' \<and> change_atoms a' = change_atoms a @ change_atoms c \<and> same_meta a' a \<and> change_tip a' = change_tip c"
proof -
  note ad = change_okD [OF a] and cd = change_okD [OF c]
  note pm = prov_ops_map [OF cd(1)]
  have pa: "piece_ok a" using a by (simp add: change_ok_def)
  have ch: "chain (sto_peer a) (sto_end a) (ch_Lamport (sto_ch a) + (sto_end a - sto_start a)) (map po_op (prov_ops c))"
    using cd(2) at pm by (simp add: change_tip_def)
  note e = push_ops_ok [OF pa ch f]
  have ne: "sto_ops a' \<noteq> []" using e ad(3) by simp
  have m: "same_meta a' a" and ok: "piece_ok a'" and en: "sto_end a' = sto_end c"
    and ats: "ops_atoms (sto_ops a') = ops_atoms (sto_ops a) @ ops_atoms (sto_ops c)"
    using e pm at by (simp_all add: piece_extended_def sto_end_ops [of c] change_tip_def)
  note mm = same_metaD [OF m]
  have "ops_atoms (sto_ops a) \<noteq> []" using chain_atoms_hd [OF ad(2,3)] by simp
  then have "change_atoms a' = change_atoms a @ map (\<lambda>y. (y, [\<lparr>Peer = sto_peer a, Counter = fst y - 1\<rparr>])) (ops_atoms (sto_ops c))"
    by (simp add: change_atoms_def ats mm dep_atoms_append)
  moreover have "change_atoms c = map (\<lambda>y. (y, [\<lparr>Peer = sto_peer c, Counter = fst y - 1\<rparr>])) (ops_atoms (sto_ops c))"
    unfolding change_atoms_def by (rule own_dep_atoms [OF cd(2)]) (simp add: own own_prev_def)
  ultimately have "change_atoms a' = change_atoms a @ change_atoms c" using at by simp
  moreover have "change_tip a' = change_tip c" using at en mm by (simp add: change_tip_def algebra_simps)
  ultimately show ?thesis using ok ne m by (simp add: change_ok_def)
qed

section \<open>The store\<close>

definition peer_log :: "changeStore \<Rightarrow> u64 \<Rightarrow> storedChange list" where
  "peer_log s p = concat (map sb_changes (blocks_of s p))"

definition store_atoms :: "changeStore \<Rightarrow> u64 \<Rightarrow> histAtom list" where
  "store_atoms s p = concat (map change_atoms (peer_log s p))"

definition block_ok :: "storeBlock \<Rightarrow> bool" where
  "block_ok b \<longleftrightarrow> sb_changes b \<noteq> [] \<and> sb_end b = sto_end (last (sb_changes b))"

definition log_ok :: "u64 \<Rightarrow> storedChange list \<Rightarrow> bool" where
  "log_ok p cs \<longleftrightarrow> (\<forall>c\<in>set cs. change_ok c \<and> sto_peer c = p) \<and>
     sorted_wrt (\<lambda>a b. sint (sto_end a) \<le> sint (sto_start b)) cs"

definition store_ok :: "changeStore \<Rightarrow> bool" where
  "store_ok s \<longleftrightarrow> gm_ok s \<and> (\<forall>p. (\<forall>b\<in>set (blocks_of s p). block_ok b) \<and> log_ok p (peer_log s p))"

text \<open>Where the log of a peer ends.\<close>

definition tip :: "changeStore \<Rightarrow> u64 \<Rightarrow> (i64 \<times> i64) option" where
  "tip s p = (if peer_log s p = [] then None else Some (change_tip (last (peer_log s p))))"

text \<open>A change that comes after what the store has of its peer, with the lamport that follows if it continues it.\<close>

definition continues :: "changeStore \<Rightarrow> storedChange \<Rightarrow> bool" where
  "continues s c \<longleftrightarrow>
     (case tip s (sto_peer c) of None \<Rightarrow> True
      | Some (e, l) \<Rightarrow> sint e \<le> sint (sto_start c) \<and>
          (e = sto_start c \<and> ch_Deps (sto_ch c) = [own_prev c] \<longrightarrow> ch_Lamport (sto_ch c) = l))"

lemma blocks_of_put: "blocks_of (gm_put p bs s) q = (if q = p then bs else blocks_of s q)"
  by (simp add: blocks_of_def gm_get_put)

lemma log_ok_append:
  assumes "log_ok p cs" and "change_ok c" and "sto_peer c = p" and "cs \<noteq> [] \<Longrightarrow> sint (sto_end (last cs)) \<le> sint (sto_start c)"
  shows "log_ok p (cs @ [c])"
proof -
  have "sint (sto_end x) \<le> sint (sto_start c)" if x: "x \<in> set cs" for x
  proof -
    obtain bl l where cs: "cs = bl @ [l]" using x by (cases cs rule: rev_cases) auto
    have "sint (sto_end x) \<le> sint (sto_end l)"
    proof (cases "x = l")
      case False
      then have "sint (sto_end x) \<le> sint (sto_start l)" using x assms(1) cs by (auto simp: log_ok_def sorted_wrt_append)
      moreover have "change_ok l" using assms(1) cs by (simp add: log_ok_def)
      from change_okD(5) [OF this] have "sint (sto_start l) < sint (sto_end l)" .
      ultimately show ?thesis by simp
    qed simp
    then show ?thesis using assms(4) cs by simp
  qed
  then show ?thesis using assms(1-3) by (auto simp: log_ok_def sorted_wrt_append)
qed

lemma log_ok_replace:
  assumes "log_ok p (cs @ [a])" and "change_ok a'" and "sto_peer a' = p" and "sto_start a' = sto_start a"
  shows "log_ok p (cs @ [a'])"
  using assms by (auto simp: log_ok_def sorted_wrt_append)

text \<open>What \<open>insert\<close> does, seen from outside: the atoms of the change go at the end of its peer's log.\<close>

definition inserted :: "storedChange \<Rightarrow> changeStore \<Rightarrow> changeStore \<Rightarrow> bool" where
  "inserted c s s' \<longleftrightarrow> store_ok s' \<and>
     store_atoms s' = (store_atoms s)(sto_peer c := store_atoms s (sto_peer c) @ change_atoms c) \<and>
     tip s' = (tip s)(sto_peer c \<mapsto> change_tip c)"

lemma inserted_append:
  assumes ok: "store_ok s" and c: "change_ok c" and ct: "continues s c"
    and log: "concat (map sb_changes bs) = peer_log s (sto_peer c) @ [c]" and bs: "\<forall>b\<in>set bs. block_ok b"
  shows "inserted c s (gm_put (sto_peer c) bs s)"
proof -
  let ?p = "sto_peer c" and ?s = "gm_put (sto_peer c) bs s"
  have pl: "peer_log ?s q = (if q = ?p then peer_log s ?p @ [c] else peer_log s q)" for q
    by (simp add: peer_log_def blocks_of_put log [unfolded peer_log_def])
  have "log_ok ?p (peer_log s ?p @ [c])"
    using ok c ct by (intro log_ok_append) (auto simp: store_ok_def continues_def tip_def change_tip_def)
  then have "store_ok ?s" using ok bs by (simp add: store_ok_def gm_put_ok pl blocks_of_put)
  then show ?thesis by (auto simp: inserted_def store_atoms_def pl tip_def fun_eq_iff)
qed

lemma inserted_merge:
  assumes ok: "store_ok s" and c: "change_ok c" and log: "peer_log s (sto_peer c) = cs @ [a]"
    and log': "concat (map sb_changes bs) = cs @ [a']" and bs: "\<forall>b\<in>set bs. block_ok b"
    and m: "change_ok a'" "change_atoms a' = change_atoms a @ change_atoms c" "same_meta a' a" "change_tip a' = change_tip c"
  shows "inserted c s (gm_put (sto_peer c) bs s)"
proof -
  let ?p = "sto_peer c" and ?s = "gm_put (sto_peer c) bs s"
  note mm = same_metaD [OF m(3)]
  have pl: "peer_log ?s q = (if q = ?p then cs @ [a'] else peer_log s q)" for q
    by (simp add: peer_log_def blocks_of_put log')
  have lo: "log_ok ?p (cs @ [a])" using ok log by (metis store_ok_def)
  have "log_ok ?p (cs @ [a'])" by (rule log_ok_replace [OF lo m(1)]) (use lo mm in \<open>simp_all add: log_ok_def\<close>)
  then have "store_ok ?s" using ok bs by (simp add: store_ok_def gm_put_ok pl blocks_of_put)
  then show ?thesis using m(2,4) by (auto simp: inserted_def store_atoms_def pl tip_def log fun_eq_iff)
qed

lemma block_push_cases:
  assumes "sto_ops (last (sb_changes b)) \<noteq> []"
  obtains (merge) a' sz' bufs' where "canMergeRight (last (sb_changes b)) c iv"
      "push_ops (prov_ops c) (last (sb_changes b)) (sb_size b) bufs = (a', sz', bufs')"
      "block_push c sz iv b bufs = Inr (Some (\<lparr>sb_changes = butlast (sb_changes b) @ [a'], sb_size = sz', sb_end = sto_end c\<rparr>, bufs'))"
  | (none) "block_push c sz iv b bufs = Inr None"
  | (app) "block_push c sz iv b bufs = Inr (Some (\<lparr>sb_changes = sb_changes b @ [c], sb_size = sb_size b + sz, sb_end = sto_end c\<rparr>, bufs))"
proof -
  obtain a' sz' bufs' where p: "push_ops (prov_ops c) (last (sb_changes b)) (sb_size b) bufs = (a', sz', bufs')"
    by (cases "push_ops (prov_ops c) (last (sb_changes b)) (sb_size b) bufs") auto
  define fd where "fd = canFold bufs (last (prov_ops (last (sb_changes b)))) (hd (sto_ops c)) (hd (sto_prov c))"
  show ?thesis
  proof (cases "canMergeRight (last (sb_changes b)) c iv \<and> (\<not> sz + sb_size b > storeBlockLimit \<or> length (sto_ops c) = 1 \<and> fd)")
    case True
    then have "block_push c sz iv b bufs = Inr (Some (\<lparr>sb_changes = butlast (sb_changes b) @ [a'], sb_size = sz', sb_end = sto_end c\<rparr>, bufs'))"
      using assms p by (simp add: block_push_def Let_def fd_def)
    with True p show ?thesis by (intro merge) simp_all
  next
    case False
    then show ?thesis using assms none app
      by (cases "sz + sb_size b > storeBlockLimit") (auto simp: block_push_def Let_def fd_def [symmetric])
  qed
qed

lemma insert_whole_ok:
  assumes ok: "store_ok s" and c: "change_ok c" and ct: "continues s c"
  shows "\<exists>s' bufs'. insert_whole c iv s bufs = Inr (s', bufs') \<and> inserted c s s'"
proof -
  let ?p = "sto_peer c" and ?bs = "blocks_of s (sto_peer c)" and ?sz = "storedChangeSize (sto_ch c)"
  let ?fresh = "\<lparr>sb_changes = [c], sb_size = ?sz, sb_end = sto_end c\<rparr>"
  have bok: "\<forall>b\<in>set ?bs. block_ok b" using ok by (simp add: store_ok_def)
  have fresh: "inserted c s (gm_put ?p (?bs @ [?fresh]) s)"
    using bok by (intro inserted_append [OF ok c ct]) (auto simp: peer_log_def block_ok_def)
  show ?thesis
  proof (cases "?bs \<noteq> [] \<and> sb_end (last ?bs) = sto_start c")
    case False
    then have "insert_whole c iv s bufs = Inr (gm_put ?p (?bs @ [?fresh]) s, bufs)"
      unfolding insert_whole_def Let_def if_not_P [OF False] by simp
    with fresh show ?thesis by blast
  next
    case True
    let ?b = "last ?bs"
    let ?a = "last (sb_changes ?b)" and ?bl = "butlast ?bs"
    have bs: "?bs = ?bl @ [?b]" using True by simp
    have b: "block_ok ?b" using True bok by simp
    then have sb: "sb_changes ?b = butlast (sb_changes ?b) @ [?a]" by (simp add: block_ok_def)
    have log: "peer_log s ?p = (concat (map sb_changes ?bl) @ butlast (sb_changes ?b)) @ [?a]"
    proof -
      have "concat (map sb_changes ?bs) = concat (map sb_changes (?bl @ [?b]))" by (rule arg_cong [OF bs])
      also have "\<dots> = concat (map sb_changes ?bl) @ sb_changes ?b" by simp
      also have "\<dots> = concat (map sb_changes ?bl) @ (butlast (sb_changes ?b) @ [?a])" by (rule arg_cong [OF sb])
      finally show ?thesis unfolding peer_log_def append_assoc .
    qed
    have lo: "log_ok ?p (peer_log s ?p)" using ok by (simp add: store_ok_def)
    have "?a \<in> set (peer_log s ?p)" unfolding log by simp
    then have a: "change_ok ?a" "sto_peer ?a = ?p" using lo by (simp_all only: log_ok_def)
    have code: "insert_whole c iv s bufs = bindR (block_push c ?sz iv ?b bufs) (\<lambda>r. case r of
            Some (b, bufs) \<Rightarrow> Inr (gm_put ?p (?bl @ [b]) s, bufs)
          | None \<Rightarrow> Inr (gm_put ?p (?bs @ [?fresh]) s, bufs))"
      using True by (simp add: insert_whole_def Let_def)
    have blok: "\<forall>b\<in>set ?bl. block_ok b" using bok by (meson in_set_butlastD)
    note ane = change_okD(3) [OF a(1)]
    consider (merge) a' sz' bufs' where "canMergeRight ?a c iv" "push_ops (prov_ops c) ?a (sb_size ?b) bufs = (a', sz', bufs')"
        "block_push c ?sz iv ?b bufs = Inr (Some (\<lparr>sb_changes = butlast (sb_changes ?b) @ [a'], sb_size = sz', sb_end = sto_end c\<rparr>, bufs'))"
      | (none) "block_push c ?sz iv ?b bufs = Inr None"
      | (app) "block_push c ?sz iv ?b bufs =
          Inr (Some (\<lparr>sb_changes = sb_changes ?b @ [c], sb_size = sb_size ?b + ?sz, sb_end = sto_end c\<rparr>, bufs))"
      by (rule block_push_cases [OF ane])
    then show ?thesis
    proof cases
      case merge
      note own = canMergeRight_own [OF merge(1) c]
      have t: "(sto_start c, ch_Lamport (sto_ch c)) = change_tip ?a"
        using ct own(1,3) by (simp add: continues_def tip_def log change_tip_def)
      note m = merge_change [OF a(1) c own(1,2) t merge(2)]
      have en: "sto_end a' = sto_end c" using m by (simp add: change_tip_def)
      let ?nb = "\<lparr>sb_changes = butlast (sb_changes ?b) @ [a'], sb_size = sz', sb_end = sto_end c\<rparr>"
      have nb: "block_ok ?nb" by (simp add: block_ok_def en)
      have l': "concat (map sb_changes (?bl @ [?nb])) = (concat (map sb_changes ?bl) @ butlast (sb_changes ?b)) @ [a']" by simp
      have bs': "\<forall>b\<in>set (?bl @ [?nb]). block_ok b" using nb blok by simp
      have "inserted c s (gm_put ?p (?bl @ [?nb]) s)"
        by (rule inserted_merge [OF ok c log l' bs']) (rule m [THEN conjunct1] m [THEN conjunct2, THEN conjunct1]
          m [THEN conjunct2, THEN conjunct2, THEN conjunct1] m [THEN conjunct2, THEN conjunct2, THEN conjunct2])+
      then show ?thesis by (simp add: code merge)
    next
      case none
      with fresh show ?thesis by (simp add: code)
    next
      case app
      let ?nb = "\<lparr>sb_changes = sb_changes ?b @ [c], sb_size = sb_size ?b + ?sz, sb_end = sto_end c\<rparr>"
      have nb: "block_ok ?nb" by (simp add: block_ok_def)
      have "concat (map sb_changes (?bl @ [?nb])) = (concat (map sb_changes ?bl) @ sb_changes ?b) @ [c]" by simp
      also have "concat (map sb_changes ?bl) @ sb_changes ?b = peer_log s ?p"
        unfolding log append_assoc by (rule arg_cong [OF sb])
      finally have l': "concat (map sb_changes (?bl @ [?nb])) = peer_log s ?p @ [c]" .
      have bs': "\<forall>b\<in>set (?bl @ [?nb]). block_ok b" using nb blok by simp
      have "inserted c s (gm_put ?p (?bl @ [?nb]) s)" by (rule inserted_append [OF ok c ct l' bs'])
      then show ?thesis by (simp add: code app)
    qed
  qed
qed

section \<open>Cutting changes\<close>

text \<open>How many of the counters from \<open>c\<close> on lie before \<open>d\<close>.\<close>

definition upto_ctr :: "i64 \<Rightarrow> i64 \<Rightarrow> nat" where
  "upto_ctr d c = nat (sint d - sint c)"

lemma smax_upto: "smax c lo = c + of_nat (upto_ctr lo c)"
proof (cases "sint c < sint lo")
  case True
  have "(of_nat (upto_ctr lo c) :: i64) = of_int (sint lo - sint c)" using True by (simp add: upto_ctr_def)
  also have "\<dots> = lo - c" by (simp only: of_int_diff of_sint)
  finally show ?thesis using True by (simp add: smax_def)
qed (simp add: smax_def upto_ctr_def)

lemma word_eq_add: "sint x = sint (y :: i64) + k \<Longrightarrow> x = y + of_int k"
  by (metis add.commute of_int_add of_sint)

lemma slice_ops_ok:
  "chain p c l (map po_op as) \<Longrightarrow>
    \<exists>bs. slice_ops lo hi as = Inr bs \<and> chain p (smax c lo) (l + (smax c lo - c)) (map po_op bs) \<and>
      ops_atoms (map po_op bs) = take (upto_ctr hi c - upto_ctr lo c) (drop (upto_ctr lo c) (ops_atoms (map po_op as)))"
proof (induction as arbitrary: c l)
  case (Cons a as)
  let ?op = "po_op a" and ?A = "upto_ctr lo c" and ?B = "upto_ctr hi c"
  let ?n = "op_len ?op"
  let ?d = "c + op_Len ?op"
  have ok: "op_ok ?op" "op_Counter ?op = c" "op_Lamport ?op = l" "op_Peer ?op = p" and ch: "chain p ?d (l + op_Len ?op) (map po_op as)"
    using Cons.prems by simp_all
  have d: "sint ?d = sint c + int ?n" using op_ok_end [OF ok(1)] ok(2) by simp
  note l = op_ok_len [OF ok(1)]
  obtain bs where bs: "slice_ops lo hi as = Inr bs" "chain p (smax ?d lo) (l + op_Len ?op + (smax ?d lo - ?d)) (map po_op bs)"
    "ops_atoms (map po_op bs) = take (upto_ctr hi ?d - upto_ctr lo ?d) (drop (upto_ctr lo ?d) (ops_atoms (map po_op as)))"
    using Cons.IH [OF ch] by blast
  have ud: "upto_ctr lo ?d = ?A - ?n" "upto_ctr hi ?d = ?B - ?n" by (simp_all add: upto_ctr_def d)
  let ?keep = "\<lparr>ir_start = smax (ir_start (len_span ?op)) lo, ir_end = smin (ir_end (len_span ?op)) hi\<rparr>"
  have ks: "ir_start ?keep = c + of_nat ?A" by (simp add: len_span_def ok smax_upto)
  have sk: "sint (ir_start ?keep) = sint c + int ?A" "sint (ir_end ?keep) = min (sint c + int ?n) (sint hi)"
    by (simp_all add: len_span_def ok sint_smax sint_smin d upto_ctr_def)
  have hi: "0 < int ?B \<Longrightarrow> sint hi = sint c + int ?B" by (auto simp: upto_ctr_def split: if_splits)
  show ?case
  proof (cases "sleq (ir_end ?keep) (ir_start ?keep)")
    case True
    have skip: "?n \<le> ?A \<or> ?B \<le> ?A"
    proof (rule ccontr)
      assume "\<not> (?n \<le> ?A \<or> ?B \<le> ?A)"
      then have "int ?A < int ?n" "int ?A < int ?B" by simp_all
      with True hi show False unfolding sk by linarith
    qed
    have code: "slice_ops lo hi (a # as) = Inr bs" using True bs(1) by (simp add: Let_def)
    show ?thesis
    proof (cases "?n \<le> ?A")
      case True
      then have "sint lo \<ge> sint c + int ?n" using l by (auto simp: upto_ctr_def split: if_splits)
      then have "smax ?d lo = smax c lo" unfolding sint_eq [symmetric] sint_smax d by simp
      moreover have "?B - ?n - (?A - ?n) = ?B - ?A" using True by simp
      ultimately show ?thesis using code bs ud True by (simp add: algebra_simps)
    next
      case False
      then have B: "?B \<le> ?A" using skip by simp
      then have "ops_atoms (map po_op bs) = []" using bs(3) ud by simp
      then have "bs = []" using bs(2) chain_atoms_hd by fastforce
      then show ?thesis using code B by simp
    qed
  next
    case False
    then have "sint c + int ?A < min (sint c + int ?n) (sint hi)" unfolding sk by linarith
    then have "int ?A < int ?n" "int ?A < sint hi - sint c" by simp_all
    then have "?A < ?n" "?A < nat (sint hi - sint c)" by linarith+
    then have lt: "?A < ?n" "?A < ?B" by (simp_all only: upto_ctr_def [of hi c])
    let ?m = "min ?n ?B - ?A"
    have "sint (ir_end ?keep) = sint c + int (?A + ?m)" using lt sk(2) hi by (simp add: min_def)
    then have ke: "ir_end ?keep = c + of_nat (?A + ?m)" using word_eq_add by fastforce
    have keep: "?keep = \<lparr>ir_start = op_Counter ?op + of_nat ?A, ir_end = op_Counter ?op + of_nat (?A + ?m)\<rparr>"
      using ks ke by (simp add: ok(2))
    have m: "0 < ?m" "?A + ?m \<le> ?n" using lt by simp_all
    have "\<exists>x. sliceOp \<lparr>po_op = ?op, po_prov = po_prov a\<rparr> (len_span ?op) ?keep = Inr x \<and> part_of ?op ?A ?m (po_op x)"
      unfolding keep by (rule sliceOp_part [OF ok(1) m])
    moreover have "\<lparr>po_op = ?op, po_prov = po_prov a\<rparr> = a" by simp
    ultimately obtain x where x: "sliceOp a (len_span ?op) ?keep = Inr x" "part_of ?op ?A ?m (po_op x)" by metis
    have code: "slice_ops lo hi (a # as) = Inr (x # bs)" using False x(1) bs(1) by (simp add: Let_def)
    have x': "op_ok (po_op x)" "atoms (po_op x) = take ?m (drop ?A (atoms ?op))" "op_Len (po_op x) = of_nat ?m"
      "op_Counter (po_op x) = smax c lo" "op_Lamport (po_op x) = l + (smax c lo - c)" "op_Peer (po_op x) = p"
      using x(2) ok by (simp_all add: part_of_def smax_upto)
    have ats: "ops_atoms (map po_op (x # bs)) = take (?B - ?A) (drop ?A (ops_atoms (map po_op (a # as))))"
    proof -
      have "take ?m (drop ?A (atoms ?op)) = take (?B - ?A) (drop ?A (atoms ?op))" using lt by (simp add: min_def)
      then show ?thesis using bs(3) ud lt x'(2) by simp
    qed
    have "chain p (smax c lo + of_nat ?m) (l + (smax c lo - c) + of_nat ?m) (map po_op bs)"
    proof (cases "?n \<le> ?B")
      case True
      then have "smax c lo + of_nat ?m = ?d" using lt l by (simp add: smax_upto of_nat_diff min_def)
      moreover have "smax ?d lo = ?d" using lt d by (auto simp: smax_def upto_ctr_def)
      ultimately show ?thesis using bs(2) by (simp add: algebra_simps)
    next
      case False
      then have "ops_atoms (map po_op bs) = []" using bs(3) ud by simp
      then have "bs = []" using bs(2) chain_atoms_hd by fastforce
      then show ?thesis by simp
    qed
    with x' have "chain p (smax c lo) (l + (smax c lo - c)) (map po_op (x # bs))" by simp
    then show ?thesis using code ats by blast
  qed
qed simp

lemma dep_atoms_drop:
  "0 < a \<Longrightarrow> drop a (dep_atoms p ds xs) = map (\<lambda>y. (y, [\<lparr>Peer = p, Counter = fst y - 1\<rparr>])) (drop a xs)"
  by (cases xs; cases a) (simp_all add: drop_map)

lemma dep_atoms_take: "take a (dep_atoms p ds xs) = dep_atoms p ds (take a xs)"
  by (cases xs; cases a) (simp_all add: take_map)

lemma length_change_atoms: "length (change_atoms c) = ops_len (sto_ops c)"
  by (simp add: change_atoms_def)

lemma sto_slice_ok:
  assumes c: "change_ok c" and ab: "a < b" "b \<le> ops_len (sto_ops c)"
  shows "\<exists>c'. sto_slice c (of_nat a) (of_nat b) = Inr c' \<and> change_ok c' \<and> sto_peer c' = sto_peer c \<and>
    change_atoms c' = take (b - a) (drop a (change_atoms c)) \<and> sto_start c' = sto_start c + of_nat a \<and>
    ch_Lamport (sto_ch c') = ch_Lamport (sto_ch c) + of_nat a \<and> sto_end c' = sto_start c + of_nat b"
proof -
  note cd = change_okD [OF c]
  note pm = prov_ops_map [OF cd(1)]
  let ?s = "sto_start c"
  have "int b \<le> int (ops_len (sto_ops c))" "int (ops_len (sto_ops c)) < 2 ^ 62" using ab cd(4,6,7) by linarith+
  then have sm: "b < 2 ^ 63" "sint ?s + int b < 2 ^ 63" using cd(4,6,7) by simp_all
  then have "a < 2 ^ 63" using ab by linarith
  have sa: "sint (?s + of_nat a) = sint ?s + int a" "sint (?s + of_nat b) = sint ?s + int b"
    using sm \<open>a < 2 ^ 63\<close> cd(4) ab by (subst sint_add; simp add: sint_of_nat_small)+
  have u: "upto_ctr (?s + of_nat a) ?s = a" "upto_ctr (?s + of_nat b) ?s = b" by (simp_all add: upto_ctr_def sa)
  have mx: "smax ?s (?s + of_nat a) = ?s + of_nat a" by (simp add: smax_upto u)
  obtain bs where bs: "slice_ops (?s + of_nat a) (?s + of_nat b) (prov_ops c) = Inr bs"
    "chain (sto_peer c) (?s + of_nat a) (ch_Lamport (sto_ch c) + of_nat a) (map po_op bs)"
    "ops_atoms (map po_op bs) = take (b - a) (drop a (ops_atoms (sto_ops c)))"
    using slice_ops_ok [of "sto_peer c" ?s "ch_Lamport (sto_ch c)" "prov_ops c" "?s + of_nat a" "?s + of_nat b"] cd(2) pm u mx by auto
  let ?ds = "if sint (of_nat a :: i64) > 0 then [\<lparr>Peer = sto_peer c, Counter = ?s + of_nat a - 1\<rparr>] else ch_Deps (sto_ch c)"
  let ?c = "with_ops \<lparr>ch_ID = \<lparr>Peer = sto_peer c, Counter = ?s + of_nat a\<rparr>, ch_Lamport = ch_Lamport (sto_ch c) + of_nat a,
      ch_Timestamp = ch_Timestamp (sto_ch c), ch_Deps = ?ds, ch_CommitMsg = ch_CommitMsg (sto_ch c), ch_Ops = []\<rparr> bs"
  have code: "sto_slice c (of_nat a) (of_nat b) = Inr ?c"
    using bs(1) by (simp add: sto_slice_def Let_def sto_start_def sto_peer_def)
  have m: "sto_peer ?c = sto_peer c" "sto_start ?c = ?s + of_nat a" "sto_ops ?c = map po_op bs"
    "ch_Lamport (sto_ch ?c) = ch_Lamport (sto_ch c) + of_nat a" "sto_prov ?c = map po_prov bs" "ch_Deps (sto_ch ?c) = ?ds"
    by (simp_all add: with_ops_def sto_peer_def sto_start_def)
  have z: "sint (of_nat a :: i64) > 0 \<longleftrightarrow> 0 < a" using \<open>a < 2 ^ 63\<close> by (simp add: sint_of_nat_small)
  have ne: "ops_atoms (map po_op bs) \<noteq> []" using bs(3) ab by simp
  then have "map po_op bs \<noteq> []" by auto
  moreover have "piece_ok ?c" using c bs(2) z
    unfolding piece_ok_def m by (auto simp: change_ok_def piece_ok_def)
  ultimately have ok: "change_ok ?c" by (simp add: change_ok_def m)
  have ats: "change_atoms ?c = take (b - a) (drop a (change_atoms c))"
  proof (cases "a = 0")
    case True
    then show ?thesis using bs(3) z unfolding change_atoms_def m dep_atoms_take by (simp add: dep_atoms_take)
  next
    case False
    have "change_atoms ?c = map (\<lambda>y. (y, [\<lparr>Peer = sto_peer c, Counter = fst y - 1\<rparr>])) (ops_atoms (map po_op bs))"
      unfolding change_atoms_def m by (rule own_dep_atoms [OF bs(2)]) (use False z in simp)
    then show ?thesis using bs(3) False by (simp add: change_atoms_def dep_atoms_drop take_map)
  qed
  have "ops_len (map po_op bs) = b - a" using arg_cong [OF bs(3), of length] ab by simp
  then have "sint (sto_end ?c) = sint (?s + of_nat b)"
    using chain_end [OF bs(2)] ab by (simp add: sto_end_ops m sa)
  then have "sto_end ?c = ?s + of_nat b" by (simp only: sint_eq)
  with code ok ats m show ?thesis by blast
qed

end
