(* ===== verification/StoreProof.thy ===== *)
theory StoreProof
  imports StoreAtoms
begin

text \<open>
  The change store as a log: looking a change up by an id, inserting with the split of a change that is
  too big, and the change that no split can take.
\<close>

section \<open>Looking up\<close>

definition in_change :: "storedChange \<Rightarrow> ID \<Rightarrow> bool" where
  "in_change c d \<longleftrightarrow> sto_peer c = Peer d \<and> sleq (sto_start c) (Counter d) \<and> sless (Counter d) (sto_end c)"

lemma log_nth: "log_ok p cs \<Longrightarrow> a < b \<Longrightarrow> b < length cs \<Longrightarrow> sint (sto_end (cs ! a)) \<le> sint (sto_start (cs ! b))"
  by (simp add: log_ok_def sorted_wrt_iff_nth_less)

lemma log_nth_ok: "log_ok p cs \<Longrightarrow> a < length cs \<Longrightarrow> change_ok (cs ! a)"
  by (simp add: log_ok_def)

lemma log_ends_mono:
  assumes "log_ok p cs" and "a \<le> b" and "b < length cs"
  shows "sint (sto_end (cs ! a)) \<le> sint (sto_end (cs ! b))"
proof (cases "a = b")
  case False
  with assms have ab: "a < b" by simp
  then have "sint (sto_end (cs ! a)) \<le> sint (sto_start (cs ! b))"
    using log_nth assms(1,3) by blast
  moreover from change_okD(5) [OF log_nth_ok [OF assms(1,3)]] have "sint (sto_start (cs ! b)) < sint (sto_end (cs ! b))" .
  ultimately show ?thesis by simp
qed simp

lemma log_ok_sub: "log_ok p (xs @ ys @ zs) \<Longrightarrow> log_ok p ys"
  by (auto simp: log_ok_def sorted_wrt_append)

lemma log_ok_cross: "log_ok p (xs @ ys @ zs) \<Longrightarrow> x \<in> set xs \<Longrightarrow> y \<in> set ys \<Longrightarrow> sint (sto_end x) \<le> sint (sto_start y)"
  by (auto simp: log_ok_def sorted_wrt_append)

lemma bex_nth: "(\<exists>b\<in>set bs. P b) \<longleftrightarrow> (\<exists>a<length bs. P (bs ! a))"
  by (metis in_set_conv_nth)

lemma concat_nth_split: "i < length bs \<Longrightarrow> concat bs = concat (take i bs) @ bs ! i @ concat (drop (i + 1) bs)"
  by (metis Suc_eq_plus1 append_take_drop_id concat.simps(2) concat_append Cons_nth_drop_Suc)

text \<open>The search within one block.\<close>

lemma block_search:
  assumes lo: "log_ok (Peer d) cs"
  defines "j \<equiv> bsearch (\<lambda>ch. sleq (sto_end ch) (Counter d)) cs 0 (length cs)"
  shows "j \<le> length cs" and "k < j \<Longrightarrow> \<not> in_change (cs ! k) d"
    and "j < length cs \<Longrightarrow> sless (Counter d) (sto_end (cs ! j))"
    and "j < k \<Longrightarrow> k < length cs \<Longrightarrow> \<not> in_change (cs ! k) d"
proof -
  let ?P = "\<lambda>ch. sleq (sto_end ch) (Counter d)"
  have mono: "?P (cs ! a)" if "a \<le> b" "b < length cs" "?P (cs ! b)" for a b
    using log_ends_mono [OF lo that(1,2)] that(3) by simp
  have "bsearch ?P cs 0 (length cs) \<le> length cs" by (rule bsearch_whole(1)) (rule mono)
  then show jl: "j \<le> length cs" by (simp add: j_def)
  show "k < j \<Longrightarrow> \<not> in_change (cs ! k) d"
  proof -
    assume "k < j"
    then have "?P (cs ! k)" unfolding j_def by (rule bsearch_whole(2) [rotated]) (rule mono)
    then show ?thesis by (simp add: in_change_def)
  qed
  show jd: "j < length cs \<Longrightarrow> sless (Counter d) (sto_end (cs ! j))"
  proof -
    assume "j < length cs"
    then have "j \<le> j" "j < length cs" by simp_all
    then have "\<not> ?P (cs ! j)" unfolding j_def by (rule bsearch_whole(3) [rotated]) (rule mono)
    then show ?thesis by simp
  qed
  show "j < k \<Longrightarrow> k < length cs \<Longrightarrow> \<not> in_change (cs ! k) d"
  proof -
    assume k: "j < k" "k < length cs"
    then have "sint (sto_end (cs ! j)) \<le> sint (sto_start (cs ! k))"
      using log_nth [OF lo] by blast
    then show ?thesis using jd k by (simp add: in_change_def)
  qed
qed

lemma store_find_ok:
  assumes ok: "store_ok s"
  shows "case store_find s d of Some c \<Rightarrow> c \<in> set (peer_log s (Peer d)) \<and> in_change c d
    | None \<Rightarrow> \<forall>c\<in>set (peer_log s (Peer d)). \<not> in_change c d"
proof -
  let ?bs = "blocks_of s (Peer d)" and ?c = "Counter d"
  let ?P = "\<lambda>b. sleq (sb_end b) ?c"
  have bok: "\<forall>b\<in>set ?bs. block_ok b" and lo: "log_ok (Peer d) (peer_log s (Peer d))" using ok by (simp_all add: store_ok_def)
  have pieces: "peer_log s (Peer d) = concat (take a (map sb_changes ?bs)) @ sb_changes (?bs ! a) @ concat (drop (a + 1) (map sb_changes ?bs))"
    if "a < length ?bs" for a
    using concat_nth_split [of a "map sb_changes ?bs"] that by (simp only: peer_log_def length_map nth_map)
  have parts: "log_ok (Peer d) (sb_changes (?bs ! a))" if a: "a < length ?bs" for a
    by (rule log_ok_sub [OF lo [unfolded pieces [OF a]]])
  have last_in: "last (sb_changes (?bs ! a)) \<in> set (sb_changes (?bs ! a)) \<and> sb_end (?bs ! a) = sto_end (last (sb_changes (?bs ! a)))"
    if "a < length ?bs" for a using bok that by (simp add: block_ok_def)
  have later: "sint (sto_end x) \<le> sint (sto_start y)"
    if "a < b" "b < length ?bs" "x \<in> set (sb_changes (?bs ! a))" "y \<in> set (sb_changes (?bs ! b))" for a b x y
  proof -
    have "?bs ! a \<in> set (take b ?bs)" using that(1,2) by (auto simp: in_set_conv_nth)
    then have "x \<in> set (concat (take b (map sb_changes ?bs)))" using that(3) by (auto simp: take_map)
    then show ?thesis by (rule log_ok_cross [OF lo [unfolded pieces [OF that(2)]] _ that(4)])
  qed
  have ends: "sint (sb_end (?bs ! a)) \<le> sint (sb_end (?bs ! b))" if ab: "a \<le> b" "b < length ?bs" for a b
  proof (cases "a = b")
    case False
    let ?x = "last (sb_changes (?bs ! a))" and ?y = "last (sb_changes (?bs ! b))"
    have "sint (sto_end ?x) \<le> sint (sto_start ?y)" using later [of a b ?x ?y] last_in ab False by auto
    moreover have "change_ok ?y" using parts [OF ab(2)] last_in [OF ab(2)] by (simp add: log_ok_def)
    from change_okD(5) [OF this] have "sint (sto_start ?y) < sint (sto_end ?y)" .
    ultimately show ?thesis using last_in ab by simp
  qed simp
  have mono: "?P (?bs ! a)" if "a \<le> b" "b < length ?bs" "?P (?bs ! b)" for a b
    using ends [OF that(1,2)] that(3) by simp
  define i where "i = bsearch ?P ?bs 0 (length ?bs)"
  have below: "?P (?bs ! a)" if "a < i" for a
    using that unfolding i_def by (rule bsearch_whole(2) [rotated]) (rule mono)
  have above: "\<not> ?P (?bs ! i)" if "i < length ?bs"
  proof -
    have "i \<le> i" "i < length ?bs" using that by simp_all
    then show ?thesis unfolding i_def by (rule bsearch_whole(3) [rotated]) (rule mono)
  qed
  have il: "i \<le> length ?bs" unfolding i_def by (rule bsearch_whole(1)) (rule mono)
  have not_below: "\<not> in_change x d" if a: "a < i" and x: "x \<in> set (sb_changes (?bs ! a))" for a x
  proof -
    have al: "a < length ?bs" using a il by simp
    obtain k where k: "k < length (sb_changes (?bs ! a))" "x = sb_changes (?bs ! a) ! k" using x by (auto simp: in_set_conv_nth)
    have "sint (sto_end x) \<le> sint (sto_end (last (sb_changes (?bs ! a))))"
    proof -
      have ne: "sb_changes (?bs ! a) \<noteq> []" using k by auto
      show ?thesis unfolding k(2) last_conv_nth [OF ne] by (rule log_ends_mono [OF parts [OF al]]) (use k in simp_all)
    qed
    then show ?thesis using below [OF a] last_in [OF al] by (simp add: in_change_def)
  qed
  have mem: "x \<in> set (peer_log s (Peer d)) \<longleftrightarrow> (\<exists>a<length ?bs. x \<in> set (sb_changes (?bs ! a)))" for x
  proof -
    have "x \<in> set (peer_log s (Peer d)) \<longleftrightarrow> (\<exists>b\<in>set ?bs. x \<in> set (sb_changes b))" by (simp add: peer_log_def)
    then show ?thesis unfolding bex_nth .
  qed
  show ?thesis
  proof (cases "i = length ?bs")
    case True
    then have "store_find s d = None" by (simp add: store_find_def i_def)
    then show ?thesis using not_below mem True by auto
  next
    case False
    then have i: "i < length ?bs" using il by simp
    let ?cs = "sb_changes (?bs ! i)"
    define j where "j = bsearch (\<lambda>ch. sleq (sto_end ch) ?c) ?cs 0 (length ?cs)"
    note bsr = block_search [OF parts [OF i], folded j_def]
    have jl: "j < length ?cs"
    proof (rule ccontr)
      assume "\<not> j < length ?cs"
      then have e: "j = length ?cs" using bsr(1) by simp
      have mono2: "sleq (sto_end (?cs ! a)) ?c" if "a \<le> b" "b < length ?cs" "sleq (sto_end (?cs ! b)) ?c" for a b
        using log_ends_mono [OF parts [OF i] that(1,2)] that(3) by simp
      have ne: "?cs \<noteq> []" using last_in [OF i] by auto
      then have lt: "length ?cs - 1 < bsearch (\<lambda>ch. sleq (sto_end ch) ?c) ?cs 0 (length ?cs)" using e by (simp add: j_def)
      have "sleq (sto_end (?cs ! (length ?cs - 1))) ?c"
        using lt by (rule bsearch_whole(2) [rotated]) (rule mono2)
      then show False using above [OF i] last_in [OF i] ne by (simp add: last_conv_nth)
    qed
    have find: "store_find s d = (if sless ?c (sto_start (?cs ! j)) then None else Some (?cs ! j))"
      using jl False by (simp add: store_find_def Let_def i_def [symmetric] j_def [symmetric])
    have only: "in_change x d \<Longrightarrow> x = ?cs ! j" if x: "x \<in> set (peer_log s (Peer d))" for x
    proof -
      assume ic: "in_change x d"
      obtain a where a: "a < length ?bs" "x \<in> set (sb_changes (?bs ! a))" using x mem by auto
      consider "a < i" | "a = i" | "i < a" by linarith
      then show ?thesis
      proof cases
        case 1
        with not_below [OF 1 a(2)] ic show ?thesis by simp
      next
        case 2
        then obtain k where k: "k < length ?cs" "x = ?cs ! k" using a(2) by (auto simp: in_set_conv_nth)
        then show ?thesis using bsr(2,4) ic by (cases k j rule: linorder_cases) auto
      next
        case 3
        have "sint (sb_end (?bs ! i)) \<le> sint (sto_start x)" using later [OF 3 a(1) _ a(2)] last_in [OF i] by simp
        then show ?thesis using above [OF i] ic by (simp add: in_change_def)
      qed
    qed
    have inl: "?cs ! j \<in> set (peer_log s (Peer d))" unfolding mem using jl i nth_mem by blast
    moreover from this have "sto_peer (?cs ! j) = Peer d" using lo by (simp add: log_ok_def)
    ultimately have ij: "\<not> sless ?c (sto_start (?cs ! j)) \<longleftrightarrow> in_change (?cs ! j) d"
      using bsr(3) [OF jl] by (simp add: in_change_def not_less)
    show ?thesis
    proof (cases "sless ?c (sto_start (?cs ! j))")
      case True
      then show ?thesis using find only ij by auto
    next
      case False
      then show ?thesis using find ij inl by simp
    qed
  qed
qed

section \<open>Splitting\<close>

definition own_atoms :: "u64 \<Rightarrow> numbered list \<Rightarrow> histAtom list" where
  "own_atoms p = map (\<lambda>y. (y, [\<lparr>Peer = p, Counter = fst y - 1\<rparr>]))"

text \<open>
  A split of change \<open>c\<close> into store \<open>s\<close>, at a point where the atoms \<open>ys\<close> have gone in: the piece being
  filled is the first one, or follows what is in the store.
\<close>

definition splitting_ok :: "changeStore \<Rightarrow> storedChange \<Rightarrow> numbered list \<Rightarrow> splitting \<Rightarrow> bool" where
  "splitting_ok s c ys sp \<longleftrightarrow>
     (let piece = sp_piece sp; st = sp_store sp; p = sto_peer c in
      store_ok st \<and> (\<forall>q. q \<noteq> p \<longrightarrow> store_atoms st q = store_atoms s q \<and> tip st q = tip s q) \<and>
      piece_ok piece \<and> sto_peer piece = p \<and> continues st piece \<and>
      ch_Lamport (sto_ch piece) - sto_start piece = ch_Lamport (sto_ch c) - sto_start c \<and>
      (sto_ops piece = [] \<longrightarrow> 0 \<le> sp_size sp \<and> sp_size sp \<le> 4092) \<and>
      (ch_Deps (sto_ch piece) = ch_Deps (sto_ch c) \<and> ys = ops_atoms (sto_ops piece) \<and> store_atoms st p = store_atoms s p \<or>
       ch_Deps (sto_ch piece) = [own_prev piece] \<and> ys \<noteq> [] \<and> tip st p = Some (sto_start piece, ch_Lamport (sto_ch piece)) \<and>
       store_atoms st p @ own_atoms p (ops_atoms (sto_ops piece)) = store_atoms s p @ dep_atoms p (ch_Deps (sto_ch c)) ys))"

lemma splitting_ok_bufs [simp]: "splitting_ok s c ys (sp\<lparr>sp_bufs := b\<rparr>) = splitting_ok s c ys sp"
  by (simp add: splitting_ok_def)

lemma continues_same_meta: "same_meta a b \<Longrightarrow> continues s a = continues s b"
  unfolding continues_def own_prev_def by (simp only: same_metaD [of a b])

lemma piece_next_atoms: "next_op c op \<Longrightarrow> atoms op \<noteq> []"
  using atoms_hd by (simp add: next_op_def)

lemma split_push_ok:
  assumes sp: "splitting_ok s c ys sp" and n: "next_op (sp_piece sp) (po_op a)"
  defines "sp' \<equiv> split_push a sp"
  shows "splitting_ok s c (ys @ atoms (po_op a)) sp'" and "sto_ops (sp_piece sp') \<noteq> []"
    and "sto_end (sp_piece sp') = sto_end (sp_piece sp) + op_Len (po_op a)" and "sp_size sp' = sp_size sp"
    and "same_meta (sp_piece sp') (sp_piece sp)"
proof -
  obtain r piece bufs where p: "pushOp a (sp_piece sp) (sp_bufs sp) = (r, piece, bufs)"
    by (cases "pushOp a (sp_piece sp) (sp_bufs sp)") auto
  then have sp': "sp' = sp\<lparr>sp_piece := piece, sp_bufs := bufs\<rparr>" by (simp add: sp'_def split_push_def)
  have ok: "piece_ok (sp_piece sp)" using sp by (simp add: splitting_ok_def Let_def)
  note e = pushOp_ok [OF ok n p]
  then have m: "same_meta piece (sp_piece sp)" and okp: "piece_ok piece" and en: "sto_end piece = sto_end (sp_piece sp) + op_Len (po_op a)"
    and ats: "ops_atoms (sto_ops piece) = ops_atoms (sto_ops (sp_piece sp)) @ atoms (po_op a)" by (simp_all add: piece_extended_def)
  show "sto_ops (sp_piece sp') \<noteq> []" "sto_end (sp_piece sp') = sto_end (sp_piece sp) + op_Len (po_op a)" "sp_size sp' = sp_size sp"
    "same_meta (sp_piece sp') (sp_piece sp)"
    using e en m by (simp_all add: sp')
  have "sp_store sp' = sp_store sp" "sp_piece sp' = piece" by (simp_all add: sp')
  then show "splitting_ok s c (ys @ atoms (po_op a)) sp'"
    using sp e okp ats same_metaD [OF m] continues_same_meta [OF m]
    by (auto simp: splitting_ok_def Let_def own_prev_def dep_atoms_append own_atoms_def)
qed

lemma split_flush_ok:
  assumes sp: "splitting_ok s c ys sp"
  shows "\<exists>sp'. split_flush sp = Inr sp' \<and> splitting_ok s c ys sp' \<and> sto_end (sp_piece sp') = sto_end (sp_piece sp) \<and>
    (if sto_ops (sp_piece sp) = [] then sp' = sp else sto_ops (sp_piece sp') = [] \<and> sp_size sp' = 4)"
proof (cases "sto_ops (sp_piece sp) = []")
  case True
  with sp show ?thesis by (simp add: split_flush_def Let_def)
next
  case False
  let ?piece = "sp_piece sp" and ?st = "sp_store sp" and ?p = "sto_peer c"
  have inv: "store_ok ?st" "\<forall>q. q \<noteq> ?p \<longrightarrow> store_atoms ?st q = store_atoms s q \<and> tip ?st q = tip s q"
    "piece_ok ?piece" "sto_peer ?piece = ?p" "continues ?st ?piece"
    "ch_Lamport (sto_ch ?piece) - sto_start ?piece = ch_Lamport (sto_ch c) - sto_start c"
    using sp by (simp_all add: splitting_ok_def Let_def)
  have c: "change_ok ?piece" using inv(3) False by (simp add: change_ok_def)
  obtain s' bufs' where i: "insert_whole ?piece 0 ?st (sp_bufs sp) = Inr (s', bufs')" "inserted ?piece ?st s'"
    using insert_whole_ok [OF inv(1) c inv(5)] by blast
  have st: "store_ok s'" "store_atoms s' = (store_atoms ?st)(?p := store_atoms ?st ?p @ change_atoms ?piece)"
    "tip s' = (tip ?st)(?p \<mapsto> change_tip ?piece)" using i(2) inv(4) by (simp_all add: inserted_def)
  define rest where "rest = empty_piece ((sto_ch ?piece)\<lparr>ch_ID := \<lparr>Peer = Peer (ch_ID (sto_ch ?piece)), Counter = sto_end ?piece\<rparr>,
    ch_Lamport := ch_Lamport (sto_ch ?piece) + (sto_end ?piece - Counter (ch_ID (sto_ch ?piece))),
    ch_Deps := [\<lparr>Peer = Peer (ch_ID (sto_ch ?piece)), Counter = sto_end ?piece - 1\<rparr>]\<rparr>)"
  define sp' where "sp' = \<lparr>sp_piece = rest, sp_size = storedChangeSize (sto_ch rest), sp_store = s', sp_bufs = bufs'\<rparr>"
  have code: "split_flush sp = Inr sp'"
    using False i(1) by (simp add: split_flush_def Let_def rest_def sp'_def)
  have r: "sto_peer rest = ?p" "sto_start rest = sto_end ?piece" "sto_end rest = sto_end ?piece" "sto_ops rest = []"
    "ch_Lamport (sto_ch rest) = ch_Lamport (sto_ch ?piece) + (sto_end ?piece - sto_start ?piece)"
    "ch_Deps (sto_ch rest) = [own_prev rest]" "piece_ok rest"
    using inv(4) by (simp_all add: rest_def empty_piece_def sto_peer_def sto_start_def sto_end_def own_prev_def piece_ok_def)
  have sz: "storedChangeSize (sto_ch rest) = 4" using r by (simp add: storedChangeSize_def)
  have t: "tip s' ?p = Some (sto_start rest, ch_Lamport (sto_ch rest))" by (simp add: st(3) r change_tip_def)
  have cont: "continues s' rest" using t by (simp add: continues_def r)
  have ys: "store_atoms ?st ?p @ change_atoms ?piece = store_atoms s ?p @ dep_atoms ?p (ch_Deps (sto_ch c)) ys \<and> ys \<noteq> []"
  proof -
    have ch: "chain ?p (sto_start ?piece) (ch_Lamport (sto_ch ?piece)) (sto_ops ?piece)" using inv(3,4) by (simp add: piece_ok_def)
    have ne: "ops_atoms (sto_ops ?piece) \<noteq> []" using chain_atoms_hd [OF ch False] by simp
    have own: "change_atoms ?piece = own_atoms ?p (ops_atoms (sto_ops ?piece))" if "ch_Deps (sto_ch ?piece) = [own_prev ?piece]"
      unfolding change_atoms_def own_atoms_def inv(4) by (rule own_dep_atoms [OF ch]) (simp add: that own_prev_def inv(4))
    show ?thesis using sp ne own inv(4) by (auto simp: splitting_ok_def Let_def change_atoms_def)
  qed
  have "splitting_ok s c ys sp'"
    unfolding splitting_ok_def Let_def
    using inv(2,6) st r t cont ys sz by (auto simp: sp'_def own_atoms_def fun_upd_def)
  with code False r sz show ?thesis by (simp add: sp'_def)
qed
lemma next_op_at:
  assumes "splitting_ok s c ys sp" and "splitting_ok s c ys' sp'" and "next_op (sp_piece sp) op"
    and "op_ok x" and "op_Peer x = op_Peer op" and "op_Counter x = sto_end (sp_piece sp')"
    and "op_Lamport x = op_Lamport op + (op_Counter x - op_Counter op)"
  shows "next_op (sp_piece sp') x"
proof -
  have "ch_Lamport (sto_ch (sp_piece sp')) - sto_start (sp_piece sp') = ch_Lamport (sto_ch (sp_piece sp)) - sto_start (sp_piece sp)"
    "sto_peer (sp_piece sp') = sto_peer (sp_piece sp)"
    using assms(1,2) by (simp_all add: splitting_ok_def Let_def)
  then have l: "ch_Lamport (sto_ch (sp_piece sp')) = ch_Lamport (sto_ch (sp_piece sp)) - sto_start (sp_piece sp) + sto_start (sp_piece sp')"
    and p: "sto_peer (sp_piece sp') = sto_peer (sp_piece sp)" by (simp_all add: algebra_simps)
  show ?thesis unfolding next_op_def l p using assms(3-7) by (simp add: next_op_def)
qed

lemma fitsIn_part:
  assumes ok: "op_ok op" and f: "fitsIn op room = Some fit" and r: "4 \<le> room" "room \<le> 4096"
  shows "\<exists>m. fit = of_nat m \<and> 1 \<le> m \<and> m \<le> op_len op \<and> sint fit = int m"
proof -
  define n where "n = (if op_VKind op = VKLoroValue \<and> op_Kind op \<noteq> CText then room div 4 else room)"
  have fit: "fit = smin (word_of_int n) (op_Len op)" using f r by (auto simp: fitsIn_def Let_def n_def split: if_splits)
  have n: "1 \<le> n" "n \<le> 4096" using r by (auto simp: n_def)
  have l: "1 \<le> op_len op" "int (op_len op) = sint (op_Len op)" using op_ok_len [OF ok] by simp_all
  have "sint (word_of_int n :: i64) = n" using n by (intro sint_of_int_small) simp_all
  then have s: "sint fit = min n (sint (op_Len op))" by (simp add: fit sint_smin)
  define m where "m = nat (sint fit)"
  have "int m = sint fit" using s n l by (simp add: m_def)
  moreover from this have "fit = of_nat m" by (metis of_int_of_nat_eq of_sint)
  moreover have "1 \<le> m" "m \<le> op_len op" using s n l calculation(1) by linarith+
  ultimately show ?thesis by auto
qed

text \<open>Where the inner loop leaves a split that the atoms \<open>xs\<close> were still to go into.\<close>

definition cut_result ::
  "changeStore \<Rightarrow> storedChange \<Rightarrow> numbered list \<Rightarrow> numbered list \<Rightarrow> i64 \<Rightarrow> provOp option \<Rightarrow> splitting \<Rightarrow> bool"
where
  "cut_result s c ys xs e r sp \<longleftrightarrow>
     (case r of
        None \<Rightarrow> splitting_ok s c (ys @ xs) sp \<and> sto_end (sp_piece sp) = e
      | Some cur \<Rightarrow> \<exists>zs. splitting_ok s c (ys @ zs) sp \<and> next_op (sp_piece sp) (po_op cur) \<and>
          xs = zs @ atoms (po_op cur) \<and> sto_end (sp_piece sp) + op_Len (po_op cur) = e)"

lemma cut_result_prefix: "cut_result s c (ys @ hs) xs e r sp \<Longrightarrow> cut_result s c ys (hs @ xs) e r sp"
  by (auto simp: cut_result_def split: option.splits intro: exI [of _ "hs @ zs" for zs])

lemma cut_loop_ok:
  "splitting_ok s c ys sp \<Longrightarrow> next_op (sp_piece sp) (po_op cur) \<Longrightarrow> op_len (po_op cur) < fuel \<Longrightarrow>
    storedOpSize (po_op cur) \<le> storeBlockLimit - sp_size sp \<or> sto_ops (sp_piece sp) = [] \<Longrightarrow>
    \<exists>r sp'. cut_loop fuel cur sp = Inr (r, sp') \<and>
      cut_result s c ys (atoms (po_op cur)) (sto_end (sp_piece sp) + op_Len (po_op cur)) r sp'"
proof (induction fuel arbitrary: cur sp ys)
  case (Suc fuel)
  let ?op = "po_op cur" and ?room = "storeBlockLimit - sp_size sp"
  have ok: "op_ok ?op" using Suc.prems(2) by (simp add: next_op_def)
  note l = op_ok_len [OF ok]
  show ?case
  proof (cases "fitsIn ?op ?room")
    case None
    then show ?thesis using Suc.prems by (auto simp: cut_result_def intro!: exI [of _ "[]"])
  next
    case (Some fit)
    then have "\<not> storedOpSize ?op \<le> ?room" by (simp add: fitsIn_def split: if_splits)
    then have e: "sto_ops (sp_piece sp) = []" using Suc.prems(4) by simp
    then have r: "4 \<le> ?room" "?room \<le> 4096" using Suc.prems(1) by (simp_all add: splitting_ok_def Let_def storeBlockLimit_def)
    obtain m where m: "fit = of_nat m" "1 \<le> m" "m \<le> op_len ?op" "sint fit = int m" using fitsIn_part [OF ok Some r] by blast
    obtain p bufs where p: "(if sless fit (op_Len ?op) then cutItems ?op (po_prov cur) (sp_bufs sp) else (po_prov cur, sp_bufs sp)) = (p, bufs)"
      by fastforce
    let ?cur = "cur\<lparr>po_prov := p\<rparr>" and ?sp = "sp\<lparr>sp_bufs := bufs\<rparr>" and ?span = "len_span ?op"
    have cur: "?cur = \<lparr>po_op = ?op, po_prov = p\<rparr>" by simp
    let ?at = "ir_start ?span + fit"
    have sp0: "ir_start ?span = op_Counter ?op" "ir_end ?span = op_Counter ?op + op_Len ?op" by (simp_all add: len_span_def)
    have h: "0 < m" "0 + m \<le> op_len ?op" using m by simp_all
    obtain head where hd: "sliceOp ?cur ?span \<lparr>ir_start = ir_start ?span, ir_end = ?at\<rparr> = Inr head" "part_of ?op 0 m (po_op head)"
      using sliceOp_part [OF ok h, of p] unfolding cur sp0 by (auto simp: m(1))
    have nh: "next_op (sp_piece ?sp) (po_op head)" using Suc.prems(2) hd(2) by (simp add: next_op_def part_of_def)
    have spo: "splitting_ok s c ys ?sp" using Suc.prems(1) by simp
    note ph = split_push_ok [OF spo nh]
    obtain sp2 where f: "split_flush (split_push head ?sp) = Inr sp2" "splitting_ok s c (ys @ atoms (po_op head)) sp2"
      "sto_end (sp_piece sp2) = sto_end (sp_piece (split_push head ?sp))" "sto_ops (sp_piece sp2) = []" "sp_size sp2 = 4"
      using split_flush_ok [OF ph(1)] ph(2) by auto
    have hl: "op_Len (po_op head) = fit" "atoms (po_op head) = take m (atoms ?op)" using hd(2) m by (simp_all add: part_of_def)
    have en: "sto_end (sp_piece sp2) = sto_end (sp_piece sp) + fit" using f(3) ph(3) hl by simp
    have code: "cut_loop (Suc fuel) cur sp = (if sleq (op_Len ?op) fit then Inr (None, sp2)
        else bindR (sliceOp ?cur ?span \<lparr>ir_start = ?at, ir_end = ir_end ?span\<rparr>) (\<lambda>cur. cut_loop fuel cur sp2))"
      using Some p hd(1) f(1) by (simp add: Let_def)
    show ?thesis
    proof (cases "sleq (op_Len ?op) fit")
      case True
      then have "int (op_len ?op) \<le> int m" using m(4) l by linarith
      then have "m = op_len ?op" using m(3) by simp
      moreover have "cut_loop (Suc fuel) cur sp = Inr (None, sp2)" using True by (simp only: code if_True)
      ultimately show ?thesis using f(2) en hl m(1) l by (simp add: cut_result_def del: cut_loop.simps)
    next
      case False
      then have "int m < int (op_len ?op)" using m(4) l by linarith
      then have lt: "0 < op_len ?op - m" "m + (op_len ?op - m) \<le> op_len ?op" by simp_all
      have ends: "?at = op_Counter ?op + of_nat m" "ir_end ?span = op_Counter ?op + of_nat (m + (op_len ?op - m))"
        using m l by (simp_all add: sp0)
      obtain cur2 where c2: "sliceOp ?cur ?span \<lparr>ir_start = ?at, ir_end = ir_end ?span\<rparr> = Inr cur2"
        "part_of ?op m (op_len ?op - m) (po_op cur2)"
        using sliceOp_part [OF ok lt, of p] unfolding cur ends by auto
      have at2: "op_Counter (po_op cur2) = sto_end (sp_piece sp2)" using c2(2) Suc.prems(2) en m(1) by (simp add: part_of_def next_op_def)
      have n2: "next_op (sp_piece sp2) (po_op cur2)"
        by (rule next_op_at [OF Suc.prems(1) f(2) Suc.prems(2)]) (use c2(2) at2 in \<open>simp_all add: part_of_def\<close>)
      have l2: "op_len (po_op cur2) = op_len ?op - m" "op_Len (po_op cur2) = of_nat (op_len ?op - m)"
      proof -
        have "atoms (po_op cur2) = take (op_len ?op - m) (drop m (atoms ?op))" using c2(2) by (simp only: part_of_def)
        from arg_cong [OF this, of length] show "op_len (po_op cur2) = op_len ?op - m" by simp
      qed (use c2(2) in \<open>simp only: part_of_def\<close>)
      then have fu: "op_len (po_op cur2) < fuel" using Suc.prems(3) m by simp
      note ih = Suc.IH [OF f(2) n2 fu disjI2 [OF f(4)]]
      have split: "atoms ?op = atoms (po_op head) @ atoms (po_op cur2)" using c2(2) hl(2) m(3) by (simp add: part_of_def)
      have en2: "sto_end (sp_piece sp2) + op_Len (po_op cur2) = sto_end (sp_piece sp) + op_Len ?op"
        using en l2 m l by (simp add: of_nat_diff)
      have "cut_loop (Suc fuel) cur sp = cut_loop fuel cur2 sp2" using False c2(1) by (simp only: code if_False bindR_simps)
      with ih obtain r sp' where i: "cut_loop (Suc fuel) cur sp = Inr (r, sp')"
        "cut_result s c (ys @ atoms (po_op head)) (atoms (po_op cur2)) (sto_end (sp_piece sp2) + op_Len (po_op cur2)) r sp'" by auto
      then show ?thesis using cut_result_prefix [OF i(2)] unfolding split en2 by blast
    qed
  qed
qed simp

lemma splitting_ok_size: "sto_ops (sp_piece sp) \<noteq> [] \<Longrightarrow> splitting_ok s c ys (sp\<lparr>sp_size := z\<rparr>) = splitting_ok s c ys sp"
  by (simp add: splitting_ok_def)

lemma split_push_size: "split_push a (sp\<lparr>sp_size := z\<rparr>) = (split_push a sp)\<lparr>sp_size := z\<rparr>"
  by (simp add: split_push_def split: prod.splits)

lemma split_op_ok:
  assumes sp: "splitting_ok s c ys sp" and n: "next_op (sp_piece sp) (po_op a)"
  shows "\<exists>sp'. split_op a sp = Inr sp' \<and> splitting_ok s c (ys @ atoms (po_op a)) sp' \<and>
    sto_end (sp_piece sp') = sto_end (sp_piece sp) + op_Len (po_op a)"
proof -
  let ?first = "if storedOpSize (po_op a) \<ge> storeBlockLimit - sp_size sp then split_flush sp else Inr sp"
  obtain sp1 where s1: "?first = Inr sp1" "splitting_ok s c ys sp1" "sto_end (sp_piece sp1) = sto_end (sp_piece sp)"
    "storedOpSize (po_op a) \<le> storeBlockLimit - sp_size sp1 \<or> sto_ops (sp_piece sp1) = []"
    using split_flush_ok [OF sp] sp by (cases "storedOpSize (po_op a) \<ge> storeBlockLimit - sp_size sp") (auto split: if_splits)
  have n1: "next_op (sp_piece sp1) (po_op a)"
    by (rule next_op_at [OF sp s1(2) n]) (use n s1(3) in \<open>simp_all add: next_op_def\<close>)
  have fu: "op_len (po_op a) < nat (sint (op_Len (po_op a))) + 2" by (simp add: op_len_def)
  obtain r sp2 where c2: "cut_loop (nat (sint (op_Len (po_op a))) + 2) a sp1 = Inr (r, sp2)"
    "cut_result s c ys (atoms (po_op a)) (sto_end (sp_piece sp1) + op_Len (po_op a)) r sp2"
    using cut_loop_ok [OF s1(2) n1 fu s1(4)] by blast
  have code: "split_op a sp = (case r of
         None \<Rightarrow> Inr sp2
       | Some cur \<Rightarrow>
           if op_Len (po_op cur) = 0 then Inr sp2
           else
             let sp = sp2\<lparr>sp_size := sp_size sp2 + storedOpSize (po_op cur)\<rparr> in
             bindR (if sp_size sp > storeBlockLimit \<and> sto_ops (sp_piece sp) \<noteq> [] then split_flush sp else Inr sp)
               (\<lambda>sp. Inr (split_push cur sp)))"
    unfolding split_op_def s1(1) bindR_simps c2(1) by simp
  show ?thesis
  proof (cases r)
    case None
    then show ?thesis using c2(2) s1(3) by (simp add: code cut_result_def)
  next
    case (Some cur)
    obtain zs where z: "splitting_ok s c (ys @ zs) sp2" "next_op (sp_piece sp2) (po_op cur)" "atoms (po_op a) = zs @ atoms (po_op cur)"
      "sto_end (sp_piece sp2) + op_Len (po_op cur) = sto_end (sp_piece sp) + op_Len (po_op a)"
      using c2(2) Some s1(3) by (auto simp: cut_result_def)
    have nz: "op_Len (po_op cur) \<noteq> 0" using z(2) by (auto simp: next_op_def op_ok_def)
    let ?sp = "sp2\<lparr>sp_size := sp_size sp2 + storedOpSize (po_op cur)\<rparr>"
    show ?thesis
    proof (cases "sp_size ?sp > storeBlockLimit \<and> sto_ops (sp_piece ?sp) \<noteq> []")
      case True
      then have "splitting_ok s c (ys @ zs) ?sp" using z(1) by (simp add: splitting_ok_size)
      from split_flush_ok [OF this] True obtain sp3 where s3: "split_flush ?sp = Inr sp3" "splitting_ok s c (ys @ zs) sp3"
        "sto_end (sp_piece sp3) = sto_end (sp_piece sp2)" by auto
      have n3: "next_op (sp_piece sp3) (po_op cur)"
        by (rule next_op_at [OF z(1) s3(2) z(2)]) (use z(2) s3(3) in \<open>simp_all add: next_op_def\<close>)
      from split_push_ok [OF s3(2) n3] z s3 Some True nz show ?thesis by (simp add: code Let_def)
    next
      case False
      note ph = split_push_ok [OF z(1,2)]
      have "split_op a sp = Inr (split_push cur ?sp)" using False Some nz by (auto simp: code Let_def)
      then show ?thesis using ph z by (simp add: split_push_size splitting_ok_size)
    qed
  qed
qed

lemma split_ops_ok:
  "splitting_ok s c ys sp \<Longrightarrow> chain (sto_peer c) (sto_end (sp_piece sp)) l (map po_op as) \<Longrightarrow>
    l = ch_Lamport (sto_ch (sp_piece sp)) + (sto_end (sp_piece sp) - sto_start (sp_piece sp)) \<Longrightarrow>
    \<exists>sp'. split_ops as sp = Inr sp' \<and> splitting_ok s c (ys @ ops_atoms (map po_op as)) sp' \<and>
      sto_end (sp_piece sp') = ops_end (sto_end (sp_piece sp)) (map po_op as)"
proof (induction as arbitrary: ys sp l)
  case (Cons a as)
  have p: "sto_peer (sp_piece sp) = sto_peer c" using Cons.prems(1) by (simp add: splitting_ok_def Let_def)
  have n: "next_op (sp_piece sp) (po_op a)" using Cons.prems(2,3) p by (simp add: next_op_def)
  obtain sp1 where s1: "split_op a sp = Inr sp1" "splitting_ok s c (ys @ atoms (po_op a)) sp1"
    "sto_end (sp_piece sp1) = sto_end (sp_piece sp) + op_Len (po_op a)" using split_op_ok [OF Cons.prems(1) n] by blast
  have "ch_Lamport (sto_ch (sp_piece sp1)) - sto_start (sp_piece sp1) = ch_Lamport (sto_ch (sp_piece sp)) - sto_start (sp_piece sp)"
    using Cons.prems(1) s1(2) by (simp add: splitting_ok_def Let_def)
  then have l: "l + op_Len (po_op a) = ch_Lamport (sto_ch (sp_piece sp1)) + (sto_end (sp_piece sp1) - sto_start (sp_piece sp1))"
    unfolding s1(3) Cons.prems(3) by (simp add: algebra_simps)
  have ch: "chain (sto_peer c) (sto_end (sp_piece sp1)) (l + op_Len (po_op a)) (map po_op as)" using Cons.prems(2) s1(3) by simp
  from Cons.IH [OF s1(2) ch l] s1(1,3) show ?case by auto
qed simp

text \<open>\<open>splitThenInsert\<close> puts the whole change in, for any change with at most 1023 dependencies.\<close>

lemma splitThenInsert_ok:
  assumes ok: "store_ok s" and c: "change_ok c" and ct: "continues s c" and ds: "length (ch_Deps (sto_ch c)) \<le> 1023"
  shows "\<exists>s' bufs'. splitThenInsert c s bufs = Inr (s', bufs') \<and> inserted c s s'"
proof -
  note cd = change_okD [OF c]
  note pm = prov_ops_map [OF cd(1)]
  let ?p = "sto_peer c"
  let ?piece = "empty_piece (sto_ch c)"
  let ?sp = "\<lparr>sp_piece = ?piece, sp_size = storedChangeSize (sto_ch ?piece), sp_store = s, sp_bufs = bufs\<rparr>"
  have m: "sto_peer ?piece = ?p" "sto_start ?piece = sto_start c" "sto_end ?piece = sto_start c" "sto_ops ?piece = []"
    "ch_Lamport (sto_ch ?piece) = ch_Lamport (sto_ch c)" "ch_Deps (sto_ch ?piece) = ch_Deps (sto_ch c)"
    by (simp_all add: empty_piece_def sto_peer_def sto_start_def sto_end_def)
  have cp: "continues s ?piece" using ct unfolding continues_def own_prev_def m by simp
  have pk: "piece_ok ?piece" using c unfolding piece_ok_def m change_ok_def by (simp add: empty_piece_def)
  have "int (length (ch_Deps (sto_ch c))) \<le> 1023" using ds by simp
  then have sz: "0 \<le> storedChangeSize (sto_ch ?piece) \<and> storedChangeSize (sto_ch ?piece) \<le> 4092"
    unfolding storedChangeSize_def m by simp
  have sp: "splitting_ok s c [] ?sp" using ok cp pk m sz by (simp add: splitting_ok_def Let_def)
  have "chain ?p (sto_end (sp_piece ?sp)) (ch_Lamport (sto_ch c)) (map po_op (prov_ops c))" using cd(2) pm m by simp
  from split_ops_ok [OF sp this] obtain sp' where s': "split_ops (prov_ops c) ?sp = Inr sp'"
    "splitting_ok s c (ops_atoms (sto_ops c)) sp'" "sto_end (sp_piece sp') = sto_end c"
    using pm m by (auto simp: sto_end_ops)
  let ?q = "sp_piece sp'" and ?st = "sp_store sp'"
  have inv: "store_ok ?st" "\<forall>q. q \<noteq> ?p \<longrightarrow> store_atoms ?st q = store_atoms s q \<and> tip ?st q = tip s q"
    "piece_ok ?q" "sto_peer ?q = ?p" "continues ?st ?q" "ch_Lamport (sto_ch ?q) - sto_start ?q = ch_Lamport (sto_ch c) - sto_start c"
    using s'(2) by (simp_all add: splitting_ok_def Let_def)
  have ne: "ops_atoms (sto_ops c) \<noteq> []" using chain_atoms_hd [OF cd(2,3)] by simp
  have tp: "(sto_end ?q, ch_Lamport (sto_ch ?q) + (sto_end ?q - sto_start ?q)) = change_tip c"
    using inv(6) s'(3) by (simp add: change_tip_def)
  have chq: "chain ?p (sto_start ?q) (ch_Lamport (sto_ch ?q)) (sto_ops ?q)" using inv(3,4) by (simp add: piece_ok_def)
  have ats: "store_atoms ?st ?p @ change_atoms ?q = store_atoms s ?p @ change_atoms c"
  proof -
    have own: "change_atoms ?q = own_atoms ?p (ops_atoms (sto_ops ?q))" if "ch_Deps (sto_ch ?q) = [own_prev ?q]"
      unfolding change_atoms_def own_atoms_def inv(4) by (rule own_dep_atoms [OF chq]) (simp add: that own_prev_def inv(4))
    then show ?thesis using s'(2) inv(4) by (auto simp: splitting_ok_def Let_def change_atoms_def)
  qed
  show ?thesis
  proof (cases "sto_ops ?q = []")
    case False
    then have cq: "change_ok ?q" using inv(3) by (simp add: change_ok_def)
    obtain s2 b2 where i: "insert_whole ?q 0 ?st (sp_bufs sp') = Inr (s2, b2)" "inserted ?q ?st s2"
      using insert_whole_ok [OF inv(1) cq inv(5)] by blast
    have "change_tip ?q = change_tip c" using tp by (simp only: change_tip_def)
    then have "inserted c s s2" using i(2) ats inv(2,4) by (auto simp: inserted_def fun_eq_iff)
    then show ?thesis using s'(1) i(1) False by (simp add: splitThenInsert_def Let_def)
  next
    case True
    have "sto_start ?q = sto_end ?q" using True by (simp add: sto_end_ops)
    then have "tip ?st ?p = Some (change_tip c)" using s'(2) ne True tp by (auto simp: splitting_ok_def Let_def)
    moreover have "change_atoms ?q = []" using True by (simp add: change_atoms_def)
    ultimately have "inserted c s ?st" using ats inv(1,2) by (auto simp: inserted_def fun_eq_iff)
    then show ?thesis using s'(1) True by (simp add: splitThenInsert_def Let_def)
  qed
qed

lemma store_insert_ok:
  assumes "store_ok s" and "change_ok c" and "continues s c" and "length (ch_Deps (sto_ch c)) \<le> 1023"
  shows "\<exists>s' bufs'. store_insert c split iv s bufs = Inr (s', bufs') \<and> inserted c s s'"
  using insert_whole_ok [OF assms(1-3)] splitThenInsert_ok [OF assms] by (simp add: store_insert_def)

section \<open>A change that cannot be split\<close>

lemma split_many_deps:
  assumes v: "op_Value op = OVal (LStr t)" "runes t \<noteq> []" and k: "op_VKind op = VKStr" "op_Kind op = CText"
    and ds: "1025 \<le> length (ch_Deps (sto_ch c))" "length (ch_Deps (sto_ch c)) < 2 ^ 60"
    and ops: "sto_ops c = op # ops" "length (sto_prov c) = length (sto_ops c)" and len: "1 \<le> sint (op_Len op)"
  shows "splitThenInsert c s bufs = Inl GoPanic"
proof -
  let ?n = "int (length (ch_Deps (sto_ch c)))"
  let ?piece = "empty_piece (sto_ch c)"
  have sz: "storedChangeSize (sto_ch ?piece) = 4 * ?n"
  proof -
    have "max ?n 1 = ?n" using ds(1) by simp
    then show ?thesis by (simp add: storedChangeSize_def empty_piece_def)
  qed
  obtain p ps where pr: "sto_prov c = p # ps" using ops by (cases "sto_prov c") auto
  let ?a = "\<lparr>po_op = op, po_prov = p\<rparr>"
  obtain as where as: "prov_ops c = ?a # as" using ops pr by (auto simp: prov_ops_def)
  let ?sp = "\<lparr>sp_piece = ?piece, sp_size = 4 * ?n, sp_store = s, sp_bufs = bufs\<rparr>"
  let ?room = "4096 - 4 * ?n"
  have b: "- (2 ^ 63) \<le> ?room" "?room < 0" using ds by simp_all
  have "sint (word_of_int ?room :: i64) = ?room" using b by (intro sint_of_int_small) simp_all
  then have fit: "fitsIn op ?room = Some (word_of_int ?room)" "sint (word_of_int ?room :: i64) < 0"
    using b len v k by (simp_all add: fitsIn_def storedOpSize_def smin_def str_of_def vk_defs not_less)
  have "\<And>q. sliceOp \<lparr>po_op = op, po_prov = q\<rparr> (len_span op) \<lparr>ir_start = op_Counter op, ir_end = op_Counter op + word_of_int ?room\<rparr> = Inl GoPanic"
  proof -
    fix q
    have "sint (op_Len op) \<noteq> sint (word_of_int ?room :: i64)" using fit(2) len by linarith
    then have "op_Len op \<noteq> word_of_int ?room" by auto
    then have "\<lparr>ir_start = op_Counter op, ir_end = op_Counter op + word_of_int ?room\<rparr> \<noteq> len_span op" by (simp add: len_span_def)
    then have "clip_panics op (len_span op) \<lparr>ir_start = op_Counter op, ir_end = op_Counter op + word_of_int ?room\<rparr>"
      unfolding clip_panics_def using fit(2) v by (simp add: len_span_def Let_def)
    then show "sliceOp \<lparr>po_op = op, po_prov = q\<rparr> (len_span op) \<lparr>ir_start = op_Counter op, ir_end = op_Counter op + word_of_int ?room\<rparr> = Inl GoPanic"
      by (simp add: sliceOp_def)
  qed
  then have cut: "cut_loop (Suc fuel) ?a ?sp = Inl GoPanic" for fuel
    using fit(1) by (simp add: storeBlockLimit_def Let_def len_span_def split: prod.splits)
  have "split_flush ?sp = Inr ?sp" by (simp add: split_flush_def Let_def empty_piece_def)
  moreover have "storeBlockLimit - 4 * ?n \<le> storedOpSize op" using b k by (simp add: storeBlockLimit_def storedOpSize_def vk_defs)
  ultimately have "split_op ?a ?sp = Inl GoPanic"
    using cut [of "nat (sint (op_Len op)) + 1"] by (simp add: split_op_def)
  then show ?thesis by (simp add: splitThenInsert_def Let_def as sz)
qed

end
