(* ===== verification/OpLog.thy ===== *)
theory OpLog
  imports StoreProof Frontiers SortProof SeqState
begin

text \<open>
  A document's history (\<open>loro/oplog.go\<close>, \<open>opLog\<close>): the changes applied, in the change store, with the
  version and frontiers they make, and the changes received whose dependencies have not arrived.
  The store of shared item buffers goes with the log. A copy of a log is a value here (\<open>clone\<close>).
  The maps of pending changes, filed under the peer and counter of the op they wait for, are the
  list of their entries in the order they were filed.
\<close>

section \<open>State\<close>

type_synonym pending = "(ID \<times> storedChange) list"

record opLog =
  lg_store :: changeStore
  lg_vv :: version
  lg_fr :: frontiers
  lg_pending :: pending
  lg_arena :: strArena
  lg_vvTab :: fxTable
  lg_bufs :: buffers

definition newOpLog :: opLog where
  "newOpLog = \<lparr>lg_store = [], lg_vv = [], lg_fr = fr_empty, lg_pending = [],
     lg_arena = \<lparr>sa_len = 0, sa_cap = 0, sa_gen = 0\<rparr>, lg_vvTab = fx_nil,
     lg_bufs = \<lparr>bf_next = 0, bf_at = (\<lambda>_. \<lparr>si_holders = 0, si_len = 0\<rparr>)\<rparr>\<rparr>"

definition log_empty :: "opLog \<Rightarrow> bool" where
  "log_empty l \<longleftrightarrow> lg_vv l = [] \<and> lg_pending l = []"

definition log_has :: "opLog \<Rightarrow> ID \<Rightarrow> bool" where
  "log_has l d \<longleftrightarrow> sless (Counter d) (vv_at (lg_vv l) (Peer d))"

section \<open>Lamports and timestamps\<close>

definition lamportOf :: "opLog \<Rightarrow> ID \<Rightarrow> i64 option" where
  "lamportOf l d =
     (case store_find (lg_store l) d of
        None \<Rightarrow> None
      | Some c \<Rightarrow> Some (ch_Lamport (sto_ch c) + (Counter d - sto_start c)))"

definition nextLamport :: "opLog \<Rightarrow> ID list \<Rightarrow> i64" where
  "nextLamport l ids = foldl (\<lambda>nxt f. case lamportOf l f of Some lam \<Rightarrow> smax nxt (lam + 1) | None \<Rightarrow> nxt) 0 ids"

definition greatestTimestamp :: "opLog \<Rightarrow> ID list \<Rightarrow> i64" where
  "greatestTimestamp l ids =
     foldl (\<lambda>ts f. case store_find (lg_store l) f of Some c \<Rightarrow> smax ts (ch_Timestamp (sto_ch c)) | None \<Rightarrow> ts) 0 ids"

fun lamport_from :: "opLog \<Rightarrow> ID list \<Rightarrow> i64 \<Rightarrow> i64 option" where
  "lamport_from l [] lam = Some lam"
| "lamport_from l (d # ds) lam =
     (case lamportOf l d of
        None \<Rightarrow> None
      | Some dl \<Rightarrow> if \<not> log_has l d then None else lamport_from l ds (smax lam (dl + 1)))"

definition lamportFromDeps :: "opLog \<Rightarrow> ID list \<Rightarrow> i64 option" where
  "lamportFromDeps l deps = lamport_from l deps 0"

section \<open>Applying a change\<close>

text \<open>The hash table's loops end, so \<open>None\<close>, which stands for one that does not, never comes up.\<close>

definition of_loop :: "'a option \<Rightarrow> 'a res" where
  "of_loop x = (case x of None \<Rightarrow> Inl OutOfFuel | Some y \<Rightarrow> Inr y)"

definition insertLocal :: "storedChange \<Rightarrow> i64 \<Rightarrow> opLog \<Rightarrow> opLog res" where
  "insertLocal c interval l =
     (let l = l\<lparr>lg_vv := gm_put (sto_peer c) (sto_end c) (lg_vv l),
            lg_fr := \<lparr>f_n = 1, f_one = sto_lastID c, f_tab = None\<rparr>\<rparr> in
      bindR (store_insert c True interval (lg_store l) (lg_bufs l)) (\<lambda>(s, bufs).
        Inr (l\<lparr>lg_store := s, lg_bufs := bufs\<rparr>)))"

text \<open>The two checks of \<open>insertRemote\<close>.\<close>

definition lamport_breaks :: "opLog \<Rightarrow> storedChange \<Rightarrow> bool" where
  "lamport_breaks l c \<longleftrightarrow>
     (let deps = ch_Deps (sto_ch c) in
      length deps = 1 \<and> Peer (deps ! 0) = sto_peer c \<and>
      (case lamportOf l (deps ! 0) of None \<Rightarrow> False | Some prev \<Rightarrow> ch_Lamport (sto_ch c) \<noteq> prev + 1))"

definition insertRemote :: "storedChange \<Rightarrow> opLog \<Rightarrow> opLog res" where
  "insertRemote c l =
     (if lamport_breaks l c then Inl (Errorf ''lamport'')
      else if sint (ch_Lamport (sto_ch c) + (sto_end c - sto_start c)) > 4294967295 then Inl (Errorf ''ends past'')
      else
        bindR (of_loop (updateOnNewChange (sto_lastID c) (ch_Deps (sto_ch c)) (lg_fr l))) (\<lambda>fr.
        bindR (of_loop (insertMax \<lparr>Peer = sto_peer c, Counter = sto_end c\<rparr> (lg_vvTab l))) (\<lambda>tab.
        bindR (store_insert c True 0 (lg_store l) (lg_bufs l)) (\<lambda>(s, bufs).
          Inr (l\<lparr>lg_fr := fr, lg_vv := gm_put (sto_peer c) (sto_end c) (lg_vv l), lg_vvTab := tab,
            lg_store := s, lg_bufs := bufs\<rparr>)))))"

definition trimKnown :: "opLog \<Rightarrow> storedChange \<Rightarrow> storedChange option res" where
  "trimKnown l c =
     (case gm_get (lg_vv l) (sto_peer c) of
        None \<Rightarrow> Inr (Some c)
      | Some e \<Rightarrow>
          if sleq e (sto_start c) then Inr (Some c)
          else if sleq (sto_end c) e then Inr None
          else bindR (sto_slice c (e - sto_start c) (sto_end c - sto_start c)) (\<lambda>c. Inr (Some c)))"

definition apply_trimmed :: "storedChange \<Rightarrow> opLog \<Rightarrow> opLog res" where
  "apply_trimmed c l = bindR (trimKnown l c) (\<lambda>t. case t of None \<Rightarrow> Inr l | Some c \<Rightarrow> insertRemote c l)"

definition applyRemote :: "storedChange \<Rightarrow> opLog \<Rightarrow> opLog res" where
  "applyRemote c l =
     (let lam = foldl (\<lambda>lam d. case lamportOf l d of Some dl \<Rightarrow> smax lam (dl + 1) | None \<Rightarrow> lam)
            (ch_Lamport (sto_ch c)) (ch_Deps (sto_ch c)) in
      apply_trimmed (setLamport lam c) l)"

section \<open>Waiting\<close>

datatype applyState = Applied | Waits ID | Ready

fun first_missing :: "opLog \<Rightarrow> ID list \<Rightarrow> applyState" where
  "first_missing l [] = Ready"
| "first_missing l (d # ds) = (if sless (vv_at (lg_vv l) (Peer d) - 1) (Counter d) then Waits d else first_missing l ds)"

definition waitsFor :: "opLog \<Rightarrow> storedChange \<Rightarrow> applyState" where
  "waitsFor l c =
     (let have = vv_at (lg_vv l) (sto_peer c) in
      if sleq (sto_end c) have then Applied
      else if sless have (sto_start c) then Waits \<lparr>Peer = sto_peer c, Counter = sto_start c - 1\<rparr>
      else first_missing l (ch_Deps (sto_ch c)))"

definition park :: "ID \<Rightarrow> storedChange \<Rightarrow> opLog \<Rightarrow> opLog" where
  "park d c l = l\<lparr>lg_pending := lg_pending l @ [(d, c)]\<rparr>"

text \<open>One change tried: the ids applied so far (the top of the stack first) and the log.\<close>

definition try_change :: "storedChange \<Rightarrow> ID list \<times> opLog \<Rightarrow> (ID list \<times> opLog) res" where
  "try_change c st =
     (case st of (ids, l) \<Rightarrow>
       case waitsFor l c of
         Waits d \<Rightarrow> Inr (ids, park d c l)
       | Applied \<Rightarrow> Inr (ids, l)
       | Ready \<Rightarrow> bindR (applyRemote c l) (\<lambda>l. Inr (sto_lastID c # ids, l)))"

fun try_changes :: "storedChange list \<Rightarrow> ID list \<times> opLog \<Rightarrow> (ID list \<times> opLog) res" where
  "try_changes [] st = Inr st"
| "try_changes (c # cs) st = bindR (try_change c st) (try_changes cs)"

text \<open>The changes filed at or below a counter of a peer, in counter order, and the rest.\<close>

definition filed_below :: "ID \<Rightarrow> ID \<times> storedChange \<Rightarrow> bool" where
  "filed_below d e \<longleftrightarrow> Peer (fst e) = Peer d \<and> sleq (Counter (fst e)) (Counter d)"

definition take_filed :: "ID \<Rightarrow> pending \<Rightarrow> storedChange list \<times> pending" where
  "take_filed d m =
     (map snd (sort_key (\<lambda>e. sint (Counter (fst e))) (filter (filed_below d) m)), filter (\<lambda>e. \<not> filed_below d e) m)"

lemma insertRemote_pending: "insertRemote c l = Inr l' \<Longrightarrow> lg_pending l' = lg_pending l"
  by (auto simp: insertRemote_def bindR_Inr_iff split: if_splits)

lemma applyRemote_pending: "applyRemote c l = Inr l' \<Longrightarrow> lg_pending l' = lg_pending l"
  by (auto simp: applyRemote_def apply_trimmed_def Let_def bindR_Inr_iff dest: insertRemote_pending split: option.splits)

text \<open>A try either files the change again or stacks one id.\<close>

definition work_left :: "ID list \<times> opLog \<Rightarrow> nat" where
  "work_left st = length (fst st) + 2 * length (lg_pending (snd st))"

lemma try_change_work: "try_change c st = Inr st' \<Longrightarrow> work_left st' \<le> work_left st + 2"
  by (cases st)
    (auto simp: try_change_def work_left_def park_def bindR_Inr_iff dest: applyRemote_pending split: applyState.splits)

lemma try_changes_work: "try_changes cs st = Inr st' \<Longrightarrow> work_left st' \<le> work_left st + 2 * length cs"
proof (induction cs arbitrary: st)
  case (Cons c cs)
  then obtain st1 where "try_change c st = Inr st1" "try_changes cs st1 = Inr st'" by (auto simp: bindR_Inr_iff)
  with Cons.IH [of st1] try_change_work [of c st st1] show ?case by simp
qed simp

lemma take_filed_count: "take_filed d m = (cs, rest) \<Longrightarrow> length cs + length rest = length m"
  using sum_length_filter_compl [of "filed_below d" m] by (auto simp: take_filed_def)

function applyPending :: "ID list \<Rightarrow> opLog \<Rightarrow> opLog res" where
  "applyPending [] l = Inr l"
| "applyPending (d # ids) l =
     (case take_filed d (lg_pending l) of (cs, rest) \<Rightarrow>
       bindR (try_changes cs (ids, l\<lparr>lg_pending := rest\<rparr>)) (\<lambda>st. applyPending (fst st) (snd st)))"
  by pat_completeness auto
termination
proof (relation "measure work_left")
  show "wf (measure work_left)" by simp
next
  fix d ids l cs rest st
  assume x: "(cs, rest) = take_filed d (lg_pending l)" and t: "try_changes cs (ids, l\<lparr>lg_pending := rest\<rparr>) = Inr st"
  have "length cs + length rest = length (lg_pending l)" using take_filed_count [OF x [symmetric]] .
  then show "((fst st, snd st), d # ids, l) \<in> measure work_left"
    using try_changes_work [OF t] by (simp add: work_left_def)
qed

declare applyPending.simps [simp del]

definition parkOrApply :: "storedChange list \<Rightarrow> opLog \<Rightarrow> opLog res" where
  "parkOrApply cs l = bindR (try_changes cs ([], l)) (\<lambda>(applied, l).
     if applied \<noteq> [] then applyPending applied l else Inr l)"

section \<open>Importing\<close>

definition sortByLamport :: "storedChange list \<Rightarrow> storedChange list" where
  "sortByLamport cs = rustSortUnstable (\<lambda>a b. sless (ch_Lamport (sto_ch a)) (ch_Lamport (sto_ch b))) cs"

text \<open>The first pass: the ids of the new changes, the last first, and the changes that wait.\<close>

fun import_pass :: "storedChange list \<Rightarrow> ID list \<Rightarrow> storedChange list \<Rightarrow> opLog \<Rightarrow> (ID list \<times> storedChange list \<times> opLog) res" where
  "import_pass [] latest waiting l = Inr (latest, waiting, l)"
| "import_pass (c # cs) latest waiting l =
     (if sleq (sto_end c) (vv_at (lg_vv l) (sto_peer c)) then import_pass cs latest waiting l
      else
        let latest = sto_lastID c # latest in
        case lamportFromDeps l (ch_Deps (sto_ch c)) of
          None \<Rightarrow> import_pass cs latest (waiting @ [c]) l
        | Some lam \<Rightarrow> bindR (apply_trimmed (setLamport lam c) l) (\<lambda>l. import_pass cs latest waiting l))"

definition appliedAtoms :: "opLog \<Rightarrow> i64" where
  "appliedAtoms l = sum_list (map snd (lg_vv l))"

definition importChanges :: "storedChange list \<Rightarrow> opLog \<Rightarrow> (bool \<times> opLog) res" where
  "importChanges changes l =
     (let before = appliedAtoms l in
      bindR (import_pass (sortByLamport changes) [] [] l) (\<lambda>(latest, waiting, l).
      bindR (applyPending latest l) (\<lambda>l.
      bindR (parkOrApply waiting l) (\<lambda>l. Inr (appliedAtoms l \<noteq> before, l)))))"

section \<open>Exporting\<close>

text \<open>
  A change as an export takes it; \<open>held\<close> is the export's view of the document's shared buffers. The
  export works on buffers of its own, so what it folds leaves the document's alone.
\<close>

record exporting =
  ex_store :: changeStore
  ex_held :: "nat \<Rightarrow> nat option"
  ex_bufs :: buffers

definition export_prov :: "Op \<Rightarrow> opProv \<Rightarrow> (nat \<Rightarrow> nat option) \<times> buffers \<Rightarrow> opProv \<times> (nat \<Rightarrow> nat option) \<times> buffers" where
  "export_prov op p st =
     (case st of (held, bufs) \<Rightarrow>
       if \<not> isListInsert op then (p, held, bufs)
       else (case pr_kind p of
           ProvList \<Rightarrow>
             if sint (op_Len op) > 1 then
               (case new_buf \<lparr>si_holders = 2, si_len = sint (op_Len op)\<rparr> bufs of (b, bufs) \<Rightarrow>
                 (\<lparr>pr_kind = ProvShared b, pr_gen = 0, pr_start = 0, pr_end = sint (op_Len op)\<rparr>, held, bufs))
             else (p, held, bufs)
         | ProvShared x \<Rightarrow>
             (case held x of
                Some b \<Rightarrow> (p\<lparr>pr_kind := ProvShared b\<rparr>, held, hold_buf 1 b bufs)
              | None \<Rightarrow>
                  (case new_buf (bf_at bufs x) bufs of (b, bufs) \<Rightarrow>
                    (p\<lparr>pr_kind := ProvShared b\<rparr>, held(x \<mapsto> b), hold_buf 1 b bufs)))
         | _ \<Rightarrow> (p, held, bufs)))"

fun export_provs :: "provOp list \<Rightarrow> (nat \<Rightarrow> nat option) \<times> buffers \<Rightarrow> opProv list \<times> (nat \<Rightarrow> nat option) \<times> buffers" where
  "export_provs [] st = ([], st)"
| "export_provs (a # as) st =
     (case export_prov (po_op a) (po_prov a) st of (p, st) \<Rightarrow> case export_provs as st of (ps, st) \<Rightarrow> (p # ps, st))"

definition exportedCopy :: "storedChange \<Rightarrow> exporting \<Rightarrow> storedChange \<times> exporting" where
  "exportedCopy c ex =
     (case export_provs (prov_ops c) (ex_held ex, ex_bufs ex) of (ps, held, bufs) \<Rightarrow>
       (c\<lparr>sto_prov := ps\<rparr>, ex\<lparr>ex_held := held, ex_bufs := bufs\<rparr>))"

definition export_insert :: "storedChange \<Rightarrow> exporting \<Rightarrow> exporting res" where
  "export_insert c ex = bindR (store_insert c False 0 (ex_store ex) (ex_bufs ex)) (\<lambda>(s, bufs).
     Inr (ex\<lparr>ex_store := s, ex_bufs := bufs\<rparr>))"

definition start_export :: "opLog \<Rightarrow> exporting" where
  "start_export l = \<lparr>ex_store = [], ex_held = Map.empty, ex_bufs = lg_bufs l\<rparr>"

definition exported_blocks :: "exporting \<Rightarrow> storedChange list list" where
  "exported_blocks ex = concat (map (\<lambda>p. map sb_changes (blocks_of (ex_store ex) p)) (sortedPeers (ex_store ex)))"

fun export_all :: "storedChange list \<Rightarrow> exporting \<Rightarrow> exporting res" where
  "export_all [] ex = Inr ex"
| "export_all (c # cs) ex = (case exportedCopy c ex of (c, ex) \<Rightarrow> bindR (export_insert c ex) (export_all cs))"

definition exportBlocks :: "opLog \<Rightarrow> storedChange list list res" where
  "exportBlocks l = bindR (export_all (store_changes (lg_store l)) (start_export l)) (\<lambda>ex. Inr (exported_blocks ex))"

definition cutChange :: "storedChange \<Rightarrow> i64 \<Rightarrow> exporting \<Rightarrow> (storedChange \<times> exporting) res" where
  "cutChange c lo ex =
     (case exportedCopy c ex of (out, ex) \<Rightarrow>
       if sleq lo (sto_start c) then Inr (out, ex)
       else bindR (sto_slice out (lo - sto_start c) (sto_end c - sto_start c)) (\<lambda>out. Inr (out, ex)))"

fun export_from :: "storedChange list \<Rightarrow> i64 \<Rightarrow> exporting \<Rightarrow> exporting res" where
  "export_from [] lo ex = Inr ex"
| "export_from (c # cs) lo ex =
     (if sleq (sto_end c) lo then export_from cs lo ex
      else bindR (cutChange c lo ex) (\<lambda>(cut, ex). bindR (export_insert cut ex) (export_from cs lo)))"

text \<open>\<open>known\<close> gives the end of what the receiver has of each peer; blocks it has whole are passed over.\<close>

fun export_peers :: "opLog \<Rightarrow> (u64 \<Rightarrow> i64 option) \<Rightarrow> u64 list \<Rightarrow> exporting \<Rightarrow> exporting res" where
  "export_peers l known [] ex = Inr ex"
| "export_peers l known (p # ps) ex =
     (let lo = smax (case known p of Some c \<Rightarrow> c | None \<Rightarrow> 0) 0 in
      if sleq (vv_at (lg_vv l) p) lo then export_peers l known ps ex
      else bindR (export_from (concat (map sb_changes (filter (\<lambda>b. \<not> sleq (sb_end b) lo) (blocks_of (lg_store l) p)))) lo ex)
        (export_peers l known ps))"

definition exportBlocksFrom :: "opLog \<Rightarrow> (u64 \<Rightarrow> i64 option) \<Rightarrow> storedChange list list res" where
  "exportBlocksFrom l known =
     bindR (export_peers l known (sortedPeers (lg_store l)) (start_export l)) (\<lambda>ex. Inr (exported_blocks ex))"

end
