(* ===== verification/OpLogProof.thy ===== *)
theory OpLogProof
  imports OpLog
begin

text \<open>
  What holds of a document's history after every change: the version says where the log of each
  peer ends, every op depends on ops that are there, and the frontiers are the last ops that no op
  depends on. Importing keeps it, changes nothing that was there, and leaves a change waiting only
  for an op that is missing.
\<close>

section \<open>Dependencies of atoms\<close>

definition deps_in :: "histAtom list \<Rightarrow> ID set" where
  "deps_in xs = (\<Union>x\<in>set xs. set (snd x))"

definition log_deps :: "changeStore \<Rightarrow> ID set" where
  "log_deps s = (\<Union>p. deps_in (store_atoms s p))"

lemma nth_atoms: "op_ok op \<Longrightarrow> k < op_len op \<Longrightarrow> fst (atoms op ! k) = op_Counter op + of_nat k \<and> fst (snd (atoms op ! k)) = op_Lamport op + of_nat k"
  by (simp add: atoms_def numbered_def)

lemma nth_ops_atoms:
  "chain p c l ops \<Longrightarrow> k < ops_len ops \<Longrightarrow> fst (ops_atoms ops ! k) = c + of_nat k \<and> fst (snd (ops_atoms ops ! k)) = l + of_nat k"
proof (induction ops arbitrary: c l k)
  case (Cons op ops)
  have ok: "op_ok op" "op_Counter op = c" "op_Lamport op = l" and ch: "chain p (c + op_Len op) (l + op_Len op) ops" using Cons.prems by simp_all
  note ol = op_ok_len [OF ok(1)]
  have app: "ops_atoms (op # ops) ! k = (if k < op_len op then atoms op ! k else ops_atoms ops ! (k - op_len op))"
    by (simp add: nth_append)
  show ?case
  proof (cases "k < op_len op")
    case True
    then show ?thesis using nth_atoms [OF ok(1) True] unfolding app ok by simp
  next
    case False
    have k: "k - op_len op < ops_len ops" using Cons.prems(2) False by simp
    have "(of_nat k :: i64) = of_nat (op_len op + (k - op_len op))" using False by simp
    then have "(of_nat k :: i64) = op_Len op + of_nat (k - op_len op)" using ol by (simp only: of_nat_add)
    then show ?thesis using Cons.IH [OF ch k] False unfolding app by (simp add: add.assoc)
  qed
qed simp

text \<open>The atoms of a change, by their place in it.\<close>

lemma nth_change_atoms:
  assumes c: "change_ok c" and k: "k < ops_len (sto_ops c)"
  shows "fst (fst (change_atoms c ! k)) = sto_start c + of_nat k" and "fst (snd (fst (change_atoms c ! k))) = ch_Lamport (sto_ch c) + of_nat k"
    and "snd (change_atoms c ! k) = (if k = 0 then ch_Deps (sto_ch c) else [\<lparr>Peer = sto_peer c, Counter = sto_start c + of_nat k - 1\<rparr>])"
proof -
  note n = nth_ops_atoms [OF change_okD(2) [OF c]]
  obtain x xs where xs: "ops_atoms (sto_ops c) = x # xs" using k by (cases "ops_atoms (sto_ops c)") (auto simp: length_ops_atoms [symmetric] simp del: length_ops_atoms)
  have l: "length xs = ops_len (sto_ops c) - 1" using arg_cong [OF xs, of length] by simp
  show "fst (fst (change_atoms c ! k)) = sto_start c + of_nat k" "fst (snd (fst (change_atoms c ! k))) = ch_Lamport (sto_ch c) + of_nat k"
    "snd (change_atoms c ! k) = (if k = 0 then ch_Deps (sto_ch c) else [\<lparr>Peer = sto_peer c, Counter = sto_start c + of_nat k - 1\<rparr>])"
    using n [OF k] l k by (cases k; simp add: change_atoms_def xs)+
qed

lemma change_place:
  assumes c: "change_ok c" and k: "k < ops_len (sto_ops c)"
  shows "sint (sto_start c + of_nat k) = sint (sto_start c) + int k" and "k < 2 ^ 63"
proof -
  note cd = change_okD [OF c]
  have "int k < int (ops_len (sto_ops c))" "int (ops_len (sto_ops c)) \<le> sint (sto_end c)" using k cd(4,7) by simp_all
  then have b: "int k < 2 ^ 62" "sint (sto_start c) + int k < 2 ^ 62" using cd(4,6,7) by linarith+
  then show "k < 2 ^ 63" by simp
  then have "sint (of_nat k :: i64) = int k" by (rule sint_of_nat_small)
  then show "sint (sto_start c + of_nat k) = sint (sto_start c) + int k" using b cd(4) by (subst sint_add) simp_all
qed

lemma sint_pred: "0 \<le> sint x \<Longrightarrow> sint (x - 1 :: i64) = sint x - 1"
  using sint_i64_range [of x] by (subst sint_diff) simp_all

lemma change_deps:
  assumes c: "change_ok c"
  shows "d \<in> deps_in (change_atoms c) \<longleftrightarrow> d \<in> set (ch_Deps (sto_ch c)) \<or>
    Peer d = sto_peer c \<and> sint (sto_start c) \<le> sint (Counter d) \<and> sint (Counter d) < sint (sto_end c) - 1"
proof -
  note cd = change_okD [OF c]
  let ?n = "ops_len (sto_ops c)"
  have n: "0 < ?n" using cd(5,7) by simp
  have m: "d \<in> deps_in (change_atoms c) \<longleftrightarrow> (\<exists>k<?n. d \<in> set (snd (change_atoms c ! k)))"
    unfolding deps_in_def UN_iff bex_nth length_change_atoms by (rule refl)
  have own: "d = \<lparr>Peer = sto_peer c, Counter = sto_start c + of_nat k - 1\<rparr> \<longleftrightarrow> Peer d = sto_peer c \<and> sint (Counter d) = sint (sto_start c) + int k - 1"
    if k: "k < ?n" for k
  proof -
    have "sint (sto_start c + of_nat k - 1) = sint (sto_start c) + int k - 1"
      using change_place [OF c k] cd(4) by (subst sint_pred) simp_all
    then show ?thesis by (cases d) (auto simp: sint_eq [symmetric])
  qed
  show ?thesis
  proof
    assume "d \<in> deps_in (change_atoms c)"
    then obtain k where k: "k < ?n" "d \<in> set (snd (change_atoms c ! k))" using m by blast
    then show "d \<in> set (ch_Deps (sto_ch c)) \<or> Peer d = sto_peer c \<and> sint (sto_start c) \<le> sint (Counter d) \<and> sint (Counter d) < sint (sto_end c) - 1"
      using nth_change_atoms(3) [OF c k(1)] own [OF k(1)] cd(7) by (cases "k = 0") auto
  next
    assume "d \<in> set (ch_Deps (sto_ch c)) \<or> Peer d = sto_peer c \<and> sint (sto_start c) \<le> sint (Counter d) \<and> sint (Counter d) < sint (sto_end c) - 1"
    then show "d \<in> deps_in (change_atoms c)"
    proof
      assume "d \<in> set (ch_Deps (sto_ch c))"
      then show ?thesis using m n nth_change_atoms(3) [OF c n] by auto
    next
      assume a: "Peer d = sto_peer c \<and> sint (sto_start c) \<le> sint (Counter d) \<and> sint (Counter d) < sint (sto_end c) - 1"
      define k where "k = nat (sint (Counter d) - sint (sto_start c) + 1)"
      have k: "k < ?n" "0 < k" "sint (Counter d) = sint (sto_start c) + int k - 1" using a cd(7) unfolding k_def by linarith+
      then show ?thesis using m own [OF k(1)] nth_change_atoms(3) [OF c k(1)] a by auto
    qed
  qed
qed

lemma deps_in_append [simp]: "deps_in (xs @ ys) = deps_in xs \<union> deps_in ys"
  by (simp add: deps_in_def)

lemma log_deps_inserted: "inserted c s s' \<Longrightarrow> log_deps s' = log_deps s \<union> deps_in (change_atoms c)"
  by (auto simp: log_deps_def inserted_def split: if_splits)

section \<open>The invariant\<close>

text \<open>The heads: of each peer the last op, unless an op depends on it.\<close>

definition heads_of :: "opLog \<Rightarrow> u64 \<Rightarrow> i64 option" where
  "heads_of l q =
     (case gm_get (lg_vv l) q of
        None \<Rightarrow> None
      | Some e \<Rightarrow> if \<lparr>Peer = q, Counter = e - 1\<rparr> \<in> log_deps (lg_store l) then None else Some (e - 1))"

definition oplog_ok :: "opLog \<Rightarrow> bool" where
  "oplog_ok l \<longleftrightarrow> store_ok (lg_store l) \<and> gm_ok (lg_vv l) \<and> (\<forall>p. gm_get (lg_vv l) p = map_option fst (tip (lg_store l) p)) \<and>
     fr_ok (lg_fr l) \<and> fr_map (lg_fr l) = heads_of l \<and> fx_ok (lg_vvTab l) \<and> (\<forall>d\<in>log_deps (lg_store l). log_has l d)"

text \<open>The hash table holds the version; a local commit brings it up to date later.\<close>

definition tab_ok :: "opLog \<Rightarrow> bool" where
  "tab_ok l \<longleftrightarrow> fx_map (lg_vvTab l) = gm_get (lg_vv l)"

text \<open>A change as an import hands it on.\<close>

definition import_ok :: "storedChange \<Rightarrow> bool" where
  "import_ok c \<longleftrightarrow> change_ok c \<and> distinct (ch_Deps (sto_ch c)) \<and> length (ch_Deps (sto_ch c)) \<le> 1023"

lemma vv_ends:
  assumes "oplog_ok l" and "gm_get (lg_vv l) p = Some e"
  shows "0 < sint e" and "sint e < 2 ^ 62"
proof -
  obtain lam where t: "tip (lg_store l) p = Some (e, lam)" using assms by (auto simp: oplog_ok_def)
  then have ne: "peer_log (lg_store l) p \<noteq> []" "e = sto_end (last (peer_log (lg_store l) p))"
    by (auto simp: tip_def change_tip_def split: if_splits)
  have "log_ok p (peer_log (lg_store l) p)" using assms(1) by (simp add: oplog_ok_def store_ok_def)
  then have "change_ok (last (peer_log (lg_store l) p))" using ne(1) by (simp add: log_ok_def)
  from change_okD(4-6) [OF this] show "0 < sint e" "sint e < 2 ^ 62" unfolding ne(2) by linarith+
qed

lemma vv_at_cases: "vv_at (lg_vv l) p = (case gm_get (lg_vv l) p of None \<Rightarrow> 0 | Some e \<Rightarrow> e)"
  by (simp add: vv_at_def)

lemma vv_nonneg: "oplog_ok l \<Longrightarrow> 0 \<le> sint (vv_at (lg_vv l) p) \<and> sint (vv_at (lg_vv l) p) < 2 ^ 62"
  using vv_ends [of l p] by (cases "gm_get (lg_vv l) p") (auto simp: vv_at_cases less_imp_le)

end
