(* ===== verification/LogImport.thy ===== *)
theory LogImport
  imports OpLogProof
begin

text \<open>
  Importing into a history keeps its invariant: one change put in, the part of a change that is known
  already cut off, and the three passes of \<open>importChanges\<close>. What an import was given is then applied
  or waits for an op that is missing, and the only failures are the two that \<open>insertRemote\<close> reports.
\<close>

section \<open>One change\<close>

text \<open>What a change put in does to the history.\<close>

definition put_in :: "storedChange \<Rightarrow> opLog \<Rightarrow> opLog \<Rightarrow> bool" where
  "put_in c l l' \<longleftrightarrow> oplog_ok l' \<and> (tab_ok l \<longrightarrow> tab_ok l') \<and> lg_pending l' = lg_pending l \<and>
     store_atoms (lg_store l') = (store_atoms (lg_store l))(sto_peer c := store_atoms (lg_store l) (sto_peer c) @ change_atoms c) \<and>
     gm_get (lg_vv l') = (gm_get (lg_vv l))(sto_peer c \<mapsto> sto_end c)"

definition next_in :: "opLog \<Rightarrow> storedChange \<Rightarrow> bool" where
  "next_in l c \<longleftrightarrow> import_ok c \<and> (\<forall>d\<in>set (ch_Deps (sto_ch c)). log_has l d) \<and> sint (vv_at (lg_vv l) (sto_peer c)) \<le> sint (sto_start c)"

lemma next_inD:
  assumes "next_in l c"
  shows "import_ok c" and "change_ok c" and "distinct (ch_Deps (sto_ch c))" and "length (ch_Deps (sto_ch c)) \<le> 1023"
    and "\<And>d. d \<in> set (ch_Deps (sto_ch c)) \<Longrightarrow> log_has l d" and "sint (vv_at (lg_vv l) (sto_peer c)) \<le> sint (sto_start c)"
  using assms by (simp_all add: next_in_def import_ok_def)

lemma last_counter: "change_ok c \<Longrightarrow> sint (Counter (sto_lastID c)) = sint (sto_end c) - 1"
  using change_okD(4-6) [of c] by (simp add: sto_lastID_def sint_pred)

lemma bex_ID: "(\<exists>i\<in>A. Peer i = q \<and> k = Counter i) \<longleftrightarrow> \<lparr>Peer = q, Counter = k\<rparr> \<in> A"
proof
  assume "\<exists>i\<in>A. Peer i = q \<and> k = Counter i"
  then obtain i where i: "i \<in> A" "Peer i = q" "k = Counter i" by blast
  then have "i = \<lparr>Peer = q, Counter = k\<rparr>" by (simp add: ID_eq_iff)
  with i(1) show "\<lparr>Peer = q, Counter = k\<rparr> \<in> A" by simp
qed (auto intro: bexI [of _ "\<lparr>Peer = q, Counter = k\<rparr>"])

text \<open>The frontiers advance to the heads of the longer history.\<close>

lemma heads_advance:
  assumes ok: "oplog_ok l" and c: "next_in l c"
    and ins: "inserted c (lg_store l) (lg_store l')" and vv: "gm_get (lg_vv l') = (gm_get (lg_vv l))(sto_peer c \<mapsto> sto_end c)"
  shows "advance_heads (sto_lastID c) (ch_Deps (sto_ch c)) (heads_of l) = heads_of l'"
proof
  fix q
  note nd = next_inD [OF c]
  note cd = change_okD [OF nd(2)]
  let ?ds = "ch_Deps (sto_ch c)" and ?p = "sto_peer c"
  have ld: "x \<in> log_deps (lg_store l') \<longleftrightarrow> x \<in> log_deps (lg_store l) \<or> x \<in> set ?ds \<or>
      Peer x = ?p \<and> sint (sto_start c) \<le> sint (Counter x) \<and> sint (Counter x) < sint (sto_end c) - 1" for x
    unfolding log_deps_inserted [OF ins] Un_iff change_deps [OF nd(2)] by (rule refl)
  have had: "log_has l x" if "x \<in> log_deps (lg_store l) \<or> x \<in> set ?ds" for x
    using ok nd(5) that by (auto simp: oplog_ok_def)
  have del: "foldl del_entry (heads_of l) ?ds q =
      (case heads_of l q of None \<Rightarrow> None | Some k \<Rightarrow> if \<lparr>Peer = q, Counter = k\<rparr> \<in> set ?ds then None else Some k)"
    by (cases "heads_of l q") (simp_all add: foldl_del_entry bex_ID)
  show "advance_heads (sto_lastID c) ?ds (heads_of l) q = heads_of l' q"
  proof (cases "q = ?p")
    case True
    have lst: "sto_lastID c = \<lparr>Peer = ?p, Counter = sto_end c - 1\<rparr>" by (simp add: sto_lastID_def)
    have "\<not> log_has l (sto_lastID c)" using nd(6) cd(5) last_counter [OF nd(2)] by (simp add: log_has_def sto_lastID_def)
    then have "sto_lastID c \<notin> log_deps (lg_store l')" using had last_counter [OF nd(2)] unfolding ld by fastforce
    then have new: "heads_of l' q = Some (sto_end c - 1)" using True vv by (simp add: heads_of_def lst)
    have old: "sint k < sint (sto_end c - 1)" if "foldl del_entry (heads_of l) ?ds q = Some k" for k
    proof -
      have "heads_of l q = Some k" using that unfolding del by (auto split: option.splits if_splits)
      then obtain e where e: "gm_get (lg_vv l) q = Some e" "k = e - 1" by (auto simp: heads_of_def split: option.splits if_splits)
      have "sint k = sint e - 1" using vv_ends(1) [OF ok e(1)] e(2) by (simp add: sint_pred)
      moreover have "vv_at (lg_vv l) ?p = e" using e(1) True by (simp add: vv_at_cases)
      ultimately have "sint k < sint (sto_start c)" using nd(6) by simp
      then show ?thesis using cd(4,5) by (simp add: sint_pred)
    qed
    have "smax k (sto_end c - 1) = sto_end c - 1" if "sint k < sint (sto_end c - 1)" for k using that by (simp add: smax_def)
    moreover have "heads_of l' ?p = Some (sto_end c - 1)" using new True by simp
    ultimately show ?thesis using old True by (auto simp: advance_heads_def max_entry_def lst split: option.splits)
  next
    case False
    have "heads_of l' q = (case heads_of l q of None \<Rightarrow> None | Some k \<Rightarrow> if \<lparr>Peer = q, Counter = k\<rparr> \<in> set ?ds then None else Some k)"
      using False by (auto simp: heads_of_def vv ld split: option.splits)
    then show ?thesis using False by (simp add: advance_heads_def max_entry_def sto_lastID_def del)
  qed
qed

lemma tip_last: "tip s p = Some (e, lam) \<Longrightarrow> peer_log s p \<noteq> [] \<and> change_tip (last (peer_log s p)) = (e, lam)"
  by (simp add: tip_def split: if_splits)

text \<open>A change whose lamport does not break its peer's goes in.\<close>

lemma next_continues:
  assumes ok: "oplog_ok l" and c: "next_in l c" and lam: "\<not> lamport_breaks l c"
  shows "continues (lg_store l) c"
proof (cases "tip (lg_store l) (sto_peer c)")
  case (Some t)
  obtain e m where t: "t = (e, m)" by (cases t)
  let ?p = "sto_peer c" and ?log = "peer_log (lg_store l) (sto_peer c)"
  note nd = next_inD [OF c]
  have so: "store_ok (lg_store l)" using ok by (simp add: oplog_ok_def)
  have v: "gm_get (lg_vv l) ?p = Some e" using ok Some t by (simp add: oplog_ok_def)
  have "vv_at (lg_vv l) ?p = e" using v by (simp add: vv_at_cases)
  then have le: "sint e \<le> sint (sto_start c)" using nd(6) by simp
  moreover have "ch_Lamport (sto_ch c) = m" if own: "e = sto_start c" "ch_Deps (sto_ch c) = [own_prev c]"
  proof -
    have lst: "?log \<noteq> []" "change_tip (last ?log) = (e, m)" using tip_last [of "lg_store l" ?p] Some t by simp_all
    have lo: "log_ok ?p ?log" using so by (simp add: store_ok_def)
    let ?a = "last ?log"
    have a: "change_ok ?a" "sto_peer ?a = ?p" using lo lst(1) by (simp_all add: log_ok_def)
    have ends: "sto_end ?a = sto_start c" "m = ch_Lamport (sto_ch ?a) + (sto_end ?a - sto_start ?a)" using lst(2) own(1) by (auto simp: change_tip_def)
    have prev: "sint (Counter (own_prev c)) = sint (sto_start c) - 1" "Peer (own_prev c) = ?p"
      using change_okD(4) [OF nd(2)] by (simp_all add: own_prev_def sint_pred)
    have ina: "in_change ?a (own_prev c)" using change_okD(5) [OF a(1)] a(2) prev ends(1) by (simp add: in_change_def)
    have uniq: "x = ?a" if x: "x \<in> set ?log" "in_change x (own_prev c)" for x
    proof (rule ccontr)
      assume "x \<noteq> ?a"
      obtain bl where bl: "?log = bl @ [?a]" using lst(1) append_butlast_last_id by metis
      then have "x \<in> set bl" using x(1) \<open>x \<noteq> ?a\<close> by (metis Un_iff empty_iff empty_set insert_iff list.simps(15) set_append)
      then have "sint (sto_end x) \<le> sint (sto_start ?a)" using lo bl by (metis log_ok_cross append_Nil2 list.set_intros(1))
      then show False using x(2) ina by (simp add: in_change_def)
    qed
    have "store_find (lg_store l) (own_prev c) = Some ?a"
      using store_find_ok [OF so, of "own_prev c"] uniq ina lst(1) last_in_set [OF lst(1)] prev(2)
      by (auto split: option.splits)
    then have "lamportOf l (own_prev c) = Some (m - 1)"
      using ends by (simp add: lamportOf_def own_prev_def)
    then show ?thesis using lam own(2) by (simp add: lamport_breaks_def own_prev_def)
  qed
  ultimately show ?thesis by (simp add: continues_def Some t)
qed (simp add: continues_def)

text \<open>What is reported is always one of the two messages; nothing panics and every loop ends.\<close>

definition fine :: "('a \<Rightarrow> bool) \<Rightarrow> 'a res \<Rightarrow> bool" where
  "fine Q r = (case r of Inl e \<Rightarrow> \<exists>msg. e = Errorf msg | Inr x \<Rightarrow> Q x)"

lemma fine_simps [simp]: "fine Q (Inr x) = Q x" "fine Q (Inl (Errorf msg))" "fine Q (Inl GoPanic) = False" "fine Q (Inl OutOfFuel) = False"
  by (simp_all add: fine_def)

lemma fine_bindR: "fine P r \<Longrightarrow> (\<And>x. P x \<Longrightarrow> fine Q (f x)) \<Longrightarrow> fine Q (bindR r f)"
  by (cases r) (auto simp: fine_def)

lemma fine_mono: "fine P r \<Longrightarrow> (\<And>x. P x \<Longrightarrow> Q x) \<Longrightarrow> fine Q r"
  by (cases r) (auto simp: fine_def)

lemma fineD: "fine Q r \<Longrightarrow> r = Inr x \<Longrightarrow> Q x"
  by simp

lemma insertRemote_ok:
  assumes ok: "oplog_ok l" and c: "next_in l c"
  shows "fine (put_in c l) (insertRemote c l)"
proof (cases "lamport_breaks l c \<or> sint (ch_Lamport (sto_ch c) + (sto_end c - sto_start c)) > 4294967295")
  case False
  note nd = next_inD [OF c]
  note cd = change_okD [OF nd(2)]
  let ?p = "sto_peer c" and ?e = "\<lparr>Peer = sto_peer c, Counter = sto_end c\<rparr>"
  note o = ok [unfolded oplog_ok_def]
  obtain fr where fr: "updateOnNewChange (sto_lastID c) (ch_Deps (sto_ch c)) (lg_fr l) = Some fr" "fr_ok fr"
    "fr_map fr = advance_heads (sto_lastID c) (ch_Deps (sto_ch c)) (fr_map (lg_fr l))"
    using updateOnNewChange_ok nd(3) o by blast
  obtain tab where tab: "insertMax ?e (lg_vvTab l) = Some tab" "fx_ok tab" "fx_map tab = max_entry (fx_map (lg_vvTab l)) ?e"
    using insertMax_ok o by blast
  obtain s bufs where s: "store_insert c True 0 (lg_store l) (lg_bufs l) = Inr (s, bufs)" "inserted c (lg_store l) s"
    using store_insert_ok [OF _ nd(2) next_continues [OF ok c] nd(4)] o False by blast
  let ?l = "l\<lparr>lg_fr := fr, lg_vv := gm_put ?p (sto_end c) (lg_vv l), lg_vvTab := tab, lg_store := s, lg_bufs := bufs\<rparr>"
  have code: "insertRemote c l = Inr ?l" using False fr(1) tab(1) s(1) by (simp add: insertRemote_def of_loop_def)
  have vv: "gm_get (lg_vv ?l) = (gm_get (lg_vv l))(?p \<mapsto> sto_end c)" by (auto simp: gm_get_put)
  have heads: "fr_map fr = heads_of ?l" using heads_advance [OF ok c, of ?l] s(2) vv o fr(3) by simp
  have at: "vv_at (gm_put ?p (sto_end c) (lg_vv l)) q = (if q = ?p then sto_end c else vv_at (lg_vv l) q)" for q by (simp add: vv_at_def gm_get_put)
  have grew: "log_has ?l d" if "log_has l d" for d
    using that nd(6) cd(5) by (auto simp: log_has_def at)
  have "log_has ?l d" if "d \<in> log_deps s" for d
  proof -
    have "d \<in> log_deps (lg_store l) \<or> d \<in> set (ch_Deps (sto_ch c)) \<or> Peer d = ?p \<and> sint (Counter d) < sint (sto_end c) - 1"
      using that unfolding log_deps_inserted [OF s(2)] Un_iff change_deps [OF nd(2)] by blast
    then consider "log_has l d" | "Peer d = ?p" "sint (Counter d) < sint (sto_end c) - 1" using nd(5) o by blast
    then show ?thesis using grew by cases (simp_all add: log_has_def at)
  qed
  moreover have "gm_get (lg_vv ?l) q = map_option fst (tip s q)" for q
    using o s(2) by (auto simp: gm_get_put inserted_def change_tip_def)
  ultimately have "oplog_ok ?l" using o s(2) fr(2) tab(2) heads by (simp add: oplog_ok_def inserted_def gm_put_ok)
  moreover have "tab_ok ?l" if t: "tab_ok l"
  proof -
    have "smax k (sto_end c) = sto_end c" if "gm_get (lg_vv l) ?p = Some k" for k
    proof -
      have "vv_at (lg_vv l) ?p = k" using that by (simp add: vv_at_cases)
      then show ?thesis using nd(6) cd(5) by (simp add: smax_def)
    qed
    then show ?thesis using t by (auto simp: tab_ok_def tab(3) max_entry_def gm_get_put fun_eq_iff split: option.splits)
  qed
  ultimately show ?thesis using s(2) vv by (simp add: code put_in_def inserted_def)
qed (auto simp: insertRemote_def)

text \<open>The part of a change that is not known yet.\<close>

lemma trimKnown_ok:
  assumes ok: "oplog_ok l" and c: "import_ok c" and ds: "\<forall>d\<in>set (ch_Deps (sto_ch c)). log_has l d"
  shows "\<exists>r. trimKnown l c = Inr r \<and> (case r of
      None \<Rightarrow> sint (sto_end c) \<le> sint (vv_at (lg_vv l) (sto_peer c))
    | Some t \<Rightarrow> next_in l t \<and> sto_peer t = sto_peer c \<and> sto_end t = sto_end c \<and>
        change_atoms t = drop (nat (sint (vv_at (lg_vv l) (sto_peer c)) - sint (sto_start c))) (change_atoms c))"
proof (cases "gm_get (lg_vv l) (sto_peer c)")
  case None
  have "0 \<le> sint (sto_start c)" using c change_okD(4) by (simp add: import_ok_def)
  then show ?thesis using None c ds by (simp add: trimKnown_def next_in_def vv_at_cases)
next
  case (Some e)
  have ch: "change_ok c" using c by (simp add: import_ok_def)
  note cd = change_okD [OF ch]
  have at: "vv_at (lg_vv l) (sto_peer c) = e" using Some by (simp add: vv_at_cases)
  consider "sint e \<le> sint (sto_start c)" | "sint (sto_start c) < sint e" "sint (sto_end c) \<le> sint e"
    | "sint (sto_start c) < sint e" "sint e < sint (sto_end c)" by linarith
  then show ?thesis
  proof cases
    case 3
    let ?a = "nat (sint e - sint (sto_start c))" and ?n = "ops_len (sto_ops c)"
    have a: "0 < ?a" "?a < ?n" using 3 cd(7) by linarith+
    have w: "e - sto_start c = of_nat ?a" "sto_end c - sto_start c = of_nat ?n"
    proof -
      have "(of_nat ?a :: i64) = of_int (sint e - sint (sto_start c))" using 3 by simp
      then show "e - sto_start c = of_nat ?a" by (simp only: of_int_diff of_sint)
      have "sto_end c = sto_start c + of_int (int ?n)" using word_eq_add cd(7) by blast
      then show "sto_end c - sto_start c = of_nat ?n" by simp
    qed
    obtain t where t: "sto_slice c (of_nat ?a) (of_nat ?n) = Inr t" "change_ok t" "sto_peer t = sto_peer c"
      "change_atoms t = take (?n - ?a) (drop ?a (change_atoms c))" "sto_start t = sto_start c + of_nat ?a" "sto_end t = sto_start c + of_nat ?n"
      using sto_slice_ok [OF ch a(2) order_refl] by blast
    have st: "sto_start t = e" "sto_end t = sto_end c" using t(5,6) w by (simp_all add: algebra_simps)
    have ats: "change_atoms t = drop ?a (change_atoms c)" using t(4) by (simp add: length_change_atoms)
    have "ops_len (sto_ops t) = length (change_atoms t)" by (simp add: length_change_atoms)
    then have "0 < ops_len (sto_ops t)" using a by (simp add: ats length_change_atoms)
    from nth_change_atoms(3) [OF t(2) this] have "ch_Deps (sto_ch t) = snd (change_atoms t ! 0)" by simp
    also have "\<dots> = [\<lparr>Peer = sto_peer c, Counter = sto_start c + of_nat ?a - 1\<rparr>]"
      using nth_change_atoms(3) [OF ch a(2)] a by (simp add: ats length_change_atoms)
    finally have ds': "ch_Deps (sto_ch t) = [\<lparr>Peer = sto_peer c, Counter = e - 1\<rparr>]" using w(1) by (simp add: algebra_simps)
    have "sint (e - 1) < sint e" using 3 cd(4) by (simp add: sint_pred)
    then have "next_in l t" unfolding next_in_def import_ok_def ds' log_has_def t(3) st at using t(2) by (simp add: at)
    moreover have "trimKnown l c = bindR (sto_slice c (e - sto_start c) (sto_end c - sto_start c)) (\<lambda>c. Inr (Some c))"
      using 3 Some by (simp add: trimKnown_def)
    then have "trimKnown l c = Inr (Some t)" unfolding w t(1) by simp
    ultimately show ?thesis using t(3) st(2) ats unfolding at by (intro exI [of _ "Some t"]) simp
  next
    case 1
    then show ?thesis using Some c ds unfolding at by (simp add: trimKnown_def next_in_def at)
  next
    case 2
    then show ?thesis using Some unfolding at by (simp add: trimKnown_def)
  qed
qed

end
