(* ===== verification/LogPasses.thy ===== *)
theory LogPasses
  imports LogImport
begin

text \<open>
  The passes of \<open>importChanges\<close>: changes tried in turn, the stack of applied ids, and the changes
  that wait.
\<close>

section \<open>Many changes\<close>

lemma setLamport_same [simp]:
  "sto_peer (setLamport m c) = sto_peer c" "sto_start (setLamport m c) = sto_start c" "sto_end (setLamport m c) = sto_end c"
  "sto_lastID (setLamport m c) = sto_lastID c" "ch_Deps (sto_ch (setLamport m c)) = ch_Deps (sto_ch c)"
proof -
  show s: "sto_peer (setLamport m c) = sto_peer c" "sto_start (setLamport m c) = sto_start c"
    "ch_Deps (sto_ch (setLamport m c)) = ch_Deps (sto_ch c)"
    by (simp_all add: setLamport_def Let_def sto_peer_def sto_start_def)
  show "sto_end (setLamport m c) = sto_end c" by (simp add: setLamport_def Let_def sto_end_def foldl_map)
  with s show "sto_lastID (setLamport m c) = sto_lastID c" by (simp add: sto_lastID_def)
qed

lemma op_ok_lamport [simp]: "op_ok (op\<lparr>op_Lamport := m\<rparr>) = op_ok op"
proof -
  have l: "isListInsert (op\<lparr>op_Lamport := m\<rparr>) = isListInsert op" by (simp add: isListInsert_def)
  have "op_shape (op\<lparr>op_Lamport := m\<rparr>) = op_shape op" unfolding op_shape_def l op_len_def by simp
  then show ?thesis unfolding op_ok_def cuttable_def l by simp
qed

lemma chain_setLamport:
  "chain p k m ops \<Longrightarrow> chain p k (n + (k - s)) (map (\<lambda>op. op\<lparr>op_Lamport := n + (op_Counter op - s)\<rparr>) ops)"
proof (induction ops arbitrary: k m)
  case (Cons op ops)
  have "chain p (k + op_Len op) (n + (k + op_Len op - s)) (map (\<lambda>op. op\<lparr>op_Lamport := n + (op_Counter op - s)\<rparr>) ops)"
    using Cons by auto
  then show ?case using Cons.prems by (simp add: algebra_simps)
qed simp

lemma setLamport_ok: "change_ok c \<Longrightarrow> change_ok (setLamport m c)"
proof -
  assume c: "change_ok c"
  have "sto_start c = Counter (ch_ID (sto_ch c))" by (simp add: sto_start_def)
  then have "sto_ops (setLamport m c) = map (\<lambda>op. op\<lparr>op_Lamport := m + (op_Counter op - sto_start c)\<rparr>) (sto_ops c)"
    "ch_Lamport (sto_ch (setLamport m c)) = m" "sto_prov (setLamport m c) = sto_prov c"
    by (simp_all add: setLamport_def Let_def)
  then show "change_ok (setLamport m c)"
    using c chain_setLamport [OF change_okD(2) [OF c], of m "sto_start c"] by (simp add: change_ok_def piece_ok_def)
qed

lemma setLamport_import_ok: "import_ok c \<Longrightarrow> import_ok (setLamport m c)"
  by (simp add: import_ok_def setLamport_ok)

text \<open>What every step of an import keeps: the log of a peer only grows at its end.\<close>

definition grown :: "opLog \<Rightarrow> opLog \<Rightarrow> bool" where
  "grown l l' \<longleftrightarrow> oplog_ok l' \<and> (tab_ok l \<longrightarrow> tab_ok l') \<and> (\<forall>d. log_has l d \<longrightarrow> log_has l' d) \<and>
     (\<forall>p. \<exists>xs. store_atoms (lg_store l') p = store_atoms (lg_store l) p @ xs)"

lemma grown_refl: "oplog_ok l \<Longrightarrow> grown l l"
  by (simp add: grown_def)

lemma grown_trans: "grown a b \<Longrightarrow> grown b c \<Longrightarrow> grown a c"
  by (simp add: grown_def) (metis append.assoc)

lemma grown_vv: "grown l l' \<Longrightarrow> sint (vv_at (lg_vv l) p) \<le> sint (vv_at (lg_vv l') p)"
proof (rule ccontr)
  assume g: "grown l l'" and "\<not> ?thesis"
  then have "sint (vv_at (lg_vv l') p) < sint (vv_at (lg_vv l) p)" by simp
  then have "log_has l \<lparr>Peer = p, Counter = vv_at (lg_vv l') p\<rparr>" by (simp add: log_has_def)
  with g have "log_has l' \<lparr>Peer = p, Counter = vv_at (lg_vv l') p\<rparr>" by (simp add: grown_def)
  then show False by (simp add: log_has_def)
qed

text \<open>What one change applied does.\<close>

definition took :: "storedChange \<Rightarrow> opLog \<Rightarrow> opLog \<Rightarrow> bool" where
  "took c l l' \<longleftrightarrow> grown l l' \<and> lg_pending l' = lg_pending l \<and>
     (\<forall>p. vv_at (lg_vv l') p = (if p = sto_peer c then smax (vv_at (lg_vv l) p) (sto_end c) else vv_at (lg_vv l) p))"

lemma put_in_took:
  assumes "put_in t l l'" and "next_in l t" and "oplog_ok l" and "sto_peer t = sto_peer c" and "sto_end t = sto_end c"
  shows "took c l l'"
proof -
  note nd = next_inD [OF assms(2)]
  note td = change_okD [OF nd(2)]
  have at: "vv_at (lg_vv l') p = (if p = sto_peer c then sto_end c else vv_at (lg_vv l) p)" for p
    using assms(1,4,5) by (simp add: put_in_def vv_at_def)
  have e: "sint (vv_at (lg_vv l) (sto_peer c)) < sint (sto_end c)" using nd(6) td(5) assms(4,5) by simp
  then have "log_has l' d" if "log_has l d" for d using that by (auto simp: log_has_def at)
  then have "grown l l'" using assms(1) by (auto simp: grown_def put_in_def)
  then show ?thesis using assms(1) e by (simp add: took_def put_in_def at smax_def)
qed

lemma apply_trimmed_ok:
  assumes ok: "oplog_ok l" and c: "import_ok c" and ds: "\<forall>d\<in>set (ch_Deps (sto_ch c)). log_has l d"
  shows "fine (took c l) (apply_trimmed c l)"
proof -
  obtain r where r: "trimKnown l c = Inr r" "case r of
      None \<Rightarrow> sint (sto_end c) \<le> sint (vv_at (lg_vv l) (sto_peer c))
    | Some t \<Rightarrow> next_in l t \<and> sto_peer t = sto_peer c \<and> sto_end t = sto_end c \<and>
        change_atoms t = drop (nat (sint (vv_at (lg_vv l) (sto_peer c)) - sint (sto_start c))) (change_atoms c)"
    using trimKnown_ok [OF ok c ds] by blast
  show ?thesis
  proof (cases r)
    case None
    then have "took c l l" using r(2) ok by (simp add: took_def grown_refl smax_def)
    then show ?thesis using r(1) None by (simp add: apply_trimmed_def)
  next
    case (Some t)
    then have t: "next_in l t" "sto_peer t = sto_peer c" "sto_end t = sto_end c" using r(2) by simp_all
    have "fine (took c l) (insertRemote t l)"
      by (rule fine_mono [OF insertRemote_ok [OF ok t(1)]]) (rule put_in_took [OF _ t(1) ok t(2,3)])
    then show ?thesis using r(1) Some by (simp add: apply_trimmed_def)
  qed
qed

lemma took_setLamport [simp]: "took (setLamport m c) = took c"
  by (simp add: took_def fun_eq_iff)

lemma applyRemote_ok:
  assumes "oplog_ok l" and "import_ok c" and "\<forall>d\<in>set (ch_Deps (sto_ch c)). log_has l d"
  shows "fine (took c l) (applyRemote c l)"
  unfolding applyRemote_def Let_def
  using apply_trimmed_ok [OF assms(1) setLamport_import_ok [OF assms(2)]] assms(3) by simp

text \<open>A change is settled when it is applied, or filed under an op it waits for.\<close>

definition settled :: "opLog \<Rightarrow> storedChange \<Rightarrow> bool" where
  "settled l c \<longleftrightarrow> sint (sto_end c) \<le> sint (vv_at (lg_vv l) (sto_peer c)) \<or> (\<exists>d. (d, c) \<in> set (lg_pending l))"

text \<open>While ids are on the stack: what waits for an op that is there is filed under one of them.\<close>

definition waiting_ok :: "ID list \<Rightarrow> opLog \<Rightarrow> bool" where
  "waiting_ok ids l \<longleftrightarrow> (\<forall>e\<in>set (lg_pending l). import_ok (snd e) \<and> (log_has l (fst e) \<longrightarrow> (\<exists>d\<in>set ids. filed_below d e)))"

definition step_ok :: "opLog \<Rightarrow> (ID list \<times> opLog) \<Rightarrow> bool" where
  "step_ok l st \<longleftrightarrow> grown l (snd st) \<and> waiting_ok (fst st) (snd st) \<and> (\<forall>c. settled l c \<longrightarrow> settled (snd st) c)"

lemma took_step:
  assumes t: "took c l l'" and w: "waiting_ok ids l" and c: "change_ok c"
  shows "step_ok l (sto_lastID c # ids, l')" and "settled l' c"
proof -
  have at: "vv_at (lg_vv l') p = (if p = sto_peer c then smax (vv_at (lg_vv l) p) (sto_end c) else vv_at (lg_vv l) p)" for p
    using t by (simp add: took_def)
  have p: "lg_pending l' = lg_pending l" and g: "grown l l'" using t by (simp_all add: took_def)
  have "log_has l d \<or> filed_below (sto_lastID c) (d, k)" if h: "log_has l' d" for d k
  proof (cases "log_has l d")
    case False
    with h have "Peer d = sto_peer c" "sint (Counter d) < sint (sto_end c)"
      by (auto simp: log_has_def at sint_smax split: if_splits)
    then show ?thesis using last_counter [OF c] by (simp add: filed_below_def sto_lastID_def)
  qed simp
  then have "waiting_ok (sto_lastID c # ids) l'" using w by (fastforce simp: waiting_ok_def p)
  moreover have "settled l' k" if "settled l k" for k
    using that grown_vv [OF g, of "sto_peer k"] by (auto simp: settled_def p)
  ultimately show "step_ok l (sto_lastID c # ids, l')" using g by (simp add: step_ok_def)
  show "settled l' c" by (simp add: settled_def at sint_smax)
qed

lemma first_missing_ready: "first_missing l ds = Ready \<Longrightarrow> d \<in> set ds \<Longrightarrow> \<not> sless (vv_at (lg_vv l) (Peer d) - 1) (Counter d)"
  by (induction ds) (auto split: if_splits)

lemma first_missing_cases: "first_missing l ds = Ready \<or> (\<exists>d\<in>set ds. first_missing l ds = Waits d \<and> sless (vv_at (lg_vv l) (Peer d) - 1) (Counter d))"
  by (induction ds) auto

lemma has_pred: "oplog_ok l \<Longrightarrow> sless (vv_at (lg_vv l) (Peer d) - 1) (Counter d) \<longleftrightarrow> \<not> log_has l d"
  using vv_nonneg [of l "Peer d"] by (auto simp: log_has_def sint_pred)

lemma waitsFor_ok:
  assumes ok: "oplog_ok l" and c: "change_ok c"
  shows "case waitsFor l c of
      Applied \<Rightarrow> sint (sto_end c) \<le> sint (vv_at (lg_vv l) (sto_peer c))
    | Waits d \<Rightarrow> \<not> log_has l d
    | Ready \<Rightarrow> \<forall>d\<in>set (ch_Deps (sto_ch c)). log_has l d"
proof -
  have "\<not> log_has l \<lparr>Peer = sto_peer c, Counter = sto_start c - 1\<rparr>" if "sless (vv_at (lg_vv l) (sto_peer c)) (sto_start c)"
    using that change_okD(4) [OF c] by (simp add: log_has_def sint_pred)
  moreover have "case first_missing l (ch_Deps (sto_ch c)) of Applied \<Rightarrow> False | Waits d \<Rightarrow> \<not> log_has l d
      | Ready \<Rightarrow> \<forall>d\<in>set (ch_Deps (sto_ch c)). log_has l d"
    using first_missing_ready [of l "ch_Deps (sto_ch c)"] first_missing_cases [of l "ch_Deps (sto_ch c)"] has_pred [OF ok]
    by (auto split: applyState.splits)
  ultimately show ?thesis by (auto simp: waitsFor_def Let_def split: applyState.splits)
qed

lemma step_ok_refl: "oplog_ok l \<Longrightarrow> waiting_ok ids l \<Longrightarrow> step_ok l (ids, l)"
  by (simp add: step_ok_def grown_refl)

lemma step_ok_trans: "step_ok l st \<Longrightarrow> step_ok (snd st) st' \<Longrightarrow> step_ok l st'"
  by (auto simp: step_ok_def intro: grown_trans)

lemma try_change_ok:
  assumes ok: "oplog_ok l" and w: "waiting_ok ids l" and c: "import_ok c"
  shows "fine (\<lambda>st. step_ok l st \<and> settled (snd st) c) (try_change c (ids, l))"
proof -
  have ch: "change_ok c" using c by (simp add: import_ok_def)
  note wf = waitsFor_ok [OF ok ch]
  show ?thesis
  proof (cases "waitsFor l c")
    case Applied
    then show ?thesis using wf ok w by (simp add: try_change_def step_ok_refl settled_def fine_def)
  next
    case (Waits d)
    let ?l = "park d c l"
    have p: "lg_pending ?l = lg_pending l @ [(d, c)]" and vv: "lg_vv ?l = lg_vv l" and st: "lg_store ?l = lg_store l" by (simp_all add: park_def)
    have h: "log_has ?l = log_has l" by (simp add: log_has_def vv fun_eq_iff)
    have "heads_of ?l = heads_of l" by (rule ext) (unfold heads_of_def vv st, rule refl)
    then have "oplog_ok ?l" using ok by (simp add: oplog_ok_def vv st h) (simp add: park_def)
    moreover have "tab_ok ?l = tab_ok l" by (simp add: tab_ok_def park_def)
    ultimately have "grown l ?l" by (simp add: grown_def h st)
    moreover have "waiting_ok ids ?l" using w c wf Waits by (auto simp: waiting_ok_def p h)
    ultimately have "step_ok l (ids, ?l)" by (auto simp: step_ok_def settled_def p vv)
    then show ?thesis using Waits by (auto simp: try_change_def settled_def p)
  next
    case Ready
    then have "fine (took c l) (applyRemote c l)" using applyRemote_ok [OF ok c] wf by simp
    then have "fine (\<lambda>st. step_ok l st \<and> settled (snd st) c) (bindR (applyRemote c l) (\<lambda>l. Inr (sto_lastID c # ids, l)))"
      by (rule fine_bindR) (simp add: took_step [OF _ w ch])
    then show ?thesis using Ready by (simp add: try_change_def)
  qed
qed

lemma step_okD: "step_ok l st \<Longrightarrow> oplog_ok (snd st) \<and> waiting_ok (fst st) (snd st)"
  by (simp add: step_ok_def grown_def)

lemma try_changes_ok:
  "oplog_ok l \<Longrightarrow> waiting_ok ids l \<Longrightarrow> \<forall>c\<in>set cs. import_ok c \<Longrightarrow>
    fine (\<lambda>st. step_ok l st \<and> (\<forall>c\<in>set cs. settled (snd st) c)) (try_changes cs (ids, l))"
proof (induction cs arbitrary: ids l)
  case Nil
  then show ?case by (simp add: step_ok_refl fine_def)
next
  case (Cons c cs)
  have c: "import_ok c" "\<forall>c\<in>set cs. import_ok c" using Cons.prems(3) by simp_all
  have "fine (\<lambda>st. step_ok l st \<and> (\<forall>c\<in>set (c # cs). settled (snd st) c)) (bindR (try_change c (ids, l)) (try_changes cs))"
  proof (rule fine_bindR [OF try_change_ok [OF Cons.prems(1,2) c(1)]])
    fix st
    assume st: "step_ok l st \<and> settled (snd st) c"
    then have "fine (\<lambda>st'. step_ok (snd st) st' \<and> (\<forall>c\<in>set cs. settled (snd st') c)) (try_changes cs (fst st, snd st))"
      using Cons.IH [OF _ _ c(2)] step_okD by blast
    then have "fine (\<lambda>st'. step_ok (snd st) st' \<and> (\<forall>c\<in>set cs. settled (snd st') c)) (try_changes cs st)" by simp
    then show "fine (\<lambda>st. step_ok l st \<and> (\<forall>c\<in>set (c # cs). settled (snd st) c)) (try_changes cs st)"
      by (rule fine_mono) (use st in \<open>auto simp: step_ok_def intro: grown_trans\<close>)
  qed
  then show ?case by simp
qed

text \<open>The changes taken off the list are those filed at or below the id.\<close>

lemma take_filed_set:
  assumes "take_filed d m = (cs, rest)"
  shows "set cs = snd ` {e\<in>set m. filed_below d e}" and "set rest = {e\<in>set m. \<not> filed_below d e}"
proof -
  have "cs = map snd (sort_key (\<lambda>e. sint (Counter (fst e))) (filter (filed_below d) m))" "rest = filter (\<lambda>e. \<not> filed_below d e) m"
    using assms by (simp_all add: take_filed_def)
  then show "set cs = snd ` {e\<in>set m. filed_below d e}" "set rest = {e\<in>set m. \<not> filed_below d e}" by simp_all
qed

lemma pending_cut:
  assumes ok: "oplog_ok l" and w: "waiting_ok (d # ids) l" and t: "take_filed d (lg_pending l) = (cs, rest)"
  defines "l0 \<equiv> l\<lparr>lg_pending := rest\<rparr>"
  shows "grown l l0" and "waiting_ok ids l0" and "\<forall>c\<in>set cs. import_ok c" and "settled l c \<Longrightarrow> settled l0 c \<or> c \<in> set cs"
proof -
  have f: "lg_vv l0 = lg_vv l" "lg_store l0 = lg_store l" "lg_pending l0 = rest" by (simp_all add: l0_def)
  have h: "log_has l0 = log_has l" by (simp add: log_has_def f fun_eq_iff)
  have "heads_of l0 = heads_of l" by (rule ext) (unfold heads_of_def f, rule refl)
  then have "oplog_ok l0" using ok by (simp add: oplog_ok_def f h) (simp add: l0_def)
  moreover have "tab_ok l0 = tab_ok l" by (simp add: tab_ok_def l0_def)
  ultimately show "grown l l0" by (simp add: grown_def h f)
  note ts = take_filed_set [OF t]
  show "waiting_ok ids l0" using w by (auto simp: waiting_ok_def f h ts)
  show "\<forall>c\<in>set cs. import_ok c" using w by (auto simp: waiting_ok_def ts)
  show "settled l c \<Longrightarrow> settled l0 c \<or> c \<in> set cs" by (force simp: settled_def f ts)
qed

text \<open>Nothing is left waiting for an op that is there.\<close>

definition import_done :: "opLog \<Rightarrow> opLog \<Rightarrow> bool" where
  "import_done l l' \<longleftrightarrow> grown l l' \<and> waiting_ok [] l' \<and> (\<forall>c. settled l c \<longrightarrow> settled l' c)"

lemma applyPending_ok: "oplog_ok l \<Longrightarrow> waiting_ok ids l \<Longrightarrow> fine (import_done l) (applyPending ids l)"
proof (induction ids l rule: applyPending.induct)
  case (1 l)
  then show ?case by (simp add: applyPending.simps import_done_def grown_refl)
next
  case (2 d ids l)
  obtain cs rest where t: "take_filed d (lg_pending l) = (cs, rest)" by (cases "take_filed d (lg_pending l)")
  let ?l = "l\<lparr>lg_pending := rest\<rparr>"
  note pc = pending_cut [OF 2(2,3) t]
  have l0: "oplog_ok ?l" using pc(1) by (simp add: grown_def)
  note tc = try_changes_ok [OF l0 pc(2,3)]
  have "fine (import_done l) (bindR (try_changes cs (ids, ?l)) (\<lambda>st. applyPending (fst st) (snd st)))"
  proof (cases "try_changes cs (ids, ?l)")
    case (Inl e)
    then show ?thesis using tc by (simp add: fine_def)
  next
    case (Inr st)
    then have st: "step_ok ?l st" "\<forall>c\<in>set cs. settled (snd st) c" using tc by simp_all
    have "fine (import_done (snd st)) (applyPending (fst st) (snd st))"
      using 2(1) [OF t [symmetric] Inr] step_okD [OF st(1)] by blast
    then have "fine (import_done l) (applyPending (fst st) (snd st))"
    proof (rule fine_mono)
      fix l'
      assume d: "import_done (snd st) l'"
      have "grown ?l (snd st)" "grown (snd st) l'" using st(1) d by (simp_all add: step_ok_def import_done_def)
      then have "grown l l'" by (rule grown_trans [OF grown_trans [OF pc(1)]])
      moreover have "settled l' c" if "settled l c" for c
        using pc(4) [OF that] st d by (auto simp: step_ok_def import_done_def)
      ultimately show "import_done l l'" using d by (simp add: import_done_def)
    qed
    then show ?thesis by (simp add: Inr)
  qed
  then show ?case by (simp add: applyPending.simps t)
qed

lemma parkOrApply_ok:
  assumes ok: "oplog_ok l" and w: "waiting_ok [] l" and cs: "\<forall>c\<in>set cs. import_ok c"
  shows "fine (\<lambda>l'. import_done l l' \<and> (\<forall>c\<in>set cs. settled l' c)) (parkOrApply cs l)"
  unfolding parkOrApply_def
proof (rule fine_bindR [OF try_changes_ok [OF ok w cs]])
  fix st
  assume st: "step_ok l st \<and> (\<forall>c\<in>set cs. settled (snd st) c)"
  obtain ids l1 where s: "st = (ids, l1)" by (cases st)
  have "fine (import_done l1) (if ids \<noteq> [] then applyPending ids l1 else Inr l1)"
    using st step_okD [of l st] applyPending_ok [of l1 ids] by (auto simp: s fine_def import_done_def grown_refl)
  then have "fine (\<lambda>l'. import_done l l' \<and> (\<forall>c\<in>set cs. settled l' c)) (if ids \<noteq> [] then applyPending ids l1 else Inr l1)"
    by (rule fine_mono) (use st in \<open>auto simp: s step_ok_def import_done_def intro: grown_trans\<close>)
  then show "fine (\<lambda>l'. import_done l l' \<and> (\<forall>c\<in>set cs. settled l' c)) (case st of (applied, l) \<Rightarrow> if applied \<noteq> [] then applyPending applied l else Inr l)"
    by (simp add: s)
qed

section \<open>The first pass\<close>

lemma lamport_from_has: "lamport_from l ds m = Some n \<Longrightarrow> \<forall>d\<in>set ds. log_has l d"
  by (induction ds arbitrary: m) (auto split: option.splits if_splits)

definition passed :: "storedChange list \<Rightarrow> storedChange list \<Rightarrow> opLog \<Rightarrow> ID list \<times> storedChange list \<times> opLog \<Rightarrow> bool" where
  "passed cs waiting l r = (case r of (latest', waiting', l') \<Rightarrow>
     step_ok l (latest', l') \<and> set waiting \<subseteq> set waiting' \<and> set waiting' \<subseteq> set waiting \<union> set cs \<and>
     (\<forall>c\<in>set cs. settled l' c \<or> c \<in> set waiting'))"

lemma import_pass_ok:
  "oplog_ok l \<Longrightarrow> waiting_ok latest l \<Longrightarrow> \<forall>c\<in>set cs. import_ok c \<Longrightarrow>
    fine (passed cs waiting l) (import_pass cs latest waiting l)"
proof (induction cs arbitrary: latest waiting l)
  case Nil
  then show ?case by (simp add: passed_def step_ok_refl fine_def)
next
  case (Cons c cs)
  have c: "import_ok c" "change_ok c" "\<forall>c\<in>set cs. import_ok c" using Cons.prems(3) by (simp_all add: import_ok_def)
  have w: "waiting_ok (sto_lastID c # latest) l" using Cons.prems(2) by (auto simp: waiting_ok_def)
  show ?case
  proof (cases "sleq (sto_end c) (vv_at (lg_vv l) (sto_peer c))")
    case True
    have "fine (passed (c # cs) waiting l) (import_pass cs latest waiting l)"
      by (rule fine_mono [OF Cons.IH [OF Cons.prems(1,2) c(3)]])
        (use True in \<open>auto simp: passed_def step_ok_def settled_def\<close>)
    then show ?thesis using True by simp
  next
    case False
    show ?thesis
    proof (cases "lamportFromDeps l (ch_Deps (sto_ch c))")
      case None
      have "fine (passed (c # cs) waiting l) (import_pass cs (sto_lastID c # latest) (waiting @ [c]) l)"
        by (rule fine_mono [OF Cons.IH [OF Cons.prems(1) w c(3)]]) (auto simp: passed_def)
      then show ?thesis using False None by (simp add: Let_def)
    next
      case (Some m)
      have "\<forall>d\<in>set (ch_Deps (sto_ch c)). log_has l d" using Some lamport_from_has by (simp add: lamportFromDeps_def)
      then have "fine (took c l) (apply_trimmed (setLamport m c) l)"
        using apply_trimmed_ok [OF Cons.prems(1) setLamport_import_ok [OF c(1)], of m] by simp
      then have "fine (passed (c # cs) waiting l)
          (bindR (apply_trimmed (setLamport m c) l) (\<lambda>l. import_pass cs (sto_lastID c # latest) waiting l))"
      proof (rule fine_bindR)
        fix l1
        assume t: "took c l l1"
        note ts = took_step [OF t Cons.prems(2) c(2)]
        then have "oplog_ok l1" "waiting_ok (sto_lastID c # latest) l1" using step_okD [OF ts(1)] by simp_all
        from Cons.IH [OF this c(3)]
        show "fine (passed (c # cs) waiting l) (import_pass cs (sto_lastID c # latest) waiting l1)"
          by (rule fine_mono) (use ts in \<open>auto simp: passed_def step_ok_def intro: grown_trans\<close>)
      qed
      then show ?thesis using False Some by (simp add: Let_def)
    qed
  qed
qed

end
