(* ===== verification/LogTheorems.thy ===== *)
theory LogTheorems
  imports LogPasses
begin

text \<open>
  What a document's history promises: the change store as a log per peer, imports that keep the
  history's invariant and leave nothing waiting for an op that is there, frontiers that are the heads
  of the history, and the one change no store can take.
\<close>

section \<open>Sorting by lamport\<close>

interpretation lamportOrder: weak_order "\<lambda>a b. sless (ch_Lamport (sto_ch a)) (ch_Lamport (sto_ch b))"
  by unfold_locales simp_all

lemma sortByLamport_ok:
  "sorted_wrt (\<lambda>a b. sleq (ch_Lamport (sto_ch a)) (ch_Lamport (sto_ch b))) (sortByLamport cs) \<and> mset (sortByLamport cs) = mset cs"
proof -
  have eq: "lamportOrder.le = (\<lambda>a b. sleq (ch_Lamport (sto_ch a)) (ch_Lamport (sto_ch b)))"
    by (intro ext) (simp add: lamportOrder.le_def not_less)
  show ?thesis using lamportOrder.rustSortUnstable_ok [of cs] unfolding eq sortByLamport_def .
qed

lemma set_sortByLamport [simp]: "set (sortByLamport cs) = set cs"
  using sortByLamport_ok [of cs] by (metis mset_eq_setD)

section \<open>A whole import\<close>

lemma newOpLog_ok: "oplog_ok newOpLog" "tab_ok newOpLog" "waiting_ok [] newOpLog"
proof -
  have s: "lg_store newOpLog = []" "lg_vv newOpLog = []" "lg_fr newOpLog = fr_empty" "lg_vvTab newOpLog = fx_nil" "lg_pending newOpLog = []"
    by (simp_all add: newOpLog_def)
  have b: "blocks_of [] p = []" "peer_log [] p = []" "store_atoms [] p = []" "tip [] p = None" for p
    by (simp_all add: blocks_of_def peer_log_def store_atoms_def tip_def)
  have "log_deps [] = {}" by (simp add: log_deps_def deps_in_def b)
  then show "oplog_ok newOpLog"
    by (simp add: oplog_ok_def s store_ok_def b log_ok_def heads_of_def fun_eq_iff)
  show "tab_ok newOpLog" by (simp add: tab_ok_def s fun_eq_iff)
  show "waiting_ok [] newOpLog" by (simp add: waiting_ok_def s)
qed

lemma importChanges_ok:
  assumes ok: "oplog_ok l" and w: "waiting_ok [] l" and cs: "\<forall>c\<in>set cs. import_ok c"
  shows "fine (\<lambda>r. import_done l (snd r) \<and> (\<forall>c\<in>set cs. settled (snd r) c)) (importChanges cs l)"
proof -
  let ?Q = "\<lambda>l'. import_done l l' \<and> (\<forall>c\<in>set cs. settled l' c)"
  let ?rest = "\<lambda>(latest, waiting, l1). bindR (applyPending latest l1) (\<lambda>l2.
      bindR (parkOrApply waiting l2) (\<lambda>l3. Inr (appliedAtoms l3 \<noteq> appliedAtoms l, l3)))"
  have "fine (\<lambda>r. ?Q (snd r)) (bindR (import_pass (sortByLamport cs) [] [] l) ?rest)"
  proof (rule fine_bindR [OF import_pass_ok [OF ok w]])
    show "\<forall>c\<in>set (sortByLamport cs). import_ok c" using cs by simp
  next
    fix r
    assume p: "passed (sortByLamport cs) [] l r"
    obtain latest waiting l1 where r: "r = (latest, waiting, l1)" by (cases r)
    have p1: "step_ok l (latest, l1)" "set waiting \<subseteq> set cs" "\<forall>c\<in>set cs. settled l1 c \<or> c \<in> set waiting"
      using p by (auto simp: passed_def r)
    have l1: "oplog_ok l1" "waiting_ok latest l1" using step_okD [OF p1(1)] by simp_all
    have "fine (\<lambda>r. ?Q (snd r)) (bindR (applyPending latest l1) (\<lambda>l2.
        bindR (parkOrApply waiting l2) (\<lambda>l3. Inr (appliedAtoms l3 \<noteq> appliedAtoms l, l3))))"
    proof (rule fine_bindR [OF applyPending_ok [OF l1]])
      fix l2
      assume d2: "import_done l1 l2"
      then have l2: "oplog_ok l2" "waiting_ok [] l2" by (simp_all add: import_done_def grown_def)
      have w2: "\<forall>c\<in>set waiting. import_ok c" using p1(2) cs by blast
      show "fine (\<lambda>r. ?Q (snd r)) (bindR (parkOrApply waiting l2) (\<lambda>l3. Inr (appliedAtoms l3 \<noteq> appliedAtoms l, l3)))"
      proof (rule fine_bindR [OF parkOrApply_ok [OF l2 w2]])
        fix l3
        assume d3: "import_done l2 l3 \<and> (\<forall>c\<in>set waiting. settled l3 c)"
        have "grown l l1" "grown l1 l2" "grown l2 l3" using p1(1) d2 d3 by (simp_all add: step_ok_def import_done_def)
        then have "grown l l3" by (blast intro: grown_trans)
        then have "import_done l l3" using p1(1) d2 d3 by (simp add: step_ok_def import_done_def)
        moreover have "settled l3 c" if "c \<in> set cs" for c
          using p1(3) that d2 d3 by (auto simp: import_done_def)
        ultimately show "fine (\<lambda>r. ?Q (snd r)) (Inr (appliedAtoms l3 \<noteq> appliedAtoms l, l3))" by (simp add: fine_def)
      qed
    qed
    then show "fine (\<lambda>r. ?Q (snd r)) (?rest r)" by (simp add: r)
  qed
  then show ?thesis by (simp add: importChanges_def)
qed

text \<open>A document that imports one blob after another.\<close>

fun import_all :: "storedChange list list \<Rightarrow> opLog \<Rightarrow> opLog res" where
  "import_all [] l = Inr l"
| "import_all (cs # css) l = bindR (importChanges cs l) (\<lambda>r. import_all css (snd r))"

lemma import_all_ok:
  "oplog_ok l \<Longrightarrow> waiting_ok [] l \<Longrightarrow> tab_ok l \<Longrightarrow> \<forall>cs\<in>set css. \<forall>c\<in>set cs. import_ok c \<Longrightarrow>
    fine (\<lambda>l'. oplog_ok l' \<and> waiting_ok [] l' \<and> tab_ok l') (import_all css l)"
proof (induction css arbitrary: l)
  case (Cons cs css)
  have cs: "\<forall>c\<in>set cs. import_ok c" "\<forall>cs\<in>set css. \<forall>c\<in>set cs. import_ok c" using Cons.prems(4) by simp_all
  have "fine (\<lambda>l'. oplog_ok l' \<and> waiting_ok [] l' \<and> tab_ok l') (bindR (importChanges cs l) (\<lambda>r. import_all css (snd r)))"
  proof (rule fine_bindR [OF importChanges_ok [OF Cons.prems(1,2) cs(1)]])
    fix r
    assume "import_done l (snd r) \<and> (\<forall>c\<in>set cs. settled (snd r) c)"
    then show "fine (\<lambda>l'. oplog_ok l' \<and> waiting_ok [] l' \<and> tab_ok l') (import_all css (snd r))"
      using Cons.prems(3) by (intro Cons.IH cs(2)) (simp_all add: import_done_def grown_def)
  qed
  then show ?case by simp
qed (simp add: fine_def)

section \<open>Examples\<close>

text \<open>A change that types \<open>hi\<close> at the start of a text, as its peer's first change.\<close>

definition hi_op :: Op where
  "hi_op = \<lparr>op_Container = [116], op_IsRoot = True, op_Kind = CText, op_VKind = VKStr, op_Pos = 0, op_MapKey = [],
     op_Value = OVal (LStr [104, 105]), op_MoveFrom = 0, op_Len = 2, op_Peer = 7, op_Counter = 0, op_Lamport = 0\<rparr>"

definition typing :: "ID list \<Rightarrow> storedChange" where
  "typing ds = \<lparr>sto_ch = \<lparr>ch_ID = \<lparr>Peer = 7, Counter = 0\<rparr>, ch_Lamport = 0, ch_Timestamp = 0, ch_Deps = ds, ch_CommitMsg = [],
     ch_Ops = [hi_op]\<rparr>, sto_prov = [\<lparr>pr_kind = ProvText, pr_gen = 1, pr_start = 0, pr_end = 2\<rparr>]\<rparr>"

lemma hi_text: "runes [104, 105] = [104, 105]" "valid_utf8 [104, 105]"
proof -
  have t: "string_of_runes [104, 105] = [104, 105]" by (simp add: string_of_runes_def encode_rune_def)
  have r: "\<forall>r\<in>set [104, 105]. is_rune r" by (simp add: is_rune_def)
  from runes_string_of_runes [OF r] show "runes [104, 105] = [104, 105]" unfolding t .
  from valid_string_of_runes [OF r, of "[]"] show "valid_utf8 [104, 105]" by (simp add: t)
qed

lemma hi_ok: "op_ok hi_op"
proof -
  have "valid_utf8 [104, 105] \<and> length (runes [104, 105]) = 2" by (simp add: hi_text)
  moreover have "op_VKind hi_op = VKStr" "op_Value hi_op = OVal (LStr [104, 105])" "op_len hi_op = 2" "op_MapKey hi_op = []"
    "op_MoveFrom hi_op = 0" "sint (op_Len hi_op) = 2" "sint (op_Counter hi_op) = 0"
    by (simp_all add: hi_op_def op_len_def)
  ultimately show ?thesis unfolding op_ok_def op_shape_def by simp
qed

lemma typing_fields [simp]:
  "sto_ops (typing ds) = [hi_op]" "sto_peer (typing ds) = 7" "sto_start (typing ds) = 0" "ch_Deps (sto_ch (typing ds)) = ds"
  "length (sto_prov (typing ds)) = 1" "ch_Lamport (sto_ch (typing ds)) = 0"
  by (simp_all add: typing_def sto_peer_def sto_start_def)

lemma typing_ok: "\<forall>d\<in>set ds. Peer d \<noteq> 7 \<Longrightarrow> change_ok (typing ds)"
  using hi_ok by (auto simp: change_ok_def piece_ok_def) (simp_all add: hi_op_def)

section \<open>The store\<close>

text \<open>C1: Whatever a well-formed change is, and however often it is merged, appended or split on the way in, \<open>insert\<close> puts
  its atoms, each with the ops it depends on, at the end of its peer's log and touches no other peer's; nothing panics; and
  \<open>find\<close> then returns the one stored change that holds an id, or none where no change does.\<close>

theorem store_refines_log:
  assumes "store_ok s" and "change_ok c" and "continues s c" and "length (ch_Deps (sto_ch c)) \<le> 1023"
  shows "\<exists>s' bufs'. store_insert c split iv s bufs = Inr (s', bufs') \<and> store_ok s' \<and>
    store_atoms s' = (store_atoms s)(sto_peer c := store_atoms s (sto_peer c) @ change_atoms c) \<and>
    (\<forall>d. case store_find s' d of
        Some k \<Rightarrow> k \<in> set (peer_log s' (Peer d)) \<and> in_change k d \<and> (\<forall>x\<in>set (peer_log s' (Peer d)). in_change x d \<longrightarrow> x = k)
      | None \<Rightarrow> \<forall>x\<in>set (peer_log s' (Peer d)). \<not> in_change x d)"
proof -
  obtain s' bufs' where s: "store_insert c split iv s bufs = Inr (s', bufs')" "inserted c s s'"
    using store_insert_ok [OF assms] by blast
  then have ok: "store_ok s'" by (simp add: inserted_def)
  have uniq: "x = y" if "x \<in> set (peer_log s' (Peer d))" "y \<in> set (peer_log s' (Peer d))" "in_change x d" "in_change y d" for x y d
  proof -
    note t = that
    have lo: "log_ok (Peer d) (peer_log s' (Peer d))" using ok by (simp add: store_ok_def)
    obtain i j where ij: "i < length (peer_log s' (Peer d))" "x = peer_log s' (Peer d) ! i"
      "j < length (peer_log s' (Peer d))" "y = peer_log s' (Peer d) ! j" using t by (auto simp: in_set_conv_nth)
    have "\<not> i < j" "\<not> j < i"
      using log_nth [OF lo, of i j] log_nth [OF lo, of j i] ij t by (fastforce simp: in_change_def)+
    then show ?thesis using ij by (simp add: not_less)
  qed
  have "case store_find s' d of
        Some k \<Rightarrow> k \<in> set (peer_log s' (Peer d)) \<and> in_change k d \<and> (\<forall>x\<in>set (peer_log s' (Peer d)). in_change x d \<longrightarrow> x = k)
      | None \<Rightarrow> \<forall>x\<in>set (peer_log s' (Peer d)). \<not> in_change x d" for d
    using store_find_ok [OF ok, of d] uniq by (auto split: option.splits)
  then show ?thesis using s by (simp add: inserted_def)
qed

lemma empty_store_ok: "store_ok []" and empty_store_continues: "continues [] c"
  using newOpLog_ok(1) by (simp_all add: oplog_ok_def newOpLog_def continues_def tip_def peer_log_def blocks_of_def)

theorem store_refines_log_witness:
  "\<exists>s' bufs'. store_insert (typing []) True 0 [] (lg_bufs newOpLog) = Inr (s', bufs') \<and>
    store_atoms s' 7 = change_atoms (typing []) \<and> length (change_atoms (typing [])) = 2"
proof -
  have e: "store_atoms [] 7 = []" by (simp add: store_atoms_def peer_log_def blocks_of_def)
  have "length (change_atoms (typing [])) = 2" by (simp add: length_change_atoms op_len_def) (simp add: hi_op_def)
  then show ?thesis
    using store_refines_log [OF empty_store_ok typing_ok empty_store_continues, of "[]" True 0 "lg_bufs newOpLog"] by (auto simp: e)
qed

text \<open>C5: A change with a text insert on 1025 or more dependencies, which a document with that many heads makes when its user
  types, cannot be put in: the room that is left for the insert is negative, and taking that many runes of it panics. So it
  does for a local commit and for an import.\<close>

theorem text_on_many_heads_panics:
  assumes op: "op_Kind op = CText" "op_VKind op = VKStr" "op_Value op = OVal (LStr t)" "runes t \<noteq> []" "1 \<le> sint (op_Len op)"
    and c: "ch_Ops (sto_ch c) = [op]" "length (sto_prov c) = 1"
    and ds: "1025 \<le> length (ch_Deps (sto_ch c))" "length (ch_Deps (sto_ch c)) < 2 ^ 60"
  shows "store_insert c True iv s bufs = Inl GoPanic \<and> insertLocal c iv l = Inl GoPanic"
proof -
  have "store_insert c True iv s bufs = Inl GoPanic" for s bufs
  proof -
    have "storedOpSize op = int (length t)" using op by (simp add: storedOpSize_def str_of_def ckind_defs)
    then have "storedChangeSize (sto_ch c) > storeBlockLimit" using ds(1) c(1) by (simp add: storedChangeSize_def storeBlockLimit_def)
    then show ?thesis
      using split_many_deps [OF op(3,4,2,1) ds, of "[]" s bufs] c op(5) by (simp add: store_insert_def)
  qed
  then show ?thesis by (simp add: insertLocal_def Let_def)
qed

theorem text_on_many_heads_panics_witness:
  "insertLocal (typing (map (\<lambda>n. \<lparr>Peer = of_nat n, Counter = 0\<rparr>) [8..<1033])) 0 newOpLog = Inl GoPanic"
proof -
  have r: "runes [104, 105] \<noteq> []" by (simp add: hi_text)
  have "op_Kind hi_op = CText" "op_VKind hi_op = VKStr" "op_Value hi_op = OVal (LStr [104, 105])" "1 \<le> sint (op_Len hi_op)"
    by (simp_all add: hi_op_def)
  then show ?thesis
    using text_on_many_heads_panics [of hi_op "[104, 105]" "typing (map (\<lambda>n. \<lparr>Peer = of_nat n, Counter = 0\<rparr>) [8..<1033])"
      0 "[]" "lg_bufs newOpLog" newOpLog] r by (simp del: upt_rec_numeral)
qed

section \<open>Importing\<close>

text \<open>C2: Importing any list of changes that the checks on the way in let through keeps the history's invariant and only adds
  to the end of each peer's log. Nothing panics and every loop ends; the only failures are the errors of
  \<open>insertRemote\<close>.\<close>

theorem import_keeps_history:
  assumes "oplog_ok l" and "tab_ok l" and "waiting_ok [] l" and "\<forall>c\<in>set cs. import_ok c"
  shows "case importChanges cs l of
      Inl e \<Rightarrow> \<exists>msg. e = Errorf msg
    | Inr (changed, l') \<Rightarrow> oplog_ok l' \<and> tab_ok l' \<and> waiting_ok [] l' \<and>
        (\<forall>p. \<exists>xs. store_atoms (lg_store l') p = store_atoms (lg_store l) p @ xs) \<and>
        (\<forall>d. log_has l d \<longrightarrow> log_has l' d)"
  using importChanges_ok [OF assms(1,3,4)] assms(2)
  by (auto simp: fine_def import_done_def grown_def split: sum.splits prod.splits)

lemma typing_import_ok: "\<forall>d\<in>set ds. Peer d \<noteq> 7 \<Longrightarrow> distinct ds \<Longrightarrow> length ds \<le> 1023 \<Longrightarrow> import_ok (typing ds)"
  using typing_ok by (simp add: import_ok_def)

theorem import_keeps_history_witness:
  "case importChanges [typing []] newOpLog of
      Inl e \<Rightarrow> \<exists>msg. e = Errorf msg
    | Inr (changed, l') \<Rightarrow> oplog_ok l' \<and> tab_ok l'"
  using import_keeps_history [OF newOpLog_ok, of "[typing []]"] by (auto simp: typing_import_ok split: sum.splits)

text \<open>C3: After an import that succeeds, every change it was given and every change that was waiting before is applied to its
  last op, or waits, and a change only waits for an op that is not there.\<close>

theorem import_settles:
  assumes "oplog_ok l" and "waiting_ok [] l" and "\<forall>c\<in>set cs. import_ok c" and "importChanges cs l = Inr (changed, l')"
    and "c \<in> set cs \<or> (\<exists>d. (d, c) \<in> set (lg_pending l))"
  shows "sint (sto_end c) \<le> sint (vv_at (lg_vv l') (sto_peer c)) \<or>
    (\<exists>d. (d, c) \<in> set (lg_pending l') \<and> \<not> log_has l' d)"
proof -
  have d: "import_done l l'" "\<forall>c\<in>set cs. settled l' c" using importChanges_ok [OF assms(1-3)] assms(4) by simp_all
  then have "settled l' c" using assms(5) by (auto simp: import_done_def settled_def)
  then show ?thesis using d(1) by (fastforce simp: settled_def import_done_def waiting_ok_def)
qed

text \<open>What \<open>typing\<close> depends on is not there, so it waits.\<close>

lemma import_typing: "\<exists>l'. importChanges [typing [\<lparr>Peer = 3, Counter = 0\<rparr>]] newOpLog = Inr (False, l') \<and> lg_vv l' = []"
proof -
  let ?c = "typing [\<lparr>Peer = 3, Counter = 0\<rparr>]"
  have "sto_end ?c = 2" by (simp add: sto_end_ops hi_op_def)
  moreover have "sortByLamport [?c] = [?c]" by (simp add: sortByLamport_def rustSortUnstable_def)
  moreover have l: "lg_vv newOpLog = []" "lg_store newOpLog = []" "lg_pending newOpLog = []" by (simp_all add: newOpLog_def)
  moreover have "lamportFromDeps newOpLog [\<lparr>Peer = 3, Counter = 0\<rparr>] = None"
    using store_find_ok [OF empty_store_ok, of "\<lparr>Peer = 3, Counter = 0\<rparr>"]
    by (auto simp: lamportFromDeps_def lamportOf_def l peer_log_def blocks_of_def split: option.splits)
  moreover have "applyPending [sto_lastID ?c] newOpLog = Inr newOpLog"
    by (simp add: applyPending.simps take_filed_def newOpLog_def)
  ultimately show ?thesis
    by (simp add: importChanges_def parkOrApply_def try_change_def waitsFor_def vv_at_def park_def appliedAtoms_def Let_def)
qed

theorem import_settles_witness:
  "\<exists>l'. importChanges [typing [\<lparr>Peer = 3, Counter = 0\<rparr>]] newOpLog = Inr (False, l') \<and>
    (\<exists>d. (d, typing [\<lparr>Peer = 3, Counter = 0\<rparr>]) \<in> set (lg_pending l') \<and> \<not> log_has l' d)"
proof -
  let ?c = "typing [\<lparr>Peer = 3, Counter = 0\<rparr>]"
  obtain l' where l': "importChanges [?c] newOpLog = Inr (False, l')" "lg_vv l' = []" using import_typing by blast
  have "sint (sto_end ?c) = 2" by (simp add: sto_end_ops hi_op_def)
  then show ?thesis
    using import_settles [OF newOpLog_ok(1,3) _ l'(1), of ?c] l' by (auto simp: typing_import_ok vv_at_def)
qed

section \<open>Frontiers\<close>

lemma fr_ids_member: "fr_ok f \<Longrightarrow> d \<in> set (fr_ids f) \<longleftrightarrow> fr_map f (Peer d) = Some (Counter d)"
  using fr_ids_ok [of f] map_of_ids_set [of "fr_ids f"] by (auto simp: ID_eq_iff)

text \<open>A change of another peer that follows \<open>typing\<close>, and arrives first.\<close>

definition reply :: storedChange where
  "reply = \<lparr>sto_ch = \<lparr>ch_ID = \<lparr>Peer = 3, Counter = 0\<rparr>, ch_Lamport = 2, ch_Timestamp = 0, ch_Deps = [\<lparr>Peer = 7, Counter = 1\<rparr>],
     ch_CommitMsg = [], ch_Ops = [hi_op\<lparr>op_Peer := 3, op_Lamport := 2\<rparr>]\<rparr>,
     sto_prov = [\<lparr>pr_kind = ProvText, pr_gen = 1, pr_start = 0, pr_end = 2\<rparr>]\<rparr>"

lemma reply_ok: "import_ok reply"
proof -
  let ?op = "hi_op\<lparr>op_Peer := 3, op_Lamport := 2\<rparr>"
  have "op_VKind ?op = VKStr" "op_Value ?op = OVal (LStr [104, 105])" "op_len ?op = 2" "op_MapKey ?op = []"
    "op_MoveFrom ?op = 0" "sint (op_Len ?op) = 2" "sint (op_Counter ?op) = 0"
    by (simp_all add: hi_op_def op_len_def)
  then have "op_ok ?op" unfolding op_ok_def op_shape_def by (simp add: hi_text)
  then show ?thesis by (simp add: import_ok_def change_ok_def piece_ok_def reply_def sto_peer_def sto_start_def) (simp add: hi_op_def)
qed

text \<open>C4: Whatever blobs a document has imported, in whatever order, its frontiers are the last ops of its peers that no op
  depends on, its version says where the log of each peer ends, the hash table that orders its encoding holds the same
  version, and every op depends on ops of the version only.\<close>

theorem frontiers_are_heads:
  assumes "\<forall>cs\<in>set blobs. \<forall>c\<in>set cs. import_ok c" and "import_all blobs newOpLog = Inr l"
  shows "(\<forall>d. d \<in> set (fr_ids (lg_fr l)) \<longleftrightarrow>
        gm_get (lg_vv l) (Peer d) = Some (Counter d + 1) \<and> d \<notin> log_deps (lg_store l)) \<and>
    distinct (map Peer (fr_ids (lg_fr l))) \<and>
    (\<forall>p. gm_get (lg_vv l) p = map_option fst (tip (lg_store l) p)) \<and>
    fx_map (lg_vvTab l) = gm_get (lg_vv l) \<and>
    (\<forall>d\<in>log_deps (lg_store l). log_has l d)"
proof -
  have ok: "oplog_ok l" "tab_ok l" using fineD [OF import_all_ok [OF newOpLog_ok(1,3,2) assms(1)] assms(2)] by simp_all
  have fr: "fr_ok (lg_fr l)" "fr_map (lg_fr l) = heads_of l" using ok(1) by (simp_all add: oplog_ok_def)
  have "d \<in> set (fr_ids (lg_fr l)) \<longleftrightarrow> gm_get (lg_vv l) (Peer d) = Some (Counter d + 1) \<and> d \<notin> log_deps (lg_store l)" for d
    by (cases d) (auto simp: fr_ids_member [OF fr(1)] fr(2) heads_of_def split: option.splits)
  then show ?thesis using ok fr_ids_ok [OF fr(1)] by (simp add: oplog_ok_def tab_ok_def)
qed

theorem frontiers_are_heads_witness:
  "\<exists>l. import_all [[reply], [typing []]] newOpLog = Inr l \<and> fr_ids (lg_fr l) = [\<lparr>Peer = 3, Counter = 1\<rparr>] \<and>
    lg_pending l = [] \<and> \<lparr>Peer = 7, Counter = 1\<rparr> \<in> log_deps (lg_store l)"
proof -
  have "map_sum id (\<lambda>l. (fr_ids (lg_fr l), lg_vv l, map fst (lg_pending l))) (import_all [[reply], [typing []]] newOpLog) =
      Inr ([\<lparr>Peer = 3, Counter = 1\<rparr>], [(3, 2), (7, 2)], [])"
    by code_simp
  then obtain l where l: "import_all [[reply], [typing []]] newOpLog = Inr l" "fr_ids (lg_fr l) = [\<lparr>Peer = 3, Counter = 1\<rparr>]"
    "lg_vv l = [(3, 2), (7, 2)]" "lg_pending l = []"
    by (cases "import_all [[reply], [typing []]] newOpLog") auto
  have "\<forall>cs\<in>set [[reply], [typing []]]. \<forall>c\<in>set cs. import_ok c" using reply_ok typing_import_ok [of "[]"] by simp
  from frontiers_are_heads [OF this l(1)]
  have "\<lparr>Peer = 7, Counter = 1\<rparr> \<in> set (fr_ids (lg_fr l)) \<longleftrightarrow>
      gm_get (lg_vv l) 7 = Some (1 + 1) \<and> \<lparr>Peer = 7, Counter = 1\<rparr> \<notin> log_deps (lg_store l)" by simp
  then have "\<lparr>Peer = 7, Counter = 1\<rparr> \<in> log_deps (lg_store l)" by (simp add: l(2,3))
  with l show ?thesis by simp
qed

text \<open>C6: \<open>sortByLamport\<close> sorts what a blob brings by lamport and loses and doubles nothing, whatever the order it came in.\<close>

theorem sort_by_lamport:
  "sorted_wrt (\<lambda>a b. sleq (ch_Lamport (sto_ch a)) (ch_Lamport (sto_ch b))) (sortByLamport cs) \<and> mset (sortByLamport cs) = mset cs"
  by (rule sortByLamport_ok)

end
