(* ===== verification/Spec2Isabelle.thy ===== *)
theory Spec2Isabelle
  imports ChangeCodec EncodeUpdates TreeEdit VersionVec SortProof
    Postcard ColumnarRle ColumnarDoD ColumnarVec XXH32 Lz4 FastFormat SSTable SeqExamples LogTheorems
begin

text \<open>
  A verification development of loro-go, a Go implementation of Loro CRDT documents that reads and
  writes the Fast wire format of loro-crdt byte for byte.

  \<^bold>\<open>The program and its model.\<close> Packages under \<open>encoding/\<close> read and write blobs; package \<open>loro\<close> turns
  blobs into changes and ops, merges them into a document's state, and keeps the history of a live
  document. Each group of theories models one of them, function by function, under the names of the
  source:

  \<^item> \<open>Prelude\<close>, \<open>GoSlice\<close>, \<open>GoText\<close>, \<open>GoMap\<close>, \<open>GoSearch\<close>: errors as values (\<open>res\<close>: an error of the
    program, a panic, or a result), Go's slice expressions with their panics, runes and UTF-8, maps
    as lists in key order, binary search.
  \<^item> \<open>Cursor\<close>: readers that consume bytes, and the locales \<open>cursor\<close>, \<open>codec\<close>, \<open>stream\<close>,
    \<open>loop_body\<close> that state once what every decoder promises; each is interpreted on the program's
    readers where they are modelled.
  \<^item> \<open>Postcard\<close>, \<open>ColumnarRle\<close>, \<open>ColumnarDoD\<close>, \<open>ColumnarVec\<close>, \<open>XXH32\<close>, \<open>Lz4\<close>, \<open>FastFormat\<close>,
    \<open>SSTable\<close>: \<open>encoding/postcard\<close>, \<open>columnar\<close>, \<open>xxh32\<close>, \<open>lz4\<close>, \<open>fast\<close>, \<open>kv\<close>. Round trips, bounds on
    what hostile input can make the decoders produce, freedom from panics, XXH32 against its
    reference definition, LZ4 against the meaning of a block.
  \<^item> \<open>ChangeBlock\<close>, \<open>ChangeArena\<close>, \<open>BlockHeader\<close>, \<open>ChangeCodec\<close>, \<open>ChangeValue\<close>, \<open>ValueRoundTrip\<close>,
    \<open>ValueSafety\<close>, \<open>Registers\<close>: \<open>encoding/change\<close>. A block's frame, header, arenas and op values,
    written and read back.
  \<^item> \<open>LoroTypes\<close>, \<open>DecodeUpdates\<close>, \<open>EncodeUpdates\<close>: \<open>loro/decode.go\<close> and \<open>encode_updates.go\<close>, ops
    and changes to and from blocks, with the checks of \<open>checkOp\<close> and \<open>checkChange\<close>.
  \<^item> \<open>FxTable\<close>, \<open>FxProbe\<close>, \<open>FxInvariant\<close>, \<open>FxInsert\<close>, \<open>FxResize\<close>, \<open>FxRehash\<close>, \<open>FxMap\<close>, \<open>FxRefine\<close>,
    \<open>Frontiers\<close>: \<open>loro/frontiers.go\<close>, the replay of Rust's hash table that decides orders in the wire
    format. The table refines a finite map (locale \<open>map_impl\<close>), whatever the operations, and frontiers are
    sets of heads.
  \<^item> \<open>VersionVec\<close>: \<open>loro/version.go\<close>'s version vectors and encoded frontiers.
  \<^item> \<open>RustSort\<close>, \<open>SortProof\<close>: \<open>loro/rustsort.go\<close>; the locale \<open>weak_order\<close> holds what the sort promises
    of any strict weak order and is interpreted on the order of changes by lamport in \<open>LogTheorems\<close>.
  \<^item> \<open>OpRanges\<close>, \<open>FracIndex\<close>, \<open>TreeMerge\<close>, \<open>TreeIndex\<close>, \<open>TreeEdit\<close>: \<open>collect\<close> and \<open>buildTree\<close> of
    \<open>loro/merge.go\<close>, and the fractional indexes, the kept index and the placing of nodes of
    \<open>loro/tree.go\<close>.
  \<^item> \<open>SeqState\<close>, \<open>SeqView\<close>, \<open>SeqInsert\<close>, \<open>SeqDelete\<close>, \<open>SeqApply\<close>, \<open>SeqMerge\<close>, \<open>SeqSpec\<close>,
    \<open>SeqHistory\<close>, \<open>SeqExamples\<close>: \<open>loro/seqmerge.go\<close>, the merge of concurrent edits of texts and
    lists. One op's effect in its author's view, the invariant of the sequence, and the refinement
    of plain list editing by a history without concurrency.
  \<^item> \<open>OpFold\<close>, \<open>ChangeStore\<close>, \<open>OpAtoms\<close>, \<open>StoreAtoms\<close>, \<open>StoreProof\<close>: the change store of
    \<open>loro/oplog.go\<close> with the folding rules of \<open>loro/txn.go\<close> and the cuts of \<open>loro/export_from.go\<close>. An op
    stands for its atoms (\<open>atoms\<close>), a change for its atoms with what each depends on
    (\<open>change_atoms\<close>), the store for one log of atoms per peer (\<open>store_atoms\<close>); folding, merging,
    appending and splitting lose no atom and change none.
  \<^item> \<open>OpLog\<close>, \<open>OpLogProof\<close>, \<open>LogImport\<close>, \<open>LogPasses\<close>, \<open>LogTheorems\<close>: the history of \<open>loro/oplog.go\<close>:
    applying changes, leaving changes waiting, importing and exporting. The invariant \<open>oplog_ok\<close>
    relates store, version, frontiers and hash table, and \<open>waiting_ok\<close> the pending changes to the ids
    still to be tried.

  \<^bold>\<open>State, errors, integers.\<close> State is passed explicitly as records; a Go map whose order can show is
  a list in key order or the modelled hash table; shared objects that the code mutates (sequence
  nodes, buffers of list items) live in an explicit heap. 64-bit and 32-bit integers are words and
  wrap; Go's \<open>int\<close> counting things in memory is \<open>int\<close> or \<open>nat\<close>. Error texts are
  left out, an error is a tag.

  \<^bold>\<open>Loops.\<close> Most loops are structural or have a measure: \<open>work_left\<close> for the stack of
  \<open>applyPending\<close>, the remaining bytes for decoders, the step budget for the version walk of the merge.
  The hash table's probe loops run with fuel and are proved to end (\<open>fx_find_ok\<close>); \<open>cut_loop\<close> has
  the length of the op plus two as fuel, and \<open>cut_loop_ok\<close> shows it is never used up by a checked op.

  \<^bold>\<open>Hypotheses.\<close> \<open>op_ok\<close>, \<open>change_ok\<close> and \<open>import_ok\<close> are what decoding and \<open>checkChange\<close> make sure of,
  with at most 1023 dependencies for a change (see \<open>text_on_many_heads_panics\<close> for why).
  Counters stay below \<open>2 ^ 62\<close>.

  \<^bold>\<open>Not modelled.\<close> The rules that tests switch off (\<open>knocked\<close>, always false in production); step
  counters kept for tests; \<open>growBuf\<close> and the copying of values (\<open>clone\<close>), which have no meaning for
  immutable values; the \<open>Document\<close> with its handles, transactions and JSON rendering
  (\<open>document.go\<close>, \<open>containers.go\<close>, \<open>handles.go\<close>, \<open>movablelist.go\<close>, \<open>richtext.go\<close>, \<open>docstate.go\<close>,
  \<open>mergeable.go\<close>, \<open>nested.go\<close>, \<open>delta.go\<close>), locking, and the Matrix integration.
\<close>

end
